(* ===== verification/Prelude.thy ===== *)
theory Prelude
  imports Main "HOL-Library.Word" "HOL-Library.Monad_Syntax"
begin

text \<open>
  Shared vocabulary of the development: the C integer types of \<^verbatim>\<open>rtdef.h\<close> as words, the
  error codes, \<^verbatim>\<open>RT_ASSERT\<close> as a step of the option monad, and the generic facts on words,
  lists and options that the component theories use.

  \<^verbatim>\<open>None\<close> is the result of an operation that never returns: a failed \<^verbatim>\<open>RT_ASSERT\<close>
  (\<^verbatim>\<open>rt_assert_handler\<close> loops for ever) or the dereference of a null pointer.
\<close>

unbundle bit_operations_syntax

named_theorems frame_simps \<open>what an operation leaves unchanged\<close>
named_theorems stat_simps \<open>reading and writing the state bits of a thread\<close>
named_theorems mono_bind \<open>splitting a successful run of the option monad\<close>

type_synonym u8 = "8 word"
type_synonym u16 = "16 word"
type_synonym u32 = "32 word"
type_synonym rt_tick_t = "32 word"
type_synonym rt_err_t = int

abbreviation (input) RT_EOK :: rt_err_t where "RT_EOK \<equiv> 0"
abbreviation (input) RT_ERROR :: rt_err_t where "RT_ERROR \<equiv> 1"
abbreviation (input) RT_ETIMEOUT :: rt_err_t where "RT_ETIMEOUT \<equiv> 2"
abbreviation (input) RT_EFULL :: rt_err_t where "RT_EFULL \<equiv> 3"
abbreviation (input) RT_EEMPTY :: rt_err_t where "RT_EEMPTY \<equiv> 4"
abbreviation (input) RT_ENOMEM :: rt_err_t where "RT_ENOMEM \<equiv> 5"
abbreviation (input) RT_ENOSYS :: rt_err_t where "RT_ENOSYS \<equiv> 6"
abbreviation (input) RT_EBUSY :: rt_err_t where "RT_EBUSY \<equiv> 7"
abbreviation (input) RT_EINTR :: rt_err_t where "RT_EINTR \<equiv> 9"
abbreviation (input) RT_EINVAL :: rt_err_t where "RT_EINVAL \<equiv> 10"

abbreviation (input) RT_TICK_MAX :: rt_tick_t where "RT_TICK_MAX \<equiv> 0xffffffff"

definition RT_TICK_HALF :: rt_tick_t where
  "RT_TICK_HALF = 0x7fffffff"

definition rt_assert :: "bool \<Rightarrow> unit option" where
  "rt_assert b = (if b then Some () else None)"

definition RT_ALIGN :: "u32 \<Rightarrow> u32 \<Rightarrow> u32" where
  "RT_ALIGN sz align = (sz + align - 1) AND NOT (align - 1)"

definition RT_ALIGN_DOWN :: "u32 \<Rightarrow> u32 \<Rightarrow> u32" where
  "RT_ALIGN_DOWN sz align = sz AND NOT (align - 1)"

section \<open>The option monad\<close>

lemma rt_assert_bind [simp]: "(rt_assert b \<bind> f) = (if b then f () else None)"
  by (simp add: rt_assert_def)

lemma rt_assert_Some [simp]: "rt_assert b = Some u \<longleftrightarrow> b"
  by (simp add: rt_assert_def)

lemmas bind_Some_iff [mono_bind] = Option.bind_eq_Some_conv

lemma bind_SomeE:
  assumes "(m \<bind> f) = Some y"
  obtains x where "m = Some x" and "f x = Some y"
  using assms by (cases m) auto

text \<open>Running a fallible step for each element of a list.\<close>

primrec iterM :: "('a \<Rightarrow> 's \<Rightarrow> 's option) \<Rightarrow> 'a list \<Rightarrow> 's \<Rightarrow> 's option" where
  "iterM f [] s = Some s"
| "iterM f (x # xs) s = f x s \<bind> iterM f xs"

lemma iterM_append: "iterM f (xs @ ys) s = iterM f xs s \<bind> iterM f ys"
proof (induction xs arbitrary: s)
  case (Cons x xs)
  then show ?case by (cases "f x s") simp_all
qed simp

section \<open>Words\<close>

lemma and_mask_or_clear:
  fixes s x m :: "'a::len word"
  assumes "s AND m = s"
  shows "(s OR (x AND NOT m)) AND m = s"
proof -
  have "(s OR (x AND NOT m)) AND m = (s AND m) OR (x AND (NOT m AND m))"
    by (simp add: and.assoc bit.conj_disj_distrib2)
  then show ?thesis using assms by simp
qed

lemma or_clear_and_outside:
  fixes s x m y :: "'a::len word"
  assumes "s AND y = 0" and "y AND m = 0"
  shows "(s OR (x AND NOT m)) AND y = x AND y"
proof (rule bit_word_eqI)
  fix n
  assume "n < LENGTH('a)"
  moreover from assms have "bit (s AND y) n = bit (0 :: 'a word) n" "bit (y AND m) n = bit (0 :: 'a word) n"
    by simp_all
  ultimately show "bit ((s OR (x AND NOT m)) AND y) n = bit (x AND y) n"
    by (auto simp: bit_simps)
qed

lemma word_sub_eq_0_iff: "(a :: 'a::len word) - b = 0 \<longleftrightarrow> a = b"
  by simp

lemma unat_neg:
  fixes w :: "'a::len word"
  assumes "w \<noteq> 0"
  shows "unat (- w) = 2 ^ LENGTH('a) - unat w"
proof -
  have "uint w \<noteq> 0" using assms by (metis uint_0_eq word_uint_eq_iff)
  then have "uint (- w) = 2 ^ LENGTH('a) - uint w"
    using uint_lt2p [of w] by (simp add: uint_word_ariths zmod_zminus1_eq_if)
  then have "int (unat (- w)) = int (2 ^ LENGTH('a)) - int (unat w)"
    by simp
  then show ?thesis by linarith
qed

lemma unat_bound: "unat (n :: 'a::len word) < 2 ^ LENGTH('a)"
  by (rule unsigned_less)

lemma unat_Suc_less:
  fixes i n :: "'a::len word"
  assumes "unat i < unat n"
  shows "unat (i + 1) = Suc (unat i)"
proof -
  have "Suc (unat i) < 2 ^ LENGTH('a)" using assms unat_bound [of n] by linarith
  then show ?thesis by (simp add: unat_word_ariths)
qed

lemma and_not_mask: "(x :: 'a::len word) AND NOT (mask n) = push_bit n (drop_bit n x)"
  by (auto intro!: bit_word_eqI simp: bit_simps)

lemma and_minus_4: "(x :: 'a::len word) AND - 4 = push_bit 2 (drop_bit 2 x)"
  using and_not_mask [of x 2] by (simp add: mask_eq_exp_minus_1)

lemma unat_align_down: "unat ((x :: 'a::len word) AND - 4) = unat x div 4 * 4"
proof -
  have "unat x div 4 * 4 < 2 ^ LENGTH('a)" using unat_bound [of x] by (simp add: le_less_trans [of "unat x div 4 * 4" "unat x"])
  then show ?thesis
    unfolding and_minus_4 unsigned_push_bit_eq unsigned_drop_bit_eq
    by (simp add: push_bit_eq_mult drop_bit_eq_div take_bit_eq_mod)
qed

lemma sint_pos:
  fixes x :: "'a::len word"
  assumes "0 < sint x" shows "sint x = int (unat x)" "unat x < 2 ^ (LENGTH('a) - 1)"
proof -
  have "sint x < 2 ^ (LENGTH('a) - 1)" by (rule sint_lt)
  also have "(2::int) ^ (LENGTH('a) - 1) \<le> 2 ^ LENGTH('a)" by simp
  finally have "uint x = sint x" using uint_sint [of x] assms by (simp add: take_bit_eq_mod)
  then show "sint x = int (unat x)" by simp
  then have "int (unat x) < int (2 ^ (LENGTH('a) - 1))" using sint_lt [of x] by simp
  then show "unat x < 2 ^ (LENGTH('a) - 1)" by linarith
qed

section \<open>Lists\<close>

lemma removeAll_notin [simp]: "x \<notin> set xs \<Longrightarrow> removeAll x xs = xs"
  by (rule removeAll_id)

lemma removeAll_eq_Nil_iff: "removeAll x xs = [] \<longleftrightarrow> set xs \<subseteq> {x}"
  by (induction xs) auto

lemma distinct_removeAll_Cons: "distinct (x # xs) \<Longrightarrow> removeAll x (x # xs) = xs"
  by simp

end
