(* ===== verification/Rt_List.thy ===== *)
theory Rt_List
  imports Prelude
begin

text \<open>
  The intrusive doubly linked lists of \<^verbatim>\<open>include/rtservice.h\<close>, on an explicit store of nodes.
  \<open>seg h a xs b\<close> says that following \<^verbatim>\<open>next\<close> from \<open>a\<close> one meets exactly \<open>xs\<close> before \<open>b\<close>, with
  \<^verbatim>\<open>prev\<close> pointing back along the way; \<open>dll h l xs\<close> says that the ring of the head \<open>l\<close> holds the
  nodes \<open>xs\<close>. Every list operation is shown to refine the operation on \<open>xs\<close>, and the locale
  \<open>list_contract\<close> states that contract for the kernel, which works on \<open>xs\<close> directly.
\<close>

section \<open>Operations\<close>

record rt_list_node =
  nxt :: nat
  prv :: nat

type_synonym store = "nat \<Rightarrow> rt_list_node"

definition set_next :: "nat \<Rightarrow> nat \<Rightarrow> store \<Rightarrow> store" where
  "set_next a v h = h(a := (h a)\<lparr>nxt := v\<rparr>)"

definition set_prev :: "nat \<Rightarrow> nat \<Rightarrow> store \<Rightarrow> store" where
  "set_prev a v h = h(a := (h a)\<lparr>prv := v\<rparr>)"

definition rt_list_init :: "nat \<Rightarrow> store \<Rightarrow> store" where
  "rt_list_init l h = set_next l l (set_prev l l h)"

definition rt_list_insert_after :: "nat \<Rightarrow> nat \<Rightarrow> store \<Rightarrow> store" where
  "rt_list_insert_after l n h =
     (let h = set_prev (nxt (h l)) n h;
          h = set_next n (nxt (h l)) h;
          h = set_next l n h
      in set_prev n l h)"

definition rt_list_insert_before :: "nat \<Rightarrow> nat \<Rightarrow> store \<Rightarrow> store" where
  "rt_list_insert_before l n h =
     (let h = set_next (prv (h l)) n h;
          h = set_prev n (prv (h l)) h;
          h = set_prev l n h
      in set_next n l h)"

definition rt_list_remove :: "nat \<Rightarrow> store \<Rightarrow> store" where
  "rt_list_remove n h =
     (let h = set_prev (nxt (h n)) (prv (h n)) h;
          h = set_next (prv (h n)) (nxt (h n)) h
      in set_next n n (set_prev n n h))"

definition rt_list_isempty :: "nat \<Rightarrow> store \<Rightarrow> bool" where
  "rt_list_isempty l h = (nxt (h l) = l)"

partial_function (option) rt_list_len_loop :: "store \<Rightarrow> nat \<Rightarrow> nat \<Rightarrow> u32 \<Rightarrow> u32 option" where
  "rt_list_len_loop h l p len =
     (if nxt (h p) \<noteq> l then rt_list_len_loop h l (nxt (h p)) (len + 1) else Some len)"

definition rt_list_len :: "nat \<Rightarrow> store \<Rightarrow> u32 option" where
  "rt_list_len l h = rt_list_len_loop h l l 0"

section \<open>Representation\<close>

fun seg :: "store \<Rightarrow> nat \<Rightarrow> nat list \<Rightarrow> nat \<Rightarrow> bool" where
  "seg h a [] b = (nxt (h a) = b \<and> prv (h b) = a)"
| "seg h a (x # xs) b = (nxt (h a) = x \<and> prv (h x) = a \<and> seg h x xs b)"

definition dll :: "store \<Rightarrow> nat \<Rightarrow> nat list \<Rightarrow> bool" where
  "dll h l xs = (distinct (l # xs) \<and> seg h l xs l)"

lemma set_next_simps [simp]:
  "nxt (set_next a v h x) = (if x = a then v else nxt (h x))"
  "prv (set_next a v h x) = prv (h x)"
  by (simp_all add: set_next_def)

lemma set_prev_simps [simp]:
  "prv (set_prev a v h x) = (if x = a then v else prv (h x))"
  "nxt (set_prev a v h x) = nxt (h x)"
  by (simp_all add: set_prev_def)

lemma seg_append: "seg h a (xs @ y # ys) b \<longleftrightarrow> seg h a xs y \<and> seg h y ys b"
  by (induction xs arbitrary: a) auto

lemma seg_ends: "seg h a xs b \<Longrightarrow> nxt (h a) = hd (xs @ [b]) \<and> prv (h b) = last (a # xs)"
  by (induction xs arbitrary: a) auto

lemma seg_cong:
  assumes "\<And>x. x \<in> set (a # xs) \<Longrightarrow> nxt (h' x) = nxt (h x)"
    and "\<And>x. x \<in> set (xs @ [b]) \<Longrightarrow> prv (h' x) = prv (h x)"
  shows "seg h' a xs b = seg h a xs b"
  using assms by (induction xs arbitrary: a) auto

lemma seg_retarget:
  assumes "seg h a xs b" "distinct (a # xs)"
    and "\<And>x. x \<in> set (butlast (a # xs)) \<Longrightarrow> nxt (h' x) = nxt (h x)"
    and "\<And>x. x \<in> set xs \<Longrightarrow> prv (h' x) = prv (h x)"
    and "nxt (h' (last (a # xs))) = c" "prv (h' c) = last (a # xs)"
  shows "seg h' a xs c"
  using assms
proof (induction xs arbitrary: a)
  case (Cons x xs)
  have "seg h' x xs c"
    using Cons.prems by (intro Cons.IH) auto
  with Cons.prems show ?case by auto
qed simp

lemma seg_resource:
  assumes "seg h a xs b" "hd (xs @ [b]) = y"
    and "\<And>x. x \<in> set xs \<Longrightarrow> nxt (h' x) = nxt (h x)"
    and "\<And>x. x \<in> set (tl (xs @ [b])) \<Longrightarrow> prv (h' x) = prv (h x)"
    and "nxt (h' c) = y" "prv (h' y) = c"
  shows "seg h' c xs b"
proof (cases xs)
  case Nil
  with assms show ?thesis by simp
next
  case (Cons z zs)
  with assms have "seg h' z zs b = seg h z zs b"
    by (intro seg_cong) auto
  with Cons assms show ?thesis by auto
qed

text \<open>Linking a node between its two neighbours, the common effect of both insertions.\<close>

lemma dll_link:
  assumes d: "dll h l (as @ bs)" and n: "n \<noteq> l" "n \<notin> set (as @ bs)"
    and q: "q = last (l # as)" and p: "p = hd (bs @ [l])"
    and h': "nxt (h' q) = n" "prv (h' n) = q" "nxt (h' n) = p" "prv (h' p) = n"
    and nf: "\<And>x. x \<noteq> q \<Longrightarrow> x \<noteq> n \<Longrightarrow> nxt (h' x) = nxt (h x)"
    and pf: "\<And>x. x \<noteq> p \<Longrightarrow> x \<noteq> n \<Longrightarrow> prv (h' x) = prv (h x)"
  shows "dll h' l (as @ n # bs)"
proof -
  from d have dist: "distinct (l # as @ bs)" and sg: "seg h l (as @ bs) l"
    by (auto simp: dll_def)
  have pq: "p \<notin> set as" "p \<notin> set (tl (bs @ [l]))" "q \<notin> set bs" "q \<notin> set (butlast (l # as))"
    using dist p q by (cases bs; cases as rule: rev_cases; auto)+
  have split: "seg h l as p" "seg h q bs l"
    using sg p q seg_ends [OF sg]
    by (cases bs; cases as rule: rev_cases; auto simp: seg_append dest: seg_ends)+
  have "seg h' l as n"
  proof (rule seg_retarget [OF split(1)])
    show "nxt (h' x) = nxt (h x)" if "x \<in> set (butlast (l # as))" for x
      using that pq n by (intro nf) (auto split: if_splits dest: in_set_butlastD)
    show "prv (h' x) = prv (h x)" if "x \<in> set as" for x
      using that pq n by (intro pf) auto
  qed (use dist h' q in auto)
  moreover have "seg h' n bs l"
  proof (rule seg_resource [OF split(2)])
    show "nxt (h' x) = nxt (h x)" if "x \<in> set bs" for x
      using that pq n by (intro nf) auto
    show "prv (h' x) = prv (h x)" if "x \<in> set (tl (bs @ [l]))" for x
      using that pq n by (intro pf) (auto dest: list.set_sel(2) [rotated])
  qed (use h' p in auto)
  ultimately show ?thesis
    using dist n by (auto simp: dll_def seg_append)
qed

section \<open>Refinement\<close>

lemma dll_init: "dll (rt_list_init l h) l []"
  by (simp add: dll_def rt_list_init_def)

lemma dll_neighbours:
  assumes "dll h l (as @ bs)"
  shows "nxt (h (last (l # as))) = hd (bs @ [l])" "prv (h (hd (bs @ [l]))) = last (l # as)"
  using assms
  by (cases bs; cases as rule: rev_cases; auto simp: dll_def seg_append dest: seg_ends)+

lemma dll_insert_after:
  assumes d: "dll h l (as @ bs)" and n: "n \<noteq> l" "n \<notin> set (as @ bs)" and q: "q = last (l # as)"
  shows "dll (rt_list_insert_after q n h) l (as @ n # bs)"
proof -
  have nq: "n \<noteq> q" using n q by (cases as rule: rev_cases) auto
  have np: "n \<noteq> hd (bs @ [l])" using n by (cases bs) auto
  show ?thesis
    by (rule dll_link [OF d n q refl])
      (use nq np dll_neighbours [OF d] q in \<open>simp_all add: rt_list_insert_after_def Let_def\<close>)
qed

lemma dll_insert_before:
  assumes d: "dll h l (as @ bs)" and n: "n \<noteq> l" "n \<notin> set (as @ bs)" and p: "p = hd (bs @ [l])"
  shows "dll (rt_list_insert_before p n h) l (as @ n # bs)"
proof -
  have nq: "n \<noteq> last (l # as)" using n by (cases as rule: rev_cases) auto
  have np: "n \<noteq> p" using n p by (cases bs) auto
  show ?thesis
    by (rule dll_link [OF d n refl p])
      (use nq np dll_neighbours [OF d] p in \<open>simp_all add: rt_list_insert_before_def Let_def\<close>)
qed

lemma dll_remove:
  assumes d: "dll h l (as @ n # bs)"
  shows "dll (rt_list_remove n h) l (as @ bs)"
proof -
  let ?q = "last (l # as)" and ?p = "hd (bs @ [l])" and ?h = "rt_list_remove n h"
  from d have dist: "distinct (l # as @ n # bs)" and sg: "seg h l as n" "seg h n bs l"
    by (auto simp: dll_def seg_append)
  have nb: "nxt (h n) = ?p" "prv (h n) = ?q"
    using seg_ends [OF sg(1)] seg_ends [OF sg(2)] by auto
  have nqp: "?q \<noteq> n" "?p \<noteq> n"
    using dist by (cases as rule: rev_cases; cases bs; auto)+
  have pq: "?p \<notin> set as" "?p \<notin> set (tl (bs @ [l]))" "?q \<notin> set bs" "?q \<notin> set (butlast (l # as))"
    using dist by (cases bs; cases as rule: rev_cases; auto)+
  have fr: "x \<noteq> ?q \<Longrightarrow> x \<noteq> n \<Longrightarrow> nxt (?h x) = nxt (h x)"
    "x \<noteq> ?p \<Longrightarrow> x \<noteq> n \<Longrightarrow> prv (?h x) = prv (h x)"
    "nxt (?h ?q) = ?p" "prv (?h ?p) = ?q" for x
    using nb nqp by (simp_all add: rt_list_remove_def Let_def)
  have 1: "seg ?h l as ?p"
  proof (rule seg_retarget [OF sg(1)])
    show "nxt (?h x) = nxt (h x)" if "x \<in> set (butlast (l # as))" for x
      using that pq dist by (intro fr(1)) (auto split: if_splits dest: in_set_butlastD)
    show "prv (?h x) = prv (h x)" if "x \<in> set as" for x
      using that pq dist by (intro fr(2)) auto
  qed (use dist fr in auto)
  have 2: "seg ?h ?q bs l"
  proof (rule seg_resource [OF sg(2) refl])
    show "nxt (?h x) = nxt (h x)" if "x \<in> set bs" for x
      using that pq dist by (intro fr(1)) auto
    show "prv (?h x) = prv (h x)" if "x \<in> set (tl (bs @ [l]))" for x
      using that pq dist by (intro fr(2)) (auto dest: list.set_sel(2) [rotated])
  qed (use fr in auto)
  have "seg ?h l (as @ bs) l"
    using 1 2 by (cases bs; cases as rule: rev_cases) (auto simp: seg_append)
  with dist show ?thesis by (auto simp: dll_def)
qed

lemma dll_isempty: "dll h l xs \<Longrightarrow> rt_list_isempty l h \<longleftrightarrow> xs = []"
  by (cases xs) (auto simp: dll_def rt_list_isempty_def)

lemma dll_first: "dll h l (x # xs) \<Longrightarrow> nxt (h l) = x"
  by (simp add: dll_def)

lemma dll_len_loop:
  "seg h p xs l \<Longrightarrow> l \<notin> set xs \<Longrightarrow> rt_list_len_loop h l p n = Some (n + word_of_nat (length xs))"
proof (induction xs arbitrary: p n)
  case (Cons x xs)
  then have "rt_list_len_loop h l x (n + 1) = Some (n + 1 + word_of_nat (length xs))"
    by (intro Cons.IH) auto
  with Cons.prems show ?case
    by (subst rt_list_len_loop.simps) (simp add: add.assoc)
qed (simp add: rt_list_len_loop.simps)

section \<open>The contract the kernel relies on\<close>

text \<open>
  \<open>repr s l xs\<close>: in store \<open>s\<close> the list of head \<open>l\<close> holds \<open>xs\<close>. The laws are what
  the kernel uses of \<^verbatim>\<open>rtservice.h\<close>: a fresh node put before the head ends up last, put after the
  head it ends up first, put before a member it stands in front of it, and a removed node is gone.
\<close>

locale list_contract =
  fixes repr :: "'s \<Rightarrow> nat \<Rightarrow> nat list \<Rightarrow> bool"
    and ins_before :: "nat \<Rightarrow> nat \<Rightarrow> 's \<Rightarrow> 's"
    and ins_after :: "nat \<Rightarrow> nat \<Rightarrow> 's \<Rightarrow> 's"
    and rem :: "nat \<Rightarrow> 's \<Rightarrow> 's"
    and isempty :: "nat \<Rightarrow> 's \<Rightarrow> bool"
  assumes repr_distinct: "repr s l xs \<Longrightarrow> distinct (l # xs)"
    and repr_before: "repr s l (as @ bs) \<Longrightarrow> n \<noteq> l \<Longrightarrow> n \<notin> set (as @ bs) \<Longrightarrow>
      p = hd (bs @ [l]) \<Longrightarrow> repr (ins_before p n s) l (as @ n # bs)"
    and repr_after: "repr s l (as @ bs) \<Longrightarrow> n \<noteq> l \<Longrightarrow> n \<notin> set (as @ bs) \<Longrightarrow>
      q = last (l # as) \<Longrightarrow> repr (ins_after q n s) l (as @ n # bs)"
    and repr_rem: "repr s l (as @ n # bs) \<Longrightarrow> repr (rem n s) l (as @ bs)"
    and repr_isempty: "repr s l xs \<Longrightarrow> isempty l s \<longleftrightarrow> xs = []"
begin

lemma append_at_head: "repr s l xs \<Longrightarrow> n \<noteq> l \<Longrightarrow> n \<notin> set xs \<Longrightarrow> repr (ins_before l n s) l (xs @ [n])"
  using repr_before [of s l xs "[]" n l] by simp

lemma push_at_head: "repr s l xs \<Longrightarrow> n \<noteq> l \<Longrightarrow> n \<notin> set xs \<Longrightarrow> repr (ins_after l n s) l (n # xs)"
  using repr_after [of s l "[]" xs n l] by simp

lemma remove_member:
  assumes "repr s l xs" and "n \<in> set xs"
  shows "repr (rem n s) l (removeAll n xs)"
proof -
  from assms(2) obtain as bs where xs: "xs = as @ n # bs"
    by (blast dest: split_list)
  with repr_distinct [OF assms(1)] have "removeAll n xs = as @ bs"
    by auto
  with repr_rem [of s l as n bs] assms(1) xs show ?thesis by simp
qed

lemma fifo_order:
  assumes "repr s l xs" "n \<noteq> l" "n \<notin> set xs" "x \<in> set xs"
  shows "repr (rem x (ins_before l n s)) l (removeAll x xs @ [n])"
proof -
  have "repr (ins_before l n s) l (xs @ [n])"
    using assms by (intro append_at_head)
  then have "repr (rem x (ins_before l n s)) l (removeAll x (xs @ [n]))"
    using assms by (intro remove_member) auto
  with assms show ?thesis by (auto split: if_splits)
qed

end

interpretation ring: list_contract dll rt_list_insert_before rt_list_insert_after rt_list_remove
  rt_list_isempty
proof (unfold_locales, goal_cases)
  case (1 s l xs) then show ?case by (simp add: dll_def)
next
  case (2 s l as bs n p) then show ?case by (rule dll_insert_before)
next
  case (3 s l as bs n q) then show ?case by (rule dll_insert_after)
next
  case (4 s l as n bs) then show ?case by (rule dll_remove)
next
  case (5 s l xs) then show ?case by (rule dll_isempty)
qed

section \<open>Properties\<close>


definition ring_example :: store where
  "ring_example = (\<lambda>a. if a = 0 then \<lparr>nxt = 1, prv = 2\<rparr> else if a = 1 then \<lparr>nxt = 2, prv = 0\<rparr>
     else \<lparr>nxt = 0, prv = 1\<rparr>)"

lemma ring_example_dll: "dll ring_example 0 [1, 2]"
  by (simp add: dll_def ring_example_def)


text \<open>\<^verbatim>\<open>rt_list_len\<close> terminates on every well-formed ring and returns the number of its nodes
  (modulo \<open>2 ^ 32\<close>, the width of its counter).\<close>

theorem rt_list_len_correct:
  "dll h l xs \<Longrightarrow> rt_list_len l h = Some (word_of_nat (length xs))"
  using dll_len_loop [of h l xs l 0] by (auto simp: dll_def rt_list_len_def)

theorem rt_list_len_witness: "rt_list_len 0 ring_example = Some 2"
  using rt_list_len_correct [OF ring_example_dll] by simp

end
