(* ===== verification/Queue_Spec.thy ===== *)
theory Queue_Spec
  imports Prelude
begin

text \<open>
  The contract of a bounded first-in-first-out queue, and what its clients get from it: any sequence of
  guarded insertions and removals behaves like one on a list, and a burst of insertions comes out in the
  same order. Mailboxes, message queues and ring buffers are interpretations.
\<close>

datatype 'a qop = Put 'a | Get

text \<open>The reference: a list with a capacity. An insertion into a full queue and a removal from an empty
  one do nothing.\<close>

fun list_run :: "nat \<Rightarrow> 'a qop list \<Rightarrow> 'a list \<Rightarrow> 'a list \<times> 'a list" where
  "list_run n [] q = ([], q)"
| "list_run n (Put a # ops) q = list_run n ops (if length q < n then q @ [a] else q)"
| "list_run n (Get # ops) q =
     (case q of
        [] \<Rightarrow> list_run n ops []
      | a # q' \<Rightarrow> (let (out, q'') = list_run n ops q' in (a # out, q'')))"

text \<open>The same sequence on an implementation.\<close>

fun queue_run ::
  "('a \<Rightarrow> 'q \<Rightarrow> 'q option) \<Rightarrow> ('q \<Rightarrow> ('a \<times> 'q) option) \<Rightarrow> ('q \<Rightarrow> bool) \<Rightarrow> ('q \<Rightarrow> bool) \<Rightarrow>
   'a qop list \<Rightarrow> 'q \<Rightarrow> ('a list \<times> 'q) option" where
  "queue_run put get full vacant [] q = Some ([], q)"
| "queue_run put get full vacant (Put a # ops) q =
     (if full q then queue_run put get full vacant ops q
      else put a q \<bind> queue_run put get full vacant ops)"
| "queue_run put get full vacant (Get # ops) q =
     (if vacant q then queue_run put get full vacant ops q
      else do {
        (a, q) \<leftarrow> get q;
        (out, q) \<leftarrow> queue_run put get full vacant ops q;
        Some (a # out, q)
      })"

text \<open>What leaves the queue is a prefix of what was in it followed by what was put in.\<close>

fun puts :: "'a qop list \<Rightarrow> 'a list" where
  "puts [] = []"
| "puts (Put a # ops) = a # puts ops"
| "puts (Get # ops) = puts ops"

lemma list_run_bound: "length q \<le> n \<Longrightarrow> length (snd (list_run n ops q)) \<le> n"
  by (induction n ops q rule: list_run.induct) (auto split: list.splits prod.splits)

lemma list_run_puts:
  "length q + length xs \<le> n \<Longrightarrow> list_run n (map Put xs @ ops) q = list_run n ops (q @ xs)"
  by (induction xs arbitrary: q) auto

lemma list_run_gets:
  "list_run n (replicate (length q) Get) q = (q, [])"
  by (induction q) auto

locale bounded_queue =
  fixes ok :: "'q \<Rightarrow> bool" and contents :: "'q \<Rightarrow> 'a list" and cap :: "'q \<Rightarrow> nat"
    and item :: "'q \<Rightarrow> 'a \<Rightarrow> bool"
    and put :: "'a \<Rightarrow> 'q \<Rightarrow> 'q option" and get :: "'q \<Rightarrow> ('a \<times> 'q) option"
    and full :: "'q \<Rightarrow> bool" and vacant :: "'q \<Rightarrow> bool"
  assumes put_step: "ok q \<Longrightarrow> item q a \<Longrightarrow> \<not> full q \<Longrightarrow>
      \<exists>q'. put a q = Some q' \<and> ok q' \<and> contents q' = contents q @ [a] \<and> cap q' = cap q \<and> item q' = item q"
    and get_step: "ok q \<Longrightarrow> \<not> vacant q \<Longrightarrow>
      \<exists>a q'. get q = Some (a, q') \<and> ok q' \<and> contents q = a # contents q' \<and> cap q' = cap q \<and> item q' = item q"
    and full_iff: "ok q \<Longrightarrow> full q \<longleftrightarrow> \<not> length (contents q) < cap q"
    and vacant_iff: "ok q \<Longrightarrow> vacant q \<longleftrightarrow> contents q = []"
begin

lemma run_refines:
  assumes "ok q" "list_all (item q) (puts ops)"
  shows "\<exists>q'. queue_run put get full vacant ops q = Some (fst (list_run (cap q) ops (contents q)), q') \<and>
    ok q' \<and> cap q' = cap q \<and> contents q' = snd (list_run (cap q) ops (contents q))"
  using assms
proof (induction ops arbitrary: q rule: puts.induct)
  case 1
  then show ?case by simp
next
  case (2 a ops)
  show ?case
  proof (cases "full q")
    case True
    with 2 show ?thesis using full_iff by simp
  next
    case False
    obtain q' where q': "put a q = Some q'" "ok q'" "contents q' = contents q @ [a]" "cap q' = cap q" "item q' = item q"
      using put_step [OF 2(2) _ False] 2(3) by auto
    with 2(1) [OF q'(2)] 2(3) False full_iff [OF 2(2)] show ?thesis by simp
  qed
next
  case (3 ops)
  show ?case
  proof (cases "vacant q")
    case True
    then have "contents q = []" using vacant_iff [OF 3(2)] by simp
    with True 3(1) [OF 3(2)] 3(3) show ?thesis by simp
  next
    case False
    obtain a q' where q': "get q = Some (a, q')" "ok q'" "contents q = a # contents q'" "cap q' = cap q" "item q' = item q"
      using get_step [OF 3(2) False] by blast
    obtain q'' where "queue_run put get full vacant ops q' = Some (fst (list_run (cap q') ops (contents q')), q'')"
      "ok q''" "cap q'' = cap q'" "contents q'' = snd (list_run (cap q') ops (contents q'))"
      using 3(1) [OF q'(2)] 3(3) q'(5) by auto
    then show ?thesis using q' False by (simp add: case_prod_beta Let_def)
  qed
qed

lemma burst:
  assumes "ok q" "contents q = []" "length xs \<le> cap q" "list_all (item q) xs"
  shows "\<exists>q'. queue_run put get full vacant (map Put xs @ replicate (length xs) Get) q = Some (xs, q') \<and>
    ok q' \<and> contents q' = []"
proof -
  have "puts (map Put xs @ replicate n Get) = xs" for n
    by (induction xs) (induction n, auto)
  with run_refines [of q "map Put xs @ replicate (length xs) Get"] assms
  show ?thesis by (auto simp: list_run_puts list_run_gets)
qed

end

section \<open>Circular buffers\<close>

text \<open>The \<open>n\<close> elements of a circular buffer from position \<open>out\<close> on.\<close>

definition ring_view :: "'a list \<Rightarrow> nat \<Rightarrow> nat \<Rightarrow> 'a list" where
  "ring_view xs out n = map (\<lambda>i. xs ! ((out + i) mod length xs)) [0..<n]"

lemma ring_view_length [simp]: "length (ring_view xs out n) = n"
  by (simp add: ring_view_def)

lemma ring_view_0 [simp]: "ring_view xs out 0 = []"
  by (simp add: ring_view_def)

lemma ring_index_neq:
  fixes out i n len :: nat
  assumes "i < n" "n < len"
  shows "(out + i) mod len \<noteq> (out + n) mod len"
proof
  assume "(out + i) mod len = (out + n) mod len"
  then have "len dvd (out + n) - (out + i)" using assms(1) by (intro mod_eq_dvd_iff_nat [THEN iffD1]) auto
  then have "len dvd n - i" by simp
  then show False using assms by (auto dest: dvd_imp_le)
qed

lemma ring_put:
  assumes "n < length xs"
  shows "ring_view (xs[(out + n) mod length xs := a]) out (Suc n) = ring_view xs out n @ [a]"
proof -
  have "0 < length xs" using assms by linarith
  then have "(out + n) mod length xs < length xs" by (rule mod_less_divisor)
  moreover have "xs[(out + n) mod length xs := a] ! ((out + i) mod length xs) = xs ! ((out + i) mod length xs)"
    if "i < n" for i using ring_index_neq [OF that assms, of out] by simp
  ultimately show ?thesis by (simp add: ring_view_def)
qed

lemma ring_advance: "0 < n \<Longrightarrow> (Suc out mod len + (n - 1)) mod len = (out + n) mod (len :: nat)"
  by (cases n) (simp_all add: mod_add_left_eq)

lemma ring_get:
  assumes "0 < n" "out < length xs"
  shows "ring_view xs out n = xs ! out # ring_view xs (Suc out mod length xs) (n - 1)"
proof -
  have "(Suc out mod length xs + i) mod length xs = (out + Suc i) mod length xs" for i
    by (metis add_Suc_shift mod_add_left_eq)
  moreover have "[0..<n] = 0 # map Suc [0..<n - 1]"
    using assms(1) by (cases n) (simp_all add: map_Suc_upt upt_conv_Cons)
  ultimately show ?thesis using assms by (simp add: ring_view_def comp_def)
qed

lemma ring_view_append:
  "ring_view xs out (m + n) = ring_view xs out m @ ring_view xs ((out + m) mod length xs) n"
proof (rule nth_equalityI)
  fix i
  assume "i < length (ring_view xs out (m + n))"
  then show "ring_view xs out (m + n) ! i = (ring_view xs out m @ ring_view xs ((out + m) mod length xs) n) ! i"
    by (auto simp: ring_view_def nth_append mod_add_left_eq)
qed simp

lemma ring_view_block: "out + n \<le> length xs \<Longrightarrow> ring_view xs out n = take n (drop out xs)"
  by (rule nth_equalityI) (auto simp: ring_view_def)

end
