(* ===== verification/Ring_Buffer.thy ===== *)
theory Ring_Buffer
  imports Queue_Spec
begin

text \<open>
  The byte ring buffer of the device drivers (\<^verbatim>\<open>components/drivers/src/ringbuffer.c\<close>). Each index has a mirror
  bit that flips when the index wraps, so that a full buffer and an empty one differ. Indices are 15-bit
  fields: what is stored in them is taken modulo \<open>2 ^ 15\<close>. An access outside of the pool has no result.
  A block of data is a list of bytes; its length is the parameter \<^verbatim>\<open>length\<close>.
\<close>

section \<open>Operations\<close>

record rt_ringbuffer =
  rb_pool :: "u8 list"
  rb_read_mirror :: bool
  rb_read_index :: nat
  rb_write_mirror :: bool
  rb_write_index :: nat
  rb_size :: nat

datatype rt_ringbuffer_state = RT_RINGBUFFER_EMPTY | RT_RINGBUFFER_FULL | RT_RINGBUFFER_HALFFULL

definition rt_ringbuffer_status :: "rt_ringbuffer \<Rightarrow> rt_ringbuffer_state" where
  "rt_ringbuffer_status rb =
     (if rb_read_index rb = rb_write_index rb then
        if rb_read_mirror rb = rb_write_mirror rb then RT_RINGBUFFER_EMPTY else RT_RINGBUFFER_FULL
      else RT_RINGBUFFER_HALFFULL)"

definition rt_ringbuffer_init :: "u8 list \<Rightarrow> 16 word \<Rightarrow> rt_ringbuffer option" where
  "rt_ringbuffer_init pool len = do {
     rt_assert (0 < sint len);
     Some \<lparr>rb_pool = pool, rb_read_mirror = False, rb_read_index = 0, rb_write_mirror = False, rb_write_index = 0,
           rb_size = unat (len AND NOT 3)\<rparr>
   }"

definition rt_ringbuffer_data_len :: "rt_ringbuffer \<Rightarrow> nat" where
  "rt_ringbuffer_data_len rb =
     (case rt_ringbuffer_status rb of
        RT_RINGBUFFER_EMPTY \<Rightarrow> 0
      | RT_RINGBUFFER_FULL \<Rightarrow> rb_size rb
      | RT_RINGBUFFER_HALFFULL \<Rightarrow>
          if rb_write_index rb > rb_read_index rb then rb_write_index rb - rb_read_index rb
          else rb_size rb - (rb_read_index rb - rb_write_index rb))"

definition rt_ringbuffer_space_len :: "rt_ringbuffer \<Rightarrow> nat" where
  "rt_ringbuffer_space_len rb = rb_size rb - rt_ringbuffer_data_len rb"

text \<open>\<^verbatim>\<open>memcpy\<close> into the pool and out of it.\<close>

definition mem_write :: "nat \<Rightarrow> u8 list \<Rightarrow> u8 list \<Rightarrow> u8 list option" where
  "mem_write i xs pool = do {
     rt_assert (i + length xs \<le> length pool);
     Some (take i pool @ xs @ drop (i + length xs) pool)
   }"

definition mem_read :: "nat \<Rightarrow> nat \<Rightarrow> u8 list \<Rightarrow> u8 list option" where
  "mem_read i n pool = do {
     rt_assert (i + n \<le> length pool);
     Some (take n (drop i pool))
   }"

text \<open>The copy of a block to the write index and the move of that index, as \<^verbatim>\<open>rt_ringbuffer_put\<close> and
  \<^verbatim>\<open>rt_ringbuffer_put_force\<close> do it. In the second branch a write index beyond the size would be the length of
  a copy of more than \<open>2 ^ 31\<close> bytes.\<close>

definition rb_store :: "u8 list \<Rightarrow> rt_ringbuffer \<Rightarrow> rt_ringbuffer option" where
  "rb_store data rb =
     (if rb_size rb - rb_write_index rb > length data then do {
        pool \<leftarrow> mem_write (rb_write_index rb) data (rb_pool rb);
        Some (rb\<lparr>rb_pool := pool, rb_write_index := (rb_write_index rb + length data) mod 2 ^ 15\<rparr>)
      }
      else do {
        rt_assert (rb_write_index rb \<le> rb_size rb);
        let n = rb_size rb - rb_write_index rb;
        pool \<leftarrow> mem_write (rb_write_index rb) (take n data) (rb_pool rb);
        pool \<leftarrow> mem_write 0 (drop n data) pool;
        Some (rb\<lparr>rb_pool := pool, rb_write_mirror := \<not> rb_write_mirror rb,
                 rb_write_index := (length data - n) mod 2 ^ 15\<rparr>)
      })"

definition rt_ringbuffer_put :: "u8 list \<Rightarrow> rt_ringbuffer \<Rightarrow> (nat \<times> rt_ringbuffer) option" where
  "rt_ringbuffer_put data rb =
     (let len = rt_ringbuffer_space_len rb
      in if len = 0 then Some (0, rb)
         else do {
           let data = (if len < length data then take len data else data);
           rb \<leftarrow> rb_store data rb;
           Some (length data, rb)
         })"

definition rt_ringbuffer_put_force :: "u8 list \<Rightarrow> rt_ringbuffer \<Rightarrow> (nat \<times> rt_ringbuffer) option" where
  "rt_ringbuffer_put_force data rb = do {
     let space = rt_ringbuffer_space_len rb;
     let data = (if length data > rb_size rb then drop (length data - rb_size rb) data else data);
     rb' \<leftarrow> rb_store data rb;
     Some (length data,
       if length data > space then
         (if rb_size rb - rb_write_index rb > length data then rb'\<lparr>rb_read_index := rb_write_index rb'\<rparr>
          else rb'\<lparr>rb_read_mirror := \<not> rb_read_mirror rb', rb_read_index := rb_write_index rb'\<rparr>)
       else rb')
   }"

definition rt_ringbuffer_get :: "nat \<Rightarrow> rt_ringbuffer \<Rightarrow> (u8 list \<times> rt_ringbuffer) option" where
  "rt_ringbuffer_get num rb =
     (let len = rt_ringbuffer_data_len rb
      in if len = 0 then Some ([], rb)
         else let num = (if len < num then len else num)
           in if rb_size rb - rb_read_index rb > num then do {
                data \<leftarrow> mem_read (rb_read_index rb) num (rb_pool rb);
                Some (data, rb\<lparr>rb_read_index := (rb_read_index rb + num) mod 2 ^ 15\<rparr>)
              }
              else do {
                rt_assert (rb_read_index rb \<le> rb_size rb);
                let n = rb_size rb - rb_read_index rb;
                data1 \<leftarrow> mem_read (rb_read_index rb) n (rb_pool rb);
                data2 \<leftarrow> mem_read 0 (num - n) (rb_pool rb);
                Some (data1 @ data2, rb\<lparr>rb_read_mirror := \<not> rb_read_mirror rb,
                                        rb_read_index := (num - n) mod 2 ^ 15\<rparr>)
              })"

text \<open>Moving an index by one.\<close>

definition rb_advance_write :: "rt_ringbuffer \<Rightarrow> rt_ringbuffer" where
  "rb_advance_write rb =
     (if Suc (rb_write_index rb) = rb_size rb then rb\<lparr>rb_write_mirror := \<not> rb_write_mirror rb, rb_write_index := 0\<rparr>
      else rb\<lparr>rb_write_index := (rb_write_index rb + 1) mod 2 ^ 15\<rparr>)"

definition rt_ringbuffer_putchar :: "u8 \<Rightarrow> rt_ringbuffer \<Rightarrow> (nat \<times> rt_ringbuffer) option" where
  "rt_ringbuffer_putchar ch rb =
     (if rt_ringbuffer_space_len rb = 0 then Some (0, rb)
      else do {
        rt_assert (rb_write_index rb < length (rb_pool rb));
        Some (1, rb_advance_write (rb\<lparr>rb_pool := (rb_pool rb)[rb_write_index rb := ch]\<rparr>))
      })"

definition rt_ringbuffer_putchar_force :: "u8 \<Rightarrow> rt_ringbuffer \<Rightarrow> (nat \<times> rt_ringbuffer) option" where
  "rt_ringbuffer_putchar_force ch rb = do {
     let old_state = rt_ringbuffer_status rb;
     rt_assert (rb_write_index rb < length (rb_pool rb));
     let rb' = rb_advance_write (rb\<lparr>rb_pool := (rb_pool rb)[rb_write_index rb := ch]\<rparr>);
     Some (1,
       if old_state = RT_RINGBUFFER_FULL then
         (if Suc (rb_write_index rb) = rb_size rb
          then rb'\<lparr>rb_read_mirror := \<not> rb_read_mirror rb', rb_read_index := rb_write_index rb'\<rparr>
          else rb'\<lparr>rb_read_index := rb_write_index rb'\<rparr>)
       else rb')
   }"

definition rt_ringbuffer_getchar :: "rt_ringbuffer \<Rightarrow> (u8 option \<times> rt_ringbuffer) option" where
  "rt_ringbuffer_getchar rb =
     (if rt_ringbuffer_data_len rb = 0 then Some (None, rb)
      else do {
        rt_assert (rb_read_index rb < length (rb_pool rb));
        Some (Some (rb_pool rb ! rb_read_index rb),
          if Suc (rb_read_index rb) = rb_size rb then rb\<lparr>rb_read_mirror := \<not> rb_read_mirror rb, rb_read_index := 0\<rparr>
          else rb\<lparr>rb_read_index := (rb_read_index rb + 1) mod 2 ^ 15\<rparr>)
      })"

definition rt_ringbuffer_reset :: "rt_ringbuffer \<Rightarrow> rt_ringbuffer" where
  "rt_ringbuffer_reset rb =
     rb\<lparr>rb_read_mirror := False, rb_read_index := 0, rb_write_mirror := False, rb_write_index := 0\<rparr>"

definition rt_ringbuffer_get_size :: "rt_ringbuffer \<Rightarrow> nat" where
  "rt_ringbuffer_get_size rb = rb_size rb"

text \<open>\<^verbatim>\<open>rt_ringbuffer_create\<close>: \<open>struct_mem\<close> tells whether the heap has room for the structure, \<open>pool_mem\<close> is the memory
  for the pool.\<close>

definition rt_ringbuffer_create :: "u16 \<Rightarrow> bool \<Rightarrow> u8 list option \<Rightarrow> rt_ringbuffer option option" where
  "rt_ringbuffer_create len struct_mem pool_mem = do {
     rt_assert (0 < len);
     let len = len AND NOT 3;
     if \<not> struct_mem then Some None
     else (case pool_mem of
         None \<Rightarrow> Some None
       | Some pool \<Rightarrow> do { rb \<leftarrow> rt_ringbuffer_init pool len; Some (Some rb) })
   }"

section \<open>Invariant and contents\<close>

definition rb_ok :: "rt_ringbuffer \<Rightarrow> bool" where
  "rb_ok rb \<longleftrightarrow>
     0 < rb_size rb \<and> rb_size rb < 2 ^ 15 \<and> rb_size rb \<le> length (rb_pool rb) \<and>
     rb_read_index rb < rb_size rb \<and> rb_write_index rb < rb_size rb \<and>
     (if rb_read_mirror rb = rb_write_mirror rb then rb_read_index rb \<le> rb_write_index rb
      else rb_write_index rb \<le> rb_read_index rb)"

definition rb_contents :: "rt_ringbuffer \<Rightarrow> u8 list" where
  "rb_contents rb = ring_view (take (rb_size rb) (rb_pool rb)) (rb_read_index rb) (rt_ringbuffer_data_len rb)"

lemma rb_data_len:
  assumes "rb_ok rb"
  shows "rt_ringbuffer_data_len rb =
    (if rb_read_mirror rb = rb_write_mirror rb then rb_write_index rb - rb_read_index rb
     else rb_size rb + rb_write_index rb - rb_read_index rb)"
  using assms by (auto simp: rt_ringbuffer_data_len_def rt_ringbuffer_status_def rb_ok_def split: if_splits)

lemma rb_data_bound: "rb_ok rb \<Longrightarrow> rt_ringbuffer_data_len rb \<le> rb_size rb"
  by (auto simp: rb_data_len rb_ok_def split: if_splits)

lemma rb_write_pos:
  assumes "rb_ok rb"
  shows "(rb_read_index rb + rt_ringbuffer_data_len rb) mod rb_size rb = rb_write_index rb"
  using assms by (auto simp: rb_data_len rb_ok_def split: if_splits)

lemma rb_view_block:
  "rb_ok rb \<Longrightarrow> i + n \<le> rb_size rb \<Longrightarrow> ring_view (take (rb_size rb) (rb_pool rb)) i n = take n (drop i (rb_pool rb))"
  by (auto simp: rb_ok_def ring_view_block drop_take)

lemma rb_contents_length [simp]: "length (rb_contents rb) = rt_ringbuffer_data_len rb"
  by (simp add: rb_contents_def)

text \<open>A fresh buffer and a reset one are empty. The size is rounded down to a multiple of 4; a buffer of less than 4
  bytes would have no room at all.\<close>

lemma rb_init_ok:
  fixes len :: "16 word"
  assumes "4 \<le> sint len" "sint len \<le> int (length pool)"
  shows "\<exists>rb. rt_ringbuffer_init pool len = Some rb \<and> rb_ok rb \<and> rb_contents rb = [] \<and>
    rb_size rb = unat (len AND NOT 3)"
proof -
  have u: "sint len = int (unat len)" "unat len < 2 ^ 15" using sint_pos [of len] assms(1) by simp_all
  have "0 < unat len div 4 * 4" "unat len div 4 * 4 \<le> unat len" using assms(1) u(1) by (auto simp: div_greater_zero_iff simp del: of_nat_unat)
  then show ?thesis using assms u
    by (auto simp: rt_ringbuffer_init_def rb_ok_def rb_contents_def rt_ringbuffer_data_len_def rt_ringbuffer_status_def
        unat_align_down simp del: of_nat_unat)
qed

section \<open>One byte at a time\<close>

text \<open>After writing one byte at the write index and moving it.\<close>

lemma rb_push_ok:
  fixes ch :: u8
  assumes ok: "rb_ok rb" and sp: "rt_ringbuffer_data_len rb < rb_size rb"
  defines "rb' \<equiv> rb_advance_write (rb\<lparr>rb_pool := (rb_pool rb)[rb_write_index rb := ch]\<rparr>)"
  shows "rb_ok rb' \<and> rb_contents rb' = rb_contents rb @ [ch] \<and> rb_size rb' = rb_size rb"
proof -
  let ?n = "rt_ringbuffer_data_len rb"
  have ok': "rb_ok rb'" using ok sp by (auto simp: rb'_def rb_advance_write_def rb_ok_def rb_data_len [OF ok] split: if_splits)
  have same: "rb_size rb' = rb_size rb" "rb_read_index rb' = rb_read_index rb" "rb_read_mirror rb' = rb_read_mirror rb"
    "rb_pool rb' = (rb_pool rb)[rb_write_index rb := ch]"
    by (simp_all add: rb'_def rb_advance_write_def)
  have "rt_ringbuffer_data_len rb' = Suc ?n"
    using ok sp unfolding rb_data_len [OF ok'] rb_data_len [OF ok] by (auto simp: rb'_def rb_advance_write_def rb_ok_def split: if_splits)
  moreover have "length (take (rb_size rb) (rb_pool rb)) = rb_size rb" using ok by (simp add: rb_ok_def)
  ultimately have "rb_contents rb' = rb_contents rb @ [ch]"
    using ring_put [of ?n "take (rb_size rb) (rb_pool rb)" "rb_read_index rb" ch] sp same rb_write_pos [OF ok]
    by (simp add: rb_contents_def take_update_swap)
  with ok' same show ?thesis by simp
qed

lemma rb_pop_ok:
  assumes ok: "rb_ok rb" and n: "0 < rt_ringbuffer_data_len rb"
  defines "rb' \<equiv> (if Suc (rb_read_index rb) = rb_size rb then rb\<lparr>rb_read_mirror := \<not> rb_read_mirror rb, rb_read_index := 0\<rparr>
          else rb\<lparr>rb_read_index := (rb_read_index rb + 1) mod 2 ^ 15\<rparr>)"
  shows "rb_ok rb' \<and> rb_contents rb = rb_pool rb ! rb_read_index rb # rb_contents rb' \<and> rb_size rb' = rb_size rb"
proof -
  let ?n = "rt_ringbuffer_data_len rb"
  have ok': "rb_ok rb'" using ok n by (auto simp: rb'_def rb_ok_def rb_data_len [OF ok] split: if_splits)
  have "rt_ringbuffer_data_len rb' = ?n - 1"
    using ok n unfolding rb_data_len [OF ok'] rb_data_len [OF ok] by (auto simp: rb'_def rb_ok_def split: if_splits)
  moreover have "rb_read_index rb' = Suc (rb_read_index rb) mod rb_size rb" using ok by (auto simp: rb'_def rb_ok_def)
  moreover have "length (take (rb_size rb) (rb_pool rb)) = rb_size rb" "rb_read_index rb < rb_size rb" using ok by (simp_all add: rb_ok_def)
  moreover have "rb_size rb' = rb_size rb" "rb_pool rb' = rb_pool rb" by (simp_all add: rb'_def)
  ultimately show ?thesis
    using ok' ring_get [OF n, of "rb_read_index rb" "take (rb_size rb) (rb_pool rb)"] by (simp add: rb_contents_def)
qed

definition rb_put1 :: "u8 \<Rightarrow> rt_ringbuffer \<Rightarrow> rt_ringbuffer option" where
  "rb_put1 ch rb = map_option snd (rt_ringbuffer_putchar ch rb)"

definition rb_get1 :: "rt_ringbuffer \<Rightarrow> (u8 \<times> rt_ringbuffer) option" where
  "rb_get1 rb = (case rt_ringbuffer_getchar rb of Some (Some ch, rb') \<Rightarrow> Some (ch, rb') | _ \<Rightarrow> None)"

abbreviation rb_full :: "rt_ringbuffer \<Rightarrow> bool" where
  "rb_full rb \<equiv> rt_ringbuffer_space_len rb = 0"

abbreviation rb_vacant :: "rt_ringbuffer \<Rightarrow> bool" where
  "rb_vacant rb \<equiv> rt_ringbuffer_data_len rb = 0"

lemma rb_full_iff: "rb_ok rb \<Longrightarrow> rb_full rb \<longleftrightarrow> \<not> rt_ringbuffer_data_len rb < rb_size rb"
  by (auto simp: rt_ringbuffer_space_len_def)

lemma rb_put1_step:
  assumes "rb_ok rb" "\<not> rb_full rb"
  shows "rb_put1 ch rb = Some (rb_advance_write (rb\<lparr>rb_pool := (rb_pool rb)[rb_write_index rb := ch]\<rparr>))"
  using assms by (simp add: rb_put1_def rt_ringbuffer_putchar_def rb_ok_def)

interpretation rbq: bounded_queue rb_ok rb_contents rb_size "\<lambda>_ _. True" rb_put1 rb_get1 rb_full rb_vacant
proof
  show "\<exists>rb'. rb_put1 ch rb = Some rb' \<and> rb_ok rb' \<and> rb_contents rb' = rb_contents rb @ [ch] \<and> rb_size rb' = rb_size rb \<and>
      (\<lambda>_. True) = (\<lambda>_. True)" if "rb_ok rb" "\<not> rb_full rb" for rb ch
    using rb_push_ok [OF that(1), of ch] rb_put1_step [OF that, of ch] rb_full_iff [OF that(1)] that(2) by auto
  show "\<exists>ch rb'. rb_get1 rb = Some (ch, rb') \<and> rb_ok rb' \<and> rb_contents rb = ch # rb_contents rb' \<and> rb_size rb' = rb_size rb \<and>
      (\<lambda>_. True) = (\<lambda>_. True)" if "rb_ok rb" "\<not> rb_vacant rb" for rb
    using rb_pop_ok [OF that(1)] that by (auto simp: rb_get1_def rt_ringbuffer_getchar_def rb_ok_def)
  show "rb_vacant rb \<longleftrightarrow> rb_contents rb = []" if "rb_ok rb" for rb
    using rb_contents_length [of rb] by (metis length_0_conv)
qed (auto simp: rb_full_iff)

section \<open>Blocks of bytes\<close>

text \<open>Writing a longer block is writing the block and then one more byte.\<close>

lemma mem_write_snoc:
  "i + length xs < length pool \<Longrightarrow>
     mem_write i (xs @ [x]) pool = map_option (\<lambda>pool. pool[i + length xs := x]) (mem_write i xs pool)"
  by (auto simp: mem_write_def list_update_append Cons_nth_drop_Suc [symmetric])

lemma mem_write_Some: "i + length xs \<le> length pool \<Longrightarrow> \<exists>pool'. mem_write i xs pool = Some pool' \<and> length pool' = length pool"
  by (simp add: mem_write_def)

definition rb_push :: "u8 \<Rightarrow> rt_ringbuffer \<Rightarrow> rt_ringbuffer" where
  "rb_push ch rb = rb_advance_write (rb\<lparr>rb_pool := (rb_pool rb)[rb_write_index rb := ch]\<rparr>)"

lemma rb_store_snoc:
  assumes ok: "rb_ok rb" and l: "length xs < rb_size rb"
  shows "rb_store (xs @ [x]) rb = map_option (rb_push x) (rb_store xs rb)"
proof -
  let ?w = "rb_write_index rb" and ?n = "rb_size rb - rb_write_index rb" and ?L = "length xs"
  note o = ok [unfolded rb_ok_def]
  consider (fits) "?L + 1 < ?n" | (ends) "?L + 1 = ?n" | (wraps) "?n \<le> ?L" by linarith
  then show ?thesis
  proof cases
    case fits
    then have "?w + ?L < length (rb_pool rb)" "Suc (?w + ?L) \<noteq> rb_size rb" "Suc (?w + ?L) < 2 ^ 15" using o by auto
    with fits mem_write_snoc [of ?w xs "rb_pool rb" x] mem_write_Some [of ?w xs "rb_pool rb"] show ?thesis
      by (auto simp: rb_store_def rb_push_def rb_advance_write_def)
  next
    case ends
    then have "?w + ?L < length (rb_pool rb)" "Suc (?w + ?L) = rb_size rb" "?w + ?L < 2 ^ 15" using o by auto
    with ends mem_write_snoc [of ?w xs "rb_pool rb" x] mem_write_Some [of ?w xs "rb_pool rb"] show ?thesis
      by (auto simp: rb_store_def rb_push_def rb_advance_write_def mem_write_def [of 0])
  next
    case wraps
    obtain pool where pool: "mem_write ?w (take ?n xs) (rb_pool rb) = Some pool" "length pool = length (rb_pool rb)"
      using mem_write_Some [of ?w "take ?n xs" "rb_pool rb"] wraps o by auto
    have b: "?L - ?n < rb_size rb" "Suc (?L - ?n) < rb_size rb" "Suc ?L - ?n = Suc (?L - ?n)" using wraps l o by auto
    then have "0 + length (drop ?n xs) < length pool" using pool(2) o by simp
    with wraps pool b o mem_write_snoc [of 0 "drop ?n xs" pool x] mem_write_Some [of 0 "drop ?n xs" pool] show ?thesis
      by (auto simp: rb_store_def rb_push_def rb_advance_write_def Let_def)
  qed
qed

lemma rb_store_Nil: "rb_ok rb \<Longrightarrow> rb_store [] rb = Some rb"
  by (auto simp: rb_store_def mem_write_def rb_ok_def)

lemma rb_store_iter:
  assumes "rb_ok rb" "length xs \<le> rt_ringbuffer_space_len rb"
  shows "\<exists>rb'. rb_store xs rb = Some rb' \<and> iterM rb_put1 xs rb = Some rb' \<and> rb_ok rb' \<and>
    rb_contents rb' = rb_contents rb @ xs \<and> rb_size rb' = rb_size rb"
  using assms(2)
proof (induction xs rule: rev_induct)
  case Nil
  then show ?case using assms(1) by (simp add: rb_store_Nil)
next
  case (snoc x xs)
  then obtain rb' where r: "rb_store xs rb = Some rb'" "iterM rb_put1 xs rb = Some rb'" "rb_ok rb'"
    "rb_contents rb' = rb_contents rb @ xs" "rb_size rb' = rb_size rb" by auto
  have len: "rt_ringbuffer_data_len rb' = rt_ringbuffer_data_len rb + length xs"
    using r(4) rb_contents_length [of rb'] by simp
  then have sp: "rt_ringbuffer_data_len rb' < rb_size rb'"
    using snoc.prems r(5) by (simp add: rt_ringbuffer_space_len_def)
  have "length xs < rb_size rb" using snoc.prems by (simp add: rt_ringbuffer_space_len_def)
  then have "rb_store (xs @ [x]) rb = Some (rb_push x rb')" using rb_store_snoc [OF assms(1)] r(1) by simp
  moreover have "iterM rb_put1 (xs @ [x]) rb = Some (rb_push x rb')"
    using r(2) rb_put1_step [OF r(3)] rb_full_iff [OF r(3)] sp by (simp add: iterM_append rb_push_def)
  ultimately show ?case using rb_push_ok [OF r(3) sp, of x] r(4,5) by (simp add: rb_push_def)
qed

text \<open>Moving the read index by several bytes.\<close>

definition rb_skip :: "nat \<Rightarrow> rt_ringbuffer \<Rightarrow> rt_ringbuffer" where
  "rb_skip m rb =
     (if m < rb_size rb - rb_read_index rb then rb\<lparr>rb_read_index := (rb_read_index rb + m) mod 2 ^ 15\<rparr>
      else rb\<lparr>rb_read_mirror := \<not> rb_read_mirror rb,
              rb_read_index := (m - (rb_size rb - rb_read_index rb)) mod 2 ^ 15\<rparr>)"

lemma rb_skip_keeps [simp]: "rb_size (rb_skip m rb) = rb_size rb" "rb_pool (rb_skip m rb) = rb_pool rb"
  by (simp_all add: rb_skip_def)

lemma rb_skip_index:
  assumes "rb_ok rb" "m \<le> rb_size rb"
  shows "rb_read_index (rb_skip m rb) = (rb_read_index rb + m) mod rb_size rb"
  using assms by (auto simp: rb_skip_def rb_ok_def mod_if)

lemma rb_skip_ok:
  assumes ok: "rb_ok rb" and m: "m \<le> rt_ringbuffer_data_len rb"
  shows "rb_ok (rb_skip m rb) \<and> rb_contents (rb_skip m rb) = drop m (rb_contents rb)"
proof -
  let ?d = "rt_ringbuffer_data_len rb" and ?P = "take (rb_size rb) (rb_pool rb)"
  note o = ok [unfolded rb_ok_def] and b = m [unfolded rb_data_len [OF ok]]
  have ok': "rb_ok (rb_skip m rb)" using o b by (auto simp: rb_skip_def rb_ok_def split: if_splits)
  have "rt_ringbuffer_data_len (rb_skip m rb) = ?d - m"
    using o b unfolding rb_data_len [OF ok] rb_data_len [OF ok'] by (auto simp: rb_skip_def split: if_splits)
  moreover have "rb_contents rb = ring_view ?P (rb_read_index rb) m @ ring_view ?P ((rb_read_index rb + m) mod rb_size rb) (?d - m)"
    using ring_view_append [of ?P "rb_read_index rb" m "?d - m"] m o by (simp add: rb_contents_def min_absorb2)
  ultimately show ?thesis
    using ok' rb_skip_index [OF ok, of m] m rb_data_bound [OF ok] by (simp add: rb_contents_def)
qed

text \<open>The copy of several bytes, in one piece or in two.\<close>

lemma rb_read_block:
  assumes ok: "rb_ok rb" and m: "m \<le> rt_ringbuffer_data_len rb"
  defines "n \<equiv> rb_size rb - rb_read_index rb"
  shows "m < n \<Longrightarrow> mem_read (rb_read_index rb) m (rb_pool rb) = Some (take m (rb_contents rb))"
    and "n \<le> m \<Longrightarrow> \<exists>xs ys. mem_read (rb_read_index rb) n (rb_pool rb) = Some xs \<and>
      mem_read 0 (m - n) (rb_pool rb) = Some ys \<and> xs @ ys = take m (rb_contents rb)"
proof -
  let ?P = "take (rb_size rb) (rb_pool rb)" and ?r = "rb_read_index rb"
  note o = ok [unfolded rb_ok_def] and ms = order_trans [OF m rb_data_bound [OF ok]]
  have P: "length ?P = rb_size rb" using o by simp
  have tk: "take m (rb_contents rb) = ring_view ?P ?r m"
    using ring_view_append [of ?P ?r m "rt_ringbuffer_data_len rb - m"] m P by (simp add: rb_contents_def)
  show "mem_read ?r m (rb_pool rb) = Some (take m (rb_contents rb))" if "m < n"
    using that o rb_view_block [OF ok, of ?r m] by (auto simp: tk mem_read_def n_def)
  show "\<exists>xs ys. mem_read ?r n (rb_pool rb) = Some xs \<and> mem_read 0 (m - n) (rb_pool rb) = Some ys \<and>
      xs @ ys = take m (rb_contents rb)" if "n \<le> m"
  proof -
    have "ring_view ?P ?r m = ring_view ?P ?r n @ ring_view ?P 0 (m - n)"
      using ring_view_append [of ?P ?r n "m - n"] P that o by (simp add: n_def)
    moreover have b: "?r + n \<le> rb_size rb" "0 + (m - n) \<le> rb_size rb" using o ms by (auto simp: n_def)
    moreover have "rb_size rb \<le> length (rb_pool rb)" using o by simp
    ultimately show ?thesis using rb_view_block [OF ok b(1)] rb_view_block [OF ok b(2)] by (simp add: tk mem_read_def)
  qed
qed

lemma rb_get_block:
  fixes num :: nat
  assumes ok: "rb_ok rb" and nz: "rt_ringbuffer_data_len rb \<noteq> 0"
  defines "m \<equiv> if rt_ringbuffer_data_len rb < num then rt_ringbuffer_data_len rb else num"
  shows "rt_ringbuffer_get num rb = Some (take m (rb_contents rb), rb_skip m rb)"
proof -
  have m: "m \<le> rt_ringbuffer_data_len rb" by (simp add: m_def)
  have r: "rb_read_index rb \<le> rb_size rb" using ok by (simp add: rb_ok_def)
  note get = rt_ringbuffer_get_def [of num rb, unfolded Let_def m_def [symmetric]]
  show ?thesis
  proof (cases "m < rb_size rb - rb_read_index rb")
    case True
    then show ?thesis using nz rb_read_block(1) [OF ok m] by (simp add: get rb_skip_def)
  next
    case False
    then obtain xs ys where "mem_read (rb_read_index rb) (rb_size rb - rb_read_index rb) (rb_pool rb) = Some xs"
      "mem_read 0 (m - (rb_size rb - rb_read_index rb)) (rb_pool rb) = Some ys" "xs @ ys = take m (rb_contents rb)"
      using rb_read_block(2) [OF ok m] by auto
    then show ?thesis using nz False r by (simp add: get rb_skip_def)
  qed
qed

text \<open>A forced put discards the oldest bytes first: it does the same as skipping them and then storing.\<close>

lemma rb_store_read_fields:
  "rb_store xs (rb\<lparr>rb_read_mirror := a, rb_read_index := i\<rparr>) =
     map_option (\<lambda>rb. rb\<lparr>rb_read_mirror := a, rb_read_index := i\<rparr>) (rb_store xs rb)"
  by (auto simp: rb_store_def Let_def map_option_case split: option.splits Option.bind_splits)

lemma rb_store_mirror:
  "rb_store xs rb = Some rb' \<Longrightarrow>
     rb_write_mirror rb' = (if rb_size rb - rb_write_index rb > length xs then rb_write_mirror rb else \<not> rb_write_mirror rb)"
  by (auto simp: rb_store_def Let_def split: if_splits Option.bind_splits)

lemma rb_store_keeps:
  "rb_store xs rb = Some rb' \<Longrightarrow> rb_read_mirror rb' = rb_read_mirror rb"
  by (auto simp: rb_store_def Let_def split: if_splits Option.bind_splits)

text \<open>If the block passes the read index without passing the end of the pool, the write index had already wrapped.\<close>

lemma rb_overtake_fits:
  "rb_ok rb \<Longrightarrow> rt_ringbuffer_space_len rb < n \<Longrightarrow> rb_size rb - rb_write_index rb > n \<Longrightarrow>
     rb_read_mirror rb \<noteq> rb_write_mirror rb"
  by (auto simp: rt_ringbuffer_space_len_def rb_data_len rb_ok_def split: if_splits)

lemma latest_bytes:
  fixes data :: "'a list"
  assumes "length c \<le> n"
  defines "xs \<equiv> if length data > n then drop (length data - n) data else data"
  shows "drop (length xs - (n - length c)) c @ xs = drop (length c + length data - n) (c @ data)"
proof (cases "length data > n")
  case True
  then show ?thesis using assms(1) by (simp add: xs_def)
next
  case False
  then have "length data - (n - length c) = length c + length data - n" "length c + length data - n - length c = 0"
    using assms(1) by auto
  with False show ?thesis by (simp add: xs_def)
qed

lemma rb_full_fields:
  "rb_ok rb \<Longrightarrow> rb_full rb \<longleftrightarrow> rb_read_index rb = rb_write_index rb \<and> rb_read_mirror rb \<noteq> rb_write_mirror rb"
  by (auto simp: rb_full_iff rb_data_len rb_ok_def split: if_splits)

lemma rb_skip_fields:
  "\<exists>a i. rb_skip m rb = rb\<lparr>rb_read_mirror := a, rb_read_index := i\<rparr>"
proof -
  have "rb_skip m rb = rb\<lparr>rb_read_mirror := rb_read_mirror (rb_skip m rb), rb_read_index := rb_read_index (rb_skip m rb)\<rparr>"
    by (simp add: rb_skip_def)
  then show ?thesis by blast
qed

lemma rb_store_skip:
  assumes ok: "rb_ok rb" and l: "length xs \<le> rb_size rb" "rt_ringbuffer_space_len rb < length xs"
  shows "\<exists>rb'. rb_store xs rb = Some rb' \<and>
    (let rb'' = rb'\<lparr>rb_read_mirror := \<not> rb_write_mirror rb', rb_read_index := rb_write_index rb'\<rparr>
     in rb_ok rb'' \<and> rb_contents rb'' = drop (length xs - rt_ringbuffer_space_len rb) (rb_contents rb) @ xs) \<and>
    rb_size rb' = rb_size rb"
proof -
  define m where "m = length xs - rt_ringbuffer_space_len rb"
  have m: "m \<le> rt_ringbuffer_data_len rb" using l by (simp add: m_def rt_ringbuffer_space_len_def)
  note skip = rb_skip_ok [OF ok m]
  have "rt_ringbuffer_data_len (rb_skip m rb) = rt_ringbuffer_data_len rb - m"
    using skip rb_contents_length [of "rb_skip m rb"] by simp
  then have sp: "rt_ringbuffer_space_len (rb_skip m rb) = length xs"
    using l m rb_data_bound [OF ok] by (simp add: rt_ringbuffer_space_len_def m_def)
  then obtain rb0 where rb0: "rb_store xs (rb_skip m rb) = Some rb0" "rb_ok rb0" "rb_contents rb0 = drop m (rb_contents rb) @ xs"
    "rb_size rb0 = rb_size rb" using rb_store_iter [of "rb_skip m rb" xs] skip by auto
  obtain a i where "rb_skip m rb = rb\<lparr>rb_read_mirror := a, rb_read_index := i\<rparr>" using rb_skip_fields by blast
  with rb0(1) obtain rb' where rb': "rb_store xs rb = Some rb'" "rb0 = rb'\<lparr>rb_read_mirror := a, rb_read_index := i\<rparr>"
    by (auto simp: rb_store_read_fields)
  have "length (rb_contents rb0) = rb_size rb0"
    using rb0(3,4) m l rb_data_bound [OF ok] by (simp add: m_def rt_ringbuffer_space_len_def)
  then have "rb_full rb0" by (simp add: rt_ringbuffer_space_len_def)
  then have "rb0 = rb'\<lparr>rb_read_mirror := \<not> rb_write_mirror rb', rb_read_index := rb_write_index rb'\<rparr>"
    using rb_full_fields [OF rb0(2)] rb'(2) by auto
  with rb0 rb' show ?thesis by (auto simp: Let_def m_def)
qed

section \<open>Properties\<close>

text \<open>C21: \<^verbatim>\<open>rt_ringbuffer_put\<close>, which copies in at most two pieces, is equivalent to putting the bytes one after the
  other with \<^verbatim>\<open>rt_ringbuffer_putchar\<close>: same result state, bit by bit. It stores as many bytes as there
  is space for, behind the ones that are in the buffer, and returns their number.\<close>

theorem rt_ringbuffer_put_bytewise:
  assumes "rb_ok rb"
  shows "\<exists>rb'. rt_ringbuffer_put data rb = Some (min (length data) (rt_ringbuffer_space_len rb), rb') \<and>
    iterM rb_put1 (take (rt_ringbuffer_space_len rb) data) rb = Some rb' \<and> rb_ok rb' \<and>
    rb_contents rb' = rb_contents rb @ take (rt_ringbuffer_space_len rb) data \<and> rb_size rb' = rb_size rb"
proof (cases "rt_ringbuffer_space_len rb = 0")
  case True
  then show ?thesis using assms by (simp add: rt_ringbuffer_put_def)
next
  case False
  let ?xs = "take (rt_ringbuffer_space_len rb) data"
  obtain rb' where "rb_store ?xs rb = Some rb'" "iterM rb_put1 ?xs rb = Some rb'" "rb_ok rb'"
    "rb_contents rb' = rb_contents rb @ ?xs" "rb_size rb' = rb_size rb" using rb_store_iter [OF assms, of ?xs] by auto
  then show ?thesis using False by (auto simp: rt_ringbuffer_put_def Let_def min_def)
qed

text \<open>\<^verbatim>\<open>rt_ringbuffer_get\<close> delivers the oldest bytes, as many as asked for and present, and removes exactly them.\<close>

theorem rt_ringbuffer_get_ok:
  assumes ok: "rb_ok rb"
  shows "\<exists>rb'. rt_ringbuffer_get num rb = Some (take num (rb_contents rb), rb') \<and> rb_ok rb' \<and>
    rb_contents rb' = drop num (rb_contents rb) \<and> rb_size rb' = rb_size rb"
proof (cases "rt_ringbuffer_data_len rb = 0")
  case True
  then show ?thesis using ok by (simp add: rt_ringbuffer_get_def rb_contents_def)
next
  case False
  let ?m = "if rt_ringbuffer_data_len rb < num then rt_ringbuffer_data_len rb else num"
  have "take num (rb_contents rb) = take ?m (rb_contents rb)" "drop num (rb_contents rb) = drop ?m (rb_contents rb)" by auto
  moreover have "rt_ringbuffer_get num rb = Some (take ?m (rb_contents rb), rb_skip ?m rb)"
    by (rule rb_get_block [OF ok False])
  ultimately show ?thesis using rb_skip_ok [OF ok, of ?m] by simp
qed

text \<open>A buffer of eight bytes in which the write index has wrapped: it holds 3 bytes from position 6 on.\<close>

definition demo_rb :: rt_ringbuffer where
  "demo_rb = \<lparr>rb_pool = [30, 0, 0, 0, 0, 0, 10, 20, 99], rb_read_mirror = False, rb_read_index = 6,
              rb_write_mirror = True, rb_write_index = 1, rb_size = 8\<rparr>"

lemma demo_rb_ok: "rb_ok demo_rb"
  by (simp add: demo_rb_def rb_ok_def)

lemma demo_rb_len: "rt_ringbuffer_data_len demo_rb = 3" "rb_size demo_rb = 8" "rb_read_mirror demo_rb \<noteq> rb_write_mirror demo_rb"
  by (simp add: rb_data_len [OF demo_rb_ok], simp_all add: demo_rb_def)

lemma demo_rb_space: "rt_ringbuffer_space_len demo_rb = 5"
  by (simp add: rt_ringbuffer_space_len_def demo_rb_len)

lemma demo_rb_contents: "rb_contents demo_rb = [10, 20, 30]"
  by (simp add: rb_contents_def rb_data_len [OF demo_rb_ok], simp add: demo_rb_def ring_view_def upt_rec)

theorem rt_ringbuffer_put_bytewise_witness:
  "\<exists>rb'. rt_ringbuffer_put [1, 2, 3, 4, 5, 6, 7] demo_rb = Some (5, rb') \<and>
    iterM rb_put1 [1, 2, 3, 4, 5] demo_rb = Some rb' \<and> rb_contents rb' = [10, 20, 30, 1, 2, 3, 4, 5]"
  using rt_ringbuffer_put_bytewise [OF demo_rb_ok, of "[1, 2, 3, 4, 5, 6, 7]"]
  by (auto simp: demo_rb_space demo_rb_contents)

theorem rt_ringbuffer_get_ok_witness:
  "\<exists>rb'. rt_ringbuffer_get 2 demo_rb = Some ([10, 20], rb') \<and> rb_contents rb' = [30]"
  using rt_ringbuffer_get_ok [OF demo_rb_ok, of 2] by (auto simp: demo_rb_contents numeral_2_eq_2)

text \<open>Exact behaviour of \<^verbatim>\<open>rt_ringbuffer_put_force\<close>. It is meant to keep the latest bytes, as many as fit, and to discard
  the oldest ones. It does so, except when the data overtakes the read index while both indices are in the
  same mirror: then both mirror bits are flipped, the indices are equal, and the buffer counts as empty, so that
  the bytes that were stored and the ones of the call are all lost.\<close>

theorem rt_ringbuffer_put_force_contents:
  assumes ok: "rb_ok rb"
  shows "\<exists>rb'. rt_ringbuffer_put_force data rb = Some (min (length data) (rb_size rb), rb') \<and> rb_ok rb' \<and>
    rb_contents rb' =
      (if rb_contents rb \<noteq> [] \<and> rb_read_mirror rb = rb_write_mirror rb \<and> rt_ringbuffer_space_len rb < length data
       then []
       else drop (length (rb_contents rb) + length data - rb_size rb) (rb_contents rb @ data))"
proof -
  define xs where "xs = (if length data > rb_size rb then drop (length data - rb_size rb) data else data)"
  have xs: "length xs = min (length data) (rb_size rb)" by (simp add: xs_def)
  note force = rt_ringbuffer_put_force_def [of data rb, unfolded Let_def xs_def [symmetric]]
  have b: "rt_ringbuffer_data_len rb \<le> rb_size rb" and size: "0 < rb_size rb"
    using rb_data_bound [OF ok] ok by (simp_all add: rb_ok_def)
  have latest: "drop (length xs - rt_ringbuffer_space_len rb) (rb_contents rb) @ xs =
      drop (length (rb_contents rb) + length data - rb_size rb) (rb_contents rb @ data)"
    using latest_bytes [of "rb_contents rb" "rb_size rb" data, folded xs_def] b by (simp add: rt_ringbuffer_space_len_def)
  have empty: "rb_contents rb = [] \<longleftrightarrow> rt_ringbuffer_data_len rb = 0" by (metis length_0_conv rb_contents_length)
  show ?thesis
  proof (cases "rt_ringbuffer_space_len rb < length xs")
    case False
    then obtain rb' where "rb_store xs rb = Some rb'" "rb_ok rb'" "rb_contents rb' = rb_contents rb @ xs"
      using rb_store_iter [OF ok, of xs] by auto
    moreover have "rt_ringbuffer_data_len rb = 0 \<or> \<not> rt_ringbuffer_space_len rb < length data"
      using False xs b size by (auto simp: rt_ringbuffer_space_len_def min_def split: if_splits)
    ultimately show ?thesis using False latest xs empty by (auto simp: force)
  next
    case True
    obtain rb' where rb': "rb_store xs rb = Some rb'" "rb_size rb' = rb_size rb"
      and good: "rb_ok (rb'\<lparr>rb_read_mirror := \<not> rb_write_mirror rb', rb_read_index := rb_write_index rb'\<rparr>)"
        "rb_contents (rb'\<lparr>rb_read_mirror := \<not> rb_write_mirror rb', rb_read_index := rb_write_index rb'\<rparr>) =
           drop (length xs - rt_ringbuffer_space_len rb) (rb_contents rb) @ xs"
      using rb_store_skip [OF ok _ True] xs by (auto simp: Let_def)
    let ?rb = "\<lambda>m. rb'\<lparr>rb_read_mirror := m, rb_read_index := rb_write_index rb'\<rparr>"
    have res: "rt_ringbuffer_put_force data rb =
        Some (length xs, ?rb (rb_write_mirror rb' \<noteq> (rb_read_mirror rb \<noteq> rb_write_mirror rb)))"
      using True rb' rb_store_mirror [OF rb'(1)] rb_store_keeps [OF rb'(1)] rb_overtake_fits [OF ok True]
      by (auto simp: force)
    have "rb_contents rb \<noteq> []" "rt_ringbuffer_space_len rb < length data"
      using True xs empty by (auto simp: rt_ringbuffer_space_len_def)
    moreover have "rb_ok (?rb (rb_write_mirror rb'))" "rb_contents (?rb (rb_write_mirror rb')) = []"
      using good(1) by (auto simp: rb_ok_def rb_contents_def rt_ringbuffer_data_len_def rt_ringbuffer_status_def)
    ultimately show ?thesis
      using good res xs latest by (cases "rb_read_mirror rb = rb_write_mirror rb") simp_all
  qed
qed

text \<open>A half full buffer whose indices are in the same mirror: two more bytes would fit.\<close>

definition demo_rb_half :: rt_ringbuffer where
  "demo_rb_half = \<lparr>rb_pool = [10, 20, 0, 0], rb_read_mirror = False, rb_read_index = 0,
                   rb_write_mirror = False, rb_write_index = 2, rb_size = 4\<rparr>"

lemma demo_rb_half_ok: "rb_ok demo_rb_half" "rb_contents demo_rb_half = [10, 20]" "rt_ringbuffer_space_len demo_rb_half = 2"
proof -
  show ok: "rb_ok demo_rb_half" by (simp add: demo_rb_half_def rb_ok_def)
  show "rb_contents demo_rb_half = [10, 20]"
    by (simp add: rb_contents_def rb_data_len [OF ok], simp add: demo_rb_half_def ring_view_def upt_rec)
  show "rt_ringbuffer_space_len demo_rb_half = 2"
    by (simp add: rt_ringbuffer_space_len_def rb_data_len [OF ok], simp add: demo_rb_half_def)
qed

theorem rt_ringbuffer_put_force_contents_witness:
  "(\<exists>rb'. rt_ringbuffer_put_force [1, 2, 3] demo_rb_half = Some (3, rb') \<and> rb_contents rb' = []) \<and>
   (\<exists>rb'. rt_ringbuffer_put_force [1, 2, 3, 4, 5, 6, 7] demo_rb = Some (7, rb') \<and>
      rb_contents rb' = [30, 1, 2, 3, 4, 5, 6, 7])"
proof
  show "\<exists>rb'. rt_ringbuffer_put_force [1, 2, 3] demo_rb_half = Some (3, rb') \<and> rb_contents rb' = []"
    using rt_ringbuffer_put_force_contents [OF demo_rb_half_ok(1), of "[1, 2, 3]"] demo_rb_half_ok(2,3)
    by (auto simp: demo_rb_half_def)
  show "\<exists>rb'. rt_ringbuffer_put_force [1, 2, 3, 4, 5, 6, 7] demo_rb = Some (7, rb') \<and>
      rb_contents rb' = [30, 1, 2, 3, 4, 5, 6, 7]"
    using rt_ringbuffer_put_force_contents [OF demo_rb_ok, of "[1, 2, 3, 4, 5, 6, 7]"]
    by (auto simp: demo_rb_contents demo_rb_len)
qed

text \<open>\<^verbatim>\<open>rt_ringbuffer_putchar_force\<close> keeps its promise: the byte is stored, and only when the buffer is full, exactly the
  oldest byte is discarded.\<close>

theorem rt_ringbuffer_putchar_force_ok:
  assumes ok: "rb_ok rb"
  shows "\<exists>rb'. rt_ringbuffer_putchar_force ch rb = Some (1, rb') \<and> rb_ok rb' \<and> rb_size rb' = rb_size rb \<and>
    rb_contents rb' = (if rt_ringbuffer_space_len rb = 0 then tl (rb_contents rb) else rb_contents rb) @ [ch]"
proof (cases "rt_ringbuffer_space_len rb = 0")
  case True
  have d: "rt_ringbuffer_data_len rb = rb_size rb" "0 < rb_size rb"
    using True rb_full_iff [OF ok] rb_data_bound [OF ok] ok by (auto simp: rb_ok_def)
  have "rt_ringbuffer_putchar_force ch rb = Some (1, rb_push ch (rb_skip 1 rb))"
    using rb_full_fields [OF ok] True ok
    by (auto simp: rt_ringbuffer_putchar_force_def rt_ringbuffer_status_def rb_push_def rb_advance_write_def rb_skip_def rb_ok_def)
  moreover have skip: "rb_ok (rb_skip 1 rb)" "rb_contents (rb_skip 1 rb) = tl (rb_contents rb)"
    using rb_skip_ok [OF ok, of 1] d by (simp_all add: drop_Suc)
  moreover have "rt_ringbuffer_data_len (rb_skip 1 rb) < rb_size (rb_skip 1 rb)"
    using skip(2) rb_contents_length [of "rb_skip 1 rb"] d by simp
  ultimately show ?thesis using rb_push_ok [of "rb_skip 1 rb" ch] True by (simp add: rb_push_def)
next
  case False
  then have "rt_ringbuffer_putchar_force ch rb = Some (1, rb_push ch rb)"
    using rb_full_fields [OF ok] ok
    by (auto simp: rt_ringbuffer_putchar_force_def rt_ringbuffer_status_def rb_push_def rb_ok_def)
  then show ?thesis using rb_push_ok [OF ok, of ch] rb_full_iff [OF ok] False by (simp add: rb_push_def)
qed

theorem rt_ringbuffer_putchar_force_ok_witness:
  "\<exists>rb'. rt_ringbuffer_putchar_force 40 demo_rb = Some (1, rb') \<and> rb_contents rb' = [10, 20, 30, 40]"
  using rt_ringbuffer_putchar_force_ok [OF demo_rb_ok, of 40] by (auto simp: demo_rb_contents demo_rb_space)

text \<open>Any interleaving of \<^verbatim>\<open>rt_ringbuffer_putchar\<close> and \<^verbatim>\<open>rt_ringbuffer_getchar\<close>, each under the test for a full or an
  empty buffer that it starts with, behaves as on a list of at most \<^verbatim>\<open>buffer_size\<close> bytes: the bytes come out in the
  order they went in, and no access leaves the pool.\<close>

theorem rb_run_refines:
  assumes "rb_ok rb"
  shows "\<exists>rb'. queue_run rb_put1 rb_get1 (\<lambda>rb. rt_ringbuffer_space_len rb = 0) (\<lambda>rb. rt_ringbuffer_data_len rb = 0) ops rb =
      Some (fst (list_run (rb_size rb) ops (rb_contents rb)), rb') \<and>
    rb_ok rb' \<and> rb_size rb' = rb_size rb \<and> rb_contents rb' = snd (list_run (rb_size rb) ops (rb_contents rb))"
  using rbq.run_refines [of rb ops] assms by (auto simp: list_all_iff)

theorem rb_run_refines_witness:
  "\<exists>rb'. queue_run rb_put1 rb_get1 (\<lambda>rb. rt_ringbuffer_space_len rb = 0) (\<lambda>rb. rt_ringbuffer_data_len rb = 0)
      [Get, Put 40, Get, Get, Get, Get] demo_rb = Some ([10, 20, 30, 40], rb') \<and> rb_contents rb' = []"
  using rb_run_refines [OF demo_rb_ok, of "[Get, Put 40, Get, Get, Get, Get]"] by (auto simp: demo_rb_contents demo_rb_len)

end
