(* ===== verification/Chain.thy ===== *)
theory Chain
  imports Prelude
begin

text \<open>
  Singly linked lists that end in a null pointer: the free list and the queue of a message queue, the free
  list of a memory pool. \<open>chain nx p xs\<close> says that the links \<open>nx\<close> lead from the pointer \<open>p\<close> through the nodes
  \<open>xs\<close> to the end; \<open>walk\<close> computes the nodes, up to a number.
\<close>

primrec chain :: "('a \<Rightarrow> 'a option) \<Rightarrow> 'a option \<Rightarrow> 'a list \<Rightarrow> bool" where
  "chain nx p [] \<longleftrightarrow> p = None"
| "chain nx p (x # xs) \<longleftrightarrow> p = Some x \<and> chain nx (nx x) xs"

fun walk :: "('a \<Rightarrow> 'a option) \<Rightarrow> nat \<Rightarrow> 'a option \<Rightarrow> 'a list" where
  "walk nx (Suc n) (Some x) = x # walk nx n (nx x)"
| "walk nx _ _ = []"

lemma walk_chain: "chain nx p xs \<Longrightarrow> walk nx (length xs) p = xs"
  by (induction xs arbitrary: p) auto

lemma chain_unique: "chain nx p xs \<Longrightarrow> chain nx p ys \<Longrightarrow> xs = ys"
proof (induction xs arbitrary: p ys)
  case (Cons x xs)
  then show ?case by (cases ys) auto
qed (metis chain.simps list.exhaust option.distinct(1))

lemma chain_None [simp]: "chain nx None xs \<longleftrightarrow> xs = []"
  by (cases xs) auto

lemma chain_Some: "chain nx (Some x) xs \<longleftrightarrow> (\<exists>ys. xs = x # ys \<and> chain nx (nx x) ys)"
  by (cases xs) auto

lemma chain_upd [simp]: "x \<notin> set xs \<Longrightarrow> chain (nx(x := q)) p xs = chain nx p xs"
  by (induction xs arbitrary: p) auto

lemma chain_push: "chain nx p xs \<Longrightarrow> x \<notin> set xs \<Longrightarrow> chain (nx(x := p)) (Some x) (x # xs)"
  by simp

lemma chain_snoc:
  assumes "chain nx p (xs @ [y])" "x \<notin> set (xs @ [y])" "distinct (xs @ [y])"
  shows "chain (nx(x := None, y := Some x)) p (xs @ [y, x])"
  using assms by (induction xs arbitrary: p) auto

lemma chain_last: "chain nx p (xs @ [x]) \<Longrightarrow> nx x = None"
  by (induction xs arbitrary: p) auto

lemma chain_cong: "(\<And>x. x \<in> set xs \<Longrightarrow> nx' x = nx x) \<Longrightarrow> chain nx' p xs = chain nx p xs"
  by (induction xs arbitrary: p) auto

end
