(* ===== verification/Slist.thy ===== *)
theory Slist
  imports Chain
begin

text \<open>
  The singly linked lists of \<^verbatim>\<open>include/rtservice.h\<close> on a store of links, with an anchor node whose link is the first element. Each
  operation refines the operation on lists. The loops of the source follow links until they meet a null pointer; they are
  partial functions, which return on every well-formed list.
\<close>

section \<open>Operations\<close>

type_synonym links = "nat \<Rightarrow> nat option"

definition rt_slist_init :: "nat \<Rightarrow> links \<Rightarrow> links" where
  "rt_slist_init l nx = nx(l := None)"

partial_function (option) rt_slist_tail :: "links \<Rightarrow> nat \<Rightarrow> nat option" where
  "rt_slist_tail nx l = (case nx l of None \<Rightarrow> Some l | Some n \<Rightarrow> rt_slist_tail nx n)"

definition rt_slist_append :: "nat \<Rightarrow> nat \<Rightarrow> links \<Rightarrow> links option" where
  "rt_slist_append l n nx = do {
     node \<leftarrow> rt_slist_tail nx l;
     Some (nx(node := Some n, n := None))
   }"

definition rt_slist_insert :: "nat \<Rightarrow> nat \<Rightarrow> links \<Rightarrow> links" where
  "rt_slist_insert l n nx = (let nx = nx(n := nx l) in nx(l := Some n))"

partial_function (option) rt_slist_len_loop :: "links \<Rightarrow> nat option \<Rightarrow> u32 \<Rightarrow> u32 option" where
  "rt_slist_len_loop nx p len = (case p of None \<Rightarrow> Some len | Some n \<Rightarrow> rt_slist_len_loop nx (nx n) (len + 1))"

definition rt_slist_len :: "nat \<Rightarrow> links \<Rightarrow> u32 option" where
  "rt_slist_len l nx = rt_slist_len_loop nx (nx l) 0"

text \<open>The search of \<^verbatim>\<open>rt_slist_remove\<close>: the node before \<open>n\<close>, or the last one.\<close>

partial_function (option) slist_before :: "links \<Rightarrow> nat \<Rightarrow> nat \<Rightarrow> nat option" where
  "slist_before nx n node =
     (case nx node of None \<Rightarrow> Some node | Some m \<Rightarrow> if m = n then Some node else slist_before nx n m)"

definition rt_slist_remove :: "nat \<Rightarrow> nat \<Rightarrow> links \<Rightarrow> links option" where
  "rt_slist_remove l n nx = do {
     node \<leftarrow> slist_before nx n l;
     Some (case nx node of None \<Rightarrow> nx | Some m \<Rightarrow> nx(node := nx m))
   }"

definition rt_slist_first :: "nat \<Rightarrow> links \<Rightarrow> nat option" where
  "rt_slist_first l nx = nx l"

definition rt_slist_next :: "nat \<Rightarrow> links \<Rightarrow> nat option" where
  "rt_slist_next n nx = nx n"

definition rt_slist_isempty :: "nat \<Rightarrow> links \<Rightarrow> bool" where
  "rt_slist_isempty l nx \<longleftrightarrow> nx l = None"

section \<open>Refinement\<close>

definition slist :: "links \<Rightarrow> nat \<Rightarrow> nat list \<Rightarrow> bool" where
  "slist nx l xs \<longleftrightarrow> chain nx (nx l) xs \<and> distinct (l # xs)"

lemma tail_chain: "chain nx (nx l) xs \<Longrightarrow> rt_slist_tail nx l = Some (last (l # xs))"
proof (induction xs arbitrary: l)
  case Nil
  then show ?case by (simp add: rt_slist_tail.simps [of nx l])
next
  case (Cons x xs)
  then show ?case using Cons.IH [of x] by (simp add: rt_slist_tail.simps [of nx l])
qed

lemma len_chain: "chain nx p xs \<Longrightarrow> rt_slist_len_loop nx p n = Some (n + of_nat (length xs))"
proof (induction xs arbitrary: p n)
  case Nil
  then show ?case by (simp add: rt_slist_len_loop.simps [of nx None])
next
  case (Cons x xs)
  then show ?case using Cons.IH [of "nx x" "n + 1"] by (simp add: rt_slist_len_loop.simps [of nx "Some x"] add.assoc)
qed

lemma before_chain:
  assumes "chain nx (nx l) (as @ n # bs)" "n \<notin> set as"
  shows "slist_before nx n l = Some (last (l # as))"
  using assms
proof (induction as arbitrary: l)
  case Nil
  then show ?case by (simp add: slist_before.simps [of nx n l])
next
  case (Cons a as)
  then show ?case using Cons.IH [of a] by (simp add: slist_before.simps [of nx n l])
qed

lemma before_absent: "chain nx (nx l) xs \<Longrightarrow> n \<notin> set xs \<Longrightarrow> slist_before nx n l = Some (last (l # xs))"
proof (induction xs arbitrary: l)
  case Nil
  then show ?case by (simp add: slist_before.simps [of nx n l])
next
  case (Cons x xs)
  then show ?case using Cons.IH [of x] by (simp add: slist_before.simps [of nx n l])
qed

lemma chain_at_last: "chain nx (nx l) xs \<Longrightarrow> nx (last (l # xs)) = None"
  by (induction xs arbitrary: l) auto

lemma chain_split: "chain nx (nx l) (as @ bs) \<Longrightarrow> chain nx (nx (last (l # as))) bs"
  by (induction as arbitrary: l) auto

lemma slist_init: "slist (rt_slist_init l nx) l []"
  by (simp add: slist_def rt_slist_init_def)

lemma slist_insert:
  assumes "slist nx l xs" "n \<notin> set (l # xs)"
  shows "slist (rt_slist_insert l n nx) l (n # xs)"
proof -
  have "l \<notin> set xs" "n \<notin> set xs" using assms by (auto simp: slist_def)
  then show ?thesis using assms by (auto simp: slist_def rt_slist_insert_def Let_def)
qed

text \<open>Linking the end of a part \<open>as\<close> of a list to another chain.\<close>

lemma chain_relink:
  assumes "chain nx (nx l) (as @ zs)" "distinct (l # as)" "chain nx q ys" "last (l # as) \<notin> set ys"
  shows "chain (nx(last (l # as) := q)) ((nx(last (l # as) := q)) l) (as @ ys)"
  using assms
proof (induction as arbitrary: l)
  case (Cons x as)
  have "last (x # as) \<noteq> l" using Cons.prems(2) last_in_set [of "x # as"] by (metis distinct.simps(2) list.distinct(1))
  then show ?case using Cons.IH [of x] Cons.prems by simp
qed simp

lemma slist_append:
  assumes "slist nx l xs" "n \<notin> set (l # xs)"
  shows "\<exists>nx'. rt_slist_append l n nx = Some nx' \<and> slist nx' l (xs @ [n])"
proof -
  let ?nx = "nx(n := None)"
  have c: "chain ?nx (?nx l) (xs @ [])" using assms by (auto simp: slist_def)
  have ne: "last (l # xs) \<noteq> n" using assms(2) last_in_set [of "l # xs"] by (metis list.distinct(1))
  then have "chain (?nx(last (l # xs) := Some n)) ((?nx(last (l # xs) := Some n)) l) (xs @ [n])"
    using assms by (intro chain_relink [OF c]) (auto simp: slist_def)
  then show ?thesis
    using assms tail_chain [of nx l xs] ne by (auto simp: rt_slist_append_def slist_def fun_upd_twist)
qed

text \<open>A removed node keeps its link: a loop that removes the node it is at goes on with the nodes behind it.\<close>

lemma slist_remove:
  assumes "slist nx l (as @ n # bs)"
  shows "\<exists>nx'. rt_slist_remove l n nx = Some nx' \<and> slist nx' l (as @ bs) \<and> chain nx' (nx' n) bs"
proof -
  let ?nx = "nx(last (l # as) := nx n)"
  have d: "chain nx (nx l) (as @ n # bs)" "distinct (l # as @ n # bs)" using assms by (simp_all add: slist_def)
  have n: "nx (last (l # as)) = Some n" "chain nx (nx n) bs" using chain_split [OF d(1)] by simp_all
  have "last (l # as) \<in> set (l # as)" by (rule last_in_set) simp
  then have not: "last (l # as) \<notin> set bs" "last (l # as) \<noteq> n" using d(2) by auto
  have "rt_slist_remove l n nx = Some ?nx" using before_chain [OF d(1)] d(2) n(1) by (simp add: rt_slist_remove_def)
  moreover have "slist ?nx l (as @ bs)" using chain_relink [OF d(1) _ n(2) not(1)] d(2) by (simp add: slist_def)
  moreover have "chain ?nx (?nx n) bs" using n(2) not by simp
  ultimately show ?thesis by blast
qed

lemma slist_remove_absent:
  assumes "slist nx l xs" "n \<notin> set xs"
  shows "rt_slist_remove l n nx = Some nx"
  using assms before_absent [of nx l xs n] chain_at_last [of nx l xs] by (simp add: slist_def rt_slist_remove_def)

section \<open>The contract\<close>

text \<open>What a client of a singly linked list relies on: the nodes \<open>xs\<close> that the anchor holds, and how the operations change them.\<close>

locale slist_contract =
  fixes holds :: "'s \<Rightarrow> nat \<Rightarrow> nat list \<Rightarrow> bool"
    and append :: "nat \<Rightarrow> nat \<Rightarrow> 's \<Rightarrow> 's option"
    and remove :: "nat \<Rightarrow> nat \<Rightarrow> 's \<Rightarrow> 's option"
    and len :: "nat \<Rightarrow> 's \<Rightarrow> u32 option"
  assumes holds_distinct: "holds s l xs \<Longrightarrow> distinct (l # xs)"
    and append_holds: "holds s l xs \<Longrightarrow> n \<notin> set (l # xs) \<Longrightarrow> \<exists>s'. append l n s = Some s' \<and> holds s' l (xs @ [n])"
    and remove_holds: "holds s l xs \<Longrightarrow> n \<noteq> l \<Longrightarrow> \<exists>s'. remove l n s = Some s' \<and> holds s' l (remove1 n xs)"
    and len_holds: "holds s l xs \<Longrightarrow> len l s = Some (of_nat (length xs))"
begin

lemma remove_all:
  assumes "holds s l xs"
  shows "\<exists>s'. iterM (remove l) xs s = Some s' \<and> holds s' l []"
  using assms
proof (induction xs arbitrary: s)
  case (Cons x xs)
  have "x \<noteq> l" using holds_distinct [OF Cons.prems] by auto
  then obtain s' where "remove l x s = Some s'" "holds s' l xs" using remove_holds [OF Cons.prems, of x] by auto
  then show ?case using Cons.IH [of s'] by simp
qed simp

lemma append_all:
  assumes "holds s l xs" "distinct ys" "set ys \<inter> set (l # xs) = {}"
  shows "\<exists>s'. iterM (append l) ys s = Some s' \<and> holds s' l (xs @ ys) \<and> len l s' = Some (of_nat (length xs + length ys))"
  using assms
proof (induction ys arbitrary: s xs)
  case Nil
  then show ?case using len_holds by auto
next
  case (Cons y ys)
  then obtain s1 where s1: "append l y s = Some s1" "holds s1 l (xs @ [y])" using append_holds [of s l xs y] by auto
  then obtain s' where "iterM (append l) ys s1 = Some s'" "holds s' l ((xs @ [y]) @ ys)"
    using Cons.IH [OF s1(2)] Cons.prems by auto
  then show ?case using s1(1) len_holds [of s' l "xs @ y # ys"] by auto
qed

end

interpretation sl: slist_contract "slist" rt_slist_append rt_slist_remove rt_slist_len
proof (unfold_locales, goal_cases)
  case (1 nx l xs)
  then show ?case by (simp add: slist_def)
next
  case (2 nx l xs n)
  then show ?case by (rule slist_append)
next
  case (3 nx l xs n)
  then show ?case
    using slist_remove_absent [of nx l xs n] slist_remove
    by (cases "n \<in> set xs") (fastforce simp: remove1_append remove1_idem dest!: split_list_first)+
next
  case (4 nx l xs)
  then show ?case using len_chain [of nx "nx l" xs 0] by (simp add: slist_def rt_slist_len_def)
qed

text \<open>The singly linked lists implement sequences. On a list with the nodes \<open>xs\<close>, appending adds a node at the end, inserting adds one at the
  front, removing takes a node out and leaves the link of that node pointing to its successor, and the observers read the first node,
  the last one, emptiness and the length (modulo the width of the counter). All loops end.\<close>

theorem rt_slist_refines_list:
  assumes "slist nx l xs" "n \<notin> set (l # xs)"
  shows "(\<exists>nx'. rt_slist_append l n nx = Some nx' \<and> slist nx' l (xs @ [n])) \<and>
    slist (rt_slist_insert l n nx) l (n # xs) \<and>
    (\<forall>as m bs. xs = as @ m # bs \<longrightarrow>
      (\<exists>nx'. rt_slist_remove l m nx = Some nx' \<and> slist nx' l (as @ bs) \<and> chain nx' (rt_slist_next m nx') bs)) \<and>
    rt_slist_remove l n nx = Some nx \<and>
    rt_slist_first l nx = (if xs = [] then None else Some (hd xs)) \<and> rt_slist_tail nx l = Some (last (l # xs)) \<and>
    (rt_slist_isempty l nx \<longleftrightarrow> xs = []) \<and> rt_slist_len l nx = Some (of_nat (length xs))"
proof -
  have c: "chain nx (nx l) xs" using assms(1) by (simp add: slist_def)
  have "rt_slist_first l nx = (if xs = [] then None else Some (hd xs))" "rt_slist_isempty l nx \<longleftrightarrow> xs = []"
    using c by (cases xs; simp add: rt_slist_first_def rt_slist_isempty_def)+
  moreover have "rt_slist_remove l n nx = Some nx" using assms by (intro slist_remove_absent) auto
  moreover have "\<exists>nx'. rt_slist_remove l m nx = Some nx' \<and> slist nx' l (as @ bs) \<and> chain nx' (rt_slist_next m nx') bs"
    if "xs = as @ m # bs" for as m bs
    unfolding rt_slist_next_def using assms(1) unfolding that by (rule slist_remove)
  ultimately show ?thesis
    using slist_append [OF assms] slist_insert [OF assms] tail_chain [OF c] sl.len_holds [OF assms(1)] by blast
qed

definition links_example :: links where
  "links_example = [0 \<mapsto> 4, 4 \<mapsto> 2]"

theorem rt_slist_refines_list_witness:
  "(\<exists>nx'. rt_slist_append 0 7 links_example = Some nx' \<and> slist nx' 0 [4, 2, 7]) \<and>
   (\<exists>nx'. rt_slist_remove 0 4 links_example = Some nx' \<and> slist nx' 0 [2] \<and> chain nx' (rt_slist_next 4 nx') [2]) \<and>
   rt_slist_len 0 links_example = Some 2"
proof -
  have "slist links_example 0 [4, 2]" by (simp add: slist_def links_example_def)
  note * = rt_slist_refines_list [OF this, of 7, simplified]
  show ?thesis using * [THEN conjunct1] * [THEN conjunct2, THEN conjunct2, THEN conjunct1, rule_format, of "[]" 4 "[2]"] *
    by simp
qed

end
