(* ===== verification/Ringblk.thy ===== *)
theory Ringblk
  imports Slist
begin

text \<open>
  The block ring buffer of the device drivers (\<^verbatim>\<open>components/drivers/src/ringblk_buf.c\<close>). Blocks are entries of the array
  \<^verbatim>\<open>blk_set\<close>; a pointer to a block is its index. \<^verbatim>\<open>blk_list\<close> has the blocks in the order of their allocation. It is a singly linked list in the
  code; \<^verbatim>\<open>rt_slist_remove\<close> leaves the link of the removed node as it is (\<open>slist_remove\<close>), so that a loop that removes nodes goes through the
  nodes that the list had at its beginning. Addresses and sizes are words, the size of a block has 24 bits.
\<close>

section \<open>Operations\<close>

datatype rt_rbb_status = RT_RBB_BLK_UNUSED | RT_RBB_BLK_INITED | RT_RBB_BLK_PUT | RT_RBB_BLK_GET

record rt_rbb_blk =
  blk_status :: rt_rbb_status
  blk_size :: "24 word"
  blk_buf :: u32

record rt_rbb_blk_queue =
  que_blocks :: nat
  que_blk_num :: u32

record rt_rbb =
  rbb_buf :: u32
  rbb_buf_size :: u32
  rbb_blk_set :: "rt_rbb_blk list"
  rbb_blk_max_num :: u32
  rbb_blk_list :: "nat list"

definition rbb_blk :: "rt_rbb \<Rightarrow> nat \<Rightarrow> rt_rbb_blk option" where
  "rbb_blk rbb i = (if i < length (rbb_blk_set rbb) then Some (rbb_blk_set rbb ! i) else None)"

definition rbb_upd :: "nat \<Rightarrow> (rt_rbb_blk \<Rightarrow> rt_rbb_blk) \<Rightarrow> rt_rbb \<Rightarrow> rt_rbb" where
  "rbb_upd i f rbb = rbb\<lparr>rbb_blk_set := (rbb_blk_set rbb)[i := f (rbb_blk_set rbb ! i)]\<rparr>"

definition rt_rbb_init :: "u32 \<Rightarrow> u32 \<Rightarrow> rt_rbb_blk list \<Rightarrow> u32 \<Rightarrow> rt_rbb option" where
  "rt_rbb_init buf buf_size block_set blk_max_num = do {
     rt_assert (buf \<noteq> 0);
     rt_assert (unat blk_max_num \<le> length block_set);
     Some \<lparr>rbb_buf = buf, rbb_buf_size = buf_size,
       rbb_blk_set = map (\<lambda>b. b\<lparr>blk_status := RT_RBB_BLK_UNUSED\<rparr>) (take (unat blk_max_num) block_set) @
         drop (unat blk_max_num) block_set,
       rbb_blk_max_num = blk_max_num, rbb_blk_list = []\<rparr>
   }"

text \<open>The results of the three allocations of \<^verbatim>\<open>rt_rbb_create\<close> are parameters; the second result has the allocations that it gives
  back.\<close>

datatype rbb_mem = RbbStruct | RbbBuf | RbbSet

definition rt_rbb_create ::
    "u32 \<Rightarrow> u32 \<Rightarrow> bool \<Rightarrow> u32 option \<Rightarrow> rt_rbb_blk list option \<Rightarrow> (rt_rbb option \<times> rbb_mem list) option" where
  "rt_rbb_create buf_size blk_max_num struct_mem buf_mem set_mem =
     (if \<not> struct_mem then Some (None, [])
      else case buf_mem of
        None \<Rightarrow> Some (None, [RbbStruct])
      | Some buf \<Rightarrow>
          (case set_mem of
             None \<Rightarrow> Some (None, [RbbBuf, RbbStruct])
           | Some blk_set \<Rightarrow> do {
               rbb \<leftarrow> rt_rbb_init buf buf_size blk_set blk_max_num;
               Some (Some rbb, [])
             }))"

definition rt_rbb_destroy :: "rt_rbb \<Rightarrow> rbb_mem list" where
  "rt_rbb_destroy rbb = [RbbBuf, RbbSet, RbbStruct]"

function find_empty_from :: "rt_rbb \<Rightarrow> nat \<Rightarrow> nat option option" where
  "find_empty_from rbb i =
     (if i < unat (rbb_blk_max_num rbb) then do {
        b \<leftarrow> rbb_blk rbb i;
        if blk_status b = RT_RBB_BLK_UNUSED then Some (Some i) else find_empty_from rbb (Suc i)
      }
      else Some None)"
  by pat_completeness auto
termination
  by (relation "measure (\<lambda>(rbb, i). unat (rbb_blk_max_num rbb) - i)") auto

declare find_empty_from.simps [simp del]

definition find_empty_blk_in_set :: "rt_rbb \<Rightarrow> nat option option" where
  "find_empty_blk_in_set rbb = find_empty_from rbb 0"

text \<open>The four lines that each successful branch of the allocation repeats.\<close>

definition rbb_place :: "nat \<Rightarrow> u32 \<Rightarrow> u32 \<Rightarrow> rt_rbb \<Rightarrow> nat option \<times> rt_rbb" where
  "rbb_place i buf sz rbb =
     (Some i, rbb_upd i (\<lambda>b. b\<lparr>blk_status := RT_RBB_BLK_INITED, blk_buf := buf, blk_size := ucast sz\<rparr>)
                (rbb\<lparr>rbb_blk_list := rbb_blk_list rbb @ [i]\<rparr>))"

definition blk_end :: "rt_rbb_blk \<Rightarrow> u32" where
  "blk_end b = blk_buf b + ucast (blk_size b)"

definition rt_rbb_blk_alloc :: "u32 \<Rightarrow> rt_rbb \<Rightarrow> (nat option \<times> rt_rbb) option" where
  "rt_rbb_blk_alloc sz rbb = do {
     rt_assert (sz < 2 ^ 24);
     found \<leftarrow> find_empty_blk_in_set rbb;
     (case found of
        None \<Rightarrow> Some (None, rbb)
      | Some new \<Rightarrow>
          if length (rbb_blk_list rbb) < unat (rbb_blk_max_num rbb) then
            if rbb_blk_list rbb \<noteq> [] then do {
              head \<leftarrow> rbb_blk rbb (hd (rbb_blk_list rbb));
              tail \<leftarrow> rbb_blk rbb (last (rbb_blk_list rbb));
              Some (if blk_buf head \<le> blk_buf tail then
                      (let empty1 = (rbb_buf rbb + rbb_buf_size rbb) - blk_end tail;
                           empty2 = blk_buf head - rbb_buf rbb
                       in if empty1 \<ge> sz then rbb_place new (blk_end tail) sz rbb
                          else if empty2 \<ge> sz then rbb_place new (rbb_buf rbb) sz rbb
                          else (None, rbb))
                    else
                      (let empty1 = blk_buf head - blk_end tail
                       in if empty1 \<ge> sz then rbb_place new (blk_end tail) sz rbb
                          else (None, rbb)))
            }
            else Some (rbb_place new (rbb_buf rbb) sz rbb)
          else Some (None, rbb))
   }"

definition rt_rbb_blk_put :: "nat \<Rightarrow> rt_rbb \<Rightarrow> rt_rbb option" where
  "rt_rbb_blk_put i rbb = do {
     b \<leftarrow> rbb_blk rbb i;
     rt_assert (blk_status b = RT_RBB_BLK_INITED);
     Some (rbb_upd i (blk_status_update (\<lambda>_. RT_RBB_BLK_PUT)) rbb)
   }"

fun blk_get_loop :: "nat list \<Rightarrow> rt_rbb \<Rightarrow> (nat option \<times> rt_rbb) option" where
  "blk_get_loop [] rbb = Some (None, rbb)"
| "blk_get_loop (i # nodes) rbb = do {
     b \<leftarrow> rbb_blk rbb i;
     if blk_status b = RT_RBB_BLK_PUT then Some (Some i, rbb_upd i (blk_status_update (\<lambda>_. RT_RBB_BLK_GET)) rbb)
     else blk_get_loop nodes rbb
   }"

definition rt_rbb_blk_get :: "rt_rbb \<Rightarrow> (nat option \<times> rt_rbb) option" where
  "rt_rbb_blk_get rbb = (if rbb_blk_list rbb = [] then Some (None, rbb) else blk_get_loop (rbb_blk_list rbb) rbb)"

definition rt_rbb_blk_size :: "nat \<Rightarrow> rt_rbb \<Rightarrow> u32 option" where
  "rt_rbb_blk_size i rbb = map_option (\<lambda>b. ucast (blk_size b)) (rbb_blk rbb i)"

definition rt_rbb_blk_buf :: "nat \<Rightarrow> rt_rbb \<Rightarrow> u32 option" where
  "rt_rbb_blk_buf i rbb = map_option blk_buf (rbb_blk rbb i)"

definition rt_rbb_blk_free :: "nat \<Rightarrow> rt_rbb \<Rightarrow> rt_rbb option" where
  "rt_rbb_blk_free i rbb = do {
     b \<leftarrow> rbb_blk rbb i;
     rt_assert (blk_status b \<noteq> RT_RBB_BLK_UNUSED);
     Some (rbb_upd i (blk_status_update (\<lambda>_. RT_RBB_BLK_UNUSED)) (rbb\<lparr>rbb_blk_list := remove1 i (rbb_blk_list rbb)\<rparr>))
   }"

text \<open>The loop of \<^verbatim>\<open>rt_rbb_blk_queue_get\<close>: the nodes that are left, \<^verbatim>\<open>last_block\<close>, \<^verbatim>\<open>data_total_size\<close> and the queue.\<close>

definition queue_take :: "nat \<Rightarrow> rt_rbb \<Rightarrow> rt_rbb" where
  "queue_take i rbb =
     rbb_upd i (blk_status_update (\<lambda>_. RT_RBB_BLK_GET)) (rbb\<lparr>rbb_blk_list := remove1 i (rbb_blk_list rbb)\<rparr>)"

fun queue_get_loop ::
    "u32 \<Rightarrow> nat list \<Rightarrow> nat option \<Rightarrow> u32 \<Rightarrow> rt_rbb_blk_queue \<Rightarrow> rt_rbb \<Rightarrow> (u32 \<times> rt_rbb_blk_queue \<times> rt_rbb) option" where
  "queue_get_loop len [] last_block data_total que rbb = Some (data_total, que, rbb)"
| "queue_get_loop len (i # nodes) last_block data_total que rbb = do {
     b \<leftarrow> rbb_blk rbb i;
     (case last_block of
        None \<Rightarrow>
          if blk_status b = RT_RBB_BLK_PUT then
            queue_get_loop len nodes (Some i) (data_total + ucast (blk_size b)) (que\<lparr>que_blocks := i, que_blk_num := 0 + 1\<rparr>)
              (queue_take i rbb)
          else queue_get_loop len nodes None data_total que rbb
      | Some l \<Rightarrow> do {
          lb \<leftarrow> rbb_blk rbb l;
          if blk_status b \<noteq> RT_RBB_BLK_PUT \<or> blk_buf lb > blk_buf b \<or> data_total + ucast (blk_size b) > len
          then Some (data_total, que, rbb)
          else queue_get_loop len nodes (Some i) (data_total + ucast (blk_size b)) (que\<lparr>que_blk_num := que_blk_num que + 1\<rparr>)
                 (queue_take i rbb)
        })
   }"

definition rt_rbb_blk_queue_get ::
    "u32 \<Rightarrow> rt_rbb_blk_queue \<Rightarrow> rt_rbb \<Rightarrow> (u32 \<times> rt_rbb_blk_queue \<times> rt_rbb) option" where
  "rt_rbb_blk_queue_get queue_data_len que rbb =
     (if rbb_blk_list rbb = [] then Some (0, que, rbb)
      else queue_get_loop queue_data_len (rbb_blk_list rbb) None 0 que rbb)"

primrec sizes_from :: "rt_rbb \<Rightarrow> nat \<Rightarrow> nat \<Rightarrow> u32 \<Rightarrow> u32 option" where
  "sizes_from rbb i 0 data_total = Some data_total"
| "sizes_from rbb i (Suc n) data_total = rbb_blk rbb i \<bind> (\<lambda>b. sizes_from rbb (Suc i) n (data_total + ucast (blk_size b)))"

definition rt_rbb_blk_queue_len :: "rt_rbb_blk_queue \<Rightarrow> rt_rbb \<Rightarrow> u32 option" where
  "rt_rbb_blk_queue_len que rbb = sizes_from rbb (que_blocks que) (unat (que_blk_num que)) 0"

definition rt_rbb_blk_queue_buf :: "rt_rbb_blk_queue \<Rightarrow> rt_rbb \<Rightarrow> u32 option" where
  "rt_rbb_blk_queue_buf que rbb = rt_rbb_blk_buf (que_blocks que) rbb"

definition rt_rbb_blk_queue_free :: "rt_rbb_blk_queue \<Rightarrow> rt_rbb \<Rightarrow> rt_rbb option" where
  "rt_rbb_blk_queue_free que rbb =
     iterM rt_rbb_blk_free [que_blocks que ..< que_blocks que + unat (que_blk_num que)] rbb"

fun next_len_loop :: "rt_rbb \<Rightarrow> nat list \<Rightarrow> nat option \<Rightarrow> u32 \<Rightarrow> u32 option" where
  "next_len_loop rbb [] last_block data_len = Some data_len"
| "next_len_loop rbb (i # nodes) last_block data_len = do {
     b \<leftarrow> rbb_blk rbb i;
     (case last_block of
        None \<Rightarrow>
          if blk_status b \<noteq> RT_RBB_BLK_PUT then next_len_loop rbb nodes None data_len
          else next_len_loop rbb nodes (Some i) (data_len + ucast (blk_size b))
      | Some l \<Rightarrow> do {
          lb \<leftarrow> rbb_blk rbb l;
          if blk_status b \<noteq> RT_RBB_BLK_PUT \<or> blk_buf lb > blk_buf b then Some data_len
          else next_len_loop rbb nodes (Some i) (data_len + ucast (blk_size b))
        })
   }"

definition rt_rbb_next_blk_queue_len :: "rt_rbb \<Rightarrow> u32 option" where
  "rt_rbb_next_blk_queue_len rbb =
     (if rbb_blk_list rbb = [] then Some 0 else next_len_loop rbb (rbb_blk_list rbb) None 0)"

definition rt_rbb_get_buf_size :: "rt_rbb \<Rightarrow> u32" where
  "rt_rbb_get_buf_size rbb = rbb_buf_size rbb"

section \<open>Invariant\<close>

text \<open>The blocks between two addresses, in the order of their addresses, without overlap. In the ring, the blocks
  are two such runs: from some address to the end of the buffer, then from its beginning to that address.\<close>

abbreviation blk_lo :: "rt_rbb_blk \<Rightarrow> nat" where "blk_lo b \<equiv> unat (blk_buf b)"
abbreviation blk_hi :: "rt_rbb_blk \<Rightarrow> nat" where "blk_hi b \<equiv> unat (blk_buf b) + unat (blk_size b)"

primrec laid :: "nat \<Rightarrow> nat \<Rightarrow> rt_rbb_blk list \<Rightarrow> bool" where
  "laid lo hi [] \<longleftrightarrow> lo \<le> hi"
| "laid lo hi (b # bs) \<longleftrightarrow> lo \<le> blk_lo b \<and> blk_lo b < blk_hi b \<and> laid (blk_hi b) hi bs"

definition ring_laid :: "nat \<Rightarrow> nat \<Rightarrow> rt_rbb_blk list \<Rightarrow> bool" where
  "ring_laid s e bs \<longleftrightarrow> (\<exists>xs ys m. bs = xs @ ys \<and> laid m e xs \<and> laid s m ys)"

abbreviation rbb_lo :: "rt_rbb \<Rightarrow> nat" where "rbb_lo rbb \<equiv> unat (rbb_buf rbb)"
abbreviation rbb_hi :: "rt_rbb \<Rightarrow> nat" where "rbb_hi rbb \<equiv> unat (rbb_buf rbb) + unat (rbb_buf_size rbb)"
abbreviation rbb_max :: "rt_rbb \<Rightarrow> nat" where "rbb_max rbb \<equiv> unat (rbb_blk_max_num rbb)"
abbreviation blk_at :: "rt_rbb \<Rightarrow> nat \<Rightarrow> rt_rbb_blk" where "blk_at rbb i \<equiv> rbb_blk_set rbb ! i"

definition listed :: "rt_rbb \<Rightarrow> rt_rbb_blk list" where
  "listed rbb = map (blk_at rbb) (rbb_blk_list rbb)"

definition rbb_inv :: "rt_rbb \<Rightarrow> bool" where
  "rbb_inv rbb \<longleftrightarrow>
     rbb_hi rbb < 2 ^ 32 \<and> rbb_max rbb \<le> length (rbb_blk_set rbb) \<and>
     distinct (rbb_blk_list rbb) \<and> set (rbb_blk_list rbb) \<subseteq> {..<rbb_max rbb} \<and>
     (\<forall>i \<in> set (rbb_blk_list rbb). blk_status (blk_at rbb i) \<noteq> RT_RBB_BLK_UNUSED) \<and>
     ring_laid (rbb_lo rbb) (rbb_hi rbb) (listed rbb)"

lemma laid_le: "laid lo hi bs \<Longrightarrow> lo \<le> hi"
  by (induction bs arbitrary: lo) fastforce+

lemma laid_bounds: "laid lo hi bs \<Longrightarrow> b \<in> set bs \<Longrightarrow> lo \<le> blk_lo b \<and> blk_lo b < blk_hi b \<and> blk_hi b \<le> hi"
proof (induction bs arbitrary: lo)
  case (Cons a bs)
  then show ?case using laid_le [of "blk_hi a" hi bs] by fastforce
qed simp

lemma laid_weaken: "laid lo hi bs \<Longrightarrow> lo' \<le> lo \<Longrightarrow> hi \<le> hi' \<Longrightarrow> laid lo' hi' bs"
  by (induction bs arbitrary: lo lo') auto

lemma laid_snoc: "laid lo hi (bs @ [b]) \<longleftrightarrow> laid lo (blk_lo b) bs \<and> blk_lo b < blk_hi b \<and> blk_hi b \<le> hi"
  by (induction bs arbitrary: lo) auto

lemma laid_from_hd: "laid lo hi bs \<Longrightarrow> bs \<noteq> [] \<Longrightarrow> laid (blk_lo (hd bs)) hi bs"
  by (cases bs) auto

lemma laid_to_last: "laid lo hi bs \<Longrightarrow> bs \<noteq> [] \<Longrightarrow> blk_hi (last bs) \<le> hi' \<Longrightarrow> laid lo hi' bs"
  by (cases bs rule: rev_cases) (auto simp: laid_snoc)

lemma laid_hd_last:
  assumes "laid lo hi bs" "bs \<noteq> []" shows "blk_lo (hd bs) \<le> blk_lo (last bs)"
  using laid_bounds [OF laid_from_hd [OF assms] last_in_set [OF assms(2)]] by simp

lemma laid_drop: "laid lo hi (xs @ b # ys) \<Longrightarrow> laid lo hi (xs @ ys)"
proof (induction xs arbitrary: lo)
  case Nil
  then show ?case by (auto intro: laid_weaken)
qed auto

lemma ring_drop:
  assumes "ring_laid s e (as @ b # bs)" shows "ring_laid s e (as @ bs)"
proof -
  obtain xs ys m where *: "as @ b # bs = xs @ ys" "laid m e xs" "laid s m ys"
    using assms by (auto simp: ring_laid_def)
  then consider us where "xs = as @ b # us" "bs = us @ ys" | us where "as = xs @ us" "ys = us @ b # bs"
    by (auto simp: append_eq_append_conv2 append_eq_Cons_conv Cons_eq_append_conv)
  then show ?thesis
  proof cases
    case 1
    then have "laid m e (as @ us)" using *(2) laid_drop by blast
    then show ?thesis using 1 *(3) unfolding ring_laid_def by (metis append.assoc)
  next
    case 2
    then have "laid s m (us @ bs)" using *(3) laid_drop by blast
    then show ?thesis using 2 *(2) unfolding ring_laid_def by (metis append.assoc)
  qed
qed

lemma ring_bounds: "ring_laid s e bs \<Longrightarrow> b \<in> set bs \<Longrightarrow> s \<le> blk_lo b \<and> blk_lo b < blk_hi b \<and> blk_hi b \<le> e"
  unfolding ring_laid_def
proof (elim exE conjE)
  fix xs ys m
  assume "b \<in> set bs" "bs = xs @ ys" "laid m e xs" "laid s m ys"
  then show ?thesis
    using laid_bounds [of m e xs b] laid_bounds [of s m ys b] laid_le [of m e xs] laid_le [of s m ys] by auto
qed

lemma ring_apart:
  assumes "ring_laid s e (bs @ [b])" "c \<in> set bs"
  shows "blk_hi c \<le> blk_lo b \<or> blk_hi b \<le> blk_lo c"
proof -
  obtain xs ys m where *: "bs @ [b] = xs @ ys" "laid m e xs" "laid s m ys"
    using assms(1) by (auto simp: ring_laid_def)
  show ?thesis
  proof (cases ys rule: rev_cases)
    case Nil
    then have "laid m (blk_lo b) bs" using *(1,2) laid_snoc [of m e bs b] by simp
    then show ?thesis using assms(2) laid_bounds by blast
  next
    case (snoc zs d)
    then have eq: "bs = xs @ zs" "d = b" using *(1) by auto
    have "laid s (blk_lo b) zs" "blk_hi b \<le> m" using *(3) snoc eq by (simp_all add: laid_snoc)
    then show ?thesis using assms(2) *(2) eq laid_bounds [of m e xs c] laid_bounds [of s "blk_lo b" zs c] by auto
  qed
qed

text \<open>The three places where a block can be put into a ring that is not empty.\<close>

lemma ring_unwrapped:
  assumes "ring_laid s e bs" "bs \<noteq> []" "blk_lo (hd bs) \<le> blk_lo (last bs)"
  shows "laid s e bs"
proof -
  obtain xs ys m where *: "bs = xs @ ys" "laid m e xs" "laid s m ys"
    using assms(1) by (auto simp: ring_laid_def)
  show ?thesis
  proof (cases "xs = [] \<or> ys = []")
    case True
    then show ?thesis using * laid_weaken [of s m ys s e] laid_weaken [of m e xs s e] by (auto simp: laid_le)
  next
    case False
    have "blk_hi (last ys) \<le> m" "m \<le> blk_lo (hd xs)" "blk_lo (last ys) < blk_hi (last ys)"
      using laid_bounds [OF *(3), of "last ys"] laid_bounds [OF *(2), of "hd xs"] False by auto
    then show ?thesis using assms(3) False *(1) by simp
  qed
qed

lemma ring_after_tail:
  assumes "ring_laid s e bs" "bs \<noteq> []" "blk_lo (hd bs) \<le> blk_lo (last bs)"
    and "blk_lo b = blk_hi (last bs)" "blk_lo b < blk_hi b" "blk_hi b \<le> e"
  shows "ring_laid s e (bs @ [b])"
proof -
  have "laid s e (bs @ [b])"
    using assms laid_to_last [OF ring_unwrapped [OF assms(1-3)] assms(2)] by (simp add: laid_snoc)
  then show ?thesis unfolding ring_laid_def by (intro exI [of _ "bs @ [b]"] exI [of _ "[]"] exI [of _ s]) simp
qed

lemma ring_at_start:
  assumes "ring_laid s e bs" "bs \<noteq> []" "blk_lo (hd bs) \<le> blk_lo (last bs)"
    and "blk_lo b = s" "blk_lo b < blk_hi b" "blk_hi b \<le> blk_lo (hd bs)"
  shows "ring_laid s e (bs @ [b])"
proof -
  have "laid (blk_lo (hd bs)) e bs" using laid_from_hd [OF ring_unwrapped [OF assms(1-3)] assms(2)] .
  then show ?thesis unfolding ring_laid_def using assms
    by (intro exI [of _ "bs"] exI [of _ "[b]"] exI [of _ "blk_lo (hd bs)"]) simp
qed

lemma ring_in_gap:
  assumes "ring_laid s e bs" "bs \<noteq> []" "blk_lo (last bs) < blk_lo (hd bs)"
    and "blk_lo b = blk_hi (last bs)" "blk_lo b < blk_hi b" "blk_hi b \<le> blk_lo (hd bs)"
  shows "ring_laid s e (bs @ [b])"
proof -
  obtain xs ys m where *: "bs = xs @ ys" "laid m e xs" "laid s m ys"
    using assms(1) by (auto simp: ring_laid_def)
  have ne: "xs \<noteq> []" "ys \<noteq> []"
    using laid_hd_last [of m e bs] laid_hd_last [of s m bs] assms(2,3) * by auto
  have "laid (blk_lo (hd bs)) e xs" using laid_from_hd [OF *(2) ne(1)] *(1) ne by simp
  moreover have "laid s (blk_lo (hd bs)) (ys @ [b])"
    using laid_to_last [OF *(3) ne(2)] assms *(1) ne by (simp add: laid_snoc)
  ultimately show ?thesis unfolding ring_laid_def using *(1)
    by (intro exI [of _ xs] exI [of _ "ys @ [b]"] exI [of _ "blk_lo (hd bs)"]) simp
qed

section \<open>Blocks of a ring\<close>

lemma rbb_invD:
  assumes "rbb_inv rbb"
  shows "rbb_hi rbb < 2 ^ 32" "rbb_max rbb \<le> length (rbb_blk_set rbb)" "distinct (rbb_blk_list rbb)"
    "\<And>i. i \<in> set (rbb_blk_list rbb) \<Longrightarrow> i < rbb_max rbb"
    "\<And>i. i \<in> set (rbb_blk_list rbb) \<Longrightarrow> blk_status (blk_at rbb i) \<noteq> RT_RBB_BLK_UNUSED"
    "ring_laid (rbb_lo rbb) (rbb_hi rbb) (listed rbb)"
  using assms by (auto simp: rbb_inv_def)

lemma rbb_blk_listed:
  assumes "rbb_inv rbb" "i \<in> set (rbb_blk_list rbb)"
  shows "rbb_blk rbb i = Some (blk_at rbb i)"
  using rbb_invD(2) [OF assms(1)] rbb_invD(4) [OF assms] by (simp add: rbb_blk_def)

lemma rbb_upd_sels [simp]:
  "rbb_buf (rbb_upd i f rbb) = rbb_buf rbb" "rbb_buf_size (rbb_upd i f rbb) = rbb_buf_size rbb"
  "rbb_blk_max_num (rbb_upd i f rbb) = rbb_blk_max_num rbb" "rbb_blk_list (rbb_upd i f rbb) = rbb_blk_list rbb"
  "length (rbb_blk_set (rbb_upd i f rbb)) = length (rbb_blk_set rbb)"
  by (simp_all add: rbb_upd_def)

lemma rbb_upd_beyond: "\<not> i < length (rbb_blk_set rbb) \<Longrightarrow> rbb_upd i f rbb = rbb"
  by (cases rbb) (simp add: rbb_upd_def list_update_beyond)

lemma blk_at_upd: "i < length (rbb_blk_set rbb) \<Longrightarrow> blk_at (rbb_upd i f rbb) j = (if j = i then f (blk_at rbb i) else blk_at rbb j)"
  by (simp add: rbb_upd_def)

lemma laid_cong:
  assumes "\<And>x. x \<in> set xs \<Longrightarrow> blk_buf (f x) = blk_buf (g x) \<and> blk_size (f x) = blk_size (g x)"
  shows "laid lo hi (map f xs) = laid lo hi (map g xs)"
  using assms by (induction xs arbitrary: lo) auto

lemma ring_laid_take: "ring_laid s e bs \<longleftrightarrow> (\<exists>n m. laid m e (take n bs) \<and> laid s m (drop n bs))"
  unfolding ring_laid_def by (metis append_eq_conv_conj append_take_drop_id)

lemma ring_laid_cong:
  assumes "\<And>x. x \<in> set xs \<Longrightarrow> blk_buf (f x) = blk_buf (g x) \<and> blk_size (f x) = blk_size (g x)"
  shows "ring_laid s e (map f xs) = ring_laid s e (map g xs)"
proof -
  have "laid lo hi (map f (take n xs)) = laid lo hi (map g (take n xs))"
    "laid lo hi (map f (drop n xs)) = laid lo hi (map g (drop n xs))" for n lo hi
    using assms by (auto intro!: laid_cong dest: in_set_takeD in_set_dropD)
  then show ?thesis by (simp add: ring_laid_take take_map drop_map)
qed

text \<open>Changing the state of a block that stays in use, and removing a block from the list.\<close>

lemma rbb_inv_status:
  assumes "rbb_inv rbb" "st \<noteq> RT_RBB_BLK_UNUSED"
  shows "rbb_inv (rbb_upd i (blk_status_update (\<lambda>_. st)) rbb)"
proof (cases "i < length (rbb_blk_set rbb)")
  case True
  let ?r = "rbb_upd i (blk_status_update (\<lambda>_. st)) rbb"
  have "ring_laid (rbb_lo rbb) (rbb_hi rbb) (listed ?r)"
    using rbb_invD(6) [OF assms(1)] ring_laid_cong [of "rbb_blk_list rbb" "blk_at ?r" "blk_at rbb"]
    by (simp add: listed_def blk_at_upd True)
  then show ?thesis using rbb_invD(1-5) [OF assms(1)] assms(2) by (auto simp: rbb_inv_def blk_at_upd True)
next
  case False
  then have "rbb_upd i (blk_status_update (\<lambda>_. st)) rbb = rbb" by (rule rbb_upd_beyond)
  then show ?thesis using assms(1) by simp
qed

lemma ring_listed_remove:
  assumes "ring_laid s e (map f xs)" shows "ring_laid s e (map f (remove1 i xs))"
proof (cases "i \<in> set xs")
  case True
  then obtain us vs where "xs = us @ i # vs" "i \<notin> set us" by (meson split_list_first)
  then show ?thesis using assms ring_drop [of s e "map f us" "f i" "map f vs"] by (simp add: remove1_append)
qed (use assms in \<open>simp add: remove1_idem\<close>)

lemma rbb_inv_unlist:
  assumes "rbb_inv rbb"
  shows "rbb_inv (rbb_upd i (blk_status_update (\<lambda>_. st)) (rbb\<lparr>rbb_blk_list := remove1 i (rbb_blk_list rbb)\<rparr>))"
proof (cases "i < length (rbb_blk_set rbb)")
  case True
  let ?l = "remove1 i (rbb_blk_list rbb)"
  let ?r = "rbb_upd i (blk_status_update (\<lambda>_. st)) (rbb\<lparr>rbb_blk_list := ?l\<rparr>)"
  have at: "blk_at ?r j = (if j = i then (blk_at rbb i)\<lparr>blk_status := st\<rparr> else blk_at rbb j)" for j
    using True by (simp add: rbb_upd_def)
  have mem: "j \<in> set ?l \<longleftrightarrow> j \<in> set (rbb_blk_list rbb) \<and> j \<noteq> i" for j using rbb_invD(3) [OF assms] by auto
  have "listed ?r = map (blk_at rbb) ?l" using mem by (auto simp: listed_def at)
  then have "ring_laid (rbb_lo rbb) (rbb_hi rbb) (listed ?r)"
    using ring_listed_remove [OF rbb_invD(6) [OF assms, unfolded listed_def]] by simp
  then show ?thesis using rbb_invD(1-5) [OF assms] mem by (auto simp: rbb_inv_def at distinct_remove1)
next
  case False
  then have "i \<notin> set (rbb_blk_list rbb)" using rbb_invD(2) [OF assms] rbb_invD(4) [OF assms, of i] by linarith
  then have "rbb_upd i (blk_status_update (\<lambda>_. st)) (rbb\<lparr>rbb_blk_list := remove1 i (rbb_blk_list rbb)\<rparr>) = rbb"
    using False by (cases rbb) (simp add: rbb_upd_beyond remove1_idem)
  then show ?thesis using assms by simp
qed

section \<open>Allocation\<close>

lemma find_empty_from_spec:
  assumes "rbb_max rbb \<le> length (rbb_blk_set rbb)"
  shows "\<exists>r. find_empty_from rbb i = Some r \<and>
    (case r of None \<Rightarrow> \<forall>j. i \<le> j \<and> j < rbb_max rbb \<longrightarrow> blk_status (blk_at rbb j) \<noteq> RT_RBB_BLK_UNUSED
     | Some n \<Rightarrow> i \<le> n \<and> n < rbb_max rbb \<and> blk_status (blk_at rbb n) = RT_RBB_BLK_UNUSED)"
  using assms
proof (induction rbb i rule: find_empty_from.induct)
  case (1 rbb i)
  show ?case
  proof (cases "i < rbb_max rbb \<and> blk_status (blk_at rbb i) \<noteq> RT_RBB_BLK_UNUSED")
    case True
    then have blk: "rbb_blk rbb i = Some (blk_at rbb i)" using "1.prems" by (simp add: rbb_blk_def)
    then obtain r where r: "find_empty_from rbb (Suc i) = Some r"
      "case r of None \<Rightarrow> \<forall>j. Suc i \<le> j \<and> j < rbb_max rbb \<longrightarrow> blk_status (blk_at rbb j) \<noteq> RT_RBB_BLK_UNUSED
       | Some n \<Rightarrow> Suc i \<le> n \<and> n < rbb_max rbb \<and> blk_status (blk_at rbb n) = RT_RBB_BLK_UNUSED"
      using "1.IH" True "1.prems" by blast
    then have "case r of None \<Rightarrow> \<forall>j. i \<le> j \<and> j < rbb_max rbb \<longrightarrow> blk_status (blk_at rbb j) \<noteq> RT_RBB_BLK_UNUSED
       | Some n \<Rightarrow> i \<le> n \<and> n < rbb_max rbb \<and> blk_status (blk_at rbb n) = RT_RBB_BLK_UNUSED"
      using True by (auto simp: Suc_le_eq split: option.splits) (metis le_neq_implies_less)
    then show ?thesis using True blk r(1) by (simp add: find_empty_from.simps [of rbb i])
  next
    case False
    then show ?thesis using "1.prems" by (auto simp: find_empty_from.simps [of rbb i] rbb_blk_def)
  qed
qed

text \<open>The allocation finds no place: no block is unused, or neither gap of the ring has room.\<close>

definition rbb_no_room :: "u32 \<Rightarrow> rt_rbb \<Rightarrow> bool" where
  "rbb_no_room sz rbb \<longleftrightarrow>
     (\<forall>i < rbb_max rbb. blk_status (blk_at rbb i) \<noteq> RT_RBB_BLK_UNUSED) \<or>
     rbb_blk_list rbb \<noteq> [] \<and>
     (let head = hd (listed rbb); tail = last (listed rbb)
      in if blk_lo head \<le> blk_lo tail then rbb_hi rbb - blk_hi tail < unat sz \<and> blk_lo head - rbb_lo rbb < unat sz
         else blk_lo head - blk_hi tail < unat sz)"

text \<open>What a successful allocation promises: a block that was not in use, of the size that was asked for, inside of the buffer
  and apart from every listed block.\<close>

definition rbb_new_block :: "nat \<Rightarrow> u32 \<Rightarrow> rt_rbb \<Rightarrow> rt_rbb \<Rightarrow> bool" where
  "rbb_new_block i sz rbb rbb' \<longleftrightarrow>
     i < rbb_max rbb \<and> blk_status (blk_at rbb i) = RT_RBB_BLK_UNUSED \<and> i \<notin> set (rbb_blk_list rbb) \<and>
     rbb_blk_list rbb' = rbb_blk_list rbb @ [i] \<and> (\<forall>j. j \<noteq> i \<longrightarrow> blk_at rbb' j = blk_at rbb j) \<and>
     blk_status (blk_at rbb' i) = RT_RBB_BLK_INITED \<and> unat (blk_size (blk_at rbb' i)) = unat sz \<and>
     rbb_lo rbb \<le> blk_lo (blk_at rbb' i) \<and> blk_hi (blk_at rbb' i) \<le> rbb_hi rbb \<and>
     (\<forall>j \<in> set (rbb_blk_list rbb).
        blk_hi (blk_at rbb j) \<le> blk_lo (blk_at rbb' i) \<or> blk_hi (blk_at rbb' i) \<le> blk_lo (blk_at rbb j))"

lemma unat_ucast_24: "sz < 2 ^ 24 \<Longrightarrow> unat (ucast (sz :: u32) :: 24 word) = unat sz"
  by (simp add: unsigned_ucast_eq word_less_nat_alt take_bit_nat_eq_self)

lemma rbb_place_ok:
  assumes "rbb_inv rbb" "i < rbb_max rbb" "blk_status (blk_at rbb i) = RT_RBB_BLK_UNUSED" "0 < sz" "sz < 2 ^ 24"
    and ring: "\<And>b. blk_buf b = buf \<Longrightarrow> unat (blk_size b) = unat sz \<Longrightarrow> ring_laid (rbb_lo rbb) (rbb_hi rbb) (listed rbb @ [b])"
  shows "\<exists>rbb'. rbb_place i buf sz rbb = (Some i, rbb') \<and> rbb_inv rbb' \<and> rbb_new_block i sz rbb rbb'"
proof -
  let ?b = "(blk_at rbb i)\<lparr>blk_status := RT_RBB_BLK_INITED, blk_buf := buf, blk_size := ucast sz\<rparr>"
  let ?r = "snd (rbb_place i buf sz rbb)"
  have i: "i < length (rbb_blk_set rbb)" "i \<notin> set (rbb_blk_list rbb)"
    using assms(2) rbb_invD(2) [OF assms(1)] rbb_invD(5) [OF assms(1), of i] assms(3) by auto
  have at: "blk_at ?r j = (if j = i then ?b else blk_at rbb j)" for j
    using i(1) by (simp add: rbb_place_def rbb_upd_def)
  have l: "listed ?r = listed rbb @ [?b]" using i(2) by (auto simp: listed_def at) (simp add: rbb_place_def)
  have lay: "ring_laid (rbb_lo rbb) (rbb_hi rbb) (listed rbb @ [?b])"
    using ring [of ?b] unat_ucast_24 [OF assms(5)] by simp
  have sel: "rbb_buf ?r = rbb_buf rbb" "rbb_buf_size ?r = rbb_buf_size rbb" "rbb_blk_max_num ?r = rbb_blk_max_num rbb"
    "rbb_blk_list ?r = rbb_blk_list rbb @ [i]" "length (rbb_blk_set ?r) = length (rbb_blk_set rbb)"
    by (simp_all add: rbb_place_def)
  have "rbb_inv ?r" using rbb_invD [OF assms(1)] i lay assms(2) by (auto simp: rbb_inv_def sel l at)
  moreover have "rbb_new_block i sz rbb ?r"
    using assms(2,3) i(2) ring_bounds [OF lay, of ?b] ring_apart [OF lay] unat_ucast_24 [OF assms(5)]
    by (auto simp: rbb_new_block_def sel at listed_def)
  ultimately show ?thesis by (simp add: rbb_place_def)
qed

lemma unat_gap:
  fixes a b :: u32
  assumes "unat b \<le> unat a" shows "unat (a - b) = unat a - unat b"
  using assms by (simp add: unat_sub word_le_nat_alt)

lemma unat_blk_end:
  assumes "blk_hi b < 2 ^ 32" shows "unat (blk_end b) = blk_hi b"
  using assms by (simp add: blk_end_def unat_word_ariths unsigned_ucast_eq take_bit_nat_eq_self)

text \<open>The distances that the allocation computes, and that they do not wrap.\<close>

lemma rbb_gaps:
  assumes inv: "rbb_inv rbb" and l: "rbb_blk_list rbb \<noteq> []"
  defines "h \<equiv> hd (listed rbb)" and "t \<equiv> last (listed rbb)"
  shows "rbb_lo rbb \<le> blk_lo h" "blk_hi t \<le> rbb_hi rbb" "unat (blk_end t) = blk_hi t"
    "unat (rbb_buf rbb + rbb_buf_size rbb - blk_end t) = rbb_hi rbb - blk_hi t"
    "unat (blk_buf h - rbb_buf rbb) = blk_lo h - rbb_lo rbb"
    "blk_lo t < blk_lo h \<Longrightarrow> blk_hi t \<le> blk_lo h"
    "blk_lo t < blk_lo h \<Longrightarrow> unat (blk_buf h - blk_end t) = blk_lo h - blk_hi t"
proof -
  let ?bs = "listed rbb"
  note ring = rbb_invD(6) [OF inv] and hi = rbb_invD(1) [OF inv]
  have ne: "?bs \<noteq> []" using l by (simp add: listed_def)
  show b: "rbb_lo rbb \<le> blk_lo h" "blk_hi t \<le> rbb_hi rbb"
    using ring_bounds [OF ring, of h] ring_bounds [OF ring, of t] ne by (auto simp: h_def t_def)
  show te: "unat (blk_end t) = blk_hi t" using b hi by (intro unat_blk_end) linarith
  have "unat (rbb_buf rbb + rbb_buf_size rbb) = rbb_hi rbb" using hi by (simp add: unat_word_ariths)
  then show "unat (rbb_buf rbb + rbb_buf_size rbb - blk_end t) = rbb_hi rbb - blk_hi t"
    using b te by (simp add: unat_gap)
  show "unat (blk_buf h - rbb_buf rbb) = blk_lo h - rbb_lo rbb" using b by (simp add: unat_gap)
  show gap: "blk_hi t \<le> blk_lo h" if "blk_lo t < blk_lo h"
  proof -
    obtain xs ys m where *: "?bs = xs @ ys" "laid m (rbb_hi rbb) xs" "laid (rbb_lo rbb) m ys"
      using ring by (auto simp: ring_laid_def)
    have "xs \<noteq> []" "ys \<noteq> []"
      using laid_hd_last [of m "rbb_hi rbb" ?bs] laid_hd_last [of "rbb_lo rbb" m ?bs] ne that *
      by (auto simp: h_def t_def)
    then show ?thesis using laid_bounds [OF *(2), of h] laid_bounds [OF *(3), of t] *(1) by (simp add: h_def t_def)
  qed
  show "unat (blk_buf h - blk_end t) = blk_lo h - blk_hi t" if "blk_lo t < blk_lo h"
    using gap [OF that] te by (simp add: unat_gap)
qed

definition alloc_post :: "u32 \<Rightarrow> rt_rbb \<Rightarrow> nat option \<times> rt_rbb \<Rightarrow> bool" where
  "alloc_post sz rbb res \<longleftrightarrow> rbb_inv (snd res) \<and>
     (case fst res of None \<Rightarrow> snd res = rbb \<and> rbb_no_room sz rbb | Some i \<Rightarrow> rbb_new_block i sz rbb (snd res))"

lemma rbb_place_post:
  assumes "rbb_inv rbb" "i < rbb_max rbb" "blk_status (blk_at rbb i) = RT_RBB_BLK_UNUSED" "0 < sz" "sz < 2 ^ 24"
    and "\<And>b. blk_buf b = buf \<Longrightarrow> unat (blk_size b) = unat sz \<Longrightarrow> ring_laid (rbb_lo rbb) (rbb_hi rbb) (listed rbb @ [b])"
  shows "alloc_post sz rbb (rbb_place i buf sz rbb)"
proof -
  obtain rbb' where "rbb_place i buf sz rbb = (Some i, rbb')" "rbb_inv rbb'" "rbb_new_block i sz rbb rbb'"
    using rbb_place_ok [OF assms] by blast
  then show ?thesis by (simp add: alloc_post_def)
qed

lemma rbb_alloc_listed:
  assumes inv: "rbb_inv rbb" and l: "rbb_blk_list rbb \<noteq> []" and sz: "0 < sz" "sz < 2 ^ 24"
    and i: "find_empty_blk_in_set rbb = Some (Some i)" "i < rbb_max rbb" "blk_status (blk_at rbb i) = RT_RBB_BLK_UNUSED"
    and room: "length (rbb_blk_list rbb) < rbb_max rbb"
  shows "\<exists>res. rt_rbb_blk_alloc sz rbb = Some res \<and> alloc_post sz rbb res"
proof -
  let ?bs = "listed rbb" and ?h = "hd (listed rbb)" and ?t = "last (listed rbb)"
  note ring = rbb_invD(6) [OF inv] and gaps = rbb_gaps [OF inv l] and place = rbb_place_post [OF inv i(2,3) sz]
  have ne: "?bs \<noteq> []" using l by (simp add: listed_def)
  have blks: "rbb_blk rbb (hd (rbb_blk_list rbb)) = Some ?h" "rbb_blk rbb (last (rbb_blk_list rbb)) = Some ?t"
    using rbb_blk_listed [OF inv] l by (simp_all add: listed_def hd_map last_map)
  have pos: "0 < unat sz" using sz(1) by (simp add: unat_gt_0 word_neq_0_conv)
  note alloc = rt_rbb_blk_alloc_def i(1) room l blks Let_def word_le_nat_alt
  show ?thesis
  proof (cases "blk_lo ?h \<le> blk_lo ?t")
    case True
    consider "unat sz \<le> rbb_hi rbb - blk_hi ?t" | "rbb_hi rbb - blk_hi ?t < unat sz" "unat sz \<le> blk_lo ?h - rbb_lo rbb"
      | "rbb_hi rbb - blk_hi ?t < unat sz" "blk_lo ?h - rbb_lo rbb < unat sz" by linarith
    then show ?thesis
    proof cases
      case 1
      have "alloc_post sz rbb (rbb_place i (blk_end ?t) sz rbb)"
        using 1 pos gaps by (intro place ring_after_tail [OF ring ne True]) auto
      then show ?thesis using 1 True sz by (simp add: alloc gaps)
    next
      case 2
      have "alloc_post sz rbb (rbb_place i (rbb_buf rbb) sz rbb)"
        using 2 pos gaps by (intro place ring_at_start [OF ring ne True]) auto
      then show ?thesis using 2 True sz by (simp add: alloc gaps)
    next
      case 3
      then show ?thesis using inv True sz l by (simp add: alloc gaps alloc_post_def rbb_no_room_def)
    qed
  next
    case False
    then have lt: "blk_lo ?t < blk_lo ?h" by simp
    note gap = gaps(6,7) [OF lt]
    show ?thesis
    proof (cases "unat sz \<le> blk_lo ?h - blk_hi ?t")
      case True
      have "alloc_post sz rbb (rbb_place i (blk_end ?t) sz rbb)"
        using True pos gap gaps(3) by (intro place ring_in_gap [OF ring ne lt]) auto
      then show ?thesis using True False sz by (simp add: alloc gap)
    next
      case no: False
      then show ?thesis using inv False sz l by (simp add: alloc gap alloc_post_def rbb_no_room_def)
    qed
  qed
qed

text \<open>The second branch: the list is empty and the block is put at the beginning of the buffer.\<close>

lemma rt_rbb_blk_alloc_post:
  assumes inv: "rbb_inv rbb" and sz: "0 < sz" "sz < 2 ^ 24"
    and fits: "rbb_blk_list rbb = [] \<Longrightarrow> sz \<le> rbb_buf_size rbb"
  shows "\<exists>res. rt_rbb_blk_alloc sz rbb = Some res \<and> alloc_post sz rbb res"
proof -
  obtain r where r: "find_empty_blk_in_set rbb = Some r"
    "case r of None \<Rightarrow> \<forall>j < rbb_max rbb. blk_status (blk_at rbb j) \<noteq> RT_RBB_BLK_UNUSED
     | Some n \<Rightarrow> n < rbb_max rbb \<and> blk_status (blk_at rbb n) = RT_RBB_BLK_UNUSED"
    using find_empty_from_spec [OF rbb_invD(2) [OF inv], of 0] by (auto simp: find_empty_blk_in_set_def split: option.splits)
  show ?thesis
  proof (cases r)
    case None
    then show ?thesis using r inv sz by (simp add: rt_rbb_blk_alloc_def alloc_post_def rbb_no_room_def)
  next
    case (Some i)
    then have i: "i < rbb_max rbb" "blk_status (blk_at rbb i) = RT_RBB_BLK_UNUSED" using r(2) by simp_all
    then have "set (rbb_blk_list rbb) \<subset> {..<rbb_max rbb}" using rbb_invD(4,5) [OF inv] by blast
    then have room: "length (rbb_blk_list rbb) < rbb_max rbb"
      using psubset_card_mono [of "{..<rbb_max rbb}" "set (rbb_blk_list rbb)"] distinct_card [OF rbb_invD(3) [OF inv]] by simp
    show ?thesis
    proof (cases "rbb_blk_list rbb = []")
      case True
      have "ring_laid (rbb_lo rbb) (rbb_hi rbb) (listed rbb @ [b])"
        if "blk_buf b = rbb_buf rbb" "unat (blk_size b) = unat sz" for b
        unfolding ring_laid_def using that True fits sz(1)
        by (intro exI [of _ "[b]"] exI [of _ "[]"] exI [of _ "rbb_lo rbb"])
          (simp add: listed_def word_le_nat_alt unat_gt_0 word_neq_0_conv)
      then have "alloc_post sz rbb (rbb_place i (rbb_buf rbb) sz rbb)" by (intro rbb_place_post [OF inv i sz])
      then show ?thesis using r(1) Some True room sz by (simp add: rt_rbb_blk_alloc_def)
    qed (use rbb_alloc_listed [OF inv _ sz] r(1) Some i room in blast)
  qed
qed


section \<open>Putting, getting and freeing\<close>

lemma rt_rbb_init_inv:
  assumes "buf \<noteq> 0" "unat buf + unat buf_size < 2 ^ 32" "unat blk_max_num \<le> length block_set"
  shows "\<exists>rbb. rt_rbb_init buf buf_size block_set blk_max_num = Some rbb \<and> rbb_inv rbb \<and>
    rbb_buf rbb = buf \<and> rbb_buf_size rbb = buf_size \<and> rbb_blk_max_num rbb = blk_max_num \<and> rbb_blk_list rbb = []"
proof -
  have "ring_laid (unat buf) (unat buf + unat buf_size) []"
    by (auto simp: ring_laid_def intro: exI [of _ "unat buf"])
  then show ?thesis using assms by (simp add: rt_rbb_init_def rbb_inv_def listed_def)
qed

lemma rt_rbb_blk_put_ok:
  assumes "rbb_inv rbb" "i < rbb_max rbb" "blk_status (blk_at rbb i) = RT_RBB_BLK_INITED"
  shows "rt_rbb_blk_put i rbb = Some (rbb_upd i (blk_status_update (\<lambda>_. RT_RBB_BLK_PUT)) rbb)"
    and "rbb_inv (rbb_upd i (blk_status_update (\<lambda>_. RT_RBB_BLK_PUT)) rbb)"
  using assms rbb_invD(2) [OF assms(1)] by (simp_all add: rt_rbb_blk_put_def rbb_blk_def rbb_inv_status)

lemma rt_rbb_blk_free_ok:
  assumes "rbb_inv rbb" "i < rbb_max rbb" "blk_status (blk_at rbb i) \<noteq> RT_RBB_BLK_UNUSED"
  shows "\<exists>rbb'. rt_rbb_blk_free i rbb = Some rbb' \<and> rbb_inv rbb' \<and> rbb_blk_list rbb' = remove1 i (rbb_blk_list rbb) \<and>
    blk_status (blk_at rbb' i) = RT_RBB_BLK_UNUSED \<and> (\<forall>j. j \<noteq> i \<longrightarrow> blk_at rbb' j = blk_at rbb j) \<and>
    rbb_blk_max_num rbb' = rbb_blk_max_num rbb"
  using assms rbb_invD(2) [OF assms(1)] rbb_inv_unlist [OF assms(1)]
  by (simp add: rt_rbb_blk_free_def rbb_blk_def blk_at_upd)

text \<open>The block that a reader gets is the oldest one that was put.\<close>

lemma blk_get_loop_spec:
  assumes "\<forall>i \<in> set nodes. rbb_blk rbb i = Some (blk_at rbb i)"
  shows "blk_get_loop nodes rbb =
    (case find (\<lambda>i. blk_status (blk_at rbb i) = RT_RBB_BLK_PUT) nodes of
       None \<Rightarrow> Some (None, rbb)
     | Some i \<Rightarrow> Some (Some i, rbb_upd i (blk_status_update (\<lambda>_. RT_RBB_BLK_GET)) rbb))"
  using assms by (induction nodes) auto

lemma rt_rbb_blk_get_ok:
  assumes "rbb_inv rbb"
  shows "rt_rbb_blk_get rbb =
    (case find (\<lambda>i. blk_status (blk_at rbb i) = RT_RBB_BLK_PUT) (rbb_blk_list rbb) of
       None \<Rightarrow> Some (None, rbb)
     | Some i \<Rightarrow> Some (Some i, rbb_upd i (blk_status_update (\<lambda>_. RT_RBB_BLK_GET)) rbb))"
  using blk_get_loop_spec [of "rbb_blk_list rbb" rbb] rbb_blk_listed [OF assms]
  by (auto simp: rt_rbb_blk_get_def)

section \<open>Block queues\<close>

abbreviation blk_len :: "rt_rbb \<Rightarrow> nat \<Rightarrow> u32" where "blk_len rbb i \<equiv> ucast (blk_size (blk_at rbb i))"

lemma queue_take_sels [simp]:
  "rbb_buf (queue_take i rbb) = rbb_buf rbb" "rbb_buf_size (queue_take i rbb) = rbb_buf_size rbb"
  "rbb_blk_max_num (queue_take i rbb) = rbb_blk_max_num rbb"
  "rbb_blk_list (queue_take i rbb) = remove1 i (rbb_blk_list rbb)"
  "length (rbb_blk_set (queue_take i rbb)) = length (rbb_blk_set rbb)"
  by (simp_all add: queue_take_def)

lemma blk_at_take: "i < length (rbb_blk_set rbb) \<Longrightarrow>
    blk_at (queue_take i rbb) j = (if j = i then (blk_at rbb i)\<lparr>blk_status := RT_RBB_BLK_GET\<rparr> else blk_at rbb j)"
  by (simp add: queue_take_def rbb_upd_def)

lemma rbb_blk_take: "i < length (rbb_blk_set rbb) \<Longrightarrow> j \<noteq> i \<Longrightarrow> rbb_blk (queue_take i rbb) j = rbb_blk rbb j"
  by (simp add: rbb_blk_def blk_at_take)

lemma taken_blocks:
  assumes "distinct run" "set run \<subseteq> {..<length (rbb_blk_set rbb)}"
  shows "blk_at (fold queue_take run rbb) j =
      (if j \<in> set run then (blk_at rbb j)\<lparr>blk_status := RT_RBB_BLK_GET\<rparr> else blk_at rbb j)"
    "rbb_blk_max_num (fold queue_take run rbb) = rbb_blk_max_num rbb"
  using assms by (induction run arbitrary: rbb) (auto simp: blk_at_take)

lemma taken_list: "rbb_blk_list (fold queue_take run rbb) = fold remove1 run (rbb_blk_list rbb)"
  by (induction run arbitrary: rbb) simp_all

lemma taken_inv: "rbb_inv rbb \<Longrightarrow> rbb_inv (fold queue_take run rbb)"
  by (induction run arbitrary: rbb) (simp_all add: queue_take_def rbb_inv_unlist)

lemma fold_remove1_run: "distinct (xs @ ys @ zs) \<Longrightarrow> fold remove1 ys (xs @ ys @ zs) = xs @ zs"
  by (induction ys) (simp_all add: remove1_append)

text \<open>After its first block, the loop takes the longest run of blocks that are put, ascend in the buffer and stay within the
  limit.\<close>

primrec run_of :: "rt_rbb \<Rightarrow> u32 \<Rightarrow> nat list \<Rightarrow> nat \<Rightarrow> u32 \<Rightarrow> nat list" where
  "run_of rbb len [] l tot = []"
| "run_of rbb len (i # nodes) l tot =
     (if blk_status (blk_at rbb i) = RT_RBB_BLK_PUT \<and> blk_buf (blk_at rbb l) \<le> blk_buf (blk_at rbb i) \<and>
         tot + blk_len rbb i \<le> len
      then i # run_of rbb len nodes i (tot + blk_len rbb i) else [])"

lemma run_of_cong:
  assumes "\<forall>j \<in> set nodes. blk_at r j = blk_at rbb j" "blk_buf (blk_at r l) = blk_buf (blk_at rbb l)"
  shows "run_of r len nodes l tot = run_of rbb len nodes l tot"
  using assms by (induction nodes arbitrary: l tot) auto

lemma run_of_prefix: "\<exists>rest. nodes = run_of rbb len nodes l tot @ rest"
  by (induction nodes arbitrary: l tot) auto

lemma run_of_set: "set (run_of rbb len nodes l tot) \<subseteq> set nodes"
  by (metis run_of_prefix Un_upper1 set_append)

lemma run_of_sum:
  assumes "\<forall>j \<in> set nodes. blk_at r j = blk_at rbb j"
  shows "(\<Sum>j\<leftarrow>run_of rbb len nodes l tot. blk_len r j) = (\<Sum>j\<leftarrow>run_of rbb len nodes l tot. blk_len rbb j)"
proof -
  have "map (blk_len r) (run_of rbb len nodes l tot) = map (blk_len rbb) (run_of rbb len nodes l tot)"
    using assms run_of_set [of rbb len nodes l tot] by auto
  then show ?thesis by (rule arg_cong)
qed

lemma run_of_put: "i \<in> set (run_of rbb len nodes l tot) \<Longrightarrow> blk_status (blk_at rbb i) = RT_RBB_BLK_PUT"
  by (induction nodes arbitrary: l tot) (auto split: if_splits)

lemma run_of_ascends: "sorted (map (\<lambda>i. blk_buf (blk_at rbb i)) (l # run_of rbb len nodes l tot))"
  by (induction nodes arbitrary: l tot) (auto intro: order_trans)

lemma run_of_limit:
  "run_of rbb len nodes l tot \<noteq> [] \<Longrightarrow> tot + (\<Sum>i\<leftarrow>run_of rbb len nodes l tot. blk_len rbb i) \<le> len"
proof (induction nodes arbitrary: l tot)
  case (Cons i nodes)
  show ?case
    using Cons.prems Cons.IH [of i "tot + blk_len rbb i"]
    by (cases "run_of rbb len nodes i (tot + blk_len rbb i) = []") (auto simp: add.assoc split: if_splits)
qed simp

lemma run_of_maximal:
  assumes "nodes = run_of rbb len nodes l tot @ i # rest"
  shows "blk_status (blk_at rbb i) \<noteq> RT_RBB_BLK_PUT \<or>
    blk_buf (blk_at rbb i) < blk_buf (blk_at rbb (last (l # run_of rbb len nodes l tot))) \<or>
    len < tot + (\<Sum>j\<leftarrow>run_of rbb len nodes l tot. blk_len rbb j) + blk_len rbb i"
  using assms
proof (induction nodes arbitrary: l tot)
  case (Cons j nodes)
  show ?case
  proof (cases "run_of rbb len (j # nodes) l tot = []")
    case True
    then show ?thesis using Cons.prems by (auto simp: not_le split: if_splits)
  next
    case False
    then have r: "run_of rbb len (j # nodes) l tot = j # run_of rbb len nodes j (tot + blk_len rbb j)"
      by (auto split: if_splits)
    then have "nodes = run_of rbb len nodes j (tot + blk_len rbb j) @ i # rest" using Cons.prems by simp
    then show ?thesis using Cons.IH [of j "tot + blk_len rbb j"] unfolding r by (simp add: add.assoc)
  qed
qed simp

lemma queue_get_loop_run:
  fixes len tot :: u32
  assumes "distinct (l # nodes)" "set (l # nodes) \<subseteq> {..<length (rbb_blk_set rbb)}"
  defines "run \<equiv> run_of rbb len nodes l tot"
  shows "queue_get_loop len nodes (Some l) tot que rbb =
    Some (tot + (\<Sum>i\<leftarrow>run. blk_len rbb i), que\<lparr>que_blk_num := que_blk_num que + of_nat (length run)\<rparr>,
      fold queue_take run rbb)"
  using assms(1,2) unfolding run_def
proof (induction nodes arbitrary: l tot que rbb)
  case (Cons i nodes)
  let ?r = "queue_take i rbb" and ?run = "run_of rbb len nodes i (tot + blk_len rbb i)"
  have blk: "rbb_blk rbb i = Some (blk_at rbb i)" "rbb_blk rbb l = Some (blk_at rbb l)" "i < length (rbb_blk_set rbb)"
    using Cons.prems(2) by (simp_all add: rbb_blk_def)
  have at: "\<forall>j \<in> set nodes. blk_at ?r j = blk_at rbb j" "blk_buf (blk_at ?r i) = blk_buf (blk_at rbb i)"
    using Cons.prems(1) blk(3) by (auto simp: blk_at_take)
  have run: "run_of ?r len nodes i (tot + blk_len rbb i) = ?run" by (rule run_of_cong [OF at])
  show ?case
    using run_of_sum [OF at(1), of len i "tot + blk_len rbb i"] Cons.IH [of i ?r "tot + blk_len rbb i" "que\<lparr>que_blk_num := que_blk_num que + 1\<rparr>"] Cons.prems blk run
    by (auto simp: ac_simps not_le not_less)
qed simp

text \<open>The loop skips the blocks before the first one that is put.\<close>

lemma queue_get_loop_skip:
  assumes "\<forall>i \<in> set pre. blk_status (blk_at rbb i) \<noteq> RT_RBB_BLK_PUT" "set pre \<subseteq> {..<length (rbb_blk_set rbb)}"
  shows "queue_get_loop len (pre @ nodes) None tot que rbb = queue_get_loop len nodes None tot que rbb"
  using assms by (induction pre) (simp_all add: rbb_blk_def)

lemma put_first:
  obtains "\<forall>i \<in> set xs. blk_status (blk_at rbb i) \<noteq> RT_RBB_BLK_PUT"
  | pre i post where "xs = pre @ i # post" "\<forall>j \<in> set pre. blk_status (blk_at rbb j) \<noteq> RT_RBB_BLK_PUT"
      "blk_status (blk_at rbb i) = RT_RBB_BLK_PUT"
  using split_list_first_prop [of xs "\<lambda>i. blk_status (blk_at rbb i) = RT_RBB_BLK_PUT"] by blast

lemma queue_get_none:
  assumes "rbb_inv rbb" "\<forall>i \<in> set (rbb_blk_list rbb). blk_status (blk_at rbb i) \<noteq> RT_RBB_BLK_PUT"
  shows "rt_rbb_blk_queue_get len que rbb = Some (0, que, rbb)"
  using queue_get_loop_skip [OF assms(2), of len "[]" 0 que] rbb_invD(2,4) [OF assms(1)]
  by (fastforce simp: rt_rbb_blk_queue_get_def)

lemma queue_get_some:
  fixes len :: u32
  assumes inv: "rbb_inv rbb" and l: "rbb_blk_list rbb = pre @ i # post"
    and pre: "\<forall>j \<in> set pre. blk_status (blk_at rbb j) \<noteq> RT_RBB_BLK_PUT"
    and put: "blk_status (blk_at rbb i) = RT_RBB_BLK_PUT"
  defines "run \<equiv> i # run_of rbb len post i (blk_len rbb i)"
  shows "rt_rbb_blk_queue_get len que rbb =
    Some (\<Sum>j\<leftarrow>run. blk_len rbb j, que\<lparr>que_blocks := i, que_blk_num := of_nat (length run)\<rparr>, fold queue_take run rbb)"
proof -
  have set: "set (pre @ i # post) \<subseteq> {..<length (rbb_blk_set rbb)}" "distinct (pre @ i # post)"
    using rbb_invD(2,3,4) [OF inv] by (fastforce simp flip: l)+
  let ?r = "queue_take i rbb"
  have at: "\<forall>j \<in> set post. blk_at ?r j = blk_at rbb j" "blk_buf (blk_at ?r i) = blk_buf (blk_at rbb i)"
    using set by (auto simp: blk_at_take)
  have run: "run_of ?r len post i (blk_len rbb i) = run_of rbb len post i (blk_len rbb i)" by (rule run_of_cong [OF at])
  show ?thesis
    using run_of_sum [OF at(1), of len i "blk_len rbb i"]
      set put queue_get_loop_skip [OF pre, of len "i # post" 0 que] run
      queue_get_loop_run [of i post ?r len "blk_len rbb i" "que\<lparr>que_blocks := i, que_blk_num := 1\<rparr>"]
    by (simp add: rt_rbb_blk_queue_get_def l run_def rbb_blk_def)
qed

text \<open>The sizes of the blocks of a ring add up to at most the size of the buffer, so that the sums of the code do not wrap.\<close>

lemma laid_sizes: "laid lo hi bs \<Longrightarrow> lo + (\<Sum>b\<leftarrow>bs. unat (blk_size b)) \<le> hi"
  by (induction bs arbitrary: lo) fastforce+

lemma ring_sizes: "ring_laid s e bs \<Longrightarrow> s + (\<Sum>b\<leftarrow>bs. unat (blk_size b)) \<le> e"
  unfolding ring_laid_def
proof (elim exE conjE)
  fix xs ys m
  assume "bs = xs @ ys" "laid m e xs" "laid s m ys"
  then show ?thesis using laid_sizes [of m e xs] laid_sizes [of s m ys] by simp
qed

lemma unat_sum_sizes:
  assumes "(\<Sum>i\<leftarrow>xs. unat (blk_size (blk_at rbb i))) < 2 ^ 32"
  shows "unat (\<Sum>i\<leftarrow>xs. blk_len rbb i) = (\<Sum>i\<leftarrow>xs. unat (blk_size (blk_at rbb i)))"
  using assms
proof (induction xs)
  case (Cons i xs)
  then show ?case by (simp add: unat_word_ariths unsigned_ucast_eq take_bit_nat_eq_self)
qed simp

lemma run_sizes:
  assumes "rbb_inv rbb" "rbb_blk_list rbb = pre @ run @ post"
  shows "unat (\<Sum>i\<leftarrow>run. blk_len rbb i) = (\<Sum>i\<leftarrow>run. unat (blk_size (blk_at rbb i)))"
    "(\<Sum>i\<leftarrow>run. unat (blk_size (blk_at rbb i))) \<le> unat (rbb_buf_size rbb)"
proof -
  have "(\<Sum>i\<leftarrow>run. unat (blk_size (blk_at rbb i))) \<le> (\<Sum>b\<leftarrow>listed rbb. unat (blk_size b))"
    by (simp add: listed_def assms(2) comp_def)
  then show le: "(\<Sum>i\<leftarrow>run. unat (blk_size (blk_at rbb i))) \<le> unat (rbb_buf_size rbb)"
    using ring_sizes [OF rbb_invD(6) [OF assms(1)]] by linarith
  then show "unat (\<Sum>i\<leftarrow>run. blk_len rbb i) = (\<Sum>i\<leftarrow>run. unat (blk_size (blk_at rbb i)))"
    using unat_bound [of "rbb_buf_size rbb"] by (intro unat_sum_sizes) simp
qed

text \<open>What \<^verbatim>\<open>rt_rbb_blk_queue_get\<close> takes: \<open>run\<close>, the longest run from the first block that is put, and what it leaves.\<close>

definition queue_got :: "u32 \<Rightarrow> nat list \<Rightarrow> rt_rbb \<Rightarrow> rt_rbb \<Rightarrow> bool" where
  "queue_got len run rbb rbb' \<longleftrightarrow>
     (\<exists>pre post. rbb_blk_list rbb = pre @ run @ post \<and> rbb_blk_list rbb' = pre @ post \<and>
        (\<forall>i \<in> set pre. blk_status (blk_at rbb i) \<noteq> RT_RBB_BLK_PUT) \<and>
        (\<forall>i \<in> set run. blk_status (blk_at rbb i) = RT_RBB_BLK_PUT) \<and>
        sorted (map (\<lambda>i. blk_lo (blk_at rbb i)) run) \<and>
        ((\<Sum>i\<leftarrow>run. unat (blk_size (blk_at rbb i))) \<le> unat len \<or> length run \<le> 1) \<and>
        (post \<noteq> [] \<longrightarrow> (let b = blk_at rbb (hd post) in
           blk_status b \<noteq> RT_RBB_BLK_PUT \<or> blk_lo b < blk_lo (blk_at rbb (last run)) \<or>
           unat len < (\<Sum>i\<leftarrow>run. unat (blk_size (blk_at rbb i))) + unat (blk_size b)))) \<and>
     (\<forall>i. blk_at rbb' i = (if i \<in> set run then (blk_at rbb i)\<lparr>blk_status := RT_RBB_BLK_GET\<rparr> else blk_at rbb i))"

lemma queue_get_got:
  assumes inv: "rbb_inv rbb" and l: "rbb_blk_list rbb = pre @ i # post"
    and pre: "\<forall>j \<in> set pre. blk_status (blk_at rbb j) \<noteq> RT_RBB_BLK_PUT"
    and put: "blk_status (blk_at rbb i) = RT_RBB_BLK_PUT"
  shows "queue_got len (i # run_of rbb len post i (blk_len rbb i)) rbb
    (fold queue_take (i # run_of rbb len post i (blk_len rbb i)) rbb)"
proof -
  let ?tl = "run_of rbb len post i (blk_len rbb i)"
  let ?run = "i # ?tl"
  obtain rest where rest: "post = ?tl @ rest" using run_of_prefix by blast
  have l': "rbb_blk_list rbb = pre @ ?run @ rest" using l rest by simp
  have d: "distinct (pre @ ?run @ rest)" "set ?run \<subseteq> {..<length (rbb_blk_set rbb)}" "distinct ?run"
    using rbb_invD(2,3,4) [OF inv] l' by fastforce+
  have "rbb_blk_list (fold queue_take ?run rbb) = pre @ rest"
    unfolding taken_list l' by (rule fold_remove1_run [OF d(1)])
  moreover have "sorted (map (\<lambda>j. blk_lo (blk_at rbb j)) ?run)"
    using run_of_ascends [of rbb i len post "blk_len rbb i"] by (auto simp: sorted_map word_le_nat_alt)
  moreover have "(\<Sum>j\<leftarrow>?run. unat (blk_size (blk_at rbb j))) \<le> unat len \<or> length ?run \<le> 1"
    using run_of_limit [of rbb len post i "blk_len rbb i"] run_sizes(1) [OF inv l'] by (auto simp: word_le_nat_alt)
  moreover have "let b = blk_at rbb (hd rest) in blk_status b \<noteq> RT_RBB_BLK_PUT \<or>
      blk_lo b < blk_lo (blk_at rbb (last ?run)) \<or>
      unat len < (\<Sum>j\<leftarrow>?run. unat (blk_size (blk_at rbb j))) + unat (blk_size b)" if ne: "rest \<noteq> []"
  proof -
    let ?n = "hd rest"
    have l'': "rbb_blk_list rbb = pre @ (?run @ [?n]) @ tl rest" using l' ne by simp
    have "unat ((\<Sum>j\<leftarrow>?run. blk_len rbb j) + blk_len rbb ?n) = (\<Sum>j\<leftarrow>?run. unat (blk_size (blk_at rbb j))) + unat (blk_size (blk_at rbb ?n))"
      using run_sizes(1) [OF inv l''] by (simp add: add.assoc)
    moreover have "post = ?tl @ ?n # tl rest" using rest ne by simp
    ultimately show ?thesis
      using run_of_maximal [of post rbb len i "blk_len rbb i" ?n "tl rest"] by (auto simp: Let_def word_less_nat_alt)
  qed
  ultimately show ?thesis
    unfolding queue_got_def taken_blocks(1) [OF d(3,2)]
    using l' pre put run_of_put by (intro conjI exI [of _ pre] exI [of _ rest]) auto
qed

text \<open>The longest run of blocks at once. The call takes, from the first block that is put on, the longest run of consecutive blocks of the
  list that are put, ascend in the buffer and have together at most the requested number of bytes (the first one is taken whatever its
  size), removes them from the list, marks them and returns the sum of their sizes; the queue starts at the first one and has as
  many blocks as the run. The invariant holds afterwards.\<close>

theorem rt_rbb_blk_queue_get_ok:
  assumes "rbb_inv rbb"
  shows "\<exists>run rbb'. rt_rbb_blk_queue_get len que rbb =
      Some (of_nat (\<Sum>i\<leftarrow>run. unat (blk_size (blk_at rbb i))),
        (if run = [] then que else que\<lparr>que_blocks := hd run, que_blk_num := of_nat (length run)\<rparr>), rbb') \<and>
    queue_got len run rbb rbb' \<and> rbb_inv rbb' \<and>
    (run = [] \<longleftrightarrow> (\<forall>i \<in> set (rbb_blk_list rbb). blk_status (blk_at rbb i) \<noteq> RT_RBB_BLK_PUT)) \<and>
    (\<Sum>i\<leftarrow>run. unat (blk_size (blk_at rbb i))) \<le> unat (rbb_buf_size rbb)"
proof (cases rule: put_first [of "rbb_blk_list rbb" rbb])
  case 1
  moreover have "queue_got len [] rbb rbb"
    unfolding queue_got_def using 1 by (intro conjI exI [of _ "rbb_blk_list rbb"] exI [of _ "[]"]) auto
  ultimately show ?thesis using queue_get_none [OF assms] assms by (intro exI [of _ "[]"] exI [of _ rbb]) simp
next
  case (2 pre i post)
  let ?run = "i # run_of rbb len post i (blk_len rbb i)"
  obtain rest where "rbb_blk_list rbb = pre @ ?run @ rest" using 2(1) run_of_prefix by (metis append_Cons)
  note sizes = run_sizes [OF assms this]
  have "of_nat (\<Sum>j\<leftarrow>?run. unat (blk_size (blk_at rbb j))) = (\<Sum>j\<leftarrow>?run. blk_len rbb j)"
    unfolding sizes(1) [symmetric] by simp
  then show ?thesis
    using queue_get_some [OF assms 2] queue_get_got [OF assms 2] taken_inv [OF assms, of ?run] 2 sizes(2)
    by (intro exI [of _ ?run] exI [of _ "fold queue_take ?run rbb"] conjI) auto
qed

lemma queue_got_nextlen:
  assumes "distinct (l # nodes)" "set (l # nodes) \<subseteq> {..<length (rbb_blk_set rbb)}"
    and "unat tot + (\<Sum>i\<leftarrow>nodes. unat (blk_size (blk_at rbb i))) < 2 ^ 32"
  shows "next_len_loop rbb nodes (Some l) tot = Some (tot + (\<Sum>i\<leftarrow>run_of rbb (- 1) nodes l tot. blk_len rbb i))"
  using assms
proof (induction nodes arbitrary: l tot)
  case (Cons i nodes)
  have "unat (tot + blk_len rbb i) = unat tot + unat (blk_size (blk_at rbb i))"
    using Cons.prems(3) by (simp add: unat_word_ariths unsigned_ucast_eq take_bit_nat_eq_self)
  then show ?case
    using Cons.prems Cons.IH [of i "tot + blk_len rbb i"] by (auto simp: rbb_blk_def add.assoc not_less not_le)
qed simp

text \<open>\<^verbatim>\<open>rt_rbb_next_blk_queue_len\<close> is the length that a call without limit would return.\<close>

lemma next_len_loop_skip:
  assumes "\<forall>i \<in> set pre. blk_status (blk_at rbb i) \<noteq> RT_RBB_BLK_PUT" "set pre \<subseteq> {..<length (rbb_blk_set rbb)}"
  shows "next_len_loop rbb (pre @ nodes) None tot = next_len_loop rbb nodes None tot"
  using assms by (induction pre) (simp_all add: rbb_blk_def)

lemma rt_rbb_next_blk_queue_len_eq:
  assumes inv: "rbb_inv rbb"
  shows "rt_rbb_next_blk_queue_len rbb = map_option fst (rt_rbb_blk_queue_get (- 1) que rbb)"
proof (cases rule: put_first [of "rbb_blk_list rbb" rbb])
  case 1
  have "set (rbb_blk_list rbb) \<subseteq> {..<length (rbb_blk_set rbb)}" using rbb_invD(2,4) [OF inv] by fastforce
  then show ?thesis
    using next_len_loop_skip [OF 1, of "[]" 0] queue_get_none [OF inv 1, of "- 1" que]
    by (simp add: rt_rbb_next_blk_queue_len_def)
next
  case (2 pre i post)
  have set: "set (pre @ i # post) \<subseteq> {..<length (rbb_blk_set rbb)}" "distinct (pre @ i # post)"
    using rbb_invD(2,3,4) [OF inv] by (fastforce simp flip: 2(1))+
  have "rbb_blk_list rbb = pre @ (i # post) @ []" using 2(1) by simp
  from run_sizes(2) [OF inv this]
  have lt: "unat (blk_len rbb i) + (\<Sum>j\<leftarrow>post. unat (blk_size (blk_at rbb j))) < 2 ^ 32"
    using unat_bound [of "rbb_buf_size rbb"] by (simp add: unsigned_ucast_eq take_bit_nat_eq_self)
  have "next_len_loop rbb (i # post) None 0 =
      Some (\<Sum>j\<leftarrow>i # run_of rbb (- 1) post i (blk_len rbb i). blk_len rbb j)"
    using queue_got_nextlen [of i post rbb "blk_len rbb i"] set 2(3) lt by (simp add: rbb_blk_def)
  then show ?thesis
    using next_len_loop_skip [OF 2(2), of "i # post" 0] queue_get_some [OF inv 2, of "- 1" que] set 2(1)
    by (simp add: rt_rbb_next_blk_queue_len_def)
qed

text \<open>An example: a ring of 64 bytes at address \<open>0x1000\<close> with two blocks, the first one put.\<close>

definition rbb_example :: rt_rbb where
  "rbb_example = \<lparr>rbb_buf = 0x1000, rbb_buf_size = 64,
     rbb_blk_set = [\<lparr>blk_status = RT_RBB_BLK_PUT, blk_size = 16, blk_buf = 0x1000\<rparr>,
       \<lparr>blk_status = RT_RBB_BLK_UNUSED, blk_size = 0, blk_buf = 0\<rparr>],
     rbb_blk_max_num = 2, rbb_blk_list = [0]\<rparr>"

lemma rbb_example_inv: "rbb_inv rbb_example"
proof -
  have "ring_laid (rbb_lo rbb_example) (rbb_hi rbb_example) (listed rbb_example)"
    unfolding ring_laid_def
    by (intro exI [of _ "listed rbb_example"] exI [of _ "[]"] exI [of _ "rbb_lo rbb_example"])
      (simp add: listed_def rbb_example_def)
  then show ?thesis by (simp add: rbb_inv_def rbb_example_def)
qed


theorem rt_rbb_blk_queue_get_ok_witness:
  "\<exists>run rbb'. rt_rbb_blk_queue_get 32 \<lparr>que_blocks = 0, que_blk_num = 0\<rparr> rbb_example =
      Some (of_nat (\<Sum>i\<leftarrow>run. unat (blk_size (blk_at rbb_example i))),
        (if run = [] then \<lparr>que_blocks = 0, que_blk_num = 0\<rparr>
         else \<lparr>que_blocks = 0, que_blk_num = 0\<rparr>\<lparr>que_blocks := hd run, que_blk_num := of_nat (length run)\<rparr>), rbb') \<and>
    queue_got 32 run rbb_example rbb' \<and> rbb_inv rbb' \<and>
    (run = [] \<longleftrightarrow> (\<forall>i \<in> set (rbb_blk_list rbb_example). blk_status (blk_at rbb_example i) \<noteq> RT_RBB_BLK_PUT)) \<and>
    (\<Sum>i\<leftarrow>run. unat (blk_size (blk_at rbb_example i))) \<le> unat (rbb_buf_size rbb_example)"
  by (rule rt_rbb_blk_queue_get_ok [OF rbb_example_inv])

text \<open>C40: the memory of a queue in use is given away. \<^verbatim>\<open>rt_rbb_blk_queue_get\<close> takes the blocks off the list, and the allocation looks only at
  the list. When the one block of the list is fetched as a queue, the next allocation puts its block at the beginning of the
  buffer, over the bytes that the reader of the queue has not given back.\<close>

theorem rbb_queue_memory_reused:
  assumes "rbb_inv rbb" "rbb_blk_list rbb = [i]" "blk_status (blk_at rbb i) = RT_RBB_BLK_PUT" "blk_buf (blk_at rbb i) = rbb_buf rbb"
    and "j < rbb_max rbb" "blk_status (blk_at rbb j) = RT_RBB_BLK_UNUSED" "sz < 2 ^ 24"
  shows "\<exists>total rbb1 n rbb2.
    rt_rbb_blk_queue_get len que rbb = Some (total, que\<lparr>que_blocks := i, que_blk_num := 1\<rparr>, rbb1) \<and>
    rt_rbb_blk_alloc sz rbb1 = Some (Some n, rbb2) \<and> n \<noteq> i \<and>
    blk_status (blk_at rbb2 i) = RT_RBB_BLK_GET \<and> blk_status (blk_at rbb2 n) = RT_RBB_BLK_INITED \<and>
    blk_buf (blk_at rbb2 n) = blk_buf (blk_at rbb2 i)"
proof -
  let ?r = "queue_take i rbb"
  have i: "i < length (rbb_blk_set rbb)" using rbb_invD(2) [OF assms(1)] rbb_invD(4) [OF assms(1), of i] assms(2) by simp
  have q: "rt_rbb_blk_queue_get len que rbb = Some (blk_len rbb i, que\<lparr>que_blocks := i, que_blk_num := 1\<rparr>, ?r)"
    using queue_get_some [OF assms(1), of "[]" i "[]" len que] assms(2,3) by simp
  have at: "blk_at ?r x = (if x = i then (blk_at rbb i)\<lparr>blk_status := RT_RBB_BLK_GET\<rparr> else blk_at rbb x)" for x
    using i by (rule blk_at_take)
  obtain r where r: "find_empty_blk_in_set ?r = Some r"
    "case r of None \<Rightarrow> \<forall>x. 0 \<le> x \<and> x < rbb_max ?r \<longrightarrow> blk_status (blk_at ?r x) \<noteq> RT_RBB_BLK_UNUSED
     | Some n \<Rightarrow> 0 \<le> n \<and> n < rbb_max ?r \<and> blk_status (blk_at ?r n) = RT_RBB_BLK_UNUSED"
    using find_empty_from_spec [of ?r 0] rbb_invD(2) [OF assms(1)] unfolding find_empty_blk_in_set_def by auto
  moreover have "blk_status (blk_at ?r j) = RT_RBB_BLK_UNUSED" using at [of j] assms(3,6) by (cases "j = i") auto
  ultimately obtain n where n: "r = Some n" "n < rbb_max rbb" "blk_status (blk_at ?r n) = RT_RBB_BLK_UNUSED"
    using assms(5) by (cases r) auto
  have ne: "n \<noteq> i" using n(3) at [of n] by (auto split: if_splits)
  have "rt_rbb_blk_alloc sz ?r = Some (rbb_place n (rbb_buf rbb) sz ?r)"
    using r(1) n(1,2) assms(2,7) by (simp add: rt_rbb_blk_alloc_def)
  moreover have "n < length (rbb_blk_set ?r)" using n(2) rbb_invD(2) [OF assms(1)] by simp
  ultimately show ?thesis
    using q ne at [of i] assms(4) by (simp add: rbb_place_def rbb_upd_def)
qed

theorem rbb_queue_memory_reused_witness:
  "\<exists>total rbb1 n rbb2.
    rt_rbb_blk_queue_get 64 \<lparr>que_blocks = 7, que_blk_num = 7\<rparr> rbb_example =
      Some (total, \<lparr>que_blocks = 7, que_blk_num = 7\<rparr>\<lparr>que_blocks := 0, que_blk_num := 1\<rparr>, rbb1) \<and>
    rt_rbb_blk_alloc 8 rbb1 = Some (Some n, rbb2) \<and> n \<noteq> 0 \<and>
    blk_status (blk_at rbb2 0) = RT_RBB_BLK_GET \<and> blk_status (blk_at rbb2 n) = RT_RBB_BLK_INITED \<and>
    blk_buf (blk_at rbb2 n) = blk_buf (blk_at rbb2 0)"
  by (rule rbb_queue_memory_reused [OF rbb_example_inv, where j = 1]) (simp_all add: rbb_example_def)

end
