(* ===== verification/Kernel_State.thy ===== *)
theory Kernel_State
  imports Prelude
begin

text \<open>
  The data of the kernel (\<^verbatim>\<open>include/rtdef.h\<close> and the file-level variables of the sources): one
  record per C structure, the constants of the header, and the record \<open>kernel\<close> that holds every
  structure and every global of the modelled files.

  A pointer to a structure is the index of that structure: threads are numbered by \<open>tid\<close>, the
  other objects by \<open>nat\<close>. The timer embedded in a thread (\<^verbatim>\<open>thread->thread_timer\<close>) has the name
  \<open>Thread_Timer t\<close>. The base part \<^verbatim>\<open>struct rt_object\<close> of every object is kept in the map
  \<open>objs\<close>, indexed by \<open>oref\<close>, because \<^verbatim>\<open>object.c\<close> works on it without knowing the class.

  The doubly linked lists that chain threads through \<^verbatim>\<open>thread->tlist\<close> are the lists
  \<open>tlists k l\<close>, one for each list head \<open>l\<close>; theory \<^verbatim>\<open>Rt_List\<close> shows that the pointer code of
  \<^verbatim>\<open>rtservice.h\<close> implements these list operations.
\<close>

section \<open>Constants\<close>

abbreviation (input) RT_THREAD_PRIORITY_MAX :: nat where "RT_THREAD_PRIORITY_MAX \<equiv> 32"
abbreviation (input) RT_NAME_MAX :: nat where "RT_NAME_MAX \<equiv> 16"

abbreviation (input) RT_THREAD_INIT :: u8 where "RT_THREAD_INIT \<equiv> 0"
abbreviation (input) RT_THREAD_READY :: u8 where "RT_THREAD_READY \<equiv> 1"
abbreviation (input) RT_THREAD_SUSPEND :: u8 where "RT_THREAD_SUSPEND \<equiv> 2"
abbreviation (input) RT_THREAD_RUNNING :: u8 where "RT_THREAD_RUNNING \<equiv> 3"
abbreviation (input) RT_THREAD_CLOSE :: u8 where "RT_THREAD_CLOSE \<equiv> 4"
abbreviation (input) RT_THREAD_STAT_MASK :: u8 where "RT_THREAD_STAT_MASK \<equiv> 7"
abbreviation (input) RT_THREAD_STAT_YIELD :: u8 where "RT_THREAD_STAT_YIELD \<equiv> 8"

abbreviation (input) RT_Object_Class_Thread :: u8 where "RT_Object_Class_Thread \<equiv> 1"
abbreviation (input) RT_Object_Class_Semaphore :: u8 where "RT_Object_Class_Semaphore \<equiv> 2"
abbreviation (input) RT_Object_Class_Mutex :: u8 where "RT_Object_Class_Mutex \<equiv> 3"
abbreviation (input) RT_Object_Class_Event :: u8 where "RT_Object_Class_Event \<equiv> 4"
abbreviation (input) RT_Object_Class_MailBox :: u8 where "RT_Object_Class_MailBox \<equiv> 5"
abbreviation (input) RT_Object_Class_MessageQueue :: u8 where "RT_Object_Class_MessageQueue \<equiv> 6"
abbreviation (input) RT_Object_Class_MemPool :: u8 where "RT_Object_Class_MemPool \<equiv> 8"
abbreviation (input) RT_Object_Class_Device :: u8 where "RT_Object_Class_Device \<equiv> 9"
abbreviation (input) RT_Object_Class_Timer :: u8 where "RT_Object_Class_Timer \<equiv> 10"
abbreviation (input) RT_Object_Class_Unknown :: u8 where "RT_Object_Class_Unknown \<equiv> 12"
abbreviation (input) RT_Object_Class_Static :: u8 where "RT_Object_Class_Static \<equiv> 0x80"

abbreviation (input) RT_TIMER_FLAG_ACTIVATED :: u8 where "RT_TIMER_FLAG_ACTIVATED \<equiv> 1"
abbreviation (input) RT_TIMER_FLAG_PERIODIC :: u8 where "RT_TIMER_FLAG_PERIODIC \<equiv> 2"
abbreviation (input) RT_TIMER_FLAG_SOFT_TIMER :: u8 where "RT_TIMER_FLAG_SOFT_TIMER \<equiv> 4"
abbreviation (input) RT_TIMER_FLAG_ONE_SHOT :: u8 where "RT_TIMER_FLAG_ONE_SHOT \<equiv> 0"

abbreviation (input) RT_IPC_FLAG_FIFO :: u8 where "RT_IPC_FLAG_FIFO \<equiv> 0"
abbreviation (input) RT_IPC_FLAG_PRIO :: u8 where "RT_IPC_FLAG_PRIO \<equiv> 1"
abbreviation (input) RT_IPC_CMD_RESET :: int where "RT_IPC_CMD_RESET \<equiv> 1"
abbreviation (input) RT_WAITING_FOREVER :: u32 where "RT_WAITING_FOREVER \<equiv> - 1"

abbreviation (input) RT_EVENT_FLAG_AND :: u8 where "RT_EVENT_FLAG_AND \<equiv> 1"
abbreviation (input) RT_EVENT_FLAG_OR :: u8 where "RT_EVENT_FLAG_OR \<equiv> 2"
abbreviation (input) RT_EVENT_FLAG_CLEAR :: u8 where "RT_EVENT_FLAG_CLEAR \<equiv> 4"

section \<open>Structures\<close>

type_synonym tid = nat

datatype tmid = Thread_Timer tid | Timer nat

datatype oref =
    OThread tid | OSem nat | OMutex nat | OEvent nat | OMb nat | OMq nat | OMp nat | OTimer tmid | ODevice nat

datatype lid =
    LReady nat | LDefunct
  | LSem nat | LMutex nat | LEvent nat
  | LMb nat | LMbSender nat | LMq nat | LMqSender nat | LMp nat
  | LCompletion nat | LDqPush nat | LDqPop nat

datatype timeout_fn = Rt_thread_timeout | User_timeout nat

record rt_object =
  obj_name :: string
  obj_type :: u8
  obj_flag :: u8

record rt_timer =
  tm_timeout_func :: timeout_fn
  tm_parameter :: nat
  tm_init_tick :: rt_tick_t
  tm_timeout_tick :: rt_tick_t

record rt_thread =
  th_entry :: nat
  th_parameter :: nat
  th_stack_addr :: nat
  th_stack_size :: u32
  th_error :: rt_err_t
  th_stat :: u8
  th_current_priority :: u8
  th_init_priority :: u8
  th_number_mask :: u32
  th_event_set :: u32
  th_event_info :: u8
  th_init_tick :: u32
  th_remaining_tick :: u32
  th_cleanup :: "nat option"
  th_user_data :: u32

record rt_semaphore =
  sem_value :: u16

record rt_mutex =
  mtx_value :: u16
  mtx_original_priority :: u8
  mtx_hold :: u8
  mtx_owner :: "tid option"

record rt_event =
  ev_set :: u32

record rt_mailbox =
  mb_msg_pool :: "u32 list"
  mb_size :: u16
  mb_entry :: u16
  mb_in_offset :: u16
  mb_out_offset :: u16

text \<open>
  The nodes of a message pool are numbered from the start of the pool; \<open>mq_next\<close> is the field
  \<^verbatim>\<open>next\<close> of \<^verbatim>\<open>struct rt_mq_message\<close> in each node and \<open>mq_data\<close> the \<^verbatim>\<open>msg_size\<close> bytes behind it.
\<close>

record rt_messagequeue =
  mq_msg_size :: u16
  mq_max_msgs :: u16
  mq_entry :: u16
  mq_next :: "nat \<Rightarrow> nat option"
  mq_data :: "nat \<Rightarrow> u8 list"
  mq_head :: "nat option"
  mq_tail :: "nat option"
  mq_free :: "nat option"

text \<open>
  The blocks of a memory pool are numbered from the start of the pool. The pointer-sized word in
  front of each block holds the next free block while the block is free and the pool it belongs to
  while it is allocated.
\<close>

datatype mp_word = Mp_Next "nat option" | Mp_Owner nat

record rt_mempool =
  mp_size :: u32
  mp_block_size :: u32
  mp_block_total_count :: u32
  mp_block_free_count :: u32
  mp_block_list :: "nat option"
  mp_link :: "nat \<Rightarrow> mp_word"

text \<open>
  The objects of the driver framework (\<^verbatim>\<open>components/drivers/include/ipc\<close> and \<^verbatim>\<open>struct rt_device\<close>). A structure
  embedded in another one is named by its own index: \<open>wq_sem\<close> is the semaphore of a work queue, \<open>wk_timer\<close> the timer
  of a work item, \<open>dv_wait_queue\<close> the wait queue of a device. Function pointers are numbers; what they do is
  a parameter of the operations that call them. A list of work items or of wait nodes is the list of their
  numbers. The array of a data queue is empty when its allocation failed.
\<close>

record rt_completion =
  cp_flag :: u32

record rt_data_item =
  di_data_ptr :: u32
  di_data_size :: u32

record rt_data_queue =
  dq_size :: u16
  dq_lwm :: u16
  dq_get_index :: u16
  dq_put_index :: u16
  dq_queue :: "rt_data_item list"
  dq_evt_notify :: "nat option"

record rt_work =
  wk_func :: nat
  wk_data :: nat
  wk_flags :: u16
  wk_type :: u16
  wk_timer :: nat
  wk_workqueue :: "nat option"

record rt_workqueue =
  wq_work_list :: "nat list"
  wq_work_current :: "nat option"
  wq_sem :: nat
  wq_work_thread :: tid

record rt_wqueue_node =
  wn_polling_thread :: tid
  wn_wakeup :: nat
  wn_key :: u32

record rt_wqueue =
  wqu_flag :: u32
  wqu_waiting_list :: "nat list"

record rt_device =
  dv_type :: nat
  dv_flag :: u16
  dv_open_flag :: u16
  dv_ref_count :: u8
  dv_device_id :: u8
  dv_rx_indicate :: "nat option"
  dv_tx_complete :: "nat option"
  dv_init :: "nat option"
  dv_open :: "nat option"
  dv_close :: "nat option"
  dv_read :: "nat option"
  dv_write :: "nat option"
  dv_control :: "nat option"
  dv_fops :: "nat option"
  dv_wait_queue :: nat
  dv_user_data :: nat

record kernel =
  objs :: "oref \<Rightarrow> rt_object"
  object_list :: "u8 \<Rightarrow> oref list"
  threads :: "tid \<Rightarrow> rt_thread"
  timers :: "tmid \<Rightarrow> rt_timer"
  sems :: "nat \<Rightarrow> rt_semaphore"
  mutexes :: "nat \<Rightarrow> rt_mutex"
  events :: "nat \<Rightarrow> rt_event"
  mailboxes :: "nat \<Rightarrow> rt_mailbox"
  msgqueues :: "nat \<Rightarrow> rt_messagequeue"
  mempools :: "nat \<Rightarrow> rt_mempool"
  completions :: "nat \<Rightarrow> rt_completion"
  dataqueues :: "nat \<Rightarrow> rt_data_queue"
  works :: "nat \<Rightarrow> rt_work"
  workqueues :: "nat \<Rightarrow> rt_workqueue"
  wqueues :: "nat \<Rightarrow> rt_wqueue"
  wqnodes :: "nat \<Rightarrow> rt_wqueue_node"
  devices :: "nat \<Rightarrow> rt_device"
  tlists :: "lid \<Rightarrow> tid list"
  rt_timer_list :: "tmid list"
  rt_soft_timer_list :: "tmid list"
  timer_thread :: tid
  rt_tick :: rt_tick_t
  rt_thread_ready_priority_group :: u32
  rt_scheduler_lock_nest :: u16
  rt_interrupt_nest :: u8
  rt_current_thread :: "tid option"
  rt_current_priority :: u8

section \<open>Field access and list primitives\<close>

definition upd_thread :: "tid \<Rightarrow> (rt_thread \<Rightarrow> rt_thread) \<Rightarrow> kernel \<Rightarrow> kernel" where
  "upd_thread t f k = k\<lparr>threads := (threads k)(t := f (threads k t))\<rparr>"

definition upd_obj :: "oref \<Rightarrow> (rt_object \<Rightarrow> rt_object) \<Rightarrow> kernel \<Rightarrow> kernel" where
  "upd_obj r f k = k\<lparr>objs := (objs k)(r := f (objs k r))\<rparr>"

definition upd_timer :: "tmid \<Rightarrow> (rt_timer \<Rightarrow> rt_timer) \<Rightarrow> kernel \<Rightarrow> kernel" where
  "upd_timer m f k = k\<lparr>timers := (timers k)(m := f (timers k m))\<rparr>"

definition thread_stat :: "kernel \<Rightarrow> tid \<Rightarrow> u8" where
  "thread_stat k t = th_stat (threads k t) AND RT_THREAD_STAT_MASK"

definition set_stat :: "u8 \<Rightarrow> rt_thread \<Rightarrow> rt_thread" where
  "set_stat s th = th\<lparr>th_stat := s OR (th_stat th AND NOT RT_THREAD_STAT_MASK)\<rparr>"

definition prio :: "kernel \<Rightarrow> tid \<Rightarrow> nat" where
  "prio k t = unat (th_current_priority (threads k t))"

text \<open>\<^verbatim>\<open>rt_list_insert_before\<close> and \<^verbatim>\<open>rt_list_insert_after\<close> at a list head, and
  \<^verbatim>\<open>rt_list_remove\<close> of a node, for lists chained through \<^verbatim>\<open>tlist\<close>. A node is on at most one list,
  so removing it from its list is removing it wherever it is.\<close>

definition tlist_append :: "lid \<Rightarrow> tid \<Rightarrow> kernel \<Rightarrow> kernel" where
  "tlist_append l t k = k\<lparr>tlists := (tlists k)(l := tlists k l @ [t])\<rparr>"

definition tlist_push :: "lid \<Rightarrow> tid \<Rightarrow> kernel \<Rightarrow> kernel" where
  "tlist_push l t k = k\<lparr>tlists := (tlists k)(l := t # tlists k l)\<rparr>"

definition tlist_remove :: "tid \<Rightarrow> kernel \<Rightarrow> kernel" where
  "tlist_remove t k = k\<lparr>tlists := (\<lambda>l. removeAll t (tlists k l))\<rparr>"

section \<open>Lemmas\<close>

lemma set_stat_state [stat_simps, simp]: "s AND 7 = s \<Longrightarrow> th_stat (set_stat s th) AND 7 = s"
  using and_mask_or_clear [of s 7 "th_stat th"] by (simp add: set_stat_def)

lemma set_stat_yield [stat_simps]: "s AND 8 = 0 \<Longrightarrow> th_stat (set_stat s th) AND 8 = th_stat th AND 8"
  using or_clear_and_outside [of s 8 7 "th_stat th"] by (simp add: set_stat_def)

lemma and_not_yield_state [stat_simps, simp]: "(x AND - (9 :: u8)) AND 7 = x AND 7"
  by (simp add: and.assoc)

lemma or_yield_state [stat_simps, simp]: "(x OR (8 :: u8)) AND 7 = x AND 7"
  by (simp add: bit.conj_disj_distrib2)

section \<open>What the thread level leaves alone\<close>

text \<open>The operations of the scheduler, of threads and of thread timers write threads, thread lists
  and timers only: the state of every other class of objects is the same before and after.\<close>

definition ipc_same :: "kernel \<Rightarrow> kernel \<Rightarrow> bool" where
  "ipc_same k k' \<longleftrightarrow>
     sems k' = sems k \<and> mutexes k' = mutexes k \<and> events k' = events k \<and>
     mailboxes k' = mailboxes k \<and> msgqueues k' = msgqueues k \<and> mempools k' = mempools k \<and>
     completions k' = completions k \<and> dataqueues k' = dataqueues k \<and> works k' = works k \<and>
     workqueues k' = workqueues k \<and> wqueues k' = wqueues k \<and> wqnodes k' = wqnodes k \<and> devices k' = devices k \<and>
     object_list k' = object_list k \<and> timer_thread k' = timer_thread k \<and>
     rt_tick k' = rt_tick k \<and> rt_interrupt_nest k' = rt_interrupt_nest k \<and>
     (\<forall>r. obj_type (objs k' r) = obj_type (objs k r)) \<and>
     (\<forall>r. (\<forall>m. r \<noteq> OTimer m) \<longrightarrow> objs k' r = objs k r)"

text \<open>Every thread keeps its fields, up to the state byte.\<close>

definition only_stat :: "kernel \<Rightarrow> kernel \<Rightarrow> bool" where
  "only_stat k k' \<longleftrightarrow> (\<forall>t. threads k' t = (threads k t)\<lparr>th_stat := th_stat (threads k' t)\<rparr>)"

definition timers_same :: "kernel \<Rightarrow> kernel \<Rightarrow> bool" where
  "timers_same k k' \<longleftrightarrow>
     timers k' = timers k \<and> objs k' = objs k \<and>
     rt_timer_list k' = rt_timer_list k \<and> rt_soft_timer_list k' = rt_soft_timer_list k"

lemma ipc_same_refl [simp, intro]: "ipc_same k k"
  by (simp add: ipc_same_def)

lemma ipc_same_trans [trans]: "ipc_same k k' \<Longrightarrow> ipc_same k' k'' \<Longrightarrow> ipc_same k k''"
  by (simp add: ipc_same_def)

lemma only_stat_refl [simp, intro]: "only_stat k k"
  by (simp add: only_stat_def)

lemma only_stat_trans [trans]: "only_stat k k' \<Longrightarrow> only_stat k' k'' \<Longrightarrow> only_stat k k''"
  unfolding only_stat_def by (metis rt_thread.surjective rt_thread.update_convs(6))

lemma timers_same_refl [simp, intro]: "timers_same k k"
  by (simp add: timers_same_def)

lemma timers_same_trans [trans]: "timers_same k k' \<Longrightarrow> timers_same k' k'' \<Longrightarrow> timers_same k k''"
  by (simp add: timers_same_def)

lemma ipc_sameD:
  assumes "ipc_same k k'"
  shows "sems k' = sems k" "mutexes k' = mutexes k" "events k' = events k"
    "mailboxes k' = mailboxes k" "msgqueues k' = msgqueues k" "mempools k' = mempools k"
    "object_list k' = object_list k" "timer_thread k' = timer_thread k" "rt_tick k' = rt_tick k"
    "rt_interrupt_nest k' = rt_interrupt_nest k" "obj_type (objs k' r) = obj_type (objs k r)"
    "(\<And>m. r \<noteq> OTimer m) \<Longrightarrow> objs k' r = objs k r"
    "completions k' = completions k" "dataqueues k' = dataqueues k" "works k' = works k"
    "workqueues k' = workqueues k" "wqueues k' = wqueues k" "wqnodes k' = wqnodes k" "devices k' = devices k"
  using assms by (auto simp: ipc_same_def)

lemma only_statD:
  assumes "only_stat k k'"
  shows "th_current_priority (threads k' t) = th_current_priority (threads k t)"
    "th_init_priority (threads k' t) = th_init_priority (threads k t)"
    "th_number_mask (threads k' t) = th_number_mask (threads k t)"
    "th_error (threads k' t) = th_error (threads k t)"
    "th_event_set (threads k' t) = th_event_set (threads k t)"
    "th_event_info (threads k' t) = th_event_info (threads k t)"
    "prio k' t = prio k t"
  using assms [unfolded only_stat_def, rule_format, of t]
  by (metis rt_thread.ext_inject rt_thread.surjective rt_thread.update_convs(6) prio_def)+

lemma timers_sameD:
  assumes "timers_same k k'"
  shows "timers k' = timers k" "objs k' = objs k" "rt_timer_list k' = rt_timer_list k"
    "rt_soft_timer_list k' = rt_soft_timer_list k"
  using assms by (auto simp: timers_same_def)

lemma ipc_same_writes [simp]:
  "ipc_same k (upd_thread t f k') = ipc_same k k'"
  "ipc_same k (upd_timer m g k') = ipc_same k k'"
  "ipc_same k (tlist_append l t k') = ipc_same k k'"
  "ipc_same k (tlist_push l t k') = ipc_same k k'"
  "ipc_same k (tlist_remove t k') = ipc_same k k'"
  by (simp_all add: ipc_same_def upd_thread_def upd_timer_def tlist_append_def tlist_push_def
      tlist_remove_def)

lemma timers_same_writes [simp]:
  "timers_same k (upd_thread t f k') = timers_same k k'"
  "timers_same k (tlist_append l t k') = timers_same k k'"
  "timers_same k (tlist_push l t k') = timers_same k k'"
  "timers_same k (tlist_remove t k') = timers_same k k'"
  by (simp_all add: timers_same_def upd_thread_def tlist_append_def tlist_push_def tlist_remove_def)

lemma only_stat_writes [simp]:
  "only_stat k (upd_timer m g k') = only_stat k k'"
  "only_stat k (tlist_append l t k') = only_stat k k'"
  "only_stat k (tlist_push l t k') = only_stat k k'"
  "only_stat k (tlist_remove t k') = only_stat k k'"
  by (simp_all add: only_stat_def upd_timer_def tlist_append_def tlist_push_def tlist_remove_def)

lemma only_stat_set_stat [simp, intro]: "only_stat k k' \<Longrightarrow> only_stat k (upd_thread t (set_stat s) k')"
  by (rule only_stat_trans) (auto simp: only_stat_def upd_thread_def set_stat_def)

lemma same_record_writes [simp]:
  "ipc_same k (k'\<lparr>rt_current_thread := c\<rparr>) = ipc_same k k'"
  "ipc_same k (k'\<lparr>rt_current_priority := p\<rparr>) = ipc_same k k'"
  "ipc_same k (k'\<lparr>rt_scheduler_lock_nest := n\<rparr>) = ipc_same k k'"
  "ipc_same k (k'\<lparr>rt_timer_list := ms\<rparr>) = ipc_same k k'"
  "ipc_same k (k'\<lparr>rt_soft_timer_list := ms\<rparr>) = ipc_same k k'"
  "timers_same k (k'\<lparr>rt_current_thread := c\<rparr>) = timers_same k k'"
  "timers_same k (k'\<lparr>rt_current_priority := p\<rparr>) = timers_same k k'"
  "timers_same k (k'\<lparr>rt_scheduler_lock_nest := n\<rparr>) = timers_same k k'"
  "only_stat k (k'\<lparr>rt_current_thread := c\<rparr>) = only_stat k k'"
  "only_stat k (k'\<lparr>rt_current_priority := p\<rparr>) = only_stat k k'"
  "only_stat k (k'\<lparr>rt_scheduler_lock_nest := n\<rparr>) = only_stat k k'"
  "only_stat k (k'\<lparr>rt_timer_list := ms\<rparr>) = only_stat k k'"
  "only_stat k (k'\<lparr>rt_soft_timer_list := ms\<rparr>) = only_stat k k'"
  by (simp_all add: ipc_same_def timers_same_def only_stat_def)

section \<open>The state at reset\<close>

text \<open>Every global and every static object starts in zeroed memory.\<close>

definition zero_thread :: rt_thread where
  "zero_thread = \<lparr>th_entry = 0, th_parameter = 0, th_stack_addr = 0, th_stack_size = 0,
     th_error = 0, th_stat = 0, th_current_priority = 0, th_init_priority = 0, th_number_mask = 0,
     th_event_set = 0, th_event_info = 0, th_init_tick = 0, th_remaining_tick = 0,
     th_cleanup = None, th_user_data = 0\<rparr>"

definition zero_kernel :: kernel where
  "zero_kernel = \<lparr>
     objs = (\<lambda>_. \<lparr>obj_name = [], obj_type = 0, obj_flag = 0\<rparr>),
     object_list = (\<lambda>_. []),
     threads = (\<lambda>_. zero_thread),
     timers = (\<lambda>_. \<lparr>tm_timeout_func = User_timeout 0, tm_parameter = 0, tm_init_tick = 0,
                     tm_timeout_tick = 0\<rparr>),
     sems = (\<lambda>_. \<lparr>sem_value = 0\<rparr>),
     mutexes = (\<lambda>_. \<lparr>mtx_value = 0, mtx_original_priority = 0, mtx_hold = 0, mtx_owner = None\<rparr>),
     events = (\<lambda>_. \<lparr>ev_set = 0\<rparr>),
     mailboxes = (\<lambda>_. \<lparr>mb_msg_pool = [], mb_size = 0, mb_entry = 0, mb_in_offset = 0,
                        mb_out_offset = 0\<rparr>),
     msgqueues = (\<lambda>_. \<lparr>mq_msg_size = 0, mq_max_msgs = 0, mq_entry = 0, mq_next = (\<lambda>_. None),
                        mq_data = (\<lambda>_. []), mq_head = None, mq_tail = None, mq_free = None\<rparr>),
     mempools = (\<lambda>_. \<lparr>mp_size = 0, mp_block_size = 0, mp_block_total_count = 0,
                       mp_block_free_count = 0, mp_block_list = None,
                       mp_link = (\<lambda>_. Mp_Next None)\<rparr>),
     completions = (\<lambda>_. \<lparr>cp_flag = 0\<rparr>),
     dataqueues = (\<lambda>_. \<lparr>dq_size = 0, dq_lwm = 0, dq_get_index = 0, dq_put_index = 0, dq_queue = [],
                         dq_evt_notify = None\<rparr>),
     works = (\<lambda>w. \<lparr>wk_func = 0, wk_data = 0, wk_flags = 0, wk_type = 0, wk_timer = w, wk_workqueue = None\<rparr>),
     workqueues = (\<lambda>q. \<lparr>wq_work_list = [], wq_work_current = None, wq_sem = q, wq_work_thread = 0\<rparr>),
     wqueues = (\<lambda>_. \<lparr>wqu_flag = 0, wqu_waiting_list = []\<rparr>),
     wqnodes = (\<lambda>_. \<lparr>wn_polling_thread = 0, wn_wakeup = 0, wn_key = 0\<rparr>),
     devices = (\<lambda>d. \<lparr>dv_type = 0, dv_flag = 0, dv_open_flag = 0, dv_ref_count = 0, dv_device_id = 0,
                      dv_rx_indicate = None, dv_tx_complete = None, dv_init = None, dv_open = None,
                      dv_close = None, dv_read = None, dv_write = None, dv_control = None, dv_fops = None,
                      dv_wait_queue = d, dv_user_data = 0\<rparr>),
     tlists = (\<lambda>_. []),
     rt_timer_list = [], rt_soft_timer_list = [], timer_thread = 0,
     rt_tick = 0, rt_thread_ready_priority_group = 0, rt_scheduler_lock_nest = 0,
     rt_interrupt_nest = 0, rt_current_thread = None, rt_current_priority = 0\<rparr>"

text \<open>A small running system for the examples: the idle thread 0 (priority 31), thread 1
  (priority 10) on the processor, threads 2 and 3 (priorities 10 and 20) ready, every object
  initialised with its class, the semaphores and mutexes free.\<close>

definition demo_thread :: "nat \<Rightarrow> u8 \<Rightarrow> rt_thread" where
  "demo_thread p st = zero_thread\<lparr>th_stat := st, th_current_priority := word_of_nat p,
     th_init_priority := word_of_nat p, th_number_mask := push_bit p 1, th_init_tick := 10,
     th_remaining_tick := 10\<rparr>"

definition oref_class :: "oref \<Rightarrow> u8" where
  "oref_class r = (case r of OThread _ \<Rightarrow> RT_Object_Class_Thread | OSem _ \<Rightarrow> RT_Object_Class_Semaphore
     | OMutex _ \<Rightarrow> RT_Object_Class_Mutex | OEvent _ \<Rightarrow> RT_Object_Class_Event
     | OMb _ \<Rightarrow> RT_Object_Class_MailBox | OMq _ \<Rightarrow> RT_Object_Class_MessageQueue
     | OMp _ \<Rightarrow> RT_Object_Class_MemPool | OTimer _ \<Rightarrow> RT_Object_Class_Timer
     | ODevice _ \<Rightarrow> RT_Object_Class_Device)"

definition demo_kernel :: kernel where
  "demo_kernel = zero_kernel\<lparr>
     objs := (\<lambda>r. \<lparr>obj_name = ''demo'', obj_type = oref_class r OR RT_Object_Class_Static, obj_flag = 0\<rparr>),
     threads := (\<lambda>_. zero_thread)(0 := demo_thread 31 1, 1 := demo_thread 10 3,
       2 := demo_thread 10 1, 3 := demo_thread 20 1),
     timers := (\<lambda>m. case m of
         Thread_Timer t \<Rightarrow> \<lparr>tm_timeout_func = Rt_thread_timeout, tm_parameter = t, tm_init_tick = 0,
                            tm_timeout_tick = 0\<rparr>
       | Timer n \<Rightarrow> \<lparr>tm_timeout_func = User_timeout n, tm_parameter = 0, tm_init_tick = 10,
                     tm_timeout_tick = 0\<rparr>),
     mutexes := (\<lambda>_. \<lparr>mtx_value = 1, mtx_original_priority = 0xff, mtx_hold = 0, mtx_owner = None\<rparr>),
     tlists := (\<lambda>_. [])(LReady 10 := [2], LReady 20 := [3], LReady 31 := [0]),
     rt_thread_ready_priority_group := push_bit 10 1 OR push_bit 20 1 OR push_bit 31 1,
     timer_thread := 3,
     rt_current_thread := Some 1, rt_current_priority := 10\<rparr>"

end
