(* ===== verification/Scheduler.thy ===== *)
theory Scheduler
  imports Kernel_State
begin

text \<open>
  The scheduler (\<^verbatim>\<open>src/scheduler.c\<close>, the branches without \<^verbatim>\<open>RT_USING_SMP\<close>, with
  \<^verbatim>\<open>RT_THREAD_PRIORITY_MAX = 32\<close>): the bitmap of ready priorities, the ready lists, the choice of
  the next thread and the scheduler lock. The scheduling invariant \<open>sched_inv\<close> says that the
  bitmap, the ready lists and the state bits of the threads describe the same set of ready threads,
  and every operation is shown to keep it.
\<close>

section \<open>Operations\<close>

text \<open>\<^verbatim>\<open>__rt_ffs\<close> of the GCC port is \<^verbatim>\<open>__builtin_ffs\<close>: one plus the index of the least
  significant bit that is set, or zero.\<close>

definition rt_ffs :: "u32 \<Rightarrow> nat" where
  "rt_ffs v = (case find (\<lambda>i. bit v i) [0..<32] of None \<Rightarrow> 0 | Some i \<Rightarrow> Suc i)"

definition get_highest_priority_thread :: "kernel \<Rightarrow> (tid \<times> nat) option" where
  "get_highest_priority_thread k =
     (let highest_ready_priority = rt_ffs (rt_thread_ready_priority_group k) - 1
      in case tlists k (LReady highest_ready_priority) of
           [] \<Rightarrow> None
         | t # _ \<Rightarrow> Some (t, highest_ready_priority))"

definition rt_system_scheduler_init :: "kernel \<Rightarrow> kernel" where
  "rt_system_scheduler_init k =
     k\<lparr>rt_scheduler_lock_nest := 0,
       tlists := (\<lambda>l. case l of LReady p \<Rightarrow> (if p < RT_THREAD_PRIORITY_MAX then [] else tlists k l)
                       | LDefunct \<Rightarrow> [] | _ \<Rightarrow> tlists k l),
       rt_thread_ready_priority_group := 0\<rparr>"

definition rt_schedule_insert_thread :: "tid \<Rightarrow> kernel \<Rightarrow> kernel" where
  "rt_schedule_insert_thread t k =
     (if rt_current_thread k = Some t then upd_thread t (set_stat RT_THREAD_RUNNING) k
      else
        let k = upd_thread t (set_stat RT_THREAD_READY) k;
            k = tlist_append (LReady (prio k t)) t k
        in k\<lparr>rt_thread_ready_priority_group :=
               rt_thread_ready_priority_group k OR th_number_mask (threads k t)\<rparr>)"

definition rt_schedule_remove_thread :: "tid \<Rightarrow> kernel \<Rightarrow> kernel" where
  "rt_schedule_remove_thread t k =
     (let k = tlist_remove t k
      in if tlists k (LReady (prio k t)) = []
         then k\<lparr>rt_thread_ready_priority_group :=
                  rt_thread_ready_priority_group k AND NOT (th_number_mask (threads k t))\<rparr>
         else k)"

definition rt_system_scheduler_start :: "kernel \<Rightarrow> kernel option" where
  "rt_system_scheduler_start k = do {
     (to_thread, _) \<leftarrow> get_highest_priority_thread k;
     let k = k\<lparr>rt_current_thread := Some to_thread\<rparr>;
     let k = rt_schedule_remove_thread to_thread k;
     Some (upd_thread to_thread (\<lambda>th. th\<lparr>th_stat := RT_THREAD_RUNNING\<rparr>) k)
   }"

text \<open>The tests of \<^verbatim>\<open>rt_schedule\<close> on the current thread: it keeps the processor when it is running
  and either strictly more urgent than the best ready thread, or as urgent and not told to yield.\<close>

definition keeps_running :: "kernel \<Rightarrow> tid \<Rightarrow> nat \<Rightarrow> bool" where
  "keeps_running k cur hp =
     (thread_stat k cur = RT_THREAD_RUNNING \<and>
      (prio k cur < hp \<or>
       prio k cur = hp \<and> th_stat (threads k cur) AND RT_THREAD_STAT_YIELD = 0))"

definition rt_schedule :: "kernel \<Rightarrow> kernel option" where
  "rt_schedule k =
     (if rt_scheduler_lock_nest k = 0 then
        if rt_thread_ready_priority_group k \<noteq> 0 then do {
          (to_thread, hp) \<leftarrow> get_highest_priority_thread k;
          cur \<leftarrow> rt_current_thread k;
          let keep = keeps_running k cur hp;
          let need_insert = (thread_stat k cur = RT_THREAD_RUNNING \<and> \<not> keep);
          let k = (if need_insert
                   then upd_thread cur (\<lambda>th. th\<lparr>th_stat := th_stat th AND NOT RT_THREAD_STAT_YIELD\<rparr>) k
                   else k);
          let to_thread = (if keep then cur else to_thread);
          if to_thread \<noteq> cur then
            let k = k\<lparr>rt_current_priority := word_of_nat hp, rt_current_thread := Some to_thread\<rparr>;
                k = (if need_insert then rt_schedule_insert_thread cur k else k);
                k = rt_schedule_remove_thread to_thread k
            in Some (upd_thread to_thread (set_stat RT_THREAD_RUNNING) k)
          else
            let k = rt_schedule_remove_thread cur k
            in Some (upd_thread cur (set_stat RT_THREAD_RUNNING) k)
        }
        else Some k
      else Some k)"

definition rt_enter_critical :: "kernel \<Rightarrow> kernel" where
  "rt_enter_critical k = k\<lparr>rt_scheduler_lock_nest := rt_scheduler_lock_nest k + 1\<rparr>"

definition rt_exit_critical :: "kernel \<Rightarrow> kernel option" where
  "rt_exit_critical k =
     (let k = k\<lparr>rt_scheduler_lock_nest := rt_scheduler_lock_nest k - 1\<rparr>
      in if sint (rt_scheduler_lock_nest k) \<le> 0 then
           let k = k\<lparr>rt_scheduler_lock_nest := 0\<rparr>
           in if rt_current_thread k \<noteq> None then rt_schedule k else Some k
         else Some k)"

definition rt_critical_level :: "kernel \<Rightarrow> u16" where
  "rt_critical_level k = rt_scheduler_lock_nest k"

section \<open>The scheduling invariant\<close>

text \<open>
  \<open>sched_core X k\<close> says that the bitmap, the lists and the state bits agree for every thread
  outside \<open>X\<close>, while the threads of \<open>X\<close> are on no list: they are the threads an operation has
  taken off its list and not yet put back. The clauses: the bitmap has exactly the bits of the
  non-empty ready lists; a thread is on at most one list, once; a thread on a list has the state
  that list stands for; a READY thread is on the ready list of its priority; a thread that is
  ready, suspended or running has a priority below 32 and the mask of it. \<open>current_ok\<close> ties the
  RUNNING state to \<^verbatim>\<open>rt_current_thread\<close>. The invariant is both, with no thread taken off.
\<close>

definition list_stat :: "lid \<Rightarrow> u8" where
  "list_stat l =
     (case l of LReady _ \<Rightarrow> RT_THREAD_READY | LDefunct \<Rightarrow> RT_THREAD_CLOSE | _ \<Rightarrow> RT_THREAD_SUSPEND)"

definition list_state :: "kernel \<Rightarrow> tid \<Rightarrow> lid \<Rightarrow> bool" where
  "list_state k t l = (thread_stat k t = list_stat l \<and> (\<forall>p. l = LReady p \<longrightarrow> prio k t = p))"

definition live :: "kernel \<Rightarrow> tid \<Rightarrow> bool" where
  "live k t = (thread_stat k t \<in> {RT_THREAD_READY, RT_THREAD_SUSPEND, RT_THREAD_RUNNING})"

definition mask_ok :: "kernel \<Rightarrow> tid \<Rightarrow> bool" where
  "mask_ok k t = (prio k t < 32 \<and> th_number_mask (threads k t) = push_bit (prio k t) 1)"

definition sched_core :: "tid set \<Rightarrow> kernel \<Rightarrow> bool" where
  "sched_core X k \<longleftrightarrow>
     (\<forall>p < 32. bit (rt_thread_ready_priority_group k) p \<longleftrightarrow> tlists k (LReady p) \<noteq> []) \<and>
     (\<forall>l. distinct (tlists k l)) \<and>
     (\<forall>l l' t. t \<in> set (tlists k l) \<longrightarrow> t \<in> set (tlists k l') \<longrightarrow> l = l') \<and>
     (\<forall>l t. t \<in> set (tlists k l) \<longrightarrow> t \<notin> X \<and> list_state k t l) \<and>
     (\<forall>t. t \<notin> X \<longrightarrow> thread_stat k t = RT_THREAD_READY \<longrightarrow> t \<in> set (tlists k (LReady (prio k t)))) \<and>
     (\<forall>t. t \<notin> X \<longrightarrow> live k t \<longrightarrow> mask_ok k t)"

definition current_ok :: "kernel \<Rightarrow> bool" where
  "current_ok k \<longleftrightarrow>
     (\<forall>t. thread_stat k t = RT_THREAD_RUNNING \<longrightarrow> rt_current_thread k = Some t) \<and>
     (\<forall>t. rt_current_thread k = Some t \<longrightarrow> thread_stat k t \<noteq> RT_THREAD_READY)"

definition sched_inv :: "kernel \<Rightarrow> bool" where
  "sched_inv k \<longleftrightarrow> sched_core {} k \<and> current_ok k"

section \<open>Reading an updated state\<close>

lemma upd_thread_frame [frame_simps, simp]:
  "tlists (upd_thread t f k) = tlists k"
  "rt_thread_ready_priority_group (upd_thread t f k) = rt_thread_ready_priority_group k"
  "rt_current_thread (upd_thread t f k) = rt_current_thread k"
  "rt_scheduler_lock_nest (upd_thread t f k) = rt_scheduler_lock_nest k"
  "threads (upd_thread t f k) = (threads k)(t := f (threads k t))"
  by (simp_all add: upd_thread_def)

lemma tlist_frame [frame_simps, simp]:
  "threads (tlist_append l t k) = threads k"
  "threads (tlist_remove t k) = threads k"
  "rt_thread_ready_priority_group (tlist_append l t k) = rt_thread_ready_priority_group k"
  "rt_thread_ready_priority_group (tlist_remove t k) = rt_thread_ready_priority_group k"
  "rt_current_thread (tlist_append l t k) = rt_current_thread k"
  "rt_current_thread (tlist_remove t k) = rt_current_thread k"
  "tlists (tlist_append l t k) = (tlists k)(l := tlists k l @ [t])"
  "tlists (tlist_remove t k) l' = removeAll t (tlists k l')"
  by (simp_all add: tlist_append_def tlist_remove_def)

lemma thread_reads_cong:
  assumes "threads k' = threads k"
  shows "thread_stat k' t = thread_stat k t" "prio k' t = prio k t"
    "list_state k' t l = list_state k t l" "live k' t = live k t" "mask_ok k' t = mask_ok k t"
  using assms by (simp_all add: thread_stat_def prio_def list_state_def live_def mask_ok_def)

lemma sched_core_cong:
  assumes "threads k' = threads k" "tlists k' = tlists k"
    "rt_thread_ready_priority_group k' = rt_thread_ready_priority_group k"
  shows "sched_core X k' = sched_core X k"
  using assms by (simp add: sched_core_def thread_reads_cong [OF assms(1)])

lemma thread_stat_upd [simp]:
  "thread_stat (upd_thread t f k) u =
     (if u = t then th_stat (f (threads k t)) AND 7 else thread_stat k u)"
  by (simp add: thread_stat_def)

lemma prio_upd_same [simp]:
  "th_current_priority (f (threads k t)) = th_current_priority (threads k t) \<Longrightarrow>
     prio (upd_thread t f k) u = prio k u"
  by (simp add: prio_def upd_thread_def)

lemma prio_upd:
  "prio (upd_thread t f k) u =
     (if u = t then unat (th_current_priority (f (threads k t))) else prio k u)"
  by (simp add: prio_def)

lemma set_stat_fields [simp]:
  "th_current_priority (set_stat s th) = th_current_priority th"
  "th_number_mask (set_stat s th) = th_number_mask th"
  "th_error (set_stat s th) = th_error th"
  "th_event_set (set_stat s th) = th_event_set th"
  "th_event_info (set_stat s th) = th_event_info th"
  by (simp_all add: set_stat_def)

lemma mask_ok_upd_same [simp]:
  "th_current_priority (f (threads k t)) = th_current_priority (threads k t) \<Longrightarrow>
     th_number_mask (f (threads k t)) = th_number_mask (threads k t) \<Longrightarrow>
     mask_ok (upd_thread t f k) u = mask_ok k u"
  by (simp add: mask_ok_def)

lemma live_set_stat: "s AND 7 = s \<Longrightarrow> live (upd_thread t (set_stat s) k) u =
    (if u = t then s \<in> {RT_THREAD_READY, RT_THREAD_SUSPEND, RT_THREAD_RUNNING} else live k u)"
  by (simp add: live_def)

lemma bit_push_bit_1: "bit (push_bit n (1 :: u32)) m \<longleftrightarrow> m = n \<and> n < 32"
  by (auto simp: bit_simps)

lemma remove_thread_frame [simp]:
  "threads (rt_schedule_remove_thread t k) = threads k"
  "tlists (rt_schedule_remove_thread t k) l = removeAll t (tlists k l)"
  "rt_current_thread (rt_schedule_remove_thread t k) = rt_current_thread k"
  "prio (rt_schedule_remove_thread t k) u = prio k u"
  "thread_stat (rt_schedule_remove_thread t k) u = thread_stat k u"
  by (simp_all add: rt_schedule_remove_thread_def Let_def prio_def thread_stat_def)

section \<open>Primitive steps\<close>

lemma sched_coreI:
  assumes "\<And>p. p < 32 \<Longrightarrow>
      bit (rt_thread_ready_priority_group k) p \<longleftrightarrow> tlists k (LReady p) \<noteq> []"
    and "\<And>l. distinct (tlists k l)"
    and "\<And>l l' t. t \<in> set (tlists k l) \<Longrightarrow> t \<in> set (tlists k l') \<Longrightarrow> l = l'"
    and "\<And>l t. t \<in> set (tlists k l) \<Longrightarrow> t \<notin> X \<and> list_state k t l"
    and "\<And>t. t \<notin> X \<Longrightarrow> thread_stat k t = RT_THREAD_READY \<Longrightarrow> t \<in> set (tlists k (LReady (prio k t)))"
    and "\<And>t. t \<notin> X \<Longrightarrow> live k t \<Longrightarrow> mask_ok k t"
  shows "sched_core X k"
  using assms unfolding sched_core_def by blast

lemma sched_core_bit:
  "sched_core X k \<Longrightarrow> p < 32 \<Longrightarrow>
     bit (rt_thread_ready_priority_group k) p \<longleftrightarrow> tlists k (LReady p) \<noteq> []"
  by (simp add: sched_core_def)

lemma sched_core_disjoint:
  "sched_core X k \<Longrightarrow> t \<in> set (tlists k l) \<Longrightarrow> t \<in> set (tlists k l') \<Longrightarrow> l = l'"
  unfolding sched_core_def by blast

lemma sched_core_distinct: "sched_core X k \<Longrightarrow> distinct (tlists k l)"
  by (simp add: sched_core_def)

lemma sched_core_list_state: "sched_core X k \<Longrightarrow> t \<in> set (tlists k l) \<Longrightarrow> list_state k t l"
  by (simp add: sched_core_def)

lemma sched_core_ready:
  "sched_core X k \<Longrightarrow> t \<notin> X \<Longrightarrow> thread_stat k t = RT_THREAD_READY \<Longrightarrow>
     t \<in> set (tlists k (LReady (prio k t)))"
  by (simp add: sched_core_def)

lemma sched_core_mask: "sched_core X k \<Longrightarrow> t \<notin> X \<Longrightarrow> live k t \<Longrightarrow> mask_ok k t"
  by (simp add: sched_core_def)

lemma sched_core_off: "sched_core X k \<Longrightarrow> t \<in> X \<Longrightarrow> t \<notin> set (tlists k l)"
  unfolding sched_core_def by blast

lemma sched_core_notin: "sched_core X k \<Longrightarrow> t \<in> set (tlists k l) \<Longrightarrow> t \<notin> X"
  unfolding sched_core_def by blast

lemmas sched_coreD = sched_core_disjoint sched_core_distinct sched_core_list_state sched_core_ready
  sched_core_mask sched_core_notin

lemma reads_upd_other:
  "u \<noteq> t \<Longrightarrow> list_state (upd_thread t f k) u l = list_state k u l"
  "u \<noteq> t \<Longrightarrow> live (upd_thread t f k) u = live k u"
  "u \<noteq> t \<Longrightarrow> mask_ok (upd_thread t f k) u = mask_ok k u"
  by (simp_all add: list_state_def live_def mask_ok_def prio_def)

lemma sched_core_upd_off:
  assumes "sched_core X k" and "t \<in> X"
  shows "sched_core X (upd_thread t f k)"
proof (rule sched_coreI)
  fix l u
  assume u: "u \<in> set (tlists (upd_thread t f k) l)"
  with assms have "u \<noteq> t" by (auto dest: sched_core_off)
  with u assms show "u \<notin> X \<and> list_state (upd_thread t f k) u l"
    by (auto simp: reads_upd_other dest: sched_coreD)
next
  fix u
  assume "u \<notin> X" "live (upd_thread t f k) u"
  with assms show "mask_ok (upd_thread t f k) u"
    by (metis reads_upd_other(2,3) sched_core_mask)
next
  fix u
  assume u: "u \<notin> X" "thread_stat (upd_thread t f k) u = RT_THREAD_READY"
  with assms have "u \<noteq> t" by auto
  with u sched_core_ready [OF assms(1), of u]
  show "u \<in> set (tlists (upd_thread t f k) (LReady (prio (upd_thread t f k) u)))"
    by (simp add: prio_upd)
qed (use assms in \<open>auto simp: sched_core_bit dest: sched_core_disjoint sched_core_distinct\<close>)

lemma sched_core_upd_same:
  assumes "sched_core X k"
    and "th_stat (f (threads k t)) AND 7 = th_stat (threads k t) AND 7"
    and "th_current_priority (f (threads k t)) = th_current_priority (threads k t)"
    and "th_number_mask (f (threads k t)) = th_number_mask (threads k t)"
  shows "sched_core X (upd_thread t f k)"
proof -
  have same: "thread_stat (upd_thread t f k) u = thread_stat k u"
    "prio (upd_thread t f k) u = prio k u"
    "mask_ok (upd_thread t f k) u = mask_ok k u" for u
    using assms(2-4) by (simp_all add: thread_stat_def prio_def mask_ok_def)
  then show ?thesis
    using assms(1) by (simp add: sched_core_def list_state_def live_def del: thread_stat_upd)
qed

lemma sched_core_take_off:
  assumes "sched_core X k" and "\<And>l. t \<notin> set (tlists k l)"
  shows "sched_core (insert t X) k"
  using assms by (intro sched_coreI) (auto simp: sched_core_bit dest: sched_coreD)

lemma sched_core_put_back:
  assumes "sched_core (insert t X) k" and "thread_stat k t \<noteq> RT_THREAD_READY"
    and "live k t \<Longrightarrow> mask_ok k t"
  shows "sched_core X k"
proof (rule sched_coreI)
  fix u
  assume "u \<notin> X" "live k u"
  with assms show "mask_ok k u"
    by (metis insert_iff sched_core_mask)
next
  fix u
  assume "u \<notin> X" "thread_stat k u = RT_THREAD_READY"
  with assms show "u \<in> set (tlists k (LReady (prio k u)))"
    by (metis insert_iff sched_core_ready)
qed (use assms(1) in \<open>auto simp: sched_core_bit dest: sched_coreD\<close>)

text \<open>Linking a thread that is on no list into list \<open>l\<close>, at any position.\<close>

lemma sched_core_link:
  assumes c: "sched_core (insert t X) k" and t: "t \<notin> X"
    and st: "list_state k t l" and m: "live k t \<Longrightarrow> mask_ok k t"
    and xs: "tlists k l = as @ bs"
    and k': "threads k' = threads k" "tlists k' = (tlists k)(l := as @ t # bs)"
    and g: "\<And>p. p < 32 \<Longrightarrow> bit (rt_thread_ready_priority_group k') p \<longleftrightarrow>
      bit (rt_thread_ready_priority_group k) p \<or> l = LReady p"
  shows "sched_core X k'"
proof (rule sched_coreI)
  note off = sched_core_off [OF c insertI1] and rd = thread_reads_cong [OF k'(1)]
  have mem: "u \<in> set (tlists k' l') \<longleftrightarrow> u \<in> set (tlists k l') \<or> (u = t \<and> l' = l)" for u l'
    using k'(2) xs by auto
  show "bit (rt_thread_ready_priority_group k') p \<longleftrightarrow> tlists k' (LReady p) \<noteq> []" if "p < 32" for p
    using g [OF that] sched_core_bit [OF c that] k'(2) by auto
  show "distinct (tlists k' l')" for l'
    using sched_core_distinct [OF c, of l'] sched_core_distinct [OF c, of l] off [of l] k'(2) xs by auto
  show "l1 = l2" if "u \<in> set (tlists k' l1)" "u \<in> set (tlists k' l2)" for l1 l2 u
    using that off sched_core_disjoint [OF c] unfolding mem by blast
  show "u \<notin> X \<and> list_state k' u l'" if "u \<in> set (tlists k' l')" for l' u
    using that t st sched_core_list_state [OF c] sched_core_notin [OF c] unfolding mem rd by auto
  show "u \<in> set (tlists k' (LReady (prio k' u)))" if "u \<notin> X" "thread_stat k' u = RT_THREAD_READY" for u
  proof (cases "u = t")
    case True
    with that st have "list_stat l = RT_THREAD_READY" by (simp add: rd list_state_def)
    then obtain p where "l = LReady p" by (cases l) (auto simp: list_stat_def)
    with st True show ?thesis by (simp add: mem rd list_state_def)
  next
    case False
    with that sched_core_ready [OF c, of u] show ?thesis by (simp add: mem rd)
  qed
  show "mask_ok k' u" if "u \<notin> X" "live k' u" for u
    using that m sched_core_mask [OF c, of u] unfolding rd by (cases "u = t") auto
qed

lemma sched_core_remove:
  assumes c: "sched_core X k" and m: "mask_ok k t"
  shows "sched_core (insert t X) (rt_schedule_remove_thread t k)"
proof (rule sched_coreI)
  let ?k = "rt_schedule_remove_thread t k" and ?p = "prio k t"
  have th: "threads ?k = threads k" and tl: "tlists ?k l = removeAll t (tlists k l)" for l
    by (simp_all add: rt_schedule_remove_thread_def Let_def tlist_remove_def)
  note rd = thread_reads_cong [OF th]
  have grp: "rt_thread_ready_priority_group ?k =
      (if removeAll t (tlists k (LReady ?p)) = []
       then rt_thread_ready_priority_group k AND NOT (push_bit ?p 1)
       else rt_thread_ready_priority_group k)"
    using m by (simp add: rt_schedule_remove_thread_def Let_def tlist_remove_def mask_ok_def prio_def)
  show "bit (rt_thread_ready_priority_group ?k) p \<longleftrightarrow> tlists ?k (LReady p) \<noteq> []" if p: "p < 32" for p
  proof (cases "p = ?p")
    case True
    with p sched_core_bit [OF c p] show ?thesis
      by (auto simp: grp tl bit_simps)
  next
    case False
    then have "t \<notin> set (tlists k (LReady p))"
      using sched_core_list_state [OF c, of t "LReady p"] by (auto simp: list_state_def)
    with False p sched_core_bit [OF c p] show ?thesis
      by (auto simp: grp tl bit_simps)
  qed
  show "mask_ok ?k u" if "u \<notin> insert t X" "live ?k u" for u
    using that sched_core_mask [OF c, of u] by (simp add: rd)
  show "u \<in> set (tlists ?k (LReady (prio ?k u)))"
    if "u \<notin> insert t X" "thread_stat ?k u = RT_THREAD_READY" for u
    using that sched_core_ready [OF c, of u] by (simp add: rd tl)
  show "u \<notin> insert t X \<and> list_state ?k u l" if "u \<in> set (tlists ?k l)" for l u
    using that c by (auto simp: rd tl dest: sched_coreD)
qed (use c in \<open>auto intro: distinct_removeAll dest: sched_coreD\<close>)

section \<open>Scheduling\<close>

lemma current_okI:
  assumes "\<And>t. thread_stat k t = RT_THREAD_RUNNING \<Longrightarrow> rt_current_thread k = Some t"
    and "\<And>t. rt_current_thread k = Some t \<Longrightarrow> thread_stat k t \<noteq> RT_THREAD_READY"
  shows "current_ok k"
  using assms by (simp add: current_ok_def)

lemma current_ok_running: "current_ok k \<Longrightarrow> thread_stat k t = 3 \<Longrightarrow> rt_current_thread k = Some t"
  by (simp add: current_ok_def)

lemma current_ok_not_ready: "current_ok k \<Longrightarrow> rt_current_thread k = Some t \<Longrightarrow> thread_stat k t \<noteq> 1"
  by (simp add: current_ok_def)

lemma thread_stat_cong: "threads k' = threads k \<Longrightarrow> thread_stat k' t = thread_stat k t"
  by (simp add: thread_stat_def)

lemma insert_thread_frame [simp]:
  "rt_current_thread (rt_schedule_insert_thread t k) = rt_current_thread k"
  "threads (rt_schedule_insert_thread t k) =
     (threads k)(t := set_stat (if rt_current_thread k = Some t then 3 else 1) (threads k t))"
  by (simp_all add: rt_schedule_insert_thread_def Let_def)

lemma insert_thread_core:
  assumes c: "sched_core (insert t X) k" and t: "t \<notin> X" and m: "mask_ok k t"
  shows "sched_core X (rt_schedule_insert_thread t k)"
proof (cases "rt_current_thread k = Some t")
  case True
  have "sched_core (insert t X) (upd_thread t (set_stat 3) k)"
    using c by (rule sched_core_upd_off) simp
  then have "sched_core X (upd_thread t (set_stat 3) k)"
    by (rule sched_core_put_back) (use m in simp_all)
  with True show ?thesis by (simp add: rt_schedule_insert_thread_def)
next
  case False
  let ?k = "upd_thread t (set_stat 1) k"
  have c': "sched_core (insert t X) ?k"
    using c by (rule sched_core_upd_off) simp
  have m': "mask_ok ?k t" using m by (simp add: mask_ok_def)
  show ?thesis
    using False t m' m
    by (intro sched_core_link [OF c', where l = "LReady (prio k t)" and
            as = "tlists k (LReady (prio k t))" and bs = "[]"])
      (auto simp: rt_schedule_insert_thread_def Let_def list_state_def list_stat_def prio_def mask_ok_def
        bit_simps)
qed

lemma insert_thread_current:
  assumes "current_ok k"
  shows "current_ok (rt_schedule_insert_thread t k)"
proof (rule current_okI)
  fix u
  assume "thread_stat (rt_schedule_insert_thread t k) u = RT_THREAD_RUNNING"
  with assms show "rt_current_thread (rt_schedule_insert_thread t k) = Some u"
    by (auto simp: thread_stat_def set_stat_state dest: current_ok_running split: if_splits)
next
  fix u
  assume "rt_current_thread (rt_schedule_insert_thread t k) = Some u"
  with assms show "thread_stat (rt_schedule_insert_thread t k) u \<noteq> RT_THREAD_READY"
    using current_ok_not_ready [of k u]
    by (auto simp: thread_stat_def set_stat_state split: if_splits)
qed

lemma rt_ffs_lowest:
  assumes "v \<noteq> 0"
  shows "rt_ffs v > 0" "bit v (rt_ffs v - 1)" "rt_ffs v - 1 < 32" "j < rt_ffs v - 1 \<Longrightarrow> \<not> bit v j"
proof -
  obtain i where "bit v i"
    using assms by (auto simp: bit_eq_iff)
  moreover then have "i < 32" using bit_imp_le_length [of v i] by simp
  ultimately have "find (\<lambda>i. bit v i) [0..<32] \<noteq> None"
    by (auto simp: find_None_iff)
  then obtain j where j: "find (\<lambda>i. bit v i) [0..<32] = Some j" by auto
  then have "bit v j" "j < 32" "\<And>i. i < j \<Longrightarrow> \<not> bit v i"
    by (auto simp: find_Some_iff)
  with j show "rt_ffs v > 0" "bit v (rt_ffs v - 1)" "rt_ffs v - 1 < 32"
    "j < rt_ffs v - 1 \<Longrightarrow> \<not> bit v j" for j
    by (simp_all add: rt_ffs_def)
qed

lemma get_highest_some:
  assumes c: "sched_core X k" and g: "rt_thread_ready_priority_group k \<noteq> 0"
  obtains t hp where "get_highest_priority_thread k = Some (t, hp)"
    "t \<in> set (tlists k (LReady hp))" "hp < 32" "thread_stat k t = RT_THREAD_READY" "prio k t = hp"
    "\<And>u. u \<notin> X \<Longrightarrow> thread_stat k u = RT_THREAD_READY \<Longrightarrow> hp \<le> prio k u"
proof -
  let ?hp = "rt_ffs (rt_thread_ready_priority_group k) - 1"
  note ffs = rt_ffs_lowest [OF g]
  from sched_core_bit [OF c ffs(3)] ffs(2) obtain t ts where tl: "tlists k (LReady ?hp) = t # ts"
    by (cases "tlists k (LReady ?hp)") auto
  then have "list_state k t (LReady ?hp)"
    using sched_core_list_state [OF c, of t "LReady ?hp"] by simp
  moreover have "?hp \<le> prio k u" if u: "u \<notin> X" "thread_stat k u = RT_THREAD_READY" for u
  proof (rule ccontr)
    assume "\<not> ?hp \<le> prio k u"
    then have "\<not> bit (rt_thread_ready_priority_group k) (prio k u)" "prio k u < 32"
      using ffs by auto
    with sched_core_bit [OF c] sched_core_ready [OF c u] show False by auto
  qed
  ultimately show ?thesis
    using tl ffs(3)
    by (intro that [of t ?hp]) (auto simp: get_highest_priority_thread_def list_state_def list_stat_def)
qed

text \<open>\<open>switch_to\<close> is the part of \<^verbatim>\<open>rt_schedule\<close> that gives the processor to another thread;
  \<open>clear_yield\<close> the write that precedes the insertion of a preempted thread.\<close>

definition clear_yield :: "tid \<Rightarrow> kernel \<Rightarrow> kernel" where
  "clear_yield t = upd_thread t (\<lambda>th. th\<lparr>th_stat := th_stat th AND NOT RT_THREAD_STAT_YIELD\<rparr>)"

definition switch_to :: "tid \<Rightarrow> nat \<Rightarrow> tid \<Rightarrow> bool \<Rightarrow> kernel \<Rightarrow> kernel" where
  "switch_to to hp cur ins k =
     (let k = k\<lparr>rt_current_priority := word_of_nat hp, rt_current_thread := Some to\<rparr>;
          k = (if ins then rt_schedule_insert_thread cur k else k);
          k = rt_schedule_remove_thread to k
      in upd_thread to (set_stat RT_THREAD_RUNNING) k)"

lemma rt_schedule_cases [consumes 2, case_names Idle Keep Switch]:
  assumes s: "rt_schedule k = Some k'" and i: "sched_inv k"
  obtains
    (Idle) "k' = k" "rt_scheduler_lock_nest k \<noteq> 0 \<or> rt_thread_ready_priority_group k = 0"
  | (Keep) cur to hp where "rt_scheduler_lock_nest k = 0" "rt_current_thread k = Some cur"
      "get_highest_priority_thread k = Some (to, hp)" "keeps_running k cur hp"
      "k' = upd_thread cur (set_stat RT_THREAD_RUNNING) (rt_schedule_remove_thread cur k)"
  | (Switch) cur to hp ins where "rt_scheduler_lock_nest k = 0" "rt_current_thread k = Some cur"
      "get_highest_priority_thread k = Some (to, hp)" "\<not> keeps_running k cur hp" "to \<noteq> cur"
      "thread_stat k to = RT_THREAD_READY" "prio k to = hp"
      "ins \<longleftrightarrow> thread_stat k cur = RT_THREAD_RUNNING"
      "k' = switch_to to hp cur ins (if ins then clear_yield cur k else k)"
proof (cases "rt_scheduler_lock_nest k = 0 \<and> rt_thread_ready_priority_group k \<noteq> 0")
  case False
  with s Idle show ?thesis by (auto simp: rt_schedule_def split: if_splits)
next
  case True
  from i have c: "sched_core {} k" and ok: "current_ok k" by (auto simp: sched_inv_def)
  from True obtain to hp where h: "get_highest_priority_thread k = Some (to, hp)"
    and to: "thread_stat k to = RT_THREAD_READY" "prio k to = hp"
    using get_highest_some [OF c] by metis
  from s True h obtain cur where cur: "rt_current_thread k = Some cur"
    by (cases "rt_current_thread k") (auto simp: rt_schedule_def)
  with ok to have ne: "to \<noteq> cur" by (auto dest: current_ok_not_ready)
  show ?thesis
  proof (cases "keeps_running k cur hp")
    case k: True
    with s True h cur show ?thesis
      by (intro Keep [of cur to hp]) (auto simp: rt_schedule_def Let_def)
  next
    case k: False
    with s True h cur ne to show ?thesis
      by (intro Switch [of cur to hp "thread_stat k cur = 3"])
        (auto simp: rt_schedule_def Let_def switch_to_def clear_yield_def)
  qed
qed

lemma clear_yield_reads [simp]:
  "tlists (clear_yield t k) = tlists k"
  "rt_current_thread (clear_yield t k) = rt_current_thread k"
  "thread_stat (clear_yield t k) u = thread_stat k u"
  "prio (clear_yield t k) u = prio k u"
  "th_number_mask (threads (clear_yield t k) u) = th_number_mask (threads k u)"
  by (simp_all add: clear_yield_def thread_stat_def prio_def and_not_yield_state)

lemma clear_yield_core: "sched_core X k \<Longrightarrow> sched_core X (clear_yield t k)"
  unfolding clear_yield_def by (rule sched_core_upd_same) (simp_all add: and_not_yield_state)

lemma running_off_lists:
  assumes "sched_core X k" "thread_stat k t = RT_THREAD_RUNNING"
  shows "t \<notin> set (tlists k l)"
  using assms sched_core_list_state [of X k t l]
  by (cases l) (auto simp: list_state_def list_stat_def)

lemma switch_to_core:
  assumes c: "sched_core {} k" and to: "thread_stat k to = RT_THREAD_READY" "to \<noteq> cur"
    and ins: "ins \<Longrightarrow> thread_stat k cur = RT_THREAD_RUNNING"
  shows "sched_core {} (switch_to to hp cur ins k)"
proof -
  let ?k1 = "k\<lparr>rt_current_priority := word_of_nat hp, rt_current_thread := Some to\<rparr>"
  let ?k2 = "if ins then rt_schedule_insert_thread cur ?k1 else ?k1"
  have c1: "sched_core {} ?k1" using c by (subst sched_core_cong [of _ k]) simp_all
  have mto: "mask_ok k to" using sched_core_mask [OF c, of to] to by (simp add: live_def)
  have c2: "sched_core {} ?k2"
  proof (cases ins)
    case True
    have r: "thread_stat ?k1 cur = RT_THREAD_RUNNING"
      using ins [OF True] by (simp add: thread_stat_def)
    then have m: "mask_ok ?k1 cur"
      using sched_core_mask [OF c1, of cur] by (simp add: live_def)
    have "sched_core {cur} ?k1"
      by (rule sched_core_take_off [OF c1]) (rule running_off_lists [OF c1 r])
    then have "sched_core {} (rt_schedule_insert_thread cur ?k1)"
      using m by (intro insert_thread_core) simp_all
    with True show ?thesis by simp
  qed (use c1 in simp)
  have "mask_ok ?k2 to" using mto to(2) by (simp add: mask_ok_def prio_def)
  then have "sched_core {to} (upd_thread to (set_stat 3) (rt_schedule_remove_thread to ?k2))"
    by (intro sched_core_upd_off sched_core_remove [OF c2]) simp_all
  then have "sched_core {} (upd_thread to (set_stat 3) (rt_schedule_remove_thread to ?k2))"
    by (rule sched_core_put_back) (use mto to(2) in \<open>simp_all add: mask_ok_def prio_def\<close>)
  then show ?thesis by (simp add: switch_to_def Let_def cong: if_cong)
qed

lemma switch_to_threads:
  "to \<noteq> cur \<Longrightarrow> threads (switch_to to hp cur ins k) =
     (if ins then (threads k)(cur := set_stat 1 (threads k cur), to := set_stat 3 (threads k to))
      else (threads k)(to := set_stat 3 (threads k to)))"
  "rt_current_thread (switch_to to hp cur ins k) = Some to"
  by (auto simp: switch_to_def Let_def)

lemma switch_to_current:
  assumes "current_ok k" "rt_current_thread k = Some cur" "to \<noteq> cur"
    and "ins \<longleftrightarrow> thread_stat k cur = RT_THREAD_RUNNING"
  shows "current_ok (switch_to to hp cur ins k)"
proof (rule current_okI)
  fix u
  assume u: "thread_stat (switch_to to hp cur ins k) u = RT_THREAD_RUNNING"
  have "u = to"
  proof (rule ccontr)
    assume "u \<noteq> to"
    with u assms have "thread_stat k u = 3" "u \<noteq> cur"
      by (auto simp: thread_stat_def switch_to_threads set_stat_state split: if_splits)
    with assms show False by (auto dest: current_ok_running)
  qed
  then show "rt_current_thread (switch_to to hp cur ins k) = Some u"
    by (simp add: switch_to_threads)
next
  fix u
  assume "rt_current_thread (switch_to to hp cur ins k) = Some u"
  with assms show "thread_stat (switch_to to hp cur ins k) u \<noteq> RT_THREAD_READY"
    by (auto simp: thread_stat_def switch_to_threads set_stat_state)
qed

lemma keep_inv:
  assumes i: "sched_inv k" and r: "thread_stat k cur = RT_THREAD_RUNNING"
  shows "sched_inv (upd_thread cur (set_stat 3) (rt_schedule_remove_thread cur k))"
proof -
  from i have c: "sched_core {} k" and ok: "current_ok k" by (auto simp: sched_inv_def)
  have m: "mask_ok k cur" using sched_core_mask [OF c, of cur] r by (simp add: live_def)
  have "sched_core {cur} (upd_thread cur (set_stat 3) (rt_schedule_remove_thread cur k))"
    by (intro sched_core_upd_off sched_core_remove [OF c m]) simp
  then have "sched_core {} (upd_thread cur (set_stat 3) (rt_schedule_remove_thread cur k))"
    by (rule sched_core_put_back) (use m in \<open>simp_all add: mask_ok_def prio_def\<close>)
  moreover have "rt_current_thread k = Some cur"
    using ok r by (rule current_ok_running)
  then have "current_ok (upd_thread cur (set_stat 3) (rt_schedule_remove_thread cur k))"
    using ok by (auto intro!: current_okI simp: thread_stat_def current_ok_def split: if_splits)
  ultimately show ?thesis by (simp add: sched_inv_def)
qed

lemma rt_schedule_inv:
  assumes i: "sched_inv k" and s: "rt_schedule k = Some k'"
  shows "sched_inv k'"
  using s i
proof (cases rule: rt_schedule_cases)
  case Idle
  with i show ?thesis by simp
next
  case (Keep cur to hp)
  with i show ?thesis by (auto intro: keep_inv simp: keeps_running_def)
next
  case (Switch cur to hp ins)
  let ?k = "if ins then clear_yield cur k else k"
  from i have c: "sched_core {} k" and ok: "current_ok k" by (auto simp: sched_inv_def)
  have "sched_core {} ?k" using c by (simp add: clear_yield_core)
  moreover have "current_ok ?k" using ok by (simp add: current_ok_def)
  ultimately show ?thesis
    using Switch by (auto simp: sched_inv_def intro!: switch_to_core switch_to_current)
qed

section \<open>Frames\<close>

lemma remove_thread_frames [simp]:
  "ipc_same k0 (rt_schedule_remove_thread t k) = ipc_same k0 k"
  "timers_same k0 (rt_schedule_remove_thread t k) = timers_same k0 k"
  "only_stat k0 (rt_schedule_remove_thread t k) = only_stat k0 k"
  "rt_scheduler_lock_nest (rt_schedule_remove_thread t k) = rt_scheduler_lock_nest k"
  by (auto simp: rt_schedule_remove_thread_def Let_def tlist_remove_def ipc_same_def timers_same_def
      only_stat_def)

lemma insert_thread_frames [simp]:
  "ipc_same k0 (rt_schedule_insert_thread t k) = ipc_same k0 k"
  "timers_same k0 (rt_schedule_insert_thread t k) = timers_same k0 k"
  "rt_scheduler_lock_nest (rt_schedule_insert_thread t k) = rt_scheduler_lock_nest k"
  by (auto simp: rt_schedule_insert_thread_def Let_def tlist_append_def ipc_same_def timers_same_def
      upd_thread_def)

lemma insert_thread_only_stat [simp]:
  "only_stat k0 k \<Longrightarrow> only_stat k0 (rt_schedule_insert_thread t k)"
  by (rule only_stat_trans) (auto simp: only_stat_def set_stat_def)

lemma insert_thread_wait_lists [simp]:
  "(\<And>p. l \<noteq> LReady p) \<Longrightarrow> tlists (rt_schedule_insert_thread t k) l = tlists k l"
  by (simp add: rt_schedule_insert_thread_def Let_def)

lemma clear_yield_frames [simp]:
  "ipc_same k0 (clear_yield t k) = ipc_same k0 k"
  "timers_same k0 (clear_yield t k) = timers_same k0 k"
  "rt_scheduler_lock_nest (clear_yield t k) = rt_scheduler_lock_nest k"
  by (simp_all add: clear_yield_def)

lemma clear_yield_only_stat [simp]: "only_stat k0 k \<Longrightarrow> only_stat k0 (clear_yield t k)"
  by (rule only_stat_trans) (auto simp: only_stat_def clear_yield_def)

lemma switch_to_frames:
  "ipc_same k0 (switch_to to hp cur ins k) = ipc_same k0 k"
  "timers_same k0 (switch_to to hp cur ins k) = timers_same k0 k"
  "rt_scheduler_lock_nest (switch_to to hp cur ins k) = rt_scheduler_lock_nest k"
  by (simp_all add: switch_to_def Let_def)

lemma switch_to_only_stat: "only_stat k0 k \<Longrightarrow> only_stat k0 (switch_to to hp cur ins k)"
  by (auto simp: switch_to_def Let_def)

lemma switch_to_wait_lists:
  "(\<And>p. l \<noteq> LReady p) \<Longrightarrow> tlists (switch_to to hp cur ins k) l = removeAll to (tlists k l)"
  by (simp add: switch_to_def Let_def)

lemma rt_schedule_frames:
  assumes s: "rt_schedule k = Some k'" and i: "sched_inv k"
  shows "ipc_same k k'" "timers_same k k'" "only_stat k k'"
    "rt_scheduler_lock_nest k' = rt_scheduler_lock_nest k"
  using s i by (cases rule: rt_schedule_cases;
      auto simp: switch_to_frames intro!: switch_to_only_stat)+

lemma ready_off_wait_lists:
  assumes "sched_core X k" "thread_stat k t = RT_THREAD_READY" "\<And>p. l \<noteq> LReady p"
  shows "t \<notin> set (tlists k l)"
  using assms sched_core_list_state [of X k t l]
  by (cases l) (auto simp: list_state_def list_stat_def)

lemma rt_schedule_wait_lists:
  assumes s: "rt_schedule k = Some k'" and i: "sched_inv k" and l: "\<And>p. l \<noteq> LReady p"
  shows "tlists k' l = tlists k l"
  using s i
proof (cases rule: rt_schedule_cases)
  case (Keep cur to hp)
  with i have "cur \<notin> set (tlists k l)"
    by (intro running_off_lists) (auto simp: sched_inv_def keeps_running_def)
  with Keep show ?thesis by simp
next
  case (Switch cur to hp ins)
  with i l have "to \<notin> set (tlists k l)"
    by (intro ready_off_wait_lists) (auto simp: sched_inv_def)
  with Switch l show ?thesis by (simp add: switch_to_wait_lists)
qed simp

text \<open>Which threads change their state: the one that gives up the processor becomes ready, the one
  that gets it becomes running; a suspended, closed or initial thread stays what it is.\<close>

lemma rt_schedule_stat:
  assumes s: "rt_schedule k = Some k'" and i: "sched_inv k"
    and t: "thread_stat k t \<noteq> RT_THREAD_READY" "thread_stat k t \<noteq> RT_THREAD_RUNNING"
  shows "thread_stat k' t = thread_stat k t"
  using s i
proof (cases rule: rt_schedule_cases)
  case (Keep cur to hp)
  with t show ?thesis by (auto simp: thread_stat_def keeps_running_def)
next
  case (Switch cur to hp ins)
  let ?k = "if ins then clear_yield cur k else k"
  from Switch t have "t \<noteq> to" "ins \<Longrightarrow> t \<noteq> cur" by auto
  with Switch have "threads k' t = threads k t"
    by (auto simp: switch_to_threads clear_yield_def)
  then show ?thesis by (simp add: thread_stat_def)
qed simp

section \<open>Properties\<close>

lemma rt_schedule_total:
  assumes i: "sched_inv k" and c: "rt_current_thread k \<noteq> None"
  shows "\<exists>k'. rt_schedule k = Some k'"
proof (cases "rt_scheduler_lock_nest k = 0 \<and> rt_thread_ready_priority_group k \<noteq> 0")
  case True
  with i obtain to hp where "get_highest_priority_thread k = Some (to, hp)"
    by (metis get_highest_some sched_inv_def)
  with c show ?thesis by (auto simp: rt_schedule_def Let_def)
qed (auto simp: rt_schedule_def)

text \<open>What a rescheduling changes, for the components above: the processor may go to another thread;
  ready and running threads trade places; nothing else.\<close>

definition runnable :: "kernel \<Rightarrow> tid \<Rightarrow> bool" where
  "runnable k t \<longleftrightarrow> thread_stat k t = RT_THREAD_READY \<or> thread_stat k t = RT_THREAD_RUNNING"

definition resched :: "kernel \<Rightarrow> kernel \<Rightarrow> bool" where
  "resched k k' \<longleftrightarrow>
     sched_inv k' \<and> ipc_same k k' \<and> timers_same k k' \<and> only_stat k k' \<and>
     (\<forall>l. (\<forall>p. l \<noteq> LReady p) \<longrightarrow> tlists k' l = tlists k l) \<and>
     (\<forall>t. runnable k' t = runnable k t) \<and>
     (\<forall>t. \<not> runnable k t \<longrightarrow> thread_stat k' t = thread_stat k t) \<and>
     (rt_current_thread k' = None \<longleftrightarrow> rt_current_thread k = None)"

lemma reschedD:
  assumes "resched k k'"
  shows "sched_inv k'" "ipc_same k k'" "timers_same k k'" "only_stat k k'"
    "(\<And>p. l \<noteq> LReady p) \<Longrightarrow> tlists k' l = tlists k l"
    "runnable k' t = runnable k t" "\<not> runnable k t \<Longrightarrow> thread_stat k' t = thread_stat k t"
    "rt_current_thread k' = None \<longleftrightarrow> rt_current_thread k = None"
  using assms by (simp_all add: resched_def)

lemma resched_suspended:
  "resched k k' \<Longrightarrow> thread_stat k' t = RT_THREAD_SUSPEND \<longleftrightarrow> thread_stat k t = RT_THREAD_SUSPEND"
  using reschedD(6,7) [of k k' t] by (auto simp: runnable_def)

lemma resched_refl: "sched_inv k \<Longrightarrow> resched k k"
  by (simp add: resched_def)

lemma resched_trans [trans]: "resched k k' \<Longrightarrow> resched k' k'' \<Longrightarrow> resched k k''"
  unfolding resched_def by (auto intro: ipc_same_trans timers_same_trans only_stat_trans)

lemma rt_schedule_live:
  assumes s: "rt_schedule k = Some k'" and i: "sched_inv k" and t: "runnable k t"
  shows "runnable k' t"
  using s i
proof (cases rule: rt_schedule_cases)
  case Idle
  with t show ?thesis by simp
next
  case (Keep cur to hp)
  with t show ?thesis by (auto simp: runnable_def thread_stat_def)
next
  case (Switch cur to hp ins)
  with t show ?thesis
    by (auto simp: runnable_def thread_stat_def switch_to_threads clear_yield_def)
qed

lemma rt_schedule_resched:
  assumes s: "rt_schedule k = Some k'" and i: "sched_inv k"
  shows "resched k k'"
proof -
  have "rt_current_thread k' = None \<longleftrightarrow> rt_current_thread k = None"
    using s i by (cases rule: rt_schedule_cases) (auto simp: switch_to_threads)
  moreover have "thread_stat k' t = thread_stat k t" if "\<not> runnable k t" for t
    using rt_schedule_stat [OF s i] that by (simp add: runnable_def)
  moreover have "runnable k' t = runnable k t" for t
    using rt_schedule_live [OF s i, of t] calculation(2) [of t]
    by (cases "runnable k t") (simp_all add: runnable_def)
  ultimately show ?thesis
    using rt_schedule_frames [OF s i] rt_schedule_wait_lists [OF s i] rt_schedule_inv [OF i s]
    by (simp add: resched_def)
qed

lemma rt_schedule_step:
  assumes "sched_inv k" "rt_current_thread k \<noteq> None"
  obtains k' where "rt_schedule k = Some k'" "resched k k'"
  using rt_schedule_total [OF assms] rt_schedule_resched [OF _ assms(1)] by blast

lemma sched_inv_lock [simp]: "sched_inv (k\<lparr>rt_scheduler_lock_nest := n\<rparr>) = sched_inv k"
  by (simp add: sched_inv_def current_ok_def thread_stat_def
      sched_core_cong [of "k\<lparr>rt_scheduler_lock_nest := n\<rparr>" k])

lemma resched_lock: "sched_inv k \<Longrightarrow> resched k (k\<lparr>rt_scheduler_lock_nest := n\<rparr>)"
  by (simp add: resched_def runnable_def thread_stat_def)

lemma rt_enter_critical_resched: "sched_inv k \<Longrightarrow> resched k (rt_enter_critical k)"
  by (simp add: rt_enter_critical_def resched_lock)

lemma rt_exit_critical_step:
  assumes "sched_inv k"
  obtains k' where "rt_exit_critical k = Some k'" "resched k k'"
proof -
  let ?k = "k\<lparr>rt_scheduler_lock_nest := 0\<rparr>"
  have "\<exists>k'. rt_schedule ?k = Some k' \<and> resched k k'" if c: "rt_current_thread k \<noteq> None"
  proof -
    have "sched_inv ?k" "rt_current_thread ?k \<noteq> None" using assms c by simp_all
    then obtain k' where "rt_schedule ?k = Some k'" "resched ?k k'" by (rule rt_schedule_step)
    with resched_trans [OF resched_lock [OF assms]] show ?thesis by blast
  qed
  then have "\<exists>k'. rt_exit_critical k = Some k' \<and> resched k k'"
    using resched_lock [OF assms] by (auto simp: rt_exit_critical_def Let_def split: if_splits)
  with that show ?thesis by blast
qed

lemma critical_section_step:
  assumes "sched_inv k"
  obtains k' where "rt_exit_critical (rt_enter_critical k) = Some k'" "resched k k'"
  using rt_exit_critical_step [of "rt_enter_critical k"] rt_enter_critical_resched [OF assms]
  by (metis reschedD(1) resched_trans)

lemma current_runs_highest:
  assumes s: "rt_schedule k = Some k'" and i: "sched_inv k"
    and l: "rt_scheduler_lock_nest k = 0"
    and g: "rt_thread_ready_priority_group k \<noteq> 0"
  obtains c where "rt_current_thread k' = Some c" "thread_stat k' c = RT_THREAD_RUNNING"
    "\<And>t. thread_stat k' t = RT_THREAD_READY \<Longrightarrow> prio k' c \<le> prio k' t"
proof -
  from i have c: "sched_core {} k" and ok: "current_ok k" by (auto simp: sched_inv_def)
  have p: "prio k' t = prio k t" for t
    using only_statD(7) [OF rt_schedule_frames(3) [OF s i]] by blast
  obtain to hp where h: "get_highest_priority_thread k = Some (to, hp)" "prio k to = hp"
    and best: "\<And>u. thread_stat k u = RT_THREAD_READY \<Longrightarrow> hp \<le> prio k u"
    using get_highest_some [OF c g] by (metis empty_iff)
  show ?thesis
    using s i
  proof (cases rule: rt_schedule_cases)
    case Idle
    with l g show ?thesis by simp
  next
    case (Keep cur to' hp')
    with h best show ?thesis
      by (intro that [of cur]) (auto simp: p thread_stat_def keeps_running_def split: if_splits
          intro: order_trans [OF less_imp_le])
  next
    case (Switch cur to' hp' ins)
    have "prio k to' \<le> prio k t" if "thread_stat k' t = RT_THREAD_READY" for t
    proof (cases "t = cur \<and> ins")
      case True
      with Switch show ?thesis by (auto simp: keeps_running_def)
    next
      case False
      with Switch that have "thread_stat k t = RT_THREAD_READY"
        by (auto simp: thread_stat_def switch_to_threads clear_yield_def split: if_splits)
      with best Switch h show ?thesis by auto
    qed
    moreover from Switch have "rt_current_thread k' = Some to'" "thread_stat k' to' = 3"
      by (simp_all add: thread_stat_def switch_to_threads)
    ultimately show ?thesis by (intro that [of to']) (simp_all add: p)
  qed
qed

lemma ready_group:
  assumes "sched_core {} k" "thread_stat k r = RT_THREAD_READY"
  shows "rt_thread_ready_priority_group k \<noteq> 0"
proof -
  have "mask_ok k r" using sched_core_mask [OF assms(1), of r] assms(2) by (simp add: live_def)
  then have "bit (rt_thread_ready_priority_group k) (prio k r)"
    using sched_core_bit [OF assms(1), of "prio k r"] sched_core_ready [OF assms(1), of r] assms(2)
    by (auto simp: mask_ok_def)
  then show ?thesis by auto
qed

text \<open>The thread on the processor is the right one: it is RUNNING and at least as urgent as every READY thread.
  A rescheduling with the scheduler unlocked establishes this as soon as some thread can run.\<close>

definition dispatched :: "kernel \<Rightarrow> bool" where
  "dispatched k \<longleftrightarrow>
     (\<exists>c. rt_current_thread k = Some c \<and> thread_stat k c = RT_THREAD_RUNNING \<and>
        (\<forall>t. thread_stat k t = RT_THREAD_READY \<longrightarrow> prio k c \<le> prio k t))"

lemma dispatched_cong:
  assumes "rt_current_thread k' = rt_current_thread k" "\<And>t. thread_stat k' t = thread_stat k t" "\<And>t. prio k' t = prio k t"
  shows "dispatched k' = dispatched k"
  using assms by (simp add: dispatched_def)

lemma rt_schedule_dispatched:
  assumes s: "rt_schedule k = Some k'" and i: "sched_inv k" and l: "rt_scheduler_lock_nest k = 0" and u: "runnable k u"
  shows "dispatched k'"
proof (cases "rt_thread_ready_priority_group k = 0")
  case False
  from current_runs_highest [OF s i l this] show ?thesis by (auto simp: dispatched_def)
next
  case True
  from i have c: "sched_core {} k" and ok: "current_ok k" by (auto simp: sched_inv_def)
  have nr: "thread_stat k t \<noteq> RT_THREAD_READY" for t using ready_group [OF c, of t] True by blast
  then have "thread_stat k u = RT_THREAD_RUNNING" using u by (simp add: runnable_def)
  moreover have "k' = k" using s True by (simp add: rt_schedule_def Let_def split: if_splits)
  ultimately show ?thesis using current_ok_running [OF ok, of u] nr by (auto simp: dispatched_def)
qed

lemma rt_schedule_runs_best:
  assumes "sched_inv k" "rt_current_thread k \<noteq> None" "rt_scheduler_lock_nest k = 0"
    and "thread_stat k r = RT_THREAD_READY" "rt_schedule k = Some k'"
  shows "\<exists>c. rt_current_thread k' = Some c \<and> (c \<noteq> r \<longrightarrow> prio k' c \<le> prio k' r)"
proof -
  have "rt_thread_ready_priority_group k \<noteq> 0" using ready_group assms(1,4) by (auto simp: sched_inv_def)
  then obtain c where c: "rt_current_thread k' = Some c" "thread_stat k' c = RT_THREAD_RUNNING"
    "\<And>t. thread_stat k' t = RT_THREAD_READY \<Longrightarrow> prio k' c \<le> prio k' t"
    using current_runs_highest [OF assms(5,1,3)] by blast
  have "runnable k' r" using rt_schedule_live [OF assms(5,1), of r] assms(4) by (simp add: runnable_def)
  moreover have "c = r" if "thread_stat k' r = RT_THREAD_RUNNING"
    using that c(1) rt_schedule_inv [OF assms(1,5)] by (auto simp: sched_inv_def dest: current_ok_running)
  ultimately show ?thesis using c by (auto simp: runnable_def)
qed

text \<open>C3: with the scheduler unlocked and some thread ready, \<^verbatim>\<open>rt_schedule\<close> returns, keeps the
  scheduling invariant, and leaves on the processor a thread that is RUNNING and at least as urgent
  (its priority number is not larger) as every READY thread.\<close>

theorem rt_schedule_runs_highest:
  assumes "sched_inv k" "rt_current_thread k \<noteq> None" "rt_scheduler_lock_nest k = 0"
    and "thread_stat k r = RT_THREAD_READY"
  shows "\<exists>k' c. rt_schedule k = Some k' \<and> sched_inv k' \<and> rt_current_thread k' = Some c \<and>
    thread_stat k' c = RT_THREAD_RUNNING \<and>
    (\<forall>t. thread_stat k' t = RT_THREAD_READY \<longrightarrow> prio k' c \<le> prio k' t)"
proof -
  obtain k' where s: "rt_schedule k = Some k'" using rt_schedule_total [OF assms(1,2)] by blast
  have "rt_thread_ready_priority_group k \<noteq> 0" using ready_group assms(1,4) by (auto simp: sched_inv_def)
  from current_runs_highest [OF s assms(1,3) this] show ?thesis
    using s rt_schedule_inv [OF assms(1) s] by metis
qed

lemma demo_kernel_inv: "sched_inv demo_kernel"
proof -
  have g: "rt_thread_ready_priority_group demo_kernel = push_bit 10 1 OR push_bit 20 1 OR push_bit 31 1"
    unfolding demo_kernel_def by simp
  have "sched_core {} demo_kernel"
  proof (rule sched_coreI)
    show "bit (rt_thread_ready_priority_group demo_kernel) p \<longleftrightarrow> tlists demo_kernel (LReady p) \<noteq> []"
      for p
      unfolding g bit_or_iff bit_push_bit_1 by (simp add: demo_kernel_def zero_kernel_def)
  qed (auto simp: demo_kernel_def zero_kernel_def zero_thread_def demo_thread_def thread_stat_def
        prio_def list_state_def list_stat_def live_def mask_ok_def split: if_splits)
  moreover have "current_ok demo_kernel"
    by (rule current_okI)
      (auto simp: demo_kernel_def zero_kernel_def zero_thread_def demo_thread_def thread_stat_def
        split: if_splits)
  ultimately show ?thesis by (simp add: sched_inv_def)
qed

lemmas demo_simps = demo_kernel_def zero_kernel_def zero_thread_def demo_thread_def thread_stat_def
  prio_def

theorem rt_schedule_runs_highest_witness:
  "\<exists>k' c. rt_schedule demo_kernel = Some k' \<and> rt_current_thread k' = Some c \<and>
     thread_stat k' c = RT_THREAD_RUNNING"
  using rt_schedule_runs_highest [of demo_kernel 2] demo_kernel_inv
  by (auto simp: demo_simps)

text \<open>Round robin. When the running thread has been told to yield (its time slice is used up)
  and the most urgent ready threads have its own priority, \<^verbatim>\<open>rt_schedule\<close> gives the processor to the
  head of that ready list, puts the preempted thread at the tail and clears its yield mark.\<close>

theorem rt_schedule_round_robin:
  assumes i: "sched_inv k" and l: "rt_scheduler_lock_nest k = 0"
    and cur: "rt_current_thread k = Some c" "thread_stat k c = RT_THREAD_RUNNING"
      "th_stat (threads k c) AND RT_THREAD_STAT_YIELD \<noteq> 0"
    and q: "tlists k (LReady (prio k c)) = t # ts"
    and best: "\<forall>u. thread_stat k u = RT_THREAD_READY \<longrightarrow> prio k c \<le> prio k u"
  shows "\<exists>k'. rt_schedule k = Some k' \<and> rt_current_thread k' = Some t \<and>
    tlists k' (LReady (prio k c)) = ts @ [c] \<and>
    th_stat (threads k' c) AND RT_THREAD_STAT_YIELD = 0"
proof -
  from i have co: "sched_core {} k" by (simp add: sched_inv_def)
  have t: "thread_stat k t = RT_THREAD_READY" "prio k t = prio k c"
    using sched_core_list_state [OF co, of t "LReady (prio k c)"] q
    by (simp_all add: list_state_def list_stat_def)
  have "prio k c < 32" using sched_core_mask [OF co, of c] cur by (simp add: live_def mask_ok_def)
  then have g: "rt_thread_ready_priority_group k \<noteq> 0" using sched_core_bit [OF co] q by auto
  from get_highest_some [OF co g] obtain to hp where h: "get_highest_priority_thread k = Some (to, hp)"
    "to \<in> set (tlists k (LReady hp))" "thread_stat k to = RT_THREAD_READY" "prio k to = hp"
    "\<And>u. thread_stat k u = RT_THREAD_READY \<Longrightarrow> hp \<le> prio k u"
    by (metis empty_iff)
  have "hp = prio k c" using h(3-5) t best by (metis le_antisym)
  with h(1) q have to: "to = t" "hp = prio k c"
    by (auto simp: get_highest_priority_thread_def Let_def split: list.splits)
  have ne: "t \<noteq> c" using t cur by auto
  have d: "t \<notin> set ts" using sched_core_distinct [OF co, of "LReady (prio k c)"] q by simp
  have y: "(s AND - 9) AND (8 :: u8) = 0" for s by (simp add: and.assoc)
  show ?thesis
    using l g h(1) cur ne d q t to set_stat_yield [of 1] y
    by (auto simp: rt_schedule_def keeps_running_def Let_def rt_schedule_insert_thread_def
        prio_def thread_stat_def)
qed

definition demo_yield_kernel :: kernel where
  "demo_yield_kernel = upd_thread 1 (\<lambda>th. th\<lparr>th_stat := th_stat th OR RT_THREAD_STAT_YIELD\<rparr>) demo_kernel"

lemma demo_yield_inv: "sched_inv demo_yield_kernel"
  using demo_kernel_inv
  by (auto simp: sched_inv_def demo_yield_kernel_def current_ok_def thread_stat_def
      intro!: sched_core_upd_same split: if_splits)

theorem rt_schedule_round_robin_witness:
  "\<exists>k'. rt_schedule demo_yield_kernel = Some k' \<and> rt_current_thread k' = Some 2 \<and>
     tlists k' (LReady 10) = [1]"
proof -
  have "\<forall>u. thread_stat demo_yield_kernel u = RT_THREAD_READY \<longrightarrow>
      prio demo_yield_kernel 1 \<le> prio demo_yield_kernel u"
    by (auto simp: demo_yield_kernel_def demo_simps split: if_splits)
  moreover have "prio demo_yield_kernel 1 = 10" "thread_stat demo_yield_kernel 1 = 3"
    "rt_scheduler_lock_nest demo_yield_kernel = 0" "rt_current_thread demo_yield_kernel = Some 1"
    "th_stat (threads demo_yield_kernel 1) AND 8 \<noteq> 0" "tlists demo_yield_kernel (LReady 10) = [2]"
    by (simp_all add: demo_yield_kernel_def demo_simps)
  ultimately show ?thesis
    using rt_schedule_round_robin [of demo_yield_kernel 1 2 "[]"] demo_yield_inv by auto
qed

text \<open>The scheduler lock nests. Leaving a critical section that was entered from inside another
  one restores the state before, with no rescheduling; leaving the outermost one reschedules when the
  system is running. While the lock is held \<^verbatim>\<open>rt_schedule\<close> changes nothing.\<close>

theorem critical_section_nests:
  assumes "0 \<le> sint (rt_scheduler_lock_nest k)" "sint (rt_scheduler_lock_nest k) < 2 ^ 15 - 1"
  shows "rt_schedule (rt_enter_critical k) = Some (rt_enter_critical k) \<and>
    rt_exit_critical (rt_enter_critical k) =
      (if rt_scheduler_lock_nest k = 0 \<and> rt_current_thread k \<noteq> None then rt_schedule k else Some k)"
proof -
  let ?n = "rt_scheduler_lock_nest k"
  have "sint (?n + 1) = sint ?n + 1"
    using assms by (simp add: sint_word_ariths(1) signed_take_bit_int_eq_self)
  with assms have "?n + 1 \<noteq> 0" by (metis add_nonneg_pos less_irrefl sint_0 zero_less_one)
  moreover have "sint ?n \<le> 0 \<longleftrightarrow> ?n = 0"
    using assms by (metis order_antisym order_refl sint_0 signed_word_eqI)
  moreover have "rt_schedule (rt_enter_critical k) = Some (rt_enter_critical k)" if "?n + 1 \<noteq> 0"
    using that by (simp add: rt_schedule_def rt_enter_critical_def)
  moreover have "rt_schedule (k\<lparr>rt_scheduler_lock_nest := 0\<rparr>) = rt_schedule k" if "?n = 0"
    by (rule arg_cong [of _ _ rt_schedule]) (use that in \<open>cases k, simp\<close>)
  ultimately show ?thesis
    by (auto simp: rt_enter_critical_def rt_exit_critical_def Let_def)
qed

theorem critical_section_nests_witness:
  "rt_exit_critical (rt_enter_critical (rt_enter_critical demo_kernel)) =
     Some (rt_enter_critical demo_kernel)"
  using critical_section_nests [of "rt_enter_critical demo_kernel"]
  by (simp add: rt_enter_critical_def demo_simps)

lemma rt_system_scheduler_init_inv:
  assumes "\<And>l. (\<And>p. l \<noteq> LReady p) \<Longrightarrow> tlists k l = []" "\<And>p. 32 \<le> p \<Longrightarrow> tlists k (LReady p) = []"
    "\<And>t. thread_stat k t = RT_THREAD_INIT" "rt_current_thread k = None"
  shows "sched_inv (rt_system_scheduler_init k)"
proof -
  let ?k = "rt_system_scheduler_init k"
  have "tlists ?k l = []" for l
    using assms(1,2) by (cases l) (auto simp: rt_system_scheduler_init_def)
  moreover have "thread_stat ?k t = 0" for t
    using assms(3) [of t] by (simp add: rt_system_scheduler_init_def thread_stat_def)
  ultimately show ?thesis
    using assms(4)
    by (auto simp: sched_inv_def live_def current_ok_def rt_system_scheduler_init_def intro!: sched_coreI)
qed

text \<open>\<^verbatim>\<open>rt_system_scheduler_start\<close> hands the processor to a ready thread of the best priority and
  establishes the scheduling invariant of the running system.\<close>

theorem rt_system_scheduler_start_ok:
  assumes i: "sched_inv k" and n: "rt_current_thread k = None"
    and r: "thread_stat k r = RT_THREAD_READY"
  shows "\<exists>k' c. rt_system_scheduler_start k = Some k' \<and> sched_inv k' \<and>
    rt_current_thread k' = Some c \<and> thread_stat k' c = RT_THREAD_RUNNING \<and> prio k' c \<le> prio k' r"
proof -
  from i have co: "sched_core {} k" and ok: "current_ok k" by (auto simp: sched_inv_def)
  have m: "mask_ok k r" using sched_core_mask [OF co, of r] r by (simp add: live_def)
  have g: "rt_thread_ready_priority_group k \<noteq> 0"
    using sched_core_bit [OF co, of "prio k r"] sched_core_ready [OF co, of r] r m
    by (auto simp: mask_ok_def)
  from get_highest_some [OF co g] obtain to hp where h: "get_highest_priority_thread k = Some (to, hp)"
    "thread_stat k to = RT_THREAD_READY" "prio k to = hp"
    "\<And>u. thread_stat k u = RT_THREAD_READY \<Longrightarrow> hp \<le> prio k u"
    by (metis empty_iff)
  let ?k1 = "k\<lparr>rt_current_thread := Some to\<rparr>"
  let ?f = "\<lambda>th :: rt_thread. th\<lparr>th_stat := RT_THREAD_RUNNING\<rparr>"
  let ?k' = "upd_thread to ?f (rt_schedule_remove_thread to ?k1)"
  have m: "mask_ok k to" using sched_core_mask [OF co, of to] h by (simp add: live_def)
  then have m1: "mask_ok ?k1 to" by (simp add: mask_ok_def prio_def)
  have c1: "sched_core {} ?k1" using co by (subst sched_core_cong [of _ k]) simp_all
  have "sched_core {to} ?k'" by (intro sched_core_upd_off sched_core_remove [OF c1 m1]) simp
  then have "sched_core {} ?k'"
    by (rule sched_core_put_back) (use m in \<open>simp_all add: mask_ok_def prio_def\<close>)
  moreover have "current_ok ?k'"
    using ok n by (intro current_okI) (auto simp: thread_stat_def current_ok_def split: if_splits)
  moreover have "rt_system_scheduler_start k = Some ?k'"
    using h by (simp add: rt_system_scheduler_start_def Let_def)
  ultimately show ?thesis
    using h r by (auto simp: sched_inv_def prio_def)
qed

definition demo_boot_kernel :: kernel where
  "demo_boot_kernel = zero_kernel\<lparr>threads := (\<lambda>_. zero_thread)(0 := demo_thread 31 1),
     tlists := (\<lambda>_. [])(LReady 31 := [0]), rt_thread_ready_priority_group := push_bit 31 1\<rparr>"

lemma demo_boot_inv: "sched_inv demo_boot_kernel"
proof -
  have g: "rt_thread_ready_priority_group demo_boot_kernel = push_bit 31 1"
    by (simp add: demo_boot_kernel_def)
  have "sched_core {} demo_boot_kernel"
  proof (rule sched_coreI)
    show "bit (rt_thread_ready_priority_group demo_boot_kernel) p \<longleftrightarrow>
        tlists demo_boot_kernel (LReady p) \<noteq> []" for p
      unfolding g bit_push_bit_1 by (simp add: demo_boot_kernel_def zero_kernel_def)
  qed (auto simp: demo_boot_kernel_def demo_simps list_state_def list_stat_def live_def mask_ok_def
      split: if_splits)
  then show ?thesis
    by (auto simp: sched_inv_def demo_boot_kernel_def demo_simps intro!: current_okI split: if_splits)
qed

theorem rt_system_scheduler_start_witness:
  "\<exists>k' c. rt_system_scheduler_start demo_boot_kernel = Some k' \<and> sched_inv k' \<and>
     rt_current_thread k' = Some c"
  using rt_system_scheduler_start_ok [of demo_boot_kernel 0] demo_boot_inv
  by (auto simp: demo_boot_kernel_def demo_simps)

end
