(* ===== verification/Kobject.thy ===== *)
theory Kobject
  imports Scheduler
begin

text \<open>
  The object system (\<^verbatim>\<open>src/object.c\<close>): the container with one object list for each class, the
  initialisation, detaching, allocation and deletion of objects, and the search by name.

  The table \<^verbatim>\<open>rt_object_container\<close> has the classes this configuration enables; the field \<open>object_list\<close> of
  the kernel state is the list of each entry. \<^verbatim>\<open>RT_KERNEL_MALLOC\<close> is a parameter: the address it
  returns, or \<open>None\<close>. A failed lookup of the class is \<^verbatim>\<open>RT_ASSERT(information != RT_NULL)\<close>.
\<close>

section \<open>Operations\<close>

definition rt_debug_not_in_interrupt :: "kernel \<Rightarrow> unit option" where
  "rt_debug_not_in_interrupt k = rt_assert (rt_interrupt_nest k = 0)"

definition rt_debug_in_thread_context :: "kernel \<Rightarrow> unit option" where
  "rt_debug_in_thread_context k =
     rt_assert (rt_current_thread k \<noteq> None \<and> rt_interrupt_nest k = 0)"

definition rt_object_container :: "u8 list" where
  "rt_object_container =
     [RT_Object_Class_Thread, RT_Object_Class_Semaphore, RT_Object_Class_Mutex, RT_Object_Class_Event,
      RT_Object_Class_MailBox, RT_Object_Class_MessageQueue, RT_Object_Class_MemPool,
      RT_Object_Class_Device, RT_Object_Class_Timer]"

definition rt_object_get_information :: "u8 \<Rightarrow> u8 option" where
  "rt_object_get_information ty = find (\<lambda>c. c = ty) rt_object_container"

text \<open>\<^verbatim>\<open>rt_strncpy\<close> into a name field of \<^verbatim>\<open>RT_NAME_MAX\<close> characters.\<close>

definition rt_strncpy_name :: "string \<Rightarrow> string" where
  "rt_strncpy_name name = take RT_NAME_MAX name"

definition object_list_push :: "u8 \<Rightarrow> oref \<Rightarrow> kernel \<Rightarrow> kernel" where
  "object_list_push c r k = k\<lparr>object_list := (object_list k)(c := r # object_list k c)\<rparr>"

definition object_list_remove :: "oref \<Rightarrow> kernel \<Rightarrow> kernel" where
  "object_list_remove r k = k\<lparr>object_list := (\<lambda>c. removeAll r (object_list k c))\<rparr>"

definition rt_object_init :: "oref \<Rightarrow> u8 \<Rightarrow> string \<Rightarrow> kernel \<Rightarrow> kernel option" where
  "rt_object_init r ty name k = do {
     information \<leftarrow> rt_object_get_information ty;
     let k = rt_enter_critical k;
     rt_assert (\<forall>obj \<in> set (object_list k information). obj \<noteq> r);
     k \<leftarrow> rt_exit_critical k;
     let k = upd_obj r (\<lambda>ob. ob\<lparr>obj_type := ty OR RT_Object_Class_Static,
                              obj_name := rt_strncpy_name name\<rparr>) k;
     Some (object_list_push information r k)
   }"

definition rt_object_detach :: "oref \<Rightarrow> kernel \<Rightarrow> kernel" where
  "rt_object_detach r k = object_list_remove r (upd_obj r (\<lambda>ob. ob\<lparr>obj_type := 0\<rparr>) k)"

text \<open>\<^verbatim>\<open>rt_memset(object, 0, information->object_size)\<close> on the structure at the address \<open>r\<close>.\<close>

definition zero_object :: "oref \<Rightarrow> kernel \<Rightarrow> kernel" where
  "zero_object r k =
     upd_obj r (\<lambda>_. objs zero_kernel r)
       (case r of
          OThread t \<Rightarrow> upd_timer (Thread_Timer t) (\<lambda>_. timers zero_kernel (Thread_Timer t))
                        (upd_thread t (\<lambda>_. zero_thread) k)
        | OSem s \<Rightarrow> k\<lparr>sems := (sems k)(s := sems zero_kernel s), tlists := (tlists k)(LSem s := [])\<rparr>
        | OMutex m \<Rightarrow> k\<lparr>mutexes := (mutexes k)(m := mutexes zero_kernel m), tlists := (tlists k)(LMutex m := [])\<rparr>
        | OEvent e \<Rightarrow> k\<lparr>events := (events k)(e := events zero_kernel e), tlists := (tlists k)(LEvent e := [])\<rparr>
        | OMb b \<Rightarrow> k\<lparr>mailboxes := (mailboxes k)(b := mailboxes zero_kernel b),
                     tlists := (tlists k)(LMb b := [], LMbSender b := [])\<rparr>
        | OMq q \<Rightarrow> k\<lparr>msgqueues := (msgqueues k)(q := msgqueues zero_kernel q),
                     tlists := (tlists k)(LMq q := [], LMqSender q := [])\<rparr>
        | OMp p \<Rightarrow> k\<lparr>mempools := (mempools k)(p := mempools zero_kernel p), tlists := (tlists k)(LMp p := [])\<rparr>
        | OTimer m \<Rightarrow> upd_timer m (\<lambda>_. timers zero_kernel m) k
        | ODevice d \<Rightarrow>
            k\<lparr>devices := (devices k)(d := (devices zero_kernel d)\<lparr>dv_wait_queue := dv_wait_queue (devices k d)\<rparr>),
              wqueues := (wqueues k)(dv_wait_queue (devices k d) := wqueues zero_kernel 0)\<rparr>)"

definition rt_object_allocate :: "u8 \<Rightarrow> string \<Rightarrow> oref option \<Rightarrow> kernel \<Rightarrow> (oref option \<times> kernel) option" where
  "rt_object_allocate ty name mem k = do {
     rt_debug_not_in_interrupt k;
     information \<leftarrow> rt_object_get_information ty;
     (case mem of
        None \<Rightarrow> Some (None, k)
      | Some r \<Rightarrow>
          let k = zero_object r k;
              k = upd_obj r (\<lambda>ob. ob\<lparr>obj_type := ty, obj_flag := 0, obj_name := rt_strncpy_name name\<rparr>) k
          in Some (Some r, object_list_push information r k))
   }"

text \<open>The state after \<^verbatim>\<open>RT_KERNEL_FREE\<close>: the structure is left as it is and no longer used.\<close>

definition rt_object_delete :: "oref \<Rightarrow> kernel \<Rightarrow> kernel option" where
  "rt_object_delete r k = do {
     rt_assert (obj_type (objs k r) AND RT_Object_Class_Static = 0);
     Some (object_list_remove r (upd_obj r (\<lambda>ob. ob\<lparr>obj_type := 0\<rparr>) k))
   }"

definition rt_object_is_systemobject :: "kernel \<Rightarrow> oref \<Rightarrow> bool" where
  "rt_object_is_systemobject k r = (obj_type (objs k r) AND RT_Object_Class_Static \<noteq> 0)"

definition rt_object_get_type :: "kernel \<Rightarrow> oref \<Rightarrow> u8" where
  "rt_object_get_type k r = obj_type (objs k r) AND NOT RT_Object_Class_Static"

definition rt_object_find :: "string \<Rightarrow> u8 \<Rightarrow> kernel \<Rightarrow> (oref option \<times> kernel) option" where
  "rt_object_find name ty k =
     (if RT_Object_Class_Unknown < ty then Some (None, k)
      else do {
        rt_debug_not_in_interrupt k;
        let k = rt_enter_critical k;
        information \<leftarrow> rt_object_get_information ty;
        let found = find (\<lambda>r. take RT_NAME_MAX (obj_name (objs k r)) = take RT_NAME_MAX name)
                      (object_list k information);
        k \<leftarrow> rt_exit_critical k;
        Some (found, k)
      })"

section \<open>The object invariant\<close>

text \<open>An object is on at most one object list, once, and that list is the one of its class.\<close>

definition obj_inv :: "kernel \<Rightarrow> bool" where
  "obj_inv k \<longleftrightarrow>
     (\<forall>c. distinct (object_list k c)) \<and>
     (\<forall>c r. r \<in> set (object_list k c) \<longrightarrow> rt_object_get_type k r = c \<and> c \<noteq> 0)"

lemma upd_obj_frame [frame_simps, simp]:
  "tlists (upd_obj r f k) = tlists k"
  "threads (upd_obj r f k) = threads k"
  "rt_thread_ready_priority_group (upd_obj r f k) = rt_thread_ready_priority_group k"
  "rt_current_thread (upd_obj r f k) = rt_current_thread k"
  "rt_interrupt_nest (upd_obj r f k) = rt_interrupt_nest k"
  "rt_timer_list (upd_obj r f k) = rt_timer_list k"
  "rt_soft_timer_list (upd_obj r f k) = rt_soft_timer_list k"
  "timers (upd_obj r f k) = timers k"
  "object_list (upd_obj r f k) = object_list k"
  "objs (upd_obj r f k) = (objs k)(r := f (objs k r))"
  by (simp_all add: upd_obj_def)

lemma object_list_frame [frame_simps, simp]:
  "tlists (object_list_push c r k) = tlists k"
  "threads (object_list_push c r k) = threads k"
  "rt_thread_ready_priority_group (object_list_push c r k) = rt_thread_ready_priority_group k"
  "rt_current_thread (object_list_push c r k) = rt_current_thread k"
  "objs (object_list_push c r k) = objs k"
  "object_list (object_list_push c r k) = (object_list k)(c := r # object_list k c)"
  "tlists (object_list_remove r k) = tlists k"
  "threads (object_list_remove r k) = threads k"
  "rt_thread_ready_priority_group (object_list_remove r k) = rt_thread_ready_priority_group k"
  "rt_current_thread (object_list_remove r k) = rt_current_thread k"
  "objs (object_list_remove r k) = objs k"
  "object_list (object_list_remove r k) = (\<lambda>c. removeAll r (object_list k c))"
  by (simp_all add: object_list_push_def object_list_remove_def)

lemma sched_inv_cong:
  assumes "threads k' = threads k" "tlists k' = tlists k"
    "rt_thread_ready_priority_group k' = rt_thread_ready_priority_group k"
    "rt_current_thread k' = rt_current_thread k"
  shows "sched_inv k' = sched_inv k"
  using assms
  by (simp add: sched_inv_def current_ok_def sched_core_cong [OF assms(1-3)] thread_reads_cong [OF assms(1)])

lemma sched_inv_record_writes [simp]:
  "sched_inv (k\<lparr>objs := x0\<rparr>) = sched_inv k"
  "sched_inv (k\<lparr>object_list := x1\<rparr>) = sched_inv k"
  "sched_inv (k\<lparr>timers := x2\<rparr>) = sched_inv k"
  "sched_inv (k\<lparr>sems := x3\<rparr>) = sched_inv k"
  "sched_inv (k\<lparr>mutexes := x4\<rparr>) = sched_inv k"
  "sched_inv (k\<lparr>events := x5\<rparr>) = sched_inv k"
  "sched_inv (k\<lparr>mailboxes := x6\<rparr>) = sched_inv k"
  "sched_inv (k\<lparr>msgqueues := x7\<rparr>) = sched_inv k"
  "sched_inv (k\<lparr>mempools := x8\<rparr>) = sched_inv k"
  "sched_inv (k\<lparr>rt_timer_list := x9\<rparr>) = sched_inv k"
  "sched_inv (k\<lparr>rt_soft_timer_list := x10\<rparr>) = sched_inv k"
  "sched_inv (k\<lparr>timer_thread := x11\<rparr>) = sched_inv k"
  "sched_inv (k\<lparr>rt_tick := x12\<rparr>) = sched_inv k"
  "sched_inv (k\<lparr>rt_interrupt_nest := x13\<rparr>) = sched_inv k"
  "sched_inv (k\<lparr>rt_current_priority := x14\<rparr>) = sched_inv k"
  by (rule sched_inv_cong; simp)+

lemma obj_sched_inv [simp]:
  "sched_inv (upd_obj r f k) = sched_inv k"
  "sched_inv (object_list_push c r k) = sched_inv k"
  "sched_inv (object_list_remove r k) = sched_inv k"
  by (rule sched_inv_cong; simp)+

lemma get_information_iff [simp]:
  "rt_object_get_information ty = Some c \<longleftrightarrow> c = ty \<and> ty \<in> set rt_object_container"
  by (auto simp: rt_object_get_information_def rt_object_container_def)

lemma get_information_eq: "ty \<in> set rt_object_container \<Longrightarrow> rt_object_get_information ty = Some ty"
  by simp

lemma get_information_none: "ty \<notin> set rt_object_container \<Longrightarrow> rt_object_get_information ty = None"
  by (cases "rt_object_get_information ty") simp_all

lemma class_static [simp]:
  "(ty OR RT_Object_Class_Static) AND - 129 = ty AND - 129"
  "(ty OR RT_Object_Class_Static) AND RT_Object_Class_Static = RT_Object_Class_Static"
  by (simp_all add: bit.conj_disj_distrib2)

lemma container_class:
  assumes "ty \<in> set rt_object_container"
  shows "ty AND NOT RT_Object_Class_Static = ty" "ty \<noteq> 0" "ty \<le> RT_Object_Class_Unknown"
  using assms by (auto simp: rt_object_container_def)

lemma obj_invD:
  assumes "obj_inv k"
  shows "distinct (object_list k c)" "r \<in> set (object_list k c) \<Longrightarrow> rt_object_get_type k r = c"
    "r \<in> set (object_list k c) \<Longrightarrow> c \<noteq> 0"
  using assms by (auto simp: obj_inv_def)

lemma obj_inv_ipc_same: "ipc_same k k' \<Longrightarrow> obj_inv k' = obj_inv k"
  by (simp add: obj_inv_def rt_object_get_type_def ipc_sameD)

lemma obj_inv_attach:
  assumes "obj_inv k" "ty AND NOT RT_Object_Class_Static = c" "c \<noteq> 0" "\<And>c. r \<notin> set (object_list k c)"
    and "obj_type (f (objs k r)) AND NOT RT_Object_Class_Static = c"
  shows "obj_inv (object_list_push c r (upd_obj r f k))"
  using assms by (auto simp: obj_inv_def rt_object_get_type_def)

lemma obj_inv_release: "obj_inv k \<Longrightarrow> obj_inv (object_list_remove r (upd_obj r f k))"
  by (auto simp: obj_inv_def rt_object_get_type_def intro: distinct_removeAll)

text \<open>\<^verbatim>\<open>rt_object_init\<close> is a rescheduling point followed by the attachment of the object.\<close>

lemma rt_object_init_step:
  assumes "sched_inv k" "ty \<in> set rt_object_container" "r \<notin> set (object_list k ty)"
  obtains k' where "resched k k'" "rt_object_init r ty name k =
    Some (object_list_push ty r (upd_obj r (\<lambda>ob. ob\<lparr>obj_type := ty OR RT_Object_Class_Static,
      obj_name := rt_strncpy_name name\<rparr>) k'))"
proof -
  obtain k' where k': "rt_exit_critical (rt_enter_critical k) = Some k'" "resched k k'"
    using critical_section_step [OF assms(1)] .
  have "object_list (rt_enter_critical k) = object_list k"
    by (simp add: rt_enter_critical_def)
  with assms k' show ?thesis
    by (intro that [of k']) (auto simp: rt_object_init_def get_information_eq)
qed

text \<open>Detaching and deleting leave the threads alone, so they keep the scheduling invariant.\<close>

lemma rt_object_detach_inv:
  "sched_inv k \<Longrightarrow> sched_inv (rt_object_detach r k)" "obj_inv k \<Longrightarrow> obj_inv (rt_object_detach r k)"
  by (simp_all add: rt_object_detach_def obj_inv_release)

section \<open>The registry contract\<close>

text \<open>The interface the rest of the kernel relies on: objects are registered in a class at most once
  and an unregistered object is gone from every class.\<close>

locale registry =
  fixes inv :: "'s \<Rightarrow> bool"
    and members :: "'s \<Rightarrow> 'c \<Rightarrow> 'r list"
    and valid :: "'c \<Rightarrow> bool"
    and register :: "'r \<Rightarrow> 'c \<Rightarrow> 's \<Rightarrow> 's option"
    and unregister :: "'r \<Rightarrow> 's \<Rightarrow> 's"
  assumes register_new: "inv s \<Longrightarrow> valid c \<Longrightarrow> (\<And>d. r \<notin> set (members s d)) \<Longrightarrow>
      \<exists>s'. register r c s = Some s' \<and> inv s' \<and> members s' = (members s)(c := r # members s c)"
    and register_twice: "r \<in> set (members s c) \<Longrightarrow> register r c s = None"
    and unregister_inv: "inv s \<Longrightarrow> inv (unregister r s)"
    and unregister_members: "members (unregister r s) d = removeAll r (members s d)"
begin

lemma register_all_ok:
  assumes "inv s" "valid c" "distinct rs" "\<And>r d. r \<in> set rs \<Longrightarrow> r \<notin> set (members s d)"
  shows "\<exists>s'. iterM (\<lambda>r. register r c) rs s = Some s' \<and> inv s' \<and> members s' = (members s)(c := rev rs @ members s c)"
  using assms
proof (induction rs arbitrary: s)
  case (Cons r rs)
  then obtain s1 where s1: "register r c s = Some s1" "inv s1"
    "members s1 = (members s)(c := r # members s c)"
    using register_new [of s c r] by auto
  have new: "\<And>x d. x \<in> set rs \<Longrightarrow> x \<notin> set (members s1 d)" and d: "distinct rs"
    using Cons.prems(3,4) s1(3) by (auto split: if_splits)
  from Cons.IH [OF s1(2) Cons.prems(2) d new] obtain s' where "iterM (\<lambda>r. register r c) rs s1 = Some s'" "inv s'"
    "members s' = (members s1)(c := rev rs @ members s1 c)"
    by blast
  with s1 show ?case by auto
qed simp

lemma register_again:
  assumes "inv s" "valid c" "\<And>d. d \<noteq> c \<Longrightarrow> r \<notin> set (members s d)"
  shows "\<exists>s'. register r c (unregister r s) = Some s' \<and> inv s' \<and>
    members s' = (members s)(c := r # removeAll r (members s c))"
proof -
  have "members (unregister r s) = (\<lambda>d. removeAll r (members s d))"
    by (simp add: fun_eq_iff unregister_members)
  moreover have "removeAll r (members s d) = members s d" if "d \<noteq> c" for d
    using assms(3) [OF that] by simp
  ultimately show ?thesis
    using register_new [of "unregister r s" c r] unregister_inv [OF assms(1)] assms(2)
    by (auto simp: fun_upd_def fun_eq_iff)
qed

end

interpretation objreg: registry "\<lambda>k. sched_inv k \<and> obj_inv k" object_list
  "\<lambda>c. c \<in> set rt_object_container" "\<lambda>r c k. rt_object_init r c name k" rt_object_detach
  for name
proof
  fix k c r
  assume k: "sched_inv k \<and> obj_inv k" and c: "c \<in> set rt_object_container"
    and r: "\<And>d. r \<notin> set (object_list k d)"
  from k c r obtain k' where k': "resched k k'" "rt_object_init r c name k =
    Some (object_list_push c r (upd_obj r (\<lambda>ob. ob\<lparr>obj_type := c OR RT_Object_Class_Static,
      obj_name := rt_strncpy_name name\<rparr>) k'))"
    using rt_object_init_step [of k c r] by blast
  have same: "object_list k' = object_list k" "obj_inv k'"
    using k reschedD(2) [OF k'(1)] by (auto simp: ipc_sameD obj_inv_ipc_same)
  with k'(2) r container_class [OF c] reschedD(1) [OF k'(1)]
  show "\<exists>s'. rt_object_init r c name k = Some s' \<and> (sched_inv s' \<and> obj_inv s') \<and>
      object_list s' = (object_list k)(c := r # object_list k c)"
    by (auto intro!: obj_inv_attach [where ty = c])
next
  fix r c and k :: kernel
  assume "r \<in> set (object_list k c)"
  then show "rt_object_init r c name k = None"
    by (cases "c \<in> set rt_object_container")
      (auto simp: rt_object_init_def rt_enter_critical_def get_information_eq get_information_none)
qed (auto simp: rt_object_detach_inv, simp add: rt_object_detach_def)

section \<open>Properties\<close>

text \<open>Initialising an object that is on no object list succeeds, keeps the invariants, makes
  it a static object of its class, and a search of that class by its name then returns this object.\<close>

theorem rt_object_find_after_init:
  assumes "sched_inv k" "obj_inv k" "rt_interrupt_nest k = 0"
    and "ty \<in> set rt_object_container" "\<forall>c. r \<notin> set (object_list k c)"
  shows "\<exists>k' k''. rt_object_init r ty name k = Some k' \<and> sched_inv k' \<and> obj_inv k' \<and>
    rt_object_get_type k' r = ty \<and> rt_object_is_systemobject k' r \<and>
    rt_object_find name ty k' = Some (Some r, k'')"
proof -
  obtain k1 where k1: "resched k k1" "rt_object_init r ty name k =
    Some (object_list_push ty r (upd_obj r (\<lambda>ob. ob\<lparr>obj_type := ty OR RT_Object_Class_Static,
      obj_name := rt_strncpy_name name\<rparr>) k1))" (is "_ = Some ?k'")
    using rt_object_init_step [OF assms(1,4)] assms(5) by blast
  have inv: "sched_inv ?k' \<and> obj_inv ?k'"
    using objreg.register_new [of k ty r name] assms(1,2,4,5) k1(2) by auto
  have nest: "rt_interrupt_nest ?k' = 0"
    using assms(3) reschedD(2) [OF k1(1)] by (simp add: ipc_sameD object_list_push_def)
  obtain k'' where "rt_exit_critical (rt_enter_critical ?k') = Some k''"
    using critical_section_step inv by blast
  then have "rt_object_find name ty ?k' = Some (Some r, k'')"
    using nest container_class(3) [OF assms(4)] assms(4)
    by (simp add: rt_object_find_def rt_debug_not_in_interrupt_def get_information_eq Let_def
        rt_enter_critical_def rt_strncpy_name_def not_less)
  moreover have "rt_object_get_type ?k' r = ty" "rt_object_is_systemobject ?k' r"
    using container_class(1) [OF assms(4)]
    by (simp_all add: rt_object_get_type_def rt_object_is_systemobject_def)
  ultimately show ?thesis using k1(2) inv by blast
qed

theorem rt_object_find_after_init_witness:
  "\<exists>k' k''. rt_object_init (OSem 0) 2 ''lock'' demo_kernel = Some k' \<and>
     rt_object_find ''lock'' 2 k' = Some (Some (OSem 0), k'')"
  using rt_object_find_after_init [of demo_kernel 2 "OSem 0" "''lock''"] demo_kernel_inv
  by (auto simp: demo_simps obj_inv_def rt_object_container_def)

text \<open>The registry works for any sequence of objects. Initialising distinct new objects of one
  class one after the other always succeeds and lists the latest first; initialising an object that
  is still registered never returns (the assertion fails); after \<^verbatim>\<open>rt_object_detach\<close> it can be
  initialised again.\<close>

theorem rt_object_registry:
  assumes "sched_inv k" "obj_inv k" "ty \<in> set rt_object_container" "distinct rs"
    and "\<forall>r \<in> set rs. \<forall>c. r \<notin> set (object_list k c)"
  shows "(\<exists>k'. iterM (\<lambda>r. rt_object_init r ty name) rs k = Some k' \<and> sched_inv k' \<and> obj_inv k' \<and>
      object_list k' ty = rev rs @ object_list k ty \<and>
      (\<forall>r \<in> set rs. rt_object_init r ty name k' = None \<and>
        (\<exists>k''. rt_object_init r ty name (rt_object_detach r k') = Some k'')))"
proof -
  obtain k' where k': "iterM (\<lambda>r. rt_object_init r ty name) rs k = Some k'" "sched_inv k'" "obj_inv k'"
    "object_list k' = (object_list k)(ty := rev rs @ object_list k ty)"
    using objreg.register_all_ok [of k ty rs name] assms by auto
  have "\<exists>k''. rt_object_init r ty name (rt_object_detach r k') = Some k''" if "r \<in> set rs" for r
    using objreg.register_again [of k' ty r name] k' assms that by auto
  moreover have "rt_object_init r ty name k' = None" if "r \<in> set rs" for r
    using objreg.register_twice [of r k' ty name] k'(4) that by auto
  ultimately show ?thesis using k' by auto
qed

theorem rt_object_registry_witness:
  "\<exists>k'. iterM (\<lambda>r. rt_object_init r 10 ''t'') [OTimer (Timer 0), OTimer (Timer 1)] demo_kernel = Some k' \<and>
     object_list k' 10 = [OTimer (Timer 1), OTimer (Timer 0)]"
  using rt_object_registry [of demo_kernel 10 "[OTimer (Timer 0), OTimer (Timer 1)]" "''t''"]
    demo_kernel_inv
  by (auto simp: demo_simps obj_inv_def rt_object_container_def)

end
