(* ===== verification/Timer_Base.thy ===== *)
theory Timer_Base
  imports Kobject
begin

text \<open>
  The part of \<^verbatim>\<open>src/timer.c\<close> that does not need threads: creation and removal of timers, stopping
  and controlling them. \<^verbatim>\<open>RT_TIMER_SKIP_LIST_LEVEL\<close> is 1, so a timer list has one row: it is the list
  \<open>rt_timer_list\<close> or \<open>rt_soft_timer_list\<close> of the kernel state. The flag byte of a timer is the flag of
  its base object.

  The invariant \<open>timer_inv\<close> ties the lists to the flags and to the threads: a listed timer is
  activated and is on the list its flag selects, and the timer of a thread is listed only while that
  thread is suspended.
\<close>

section \<open>Operations\<close>

definition tm_flag :: "kernel \<Rightarrow> tmid \<Rightarrow> u8" where
  "tm_flag k m = obj_flag (objs k (OTimer m))"

definition set_flag :: "tmid \<Rightarrow> (u8 \<Rightarrow> u8) \<Rightarrow> kernel \<Rightarrow> kernel" where
  "set_flag m f = upd_obj (OTimer m) (\<lambda>ob. ob\<lparr>obj_flag := f (obj_flag ob)\<rparr>)"

definition rt_timer_init_body ::
  "tmid \<Rightarrow> timeout_fn \<Rightarrow> nat \<Rightarrow> rt_tick_t \<Rightarrow> u8 \<Rightarrow> kernel \<Rightarrow> kernel" where
  "rt_timer_init_body m timeout parameter time flag k =
     (let k = set_flag m (\<lambda>_. flag) k;
          k = set_flag m (\<lambda>f. f AND NOT RT_TIMER_FLAG_ACTIVATED) k
      in upd_timer m (\<lambda>tm. tm\<lparr>tm_timeout_func := timeout, tm_parameter := parameter,
                             tm_timeout_tick := 0, tm_init_tick := time\<rparr>) k)"

definition rt_timer_list_next_timeout :: "kernel \<Rightarrow> tmid list \<Rightarrow> rt_tick_t" where
  "rt_timer_list_next_timeout k timer_list =
     (case timer_list of [] \<Rightarrow> RT_TICK_MAX | m # _ \<Rightarrow> tm_timeout_tick (timers k m))"

definition rt_timer_remove :: "tmid \<Rightarrow> kernel \<Rightarrow> kernel" where
  "rt_timer_remove m k =
     k\<lparr>rt_timer_list := removeAll m (rt_timer_list k),
       rt_soft_timer_list := removeAll m (rt_soft_timer_list k)\<rparr>"

definition rt_timer_init ::
  "tmid \<Rightarrow> string \<Rightarrow> timeout_fn \<Rightarrow> nat \<Rightarrow> rt_tick_t \<Rightarrow> u8 \<Rightarrow> kernel \<Rightarrow> kernel option" where
  "rt_timer_init m name timeout parameter time flag k = do {
     k \<leftarrow> rt_object_init (OTimer m) RT_Object_Class_Timer name k;
     Some (rt_timer_init_body m timeout parameter time flag k)
   }"

definition rt_timer_detach :: "tmid \<Rightarrow> kernel \<Rightarrow> (rt_err_t \<times> kernel) option" where
  "rt_timer_detach m k = do {
     rt_assert (rt_object_get_type k (OTimer m) = RT_Object_Class_Timer);
     rt_assert (rt_object_is_systemobject k (OTimer m));
     let k = rt_timer_remove m k;
     Some (RT_EOK, rt_object_detach (OTimer m) k)
   }"

definition rt_timer_create ::
  "string \<Rightarrow> timeout_fn \<Rightarrow> nat \<Rightarrow> rt_tick_t \<Rightarrow> u8 \<Rightarrow> tmid option \<Rightarrow> kernel \<Rightarrow> (tmid option \<times> kernel) option"
  where
  "rt_timer_create name timeout parameter time flag mem k = do {
     (timer, k) \<leftarrow> rt_object_allocate RT_Object_Class_Timer name (map_option OTimer mem) k;
     (case mem of
        None \<Rightarrow> Some (None, k)
      | Some m \<Rightarrow> Some (Some m, rt_timer_init_body m timeout parameter time flag k))
   }"

definition rt_timer_delete :: "tmid \<Rightarrow> kernel \<Rightarrow> (rt_err_t \<times> kernel) option" where
  "rt_timer_delete m k = do {
     rt_assert (rt_object_get_type k (OTimer m) = RT_Object_Class_Timer);
     rt_assert (\<not> rt_object_is_systemobject k (OTimer m));
     let k = rt_timer_remove m k;
     k \<leftarrow> rt_object_delete (OTimer m) k;
     Some (RT_EOK, k)
   }"

definition rt_timer_stop :: "tmid \<Rightarrow> kernel \<Rightarrow> (rt_err_t \<times> kernel) option" where
  "rt_timer_stop m k = do {
     rt_assert (rt_object_get_type k (OTimer m) = RT_Object_Class_Timer);
     if tm_flag k m AND RT_TIMER_FLAG_ACTIVATED = 0 then Some (- RT_ERROR, k)
     else
       let k = rt_timer_remove m k
       in Some (RT_EOK, set_flag m (\<lambda>f. f AND NOT RT_TIMER_FLAG_ACTIVATED) k)
   }"

abbreviation (input) RT_TIMER_CTRL_SET_TIME :: int where "RT_TIMER_CTRL_SET_TIME \<equiv> 0"
abbreviation (input) RT_TIMER_CTRL_GET_TIME :: int where "RT_TIMER_CTRL_GET_TIME \<equiv> 1"
abbreviation (input) RT_TIMER_CTRL_SET_ONESHOT :: int where "RT_TIMER_CTRL_SET_ONESHOT \<equiv> 2"
abbreviation (input) RT_TIMER_CTRL_SET_PERIODIC :: int where "RT_TIMER_CTRL_SET_PERIODIC \<equiv> 3"

text \<open>The tick behind \<^verbatim>\<open>arg\<close> is an argument and a result.\<close>

definition rt_timer_control ::
  "tmid \<Rightarrow> int \<Rightarrow> rt_tick_t \<Rightarrow> kernel \<Rightarrow> (rt_err_t \<times> rt_tick_t \<times> kernel) option" where
  "rt_timer_control m cmd arg k = do {
     rt_assert (rt_object_get_type k (OTimer m) = RT_Object_Class_Timer);
     Some (if cmd = RT_TIMER_CTRL_GET_TIME then (RT_EOK, tm_init_tick (timers k m), k)
           else if cmd = RT_TIMER_CTRL_SET_TIME
             then (RT_EOK, arg, upd_timer m (\<lambda>tm. tm\<lparr>tm_init_tick := arg\<rparr>) k)
           else if cmd = RT_TIMER_CTRL_SET_ONESHOT
             then (RT_EOK, arg, set_flag m (\<lambda>f. f AND NOT RT_TIMER_FLAG_PERIODIC) k)
           else if cmd = RT_TIMER_CTRL_SET_PERIODIC
             then (RT_EOK, arg, set_flag m (\<lambda>f. f OR RT_TIMER_FLAG_PERIODIC) k)
           else (RT_EOK, arg, k))
   }"

definition rt_system_timer_init :: "kernel \<Rightarrow> kernel" where
  "rt_system_timer_init k = k\<lparr>rt_timer_list := []\<rparr>"

section \<open>The timer invariant\<close>

definition listed :: "kernel \<Rightarrow> tmid \<Rightarrow> bool" where
  "listed k m \<longleftrightarrow> m \<in> set (rt_timer_list k) \<or> m \<in> set (rt_soft_timer_list k)"

definition timer_lists_ok :: "kernel \<Rightarrow> bool" where
  "timer_lists_ok k \<longleftrightarrow>
     distinct (rt_timer_list k) \<and> distinct (rt_soft_timer_list k) \<and>
     (\<forall>m \<in> set (rt_timer_list k). tm_flag k m AND RT_TIMER_FLAG_SOFT_TIMER = 0) \<and>
     (\<forall>m \<in> set (rt_soft_timer_list k). tm_flag k m AND RT_TIMER_FLAG_SOFT_TIMER \<noteq> 0) \<and>
     (\<forall>m. listed k m \<longrightarrow> tm_flag k m AND RT_TIMER_FLAG_ACTIVATED \<noteq> 0 \<and>
        rt_object_get_type k (OTimer m) = RT_Object_Class_Timer)"

text \<open>The timer embedded in a started thread is a hard one-shot timer that calls
  \<^verbatim>\<open>rt_thread_timeout\<close> on that thread; no other timer calls that function.\<close>

definition thread_timer_ok :: "kernel \<Rightarrow> tid \<Rightarrow> bool" where
  "thread_timer_ok k t \<longleftrightarrow>
     rt_object_get_type k (OThread t) = RT_Object_Class_Thread \<and>
     rt_object_get_type k (OTimer (Thread_Timer t)) = RT_Object_Class_Timer \<and>
     tm_flag k (Thread_Timer t) AND RT_TIMER_FLAG_SOFT_TIMER = 0 \<and>
     tm_flag k (Thread_Timer t) AND RT_TIMER_FLAG_PERIODIC = 0 \<and>
     tm_timeout_func (timers k (Thread_Timer t)) = Rt_thread_timeout \<and>
     tm_parameter (timers k (Thread_Timer t)) = t"

definition timer_inv :: "kernel \<Rightarrow> bool" where
  "timer_inv k \<longleftrightarrow>
     timer_lists_ok k \<and>
     (\<forall>t. live k t \<longrightarrow> thread_timer_ok k t) \<and>
     (\<forall>t. listed k (Thread_Timer t) \<longrightarrow> thread_stat k t = RT_THREAD_SUSPEND) \<and>
     (\<forall>n. listed k (Timer n) \<longrightarrow> tm_timeout_func (timers k (Timer n)) \<noteq> Rt_thread_timeout)"

lemma timer_invD:
  assumes "timer_inv k"
  shows "timer_lists_ok k" "live k t \<Longrightarrow> thread_timer_ok k t"
    "listed k (Thread_Timer t) \<Longrightarrow> thread_stat k t = RT_THREAD_SUSPEND"
    "listed k (Timer n) \<Longrightarrow> tm_timeout_func (timers k (Timer n)) \<noteq> Rt_thread_timeout"
  using assms by (auto simp: timer_inv_def)

lemma set_flag_frame [frame_simps, simp]:
  "threads (set_flag m f k) = threads k"
  "rt_thread_ready_priority_group (set_flag m f k) = rt_thread_ready_priority_group k"
  "tlists (set_flag m f k) = tlists k"
  "timers (set_flag m f k) = timers k"
  "rt_timer_list (set_flag m f k) = rt_timer_list k"
  "rt_soft_timer_list (set_flag m f k) = rt_soft_timer_list k"
  "rt_current_thread (set_flag m f k) = rt_current_thread k"
  "rt_tick (set_flag m f k) = rt_tick k"
  "rt_scheduler_lock_nest (set_flag m f k) = rt_scheduler_lock_nest k"
  "tm_flag (set_flag m f k) m' = (if m' = m then f (tm_flag k m) else tm_flag k m')"
  "rt_object_get_type (set_flag m f k) r = rt_object_get_type k r"
  "sched_inv (set_flag m f k) = sched_inv k"
  "ipc_same k0 (set_flag m f k) = ipc_same k0 k"
  "only_stat k0 (set_flag m f k) = only_stat k0 k"
  by (auto simp: set_flag_def tm_flag_def rt_object_get_type_def upd_obj_def ipc_same_def
      only_stat_def)

lemma upd_timer_frame [frame_simps, simp]:
  "threads (upd_timer m g k) = threads k"
  "rt_thread_ready_priority_group (upd_timer m g k) = rt_thread_ready_priority_group k"
  "tlists (upd_timer m g k) = tlists k"
  "timers (upd_timer m g k) = (timers k)(m := g (timers k m))"
  "rt_timer_list (upd_timer m g k) = rt_timer_list k"
  "rt_soft_timer_list (upd_timer m g k) = rt_soft_timer_list k"
  "rt_current_thread (upd_timer m g k) = rt_current_thread k"
  "rt_tick (upd_timer m g k) = rt_tick k"
  "rt_scheduler_lock_nest (upd_timer m g k) = rt_scheduler_lock_nest k"
  "tm_flag (upd_timer m g k) m' = tm_flag k m'"
  "rt_object_get_type (upd_timer m g k) r = rt_object_get_type k r"
  "sched_inv (upd_timer m g k) = sched_inv k"
  by (auto simp: upd_timer_def tm_flag_def rt_object_get_type_def)

lemma timer_remove_frame [frame_simps, simp]:
  "threads (rt_timer_remove m k) = threads k"
  "rt_thread_ready_priority_group (rt_timer_remove m k) = rt_thread_ready_priority_group k"
  "tlists (rt_timer_remove m k) = tlists k"
  "timers (rt_timer_remove m k) = timers k"
  "rt_timer_list (rt_timer_remove m k) = removeAll m (rt_timer_list k)"
  "rt_soft_timer_list (rt_timer_remove m k) = removeAll m (rt_soft_timer_list k)"
  "rt_current_thread (rt_timer_remove m k) = rt_current_thread k"
  "rt_tick (rt_timer_remove m k) = rt_tick k"
  "rt_scheduler_lock_nest (rt_timer_remove m k) = rt_scheduler_lock_nest k"
  "tm_flag (rt_timer_remove m k) m' = tm_flag k m'"
  "rt_object_get_type (rt_timer_remove m k) r = rt_object_get_type k r"
  "sched_inv (rt_timer_remove m k) = sched_inv k"
  "ipc_same k0 (rt_timer_remove m k) = ipc_same k0 k"
  "only_stat k0 (rt_timer_remove m k) = only_stat k0 k"
  by (auto simp: rt_timer_remove_def tm_flag_def rt_object_get_type_def ipc_same_def
      only_stat_def)

lemma listed_frame [simp]:
  "listed (set_flag m f k) m' = listed k m'"
  "listed (upd_timer m g k) m' = listed k m'"
  "listed (rt_timer_remove m k) m' \<longleftrightarrow> m' \<noteq> m \<and> listed k m'"
  by (auto simp: listed_def)

lemma thread_reads_frame [simp]:
  "live (set_flag m f k) t = live k t" "thread_stat (set_flag m f k) t = thread_stat k t"
  "live (upd_timer m g k) t = live k t" "thread_stat (upd_timer m g k) t = thread_stat k t"
  "live (rt_timer_remove m k) t = live k t" "thread_stat (rt_timer_remove m k) t = thread_stat k t"
  "live (upd_obj r h k) t = live k t" "thread_stat (upd_obj r h k) t = thread_stat k t"
  by (simp_all add: live_def thread_stat_def)

lemma timer_inv_cong:
  assumes "timers_same k k'" "\<And>t. live k' t \<Longrightarrow> live k t"
    "\<And>t. listed k (Thread_Timer t) \<Longrightarrow> thread_stat k t = RT_THREAD_SUSPEND \<Longrightarrow>
       thread_stat k' t = RT_THREAD_SUSPEND"
    and "timer_inv k"
  shows "timer_inv k'"
  using assms timers_sameD [OF assms(1)]
  by (simp add: timer_inv_def timer_lists_ok_def listed_def tm_flag_def rt_object_get_type_def
      thread_timer_ok_def)

lemma timer_inv_resched: "resched k k' \<Longrightarrow> timer_inv k \<Longrightarrow> timer_inv k'"
  by (rule timer_inv_cong [of k])
    (auto simp: reschedD resched_suspended live_def dest: reschedD(6) [unfolded runnable_def])

lemma timer_inv_remove: "timer_inv k \<Longrightarrow> timer_inv (rt_timer_remove m k)"
  by (auto simp: timer_inv_def timer_lists_ok_def thread_timer_ok_def intro: distinct_removeAll)

lemma timer_inv_deactivate:
  "timer_inv k \<Longrightarrow> \<not> listed k m \<Longrightarrow> timer_inv (set_flag m (\<lambda>f. f AND NOT 1) k)"
  by (auto simp: timer_inv_def timer_lists_ok_def thread_timer_ok_def listed_def and.assoc)

section \<open>Stopping\<close>

text \<open>Stopping a timer always takes it off its list.\<close>

definition timers_but :: "tmid \<Rightarrow> kernel \<Rightarrow> kernel \<Rightarrow> bool" where
  "timers_but m k k' \<longleftrightarrow>
     rt_timer_list k' = removeAll m (rt_timer_list k) \<and>
     (\<forall>x. x \<noteq> m \<longrightarrow> timers k' x = timers k x \<and> tm_flag k' x = tm_flag k x)"

definition stopped :: "tmid \<Rightarrow> kernel \<Rightarrow> kernel \<Rightarrow> bool" where
  "stopped m k k' \<longleftrightarrow>
     timer_inv k' \<and> \<not> listed k' m \<and> (\<forall>m'. listed k' m' \<longrightarrow> listed k m') \<and> timers_but m k k' \<and> ipc_same k k' \<and>
     threads k' = threads k \<and> tlists k' = tlists k \<and> rt_current_thread k' = rt_current_thread k \<and>
     rt_thread_ready_priority_group k' = rt_thread_ready_priority_group k \<and>
     rt_scheduler_lock_nest k' = rt_scheduler_lock_nest k"

lemma rt_timer_stop_step:
  assumes "timer_inv k" "rt_object_get_type k (OTimer m) = RT_Object_Class_Timer"
  obtains r k' where "rt_timer_stop m k = Some (r, k')" "stopped m k k'"
proof (cases "tm_flag k m AND RT_TIMER_FLAG_ACTIVATED = 0")
  case True
  with assms have "\<not> listed k m" by (auto simp: timer_inv_def timer_lists_ok_def)
  with True assms show ?thesis
    by (intro that [of "-1" k]) (simp_all add: rt_timer_stop_def stopped_def timers_but_def listed_def)
next
  case False
  with assms timer_inv_deactivate [OF timer_inv_remove [OF assms(1)], of m m] show ?thesis
    by (intro that [of 0 "set_flag m (\<lambda>f. f AND NOT 1) (rt_timer_remove m k)"])
      (simp_all add: rt_timer_stop_def stopped_def timers_but_def Let_def)
qed

end
