(* ===== verification/Thread_Core.thy ===== *)
theory Thread_Core
  imports Timer_Base
begin

text \<open>
  Suspending and resuming threads (\<^verbatim>\<open>rt_thread_suspend\<close>, \<^verbatim>\<open>rt_thread_resume\<close> and the timeout
  function \<^verbatim>\<open>rt_thread_timeout\<close> of \<^verbatim>\<open>src/thread.c\<close>), on which timers and inter-process
  communication build. \<open>parked\<close> and \<open>woken\<close> are the effects of the first two on a good state, as the
  clients use them.
\<close>

section \<open>Operations\<close>

definition rt_thread_self :: "kernel \<Rightarrow> tid option" where
  "rt_thread_self k = rt_current_thread k"

definition rt_thread_suspend :: "tid \<Rightarrow> kernel \<Rightarrow> (rt_err_t \<times> kernel) option" where
  "rt_thread_suspend t k = do {
     rt_assert (rt_object_get_type k (OThread t) = RT_Object_Class_Thread);
     let stat = thread_stat k t;
     if stat \<noteq> RT_THREAD_READY \<and> stat \<noteq> RT_THREAD_RUNNING then Some (- RT_ERROR, k)
     else do {
       rt_assert (stat = RT_THREAD_RUNNING \<longrightarrow> rt_thread_self k = Some t);
       let k = rt_schedule_remove_thread t k;
       let k = upd_thread t (set_stat RT_THREAD_SUSPEND) k;
       (_, k) \<leftarrow> rt_timer_stop (Thread_Timer t) k;
       Some (RT_EOK, k)
     }
   }"

definition rt_thread_resume :: "tid \<Rightarrow> kernel \<Rightarrow> (rt_err_t \<times> kernel) option" where
  "rt_thread_resume t k = do {
     rt_assert (rt_object_get_type k (OThread t) = RT_Object_Class_Thread);
     if thread_stat k t \<noteq> RT_THREAD_SUSPEND then Some (- RT_ERROR, k)
     else do {
       let k = tlist_remove t k;
       (_, k) \<leftarrow> rt_timer_stop (Thread_Timer t) k;
       Some (RT_EOK, rt_schedule_insert_thread t k)
     }
   }"

definition rt_thread_timeout :: "tid \<Rightarrow> kernel \<Rightarrow> kernel option" where
  "rt_thread_timeout t k = do {
     rt_assert (thread_stat k t = RT_THREAD_SUSPEND);
     rt_assert (rt_object_get_type k (OThread t) = RT_Object_Class_Thread);
     let k = upd_thread t (\<lambda>th. th\<lparr>th_error := - RT_ETIMEOUT\<rparr>) k;
     let k = tlist_remove t k;
     let k = rt_schedule_insert_thread t k;
     rt_schedule k
   }"

section \<open>Effects\<close>

definition parked :: "tid \<Rightarrow> kernel \<Rightarrow> kernel \<Rightarrow> bool" where
  "parked t k k' \<longleftrightarrow>
     sched_inv k' \<and> timer_inv k' \<and> ipc_same k k' \<and> only_stat k k' \<and>
     thread_stat k' t = RT_THREAD_SUSPEND \<and> (\<forall>u. u \<noteq> t \<longrightarrow> threads k' u = threads k u) \<and>
     (\<forall>l. tlists k' l = removeAll t (tlists k l)) \<and>
     rt_current_thread k' = rt_current_thread k \<and> \<not> listed k' (Thread_Timer t) \<and>
     timers_but (Thread_Timer t) k k' \<and> rt_scheduler_lock_nest k' = rt_scheduler_lock_nest k"

definition woken :: "tid \<Rightarrow> kernel \<Rightarrow> kernel \<Rightarrow> bool" where
  "woken t k k' \<longleftrightarrow>
     sched_inv k' \<and> timer_inv k' \<and> ipc_same k k' \<and> only_stat k k' \<and>
     runnable k' t \<and> (\<forall>u. u \<noteq> t \<longrightarrow> threads k' u = threads k u) \<and>
     (\<forall>l. (\<forall>p. l \<noteq> LReady p) \<longrightarrow> tlists k' l = removeAll t (tlists k l)) \<and>
     rt_current_thread k' = rt_current_thread k \<and>
     timers_but (Thread_Timer t) k k' \<and> rt_scheduler_lock_nest k' = rt_scheduler_lock_nest k"

lemma parkedD:
  assumes "parked t k k'"
  shows "sched_inv k'" "timer_inv k'" "ipc_same k k'" "only_stat k k'"
    "thread_stat k' t = RT_THREAD_SUSPEND" "u \<noteq> t \<Longrightarrow> threads k' u = threads k u"
    "tlists k' l = removeAll t (tlists k l)" "rt_current_thread k' = rt_current_thread k"
    "\<not> listed k' (Thread_Timer t)" "timers_but (Thread_Timer t) k k'"
    "rt_scheduler_lock_nest k' = rt_scheduler_lock_nest k"
  using assms by (simp_all add: parked_def)

lemma wokenD:
  assumes "woken t k k'"
  shows "sched_inv k'" "timer_inv k'" "ipc_same k k'" "only_stat k k'" "runnable k' t"
    "u \<noteq> t \<Longrightarrow> threads k' u = threads k u"
    "(\<And>p. l \<noteq> LReady p) \<Longrightarrow> tlists k' l = removeAll t (tlists k l)"
    "rt_current_thread k' = rt_current_thread k" "timers_but (Thread_Timer t) k k'"
    "rt_scheduler_lock_nest k' = rt_scheduler_lock_nest k"
  using assms by (simp_all add: woken_def)

section \<open>Suspending\<close>

lemma live_timer_ok: "timer_inv k \<Longrightarrow> live k t \<Longrightarrow> thread_timer_ok k t"
  by (rule timer_invD)

lemma runnable_live: "runnable k t \<Longrightarrow> live k t"
  by (auto simp: runnable_def live_def)

lemma timer_reads_thread_writes [simp]:
  "listed (upd_thread t f k) m = listed k m" "tm_flag (upd_thread t f k) m = tm_flag k m"
  "rt_object_get_type (upd_thread t f k) r = rt_object_get_type k r"
  "timers (upd_thread t f k) = timers k"
  "listed (tlist_remove t k) m = listed k m" "tm_flag (tlist_remove t k) m = tm_flag k m"
  "rt_object_get_type (tlist_remove t k) r = rt_object_get_type k r"
  "timers (tlist_remove t k) = timers k"
  "listed (rt_schedule_remove_thread t k) m = listed k m"
  "tm_flag (rt_schedule_remove_thread t k) m = tm_flag k m"
  "rt_object_get_type (rt_schedule_remove_thread t k) r = rt_object_get_type k r"
  "timers (rt_schedule_remove_thread t k) = timers k"
  by (simp_all add: listed_def tm_flag_def rt_object_get_type_def upd_thread_def tlist_remove_def
      rt_schedule_remove_thread_def Let_def)

lemma timers_but_frame [simp]:
  "timers_but m (upd_thread t f k) k' = timers_but m k k'"
  "timers_but m (rt_schedule_remove_thread t k) k' = timers_but m k k'"
  "timers_but m (tlist_remove t k) k' = timers_but m k k'"
  "timers_but m k (rt_schedule_insert_thread t k') = timers_but m k k'"
  by (simp_all add: timers_but_def tm_flag_def upd_thread_def tlist_remove_def rt_schedule_remove_thread_def
      rt_schedule_insert_thread_def tlist_append_def Let_def)

lemma tlist_remove_lock [simp]: "rt_scheduler_lock_nest (tlist_remove t k) = rt_scheduler_lock_nest k"
  by (simp add: tlist_remove_def)

lemma timer_inv_suspend:
  assumes "timer_inv k" "live k t"
  shows "timer_inv (upd_thread t (set_stat RT_THREAD_SUSPEND) (rt_schedule_remove_thread t k))"
proof (rule timer_inv_cong [OF _ _ _ assms(1)])
  show "timers_same k (upd_thread t (set_stat 2) (rt_schedule_remove_thread t k))" by simp
  show "live k u" if "live (upd_thread t (set_stat 2) (rt_schedule_remove_thread t k)) u" for u
    using that assms(2) by (cases "u = t") (simp_all add: live_def)
qed simp

lemma sched_inv_suspend:
  assumes i: "sched_inv k" and l: "live k t"
  shows "sched_inv (upd_thread t (set_stat RT_THREAD_SUSPEND) (rt_schedule_remove_thread t k))"
proof -
  let ?k = "upd_thread t (set_stat 2) (rt_schedule_remove_thread t k)"
  from i have c: "sched_core {} k" and ok: "current_ok k" by (auto simp: sched_inv_def)
  have m: "mask_ok k t" using sched_core_mask [OF c, of t] l by simp
  have "sched_core {t} ?k" by (intro sched_core_upd_off sched_core_remove [OF c m]) simp
  then have "sched_core {} ?k"
    by (rule sched_core_put_back) (use m in \<open>simp_all add: mask_ok_def prio_def\<close>)
  moreover have "current_ok ?k" using ok by (auto simp: current_ok_def split: if_splits)
  ultimately show ?thesis by (simp add: sched_inv_def)
qed

lemma rt_thread_suspend_step:
  assumes s: "sched_inv k" and ti: "timer_inv k" and r: "runnable k t"
  obtains k' where "rt_thread_suspend t k = Some (RT_EOK, k')" "parked t k k'"
proof -
  let ?k = "upd_thread t (set_stat 2) (rt_schedule_remove_thread t k)"
  have l: "live k t" using r by (rule runnable_live)
  have ok: "thread_timer_ok k t" using ti l by (rule live_timer_ok)
  have cur: "thread_stat k t = RT_THREAD_RUNNING \<longrightarrow> rt_thread_self k = Some t"
    using s by (auto simp: sched_inv_def rt_thread_self_def dest: current_ok_running)
  have "rt_object_get_type ?k (OTimer (Thread_Timer t)) = 10"
    using ok by (simp add: thread_timer_ok_def)
  from rt_timer_stop_step [OF timer_inv_suspend [OF ti l] this]
  obtain r' k' where sp: "rt_timer_stop (Thread_Timer t) ?k = Some (r', k')" "stopped (Thread_Timer t) ?k k'"
    by blast
  note st = sp(1) sp(2) [unfolded stopped_def]
  have "rt_thread_suspend t k = Some (RT_EOK, k')"
    using ok r cur sp(1) by (auto simp: rt_thread_suspend_def runnable_def thread_timer_ok_def Let_def)
  moreover have "parked t k k'"
  proof -
    have "sched_inv k'"
      using sched_inv_suspend [OF s l] sched_inv_cong [of k' ?k] st(2) by blast
    moreover have "ipc_same k k'" using st(2) ipc_same_trans [of k ?k k'] by simp
    moreover have "only_stat k k'" using st(2) by (simp add: only_stat_def set_stat_def)
    ultimately show ?thesis
      using st by (simp add: parked_def thread_stat_def)
  qed
  ultimately show ?thesis by (rule that)
qed

section \<open>Resuming\<close>

lemma sched_core_unlink:
  assumes c: "sched_core X k" and s: "thread_stat k t \<noteq> RT_THREAD_READY"
  shows "sched_core (insert t X) (tlist_remove t k)"
proof (rule sched_coreI)
  let ?k = "tlist_remove t k"
  have rd: "list_state ?k u l = list_state k u l" "live ?k u = live k u" "mask_ok ?k u = mask_ok k u"
    "thread_stat ?k u = thread_stat k u" "prio ?k u = prio k u" for u l
    by (rule thread_reads_cong; simp)+
  have off: "t \<notin> set (tlists k (LReady p))" for p
    using sched_core_list_state [OF c, of t "LReady p"] s by (auto simp: list_state_def list_stat_def)
  show "bit (rt_thread_ready_priority_group ?k) p \<longleftrightarrow> tlists ?k (LReady p) \<noteq> []" if "p < 32" for p
    using sched_core_bit [OF c that] off by simp
  show "u \<in> set (tlists ?k (LReady (prio ?k u)))"
    if "u \<notin> insert t X" "thread_stat ?k u = RT_THREAD_READY" for u
    using that sched_core_ready [OF c, of u] by (simp add: rd)
  show "mask_ok ?k u" if "u \<notin> insert t X" "live ?k u" for u
    using that sched_core_mask [OF c, of u] by (simp add: rd)
  show "u \<notin> insert t X \<and> list_state ?k u l" if "u \<in> set (tlists ?k l)" for l u
    using that sched_core_list_state [OF c, of u l] sched_core_notin [OF c, of u l] by (auto simp: rd)
  show "distinct (tlists ?k l)" for l
    using sched_core_distinct [OF c, of l] by (simp add: distinct_removeAll)
  show "l = l'" if "u \<in> set (tlists ?k l)" "u \<in> set (tlists ?k l')" for l l' u
    using that sched_core_disjoint [OF c, of u l l'] by simp
qed

lemma sched_inv_resume:
  assumes i: "sched_inv k" and s: "thread_stat k t = RT_THREAD_SUSPEND"
    and k1: "threads k1 t = (threads k t)\<lparr>th_error := e\<rparr> \<or> threads k1 t = threads k t"
      "\<forall>u. u \<noteq> t \<longrightarrow> threads k1 u = threads k u" "\<forall>l. tlists k1 l = removeAll t (tlists k l)"
      "rt_thread_ready_priority_group k1 = rt_thread_ready_priority_group k"
      "rt_current_thread k1 = rt_current_thread k"
  shows "sched_inv (rt_schedule_insert_thread t k1)"
proof -
  from i have c: "sched_core {} k" and ok: "current_ok k" by (auto simp: sched_inv_def)
  have "sched_core {t} (tlist_remove t k)" by (rule sched_core_unlink [OF c]) (simp add: s)
  then have "sched_core {t} (upd_thread t (\<lambda>_. threads k1 t) (tlist_remove t k))"
    by (rule sched_core_upd_off) simp
  moreover have "threads k1 = threads (upd_thread t (\<lambda>_. threads k1 t) (tlist_remove t k))"
    "tlists k1 = tlists (upd_thread t (\<lambda>_. threads k1 t) (tlist_remove t k))"
    using k1(2,3) by (auto simp: fun_eq_iff)
  ultimately have "sched_core {t} k1"
    using k1(4) by (subst sched_core_cong) simp_all
  moreover have "mask_ok k t" using sched_core_mask [OF c, of t] s by (simp add: live_def)
  then have "mask_ok k1 t" using k1(1) by (auto simp: mask_ok_def prio_def)
  ultimately have "sched_core {} (rt_schedule_insert_thread t k1)"
    by (intro insert_thread_core) simp_all
  moreover have "thread_stat k1 u = thread_stat k u" for u
    using k1(1,2) by (cases "u = t") (auto simp: thread_stat_def)
  then have "current_ok k1" using ok k1(5) by (simp add: current_ok_def)
  ultimately show ?thesis by (simp add: sched_inv_def insert_thread_current)
qed

lemma insert_thread_runnable: "runnable (rt_schedule_insert_thread t k) t"
  by (auto simp: runnable_def thread_stat_def)

lemma timer_inv_insert:
  assumes "timer_inv k" "\<not> listed k (Thread_Timer t)" "thread_stat k t = RT_THREAD_SUSPEND"
  shows "timer_inv (rt_schedule_insert_thread t k)"
proof (rule timer_inv_cong [OF _ _ _ assms(1)])
  show "timers_same k (rt_schedule_insert_thread t k)" by simp
  show "live k u" if "live (rt_schedule_insert_thread t k) u" for u
    using that assms(3) by (cases "u = t") (simp_all add: live_def thread_stat_def)
  show "thread_stat (rt_schedule_insert_thread t k) u = RT_THREAD_SUSPEND"
    if "listed k (Thread_Timer u)" "thread_stat k u = RT_THREAD_SUSPEND" for u
    using that assms(2) by (cases "u = t") (simp_all add: thread_stat_def)
qed

lemma rt_thread_resume_step:
  assumes s: "sched_inv k" and ti: "timer_inv k" and st: "thread_stat k t = RT_THREAD_SUSPEND"
  obtains k' where "rt_thread_resume t k = Some (RT_EOK, k')" "woken t k k'"
proof -
  let ?k = "tlist_remove t k"
  have ok: "thread_timer_ok k t" using ti st by (auto intro: live_timer_ok simp: live_def)
  have "timer_inv ?k"
    by (rule timer_inv_cong [OF _ _ _ ti])
      (simp_all add: live_def thread_stat_def timers_same_def tlist_remove_def)
  moreover have "rt_object_get_type ?k (OTimer (Thread_Timer t)) = 10"
    using ok by (simp add: thread_timer_ok_def)
  ultimately obtain r' k1 where sp: "rt_timer_stop (Thread_Timer t) ?k = Some (r', k1)"
    "stopped (Thread_Timer t) ?k k1"
    by (rule rt_timer_stop_step)
  note k1 = sp(1) sp(2) [unfolded stopped_def]
  let ?k' = "rt_schedule_insert_thread t k1"
  have "rt_thread_resume t k = Some (RT_EOK, ?k')"
    using ok st k1(1) by (simp add: rt_thread_resume_def thread_timer_ok_def)
  moreover have "woken t k ?k'"
  proof -
    have "sched_inv ?k'" using sched_inv_resume [OF s st, of k1] k1 by simp
    moreover have "timer_inv ?k'"
      using k1 st by (intro timer_inv_insert) (simp_all add: thread_stat_def)
    moreover have "ipc_same k ?k'" using k1(2) ipc_same_trans [of k ?k k1] by simp
    moreover have "only_stat k ?k'" using k1(2) by (auto simp: only_stat_def set_stat_def)
    ultimately show ?thesis
      using k1 insert_thread_runnable by (simp add: woken_def)
  qed
  ultimately show ?thesis by (rule that)
qed

section \<open>Timing out\<close>

definition timed_out :: "tid \<Rightarrow> kernel \<Rightarrow> kernel \<Rightarrow> bool" where
  "timed_out t k k' \<longleftrightarrow>
     sched_inv k' \<and> timer_inv k' \<and> ipc_same k k' \<and> timers_same k k' \<and>
     runnable k' t \<and> th_error (threads k' t) = - RT_ETIMEOUT \<and>
     (\<forall>u. u \<noteq> t \<longrightarrow> threads k' u = (threads k u)\<lparr>th_stat := th_stat (threads k' u)\<rparr>) \<and>
     (\<forall>u. prio k' u = prio k u) \<and>
     (\<forall>u. u \<noteq> t \<longrightarrow> runnable k' u = runnable k u \<and> (\<not> runnable k u \<longrightarrow> thread_stat k' u = thread_stat k u)) \<and>
     (\<forall>l. (\<forall>p. l \<noteq> LReady p) \<longrightarrow> tlists k' l = removeAll t (tlists k l)) \<and>
     rt_current_thread k' \<noteq> None \<and> rt_scheduler_lock_nest k' = rt_scheduler_lock_nest k \<and>
     (rt_scheduler_lock_nest k = 0 \<longrightarrow> dispatched k')"

lemma rt_thread_timeout_step:
  assumes s: "sched_inv k" and ti: "timer_inv k" and st: "thread_stat k t = RT_THREAD_SUSPEND"
    and nl: "\<not> listed k (Thread_Timer t)" and cur: "rt_current_thread k \<noteq> None"
  obtains k' where "rt_thread_timeout t k = Some k'" "timed_out t k k'"
proof -
  let ?k1 = "tlist_remove t (upd_thread t (\<lambda>th. th\<lparr>th_error := - RT_ETIMEOUT\<rparr>) k)"
  let ?k2 = "rt_schedule_insert_thread t ?k1"
  have ok: "thread_timer_ok k t" using ti st by (auto intro: live_timer_ok simp: live_def)
  have s2: "sched_inv ?k2"
    by (rule sched_inv_resume [OF s st, where e = "- 2"]) (simp_all add: tlist_remove_def)
  have st1: "thread_stat ?k1 u = thread_stat k u" for u by (simp add: thread_stat_def)
  have "timer_inv ?k1" by (rule timer_inv_cong [OF _ _ _ ti]) (simp_all add: st1 live_def)
  then have t2: "timer_inv ?k2" by (rule timer_inv_insert) (simp_all add: st1 nl st)
  have "rt_current_thread ?k2 \<noteq> None" using cur by simp
  with s2 obtain k' where k': "rt_schedule ?k2 = Some k'" "resched ?k2 k'" by (rule rt_schedule_step)
  have "rt_thread_timeout t k = Some k'"
    using k'(1) st ok by (simp add: rt_thread_timeout_def thread_timer_ok_def Let_def)
  moreover have "timed_out t k k'"
  proof -
    note d = reschedD [OF k'(2)]
    have "runnable ?k2 u = runnable k u" "thread_stat ?k2 u = thread_stat k u" if "u \<noteq> t" for u
      using that by (simp_all add: runnable_def thread_stat_def)
    moreover have "threads k' u = (threads k u)\<lparr>th_stat := th_stat (threads k' u)\<rparr>" if "u \<noteq> t" for u
      using that d(4) [unfolded only_stat_def, rule_format, of u] by simp
    moreover have "prio k' u = prio k u" for u
      using only_statD(7) [OF d(4), of u] by (simp add: prio_def)
    moreover have "th_error (threads k' t) = - 2"
      using only_statD(4) [OF d(4), of t] by simp
    moreover have "ipc_same k k'" "timers_same k k'"
      using ipc_same_trans [OF _ d(2), of k] timers_same_trans [OF _ d(3), of k] by simp_all
    moreover have "rt_scheduler_lock_nest k' = rt_scheduler_lock_nest k"
      using rt_schedule_frames(4) [OF k'(1) s2] by simp
    moreover have "dispatched k'" if "rt_scheduler_lock_nest k = 0"
      using rt_schedule_dispatched [OF k'(1) s2 _ insert_thread_runnable] that by simp
    ultimately show ?thesis
      using d(1,5,6,7,8) timer_inv_resched [OF k'(2) t2] insert_thread_runnable [of t ?k1] cur
      by (simp add: timed_out_def)
  qed
  ultimately show ?thesis by (rule that)
qed

end
