(* ===== verification/Timer.thy ===== *)
theory Timer
  imports Thread_Core
begin

text \<open>
  Starting timers and checking them (\<^verbatim>\<open>rt_timer_start\<close>, \<^verbatim>\<open>rt_timer_check\<close>,
  \<^verbatim>\<open>rt_soft_timer_check\<close> of \<^verbatim>\<open>src/timer.c\<close>). User timeout functions are a parameter \<open>cb\<close>: the effect
  of calling the function number \<open>n\<close> with its parameter on the kernel state. The check loops take
  fuel, because a timeout function can keep them busy; \<open>rt_timer_check_returns\<close> gives fuel that is enough
  for timeout functions that do not touch timers.

  With one row, the insertion counter \<^verbatim>\<open>random_nr\<close> of the skip list has no effect and is left out.
\<close>

section \<open>Operations\<close>

text \<open>The loop that looks for the place of a timer in a list, and the insertion there.\<close>

fun timer_insert :: "(tmid \<Rightarrow> rt_tick_t) \<Rightarrow> tmid \<Rightarrow> tmid list \<Rightarrow> tmid list" where
  "timer_insert tick m [] = [m]"
| "timer_insert tick m (t # ts) =
     (if tick t - tick m = 0 then t # timer_insert tick m ts
      else if tick t - tick m < RT_TICK_HALF then m # t # ts
      else t # timer_insert tick m ts)"

definition timeout_tick :: "kernel \<Rightarrow> tmid \<Rightarrow> rt_tick_t" where
  "timeout_tick k m = tm_timeout_tick (timers k m)"

definition timer_enqueue :: "tmid \<Rightarrow> kernel \<Rightarrow> kernel" where
  "timer_enqueue m k =
     (let k = upd_timer m (\<lambda>tm. tm\<lparr>tm_timeout_tick := rt_tick k + tm_init_tick tm\<rparr>) k;
          k = (if tm_flag k m AND RT_TIMER_FLAG_SOFT_TIMER \<noteq> 0
               then k\<lparr>rt_soft_timer_list := timer_insert (timeout_tick k) m (rt_soft_timer_list k)\<rparr>
               else k\<lparr>rt_timer_list := timer_insert (timeout_tick k) m (rt_timer_list k)\<rparr>)
      in set_flag m (\<lambda>f. f OR RT_TIMER_FLAG_ACTIVATED) k)"

definition rt_timer_start :: "tmid \<Rightarrow> kernel \<Rightarrow> (rt_err_t \<times> kernel) option" where
  "rt_timer_start m k = do {
     rt_assert (rt_object_get_type k (OTimer m) = RT_Object_Class_Timer);
     let k = rt_timer_remove m k;
     let k = set_flag m (\<lambda>f. f AND NOT RT_TIMER_FLAG_ACTIVATED) k;
     rt_assert (tm_init_tick (timers k m) < RT_TICK_HALF);
     let k = timer_enqueue m k;
     if tm_flag k m AND RT_TIMER_FLAG_SOFT_TIMER \<noteq> 0 \<and>
        thread_stat k (timer_thread k) = RT_THREAD_SUSPEND
     then do {
       (_, k) \<leftarrow> rt_thread_resume (timer_thread k) k;
       k \<leftarrow> rt_schedule k;
       Some (RT_EOK, k)
     }
     else Some (RT_EOK, k)
   }"

definition call_timeout ::
  "(nat \<Rightarrow> nat \<Rightarrow> kernel \<Rightarrow> kernel option) \<Rightarrow> rt_timer \<Rightarrow> kernel \<Rightarrow> kernel option" where
  "call_timeout cb tm k =
     (case tm_timeout_func tm of
        Rt_thread_timeout \<Rightarrow> rt_thread_timeout (tm_parameter tm) k
      | User_timeout n \<Rightarrow> cb n (tm_parameter tm) k)"

text \<open>What both check loops do with a timer after its timeout function: restart it or mark it off.\<close>

definition timer_rearm :: "tmid \<Rightarrow> kernel \<Rightarrow> kernel option" where
  "timer_rearm m k =
     (let periodic = (tm_flag k m AND RT_TIMER_FLAG_PERIODIC \<noteq> 0 \<and>
                      tm_flag k m AND RT_TIMER_FLAG_ACTIVATED \<noteq> 0);
          k = set_flag m (\<lambda>f. f AND NOT RT_TIMER_FLAG_ACTIVATED) k
      in if periodic then map_option snd (rt_timer_start m k) else Some k)"

fun rt_timer_check_loop ::
  "(nat \<Rightarrow> nat \<Rightarrow> kernel \<Rightarrow> kernel option) \<Rightarrow> nat \<Rightarrow> rt_tick_t \<Rightarrow> kernel \<Rightarrow> kernel option" where
  "rt_timer_check_loop cb 0 current_tick k = None"
| "rt_timer_check_loop cb (Suc fuel) current_tick k =
     (case rt_timer_list k of
        [] \<Rightarrow> Some k
      | m # _ \<Rightarrow>
          if current_tick - timeout_tick k m < RT_TICK_HALF then do {
            let k = rt_timer_remove m k;
            k \<leftarrow> call_timeout cb (timers k m) k;
            let current_tick = rt_tick k;
            k \<leftarrow> timer_rearm m k;
            rt_timer_check_loop cb fuel current_tick k
          }
          else Some k)"

definition rt_timer_check ::
  "(nat \<Rightarrow> nat \<Rightarrow> kernel \<Rightarrow> kernel option) \<Rightarrow> nat \<Rightarrow> kernel \<Rightarrow> kernel option" where
  "rt_timer_check cb fuel k = rt_timer_check_loop cb fuel (rt_tick k) k"

definition rt_timer_next_timeout_tick :: "kernel \<Rightarrow> rt_tick_t" where
  "rt_timer_next_timeout_tick k = rt_timer_list_next_timeout k (rt_timer_list k)"

text \<open>The cursor \<^verbatim>\<open>n\<close> of \<^verbatim>\<open>rt_soft_timer_check\<close>: \<open>None\<close> is the list head, \<open>Some m\<close> the node of timer
  \<open>m\<close>. The successor of a node that was unlinked is the node itself, because \<^verbatim>\<open>rt_list_remove\<close> makes it
  a ring of its own.\<close>

definition next_node :: "tmid list \<Rightarrow> tmid \<Rightarrow> tmid option" where
  "next_node ms m =
     (case dropWhile (\<lambda>x. x \<noteq> m) ms of [] \<Rightarrow> Some m | _ # rest \<Rightarrow> (case rest of [] \<Rightarrow> None | x # _ \<Rightarrow> Some x))"

fun rt_soft_timer_check_loop ::
  "(nat \<Rightarrow> nat \<Rightarrow> kernel \<Rightarrow> kernel option) \<Rightarrow> nat \<Rightarrow> tmid option \<Rightarrow> rt_tick_t \<Rightarrow> kernel \<Rightarrow> kernel option" where
  "rt_soft_timer_check_loop cb fuel None current_tick k = Some k"
| "rt_soft_timer_check_loop cb 0 (Some m) current_tick k = None"
| "rt_soft_timer_check_loop cb (Suc fuel) (Some m) current_tick k =
     (if current_tick - timeout_tick k m < RT_TICK_HALF then do {
        let n = next_node (rt_soft_timer_list k) m;
        let k = rt_timer_remove m k;
        k \<leftarrow> rt_exit_critical k;
        k \<leftarrow> call_timeout cb (timers k m) k;
        let current_tick = rt_tick k;
        let k = rt_enter_critical k;
        k \<leftarrow> timer_rearm m k;
        rt_soft_timer_check_loop cb fuel n current_tick k
      }
      else Some k)"

definition rt_soft_timer_check ::
  "(nat \<Rightarrow> nat \<Rightarrow> kernel \<Rightarrow> kernel option) \<Rightarrow> nat \<Rightarrow> kernel \<Rightarrow> kernel option" where
  "rt_soft_timer_check cb fuel k = do {
     let current_tick = rt_tick k;
     let k = rt_enter_critical k;
     let n = (case rt_soft_timer_list k of [] \<Rightarrow> None | m # _ \<Rightarrow> Some m);
     k \<leftarrow> rt_soft_timer_check_loop cb fuel n current_tick k;
     rt_exit_critical k
   }"

section \<open>The order of a timer list\<close>

text \<open>Ticks wrap, so the order of timeouts is relative to a base tick: all timeouts of a list lie in a
  window of less than half the tick range after it.\<close>

definition tick_dist :: "rt_tick_t \<Rightarrow> rt_tick_t \<Rightarrow> nat" where
  "tick_dist base x = unat (x - base)"

definition in_window :: "rt_tick_t \<Rightarrow> rt_tick_t \<Rightarrow> bool" where
  "in_window base x \<longleftrightarrow> tick_dist base x < unat RT_TICK_HALF"

definition by_timeout :: "(tmid \<Rightarrow> rt_tick_t) \<Rightarrow> rt_tick_t \<Rightarrow> tmid list \<Rightarrow> bool" where
  "by_timeout tick base ms \<longleftrightarrow>
     (\<forall>m \<in> set ms. in_window base (tick m)) \<and> sorted (map (\<lambda>m. tick_dist base (tick m)) ms)"

lemma tick_diff:
  assumes "in_window base x" "in_window base y"
  shows "x - y = 0 \<longleftrightarrow> tick_dist base x = tick_dist base y"
    "x - y \<noteq> 0 \<Longrightarrow> x - y < RT_TICK_HALF \<longleftrightarrow> tick_dist base y < tick_dist base x"
proof -
  let ?a = "x - base" and ?b = "y - base"
  have ab: "unat ?a < 2147483647" "unat ?b < 2147483647"
    using assms by (simp_all add: in_window_def tick_dist_def RT_TICK_HALF_def)
  have d: "x - y = ?a - ?b" by simp
  show "x - y = 0 \<longleftrightarrow> tick_dist base x = tick_dist base y"
    by (metis diff_add_cancel eq_iff_diff_eq_0 tick_dist_def word_unat_eq_iff)
  show "x - y < RT_TICK_HALF \<longleftrightarrow> tick_dist base y < tick_dist base x" if "x - y \<noteq> 0"
  proof -
    have ne: "unat ?a \<noteq> unat ?b"
      using that by (metis diff_add_cancel eq_iff_diff_eq_0 word_unat_eq_iff)
    show ?thesis
    proof (cases "unat ?b \<le> unat ?a")
      case True
      then have "unat (?a - ?b) = unat ?a - unat ?b" by (intro unat_sub) (simp add: word_le_nat_alt)
      with True ab ne show ?thesis
        unfolding d by (simp add: tick_dist_def RT_TICK_HALF_def word_less_nat_alt)
    next
      case False
      then have "unat (?b - ?a) = unat ?b - unat ?a" by (intro unat_sub) (simp add: word_le_nat_alt)
      moreover have "?a - ?b = - (?b - ?a)" by simp
      moreover have "unat (- (?b - ?a)) = 2 ^ 32 - unat (?b - ?a)"
        using ne by (subst unat_neg) auto
      ultimately have "unat (?a - ?b) = 2 ^ 32 - (unat ?b - unat ?a)" by metis
      with False ab show ?thesis
        unfolding d by (simp add: tick_dist_def RT_TICK_HALF_def word_less_nat_alt)
    qed
  qed
qed

lemma timer_insert_set [simp]: "set (timer_insert tick m ms) = insert m (set ms)"
  by (induction ms) auto

lemma timer_insert_distinct: "m \<notin> set ms \<Longrightarrow> distinct (timer_insert tick m ms) = distinct ms"
  by (induction ms) auto

lemma timer_insert_length [simp]: "length (timer_insert tick m ms) = Suc (length ms)"
  by (induction ms) auto

text \<open>The pointer loop is the stable insertion by distance from the base: behind every timer that is
  due earlier or at the same tick, in front of every later one.\<close>

lemma timer_insert_split:
  assumes "\<forall>x \<in> set ms. in_window base (tick x)" "in_window base (tick m)"
    "sorted (map (\<lambda>m. tick_dist base (tick m)) ms)"
  shows "timer_insert tick m ms =
    filter (\<lambda>x. tick_dist base (tick x) \<le> tick_dist base (tick m)) ms @
    m # filter (\<lambda>x. tick_dist base (tick m) < tick_dist base (tick x)) ms"
  using assms
proof (induction ms)
  case (Cons x xs)
  let ?d = "\<lambda>x. tick_dist base (tick x)"
  have w: "in_window base (tick x)" using Cons.prems by simp
  note td = tick_diff [OF w Cons.prems(2)]
  show ?case
  proof (cases "?d m < ?d x")
    case True
    then have "\<forall>y \<in> set xs. ?d m < ?d y" using Cons.prems(3) by auto
    then have "filter (\<lambda>x. ?d x \<le> ?d m) xs = []" "filter (\<lambda>x. ?d m < ?d x) xs = xs"
      by (auto simp: filter_empty_conv not_le)
    moreover have "tick x - tick m \<noteq> 0" using td(1) True by auto
    ultimately show ?thesis using td(2) True by auto
  next
    case False
    then have "tick x - tick m = 0 \<or> \<not> tick x - tick m < RT_TICK_HALF" using td by auto
    then show ?thesis using Cons False by auto
  qed
qed simp

lemma timer_insert_by_timeout:
  assumes "by_timeout tick base ms" "in_window base (tick m)"
  shows "by_timeout tick base (timer_insert tick m ms)"
proof -
  let ?d = "\<lambda>x. tick_dist base (tick x)"
  have w: "\<forall>x \<in> set ms. in_window base (tick x)" and s: "sorted (map ?d ms)"
    using assms(1) by (auto simp: by_timeout_def)
  have "sorted (map ?d (filter (\<lambda>x. ?d x \<le> ?d m) ms @ m # filter (\<lambda>x. ?d m < ?d x) ms))"
    using s by (auto simp: sorted_append intro: sorted_filter less_imp_le)
  then show ?thesis
    using w assms(2) timer_insert_split [OF w assms(2) s] by (auto simp: by_timeout_def)
qed

section \<open>Starting\<close>

lemma flag_activate [simp]:
  "((f :: u8) OR 1) AND 4 = f AND 4" "((f :: u8) AND - 2) AND 4 = f AND 4" "((f :: u8) OR 1) AND 1 = 1"
  "((f :: u8) OR 1) AND 2 = f AND 2" "((f :: u8) AND - 2) AND 2 = f AND 2" "((f :: u8) AND - 2) AND 1 = 0"
  by (simp_all add: bit.conj_disj_distrib2 and.assoc)

lemma list_write_reads [simp]:
  "tm_flag (k\<lparr>rt_timer_list := ms\<rparr>) m = tm_flag k m"
  "tm_flag (k\<lparr>rt_soft_timer_list := ms\<rparr>) m = tm_flag k m"
  "timeout_tick (k\<lparr>rt_timer_list := ms\<rparr>) = timeout_tick k"
  "timeout_tick (k\<lparr>rt_soft_timer_list := ms\<rparr>) = timeout_tick k"
  "rt_object_get_type (k\<lparr>rt_timer_list := ms\<rparr>) r = rt_object_get_type k r"
  "rt_object_get_type (k\<lparr>rt_soft_timer_list := ms\<rparr>) r = rt_object_get_type k r"
  "timeout_tick (set_flag m f k) = timeout_tick k"
  by (simp_all add: tm_flag_def rt_object_get_type_def timeout_tick_def fun_eq_iff)

text \<open>The state in which the restarted timer is on its list.\<close>

definition requeued :: "tmid \<Rightarrow> kernel \<Rightarrow> kernel" where
  "requeued m k = timer_enqueue m (set_flag m (\<lambda>f. f AND NOT RT_TIMER_FLAG_ACTIVATED) (rt_timer_remove m k))"

lemma requeued_frame [simp]:
  "threads (requeued m k) = threads k" "tlists (requeued m k) = tlists k"
  "rt_current_thread (requeued m k) = rt_current_thread k" "rt_tick (requeued m k) = rt_tick k"
  "rt_thread_ready_priority_group (requeued m k) = rt_thread_ready_priority_group k"
  "rt_scheduler_lock_nest (requeued m k) = rt_scheduler_lock_nest k"
  "sched_inv (requeued m k) = sched_inv k" "ipc_same k0 (requeued m k) = ipc_same k0 k"
  "only_stat k0 (requeued m k) = only_stat k0 k"
  "rt_object_get_type (requeued m k) r = rt_object_get_type k r"
  "timers (requeued m k) = (timers k)(m := (timers k m)\<lparr>tm_timeout_tick := rt_tick k + tm_init_tick (timers k m)\<rparr>)"
  by (simp_all add: requeued_def timer_enqueue_def Let_def)

lemma requeued_reads [simp]:
  "thread_stat (requeued m k) t = thread_stat k t" "live (requeued m k) t = live k t"
  "prio (requeued m k) t = prio k t" "runnable (requeued m k) t = runnable k t"
  by (simp_all add: thread_stat_def live_def prio_def runnable_def)

lemma requeued_flag:
  "tm_flag (requeued m k) m' =
     (if m' = m then (tm_flag k m AND NOT RT_TIMER_FLAG_ACTIVATED) OR RT_TIMER_FLAG_ACTIVATED
      else tm_flag k m')"
  by (simp add: requeued_def timer_enqueue_def Let_def)

lemma requeued_lists:
  "tm_flag k m AND RT_TIMER_FLAG_SOFT_TIMER = 0 \<Longrightarrow>
     rt_timer_list (requeued m k) = timer_insert (timeout_tick (requeued m k)) m (removeAll m (rt_timer_list k)) \<and>
     rt_soft_timer_list (requeued m k) = removeAll m (rt_soft_timer_list k)"
  "tm_flag k m AND RT_TIMER_FLAG_SOFT_TIMER \<noteq> 0 \<Longrightarrow>
     rt_timer_list (requeued m k) = removeAll m (rt_timer_list k) \<and>
     rt_soft_timer_list (requeued m k) =
       timer_insert (timeout_tick (requeued m k)) m (removeAll m (rt_soft_timer_list k))"
  by (simp_all add: requeued_def timer_enqueue_def Let_def)

lemma rt_timer_start_eq:
  assumes "rt_object_get_type k (OTimer m) = RT_Object_Class_Timer"
    "tm_init_tick (timers k m) < RT_TICK_HALF"
  shows "rt_timer_start m k =
    (let k = requeued m k
     in if tm_flag k m AND RT_TIMER_FLAG_SOFT_TIMER \<noteq> 0 \<and>
           thread_stat k (timer_thread k) = RT_THREAD_SUSPEND
        then do {
          (_, k) \<leftarrow> rt_thread_resume (timer_thread k) k;
          k \<leftarrow> rt_schedule k;
          Some (RT_EOK, k)
        }
        else Some (RT_EOK, k))"
  using assms by (simp add: rt_timer_start_def requeued_def Let_def)

lemma listed_requeued: "listed (requeued m k) m' \<longleftrightarrow> m' = m \<or> listed k m'"
  using requeued_lists [of k m] by (cases "tm_flag k m AND 4 = 0") (auto simp: listed_def)

definition startable :: "kernel \<Rightarrow> tmid \<Rightarrow> bool" where
  "startable k m \<longleftrightarrow>
     rt_object_get_type k (OTimer m) = RT_Object_Class_Timer \<and>
     (case m of Thread_Timer t \<Rightarrow> thread_stat k t = RT_THREAD_SUSPEND
      | Timer n \<Rightarrow> tm_timeout_func (timers k m) \<noteq> Rt_thread_timeout)"

lemma timer_inv_requeued:
  assumes i: "timer_inv k" and s: "startable k m"
  shows "timer_inv (requeued m k)"
proof -
  let ?k = "requeued m k"
  have "timer_lists_ok ?k"
  proof (cases "tm_flag k m AND 4 = 0")
    case True
    with i s requeued_lists(1) [OF True] show ?thesis
      by (auto simp: timer_inv_def timer_lists_ok_def listed_requeued requeued_flag startable_def
          timer_insert_distinct intro: distinct_removeAll)
  next
    case False
    with i s requeued_lists(2) [OF False] show ?thesis
      by (auto simp: timer_inv_def timer_lists_ok_def listed_requeued requeued_flag startable_def
          timer_insert_distinct intro: distinct_removeAll)
  qed
  moreover have "thread_timer_ok ?k t" if "live k t" for t
    using timer_invD(2) [OF i that] by (auto simp: thread_timer_ok_def requeued_flag)
  moreover have "thread_stat k t = 2" if "listed ?k (Thread_Timer t)" for t
    using that timer_invD(3) [OF i, of t] s by (auto simp: listed_requeued startable_def)
  moreover have "tm_timeout_func (timers ?k (Timer n)) \<noteq> Rt_thread_timeout" if "listed ?k (Timer n)" for n
    using that timer_invD(4) [OF i, of n] s by (auto simp: listed_requeued startable_def)
  ultimately show ?thesis by (simp add: timer_inv_def)
qed

lemma rt_timer_start_hard:
  assumes "startable k m" "tm_init_tick (timers k m) < RT_TICK_HALF"
    "tm_flag k m AND RT_TIMER_FLAG_SOFT_TIMER = 0"
  shows "rt_timer_start m k = Some (RT_EOK, requeued m k)"
  using assms by (simp add: rt_timer_start_eq startable_def requeued_flag)

text \<open>Starting any timer returns in a good state; a soft timer may wake the timer thread.\<close>

lemma rt_timer_start_step:
  assumes s: "sched_inv k" and ti: "timer_inv k" and st: "startable k m"
    and n: "tm_init_tick (timers k m) < RT_TICK_HALF" and c: "rt_current_thread k \<noteq> None"
  obtains k' where "rt_timer_start m k = Some (RT_EOK, k')" "sched_inv k'" "timer_inv k'" "ipc_same k k'"
    "only_stat k k'" "rt_current_thread k' \<noteq> None"
proof -
  let ?k = "requeued m k"
  have ti': "timer_inv ?k" using ti st by (rule timer_inv_requeued)
  have s': "sched_inv ?k" using s by simp
  have ty: "rt_object_get_type k (OTimer m) = 10" using st by (simp add: startable_def)
  show ?thesis
  proof (cases "tm_flag ?k m AND 4 \<noteq> 0 \<and> thread_stat ?k (timer_thread ?k) = 2")
    case True
    then have "thread_stat ?k (timer_thread ?k) = 2" by blast
    from rt_thread_resume_step [OF s' ti' this] obtain k1
      where k1: "rt_thread_resume (timer_thread ?k) ?k = Some (RT_EOK, k1)" "woken (timer_thread ?k) ?k k1"
      by blast
    note w = wokenD [OF k1(2)]
    have "rt_current_thread k1 \<noteq> None" using c w(8) by simp
    with w(1) obtain k' where k': "rt_schedule k1 = Some k'" "resched k1 k'" by (rule rt_schedule_step)
    note d = reschedD [OF k'(2)]
    have "rt_timer_start m k = Some (RT_EOK, k')"
      using True k1(1) k'(1) by (simp add: rt_timer_start_eq [OF ty n] Let_def)
    moreover have "ipc_same k k'" using ipc_same_trans [OF _ ipc_same_trans [OF w(3) d(2)], of k] by simp
    moreover have "only_stat k k'" using only_stat_trans [OF w(4) d(4)] by (simp add: only_stat_def)
    ultimately show ?thesis
      using that [of k'] d(1,8) timer_inv_resched [OF k'(2) w(2)] \<open>rt_current_thread k1 \<noteq> None\<close> by blast
  next
    case False
    then have "rt_timer_start m k = Some (RT_EOK, ?k)"
      by (auto simp: rt_timer_start_eq [OF ty n] Let_def)
    then show ?thesis using that [of ?k] s' ti' c by simp
  qed
qed

section \<open>Checking\<close>

definition due :: "kernel \<Rightarrow> tmid \<Rightarrow> bool" where
  "due k m \<longleftrightarrow> rt_tick k - timeout_tick k m < RT_TICK_HALF"

text \<open>The timeout functions the guarantees of \<^verbatim>\<open>rt_timer_check\<close> are for: they return, keep the
  invariants and leave timers and the tick alone.\<close>

definition quiet :: "(nat \<Rightarrow> nat \<Rightarrow> kernel \<Rightarrow> kernel option) \<Rightarrow> bool" where
  "quiet cb \<longleftrightarrow> (\<forall>n p k. sched_inv k \<longrightarrow> timer_inv k \<longrightarrow> rt_current_thread k \<noteq> None \<longrightarrow>
     (\<exists>k'. cb n p k = Some k' \<and> sched_inv k' \<and> timer_inv k' \<and> rt_current_thread k' \<noteq> None \<and>
        timers_same k k' \<and> rt_tick k' = rt_tick k \<and> timer_thread k' = timer_thread k))"

definition periods_ok :: "kernel \<Rightarrow> bool" where
  "periods_ok k \<longleftrightarrow> (\<forall>m \<in> set (rt_timer_list k). tm_init_tick (timers k m) < RT_TICK_HALF \<and>
     (tm_flag k m AND RT_TIMER_FLAG_PERIODIC \<noteq> 0 \<longrightarrow> tm_init_tick (timers k m) \<noteq> 0))"

lemma timeout_runs:
  assumes q: "quiet cb" and s: "sched_inv k" and ti: "timer_inv k" and c: "rt_current_thread k \<noteq> None"
    and m: "rt_timer_list k = m # ms"
  obtains k' where "call_timeout cb (timers k m) (rt_timer_remove m k) = Some k'"
    "sched_inv k'" "timer_inv k'" "rt_current_thread k' \<noteq> None"
    "timers_same (rt_timer_remove m k) k'" "rt_tick k' = rt_tick k"
proof -
  let ?k = "rt_timer_remove m k"
  have l: "listed k m" using m by (simp add: listed_def)
  have g: "sched_inv ?k" "timer_inv ?k" "rt_current_thread ?k \<noteq> None"
    using s ti c by (simp_all add: timer_inv_remove)
  show ?thesis
  proof (cases m)
    case (Timer n)
    then have "tm_timeout_func (timers k m) \<noteq> Rt_thread_timeout"
      using timer_invD(4) [OF ti, of n] l by simp
    then obtain f where f: "tm_timeout_func (timers k m) = User_timeout f"
      by (cases "tm_timeout_func (timers k m)") auto
    from q g obtain k' where "cb f (tm_parameter (timers k m)) ?k = Some k'" "sched_inv k'" "timer_inv k'"
      "rt_current_thread k' \<noteq> None" "timers_same ?k k'" "rt_tick k' = rt_tick ?k"
      unfolding quiet_def by metis
    with f show ?thesis by (intro that [of k']) (simp_all add: call_timeout_def)
  next
    case (Thread_Timer t)
    then have st: "thread_stat k t = 2" using timer_invD(3) [OF ti, of t] l by simp
    then have ok: "thread_timer_ok k t" using ti by (auto intro: live_timer_ok simp: live_def)
    have "thread_stat ?k t = 2" "\<not> listed ?k (Thread_Timer t)"
      using st Thread_Timer by simp_all
    from rt_thread_timeout_step [OF g(1,2) this g(3)] obtain k'
      where k': "rt_thread_timeout t ?k = Some k'" "timed_out t ?k k'" by blast
    have "rt_tick k' = rt_tick k" using k'(2) ipc_sameD(9) [of ?k k'] by (simp add: timed_out_def)
    with k' ok Thread_Timer show ?thesis
      by (intro that [of k']) (simp_all add: call_timeout_def thread_timer_ok_def timed_out_def)
  qed
qed

text \<open>One round of the loop, on the timer at the head of the list. \<open>fired m k k'\<close>: the timer is off
  the list, or on it again with a new timeout when it is periodic; the other timers are as before.\<close>

definition timer_same :: "kernel \<Rightarrow> kernel \<Rightarrow> tmid \<Rightarrow> bool" where
  "timer_same k k' m \<longleftrightarrow> timers k' m = timers k m \<and> tm_flag k' m = tm_flag k m"

definition fired :: "tmid \<Rightarrow> kernel \<Rightarrow> kernel \<Rightarrow> bool" where
  "fired m k k' \<longleftrightarrow>
     sched_inv k' \<and> timer_inv k' \<and> rt_current_thread k' \<noteq> None \<and> rt_tick k' = rt_tick k \<and>
     (\<forall>x. x \<noteq> m \<longrightarrow> timer_same k k' x) \<and>
     (if tm_flag k m AND RT_TIMER_FLAG_PERIODIC \<noteq> 0
      then rt_timer_list k' = timer_insert (timeout_tick k') m (removeAll m (rt_timer_list k)) \<and>
           timers k' m = (timers k m)\<lparr>tm_timeout_tick := rt_tick k + tm_init_tick (timers k m)\<rparr> \<and>
           tm_flag k' m AND RT_TIMER_FLAG_PERIODIC \<noteq> 0
      else rt_timer_list k' = removeAll m (rt_timer_list k))"

lemma timer_rearm_fired:
  assumes s: "sched_inv k1" and ti: "timer_inv k1" and c: "rt_current_thread k1 \<noteq> None"
    and same: "timers_same (rt_timer_remove m k) k1" "rt_tick k1 = rt_tick k"
    and k: "timer_inv k" "periods_ok k" "m \<in> set (rt_timer_list k)"
  obtains k' where "timer_rearm m k1 = Some k'" "fired m k k'"
proof -
  note d = timers_sameD [OF same(1)]
  let ?k2 = "set_flag m (\<lambda>f. f AND - 2) k1"
  have fl: "tm_flag k1 x = tm_flag k x" for x using d(2) by (simp add: tm_flag_def rt_timer_remove_def)
  have nl: "\<not> listed k1 m" using d(3,4) by (simp add: listed_def)
  have lm: "listed k m" using k(3) by (simp add: listed_def)
  have ti2: "timer_inv ?k2" using timer_inv_deactivate [OF ti nl] by simp
  have act: "tm_flag k m AND 1 \<noteq> 0" "tm_flag k m AND 4 = 0" "rt_object_get_type k (OTimer m) = 10"
    using k(1,3) lm by (auto simp: timer_inv_def timer_lists_ok_def)
  show ?thesis
  proof (cases "tm_flag k m AND 2 = 0")
    case True
    then have "timer_rearm m k1 = Some ?k2" by (simp add: timer_rearm_def fl)
    moreover have "fired m k ?k2"
      using True s ti2 c same(2) d fl by (auto simp: fired_def timer_same_def)
    ultimately show ?thesis by (rule that)
  next
    case False
    obtain n where n: "m = Timer n"
    proof (cases m)
      case (Thread_Timer t)
      then have "live k t" using timer_invD(3) [OF k(1), of t] lm by (simp add: live_def)
      then have "tm_flag k m AND 2 = 0"
        using timer_invD(2) [OF k(1)] Thread_Timer by (simp add: thread_timer_ok_def)
      with False show ?thesis by simp
    qed
    have "rt_object_get_type k1 (OTimer m) = 10"
      using act(3) d(2) by (simp add: rt_object_get_type_def rt_timer_remove_def)
    then have "startable ?k2 m"
      using n timer_invD(4) [OF k(1), of n] lm d(1) by (simp add: startable_def)
    moreover have "tm_init_tick (timers ?k2 m) < RT_TICK_HALF"
      using k(2,3) d(1) by (simp add: periods_ok_def)
    moreover have "tm_flag ?k2 m AND 4 = 0" using act(2) fl by simp
    ultimately have "rt_timer_start m ?k2 = Some (RT_EOK, requeued m ?k2)" "timer_inv (requeued m ?k2)"
      by (simp_all add: rt_timer_start_hard timer_inv_requeued [OF ti2])
    moreover have "fired m k (requeued m ?k2)"
      using False s c same(2) d fl act(2) requeued_lists(1) [of ?k2 m] calculation(2)
      by (auto simp: fired_def timer_same_def requeued_flag)
    moreover have "timer_rearm m k1 = map_option snd (rt_timer_start m ?k2)"
      using False act(1) fl by (simp add: timer_rearm_def)
    ultimately show ?thesis by (intro that [of "requeued m ?k2"]) simp_all
  qed
qed

lemma check_round:
  assumes q: "quiet cb" and s: "sched_inv k" and ti: "timer_inv k" and c: "rt_current_thread k \<noteq> None"
    and p: "periods_ok k" and m: "rt_timer_list k = m # ms" and due: "due k m"
  obtains k' where "rt_timer_check_loop cb (Suc fuel) (rt_tick k) k = rt_timer_check_loop cb fuel (rt_tick k') k'"
    "fired m k k'"
proof -
  from timeout_runs [OF q s ti c m] obtain k1 where
    k1: "call_timeout cb (timers k m) (rt_timer_remove m k) = Some k1" "sched_inv k1" "timer_inv k1"
      "rt_current_thread k1 \<noteq> None" "timers_same (rt_timer_remove m k) k1" "rt_tick k1 = rt_tick k"
    by blast
  moreover have "m \<in> set (rt_timer_list k)" using m by simp
  ultimately obtain k' where "timer_rearm m k1 = Some k'" "fired m k k'"
    using timer_rearm_fired [OF k1(2-6) ti p] by blast
  with k1 m due show ?thesis by (intro that [of k']) (simp_all add: due_def fired_def)
qed

lemma restarted_not_due:
  assumes "n \<noteq> 0" "n < RT_TICK_HALF"
  shows "\<not> rt_tick k - (rt_tick k + n) < RT_TICK_HALF"
proof -
  have "unat (- n) = 2 ^ 32 - unat n" using assms(1) by (simp add: unat_neg)
  moreover have "unat n < 2147483647" using assms(2) by (simp add: RT_TICK_HALF_def word_less_nat_alt)
  ultimately show ?thesis by (simp add: RT_TICK_HALF_def word_less_nat_alt)
qed

definition due_timers :: "kernel \<Rightarrow> tmid set" where
  "due_timers k = {m \<in> set (rt_timer_list k). due k m}"

definition periodic :: "kernel \<Rightarrow> tmid \<Rightarrow> bool" where
  "periodic k m \<longleftrightarrow> tm_flag k m AND RT_TIMER_FLAG_PERIODIC \<noteq> 0"

lemma fired_effect:
  assumes f: "fired m k k'" and m: "m \<in> due_timers k" and p: "periods_ok k"
  shows "due_timers k' = due_timers k - {m}" "periods_ok k'"
    "set (rt_timer_list k') = {x \<in> set (rt_timer_list k). x \<noteq> m \<or> periodic k x}"
    "x \<noteq> m \<Longrightarrow> timer_same k k' x" "due k' x \<Longrightarrow> x \<noteq> m \<Longrightarrow> due k x"
    "x \<in> set (rt_timer_list k') \<Longrightarrow> periodic k' x = periodic k x"
    "rt_tick k' = rt_tick k"
proof -
  have mem: "m \<in> set (rt_timer_list k)" using m by (simp add: due_timers_def)
  have tick: "rt_tick k' = rt_tick k" using f by (simp add: fired_def)
  have per: "tm_init_tick (timers k m) \<noteq> 0" "tm_init_tick (timers k m) < RT_TICK_HALF" if "periodic k m"
    using p mem that by (auto simp: periods_ok_def periodic_def)
  have same: "due k' x = due k x" "tm_flag k' x = tm_flag k x" "timers k' x = timers k x" if "x \<noteq> m" for x
    using f that by (simp_all add: fired_def timer_same_def due_def timeout_tick_def)
  have nd: "\<not> due k' m" if "periodic k m"
  proof -
    have "timeout_tick k' m = rt_tick k' + tm_init_tick (timers k m)"
      using f that tick by (simp add: fired_def periodic_def timeout_tick_def)
    then show ?thesis using restarted_not_due [OF per [OF that], of k'] by (simp add: due_def)
  qed
  have set': "set (rt_timer_list k') = {x \<in> set (rt_timer_list k). x \<noteq> m \<or> periodic k x}"
    using f mem by (auto simp: fired_def periodic_def split: if_splits)
  show "set (rt_timer_list k') = {x \<in> set (rt_timer_list k). x \<noteq> m \<or> periodic k x}"
    by (rule set')
  show "due_timers k' = due_timers k - {m}"
  proof (rule set_eqI)
    show "x \<in> due_timers k' \<longleftrightarrow> x \<in> due_timers k - {m}" for x
      using nd same(1) [of x] by (cases "x = m") (auto simp: due_timers_def set')
  qed
  show "periods_ok k'"
    unfolding periods_ok_def
  proof
    fix x
    assume x: "x \<in> set (rt_timer_list k')"
    show "tm_init_tick (timers k' x) < RT_TICK_HALF \<and>
      (tm_flag k' x AND RT_TIMER_FLAG_PERIODIC \<noteq> 0 \<longrightarrow> tm_init_tick (timers k' x) \<noteq> 0)"
    proof (cases "x = m")
      case True
      with x have "periodic k m" by (simp add: set')
      then show ?thesis using per f True by (simp add: fired_def periodic_def)
    next
      case False
      with x p same show ?thesis by (simp add: periods_ok_def set')
    qed
  qed
  show "periodic k' x = periodic k x" if "x \<in> set (rt_timer_list k')"
    using that f same(2) [of x] by (cases "x = m") (auto simp: set' periodic_def fired_def)
qed (use f in \<open>auto simp: fired_def timer_same_def due_def timeout_tick_def periodic_def split: if_splits\<close>)

text \<open>What a check needs: the invariants, periods that are not zero, and the list in order of time,
  with the restart times of its periodic timers in the same window.\<close>

definition check_ready :: "rt_tick_t \<Rightarrow> kernel \<Rightarrow> bool" where
  "check_ready base k \<longleftrightarrow>
     sched_inv k \<and> timer_inv k \<and> rt_current_thread k \<noteq> None \<and> periods_ok k \<and>
     by_timeout (timeout_tick k) base (rt_timer_list k) \<and>
     (\<forall>m \<in> set (rt_timer_list k). periodic k m \<longrightarrow> in_window base (rt_tick k + tm_init_tick (timers k m)))"

lemma by_timeout_cong:
  "(\<And>m. m \<in> set ms \<Longrightarrow> f m = g m) \<Longrightarrow> by_timeout f base ms = by_timeout g base ms"
  by (simp add: by_timeout_def cong: map_cong)

lemma by_timeout_removeAll: "by_timeout f base ms \<Longrightarrow> by_timeout f base (removeAll m ms)"
  by (auto simp: by_timeout_def removeAll_filter_not_eq intro: sorted_filter)

lemma fired_ready:
  assumes f: "fired m k k'" and m: "m \<in> due_timers k" and r: "check_ready base k"
  shows "check_ready base k'"
proof -
  have p: "periods_ok k" using r by (simp add: check_ready_def)
  note e = fired_effect [OF f m p]
  have mem: "m \<in> set (rt_timer_list k)" using m by (simp add: due_timers_def)
  have b: "by_timeout (timeout_tick k) base (removeAll m (rt_timer_list k))"
    using r by (simp add: check_ready_def by_timeout_removeAll)
  have "by_timeout (timeout_tick k') base (removeAll m (rt_timer_list k))"
    by (subst by_timeout_cong [of _ _ "timeout_tick k"])
      (use b e(4) in \<open>auto simp: timer_same_def timeout_tick_def\<close>)
  moreover have "in_window base (timeout_tick k' m)" if "periodic k m"
    using f that r mem by (auto simp: fired_def periodic_def check_ready_def timeout_tick_def)
  ultimately have "by_timeout (timeout_tick k') base (rt_timer_list k')"
    using f by (auto simp: fired_def periodic_def intro: timer_insert_by_timeout split: if_splits)
  moreover have "tm_init_tick (timers k' x) = tm_init_tick (timers k x)" if "x \<in> set (rt_timer_list k')" for x
    using that f e(3) e(4) [of x] by (cases "x = m") (auto simp: fired_def periodic_def timer_same_def)
  then have "\<forall>x \<in> set (rt_timer_list k'). periodic k' x \<longrightarrow> in_window base (rt_tick k' + tm_init_tick (timers k' x))"
    using e(3,6,7) r by (auto simp: check_ready_def)
  ultimately show ?thesis using f e(2) by (simp add: check_ready_def fired_def)
qed

lemma head_not_due:
  assumes b: "by_timeout (timeout_tick k) base (m # ms)" and w: "in_window base (rt_tick k)"
    and h: "\<not> due k m" and x: "x \<in> set (m # ms)"
  shows "\<not> due k x"
proof -
  let ?d = "\<lambda>x. tick_dist base (timeout_tick k x)"
  have win: "in_window base (timeout_tick k y)" if "y \<in> set (m # ms)" for y
    using b that by (auto simp: by_timeout_def)
  have iff: "due k y \<longleftrightarrow> ?d y \<le> tick_dist base (rt_tick k)" if "y \<in> set (m # ms)" for y
    using tick_diff [OF w win [OF that]]
    by (auto simp: due_def RT_TICK_HALF_def)
  have "?d m \<le> ?d x" using b x by (auto simp: by_timeout_def)
  with iff [of m] iff [OF x] h show ?thesis by auto
qed

lemma rt_timer_check_loop_done:
  assumes "quiet cb" "check_ready base k" "in_window base (rt_tick k)" "card (due_timers k) < fuel"
  shows "\<exists>k'. rt_timer_check_loop cb fuel (rt_tick k) k = Some k' \<and> check_ready base k' \<and>
    rt_tick k' = rt_tick k \<and> due_timers k' = {} \<and>
    set (rt_timer_list k') = {x \<in> set (rt_timer_list k). \<not> due k x \<or> periodic k x}"
  using assms(2-)
proof (induction fuel arbitrary: k)
  case (Suc fuel)
  have ready: "sched_inv k" "timer_inv k" "rt_current_thread k \<noteq> None" "periods_ok k"
    "by_timeout (timeout_tick k) base (rt_timer_list k)"
    using Suc.prems(1) by (auto simp: check_ready_def)
  show ?case
  proof (cases "\<exists>m ms. rt_timer_list k = m # ms \<and> due k m")
    case False
    then have nd: "\<not> due k x" if "x \<in> set (rt_timer_list k)" for x
      using that head_not_due [OF _ Suc.prems(2)] ready(5) by (cases "rt_timer_list k") auto
    have "rt_timer_check_loop cb (Suc fuel) (rt_tick k) k = Some k"
      using False by (auto simp: due_def split: list.splits)
    then show ?thesis using nd Suc.prems by (auto simp: due_timers_def)
  next
    case True
    then obtain m ms where m: "rt_timer_list k = m # ms" "due k m" by blast
    obtain k' where k': "rt_timer_check_loop cb (Suc fuel) (rt_tick k) k = rt_timer_check_loop cb fuel (rt_tick k') k'"
      "fired m k k'"
      using check_round [OF assms(1) ready(1-4) m] by blast
    have mem: "m \<in> due_timers k" using m by (simp add: due_timers_def)
    note e = fired_effect [OF k'(2) mem ready(4)]
    have "card (due_timers k') = card (due_timers k) - 1" "card (due_timers k) > 0"
      using e(1) mem by (auto simp: card_gt_0_iff due_timers_def)
    then have "card (due_timers k') < fuel" using Suc.prems(3) by linarith
    from Suc.IH [OF fired_ready [OF k'(2) mem Suc.prems(1)] _ this] obtain k'' where
      k'': "rt_timer_check_loop cb fuel (rt_tick k') k' = Some k''" "check_ready base k''"
        "rt_tick k'' = rt_tick k'" "due_timers k'' = {}"
        "set (rt_timer_list k'') = {x \<in> set (rt_timer_list k'). \<not> due k' x \<or> periodic k' x}"
      using Suc.prems(2) e(7) by auto
    have "x \<in> set (rt_timer_list k'') \<longleftrightarrow> x \<in> set (rt_timer_list k) \<and> (\<not> due k x \<or> periodic k x)" for x
    proof (cases "x = m")
      case True
      then show ?thesis using k''(5) e(3) e(6) [of x] m by auto
    next
      case False
      then have "due k' x = due k x" using e(4) [OF False] e(7) by (simp add: due_def timer_same_def timeout_tick_def)
      then show ?thesis using k''(5) e(3) e(6) [of x] False by auto
    qed
    then have "set (rt_timer_list k'') = {x \<in> set (rt_timer_list k). \<not> due k x \<or> periodic k x}"
      by blast
    then show ?thesis using k'(1) k'' e(7) by auto
  qed
qed simp

section \<open>Properties\<close>


lemma oref_class_simps [simp]: "(oref_class r OR 128) AND - 129 = oref_class r"
  by (cases r) (simp_all add: oref_class_def)

lemma demo_thread_timer_ok: "thread_timer_ok demo_kernel t"
  by (simp add: thread_timer_ok_def rt_object_get_type_def tm_flag_def demo_kernel_def)
    (simp add: oref_class_def)

lemma demo_timer_inv: "timer_inv demo_kernel"
  by (simp add: timer_inv_def demo_thread_timer_ok)
    (simp add: timer_lists_ok_def listed_def demo_kernel_def zero_kernel_def)

text \<open>The example system with a periodic user timer that is due.\<close>

definition demo_tick_kernel :: kernel where
  "demo_tick_kernel = (set_flag (Timer 0) (\<lambda>_. 3) demo_kernel)\<lparr>rt_timer_list := [Timer 0]\<rparr>"

lemma demo_tick_ready: "check_ready 0 demo_tick_kernel"
proof -
  have "sched_inv demo_tick_kernel" by (simp add: demo_tick_kernel_def demo_kernel_inv)
  moreover have "timer_inv demo_tick_kernel"
    using demo_thread_timer_ok
    by (simp add: timer_inv_def timer_lists_ok_def thread_timer_ok_def demo_tick_kernel_def listed_def)
      (simp add: demo_kernel_def zero_kernel_def rt_object_get_type_def oref_class_def)
  moreover have "rt_current_thread demo_tick_kernel \<noteq> None" "periods_ok demo_tick_kernel"
    "by_timeout (timeout_tick demo_tick_kernel) 0 (rt_timer_list demo_tick_kernel)"
    "\<forall>m \<in> set (rt_timer_list demo_tick_kernel). in_window 0 (rt_tick demo_tick_kernel + tm_init_tick (timers demo_tick_kernel m))"
    by (simp_all add: demo_tick_kernel_def periods_ok_def by_timeout_def in_window_def tick_dist_def
        timeout_tick_def demo_kernel_def zero_kernel_def RT_TICK_HALF_def)
  ultimately show ?thesis by (simp add: check_ready_def)
qed


text \<open>\<^verbatim>\<open>rt_timer_start\<close> puts a timer on its list at the place its timeout demands: behind every
  timer that expires earlier or at the same tick and in front of every later one (first started, first
  served), also when the tick counter wraps in between; the list stays in order of time.\<close>

theorem rt_timer_start_sorted:
  assumes "startable k m" "tm_init_tick (timers k m) < RT_TICK_HALF"
    and "tm_flag k m AND RT_TIMER_FLAG_SOFT_TIMER = 0"
    and "by_timeout (timeout_tick k) base (rt_timer_list k)"
    and "in_window base (rt_tick k + tm_init_tick (timers k m))"
  shows "\<exists>k'. rt_timer_start m k = Some (RT_EOK, k') \<and>
    timeout_tick k' m = rt_tick k + tm_init_tick (timers k m) \<and>
    by_timeout (timeout_tick k') base (rt_timer_list k') \<and>
    rt_timer_list k' =
      (let late = (\<lambda>x. tick_dist base (timeout_tick k' m) < tick_dist base (timeout_tick k' x));
           others = removeAll m (rt_timer_list k)
       in filter (\<lambda>x. \<not> late x) others @ m # filter late others)"
proof -
  let ?k = "requeued m k"
  have st: "rt_timer_start m k = Some (RT_EOK, ?k)" using rt_timer_start_hard [OF assms(1-3)] .
  have b: "by_timeout (timeout_tick ?k) base (removeAll m (rt_timer_list k))"
    by (subst by_timeout_cong [of _ _ "timeout_tick k"])
      (use by_timeout_removeAll [OF assms(4)] in \<open>auto simp: timeout_tick_def\<close>)
  have w: "in_window base (timeout_tick ?k m)" using assms(5) by (simp add: timeout_tick_def)
  have l: "rt_timer_list ?k = timer_insert (timeout_tick ?k) m (removeAll m (rt_timer_list k))"
    using requeued_lists(1) [OF assms(3)] by simp
  have "rt_timer_list ?k =
      filter (\<lambda>x. tick_dist base (timeout_tick ?k x) \<le> tick_dist base (timeout_tick ?k m)) (removeAll m (rt_timer_list k)) @
      m # filter (\<lambda>x. tick_dist base (timeout_tick ?k m) < tick_dist base (timeout_tick ?k x)) (removeAll m (rt_timer_list k))"
    unfolding l using b w by (intro timer_insert_split) (auto simp: by_timeout_def)
  moreover have "timeout_tick ?k m = rt_tick k + tm_init_tick (timers k m)"
    by (simp add: timeout_tick_def)
  ultimately show ?thesis
    using st timer_insert_by_timeout [OF b w] l by (simp add: Let_def not_less)
qed

theorem rt_timer_start_sorted_witness:
  "\<exists>k'. rt_timer_start (Timer 7) demo_tick_kernel = Some (RT_EOK, k') \<and> timeout_tick k' (Timer 7) = 10 \<and>
     by_timeout (timeout_tick k') 0 (rt_timer_list k')"
proof -
  have "startable demo_tick_kernel (Timer 7)"
    by (simp add: startable_def demo_tick_kernel_def)
      (simp add: demo_kernel_def rt_object_get_type_def oref_class_def)
  moreover have "tm_init_tick (timers demo_tick_kernel (Timer 7)) = 10" "rt_tick demo_tick_kernel = 0"
    "tm_flag demo_tick_kernel (Timer 7) AND 4 = 0"
    by (simp_all add: demo_tick_kernel_def) (simp_all add: demo_kernel_def zero_kernel_def tm_flag_def)
  moreover have "by_timeout (timeout_tick demo_tick_kernel) 0 (rt_timer_list demo_tick_kernel)"
    using demo_tick_ready by (simp add: check_ready_def)
  moreover have "(10 :: rt_tick_t) < RT_TICK_HALF" "in_window 0 10"
    by (simp_all add: RT_TICK_HALF_def in_window_def tick_dist_def)
  ultimately show ?thesis
    using rt_timer_start_sorted [of demo_tick_kernel "Timer 7" 0] by auto
qed

section \<open>Between two ticks\<close>

text \<open>\<open>steady\<close>: the list of hard timers as a check leaves it, in order of time from the current tick on, with nothing
  due. Stopping a timer and starting one with a positive time keep it so, and it is what the check of the next tick
  needs.\<close>

definition steady :: "kernel \<Rightarrow> bool" where
  "steady k \<longleftrightarrow>
     periods_ok k \<and> by_timeout (timeout_tick k) (rt_tick k) (rt_timer_list k) \<and> due_timers k = {}"

lemma steady_cong:
  assumes "timers_same k k'" "rt_tick k' = rt_tick k"
  shows "steady k' = steady k"
  using assms timers_sameD [OF assms(1)]
  by (simp add: steady_def periods_ok_def tm_flag_def timeout_tick_def [abs_def] due_timers_def due_def)

lemma steady_but:
  assumes b: "timers_but m k k'" and t: "rt_tick k' = rt_tick k" and s: "steady k"
  shows "steady k'"
proof -
  note b = b [unfolded timers_but_def]
  have mem: "x \<in> set (rt_timer_list k')  \<longleftrightarrow> x \<in> set (rt_timer_list k) \<and> x \<noteq> m" for x using b by auto
  have tt: "timeout_tick k' x = timeout_tick k x" if "x \<noteq> m" for x using b that by (simp add: timeout_tick_def)
  have "by_timeout (timeout_tick k') (rt_tick k) (removeAll m (rt_timer_list k))"
    by (subst by_timeout_cong [of _ _ "timeout_tick k"])
      (use s by_timeout_removeAll in \<open>auto simp: steady_def tt\<close>)
  moreover have "periods_ok k'" using s b unfolding steady_def periods_ok_def by (auto simp: mem)
  moreover have "due_timers k' = {}" using s t by (auto simp: steady_def due_timers_def due_def mem tt)
  ultimately show ?thesis using b t by (simp add: steady_def)
qed

lemma steady_start:
  assumes b: "timers_but m k k'" and t: "rt_tick k' = rt_tick k" and s: "steady k"
    and l: "rt_timer_list k'' = timer_insert (timeout_tick k'') m (rt_timer_list k')" "rt_tick k'' = rt_tick k'"
    and same: "\<And>x. x \<noteq> m \<Longrightarrow> timers k'' x = timers k' x \<and> tm_flag k'' x = tm_flag k' x"
    and n: "timeout_tick k'' m = rt_tick k' + n" "tm_init_tick (timers k'' m) = n" "n \<noteq> 0" "n < RT_TICK_HALF"
  shows "steady k''"
proof -
  have s': "steady k'" using steady_but [OF b t s] .
  have nm: "m \<notin> set (rt_timer_list k')" using b by (simp add: timers_but_def)
  have tt: "timeout_tick k'' x = timeout_tick k' x" if "x \<noteq> m" for x using same [OF that] by (simp add: timeout_tick_def)
  have "by_timeout (timeout_tick k'') (rt_tick k') (rt_timer_list k')"
    by (subst by_timeout_cong [of _ _ "timeout_tick k'"]) (use s' nm in \<open>auto simp: steady_def intro!: tt\<close>)
  moreover have "in_window (rt_tick k') (timeout_tick k'' m)"
    using n by (simp add: in_window_def tick_dist_def word_less_nat_alt)
  ultimately have "by_timeout (timeout_tick k'') (rt_tick k'') (rt_timer_list k'')"
    unfolding l by (rule timer_insert_by_timeout)
  moreover have "tm_init_tick (timers k'' x) < RT_TICK_HALF \<and>
      (tm_flag k'' x AND RT_TIMER_FLAG_PERIODIC \<noteq> 0 \<longrightarrow> tm_init_tick (timers k'' x) \<noteq> 0)"
    if "x \<in> set (rt_timer_list k'')" for x
    using s' same [of x] n that l(1) by (cases "x = m") (auto simp: steady_def periods_ok_def)
  then have "periods_ok k''" by (simp add: periods_ok_def)
  moreover have "\<not> due k'' x" if "x \<in> set (rt_timer_list k'')" for x
  proof (cases "x = m")
    case True
    then show ?thesis using n(1) l(2) restarted_not_due [OF n(3,4), of k''] by (simp add: due_def)
  next
    case False
    then have "x \<in> set (rt_timer_list k')" using that l(1) by simp
    with s' have "\<not> due k' x" by (auto simp: steady_def due_timers_def)
    then show ?thesis using l(2) tt [OF False] by (simp add: due_def)
  qed
  ultimately show ?thesis by (auto simp: steady_def due_timers_def)
qed

lemma window_advance:
  assumes w: "in_window base x" and d: "\<not> base - x < RT_TICK_HALF"
  shows "in_window (base + 1) x" "Suc (tick_dist (base + 1) x) = tick_dist base x"
proof -
  have "x \<noteq> base" using d by (auto simp: RT_TICK_HALF_def)
  then have pos: "0 < unat (x - base)" by (simp add: word_neq_0_conv unat_gt_0 flip: word_neq_0_conv)
  have "x - (base + 1) = (x - base) - 1" by (simp add: algebra_simps)
  moreover have "unat ((x - base) - 1) = unat (x - base) - 1"
    using pos by (subst unat_sub) (simp_all add: word_le_nat_alt Suc_leI)
  ultimately have "unat (x - (base + 1)) = unat (x - base) - 1" by metis
  with w pos show "in_window (base + 1) x" "Suc (tick_dist (base + 1) x) = tick_dist base x"
    by (simp_all add: in_window_def tick_dist_def)
qed

text \<open>A steady state is ready for the check at the next tick.\<close>

lemma steady_ready:
  assumes i: "sched_inv k" "timer_inv k" "rt_current_thread k \<noteq> None" and s: "steady k"
  shows "check_ready (rt_tick k + 1) (k\<lparr>rt_tick := rt_tick k + 1\<rparr>)"
proof -
  let ?b = "rt_tick k" and ?k = "k\<lparr>rt_tick := rt_tick k + 1\<rparr>"
  have w: "in_window (?b + 1) (timeout_tick k m)" "Suc (tick_dist (?b + 1) (timeout_tick k m)) = tick_dist ?b (timeout_tick k m)"
    if "m \<in> set (rt_timer_list k)" for m
    using that s window_advance [of ?b "timeout_tick k m"]
    by (auto simp: steady_def by_timeout_def due_timers_def due_def)
  have "sorted (map (\<lambda>m. Suc (tick_dist (?b + 1) (timeout_tick k m))) (rt_timer_list k))"
    using s w(2) by (simp add: steady_def by_timeout_def cong: map_cong)
  then have "sorted (map (\<lambda>m. tick_dist (?b + 1) (timeout_tick k m)) (rt_timer_list k))"
    by (simp add: sorted_map)
  with w(1) have "by_timeout (timeout_tick k) (?b + 1) (rt_timer_list k)" by (simp add: by_timeout_def)
  moreover have "in_window (?b + 1) (?b + 1 + tm_init_tick (timers k m))" if "m \<in> set (rt_timer_list k)" for m
    using that s by (auto simp: steady_def periods_ok_def in_window_def tick_dist_def word_less_nat_alt)
  moreover have "periods_ok ?k" using s by (simp add: steady_def periods_ok_def tm_flag_def)
  moreover have "sched_inv ?k" "timer_inv ?k"
    using i by (simp_all add: sched_inv_cong [of ?k k] timer_inv_def timer_lists_ok_def listed_def tm_flag_def rt_object_get_type_def
        thread_timer_ok_def live_def thread_stat_def)
  ultimately show ?thesis using i(3) by (simp add: check_ready_def timeout_tick_def [abs_def])
qed

lemma checked_steady: "check_ready (rt_tick k) k \<Longrightarrow> due_timers k = {} \<Longrightarrow> steady k"
  by (simp add: check_ready_def steady_def)

text \<open>What an operation as a whole leaves behind: the scheduler lock as it was, a steady timer list, and the right thread on the
  processor, if some thread can run at all.\<close>

definition orderly :: "kernel \<Rightarrow> kernel \<Rightarrow> bool" where
  "orderly k k' \<longleftrightarrow>
     rt_scheduler_lock_nest k' = rt_scheduler_lock_nest k \<and> (steady k \<longrightarrow> steady k') \<and>
     (rt_scheduler_lock_nest k = 0 \<longrightarrow> dispatched k \<longrightarrow> (\<exists>u. runnable k' u) \<longrightarrow> dispatched k')"

text \<open>Writes that concern neither timers nor scheduling.\<close>

definition sched_same :: "kernel \<Rightarrow> kernel \<Rightarrow> bool" where
  "sched_same k k' \<longleftrightarrow>
     timers_same k k' \<and> rt_tick k' = rt_tick k \<and> rt_scheduler_lock_nest k' = rt_scheduler_lock_nest k \<and>
     rt_current_thread k' = rt_current_thread k \<and> (\<forall>t. thread_stat k' t = thread_stat k t \<and> prio k' t = prio k t)"

lemma sched_same_reads:
  assumes "sched_same k k'"
  shows "steady k' = steady k" "dispatched k' = dispatched k" "runnable k' u = runnable k u"
    "rt_scheduler_lock_nest k' = rt_scheduler_lock_nest k"
  using assms steady_cong [of k k'] dispatched_cong [of k' k] by (simp_all add: sched_same_def runnable_def)

lemma orderly_refl [simp]: "orderly k k"
  by (simp add: orderly_def)

lemma orderly_before: "sched_same k k1 \<Longrightarrow> orderly k1 k' \<Longrightarrow> orderly k k'"
  using sched_same_reads [of k k1] by (simp add: orderly_def)

lemma orderly_after: "orderly k k1 \<Longrightarrow> sched_same k1 k' \<Longrightarrow> orderly k k'"
  using sched_same_reads [of k1 k'] by (simp add: orderly_def)

lemma orderly_same: "sched_same k k' \<Longrightarrow> orderly k k'"
  using orderly_after [OF orderly_refl] .

text \<open>An operation that ends with a rescheduling.\<close>

lemma orderly_schedule:
  assumes s: "rt_schedule k1 = Some k'" and i: "sched_inv k1"
    and l: "rt_scheduler_lock_nest k1 = rt_scheduler_lock_nest k" and st: "steady k \<longrightarrow> steady k1"
  shows "orderly k k'"
proof -
  note d = reschedD [OF rt_schedule_resched [OF s i]]
  have "steady k' = steady k1" by (rule steady_cong [OF d(3) ipc_sameD(9) [OF d(2)]])
  moreover have "dispatched k'" if "rt_scheduler_lock_nest k = 0" "runnable k' u" for u
    using rt_schedule_dispatched [OF s i, of u] that l d(6) by simp
  ultimately show ?thesis using rt_schedule_frames(4) [OF s i] l st by (auto simp: orderly_def)
qed

section \<open>Where the check loops do not end\<close>

text \<open>\<open>spinning\<close>: a lone periodic hard timer of period zero that is due.\<close>

definition spinning :: "tmid \<Rightarrow> nat \<Rightarrow> kernel \<Rightarrow> bool" where
  "spinning m f k \<longleftrightarrow>
     rt_timer_list k = [m] \<and> rt_object_get_type k (OTimer m) = RT_Object_Class_Timer \<and>
     tm_timeout_func (timers k m) = User_timeout f \<and> tm_init_tick (timers k m) = 0 \<and>
     timeout_tick k m = rt_tick k \<and> tm_flag k m AND RT_TIMER_FLAG_SOFT_TIMER = 0 \<and>
     tm_flag k m AND RT_TIMER_FLAG_PERIODIC \<noteq> 0 \<and> tm_flag k m AND RT_TIMER_FLAG_ACTIVATED \<noteq> 0"

lemma spinning_round:
  assumes s: "spinning m f k" and cb: "\<And>p k. cb f p k = Some k"
  obtains k' where "rt_timer_check_loop cb (Suc fuel) (rt_tick k) k = rt_timer_check_loop cb fuel (rt_tick k') k'"
    "spinning m f k'"
proof -
  let ?k1 = "set_flag m (\<lambda>x. x AND - 2) (rt_timer_remove m k)"
  have soft: "tm_flag ?k1 m AND 4 = 0" using s by (simp add: spinning_def)
  have "rt_timer_start m ?k1 = Some (RT_EOK, requeued m ?k1)"
    using s soft by (simp add: rt_timer_start_eq spinning_def requeued_flag RT_TICK_HALF_def)
  then have "timer_rearm m (rt_timer_remove m k) = Some (requeued m ?k1)"
    using s by (simp add: timer_rearm_def spinning_def)
  moreover have "call_timeout cb (timers k m) (rt_timer_remove m k) = Some (rt_timer_remove m k)"
    using s cb by (simp add: call_timeout_def spinning_def)
  ultimately have "rt_timer_check_loop cb (Suc fuel) (rt_tick k) k =
      rt_timer_check_loop cb fuel (rt_tick (requeued m ?k1)) (requeued m ?k1)"
    using s by (simp add: spinning_def RT_TICK_HALF_def)
  moreover have "spinning m f (requeued m ?k1)"
    using s requeued_lists(1) [OF soft] by (simp add: spinning_def requeued_flag) (simp add: timeout_tick_def)
  ultimately show ?thesis by (rule that)
qed


definition demo_spin_kernel :: kernel where
  "demo_spin_kernel = upd_timer (Timer 0) (\<lambda>tm. tm\<lparr>tm_init_tick := 0\<rparr>) demo_tick_kernel"


text \<open>\<open>stale\<close>: the cursor of the soft timer loop stands on a due one-shot timer that is on no list.\<close>

definition stale :: "tmid \<Rightarrow> nat \<Rightarrow> kernel \<Rightarrow> bool" where
  "stale m f k \<longleftrightarrow>
     sched_inv k \<and> \<not> listed k m \<and> tm_timeout_func (timers k m) = User_timeout f \<and> due k m \<and>
     \<not> periodic k m"

lemma stale_resched: "resched k k' \<Longrightarrow> stale m f k \<Longrightarrow> stale m f k'"
  using reschedD(1-3) [of k k'] timers_sameD [of k k'] ipc_sameD(9) [of k k']
  by (simp add: stale_def listed_def due_def periodic_def timeout_tick_def tm_flag_def)

lemma stale_round:
  assumes s: "stale m f k" and cb: "\<And>p k. cb f p k = Some k"
  obtains k' where "rt_soft_timer_check_loop cb (Suc fuel) (Some m) (rt_tick k) k =
      rt_soft_timer_check_loop cb fuel (Some m) (rt_tick k') k'" "stale m f k'"
proof -
  have nl: "m \<notin> set (rt_timer_list k)" "m \<notin> set (rt_soft_timer_list k)"
    using s by (auto simp: stale_def listed_def)
  have rm: "rt_timer_remove m k = k" using nl by (cases k) (simp add: rt_timer_remove_def)
  have nx: "next_node (rt_soft_timer_list k) m = Some m"
  proof -
    have "dropWhile (\<lambda>x. x \<noteq> m) (rt_soft_timer_list k) = []" using nl(2) by (auto simp: dropWhile_eq_Nil_conv)
    then show ?thesis unfolding next_node_def by (simp only: list.case)
  qed
  obtain k1 where k1: "rt_exit_critical k = Some k1" "resched k k1"
    using rt_exit_critical_step s by (auto simp: stale_def)
  let ?k2 = "rt_enter_critical k1"
  have s1: "stale m f k1" using stale_resched [OF k1(2) s] .
  then have s2: "stale m f ?k2"
    by (rule stale_resched [rotated]) (rule rt_enter_critical_resched, use s1 in \<open>simp add: stale_def\<close>)
  let ?k3 = "set_flag m (\<lambda>x. x AND - 2) ?k2"
  have "timer_rearm m ?k2 = Some ?k3"
    using s2 by (simp add: timer_rearm_def stale_def periodic_def)
  moreover have "call_timeout cb (timers k1 m) k1 = Some k1"
    using s1 cb by (simp add: call_timeout_def stale_def)
  moreover have "rt_tick k1 = rt_tick ?k3" by (simp add: rt_enter_critical_def)
  ultimately have "rt_soft_timer_check_loop cb (Suc fuel) (Some m) (rt_tick k) k =
      rt_soft_timer_check_loop cb fuel (Some m) (rt_tick ?k3) ?k3"
    using s rm nx k1(1) by (simp add: stale_def due_def)
  moreover have "stale m f ?k3"
    using s2 by (simp add: stale_def due_def periodic_def)
  ultimately show ?thesis by (rule that)
qed

lemma stale_never:
  assumes "stale m f k" "\<And>p k. cb f p k = Some k"
  shows "rt_soft_timer_check_loop cb fuel (Some m) (rt_tick k) k = None"
  using assms(1)
proof (induction fuel arbitrary: k)
  case (Suc fuel)
  then obtain k' where "rt_soft_timer_check_loop cb (Suc fuel) (Some m) (rt_tick k) k =
      rt_soft_timer_check_loop cb fuel (Some m) (rt_tick k') k'" "stale m f k'"
    using stale_round [where cb = cb, OF Suc.prems] assms(2) by metis
  with Suc.IH show ?case by simp
qed simp

lemma rt_timer_stop_listed:
  assumes "timer_inv k" "listed k m"
  shows "rt_timer_stop m k = Some (RT_EOK, set_flag m (\<lambda>f. f AND NOT RT_TIMER_FLAG_ACTIVATED) (rt_timer_remove m k))"
  using assms by (auto simp: rt_timer_stop_def timer_inv_def timer_lists_ok_def Let_def)

lemma sched_inv_enter [simp]: "sched_inv (rt_enter_critical k) = sched_inv k"
  by (simp add: rt_enter_critical_def)

lemma enter_critical_reads [simp]:
  "rt_timer_list (rt_enter_critical k) = rt_timer_list k"
  "rt_soft_timer_list (rt_enter_critical k) = rt_soft_timer_list k"
  "timers (rt_enter_critical k) = timers k" "rt_tick (rt_enter_critical k) = rt_tick k"
  "tm_flag (rt_enter_critical k) m = tm_flag k m" "listed (rt_enter_critical k) m = listed k m"
  by (simp_all add: rt_enter_critical_def tm_flag_def listed_def)

text \<open>The loop of \<^verbatim>\<open>rt_soft_timer_check\<close> keeps a pointer to the next timer while it calls a timeout
  function with the scheduler unlocked. If that function stops the next timer, and that one is due as well,
  the loop runs on the unlinked timer for ever: \<^verbatim>\<open>rt_soft_timer_check\<close> never returns.\<close>

theorem rt_soft_timer_check_stale_cursor:
  assumes "sched_inv k" "timer_inv k" "rt_soft_timer_list k = m # n # ms"
    and "due k m" "due k n" "\<not> periodic k m" "\<not> periodic k n"
    and "tm_timeout_func (timers k m) = User_timeout f" "\<forall>p k. cb f p k = map_option snd (rt_timer_stop n k)"
    and "tm_timeout_func (timers k n) = User_timeout g" "\<forall>p k. cb g p k = Some k"
  shows "rt_soft_timer_check cb fuel k = None"
proof -
  let ?k0 = "rt_enter_critical k"
  let ?k1 = "rt_timer_remove m ?k0"
  have mn: "m \<noteq> n" "listed k n" using assms(2,3) by (auto simp: timer_inv_def timer_lists_ok_def listed_def)
  have ti1: "timer_inv ?k1"
    using timer_inv_resched [OF rt_enter_critical_resched] assms(1,2) by (simp add: timer_inv_remove)
  obtain k2 where k2: "rt_exit_critical ?k1 = Some k2" "resched ?k1 k2"
    using rt_exit_critical_step [of ?k1] assms(1) by auto
  note d = reschedD(1-3) [OF k2(2)] timers_sameD [OF reschedD(3) [OF k2(2)]]
  have tick: "rt_tick k2 = rt_tick k" using ipc_sameD(9) [OF d(2)] by simp
  have fl2: "tm_flag k2 x = tm_flag k x" for x
    using d(5) by (simp add: tm_flag_def rt_timer_remove_def rt_enter_critical_def)
  have ti2: "timer_inv k2" by (rule timer_inv_resched [OF k2(2) ti1])
  have "listed k2 n" using mn d(6,7) by (auto simp: listed_def)
  let ?k3 = "set_flag n (\<lambda>f. f AND - 2) (rt_timer_remove n k2)"
  let ?k5 = "set_flag m (\<lambda>f. f AND - 2) (rt_enter_critical ?k3)"
  have "call_timeout cb (timers k m) k2 = Some ?k3"
    using rt_timer_stop_listed [OF ti2 \<open>listed k2 n\<close>] assms(8,9) by (simp add: call_timeout_def)
  moreover have "timer_rearm m (rt_enter_critical ?k3) = Some ?k5"
    using assms(6) mn(1) fl2 by (simp add: timer_rearm_def periodic_def)
  ultimately have r: "rt_soft_timer_check_loop cb (Suc fl) (Some m) (rt_tick k) ?k0 =
      rt_soft_timer_check_loop cb fl (Some n) (rt_tick ?k5) ?k5" for fl
    using assms(3,4) k2(1) d(4) tick by (simp add: due_def timeout_tick_def next_node_def)
  have "stale n g ?k5"
    using d(1,4) mn(1) assms(5,7,10) fl2 tick
    by (simp add: stale_def due_def periodic_def timeout_tick_def)
  then have "rt_soft_timer_check_loop cb fl (Some n) (rt_tick ?k5) ?k5 = None" for fl
    using stale_never [of n g ?k5 cb] assms(11) by blast
  then have "rt_soft_timer_check_loop cb fuel (Some m) (rt_tick k) ?k0 = None"
    using r by (cases fuel) simp_all
  then show ?thesis using assms(3) by (simp add: rt_soft_timer_check_def Let_def)
qed

definition demo_soft_kernel :: kernel where
  "demo_soft_kernel = (set_flag (Timer 0) (\<lambda>_. 5) (set_flag (Timer 1) (\<lambda>_. 5) demo_kernel))
     \<lparr>rt_soft_timer_list := [Timer 0, Timer 1]\<rparr>"

theorem rt_soft_timer_check_stale_cursor_witness:
  "rt_soft_timer_check (\<lambda>f _ k. if f = 0 then map_option snd (rt_timer_stop (Timer 1) k) else Some k) 1000
     demo_soft_kernel = None"
proof (rule rt_soft_timer_check_stale_cursor)
  show "sched_inv demo_soft_kernel" by (simp add: demo_soft_kernel_def demo_kernel_inv)
  show "timer_inv demo_soft_kernel"
    using demo_thread_timer_ok
    by (simp add: timer_inv_def timer_lists_ok_def thread_timer_ok_def demo_soft_kernel_def listed_def)
      (simp add: demo_kernel_def zero_kernel_def rt_object_get_type_def oref_class_def)
  show "rt_soft_timer_list demo_soft_kernel = [Timer 0, Timer 1]" by (simp add: demo_soft_kernel_def)
  show "due demo_soft_kernel (Timer 0)" "due demo_soft_kernel (Timer 1)"
    by (simp_all add: demo_soft_kernel_def due_def timeout_tick_def)
      (simp_all add: demo_kernel_def zero_kernel_def RT_TICK_HALF_def)
  show "\<not> periodic demo_soft_kernel (Timer 0)" "\<not> periodic demo_soft_kernel (Timer 1)"
    by (simp_all add: demo_soft_kernel_def periodic_def)
  show "tm_timeout_func (timers demo_soft_kernel (Timer 0)) = User_timeout 0"
    "tm_timeout_func (timers demo_soft_kernel (Timer 1)) = User_timeout 1"
    by (simp_all add: demo_soft_kernel_def) (simp_all add: demo_kernel_def)
qed simp_all

end
