(* ===== verification/Thread.thy ===== *)
theory Thread
  imports Timer
begin

text \<open>
  The rest of \<^verbatim>\<open>src/thread.c\<close>: creating, starting, closing and delaying threads, changing their
  priority, and finding them by name; with the timer thread of \<^verbatim>\<open>src/timer.c\<close>, which delays itself.

  A function that gives up the processor in the middle is cut there: \<open>rt_thread_sleep\<close> runs up to and
  including \<^verbatim>\<open>rt_schedule\<close>, \<open>rt_thread_sleep_resumed\<close> is what the thread executes when it gets the
  processor back. The stack memory (\<^verbatim>\<open>rt_memset\<close>, \<^verbatim>\<open>rt_hw_stack_init\<close>) is not modelled.
\<close>

section \<open>Operations\<close>

definition rt_thread_exit :: "kernel \<Rightarrow> kernel option" where
  "rt_thread_exit k = do {
     t \<leftarrow> rt_thread_self k;
     let k = rt_schedule_remove_thread t k;
     let k = upd_thread t (\<lambda>th. th\<lparr>th_stat := RT_THREAD_CLOSE\<rparr>) k;
     (_, k) \<leftarrow> rt_timer_detach (Thread_Timer t) k;
     let k = (if rt_object_is_systemobject k (OThread t) \<and> th_cleanup (threads k t) = None
              then rt_object_detach (OThread t) k
              else tlist_push LDefunct t k);
     rt_schedule k
   }"

definition rt_thread_init_body ::
  "tid \<Rightarrow> nat \<Rightarrow> nat \<Rightarrow> nat \<Rightarrow> u32 \<Rightarrow> u8 \<Rightarrow> u32 \<Rightarrow> kernel \<Rightarrow> (rt_err_t \<times> kernel) option" where
  "rt_thread_init_body t entry parameter stack_start stack_size priority tick k = do {
     let k = upd_thread t (\<lambda>th. th\<lparr>th_entry := entry, th_parameter := parameter,
                                th_stack_addr := stack_start, th_stack_size := stack_size\<rparr>) k;
     rt_assert (unat priority < RT_THREAD_PRIORITY_MAX);
     let k = upd_thread t (\<lambda>th. th\<lparr>th_init_priority := priority, th_current_priority := priority,
                                th_number_mask := 0, th_init_tick := tick, th_remaining_tick := tick,
                                th_error := RT_EOK, th_stat := RT_THREAD_INIT,
                                th_cleanup := None, th_user_data := 0\<rparr>) k;
     k \<leftarrow> rt_timer_init (Thread_Timer t) (obj_name (objs k (OThread t))) Rt_thread_timeout t 0
           RT_TIMER_FLAG_ONE_SHOT k;
     Some (RT_EOK, k)
   }"

definition rt_thread_init ::
  "tid \<Rightarrow> string \<Rightarrow> nat \<Rightarrow> nat \<Rightarrow> nat \<Rightarrow> u32 \<Rightarrow> u8 \<Rightarrow> u32 \<Rightarrow> kernel \<Rightarrow> (rt_err_t \<times> kernel) option" where
  "rt_thread_init t name entry parameter stack_start stack_size priority tick k = do {
     rt_assert (stack_start \<noteq> 0);
     k \<leftarrow> rt_object_init (OThread t) RT_Object_Class_Thread name k;
     rt_thread_init_body t entry parameter stack_start stack_size priority tick k
   }"

definition rt_thread_startup :: "tid \<Rightarrow> kernel \<Rightarrow> (rt_err_t \<times> kernel) option" where
  "rt_thread_startup t k = do {
     rt_assert (thread_stat k t = RT_THREAD_INIT);
     rt_assert (rt_object_get_type k (OThread t) = RT_Object_Class_Thread);
     let k = upd_thread t (\<lambda>th. th\<lparr>th_current_priority := th_init_priority th\<rparr>) k;
     let k = upd_thread t (\<lambda>th. th\<lparr>th_number_mask := push_bit (unat (th_current_priority th)) 1\<rparr>) k;
     let k = upd_thread t (\<lambda>th. th\<lparr>th_stat := RT_THREAD_SUSPEND\<rparr>) k;
     (_, k) \<leftarrow> rt_thread_resume t k;
     k \<leftarrow> (if rt_thread_self k \<noteq> None then rt_schedule k else Some k);
     Some (RT_EOK, k)
   }"

definition rt_thread_detach :: "tid \<Rightarrow> kernel \<Rightarrow> (rt_err_t \<times> kernel) option" where
  "rt_thread_detach t k = do {
     rt_assert (rt_object_get_type k (OThread t) = RT_Object_Class_Thread);
     rt_assert (rt_object_is_systemobject k (OThread t));
     let k = (if thread_stat k t \<noteq> RT_THREAD_INIT then rt_schedule_remove_thread t k else k);
     (_, k) \<leftarrow> rt_timer_detach (Thread_Timer t) k;
     let k = upd_thread t (\<lambda>th. th\<lparr>th_stat := RT_THREAD_CLOSE\<rparr>) k;
     let k = (if rt_object_is_systemobject k (OThread t) \<and> th_cleanup (threads k t) = None
              then rt_object_detach (OThread t) k
              else tlist_push LDefunct t k);
     Some (RT_EOK, k)
   }"

text \<open>\<open>mem\<close> and \<open>stack_mem\<close> are the results of the two calls of \<^verbatim>\<open>RT_KERNEL_MALLOC\<close>.\<close>

definition rt_thread_create ::
  "string \<Rightarrow> nat \<Rightarrow> nat \<Rightarrow> u32 \<Rightarrow> u8 \<Rightarrow> u32 \<Rightarrow> tid option \<Rightarrow> nat option \<Rightarrow> kernel \<Rightarrow>
     (tid option \<times> kernel) option" where
  "rt_thread_create name entry parameter stack_size priority tick mem stack_mem k = do {
     (_, k) \<leftarrow> rt_object_allocate RT_Object_Class_Thread name (map_option OThread mem) k;
     (case mem of
        None \<Rightarrow> Some (None, k)
      | Some t \<Rightarrow>
          (case stack_mem of
             None \<Rightarrow> do { k \<leftarrow> rt_object_delete (OThread t) k; Some (None, k) }
           | Some stack_start \<Rightarrow> do {
               (_, k) \<leftarrow> rt_thread_init_body t entry parameter stack_start stack_size priority tick k;
               Some (Some t, k)
             }))
   }"

definition rt_thread_delete :: "tid \<Rightarrow> kernel \<Rightarrow> (rt_err_t \<times> kernel) option" where
  "rt_thread_delete t k = do {
     rt_assert (rt_object_get_type k (OThread t) = RT_Object_Class_Thread);
     rt_assert (\<not> rt_object_is_systemobject k (OThread t));
     let k = (if thread_stat k t \<noteq> RT_THREAD_INIT then rt_schedule_remove_thread t k else k);
     (_, k) \<leftarrow> rt_timer_detach (Thread_Timer t) k;
     let k = upd_thread t (\<lambda>th. th\<lparr>th_stat := RT_THREAD_CLOSE\<rparr>) k;
     Some (RT_EOK, tlist_push LDefunct t k)
   }"

definition rt_thread_yield :: "kernel \<Rightarrow> (rt_err_t \<times> kernel) option" where
  "rt_thread_yield k = do { k \<leftarrow> rt_schedule k; Some (RT_EOK, k) }"

text \<open>Resetting the timeout of a thread timer and starting it, the pair of calls of every timed wait;
  and the sleep that \<^verbatim>\<open>rt_thread_sleep\<close> and \<^verbatim>\<open>rt_thread_delay_until\<close> share.\<close>

definition start_thread_timer :: "tid \<Rightarrow> rt_tick_t \<Rightarrow> kernel \<Rightarrow> kernel option" where
  "start_thread_timer t tick k = do {
     (_, _, k) \<leftarrow> rt_timer_control (Thread_Timer t) RT_TIMER_CTRL_SET_TIME tick k;
     (_, k) \<leftarrow> rt_timer_start (Thread_Timer t) k;
     Some k
   }"

definition sleep_for :: "tid \<Rightarrow> rt_tick_t \<Rightarrow> kernel \<Rightarrow> kernel option" where
  "sleep_for t tick k = do {
     (_, k) \<leftarrow> rt_thread_suspend t k;
     k \<leftarrow> start_thread_timer t tick k;
     rt_schedule k
   }"

definition rt_thread_sleep :: "rt_tick_t \<Rightarrow> kernel \<Rightarrow> (tid \<times> kernel) option" where
  "rt_thread_sleep tick k = do {
     t \<leftarrow> rt_thread_self k;
     rt_assert (rt_object_get_type k (OThread t) = RT_Object_Class_Thread);
     k \<leftarrow> sleep_for t tick k;
     Some (t, k)
   }"

definition rt_thread_sleep_resumed :: "tid \<Rightarrow> kernel \<Rightarrow> rt_err_t \<times> kernel" where
  "rt_thread_sleep_resumed t k =
     (RT_EOK, if th_error (threads k t) = - RT_ETIMEOUT
              then upd_thread t (\<lambda>th. th\<lparr>th_error := RT_EOK\<rparr>) k else k)"

definition rt_thread_delay :: "rt_tick_t \<Rightarrow> kernel \<Rightarrow> (tid \<times> kernel) option" where
  "rt_thread_delay tick k = rt_thread_sleep tick k"

text \<open>\<open>rt_thread_delay_until\<close> returns the value it leaves in \<^verbatim>\<open>*tick\<close> and whether the thread
  gave up the processor; \<open>rt_thread_delay_until_resumed\<close> is the part behind \<^verbatim>\<open>rt_schedule\<close>.\<close>

definition rt_thread_delay_until ::
  "rt_tick_t \<Rightarrow> rt_tick_t \<Rightarrow> kernel \<Rightarrow> (bool \<times> rt_tick_t \<times> kernel) option" where
  "rt_thread_delay_until tick inc_tick k = do {
     t \<leftarrow> rt_thread_self k;
     rt_assert (rt_object_get_type k (OThread t) = RT_Object_Class_Thread);
     if rt_tick k - tick < inc_tick then do {
       let tick = rt_tick k - tick + inc_tick;
       k \<leftarrow> sleep_for t tick k;
       Some (True, tick, k)
     }
     else Some (False, rt_tick k, k)
   }"

definition rt_thread_delay_until_resumed :: "tid \<Rightarrow> kernel \<Rightarrow> rt_err_t \<times> rt_tick_t \<times> kernel" where
  "rt_thread_delay_until_resumed t k =
     (let k = snd (rt_thread_sleep_resumed t k) in (RT_EOK, rt_tick k, k))"

definition set_prio :: "u8 \<Rightarrow> rt_thread \<Rightarrow> rt_thread" where
  "set_prio p th = th\<lparr>th_current_priority := p, th_number_mask := push_bit (unat p) 1\<rparr>"

definition change_priority :: "tid \<Rightarrow> u8 \<Rightarrow> kernel \<Rightarrow> kernel" where
  "change_priority t p k =
     (if thread_stat k t = RT_THREAD_READY
      then rt_schedule_insert_thread t (upd_thread t (set_prio p) (rt_schedule_remove_thread t k))
      else upd_thread t (set_prio p) k)"

abbreviation (input) RT_THREAD_CTRL_STARTUP :: int where "RT_THREAD_CTRL_STARTUP \<equiv> 0"
abbreviation (input) RT_THREAD_CTRL_CLOSE :: int where "RT_THREAD_CTRL_CLOSE \<equiv> 1"
abbreviation (input) RT_THREAD_CTRL_CHANGE_PRIORITY :: int where "RT_THREAD_CTRL_CHANGE_PRIORITY \<equiv> 2"

definition rt_thread_control :: "tid \<Rightarrow> int \<Rightarrow> u8 \<Rightarrow> kernel \<Rightarrow> (rt_err_t \<times> kernel) option" where
  "rt_thread_control t cmd arg k = do {
     rt_assert (rt_object_get_type k (OThread t) = RT_Object_Class_Thread);
     if cmd = RT_THREAD_CTRL_CHANGE_PRIORITY then Some (RT_EOK, change_priority t arg k)
     else if cmd = RT_THREAD_CTRL_STARTUP then rt_thread_startup t k
     else if cmd = RT_THREAD_CTRL_CLOSE then rt_thread_delete t k
     else Some (RT_EOK, k)
   }"

definition rt_thread_find :: "string \<Rightarrow> kernel \<Rightarrow> (oref option \<times> kernel) option" where
  "rt_thread_find name k = do {
     let k = (if rt_thread_self k \<noteq> None then rt_enter_critical k else k);
     information \<leftarrow> rt_object_get_information RT_Object_Class_Thread;
     let found = find (\<lambda>r. take RT_NAME_MAX (obj_name (objs k r)) = take RT_NAME_MAX name)
                   (object_list k information);
     k \<leftarrow> (if rt_thread_self k \<noteq> None then rt_exit_critical k else Some k);
     Some (found, k)
   }"

text \<open>One round of the timer thread, up to the point where it gives up the processor (or not), followed by
  the check when it runs again.\<close>

definition rt_thread_timer_entry_wait :: "kernel \<Rightarrow> kernel option" where
  "rt_thread_timer_entry_wait k =
     (let next_timeout = rt_timer_list_next_timeout k (rt_soft_timer_list k)
      in if next_timeout = RT_TICK_MAX then do {
           t \<leftarrow> rt_thread_self k;
           (_, k) \<leftarrow> rt_thread_suspend t k;
           rt_schedule k
         }
         else if next_timeout - rt_tick k < RT_TICK_HALF
         then map_option snd (rt_thread_delay (next_timeout - rt_tick k) k)
         else Some k)"

definition rt_thread_timer_entry_check ::
  "(nat \<Rightarrow> nat \<Rightarrow> kernel \<Rightarrow> kernel option) \<Rightarrow> nat \<Rightarrow> kernel \<Rightarrow> kernel option" where
  "rt_thread_timer_entry_check cb fuel k = rt_soft_timer_check cb fuel k"

definition rt_system_timer_thread_init :: "nat \<Rightarrow> nat \<Rightarrow> kernel \<Rightarrow> kernel option" where
  "rt_system_timer_thread_init entry stack k = do {
     let k = k\<lparr>rt_soft_timer_list := []\<rparr>;
     (_, k) \<leftarrow> rt_thread_init (timer_thread k) ''timer'' entry 0 stack 512 4 10 k;
     (_, k) \<leftarrow> rt_thread_startup (timer_thread k) k;
     Some k
   }"

section \<open>Priorities\<close>

lemma set_prio_fields [simp]:
  "th_stat (set_prio p th) = th_stat th" "th_current_priority (set_prio p th) = p"
  "th_number_mask (set_prio p th) = push_bit (unat p) 1" "th_error (set_prio p th) = th_error th"
  "th_init_priority (set_prio p th) = th_init_priority th"
  "th_event_set (set_prio p th) = th_event_set th" "th_event_info (set_prio p th) = th_event_info th"
  by (simp_all add: set_prio_def)

lemma sched_core_set_prio:
  assumes c: "sched_core X k" and s: "thread_stat k t \<noteq> RT_THREAD_READY" and p: "unat p < 32"
  shows "sched_core X (upd_thread t (set_prio p) k)"
    (is "sched_core X ?k")
proof (rule sched_coreI)
  have st: "thread_stat ?k u = thread_stat k u" for u by (simp add: thread_stat_def)
  have other: "prio ?k u = prio k u" "mask_ok ?k u = mask_ok k u" if "u \<noteq> t" for u
    using that by (simp_all add: prio_def mask_ok_def)
  have mt: "mask_ok ?k t" using p by (simp add: mask_ok_def prio_def)
  show "bit (rt_thread_ready_priority_group ?k) q \<longleftrightarrow> tlists ?k (LReady q) \<noteq> []" if "q < 32" for q
    using sched_core_bit [OF c that] by simp
  show "u \<notin> X \<and> list_state ?k u l" if "u \<in> set (tlists ?k l)" for l u
    using that sched_core_list_state [OF c, of u l] sched_core_notin [OF c, of u l] s other(1) [of u]
    by (cases "u = t") (auto simp: list_state_def list_stat_def st simp del: thread_stat_upd split: lid.splits)
  show "u \<in> set (tlists ?k (LReady (prio ?k u)))" if "u \<notin> X" "thread_stat ?k u = RT_THREAD_READY" for u
    using that sched_core_ready [OF c, of u] s other(1) [of u]
    by (cases "u = t") (auto simp: st simp del: thread_stat_upd)
  show "mask_ok ?k u" if "u \<notin> X" "live ?k u" for u
    using that sched_core_mask [OF c, of u] mt other(2) [of u] by (cases "u = t") (auto simp: live_def st simp del: thread_stat_upd)
qed (use c in \<open>auto dest: sched_coreD\<close>)

lemma set_prio_inv:
  assumes "sched_inv k" "thread_stat k t \<noteq> RT_THREAD_READY" "unat p < 32"
  shows "sched_inv (upd_thread t (set_prio p) k)"
  using assms sched_core_set_prio [of "{}" k t p]
  by (simp add: sched_inv_def current_ok_def thread_stat_def)

lemma ready_not_current: "sched_inv k \<Longrightarrow> thread_stat k t = RT_THREAD_READY \<Longrightarrow> rt_current_thread k \<noteq> Some t"
  by (auto simp: sched_inv_def dest: current_ok_not_ready)

lemma change_priority_inv:
  assumes i: "sched_inv k" and p: "unat p < 32"
  shows "sched_inv (change_priority t p k)"
proof (cases "thread_stat k t = RT_THREAD_READY")
  case False
  with set_prio_inv [OF i False p] show ?thesis by (simp add: change_priority_def Let_def)
next
  case True
  let ?f = "set_prio p"
  let ?k = "upd_thread t ?f (rt_schedule_remove_thread t k)"
  from i have c: "sched_core {} k" and ok: "current_ok k" by (auto simp: sched_inv_def)
  have "mask_ok k t" using sched_core_mask [OF c, of t] True by (simp add: live_def)
  then have "sched_core {t} ?k" by (intro sched_core_upd_off sched_core_remove [OF c]) simp_all
  moreover have "mask_ok ?k t" using p by (simp add: mask_ok_def prio_def)
  ultimately have "sched_core {} (rt_schedule_insert_thread t ?k)"
    by (intro insert_thread_core) simp_all
  moreover have "current_ok ?k" using ok by (simp add: current_ok_def thread_stat_def)
  ultimately show ?thesis
    using True by (simp add: sched_inv_def change_priority_def Let_def insert_thread_current)
qed

lemma change_priority_threads:
  assumes "sched_inv k"
  shows "threads (change_priority t p k) =
    (threads k)(t := (set_prio p (threads k t))\<lparr>th_stat := th_stat (threads (change_priority t p k) t)\<rparr>)"
    "thread_stat (change_priority t p k) u = thread_stat k u"
proof -
  note nc = ready_not_current [OF assms]
  show "threads (change_priority t p k) =
    (threads k)(t := (set_prio p (threads k t))\<lparr>th_stat := th_stat (threads (change_priority t p k) t)\<rparr>)"
    using nc by (auto simp: change_priority_def Let_def set_stat_def fun_eq_iff)
  show "thread_stat (change_priority t p k) u = thread_stat k u"
    using nc [of t] by (auto simp: change_priority_def Let_def thread_stat_def)
qed

lemma change_priority_frames [simp]:
  "ipc_same k0 (change_priority t p k) = ipc_same k0 k"
  "timers_same k0 (change_priority t p k) = timers_same k0 k"
  "rt_current_thread (change_priority t p k) = rt_current_thread k"
  "rt_scheduler_lock_nest (change_priority t p k) = rt_scheduler_lock_nest k"
  by (simp_all add: change_priority_def Let_def)

lemma change_priority_wait_lists:
  assumes "sched_inv k" "\<And>p. l \<noteq> LReady p"
  shows "tlists (change_priority t p k) l = tlists k l"
proof (cases "thread_stat k t = RT_THREAD_READY")
  case True
  then have "t \<notin> set (tlists k l)"
    using assms by (intro ready_off_wait_lists) (auto simp: sched_inv_def)
  then show ?thesis using assms(2) by (simp add: change_priority_def Let_def)
qed (simp add: change_priority_def Let_def)

lemma change_priority_timer_inv:
  assumes "sched_inv k" "timer_inv k"
  shows "timer_inv (change_priority t p k)"
  by (rule timer_inv_cong [OF _ _ _ assms(2)])
    (simp_all add: change_priority_threads(2) [OF assms(1)] live_def)

text \<open>Changing the priority of a thread to a valid one keeps the scheduling invariant in every state
  of the thread: a ready thread moves to the ready list of its new priority and the bitmap follows, every
  thread keeps its state, and the waiting lists stay as they are.\<close>

theorem rt_thread_control_priority:
  assumes "sched_inv k" "timer_inv k" "live k t" "unat p < 32"
  shows "\<exists>k'. rt_thread_control t RT_THREAD_CTRL_CHANGE_PRIORITY p k = Some (RT_EOK, k') \<and>
    sched_inv k' \<and> timer_inv k' \<and> prio k' t = unat p \<and> (\<forall>u. thread_stat k' u = thread_stat k u) \<and>
    (thread_stat k t = RT_THREAD_READY \<longrightarrow> t \<in> set (tlists k' (LReady (unat p)))) \<and>
    (\<forall>l. (\<forall>q. l \<noteq> LReady q) \<longrightarrow> tlists k' l = tlists k l)"
proof -
  let ?k = "change_priority t p k"
  have "rt_thread_control t 2 p k = Some (RT_EOK, ?k)"
    using timer_invD(2) [OF assms(2,3)] by (simp add: rt_thread_control_def thread_timer_ok_def)
  moreover have pr: "prio ?k t = unat p"
    by (subst prio_def, subst change_priority_threads(1) [OF assms(1)]) simp
  moreover have "t \<in> set (tlists ?k (LReady (unat p)))" if "thread_stat k t = RT_THREAD_READY"
    using that sched_core_ready [of "{}" ?k t] change_priority_inv [OF assms(1,4), of t] pr
    by (simp add: sched_inv_def change_priority_threads(2) [OF assms(1)])
  ultimately show ?thesis
    using change_priority_inv [OF assms(1,4)] change_priority_timer_inv [OF assms(1,2)]
      change_priority_threads(2) [OF assms(1)] change_priority_wait_lists [OF assms(1)] by auto
qed

theorem rt_thread_control_priority_witness:
  "\<exists>k'. rt_thread_control 3 2 5 demo_kernel = Some (0, k') \<and> sched_inv k' \<and> 3 \<in> set (tlists k' (LReady 5))"
  using rt_thread_control_priority [OF demo_kernel_inv demo_timer_inv, of 3 5]
  by (auto simp: live_def demo_simps)

section \<open>Starting threads\<close>

text \<open>A thread that \<^verbatim>\<open>rt_thread_init\<close> has prepared: initial, on no list, with its timer in place.\<close>

definition prepared :: "kernel \<Rightarrow> tid \<Rightarrow> bool" where
  "prepared k t \<longleftrightarrow>
     thread_stat k t = RT_THREAD_INIT \<and> thread_timer_ok k t \<and> \<not> listed k (Thread_Timer t) \<and>
     unat (th_init_priority (threads k t)) < 32 \<and> (\<forall>l. t \<notin> set (tlists k l)) \<and>
     rt_current_thread k \<noteq> Some t"

lemma startup_state:
  assumes s: "sched_inv k" and ti: "timer_inv k" and p: "prepared k t"
  defines "k1 \<equiv> upd_thread t (\<lambda>th. th\<lparr>th_stat := RT_THREAD_SUSPEND\<rparr>)
      (upd_thread t (\<lambda>th. th\<lparr>th_number_mask := push_bit (unat (th_current_priority th)) 1\<rparr>)
        (upd_thread t (\<lambda>th. th\<lparr>th_current_priority := th_init_priority th\<rparr>) k))"
  shows "sched_inv k1" "timer_inv k1" "thread_stat k1 t = RT_THREAD_SUSPEND"
    "prio k1 t = unat (th_init_priority (threads k t))"
proof -
  from s have c: "sched_core {} k" and ok: "current_ok k" by (auto simp: sched_inv_def)
  have "sched_core {t} k" using sched_core_take_off [OF c] p by (simp add: prepared_def)
  then have "sched_core {t} k1" unfolding k1_def by (intro sched_core_upd_off) simp_all
  moreover have "mask_ok k1 t" using p by (simp add: k1_def mask_ok_def prio_def prepared_def)
  moreover show st: "thread_stat k1 t = RT_THREAD_SUSPEND" by (simp add: k1_def)
  ultimately have "sched_core {} k1" using sched_core_put_back [of t "{}" k1] by simp
  moreover have "current_ok k1" using ok p by (auto simp: k1_def current_ok_def prepared_def split: if_splits)
  ultimately show "sched_inv k1" by (simp add: sched_inv_def)
  show "prio k1 t = unat (th_init_priority (threads k t))" by (simp add: k1_def prio_def)
  have same: "timers_same k k1" by (simp add: k1_def)
  have "thread_timer_ok k1 u = thread_timer_ok k u" for u
    using timers_sameD [OF same] by (simp add: thread_timer_ok_def rt_object_get_type_def tm_flag_def)
  moreover have "live k u" if "live k1 u" "u \<noteq> t" for u using that by (simp add: k1_def live_def)
  moreover have "listed k1 m = listed k m" "timers k1 m = timers k m" for m by (simp_all add: k1_def)
  moreover have "timer_lists_ok k1 = timer_lists_ok k"
    using timers_sameD [OF same]
    by (simp add: timer_lists_ok_def rt_object_get_type_def tm_flag_def listed_def)
  moreover have "thread_stat k1 u = 2" if "listed k (Thread_Timer u)" for u
    using that timer_invD(3) [OF ti that] p by (simp add: k1_def prepared_def)
  ultimately show "timer_inv k1"
    using ti p unfolding timer_inv_def prepared_def by metis
qed

text \<open>Starting a prepared thread returns, keeps the invariants and leaves the thread ready or
  running at its initial priority; with the system running and the scheduler unlocked, the thread on the
  processor afterwards is at least as urgent as the new one.\<close>

theorem rt_thread_startup_ok:
  assumes "sched_inv k" "timer_inv k" "prepared k t"
  shows "\<exists>k'. rt_thread_startup t k = Some (RT_EOK, k') \<and> sched_inv k' \<and> timer_inv k' \<and>
    runnable k' t \<and> prio k' t = unat (th_init_priority (threads k t)) \<and>
    (rt_current_thread k \<noteq> None \<longrightarrow> rt_scheduler_lock_nest k = 0 \<longrightarrow>
       (\<exists>c. rt_current_thread k' = Some c \<and> (c \<noteq> t \<longrightarrow> prio k' c \<le> prio k' t)))"
proof -
  note st = startup_state [OF assms]
  let ?k1 = "upd_thread t (\<lambda>th. th\<lparr>th_stat := RT_THREAD_SUSPEND\<rparr>)
      (upd_thread t (\<lambda>th. th\<lparr>th_number_mask := push_bit (unat (th_current_priority th)) 1\<rparr>)
        (upd_thread t (\<lambda>th. th\<lparr>th_current_priority := th_init_priority th\<rparr>) k))"
  obtain k2 where k2: "rt_thread_resume t ?k1 = Some (RT_EOK, k2)" "woken t ?k1 k2"
    using rt_thread_resume_step [OF st(1-3)] by blast
  note w = wokenD [OF k2(2)]
  have self: "rt_thread_self k2 = rt_current_thread k" using w(8) by (simp add: rt_thread_self_def)
  have lock: "rt_scheduler_lock_nest k2 = rt_scheduler_lock_nest k"
    using k2(1) assms(3) by (auto simp: rt_thread_resume_def prepared_def thread_timer_ok_def
        rt_timer_stop_def tlist_remove_def Let_def split: if_splits)
  have pr2: "prio k2 t = unat (th_init_priority (threads k t))" using only_statD(7) [OF w(4)] st(4) by simp
  have "runnable k2 t" "thread_stat k t = 0" "rt_object_get_type k (OThread t) = 1"
    using w(5) assms(3) by (simp_all add: prepared_def thread_timer_ok_def)
  note pre = this
  show ?thesis
  proof (cases "rt_current_thread k = None")
    case True
    with k2(1) self pre pr2 w(1,2) show ?thesis by (simp add: rt_thread_startup_def Let_def)
  next
    case False
    then have cur: "rt_current_thread k2 \<noteq> None" using self by (simp add: rt_thread_self_def)
    with w(1) obtain k' where k': "rt_schedule k2 = Some k'" "resched k2 k'" by (rule rt_schedule_step)
    have run: "rt_thread_startup t k = Some (RT_EOK, k')"
      using k2(1) self pre(2,3) k'(1) False by (simp add: rt_thread_startup_def Let_def)
    have pr: "prio k' u = prio k2 u" for u using only_statD(7) [OF reschedD(4) [OF k'(2)]] by simp
    have "\<exists>c. rt_current_thread k' = Some c \<and> (c \<noteq> t \<longrightarrow> prio k' c \<le> prio k' t)"
      if "rt_scheduler_lock_nest k = 0"
    proof (cases "thread_stat k2 t = RT_THREAD_READY")
      case True
      with rt_schedule_runs_best [OF w(1) cur] lock that k'(1) show ?thesis by simp
    next
      case False
      then have "thread_stat k2 t = 3" using pre(1) by (simp add: runnable_def)
      then have "rt_current_thread k2 = Some t" using w(1) by (auto simp: sched_inv_def dest: current_ok_running)
      then show ?thesis using assms(3) self by (simp add: rt_thread_self_def prepared_def)
    qed
    then show ?thesis
      using run reschedD(1,6) [OF k'(2)] timer_inv_resched [OF k'(2) w(2)] pre(1) pr pr2 False by auto
  qed
qed

theorem rt_thread_startup_ok_witness:
  "\<exists>k'. rt_thread_startup 9 demo_kernel = Some (0, k') \<and> sched_inv k' \<and> runnable k' 9"
proof -
  have "prepared demo_kernel 9"
    using demo_thread_timer_ok
    by (simp add: prepared_def) (simp add: demo_simps listed_def)
  then show ?thesis using rt_thread_startup_ok [OF demo_kernel_inv demo_timer_inv] by blast
qed

section \<open>Sleeping\<close>

definition armed :: "tid \<Rightarrow> rt_tick_t \<Rightarrow> kernel \<Rightarrow> kernel \<Rightarrow> bool" where
  "armed t tick k k' \<longleftrightarrow>
     sched_inv k' \<and> timer_inv k' \<and> ipc_same k k' \<and> threads k' = threads k \<and> tlists k' = tlists k \<and>
     rt_current_thread k' = rt_current_thread k \<and> Thread_Timer t \<in> set (rt_timer_list k') \<and>
     timeout_tick k' (Thread_Timer t) = rt_tick k + tick \<and>
     rt_scheduler_lock_nest k' = rt_scheduler_lock_nest k \<and> (tick \<noteq> 0 \<longrightarrow> steady k \<longrightarrow> steady k')"

lemma armedD:
  assumes "armed t tick k k'"
  shows "sched_inv k'" "timer_inv k'" "ipc_same k k'" "threads k' = threads k" "tlists k' = tlists k"
    "rt_current_thread k' = rt_current_thread k" "rt_scheduler_lock_nest k' = rt_scheduler_lock_nest k"
  using assms by (simp_all add: armed_def)

lemma start_thread_timer_step:
  assumes s: "sched_inv k" and ti: "timer_inv k" and st: "thread_stat k t = RT_THREAD_SUSPEND"
    and n: "tick < RT_TICK_HALF"
  obtains k' where "start_thread_timer t tick k = Some k'" "armed t tick k k'"
proof -
  let ?m = "Thread_Timer t"
  let ?k = "upd_timer ?m (\<lambda>tm. tm\<lparr>tm_init_tick := tick\<rparr>) k"
  have ok: "thread_timer_ok k t" using ti st by (auto intro: live_timer_ok simp: live_def)
  have ti': "timer_inv ?k"
    using ti by (auto simp: timer_inv_def timer_lists_ok_def thread_timer_ok_def listed_def)
  have sa: "startable ?k ?m" using ok st by (simp add: startable_def thread_timer_ok_def)
  have fl: "tm_flag ?k ?m AND 4 = 0" using ok by (simp add: thread_timer_ok_def)
  have "start_thread_timer t tick k = Some (requeued ?m ?k)"
    using rt_timer_start_hard [OF sa _ fl] ok n
    by (simp add: start_thread_timer_def rt_timer_control_def thread_timer_ok_def)
  moreover have "steady (requeued ?m ?k)" if "steady k" "tick \<noteq> 0"
  proof (rule steady_start [OF _ _ that(1), of ?m "rt_timer_remove ?m k"])
    show "timers_but ?m k (rt_timer_remove ?m k)" by (simp add: timers_but_def)
  qed (use requeued_lists(1) [OF fl] that(2) n in \<open>simp_all add: requeued_flag timeout_tick_def\<close>)
  then have "armed t tick k (requeued ?m ?k)"
    using s timer_inv_requeued [OF ti' sa] requeued_lists(1) [OF fl]
    by (simp add: armed_def timeout_tick_def)
  ultimately show ?thesis by (rule that)
qed

lemma sleep_for_step:
  assumes s: "sched_inv k" and ti: "timer_inv k" and c: "rt_current_thread k = Some t"
    and r: "thread_stat k t = RT_THREAD_RUNNING" and n: "tick < RT_TICK_HALF"
  obtains k' where "sleep_for t tick k = Some k'" "sched_inv k'" "timer_inv k'" "ipc_same k k'"
    "thread_stat k' t = RT_THREAD_SUSPEND" "Thread_Timer t \<in> set (rt_timer_list k')"
    "timeout_tick k' (Thread_Timer t) = rt_tick k + tick" "rt_current_thread k' \<noteq> None"
    "tick \<noteq> 0 \<longrightarrow> orderly k k'" "\<forall>u. u \<noteq> t \<longrightarrow> runnable k' u = runnable k u"
    "\<forall>l. (\<forall>p. l \<noteq> LReady p) \<longrightarrow> tlists k' l = removeAll t (tlists k l)"
proof -
  have "runnable k t" using r by (simp add: runnable_def)
  from rt_thread_suspend_step [OF s ti this] obtain k1
    where k1: "rt_thread_suspend t k = Some (RT_EOK, k1)" "parked t k k1" by blast
  note p = parkedD [OF k1(2)]
  obtain k2 where k2: "start_thread_timer t tick k1 = Some k2" "armed t tick k1 k2"
    using start_thread_timer_step [OF p(1,2,5) n] by blast
  note a = armedD [OF k2(2)]
  have "rt_current_thread k2 \<noteq> None" using a(6) p(8) c by simp
  with a(1) obtain k' where k': "rt_schedule k2 = Some k'" "resched k2 k'" by (rule rt_schedule_step)
  note d = reschedD [OF k'(2)]
  have "thread_stat k2 t = 2" using a(4) p(5) by (simp add: thread_stat_def)
  then have "thread_stat k' t = 2" using resched_suspended [OF k'(2)] by simp
  moreover have "sleep_for t tick k = Some k'" using k1(1) k2(1) k'(1) by (simp add: sleep_for_def)
  moreover have "ipc_same k k'" using ipc_same_trans [OF p(3) ipc_same_trans [OF a(3) d(2)]] .
  moreover have "Thread_Timer t \<in> set (rt_timer_list k')" "timeout_tick k' (Thread_Timer t) = rt_tick k + tick"
    using k2(2) timers_sameD [OF d(3)] ipc_sameD(9) [OF p(3)] by (simp_all add: armed_def timeout_tick_def)
  moreover have "orderly k k'" if "tick \<noteq> 0"
    using k2(2) that a(7) p(11) steady_but [OF p(10) ipc_sameD(9) [OF p(3)]]
    by (intro orderly_schedule [OF k'(1) a(1)]) (auto simp: armed_def)
  moreover have "runnable k' u = runnable k u" if "u \<noteq> t" for u
    using d(6) [of u] a(4) p(6) [OF that] by (simp add: runnable_def thread_stat_def)
  moreover have "tlists k' l = removeAll t (tlists k l)" if "\<forall>p. l \<noteq> LReady p" for l
    using that d(5) [of l] a(5) p(7) by simp
  ultimately show ?thesis
    using that [of k'] d(1,8) timer_inv_resched [OF k'(2) a(2)] \<open>rt_current_thread k2 \<noteq> None\<close> by blast
qed

text \<open>A running thread that calls \<^verbatim>\<open>rt_thread_sleep\<close> gives up the processor, suspended, with its timer
  on the list of hard timers and due exactly \<open>tick\<close> ticks from now; the invariants hold.\<close>

theorem rt_thread_sleep_ok:
  assumes "sched_inv k" "timer_inv k" "rt_current_thread k = Some t"
    and "thread_stat k t = RT_THREAD_RUNNING" "tick < RT_TICK_HALF"
  shows "\<exists>k'. rt_thread_sleep tick k = Some (t, k') \<and> sched_inv k' \<and> timer_inv k' \<and>
    thread_stat k' t = RT_THREAD_SUSPEND \<and> Thread_Timer t \<in> set (rt_timer_list k') \<and>
    timeout_tick k' (Thread_Timer t) = rt_tick k + tick"
proof -
  have "thread_timer_ok k t" using assms(2,4) by (auto intro: live_timer_ok simp: live_def)
  then have "rt_object_get_type k (OThread t) = 1" by (simp add: thread_timer_ok_def)
  moreover obtain k' where "sleep_for t tick k = Some k'" "sched_inv k'" "timer_inv k'"
    "thread_stat k' t = 2" "Thread_Timer t \<in> set (rt_timer_list k')"
    "timeout_tick k' (Thread_Timer t) = rt_tick k + tick"
    by (rule sleep_for_step [OF assms])
  ultimately show ?thesis
    using assms(3) by (simp add: rt_thread_sleep_def rt_thread_self_def)
qed

theorem rt_thread_sleep_ok_witness:
  "\<exists>k'. rt_thread_sleep 5 demo_kernel = Some (1, k') \<and> thread_stat k' 1 = RT_THREAD_SUSPEND \<and>
     timeout_tick k' (Thread_Timer 1) = 5"
  using rt_thread_sleep_ok [OF demo_kernel_inv demo_timer_inv, of 1 5]
  by (auto simp: demo_simps RT_TICK_HALF_def)

text \<open>\<^verbatim>\<open>rt_thread_delay_until\<close> does not delay until \<open>tick + inc_tick\<close>: when \<open>e\<close> ticks of the period have
  passed, the thread's timer is due \<open>e + inc_tick\<close> ticks from now, that is \<open>2 e\<close> ticks after the wake-up
  tick the function documents.\<close>

theorem rt_thread_delay_until_overshoots:
  assumes "sched_inv k" "timer_inv k" "rt_current_thread k = Some t"
    and "thread_stat k t = RT_THREAD_RUNNING" "rt_tick k - tick < inc_tick"
    and "rt_tick k - tick + inc_tick < RT_TICK_HALF"
  shows "\<exists>k'. rt_thread_delay_until tick inc_tick k = Some (True, rt_tick k - tick + inc_tick, k') \<and>
    thread_stat k' t = RT_THREAD_SUSPEND \<and> Thread_Timer t \<in> set (rt_timer_list k') \<and>
    timeout_tick k' (Thread_Timer t) = (tick + inc_tick) + 2 * (rt_tick k - tick)"
proof -
  have "thread_timer_ok k t" using assms(2,4) by (auto intro: live_timer_ok simp: live_def)
  then have "rt_object_get_type k (OThread t) = 1" by (simp add: thread_timer_ok_def)
  moreover obtain k' where "sleep_for t (rt_tick k - tick + inc_tick) k = Some k'"
    "thread_stat k' t = 2" "Thread_Timer t \<in> set (rt_timer_list k')"
    "timeout_tick k' (Thread_Timer t) = rt_tick k + (rt_tick k - tick + inc_tick)"
    by (rule sleep_for_step [OF assms(1-4,6)])
  moreover have "rt_tick k + (rt_tick k - tick + inc_tick) = (tick + inc_tick) + 2 * (rt_tick k - tick)"
    by (simp add: algebra_simps)
  ultimately show ?thesis
    using assms(3,5) by (auto simp: rt_thread_delay_until_def rt_thread_self_def Let_def)
qed

definition demo_late_kernel :: kernel where
  "demo_late_kernel = demo_kernel\<lparr>rt_tick := 3\<rparr>"

lemma demo_late_inv: "sched_inv demo_late_kernel" "timer_inv demo_late_kernel"
  using demo_kernel_inv demo_timer_inv
  by (simp_all add: demo_late_kernel_def timer_inv_def timer_lists_ok_def listed_def tm_flag_def
      rt_object_get_type_def thread_timer_ok_def live_def thread_stat_def)

theorem rt_thread_delay_until_overshoots_witness:
  "\<exists>k'. rt_thread_delay_until 0 10 demo_late_kernel = Some (True, 13, k') \<and>
     timeout_tick k' (Thread_Timer 1) = 16"
  using rt_thread_delay_until_overshoots [OF demo_late_inv, of 1 0 10]
  by (auto simp: demo_late_kernel_def demo_simps RT_TICK_HALF_def)

text \<open>\<^verbatim>\<open>rt_thread_yield\<close> does not let threads of the same priority run: unless the tick has marked the
  caller, it keeps the processor whenever no ready thread is strictly more urgent.\<close>

theorem rt_thread_yield_keeps:
  assumes i: "sched_inv k" and c: "rt_current_thread k = Some t" and r: "thread_stat k t = RT_THREAD_RUNNING"
    and y: "th_stat (threads k t) AND RT_THREAD_STAT_YIELD = 0"
    and best: "\<forall>u. thread_stat k u = RT_THREAD_READY \<longrightarrow> prio k t \<le> prio k u"
  shows "\<exists>k'. rt_thread_yield k = Some (RT_EOK, k') \<and> rt_current_thread k' = Some t \<and>
    thread_stat k' t = RT_THREAD_RUNNING"
proof -
  have "rt_current_thread k \<noteq> None" using c by simp
  with i obtain k' where k': "rt_schedule k = Some k'" "resched k k'" by (rule rt_schedule_step)
  have "rt_current_thread k' = Some t \<and> thread_stat k' t = RT_THREAD_RUNNING"
    using k'(1) i
  proof (cases rule: rt_schedule_cases)
    case Idle
    with c r show ?thesis by simp
  next
    case (Keep cur to hp)
    with c show ?thesis by (simp add: thread_stat_def)
  next
    case (Switch cur to hp ins)
    then have "prio k t \<le> prio k to" using best by blast
    with Switch c r y show ?thesis by (auto simp: keeps_running_def)
  qed
  with k'(1) show ?thesis by (simp add: rt_thread_yield_def)
qed

theorem rt_thread_yield_keeps_witness:
  "\<exists>k'. rt_thread_yield demo_kernel = Some (RT_EOK, k') \<and> rt_current_thread k' = Some 1 \<and>
     prio demo_kernel 2 = prio demo_kernel 1 \<and> thread_stat demo_kernel 2 = RT_THREAD_READY"
proof -
  have "\<forall>u. thread_stat demo_kernel u = RT_THREAD_READY \<longrightarrow> prio demo_kernel 1 \<le> prio demo_kernel u"
    by (auto simp: demo_simps split: if_splits)
  moreover have "rt_current_thread demo_kernel = Some 1" "thread_stat demo_kernel 1 = 3"
    "th_stat (threads demo_kernel 1) AND 8 = 0" "prio demo_kernel 2 = prio demo_kernel 1"
    "thread_stat demo_kernel 2 = 1"
    by (simp_all add: demo_simps)
  ultimately show ?thesis using rt_thread_yield_keeps [OF demo_kernel_inv, of 1] by auto
qed

end
