(* ===== verification/Clock.thy ===== *)
theory Clock
  imports Thread
begin

text \<open>
  The tick (\<^verbatim>\<open>src/clock.c\<close>) and the interrupt nesting counter (\<^verbatim>\<open>src/irq.c\<close>): time slices and the
  call of the timer check on every tick, and the conversion of milliseconds to ticks.
  \<^verbatim>\<open>RT_TICK_PER_SECOND\<close> is 1000.
\<close>

section \<open>Operations\<close>

definition rt_tick_get :: "kernel \<Rightarrow> rt_tick_t" where
  "rt_tick_get k = rt_tick k"

definition rt_tick_set :: "rt_tick_t \<Rightarrow> kernel \<Rightarrow> kernel" where
  "rt_tick_set tick k = k\<lparr>rt_tick := tick\<rparr>"

definition tick_time_slice :: "kernel \<Rightarrow> kernel option" where
  "tick_time_slice k = do {
     thread \<leftarrow> rt_thread_self k;
     let k = upd_thread thread (\<lambda>th. th\<lparr>th_remaining_tick := th_remaining_tick th - 1\<rparr>) k;
     if th_remaining_tick (threads k thread) = 0 then do {
       let k = upd_thread thread (\<lambda>th. th\<lparr>th_remaining_tick := th_init_tick th,
                                    th_stat := th_stat th OR RT_THREAD_STAT_YIELD\<rparr>) k;
       (_, k) \<leftarrow> rt_thread_yield k;
       Some k
     }
     else Some k
   }"

definition rt_tick_increase ::
  "(nat \<Rightarrow> nat \<Rightarrow> kernel \<Rightarrow> kernel option) \<Rightarrow> nat \<Rightarrow> kernel \<Rightarrow> kernel option" where
  "rt_tick_increase cb fuel k = do {
     let k = k\<lparr>rt_tick := rt_tick k + 1\<rparr>;
     k \<leftarrow> tick_time_slice k;
     rt_timer_check cb fuel k
   }"

definition RT_TICK_PER_SECOND :: int where
  "RT_TICK_PER_SECOND = 1000"

text \<open>\<open>ms\<close> is a signed 32-bit integer; the arithmetic of C is exact on the values that occur and is
  converted to \<^verbatim>\<open>rt_tick_t\<close>.\<close>

definition rt_tick_from_millisecond :: "int \<Rightarrow> rt_tick_t" where
  "rt_tick_from_millisecond ms =
     (if ms < 0 then RT_WAITING_FOREVER
      else word_of_int (RT_TICK_PER_SECOND * (ms div 1000)) +
           word_of_int ((RT_TICK_PER_SECOND * (ms mod 1000) + 999) div 1000))"

definition rt_thread_mdelay :: "int \<Rightarrow> kernel \<Rightarrow> (tid \<times> kernel) option" where
  "rt_thread_mdelay ms k = rt_thread_sleep (rt_tick_from_millisecond ms) k"

definition rt_interrupt_enter :: "kernel \<Rightarrow> kernel" where
  "rt_interrupt_enter k = k\<lparr>rt_interrupt_nest := rt_interrupt_nest k + 1\<rparr>"

definition rt_interrupt_leave :: "kernel \<Rightarrow> kernel" where
  "rt_interrupt_leave k = k\<lparr>rt_interrupt_nest := rt_interrupt_nest k - 1\<rparr>"

definition rt_interrupt_get_nest :: "kernel \<Rightarrow> u8" where
  "rt_interrupt_get_nest k = rt_interrupt_nest k"

section \<open>Milliseconds\<close>

lemma tick_from_ms: "0 \<le> ms \<Longrightarrow> rt_tick_from_millisecond ms = word_of_int ms"
proof -
  assume "0 \<le> ms"
  moreover have "(RT_TICK_PER_SECOND * (ms mod 1000) + 999) div 1000 = ms mod 1000"
    by (simp add: RT_TICK_PER_SECOND_def)
  moreover have "word_of_int (RT_TICK_PER_SECOND * (ms div 1000)) + word_of_int (ms mod 1000) = (word_of_int ms :: rt_tick_t)"
    by (metis RT_TICK_PER_SECOND_def mult_div_mod_eq of_int_add)
  ultimately show ?thesis by (simp add: rt_tick_from_millisecond_def)
qed

lemma sleep_too_long: "\<not> tick < RT_TICK_HALF \<Longrightarrow> start_thread_timer t tick k = None"
  by (auto simp: start_thread_timer_def rt_timer_control_def rt_timer_start_def Let_def)

text \<open>At 1000 ticks a second every non-negative number of milliseconds is exactly that many ticks,
  a negative number is \<^verbatim>\<open>RT_WAITING_FOREVER\<close>; and \<^verbatim>\<open>rt_thread_mdelay\<close> with a negative argument never
  returns: the tick count is refused by the assertion of \<^verbatim>\<open>rt_timer_start\<close>.\<close>

theorem rt_thread_mdelay_range:
  "(0 \<le> ms \<longrightarrow> rt_tick_from_millisecond ms = word_of_int ms) \<and>
   (ms < 0 \<longrightarrow> rt_thread_mdelay ms k = None)"
proof -
  have "rt_thread_mdelay ms k = None" if "ms < 0"
  proof -
    have "\<not> rt_tick_from_millisecond ms < RT_TICK_HALF"
      using that by (simp add: rt_tick_from_millisecond_def RT_TICK_HALF_def)
    then have "sleep_for t (rt_tick_from_millisecond ms) k = None" for t
      by (auto simp: sleep_for_def sleep_too_long split: Option.bind_splits)
    then show ?thesis
      by (auto simp: rt_thread_mdelay_def rt_thread_sleep_def split: Option.bind_splits)
  qed
  then show ?thesis using tick_from_ms by blast
qed

theorem rt_thread_mdelay_range_witness:
  "rt_tick_from_millisecond 1500 = 1500 \<and> rt_thread_mdelay (- 1) demo_kernel = None"
  using rt_thread_mdelay_range [of 1500 demo_kernel] rt_thread_mdelay_range [of "- 1" demo_kernel] by simp

section \<open>The tick\<close>

lemma sched_inv_slice:
  assumes "sched_inv k" "th_stat (f (threads k t)) AND 7 = th_stat (threads k t) AND 7"
    "th_current_priority (f (threads k t)) = th_current_priority (threads k t)"
    "th_number_mask (f (threads k t)) = th_number_mask (threads k t)"
  shows "sched_inv (upd_thread t f k)"
  using assms sched_core_upd_same [of "{}" k f t]
  by (auto simp: sched_inv_def current_ok_def thread_stat_def split: if_splits)

lemma check_ready_cong:
  assumes "timers_same k k'" "rt_tick k' = rt_tick k" "sched_inv k'" "timer_inv k'"
    "rt_current_thread k' \<noteq> None" "check_ready base k"
  shows "check_ready base k'"
  using assms timers_sameD [OF assms(1)]
  by (simp add: check_ready_def periods_ok_def periodic_def tm_flag_def timeout_tick_def [abs_def])

lemma tick_time_slice_step:
  assumes r: "check_ready base k"
  obtains k' where "tick_time_slice k = Some k'" "check_ready base k'" "timers_same k k'" "rt_tick k' = rt_tick k"
proof -
  obtain t where t: "rt_current_thread k = Some t" using r by (auto simp: check_ready_def)
  have inv: "sched_inv k" "timer_inv k" using r by (simp_all add: check_ready_def)
  let ?f = "\<lambda>th. th\<lparr>th_remaining_tick := th_remaining_tick th - 1\<rparr>"
  let ?g = "\<lambda>th. th\<lparr>th_remaining_tick := th_init_tick th, th_stat := th_stat th OR 8\<rparr>"
  let ?k1 = "upd_thread t ?f k"
  let ?k2 = "upd_thread t ?g ?k1"
  have s1: "sched_inv ?k1" using inv(1) by (rule sched_inv_slice) simp_all
  have s2: "sched_inv ?k2" using s1 by (rule sched_inv_slice) simp_all
  have st: "thread_stat ?k2 u = thread_stat k u" "thread_stat ?k1 u = thread_stat k u" for u
    by (simp_all add: thread_stat_def)
  have t2: "timer_inv ?k2" by (rule timer_inv_cong [OF _ _ _ inv(2)]) (simp_all add: live_def st del: thread_stat_upd)
  have t1: "timer_inv ?k1" by (rule timer_inv_cong [OF _ _ _ inv(2)]) (simp_all add: live_def st del: thread_stat_upd)
  show ?thesis
  proof (cases "th_remaining_tick (threads ?k1 t) = 0")
    case True
    have "rt_current_thread ?k2 \<noteq> None" using t by simp
    with s2 obtain k' where k': "rt_schedule ?k2 = Some k'" "resched ?k2 k'" by (rule rt_schedule_step)
    note d = reschedD [OF k'(2)]
    have "timers_same k k'" using timers_same_trans [OF _ d(3), of k] by simp
    moreover have "rt_tick k' = rt_tick k" using ipc_sameD(9) [OF d(2)] by (simp add: upd_thread_def)
    moreover have "check_ready base k'"
      using check_ready_cong [OF calculation d(1) timer_inv_resched [OF k'(2) t2] _ r] d(8) t by simp
    moreover have "tick_time_slice k = Some k'"
      using True t k'(1) by (simp add: tick_time_slice_def rt_thread_self_def rt_thread_yield_def Let_def)
    ultimately show ?thesis using that [of k'] by blast
  next
    case False
    moreover have "check_ready base ?k1"
      by (rule check_ready_cong [OF _ _ s1 t1 _ r]) (simp_all add: t upd_thread_def timers_same_def)
    ultimately show ?thesis
      using that [of ?k1] t
      by (simp add: tick_time_slice_def rt_thread_self_def Let_def timers_same_def upd_thread_def)
  qed
qed

text \<open>One tick. If the timers are in order for the new tick, \<^verbatim>\<open>rt_tick_increase\<close> returns, the
  tick has advanced by one (modulo \<open>2 ^ 32\<close>), the invariants hold, no hard timer is due any more, and
  exactly the timers that were not due, or are periodic, are still on the list.\<close>

theorem rt_tick_increase_ok:
  assumes "quiet cb" "check_ready base (k\<lparr>rt_tick := rt_tick k + 1\<rparr>)" "in_window base (rt_tick k + 1)"
  shows "\<exists>k'. rt_tick_increase cb (Suc (length (rt_timer_list k))) k = Some k' \<and>
    rt_tick k' = rt_tick k + 1 \<and> sched_inv k' \<and> timer_inv k' \<and>
    (\<forall>m \<in> set (rt_timer_list k'). \<not> due k' m) \<and>
    set (rt_timer_list k') = {m \<in> set (rt_timer_list k). \<not> due (k\<lparr>rt_tick := rt_tick k + 1\<rparr>) m \<or> periodic k m}"
proof -
  let ?k = "k\<lparr>rt_tick := rt_tick k + 1\<rparr>"
  obtain k1 where k1: "tick_time_slice ?k = Some k1" "check_ready base k1" "timers_same ?k k1"
    "rt_tick k1 = rt_tick ?k"
    using tick_time_slice_step [OF assms(2)] by blast
  note d = timers_sameD [OF k1(3)]
  have "card (due_timers k1) \<le> card (set (rt_timer_list k1))"
    by (rule card_mono) (auto simp: due_timers_def)
  then have "card (due_timers k1) < Suc (length (rt_timer_list k))"
    using card_length [of "rt_timer_list k"] d(3) by simp
  from rt_timer_check_loop_done [OF assms(1) k1(2) _ this] obtain k' where
    k': "rt_timer_check_loop cb (Suc (length (rt_timer_list k))) (rt_tick k1) k1 = Some k'" "check_ready base k'"
      "rt_tick k' = rt_tick k1" "due_timers k' = {}"
      "set (rt_timer_list k') = {x \<in> set (rt_timer_list k1). \<not> due k1 x \<or> periodic k1 x}"
    using assms(3) k1(4) by auto
  have "due k1 x = due ?k x" "periodic k1 x = periodic k x" for x
    using d(1,2) k1(4) by (simp_all add: due_def timeout_tick_def periodic_def tm_flag_def)
  then show ?thesis
    using k1 k' d(3)
    by (auto simp: rt_tick_increase_def rt_timer_check_def due_timers_def check_ready_def simp del: rt_timer_check_loop.simps)
qed

theorem rt_tick_increase_ok_witness:
  "\<exists>k'. rt_tick_increase (\<lambda>_ _. Some) 2 demo_tick_kernel = Some k' \<and> rt_tick k' = 1"
proof -
  have "quiet (\<lambda>_ _. Some)" by (simp add: quiet_def)
  moreover have tick: "rt_tick demo_tick_kernel = 0" "rt_timer_list demo_tick_kernel = [Timer 0]"
    by (simp_all add: demo_tick_kernel_def) (simp add: demo_kernel_def zero_kernel_def)
  moreover have "tm_init_tick (timers demo_tick_kernel (Timer 0)) = 10"
    by (simp add: demo_tick_kernel_def) (simp add: demo_kernel_def)
  then have "check_ready 0 (demo_tick_kernel\<lparr>rt_tick := 1\<rparr>)"
    using demo_tick_ready tick
    by (simp add: check_ready_def periods_ok_def periodic_def tm_flag_def timeout_tick_def [abs_def]
        timer_inv_def timer_lists_ok_def listed_def rt_object_get_type_def thread_timer_ok_def live_def
        thread_stat_def) (simp add: in_window_def tick_dist_def RT_TICK_HALF_def)
  moreover have "in_window 0 (rt_tick demo_tick_kernel + 1)"
    by (simp add: tick in_window_def tick_dist_def RT_TICK_HALF_def)
  ultimately show ?thesis
    using rt_tick_increase_ok [of "\<lambda>_ _. Some" 0 demo_tick_kernel] by (auto simp: numeral_2_eq_2)
qed

end
