(* ===== verification/Ipc_Core.thy ===== *)
theory Ipc_Core
  imports Clock
begin

text \<open>
  What the objects of \<^verbatim>\<open>src/ipc.c\<close> share: suspending the current thread on a waiting list in order of
  arrival or of priority, waking the first or all waiters, and the timed wait that every blocking call
  performs. A blocking call is cut at the \<^verbatim>\<open>rt_schedule\<close> that gives up the processor: its result is
  \<open>Done r\<close> when it returned \<open>r\<close>, and \<open>Blocked x\<close>, with the local variables \<open>x\<close> the rest needs, when the
  caller waits; the function with the suffix \<open>_resumed\<close> is the rest.
\<close>

section \<open>Operations\<close>

datatype ('r, 'x) outcome = Done 'r | Blocked 'x

primrec prio_insert :: "('a \<Rightarrow> nat) \<Rightarrow> 'a \<Rightarrow> 'a list \<Rightarrow> 'a list" where
  "prio_insert p t [] = [t]"
| "prio_insert p t (u # us) = (if p t < p u then t # u # us else u # prio_insert p t us)"

definition enqueue :: "u8 \<Rightarrow> ('a \<Rightarrow> nat) \<Rightarrow> 'a \<Rightarrow> 'a list \<Rightarrow> 'a list" where
  "enqueue flag p t ts =
     (if flag = RT_IPC_FLAG_FIFO then ts @ [t]
      else if flag = RT_IPC_FLAG_PRIO then prio_insert p t ts
      else ts)"

definition rt_ipc_object_init :: "lid \<Rightarrow> kernel \<Rightarrow> kernel" where
  "rt_ipc_object_init l k = k\<lparr>tlists := (tlists k)(l := [])\<rparr>"

definition rt_ipc_list_suspend :: "lid \<Rightarrow> tid \<Rightarrow> u8 \<Rightarrow> kernel \<Rightarrow> kernel option" where
  "rt_ipc_list_suspend l t flag k = do {
     (_, k) \<leftarrow> rt_thread_suspend t k;
     Some (k\<lparr>tlists := (tlists k)(l := enqueue flag (prio k) t (tlists k l))\<rparr>)
   }"

definition rt_ipc_list_resume :: "lid \<Rightarrow> kernel \<Rightarrow> kernel option" where
  "rt_ipc_list_resume l k =
     (case tlists k l of
        [] \<Rightarrow> None
      | t # _ \<Rightarrow> do { (_, k) \<leftarrow> rt_thread_resume t k; Some k })"

partial_function (option) rt_ipc_list_resume_all :: "lid \<Rightarrow> kernel \<Rightarrow> kernel option" where
  "rt_ipc_list_resume_all l k =
     (case tlists k l of
        [] \<Rightarrow> Some k
      | t # _ \<Rightarrow> do {
          (_, k) \<leftarrow> rt_thread_resume t (upd_thread t (\<lambda>th. th\<lparr>th_error := - RT_ERROR\<rparr>) k);
          rt_ipc_list_resume_all l k
        })"

text \<open>The timed wait: suspend the thread on the list, start its timer if there is a limit, and give up
  the processor. \<^verbatim>\<open>time\<close> is an \<^verbatim>\<open>rt_int32_t\<close>: positive is a limit, negative waits for ever.\<close>

definition wait_for :: "tid \<Rightarrow> u32 \<Rightarrow> kernel \<Rightarrow> kernel option" where
  "wait_for t time k = do {
     k \<leftarrow> (if 0 < sint time then start_thread_timer t time k else Some k);
     rt_schedule k
   }"

definition ipc_wait :: "lid \<Rightarrow> u8 \<Rightarrow> tid \<Rightarrow> u32 \<Rightarrow> kernel \<Rightarrow> kernel option" where
  "ipc_wait l flag t time k = do {
     k \<leftarrow> rt_ipc_list_suspend l t flag k;
     wait_for t time k
   }"

definition set_error :: "tid \<Rightarrow> rt_err_t \<Rightarrow> kernel \<Rightarrow> kernel" where
  "set_error t e = upd_thread t (\<lambda>th. th\<lparr>th_error := e\<rparr>)"

section \<open>Waiting disciplines\<close>

text \<open>The order in which waiters are served: a discipline puts a newcomer at one place of the queue,
  behind everybody it does not precede, and keeps the queue ordered. Clients rely on this contract only.\<close>

locale wait_discipline =
  fixes enq :: "'a \<Rightarrow> 'a list \<Rightarrow> 'a list" and precedes :: "'a \<Rightarrow> 'a \<Rightarrow> bool"
  assumes enq_split: "\<exists>as bs. ts = as @ bs \<and> enq t ts = as @ t # bs \<and> (bs \<noteq> [] \<longrightarrow> precedes t (hd bs)) \<and>
      (\<forall>u \<in> set as. \<not> precedes t u)"
    and precedes_trans: "precedes a b \<Longrightarrow> \<not> precedes c b \<Longrightarrow> precedes a c"
    and precedes_asym: "precedes a b \<Longrightarrow> \<not> precedes b a"
begin

lemma enq_set: "set (enq t ts) = insert t (set ts)"
  using enq_split [of ts t] by auto

lemma enq_length: "length (enq t ts) = Suc (length ts)"
  using enq_split [of ts t] by auto

lemma enq_distinct: "t \<notin> set ts \<Longrightarrow> distinct (enq t ts) = distinct ts"
  using enq_split [of ts t] by auto

lemma enq_remove: "t \<notin> set ts \<Longrightarrow> removeAll t (enq t ts) = ts"
  using enq_split [of ts t] by auto

definition ordered :: "'a list \<Rightarrow> bool" where
  "ordered ts \<longleftrightarrow> sorted_wrt (\<lambda>a b. \<not> precedes b a) ts"

lemma ordered_enq: "ordered ts \<Longrightarrow> ordered (enq t ts)"
proof -
  assume o: "ordered ts"
  from enq_split [of ts t] obtain as bs where s: "ts = as @ bs" "enq t ts = as @ t # bs"
    "bs \<noteq> [] \<longrightarrow> precedes t (hd bs)" "\<forall>u \<in> set as. \<not> precedes t u" by blast
  have "precedes t b" if b: "b \<in> set bs" for b
  proof (cases "b = hd bs")
    case True
    with b s(3) show ?thesis by auto
  next
    case False
    with b o s(1) have "\<not> precedes b (hd bs)"
      by (cases bs) (auto simp: ordered_def sorted_wrt_append)
    moreover have "precedes t (hd bs)" using b s(3) by auto
    ultimately show ?thesis using precedes_trans by blast
  qed
  then have "\<not> precedes b t" if "b \<in> set bs" for b
    using that precedes_asym by blast
  with o s show ?thesis by (auto simp: ordered_def sorted_wrt_append)
qed

lemma first_served: "ordered (t # ts) \<Longrightarrow> u \<in> set ts \<Longrightarrow> \<not> precedes u t"
  by (simp add: ordered_def)

end

lemma prio_insert_split:
  "\<exists>as bs. ts = as @ bs \<and> prio_insert p t ts = as @ t # bs \<and> (bs \<noteq> [] \<longrightarrow> p t < p (hd bs)) \<and>
     (\<forall>u \<in> set as. \<not> p t < p u)"
proof (induction ts)
  case (Cons u us)
  then obtain as bs where "us = as @ bs" "prio_insert p t us = as @ t # bs"
    "bs \<noteq> [] \<longrightarrow> p t < p (hd bs)" "\<forall>u \<in> set as. \<not> p t < p u" by blast
  then show ?case
    by (cases "p t < p u") (force intro: exI [of _ "[]"] exI [of _ "u # us"] exI [of _ "u # as"] exI [of _ bs])+
qed auto

interpretation fifo: wait_discipline "enqueue RT_IPC_FLAG_FIFO p" "\<lambda>_ _. False" for p
  by unfold_locales (auto simp: enqueue_def)

interpretation by_prio: wait_discipline "enqueue RT_IPC_FLAG_PRIO p" "\<lambda>a b. p a < p b" for p
  by unfold_locales (use prio_insert_split [of _ p] in \<open>auto simp: enqueue_def\<close>)

definition ipc_flag :: "u8 \<Rightarrow> bool" where
  "ipc_flag f \<longleftrightarrow> f = RT_IPC_FLAG_FIFO \<or> f = RT_IPC_FLAG_PRIO"

lemma enqueue_split: "ipc_flag f \<Longrightarrow> \<exists>as bs. ts = as @ bs \<and> enqueue f p t ts = as @ t # bs"
  unfolding ipc_flag_def
proof (elim disjE)
  assume "f = RT_IPC_FLAG_FIFO"
  then show ?thesis using fifo.enq_split [of ts p t] by blast
next
  assume "f = RT_IPC_FLAG_PRIO"
  then show ?thesis using by_prio.enq_split [of ts p t] by blast
qed

lemma enqueue_set: "ipc_flag f \<Longrightarrow> set (enqueue f p t ts) = insert t (set ts)"
  using fifo.enq_set [of p t ts] by_prio.enq_set [of p t ts] by (auto simp: ipc_flag_def)

lemma enqueue_not_nil [simp]: "ipc_flag f \<Longrightarrow> enqueue f p t ts \<noteq> []"
  using enqueue_set [of f p t ts] by auto

section \<open>Effects\<close>

definition wait_list :: "lid \<Rightarrow> bool" where
  "wait_list l \<longleftrightarrow> list_stat l = RT_THREAD_SUSPEND"

lemma wait_list_simps [simp]:
  "\<not> wait_list (LReady p)" "\<not> wait_list LDefunct" "wait_list (LSem i)" "wait_list (LMutex i)"
  "wait_list (LEvent i)" "wait_list (LMb i)" "wait_list (LMbSender i)" "wait_list (LMq i)"
  "wait_list (LMqSender i)" "wait_list (LMp i)" "wait_list (LCompletion i)" "wait_list (LDqPush i)"
  "wait_list (LDqPop i)"
  by (simp_all add: wait_list_def list_stat_def)

lemma wait_list_not_ready: "wait_list l \<Longrightarrow> l \<noteq> LReady p"
  by auto

lemma resched_wait_list: "resched k k' \<Longrightarrow> wait_list l \<Longrightarrow> tlists k' l = tlists k l"
  by (rule reschedD) (auto dest: wait_list_not_ready)

lemma woken_wait_list: "woken t k k' \<Longrightarrow> wait_list l \<Longrightarrow> tlists k' l = removeAll t (tlists k l)"
  by (rule wokenD) (auto dest: wait_list_not_ready)

lemma runnable_off_wait_lists:
  assumes "sched_inv k" "runnable k t" "wait_list l"
  shows "t \<notin> set (tlists k l)"
  using assms sched_core_list_state [of "{}" k t l]
  by (auto simp: sched_inv_def runnable_def list_state_def wait_list_def)

text \<open>\<open>waits_at\<close>: thread \<open>t\<close> is suspended on list \<open>l\<close>, which is \<open>q\<close> then; \<open>wakes\<close>: the first waiter of \<open>l\<close> is runnable; nothing
  else of what clients see has changed.\<close>

definition waits_at :: "lid \<Rightarrow> tid list \<Rightarrow> tid \<Rightarrow> kernel \<Rightarrow> kernel \<Rightarrow> bool" where
  "waits_at l q t k k' \<longleftrightarrow>
     sched_inv k' \<and> timer_inv k' \<and> ipc_same k k' \<and> only_stat k k' \<and>
     thread_stat k' t = RT_THREAD_SUSPEND \<and> rt_current_thread k' \<noteq> None \<and> tlists k' l = q \<and>
     (\<forall>l'. wait_list l' \<longrightarrow> l' \<noteq> l \<longrightarrow> tlists k' l' = tlists k l') \<and>
     (\<forall>u. u \<noteq> t \<longrightarrow> runnable k' u = runnable k u \<and> (\<not> runnable k u \<longrightarrow> thread_stat k' u = thread_stat k u)) \<and>
     orderly k k'"

abbreviation waits :: "lid \<Rightarrow> u8 \<Rightarrow> tid \<Rightarrow> kernel \<Rightarrow> kernel \<Rightarrow> bool" where
  "waits l flag t k k' \<equiv> waits_at l (enqueue flag (prio k) t (tlists k l)) t k k'"

lemmas waits_def = waits_at_def

definition wakes :: "tid \<Rightarrow> kernel \<Rightarrow> kernel \<Rightarrow> bool" where
  "wakes t k k' \<longleftrightarrow>
     sched_inv k' \<and> timer_inv k' \<and> ipc_same k k' \<and> only_stat k k' \<and> runnable k' t \<and>
     (rt_current_thread k' = None \<longleftrightarrow> rt_current_thread k = None) \<and>
     (\<forall>l. wait_list l \<longrightarrow> tlists k' l = removeAll t (tlists k l)) \<and>
     (\<forall>u. u \<noteq> t \<longrightarrow> runnable k' u = runnable k u \<and> (\<not> runnable k u \<longrightarrow> thread_stat k' u = thread_stat k u)) \<and>
     rt_scheduler_lock_nest k' = rt_scheduler_lock_nest k \<and> (steady k \<longrightarrow> steady k')"

text \<open>Suspending a thread and linking it at any place of a waiting list.\<close>

lemma suspend_link_step:
  assumes s: "sched_inv k" and ti: "timer_inv k" and r: "runnable k t" and l: "wait_list l"
    and ab: "tlists k l = as @ bs"
  obtains k1 where "rt_thread_suspend t k = Some (RT_EOK, k1)" "parked t k k1" "tlists k1 l = tlists k l"
    "prio k1 = prio k" "sched_inv (k1\<lparr>tlists := (tlists k1)(l := as @ t # bs)\<rparr>)"
    "timer_inv (k1\<lparr>tlists := (tlists k1)(l := as @ t # bs)\<rparr>)"
proof -
  obtain k1 where k1: "rt_thread_suspend t k = Some (RT_EOK, k1)" "parked t k k1"
    using rt_thread_suspend_step [OF s ti r] by blast
  note p = parkedD [OF k1(2)]
  let ?k' = "k1\<lparr>tlists := (tlists k1)(l := as @ t # bs)\<rparr>"
  have tl: "tlists k1 l = tlists k l"
    using p(7) [of l] runnable_off_wait_lists [OF s r l] by simp
  have pr: "prio k1 = prio k" using only_statD(7) [OF p(4)] by (simp add: fun_eq_iff)
  have c: "sched_core {} k1" and ok: "current_ok k1" using p(1) by (auto simp: sched_inv_def)
  have c1: "sched_core {t} k1" by (rule sched_core_take_off [OF c]) (simp add: p(7))
  have "list_state k1 t l" using l p(5) by (auto simp: list_state_def wait_list_def list_stat_def)
  moreover have "mask_ok k1 t" using sched_core_mask [OF c, of t] p(5) by (simp add: live_def)
  ultimately have "sched_core {} ?k'"
    using l ab by (intro sched_core_link [OF c1, where l = l and as = as and bs = bs]) (auto simp: tl)
  moreover have "current_ok ?k'" using ok by (simp add: current_ok_def thread_stat_def)
  ultimately have s': "sched_inv ?k'" by (simp add: sched_inv_def)
  have "timer_inv ?k'"
    by (rule timer_inv_cong [OF _ _ _ p(2)]) (simp_all add: timers_same_def live_def thread_stat_def)
  then show ?thesis by (rule that [OF k1 tl pr s'])
qed

definition time_ok :: "u32 \<Rightarrow> bool" where
  "time_ok time \<longleftrightarrow> (0 < sint time \<longrightarrow> time < RT_TICK_HALF)"

lemma only_stat_threads: "threads k' = threads k \<Longrightarrow> only_stat k0 k' = only_stat k0 k"
  by (simp add: only_stat_def)

lemma wait_for_step:
  assumes s: "sched_inv k" and r: "runnable k t" and l: "wait_list l" and c: "rt_current_thread k \<noteq> None"
    and tm: "time_ok time" and pk: "parked t k k1" and k2: "k2 = k1\<lparr>tlists := (tlists k1)(l := q)\<rparr>"
    and inv: "sched_inv k2" "timer_inv k2"
  obtains k' where "wait_for t time k2 = Some k'" "waits_at l q t k k'"
    "0 < sint time \<Longrightarrow> Thread_Timer t \<in> set (rt_timer_list k') \<and>
       timeout_tick k' (Thread_Timer t) = rt_tick k + time"
proof -
  note p = parkedD [OF pk]
  have st2: "thread_stat k2 t = 2" using p(5) k2 by (simp add: thread_stat_def)
  have fr2: "ipc_same k k2" "threads k2 = threads k1" "rt_current_thread k2 = rt_current_thread k" "rt_tick k2 = rt_tick k"
    using p(3,8) ipc_sameD(9) [OF p(3)] k2 by (simp_all add: ipc_same_def)
  obtain k3 where k3: "(if 0 < sint time then start_thread_timer t time k2 else Some k2) = Some k3"
    "sched_inv k3" "timer_inv k3" "ipc_same k2 k3" "threads k3 = threads k2" "tlists k3 = tlists k2"
    "rt_current_thread k3 = rt_current_thread k2"
    "rt_scheduler_lock_nest k3 = rt_scheduler_lock_nest k2" "steady k2 \<longrightarrow> steady k3"
    "0 < sint time \<Longrightarrow> Thread_Timer t \<in> set (rt_timer_list k3) \<and> timeout_tick k3 (Thread_Timer t) = rt_tick k2 + time"
  proof (cases "0 < sint time")
    case True
    then have "time < RT_TICK_HALF" using tm by (simp add: time_ok_def)
    from start_thread_timer_step [OF inv st2 this] obtain k3
      where "start_thread_timer t time k2 = Some k3" "armed t time k2 k3" by blast
    with True show ?thesis by (intro that [of k3]) (auto simp: armed_def)
  next
    case False
    with inv show ?thesis by (intro that [of k2]) auto
  qed
  have "rt_current_thread k3 \<noteq> None" using k3(7) fr2(3) c by simp
  with k3(2) obtain k' where k': "rt_schedule k3 = Some k'" "resched k3 k'" by (rule rt_schedule_step)
  note d = reschedD [OF k'(2)]
  have "wait_for t time k2 = Some k'" using k3(1) k'(1) by (simp add: wait_for_def)
  moreover have "waits_at l q t k k'"
  proof -
    have "ipc_same k k'" using ipc_same_trans [OF fr2(1) ipc_same_trans [OF k3(4) d(2)]] .
    moreover have "only_stat k k'"
      using only_stat_trans [OF _ d(4)] p(4) k3(5) fr2(2) only_stat_threads by metis
    moreover have "thread_stat k' t = 2"
      using st2 k3(5) resched_suspended [OF k'(2), of t] by (simp add: thread_stat_def)
    moreover have "tlists k' l' = tlists k2 l'" if "wait_list l'" for l'
      using resched_wait_list [OF k'(2) that] k3(6) by simp
    moreover have "tlists k1 l' = tlists k l'" if "wait_list l'" for l'
      using p(7) [of l'] runnable_off_wait_lists [OF s r that] by simp
    moreover have "runnable k3 u = runnable k u" "thread_stat k3 u = thread_stat k u" if "u \<noteq> t" for u
      using k3(5) fr2(2) p(6) [OF that] by (simp_all add: runnable_def thread_stat_def)
    then have "runnable k' u = runnable k u \<and> (\<not> runnable k u \<longrightarrow> thread_stat k' u = thread_stat k u)" if "u \<noteq> t" for u
      using that d(6,7) [of u] by simp
    moreover have "steady k2 = steady k1" unfolding k2 by (rule steady_cong) (simp_all add: timers_same_def)
    then have "orderly k k'"
      using k3(8,9) p(11) k2 steady_but [OF p(10) ipc_sameD(9) [OF p(3)]]
      by (intro orderly_schedule [OF k'(1) k3(2)]) auto
    ultimately show ?thesis
      using d(1,8) timer_inv_resched [OF k'(2) k3(3)] \<open>rt_current_thread k3 \<noteq> None\<close> l k2
      by (simp add: waits_def)
  qed
  moreover have "Thread_Timer t \<in> set (rt_timer_list k') \<and> timeout_tick k' (Thread_Timer t) = rt_tick k + time"
    if "0 < sint time"
    using k3(10) [OF that] timers_sameD [OF d(3)] fr2(4) by (simp add: timeout_tick_def)
  ultimately show ?thesis using that [of k'] by blast
qed

lemma ipc_wait_step:
  assumes s: "sched_inv k" and ti: "timer_inv k" and r: "runnable k t" and f: "ipc_flag flag"
    and l: "wait_list l" and c: "rt_current_thread k \<noteq> None" and tm: "time_ok time"
  obtains k' where "ipc_wait l flag t time k = Some k'" "waits l flag t k k'"
    "0 < sint time \<Longrightarrow> Thread_Timer t \<in> set (rt_timer_list k') \<and>
       timeout_tick k' (Thread_Timer t) = rt_tick k + time"
proof -
  from enqueue_split [OF f, of "tlists k l" "prio k" t]
  obtain as bs where ab: "tlists k l = as @ bs" "enqueue flag (prio k) t (tlists k l) = as @ t # bs"
    by blast
  obtain k1 where k1: "rt_thread_suspend t k = Some (RT_EOK, k1)" "parked t k k1" "tlists k1 l = tlists k l"
    "prio k1 = prio k" "sched_inv (k1\<lparr>tlists := (tlists k1)(l := as @ t # bs)\<rparr>)"
    "timer_inv (k1\<lparr>tlists := (tlists k1)(l := as @ t # bs)\<rparr>)"
    using suspend_link_step [OF s ti r l ab(1)] .
  have "ipc_wait l flag t time k = wait_for t time (k1\<lparr>tlists := (tlists k1)(l := as @ t # bs)\<rparr>)"
    using k1(1,3,4) ab(2) by (simp add: ipc_wait_def rt_ipc_list_suspend_def)
  with wait_for_step [OF s r l c tm k1(2) refl k1(5,6)] that ab(2) show ?thesis by metis
qed

lemma waiter_suspended:
  assumes "sched_inv k" "wait_list l" "t \<in> set (tlists k l)"
  shows "thread_stat k t = RT_THREAD_SUSPEND"
  using assms sched_core_list_state [of "{}" k t l]
  by (simp add: sched_inv_def list_state_def wait_list_def)

lemma woken_wakes: "woken t k k' \<Longrightarrow> wakes t k k'"
  using wokenD(1-6,8,10) [of t k k'] woken_wait_list [of t k k'] steady_but [OF wokenD(9) ipc_sameD(9) [OF wokenD(3)], of t k k']
  by (simp add: wakes_def runnable_def thread_stat_def)

lemma rt_ipc_list_resume_step:
  assumes s: "sched_inv k" and ti: "timer_inv k" and l: "wait_list l" "tlists k l = t # ts"
  obtains k' where "rt_ipc_list_resume l k = Some k'" "wakes t k k'" "tlists k' l = ts"
proof -
  have "thread_stat k t = 2" using waiter_suspended [OF s l(1)] l(2) by simp
  from rt_thread_resume_step [OF s ti this] obtain k'
    where k': "rt_thread_resume t k = Some (RT_EOK, k')" "woken t k k'" by blast
  have "distinct (t # ts)" using s l(2) sched_core_distinct [of "{}" k l] by (simp add: sched_inv_def)
  then have "tlists k' l = ts" using woken_wait_list [OF k'(2) l(1)] l(2) by simp
  with k' l(2) show ?thesis by (intro that [of k']) (simp_all add: rt_ipc_list_resume_def woken_wakes)
qed

lemma wakes_schedule:
  assumes w: "wakes t k k1" and s: "rt_schedule k1 = Some k'"
  shows "wakes t k k'" "orderly k k'"
proof -
  have i: "sched_inv k1" using w by (simp add: wakes_def)
  have r: "resched k1 k'" using rt_schedule_resched [OF s i] .
  note d = reschedD [OF r]
  show "orderly k k'" using w by (intro orderly_schedule [OF s i]) (simp_all add: wakes_def)
  have "steady k' = steady k1" by (rule steady_cong [OF d(3) ipc_sameD(9) [OF d(2)]])
  moreover have "tlists k' l = tlists k1 l" if "wait_list l" for l using resched_wait_list [OF r that] .
  ultimately show "wakes t k k'"
    using w d(1,6,8) timer_inv_resched [OF r] ipc_same_trans [OF _ d(2)] only_stat_trans [OF _ d(4)]
      rt_schedule_frames(4) [OF s i]
    unfolding wakes_def by (simp add: d(6,7))
qed

text \<open>Waking all waiters of a list, each with the error \<^verbatim>\<open>-RT_ERROR\<close>.\<close>

definition wakes_all :: "lid \<Rightarrow> kernel \<Rightarrow> kernel \<Rightarrow> bool" where
  "wakes_all l k k' \<longleftrightarrow>
     sched_inv k' \<and> timer_inv k' \<and> ipc_same k k' \<and>
     (rt_current_thread k' = None \<longleftrightarrow> rt_current_thread k = None) \<and>
     tlists k' l = [] \<and> (\<forall>l'. wait_list l' \<longrightarrow> l' \<noteq> l \<longrightarrow> tlists k' l' = tlists k l') \<and>
     (\<forall>t \<in> set (tlists k l). runnable k' t \<and> th_error (threads k' t) = - RT_ERROR) \<and>
     (\<forall>t. t \<notin> set (tlists k l) \<longrightarrow> runnable k' t = runnable k t \<and> th_error (threads k' t) = th_error (threads k t)) \<and>
     (\<forall>t. prio k' t = prio k t)"

lemma set_error_inv:
  assumes "sched_inv k" "timer_inv k"
  shows "sched_inv (set_error t e k)" "timer_inv (set_error t e k)"
proof -
  show "sched_inv (set_error t e k)" unfolding set_error_def using assms(1) by (rule sched_inv_slice) simp_all
  have st: "thread_stat (set_error t e k) u = thread_stat k u" for u by (simp add: set_error_def thread_stat_def)
  show "timer_inv (set_error t e k)"
    by (rule timer_inv_cong [OF _ _ _ assms(2)]) (simp_all add: live_def st, simp add: set_error_def)
qed

lemma set_error_frame [simp]:
  "tlists (set_error t e k) = tlists k" "ipc_same k0 (set_error t e k) = ipc_same k0 k"
  "timers_same k0 (set_error t e k) = timers_same k0 k"
  "rt_current_thread (set_error t e k) = rt_current_thread k"
  "runnable (set_error t e k) u = runnable k u" "prio (set_error t e k) u = prio k u"
  "thread_stat (set_error t e k) u = thread_stat k u"
  "th_error (threads (set_error t e k) u) = (if u = t then e else th_error (threads k u))"
  "rt_scheduler_lock_nest (set_error t e k) = rt_scheduler_lock_nest k"
  by (simp_all add: set_error_def runnable_def thread_stat_def prio_def)

lemma rt_ipc_list_resume_all_step:
  assumes "sched_inv k" "timer_inv k" "wait_list l"
  obtains k' where "rt_ipc_list_resume_all l k = Some k'" "wakes_all l k k'"
proof -
  have "\<exists>k'. rt_ipc_list_resume_all l k = Some k' \<and> wakes_all l k k'"
    using assms(1,2)
  proof (induction "tlists k l" arbitrary: k)
    case Nil
    then show ?case
      by (subst rt_ipc_list_resume_all.simps) (auto simp: wakes_all_def dest: sym)
  next
    case (Cons t ts)
    note tl = Cons.hyps(2) [symmetric]
    let ?k1 = "set_error t (- RT_ERROR) k"
    have st: "thread_stat ?k1 t = 2" using waiter_suspended [OF Cons.prems(1) assms(3)] tl by simp
    from rt_thread_resume_step [OF set_error_inv [OF Cons.prems] st] obtain k2
      where k2: "rt_thread_resume t ?k1 = Some (RT_EOK, k2)" "woken t ?k1 k2" by blast
    note w = woken_wakes [OF k2(2), unfolded wakes_def]
    have d: "distinct (t # ts)"
      using Cons.prems(1) tl sched_core_distinct [of "{}" k l] by (simp add: sched_inv_def)
    then have tl2: "ts = tlists k2 l" using w assms(3) tl by simp
    have off: "t \<notin> set (tlists k l')" if "wait_list l'" "l' \<noteq> l" for l'
      using Cons.prems(1) tl that sched_core_disjoint [of "{}" k t l l'] by (auto simp: sched_inv_def)
    obtain k' where k': "rt_ipc_list_resume_all l k2 = Some k'" "wakes_all l k2 k'"
      using Cons.hyps(1) [OF tl2] w by blast
    have "rt_ipc_list_resume_all l k = Some k'"
      using k2(1) k'(1) by (subst rt_ipc_list_resume_all.simps) (simp add: tl set_error_def)
    moreover have "wakes_all l k k'"
    proof -
      note a = k'(2) [unfolded wakes_all_def]
      have err: "th_error (threads k2 u) = (if u = t then - 1 else th_error (threads k u))" for u
        using w only_statD(4) [of ?k1 k2 u] by simp
      have "ipc_same k k'" using w a ipc_same_trans [of k k2 k'] ipc_same_trans [of k ?k1 k2] by simp
      moreover have "runnable k' u \<and> th_error (threads k' u) = - 1" if "u \<in> set (tlists k l)" for u
        using that a tl tl2 d err w by (cases "u = t") auto
      moreover have "runnable k' u = runnable k u \<and> th_error (threads k' u) = th_error (threads k u)"
        if "u \<notin> set (tlists k l)" for u
        using that a tl tl2 err w by auto
      moreover have "prio k' u = prio k u" for u
        using a w only_statD(7) [of ?k1 k2 u] by simp
      moreover have "tlists k' l' = tlists k l'" if "wait_list l'" "l' \<noteq> l" for l'
        using a w that off [OF that] by simp
      ultimately show ?thesis using a w unfolding wakes_all_def by simp
    qed
    ultimately show ?case by blast
  qed
  with that show ?thesis by blast
qed

text \<open>On a waiting list that serves by priority, the thread that is woken first is at least as urgent
  as every other waiter, and a new waiter stands behind the waiters of the same priority; with
  first-in-first-out order a new waiter stands last.\<close>

theorem waiting_order:
  assumes "sorted_wrt (\<lambda>a b. p a \<le> p b) ts"
  shows "sorted_wrt (\<lambda>a b. p a \<le> p b) (enqueue RT_IPC_FLAG_PRIO p t ts) \<and>
    (\<forall>u \<in> set (enqueue RT_IPC_FLAG_PRIO p t ts). p (hd (enqueue RT_IPC_FLAG_PRIO p t ts)) \<le> p u) \<and>
    (\<exists>as bs. ts = as @ bs \<and> enqueue RT_IPC_FLAG_PRIO p t ts = as @ t # bs \<and>
       (\<forall>u \<in> set as. p u \<le> p t) \<and> (\<forall>u \<in> set bs. p t < p u)) \<and>
    enqueue RT_IPC_FLAG_FIFO p t ts = ts @ [t]"
proof -
  have ord: "by_prio.ordered p xs \<longleftrightarrow> sorted_wrt (\<lambda>a b. p a \<le> p b) xs" for xs
    by (simp add: by_prio.ordered_def not_less)
  obtain as bs where s: "ts = as @ bs" "enqueue 1 p t ts = as @ t # bs"
    "bs \<noteq> [] \<longrightarrow> p t < p (hd bs)" "\<forall>u \<in> set as. \<not> p t < p u"
    using by_prio.enq_split [of ts p t] by blast
  have o: "sorted_wrt (\<lambda>a b. p a \<le> p b) (enqueue 1 p t ts)"
    using by_prio.ordered_enq [of p ts t] assms by (simp only: ord)
  have "p t < p u" if "u \<in> set bs" for u
    using that s(1,3) assms by (cases bs) (fastforce simp: sorted_wrt_append)+
  moreover have "p (hd (enqueue 1 p t ts)) \<le> p u" if "u \<in> set (enqueue 1 p t ts)" for u
    using that o by (cases "enqueue 1 p t ts") auto
  ultimately show ?thesis
    using o s by (auto simp: not_less enqueue_def)
qed

theorem waiting_order_witness:
  "enqueue RT_IPC_FLAG_PRIO (\<lambda>n. n) 5 [3, 5, 8 :: nat] = [3, 5, 5, 8] \<and>
    sorted_wrt (\<le>) [3, 5, 5, 8 :: nat]"
  using waiting_order [of "\<lambda>n. n" "[3, 5, 8 :: nat]" 5] by (simp add: enqueue_def)

text \<open>The example system with thread 3 waiting on list \<open>l\<close>, without a time limit.\<close>

definition demo_wait :: "lid \<Rightarrow> kernel" where
  "demo_wait l = demo_kernel\<lparr>threads := (threads demo_kernel)(3 := demo_thread 20 2),
     tlists := (tlists demo_kernel)(LReady 20 := [], l := [3]),
     rt_thread_ready_priority_group := push_bit 10 1 OR push_bit 31 1\<rparr>"

lemma demo_wait_inv:
  assumes "wait_list l"
  shows "sched_inv (demo_wait l)" "timer_inv (demo_wait l)" "\<exists>t. rt_current_thread (demo_wait l) = Some t"
proof -
  let ?k = "demo_wait l"
  have l: "l \<noteq> LReady p" "list_stat l = 2" for p using assms by (auto simp: wait_list_def list_stat_def)
  have g: "rt_thread_ready_priority_group ?k = push_bit 10 1 OR push_bit 31 1" by (simp add: demo_wait_def)
  have st: "thread_stat ?k t = (if t \<in> {0, 2} then 1 else if t = 1 then 3 else if t = 3 then 2 else 0)"
    "prio ?k t = (if t = 0 then 31 else if t \<in> {1, 2} then 10 else if t = 3 then 20 else 0)" for t
    by (auto simp: demo_wait_def demo_simps)
  have mem: "t \<in> set (tlists ?k l') \<longleftrightarrow> t = 2 \<and> l' = LReady 10 \<or> t = 0 \<and> l' = LReady 31 \<or> t = 3 \<and> l' = l"
    for t l' using l by (auto simp: demo_wait_def demo_simps)
  have "sched_core {} ?k"
  proof (rule sched_coreI)
    show "bit (rt_thread_ready_priority_group ?k) p \<longleftrightarrow> tlists ?k (LReady p) \<noteq> []" for p
      unfolding g bit_or_iff bit_push_bit_1 using l by (auto simp: demo_wait_def demo_kernel_def zero_kernel_def)
    show "mask_ok ?k t" if "live ?k t" for t
      using that by (auto simp: live_def st mask_ok_def split: if_splits) (auto simp: demo_wait_def demo_simps)
    show "distinct (tlists ?k l')" for l'
      by (auto simp: demo_wait_def demo_simps)
    show "t \<notin> {} \<and> list_state ?k t l'" if "t \<in> set (tlists ?k l')" for t l'
      using that l by (auto simp: mem list_state_def st list_stat_def)
  qed (auto simp: mem st l split: if_splits)
  moreover have cur: "rt_current_thread ?k = Some 1" by (simp add: demo_wait_def demo_kernel_def)
  then have "current_ok ?k"
    by (intro current_okI) (auto simp: st split: if_splits)
  ultimately show "sched_inv ?k" by (simp add: sched_inv_def)
  show "timer_inv ?k"
    by (rule timer_inv_cong [OF _ _ _ demo_timer_inv])
      (auto simp: timers_same_def live_def st listed_def demo_wait_def demo_simps split: if_splits)
  show "\<exists>t. rt_current_thread ?k = Some t" by (simp add: demo_wait_def demo_kernel_def)
qed

end
