(* ===== verification/Semaphore.thy ===== *)
theory Semaphore
  imports Ipc_Core
begin

text \<open>
  Semaphores (\<^verbatim>\<open>rt_sem_*\<close> of \<^verbatim>\<open>src/ipc.c\<close>), their invariant (a positive value excludes waiters)
  and the refinement of an abstract counting semaphore.
\<close>

section \<open>Operations\<close>

definition set_sem_value :: "nat \<Rightarrow> (u16 \<Rightarrow> u16) \<Rightarrow> kernel \<Rightarrow> kernel" where
  "set_sem_value s f k = k\<lparr>sems := (sems k)(s := (sems k s)\<lparr>sem_value := f (sem_value (sems k s))\<rparr>)\<rparr>"

definition rt_sem_init :: "nat \<Rightarrow> string \<Rightarrow> u32 \<Rightarrow> u8 \<Rightarrow> kernel \<Rightarrow> (rt_err_t \<times> kernel) option" where
  "rt_sem_init s name value flag k = do {
     rt_assert (value < 0x10000);
     k \<leftarrow> rt_object_init (OSem s) RT_Object_Class_Semaphore name k;
     let k = rt_ipc_object_init (LSem s) k;
     let k = set_sem_value s (\<lambda>_. ucast value) k;
     Some (RT_EOK, upd_obj (OSem s) (\<lambda>ob. ob\<lparr>obj_flag := flag\<rparr>) k)
   }"

definition rt_sem_detach :: "nat \<Rightarrow> kernel \<Rightarrow> (rt_err_t \<times> kernel) option" where
  "rt_sem_detach s k = do {
     rt_assert (rt_object_get_type k (OSem s) = RT_Object_Class_Semaphore);
     rt_assert (rt_object_is_systemobject k (OSem s));
     k \<leftarrow> rt_ipc_list_resume_all (LSem s) k;
     Some (RT_EOK, rt_object_detach (OSem s) k)
   }"

definition rt_sem_create ::
  "string \<Rightarrow> u32 \<Rightarrow> u8 \<Rightarrow> nat option \<Rightarrow> kernel \<Rightarrow> (nat option \<times> kernel) option" where
  "rt_sem_create name value flag mem k = do {
     rt_debug_not_in_interrupt k;
     rt_assert (value < 0x10000);
     (_, k) \<leftarrow> rt_object_allocate RT_Object_Class_Semaphore name (map_option OSem mem) k;
     (case mem of
        None \<Rightarrow> Some (None, k)
      | Some s \<Rightarrow>
          let k = rt_ipc_object_init (LSem s) k;
              k = set_sem_value s (\<lambda>_. ucast value) k
          in Some (Some s, upd_obj (OSem s) (\<lambda>ob. ob\<lparr>obj_flag := flag\<rparr>) k))
   }"

definition rt_sem_delete :: "nat \<Rightarrow> kernel \<Rightarrow> (rt_err_t \<times> kernel) option" where
  "rt_sem_delete s k = do {
     rt_debug_not_in_interrupt k;
     rt_assert (rt_object_get_type k (OSem s) = RT_Object_Class_Semaphore);
     rt_assert (\<not> rt_object_is_systemobject k (OSem s));
     k \<leftarrow> rt_ipc_list_resume_all (LSem s) k;
     k \<leftarrow> rt_object_delete (OSem s) k;
     Some (RT_EOK, k)
   }"

definition rt_sem_take :: "nat \<Rightarrow> u32 \<Rightarrow> kernel \<Rightarrow> ((rt_err_t, tid) outcome \<times> kernel) option" where
  "rt_sem_take s time k = do {
     rt_assert (rt_object_get_type k (OSem s) = RT_Object_Class_Semaphore);
     if 0 < sem_value (sems k s) then Some (Done RT_EOK, set_sem_value s (\<lambda>v. v - 1) k)
     else if time = 0 then Some (Done (- RT_ETIMEOUT), k)
     else do {
       rt_debug_in_thread_context k;
       thread \<leftarrow> rt_thread_self k;
       let k = set_error thread RT_EOK k;
       k \<leftarrow> ipc_wait (LSem s) (obj_flag (objs k (OSem s))) thread time k;
       Some (Blocked thread, k)
     }
   }"

definition rt_sem_take_resumed :: "tid \<Rightarrow> kernel \<Rightarrow> rt_err_t" where
  "rt_sem_take_resumed thread k =
     (if th_error (threads k thread) \<noteq> RT_EOK then th_error (threads k thread) else RT_EOK)"

definition rt_sem_trytake :: "nat \<Rightarrow> kernel \<Rightarrow> ((rt_err_t, tid) outcome \<times> kernel) option" where
  "rt_sem_trytake s k = rt_sem_take s 0 k"

definition rt_sem_release :: "nat \<Rightarrow> kernel \<Rightarrow> (rt_err_t \<times> kernel) option" where
  "rt_sem_release s k = do {
     rt_assert (rt_object_get_type k (OSem s) = RT_Object_Class_Semaphore);
     if tlists k (LSem s) \<noteq> [] then do {
       k \<leftarrow> rt_ipc_list_resume (LSem s) k;
       k \<leftarrow> rt_schedule k;
       Some (RT_EOK, k)
     }
     else Some (RT_EOK, set_sem_value s (\<lambda>v. v + 1) k)
   }"

definition rt_sem_control :: "nat \<Rightarrow> int \<Rightarrow> u32 \<Rightarrow> kernel \<Rightarrow> (rt_err_t \<times> kernel) option" where
  "rt_sem_control s cmd arg k = do {
     rt_assert (rt_object_get_type k (OSem s) = RT_Object_Class_Semaphore);
     if cmd = RT_IPC_CMD_RESET then do {
       k \<leftarrow> rt_ipc_list_resume_all (LSem s) k;
       let k = set_sem_value s (\<lambda>_. ucast arg) k;
       k \<leftarrow> rt_schedule k;
       Some (RT_EOK, k)
     }
     else Some (- RT_ERROR, k)
   }"

section \<open>Invariant\<close>

definition sem_inv :: "kernel \<Rightarrow> bool" where
  "sem_inv k \<longleftrightarrow> (\<forall>s. 0 < sem_value (sems k s) \<longrightarrow> tlists k (LSem s) = [])"

text \<open>A kernel that is running: the invariants of the lower layers hold and a thread has the
  processor; \<open>in_thread k t\<close> says that \<open>t\<close> is executing, outside of interrupts.\<close>

definition base_inv :: "kernel \<Rightarrow> bool" where
  "base_inv k \<longleftrightarrow> sched_inv k \<and> timer_inv k \<and> rt_current_thread k \<noteq> None"

definition in_thread :: "kernel \<Rightarrow> tid \<Rightarrow> bool" where
  "in_thread k t \<longleftrightarrow>
     rt_current_thread k = Some t \<and> thread_stat k t = RT_THREAD_RUNNING \<and> rt_interrupt_nest k = 0"

lemma base_invD:
  assumes "base_inv k"
  shows "sched_inv k" "timer_inv k" "rt_current_thread k \<noteq> None"
  using assms by (auto simp: base_inv_def)

lemma in_threadD:
  assumes "in_thread k t"
  shows "rt_current_thread k = Some t" "thread_stat k t = RT_THREAD_RUNNING" "rt_interrupt_nest k = 0"
  using assms by (simp_all add: in_thread_def)

lemma set_sem_value_frame [simp]:
  "threads (set_sem_value s f k) = threads k" "tlists (set_sem_value s f k) = tlists k"
  "sched_inv (set_sem_value s f k) = sched_inv k"
  "rt_current_thread (set_sem_value s f k) = rt_current_thread k"
  "timers_same k0 (set_sem_value s f k) = timers_same k0 k"
  "sem_value (sems (set_sem_value s f k) s') =
     (if s' = s then f (sem_value (sems k s)) else sem_value (sems k s'))"
  "runnable (set_sem_value s f k) t = runnable k t"
  by (simp_all add: set_sem_value_def timers_same_def runnable_def thread_stat_def)

lemma timer_inv_write:
  "timers_same k k' \<Longrightarrow> threads k' = threads k \<Longrightarrow> timer_inv k \<Longrightarrow> timer_inv k'"
  by (rule timer_inv_cong [of k]) (simp_all add: live_def thread_stat_def)

lemma base_inv_sem_value [simp]: "base_inv k \<Longrightarrow> base_inv (set_sem_value s f k)"
  by (auto simp: base_inv_def intro: timer_inv_write [of k])

section \<open>Effects\<close>

lemma sem_inv_waits:
  assumes "sem_inv k" "waits (LSem s) flag t k k'" "sem_value (sems k s) = 0"
  shows "sem_inv k'"
  unfolding sem_inv_def
proof (intro allI impI)
  fix s'
  assume v: "0 < sem_value (sems k' s')"
  have "sems k' = sems k" using assms(2) ipc_sameD(1) [of k k'] by (simp add: waits_def)
  with v assms show "tlists k' (LSem s') = []"
    by (cases "s' = s") (auto simp: waits_def sem_inv_def)
qed

lemma sem_inv_wakes: "sem_inv k \<Longrightarrow> wakes t k k' \<Longrightarrow> sem_inv k'"
  using ipc_sameD(1) [of k k'] by (auto simp: wakes_def sem_inv_def)

lemma rt_sem_take_blocks:
  assumes b: "base_inv k" and i: "in_thread k t" and ty: "rt_object_get_type k (OSem s) = RT_Object_Class_Semaphore"
    and v: "sem_value (sems k s) = 0" and tm: "time \<noteq> 0" "time_ok time" and f: "ipc_flag (obj_flag (objs k (OSem s)))"
  obtains k' where "rt_sem_take s time k = Some (Blocked t, k')"
    "waits (LSem s) (obj_flag (objs k (OSem s))) t (set_error t RT_EOK k) k'"
    "0 < sint time \<Longrightarrow> Thread_Timer t \<in> set (rt_timer_list k') \<and>
       timeout_tick k' (Thread_Timer t) = rt_tick k + time"
proof -
  let ?k = "set_error t RT_EOK k"
  have ob: "objs ?k = objs k" "rt_tick ?k = rt_tick k" by (simp_all add: set_error_def upd_thread_def)
  have "runnable ?k t" using i by (simp add: in_thread_def runnable_def)
  from ipc_wait_step [OF set_error_inv [OF base_invD(1,2) [OF b]] this f _ _ tm(2), of "LSem s"]
  obtain k' where k': "ipc_wait (LSem s) (obj_flag (objs k (OSem s))) t time ?k = Some k'"
    "waits (LSem s) (obj_flag (objs k (OSem s))) t ?k k'"
    "0 < sint time \<Longrightarrow> Thread_Timer t \<in> set (rt_timer_list k') \<and> timeout_tick k' (Thread_Timer t) = rt_tick ?k + time"
    using base_invD(3) [OF b] by auto
  have "rt_sem_take s time k = Some (Blocked t, k')"
    using ty v tm(1) i k'(1) ob(1)
    by (simp add: rt_sem_take_def in_thread_def rt_debug_in_thread_context_def rt_thread_self_def Let_def)
  with k' ob(2) show ?thesis using that by simp
qed

lemma rt_sem_release_wakes:
  assumes b: "base_inv k" and ty: "rt_object_get_type k (OSem s) = RT_Object_Class_Semaphore"
    and q: "tlists k (LSem s) = t # ts"
  obtains k' where "rt_sem_release s k = Some (RT_EOK, k')" "wakes t k k'" "tlists k' (LSem s) = ts"
    "orderly k k'"
proof -
  obtain k1 where k1: "rt_ipc_list_resume (LSem s) k = Some k1" "wakes t k k1" "tlists k1 (LSem s) = ts"
    using rt_ipc_list_resume_step [OF base_invD(1,2) [OF b] _ q] by auto
  then have "sched_inv k1" "rt_current_thread k1 \<noteq> None" using base_invD(3) [OF b] by (auto simp: wakes_def)
  then obtain k' where k': "rt_schedule k1 = Some k'" "resched k1 k'" by (rule rt_schedule_step)
  have "rt_sem_release s k = Some (RT_EOK, k')" using ty q k1(1) k'(1) by (simp add: rt_sem_release_def)
  moreover have "tlists k' (LSem s) = ts" using resched_wait_list [OF k'(2)] k1(3) by simp
  ultimately show ?thesis using that wakes_schedule [OF k1(2) k'(1)] by blast
qed

section \<open>The abstract semaphore\<close>

text \<open>A counter and a queue of waiters. Taking decrements a positive counter, fails at once when the caller
  does not want to wait, and queues the caller otherwise; releasing hands the unit to the first waiter or
  increments the counter, which has 16 bits.\<close>

type_synonym sem_state = "nat \<times> tid list"

definition sem_spec_take ::
  "(tid \<Rightarrow> tid list \<Rightarrow> tid list) \<Rightarrow> tid \<Rightarrow> u32 \<Rightarrow> sem_state \<Rightarrow> (rt_err_t, tid) outcome \<times> sem_state" where
  "sem_spec_take enq t time st =
     (let (n, q) = st
      in if 0 < n then (Done RT_EOK, (n - 1, q))
         else if time = 0 then (Done (- RT_ETIMEOUT), (n, q))
         else (Blocked t, (n, enq t q)))"

definition sem_spec_release :: "sem_state \<Rightarrow> sem_state" where
  "sem_spec_release st =
     (let (n, q) = st in case q of [] \<Rightarrow> ((n + 1) mod 2 ^ 16, []) | _ # q' \<Rightarrow> (n, q'))"

definition sem_abs :: "kernel \<Rightarrow> nat \<Rightarrow> sem_state" where
  "sem_abs k s = (unat (sem_value (sems k s)), tlists k (LSem s))"

lemma base_inv_wakes: "base_inv k \<Longrightarrow> wakes t k k' \<Longrightarrow> base_inv k'"
  by (auto simp: base_inv_def wakes_def)

lemma base_inv_waits: "waits l flag t k k' \<Longrightarrow> base_inv k'"
  by (auto simp: base_inv_def waits_def)

lemma set_error_fields [simp]:
  "sems (set_error t e k) = sems k" "mutexes (set_error t e k) = mutexes k"
  "events (set_error t e k) = events k" "mailboxes (set_error t e k) = mailboxes k"
  "msgqueues (set_error t e k) = msgqueues k" "mempools (set_error t e k) = mempools k"
  "objs (set_error t e k) = objs k" "rt_tick (set_error t e k) = rt_tick k"
  "rt_interrupt_nest (set_error t e k) = rt_interrupt_nest k"
  "prio (set_error t e k) = prio k" "tm_flag (set_error t e k) m = tm_flag k m"
  "rt_object_get_type (set_error t e k) r = rt_object_get_type k r"
  by (simp_all add: set_error_def upd_thread_def fun_eq_iff prio_def tm_flag_def rt_object_get_type_def)

text \<open>C5: \<^verbatim>\<open>rt_sem_take\<close> refines the abstract semaphore. Called by the running thread it returns, answers
  and changes the counter and the queue as the specification says (queueing by arrival or by priority, as
  the flag of the semaphore asks), keeps the invariants, and leaves every other semaphore alone.\<close>

theorem rt_sem_take_refines:
  assumes "base_inv k" "sem_inv k" "in_thread k t" "time_ok time"
    and "rt_object_get_type k (OSem s) = RT_Object_Class_Semaphore" "ipc_flag (obj_flag (objs k (OSem s)))"
  shows "\<exists>r k'. rt_sem_take s time k = Some (r, k') \<and>
    (r, sem_abs k' s) = sem_spec_take (enqueue (obj_flag (objs k (OSem s))) (prio k)) t time (sem_abs k s) \<and>
    base_inv k' \<and> sem_inv k' \<and> (\<forall>s'. s' \<noteq> s \<longrightarrow> sem_abs k' s' = sem_abs k s')"
proof (cases "0 < sem_value (sems k s)")
  case True
  let ?k = "set_sem_value s (\<lambda>v. v - 1) k"
  have "unat (sem_value (sems k s) - 1) = unat (sem_value (sems k s)) - 1"
    using True by (intro unat_minus_one) auto
  moreover have "sem_inv ?k" using assms(2) True by (auto simp: sem_inv_def)
  moreover have "0 < unat (sem_value (sems k s))" using True by (simp add: word_greater_zero_iff unat_gt_0)
  ultimately show ?thesis
    using True assms(1,5)
    by (intro exI [of _ "Done 0"] exI [of _ ?k]) (simp add: rt_sem_take_def sem_abs_def sem_spec_take_def)
next
  case False
  then have z: "sem_value (sems k s) = 0" by (simp add: word_greater_zero_iff)
  show ?thesis
  proof (cases "time = 0")
    case True
    with z assms show ?thesis
      by (intro exI [of _ "Done (- 2)"] exI [of _ k])
        (simp add: rt_sem_take_def sem_abs_def sem_spec_take_def)
  next
    case False
    obtain k' where k': "rt_sem_take s time k = Some (Blocked t, k')"
      "waits (LSem s) (obj_flag (objs k (OSem s))) t (set_error t RT_EOK k) k'"
      using rt_sem_take_blocks [OF assms(1,3,5) z False assms(4,6)] by blast
    have "sems k' = sems k" using k'(2) ipc_sameD(1) [of "set_error t RT_EOK k" k'] by (simp add: waits_def)
    moreover have "sem_inv k'"
      using sem_inv_waits [OF _ k'(2)] assms(2) z by (simp add: sem_inv_def)
    ultimately show ?thesis
      using k' z False base_inv_waits [OF k'(2)]
      by (intro exI [of _ "Blocked t"] exI [of _ k']) (simp add: sem_abs_def sem_spec_take_def waits_def)
  qed
qed

theorem rt_sem_take_refines_witness:
  "\<exists>r k'. rt_sem_take 0 5 demo_kernel = Some (r, k') \<and> r = Blocked 1 \<and> sem_abs k' 0 = (0, [1])"
proof -
  have "base_inv demo_kernel" "in_thread demo_kernel 1" "sem_inv demo_kernel" "sem_abs demo_kernel 0 = (0, [])"
    using demo_kernel_inv demo_timer_inv
    by (simp_all add: base_inv_def in_thread_def sem_inv_def sem_abs_def)
      (simp_all add: demo_simps)
  moreover have "rt_object_get_type demo_kernel (OSem 0) = 2" "obj_flag (objs demo_kernel (OSem 0)) = 0"
    by (simp_all add: rt_object_get_type_def demo_kernel_def) (simp add: oref_class_def)
  moreover have "time_ok 5" by (simp add: time_ok_def RT_TICK_HALF_def)
  ultimately show ?thesis
    using rt_sem_take_refines [of demo_kernel 1 5 0]
    by (auto simp: ipc_flag_def sem_spec_take_def enqueue_def)
qed

text \<open>C6: \<^verbatim>\<open>rt_sem_release\<close> refines the abstract semaphore: it hands the unit to the first waiter, which
  becomes runnable, without touching the counter, or increments the counter (65535 wraps to 0); the
  invariants hold and other semaphores keep their state.\<close>

theorem rt_sem_release_refines:
  assumes "base_inv k" "sem_inv k" "rt_object_get_type k (OSem s) = RT_Object_Class_Semaphore"
  shows "\<exists>k'. rt_sem_release s k = Some (RT_EOK, k') \<and> sem_abs k' s = sem_spec_release (sem_abs k s) \<and>
    base_inv k' \<and> sem_inv k' \<and> (\<forall>s'. s' \<noteq> s \<longrightarrow> sem_abs k' s' = sem_abs k s') \<and>
    (\<forall>t ts. tlists k (LSem s) = t # ts \<longrightarrow> runnable k' t)"
proof (cases "tlists k (LSem s)")
  case Nil
  let ?k = "set_sem_value s (\<lambda>v. v + 1) k"
  have "sem_inv ?k" using assms(2) Nil by (auto simp: sem_inv_def)
  moreover have "unat (sem_value (sems k s) + 1) = (unat (sem_value (sems k s)) + 1) mod 2 ^ 16"
    by (simp add: unat_word_ariths)
  ultimately show ?thesis
    using Nil assms by (intro exI [of _ ?k]) (simp add: rt_sem_release_def sem_abs_def sem_spec_release_def)
next
  case (Cons t ts)
  obtain k' where k': "rt_sem_release s k = Some (RT_EOK, k')" "wakes t k k'" "tlists k' (LSem s) = ts"
    using rt_sem_release_wakes [OF assms(1,3) Cons] by blast
  have "sems k' = sems k" using k'(2) ipc_sameD(1) by (simp add: wakes_def)
  moreover have "tlists k' (LSem s') = tlists k (LSem s')" if "s' \<noteq> s" for s'
  proof -
    have "t \<notin> set (tlists k (LSem s'))"
      using sched_core_disjoint [of "{}" k t "LSem s" "LSem s'"] base_invD(1) [OF assms(1)] Cons that
      by (auto simp: sched_inv_def)
    then show ?thesis using k'(2) by (simp add: wakes_def)
  qed
  ultimately show ?thesis
    using k' Cons sem_inv_wakes [OF assms(2) k'(2)] base_inv_wakes [OF assms(1) k'(2)]
    by (intro exI [of _ k']) (simp add: sem_abs_def sem_spec_release_def wakes_def)
qed

theorem rt_sem_release_refines_witness:
  "\<exists>k'. rt_sem_release 0 demo_kernel = Some (RT_EOK, k') \<and> sem_abs k' 0 = (1, [])"
proof -
  have "base_inv demo_kernel" "sem_inv demo_kernel" "sem_abs demo_kernel 0 = (0, [])"
    using demo_kernel_inv demo_timer_inv
    by (simp_all add: base_inv_def sem_inv_def sem_abs_def) (simp_all add: demo_simps)
  moreover have "rt_object_get_type demo_kernel (OSem 0) = 2"
    by (simp add: rt_object_get_type_def demo_kernel_def) (simp add: oref_class_def)
  ultimately show ?thesis
    using rt_sem_release_refines [of demo_kernel 0] by (auto simp: sem_spec_release_def)
qed

text \<open>The three ways a blocked \<^verbatim>\<open>rt_sem_take\<close> ends. A waiter woken by \<^verbatim>\<open>rt_sem_release\<close> returns
  \<^verbatim>\<open>RT_EOK\<close> if its error code is clear; a waiter whose timer expires leaves the queue and returns
  \<^verbatim>\<open>-RT_ETIMEOUT\<close>; every waiter of a reset semaphore returns \<^verbatim>\<open>-RT_ERROR\<close>.\<close>

theorem rt_sem_take_results:
  assumes b: "base_inv k" and ty: "rt_object_get_type k (OSem s) = RT_Object_Class_Semaphore"
    and q: "tlists k (LSem s) = t # ts" "th_error (threads k t) = RT_EOK"
    and u: "u \<in> set (t # ts)" "\<not> listed k (Thread_Timer u)"
  shows "(\<exists>k'. rt_sem_release s k = Some (RT_EOK, k') \<and> rt_sem_take_resumed t k' = RT_EOK) \<and>
    (\<exists>k'. rt_thread_timeout u k = Some k' \<and> rt_sem_take_resumed u k' = - RT_ETIMEOUT \<and>
       tlists k' (LSem s) = removeAll u (t # ts)) \<and>
    (\<exists>k'. rt_sem_control s RT_IPC_CMD_RESET v k = Some (RT_EOK, k') \<and> tlists k' (LSem s) = [] \<and>
       sem_value (sems k' s) = ucast v \<and> (\<forall>w \<in> set (t # ts). rt_sem_take_resumed w k' = - RT_ERROR))"
proof (intro conjI)
  obtain k' where "rt_sem_release s k = Some (RT_EOK, k')" "wakes t k k'"
    using rt_sem_release_wakes [OF b ty q(1)] by blast
  then show "\<exists>k'. rt_sem_release s k = Some (RT_EOK, k') \<and> rt_sem_take_resumed t k' = RT_EOK"
    using q(2) only_statD(4) [of k k' t] by (auto simp: rt_sem_take_resumed_def wakes_def)
next
  have "thread_stat k u = 2" using waiter_suspended [OF base_invD(1) [OF b], of "LSem s" u] u(1) q(1) by simp
  from rt_thread_timeout_step [OF base_invD(1,2) [OF b] this u(2) base_invD(3) [OF b]] obtain k'
    where "rt_thread_timeout u k = Some k'" "timed_out u k k'" by blast
  then show "\<exists>k'. rt_thread_timeout u k = Some k' \<and> rt_sem_take_resumed u k' = - RT_ETIMEOUT \<and>
       tlists k' (LSem s) = removeAll u (t # ts)"
    using q(1) by (simp add: timed_out_def rt_sem_take_resumed_def)
next
  obtain k1 where k1: "rt_ipc_list_resume_all (LSem s) k = Some k1" "wakes_all (LSem s) k k1"
    using rt_ipc_list_resume_all_step [OF base_invD(1,2) [OF b], of "LSem s"] by auto
  let ?k = "set_sem_value s (\<lambda>_. ucast v) k1"
  have "sched_inv ?k" "rt_current_thread ?k \<noteq> None"
    using k1(2) base_invD(3) [OF b] by (simp_all add: wakes_all_def)
  then obtain k' where k': "rt_schedule ?k = Some k'" "resched ?k k'" by (rule rt_schedule_step)
  have "th_error (threads k' w) = - 1" if "w \<in> set (t # ts)" for w
    using that k1(2) q(1) only_statD(4) [OF reschedD(4) [OF k'(2)], of w] by (auto simp: wakes_all_def)
  moreover have "tlists k' (LSem s) = []" "sems k' = sems ?k"
    using resched_wait_list [OF k'(2)] k1(2) ipc_sameD(1) [OF reschedD(2) [OF k'(2)]] by (simp_all add: wakes_all_def)
  ultimately show "\<exists>k'. rt_sem_control s RT_IPC_CMD_RESET v k = Some (RT_EOK, k') \<and> tlists k' (LSem s) = [] \<and>
       sem_value (sems k' s) = ucast v \<and> (\<forall>w \<in> set (t # ts). rt_sem_take_resumed w k' = - RT_ERROR)"
    using ty k1(1) k'(1) by (intro exI [of _ k']) (simp add: rt_sem_control_def rt_sem_take_resumed_def)
qed

theorem rt_sem_take_results_witness:
  "\<exists>k'. rt_thread_timeout 3 (demo_wait (LSem 0)) = Some k' \<and> rt_sem_take_resumed 3 k' = - RT_ETIMEOUT \<and>
     tlists k' (LSem 0) = []"
proof -
  have "base_inv (demo_wait (LSem 0))" by (simp add: base_inv_def demo_wait_inv)
  moreover have "rt_object_get_type (demo_wait (LSem 0)) (OSem 0) = 2"
    by (simp add: rt_object_get_type_def demo_wait_def demo_kernel_def) (simp add: oref_class_def)
  moreover have "tlists (demo_wait (LSem 0)) (LSem 0) = [3]" "th_error (threads (demo_wait (LSem 0)) 3) = 0"
    "\<not> listed (demo_wait (LSem 0)) (Thread_Timer 3)"
    by (simp_all add: demo_wait_def demo_simps listed_def)
  ultimately show ?thesis
    using rt_sem_take_results [of "demo_wait (LSem 0)" 0 3 "[]" 3 0] by auto
qed

end
