(* ===== verification/Small_Mem.thy ===== *)
theory Small_Mem
  imports Semaphore
begin

text \<open>
  The small memory allocator (\<^verbatim>\<open>src/mem.c\<close>): a first-fit allocator whose blocks are a doubly linked list of headers
  inside the heap. A pointer into the heap is its distance from \<^verbatim>\<open>heap_ptr\<close>, as in the links of the code. The headers
  and the bytes of the clients are two views of the memory; an access outside of the heap has no result.
  Sizes are \<^verbatim>\<open>rt_size_t\<close>, taken modulo \<open>2 ^ 32\<close> wherever a computation can wrap around.
\<close>

section \<open>Operations\<close>

record heap_mem =
  hm_magic :: u16
  hm_used :: u16
  hm_next :: nat
  hm_prev :: nat

record heap =
  heap_ptr :: nat
  heap_end :: nat
  lfree :: nat
  heap_sem :: nat
  mem_size_aligned :: nat
  used_mem :: u32
  max_mem :: u32
  heap_node :: "nat \<Rightarrow> heap_mem"
  heap_byte :: "nat \<Rightarrow> u8"

definition HEAP_MAGIC :: u16 where
  "HEAP_MAGIC = 0x1ea0"

abbreviation (input) SIZEOF_STRUCT_MEM :: nat where "SIZEOF_STRUCT_MEM \<equiv> 12"
abbreviation (input) MIN_SIZE :: nat where "MIN_SIZE \<equiv> 12"
abbreviation (input) MIN_SIZE_ALIGNED :: nat where "MIN_SIZE_ALIGNED \<equiv> 12"

text \<open>The subtraction of \<^verbatim>\<open>rt_size_t\<close>, and the header at a place of the heap.\<close>

definition wsub :: "nat \<Rightarrow> nat \<Rightarrow> nat" where
  "wsub a b = nat ((int a - int b) mod 2 ^ 32)"

definition node_at :: "nat \<Rightarrow> heap \<Rightarrow> heap_mem option" where
  "node_at p h = (if p \<le> heap_end h then Some (heap_node h p) else None)"

definition node_upd :: "nat \<Rightarrow> (heap_mem \<Rightarrow> heap_mem) \<Rightarrow> heap \<Rightarrow> heap option" where
  "node_upd p f h =
     (if p \<le> heap_end h then Some (h\<lparr>heap_node := (heap_node h)(p := f (heap_node h p))\<rparr>) else None)"

definition plug_forward :: "nat \<Rightarrow> heap \<Rightarrow> heap option" where
  "plug_forward mem h = do {
     m \<leftarrow> node_at mem h;
     let nmem = hm_next m;
     n \<leftarrow> node_at nmem h;
     if mem \<noteq> nmem \<and> hm_used n = 0 \<and> nmem \<noteq> heap_end h then do {
       let h = (if lfree h = nmem then h\<lparr>lfree := mem\<rparr> else h);
       h \<leftarrow> node_upd mem (\<lambda>m. m\<lparr>hm_next := hm_next n\<rparr>) h;
       node_upd (hm_next n) (\<lambda>m. m\<lparr>hm_prev := mem\<rparr>) h
     }
     else Some h
   }"

definition plug_backward :: "nat \<Rightarrow> heap \<Rightarrow> heap option" where
  "plug_backward mem h = do {
     m \<leftarrow> node_at mem h;
     let pmem = hm_prev m;
     p \<leftarrow> node_at pmem h;
     if pmem \<noteq> mem \<and> hm_used p = 0 then do {
       let h = (if lfree h = mem then h\<lparr>lfree := pmem\<rparr> else h);
       h \<leftarrow> node_upd pmem (\<lambda>p. p\<lparr>hm_next := hm_next m\<rparr>) h;
       node_upd (hm_next m) (\<lambda>n. n\<lparr>hm_prev := pmem\<rparr>) h
     }
     else Some h
   }"

definition plug_holes :: "nat \<Rightarrow> heap \<Rightarrow> heap option" where
  "plug_holes mem h = do {
     rt_assert (mem < heap_end h);
     m \<leftarrow> node_at mem h;
     rt_assert (hm_used m = 0);
     h \<leftarrow> plug_forward mem h;
     plug_backward mem h
   }"

text \<open>\<^verbatim>\<open>rt_system_heap_init\<close>; the field \<open>heap_sem\<close> is the number of the semaphore \<^verbatim>\<open>heap_sem\<close>.\<close>

definition rt_system_heap_init :: "u32 \<Rightarrow> u32 \<Rightarrow> kernel \<Rightarrow> heap \<Rightarrow> (kernel \<times> heap) option" where
  "rt_system_heap_init begin_addr end_addr k h = do {
     let begin_align = RT_ALIGN begin_addr 4;
     let end_align = RT_ALIGN_DOWN end_addr 4;
     rt_debug_not_in_interrupt k;
     if 24 < end_align \<and> begin_align \<le> end_align - 24 then do {
       let mem_size = unat (end_align - begin_align - 24);
       let last = mem_size + SIZEOF_STRUCT_MEM;
       let node = (heap_node h)(0 := \<lparr>hm_magic = HEAP_MAGIC, hm_used = 0, hm_next = last, hm_prev = 0\<rparr>,
                                last := \<lparr>hm_magic = HEAP_MAGIC, hm_used = 1, hm_next = last, hm_prev = last\<rparr>);
       (_, k) \<leftarrow> rt_sem_init (heap_sem h) ''heap'' 1 RT_IPC_FLAG_FIFO k;
       Some (k, h\<lparr>mem_size_aligned := mem_size, heap_ptr := unat begin_align, heap_node := node,
                  heap_end := last, lfree := 0\<rparr>)
     }
     else Some (k, h)
   }"

text \<open>The search of \<^verbatim>\<open>rt_malloc\<close> for a free block that is large enough.\<close>

partial_function (option) malloc_scan :: "heap \<Rightarrow> nat \<Rightarrow> nat \<Rightarrow> nat option option" where
  "malloc_scan h sz ptr =
     (if ptr < wsub (mem_size_aligned h) sz then do {
        mem \<leftarrow> node_at ptr h;
        if hm_used mem = 0 \<and> sz \<le> wsub (hm_next mem) (ptr + SIZEOF_STRUCT_MEM) then Some (Some ptr)
        else malloc_scan h sz (hm_next mem)
      }
      else Some None)"

definition count_used :: "nat \<Rightarrow> heap \<Rightarrow> heap" where
  "count_used n h =
     (let h = h\<lparr>used_mem := used_mem h + word_of_nat n\<rparr>
      in if max_mem h < used_mem h then h\<lparr>max_mem := used_mem h\<rparr> else h)"

text \<open>Splitting a block: a new free header behind the first \<open>sz\<close> bytes.\<close>

definition heap_split :: "nat \<Rightarrow> nat \<Rightarrow> heap \<Rightarrow> heap option" where
  "heap_split ptr sz h = do {
     mem \<leftarrow> node_at ptr h;
     let ptr2 = ptr + SIZEOF_STRUCT_MEM + sz;
     h \<leftarrow> node_upd ptr2 (\<lambda>_. \<lparr>hm_magic = HEAP_MAGIC, hm_used = 0, hm_next = hm_next mem, hm_prev = ptr\<rparr>) h;
     h \<leftarrow> node_upd ptr (\<lambda>m. m\<lparr>hm_next := ptr2\<rparr>) h;
     if hm_next mem \<noteq> mem_size_aligned h + SIZEOF_STRUCT_MEM
     then node_upd (hm_next mem) (\<lambda>m. m\<lparr>hm_prev := ptr2\<rparr>) h
     else Some h
   }"

text \<open>The search for the next free block when the lowest one has been given away.\<close>

partial_function (option) lfree_advance :: "heap \<Rightarrow> nat \<Rightarrow> nat option" where
  "lfree_advance h p = do {
     mem \<leftarrow> node_at p h;
     if hm_used mem \<noteq> 0 \<and> p \<noteq> heap_end h then lfree_advance h (hm_next mem) else Some p
   }"

definition malloc_mark :: "nat \<Rightarrow> nat \<Rightarrow> heap \<Rightarrow> heap option" where
  "malloc_mark sz ptr h = do {
     mem \<leftarrow> node_at ptr h;
     h \<leftarrow> (if sz + SIZEOF_STRUCT_MEM + MIN_SIZE_ALIGNED \<le> wsub (hm_next mem) (ptr + SIZEOF_STRUCT_MEM) then do {
             h \<leftarrow> heap_split ptr sz h;
             h \<leftarrow> node_upd ptr (\<lambda>m. m\<lparr>hm_used := 1\<rparr>) h;
             Some (count_used (sz + SIZEOF_STRUCT_MEM) h)
           }
           else do {
             h \<leftarrow> node_upd ptr (\<lambda>m. m\<lparr>hm_used := 1\<rparr>) h;
             Some (count_used (wsub (hm_next mem) ptr) h)
           });
     node_upd ptr (\<lambda>m. m\<lparr>hm_magic := HEAP_MAGIC\<rparr>) h
   }"

definition malloc_take :: "nat \<Rightarrow> nat \<Rightarrow> heap \<Rightarrow> heap option" where
  "malloc_take sz ptr h = do {
     h \<leftarrow> malloc_mark sz ptr h;
     if ptr = lfree h then do {
       p \<leftarrow> lfree_advance h (lfree h);
       let h = h\<lparr>lfree := p\<rparr>;
       mem \<leftarrow> node_at p h;
       rt_assert (lfree h = heap_end h \<or> hm_used mem = 0);
       Some h
     }
     else Some h
   }"

text \<open>What \<^verbatim>\<open>rt_malloc\<close> does while it holds the semaphore, and the assertions behind it.\<close>

definition malloc_locked :: "nat \<Rightarrow> heap \<Rightarrow> (nat option \<times> heap) option" where
  "malloc_locked sz h = do {
     found \<leftarrow> malloc_scan h sz (lfree h);
     (case found of
        None \<Rightarrow> Some (None, h)
      | Some ptr \<Rightarrow> do {
          h \<leftarrow> malloc_take sz ptr h;
          Some (Some ptr, h)
        })
   }"

definition malloc_result :: "nat \<Rightarrow> nat option \<Rightarrow> heap \<Rightarrow> nat option option" where
  "malloc_result sz found h =
     (case found of
        None \<Rightarrow> Some None
      | Some ptr \<Rightarrow> do {
          rt_assert (ptr + SIZEOF_STRUCT_MEM + sz \<le> heap_end h);
          rt_assert ((heap_ptr h + ptr + SIZEOF_STRUCT_MEM) mod 4 = 0);
          rt_assert ((heap_ptr h + ptr) mod 4 = 0);
          Some (Some (heap_ptr h + ptr + SIZEOF_STRUCT_MEM))
        })"

abbreviation (input) RT_WAITING_FOREVER :: u32 where "RT_WAITING_FOREVER \<equiv> 0xffffffff"

definition malloc_section :: "nat \<Rightarrow> kernel \<Rightarrow> heap \<Rightarrow> ((nat option, tid \<times> nat) outcome \<times> kernel \<times> heap) option" where
  "malloc_section sz k h = do {
     (found, h) \<leftarrow> malloc_locked sz h;
     (_, k) \<leftarrow> rt_sem_release (heap_sem h) k;
     r \<leftarrow> malloc_result sz found h;
     Some (Done r, k, h)
   }"

definition rt_malloc :: "u32 \<Rightarrow> kernel \<Rightarrow> heap \<Rightarrow> ((nat option, tid \<times> nat) outcome \<times> kernel \<times> heap) option" where
  "rt_malloc len k h =
     (if len = 0 then Some (Done None, k, h)
      else do {
        rt_debug_not_in_interrupt k;
        let len = RT_ALIGN len 4;
        if mem_size_aligned h < unat len then Some (Done None, k, h)
        else do {
          let sz = (if unat len < MIN_SIZE_ALIGNED then MIN_SIZE_ALIGNED else unat len);
          (r, k) \<leftarrow> rt_sem_take (heap_sem h) RT_WAITING_FOREVER k;
          (case r of
             Blocked t \<Rightarrow> Some (Blocked (t, sz), k, h)
           | Done _ \<Rightarrow> malloc_section sz k h)
        }
      })"

text \<open>A caller that had to wait goes on like one that did not: the result of \<^verbatim>\<open>rt_sem_take\<close> is not looked at.\<close>

definition rt_malloc_resumed :: "tid \<times> nat \<Rightarrow> kernel \<Rightarrow> heap \<Rightarrow> ((nat option, tid \<times> nat) outcome \<times> kernel \<times> heap) option" where
  "rt_malloc_resumed w k h = malloc_section (snd w) k h"

definition free_locked :: "nat \<Rightarrow> heap \<Rightarrow> heap option" where
  "free_locked rmem h = do {
     rt_assert (heap_ptr h + SIZEOF_STRUCT_MEM \<le> rmem);
     let mem = rmem - SIZEOF_STRUCT_MEM - heap_ptr h;
     m \<leftarrow> node_at mem h;
     rt_assert (hm_used m \<noteq> 0);
     rt_assert (hm_magic m = HEAP_MAGIC);
     h \<leftarrow> node_upd mem (\<lambda>m. m\<lparr>hm_used := 0, hm_magic := HEAP_MAGIC\<rparr>) h;
     let h = (if mem < lfree h then h\<lparr>lfree := mem\<rparr> else h);
     let h = h\<lparr>used_mem := used_mem h - word_of_nat (wsub (hm_next m) mem)\<rparr>;
     plug_holes mem h
   }"

definition free_section :: "nat \<Rightarrow> kernel \<Rightarrow> heap \<Rightarrow> ((unit, tid \<times> nat) outcome \<times> kernel \<times> heap) option" where
  "free_section rmem k h = do {
     h \<leftarrow> free_locked rmem h;
     (_, k) \<leftarrow> rt_sem_release (heap_sem h) k;
     Some (Done (), k, h)
   }"

definition rt_free :: "nat option \<Rightarrow> kernel \<Rightarrow> heap \<Rightarrow> ((unit, tid \<times> nat) outcome \<times> kernel \<times> heap) option" where
  "rt_free ptr k h =
     (case ptr of
        None \<Rightarrow> Some (Done (), k, h)
      | Some rmem \<Rightarrow> do {
          rt_debug_not_in_interrupt k;
          rt_assert (rmem mod 4 = 0);
          rt_assert (heap_ptr h \<le> rmem \<and> rmem < heap_ptr h + heap_end h);
          (r, k) \<leftarrow> rt_sem_take (heap_sem h) RT_WAITING_FOREVER k;
          (case r of
             Blocked t \<Rightarrow> Some (Blocked (t, rmem), k, h)
           | Done _ \<Rightarrow> free_section rmem k h)
        })"

definition rt_free_resumed :: "tid \<times> nat \<Rightarrow> kernel \<Rightarrow> heap \<Rightarrow> ((unit, tid \<times> nat) outcome \<times> kernel \<times> heap) option" where
  "rt_free_resumed w k h = free_section (snd w) k h"

text \<open>\<^verbatim>\<open>rt_realloc\<close>: the part that holds the semaphore decides whether the block can stay where it is; otherwise its
  size is needed for the copy. The function can wait at three places.\<close>

datatype realloc_step = Keep | Grow nat

definition realloc_locked :: "nat \<Rightarrow> nat \<Rightarrow> heap \<Rightarrow> (realloc_step \<times> heap) option" where
  "realloc_locked rmem newsize h =
     (if rmem < heap_ptr h \<or> heap_ptr h + heap_end h \<le> rmem then Some (Keep, h)
      else do {
        rt_assert (heap_ptr h + SIZEOF_STRUCT_MEM \<le> rmem);
        let ptr = rmem - SIZEOF_STRUCT_MEM - heap_ptr h;
        mem \<leftarrow> node_at ptr h;
        let sz = wsub (wsub (hm_next mem) ptr) SIZEOF_STRUCT_MEM;
        if sz = newsize then Some (Keep, h)
        else if newsize + SIZEOF_STRUCT_MEM + MIN_SIZE < sz then do {
          let h = h\<lparr>used_mem := used_mem h - word_of_nat (sz - newsize)\<rparr>;
          h \<leftarrow> heap_split ptr newsize h;
          h \<leftarrow> plug_holes (ptr + SIZEOF_STRUCT_MEM + newsize) h;
          Some (Keep, h)
        }
        else Some (Grow sz, h)
      })"

definition heap_memcpy :: "nat \<Rightarrow> nat \<Rightarrow> nat \<Rightarrow> heap \<Rightarrow> heap" where
  "heap_memcpy dst src n h =
     h\<lparr>heap_byte := (\<lambda>a. if dst \<le> a \<and> a < dst + n then heap_byte h (src + (a - dst)) else heap_byte h a)\<rparr>"

text \<open>The local variables a waiting call still needs: the block and the new size; the block, the new size and the old
  one, if there is a block to copy; the pointer to return.\<close>

datatype realloc_wait =
    Wait_lock tid nat u32
  | Wait_malloc "tid \<times> nat" "(nat \<times> nat \<times> nat) option"
  | Wait_free "tid \<times> nat" "nat option"

definition realloc_free :: "nat \<Rightarrow> nat \<Rightarrow> kernel \<Rightarrow> heap \<Rightarrow> ((nat option, realloc_wait) outcome \<times> kernel \<times> heap) option" where
  "realloc_free rmem nmem k h = do {
     (r, k, h) \<leftarrow> rt_free (Some rmem) k h;
     (case r of
        Blocked w \<Rightarrow> Some (Blocked (Wait_free w (Some nmem)), k, h)
      | Done _ \<Rightarrow> Some (Done (Some nmem), k, h))
   }"

definition realloc_move ::
  "nat \<Rightarrow> nat \<Rightarrow> nat \<Rightarrow> nat option \<Rightarrow> kernel \<Rightarrow> heap \<Rightarrow> ((nat option, realloc_wait) outcome \<times> kernel \<times> heap) option" where
  "realloc_move rmem newsize sz nmem k h =
     (case nmem of
        None \<Rightarrow> Some (Done None, k, h)
      | Some n \<Rightarrow> realloc_free rmem n k (heap_memcpy n rmem (if sz < newsize then sz else newsize) h))"

definition realloc_section ::
  "nat \<Rightarrow> u32 \<Rightarrow> kernel \<Rightarrow> heap \<Rightarrow> ((nat option, realloc_wait) outcome \<times> kernel \<times> heap) option" where
  "realloc_section rmem newsize k h = do {
     (step, h) \<leftarrow> realloc_locked rmem (unat newsize) h;
     (_, k) \<leftarrow> rt_sem_release (heap_sem h) k;
     (case step of
        Keep \<Rightarrow> Some (Done (Some rmem), k, h)
      | Grow sz \<Rightarrow> do {
          (r, k, h) \<leftarrow> rt_malloc newsize k h;
          (case r of
             Blocked w \<Rightarrow> Some (Blocked (Wait_malloc w (Some (rmem, unat newsize, sz))), k, h)
           | Done nmem \<Rightarrow> realloc_move rmem (unat newsize) sz nmem k h)
        })
   }"

definition rt_realloc ::
  "nat option \<Rightarrow> u32 \<Rightarrow> kernel \<Rightarrow> heap \<Rightarrow> ((nat option, realloc_wait) outcome \<times> kernel \<times> heap) option" where
  "rt_realloc ptr newsize k h = do {
     rt_debug_not_in_interrupt k;
     let newsize = RT_ALIGN newsize 4;
     if mem_size_aligned h < unat newsize then Some (Done None, k, h)
     else if newsize = 0 then do {
       (r, k, h) \<leftarrow> rt_free ptr k h;
       (case r of
          Blocked w \<Rightarrow> Some (Blocked (Wait_free w None), k, h)
        | Done _ \<Rightarrow> Some (Done None, k, h))
     }
     else (case ptr of
         None \<Rightarrow> do {
           (r, k, h) \<leftarrow> rt_malloc newsize k h;
           (case r of
              Blocked w \<Rightarrow> Some (Blocked (Wait_malloc w None), k, h)
            | Done p \<Rightarrow> Some (Done p, k, h))
         }
       | Some rmem \<Rightarrow> do {
           (r, k) \<leftarrow> rt_sem_take (heap_sem h) RT_WAITING_FOREVER k;
           (case r of
              Blocked t \<Rightarrow> Some (Blocked (Wait_lock t rmem newsize), k, h)
            | Done _ \<Rightarrow> realloc_section rmem newsize k h)
         })
   }"

definition rt_realloc_resumed ::
  "realloc_wait \<Rightarrow> kernel \<Rightarrow> heap \<Rightarrow> ((nat option, realloc_wait) outcome \<times> kernel \<times> heap) option" where
  "rt_realloc_resumed wait k h =
     (case wait of
        Wait_lock t rmem newsize \<Rightarrow> realloc_section rmem newsize k h
      | Wait_malloc w old \<Rightarrow> do {
          (r, k, h) \<leftarrow> rt_malloc_resumed w k h;
          (case r of
             Blocked w \<Rightarrow> Some (Blocked (Wait_malloc w old), k, h)
           | Done nmem \<Rightarrow>
               (case old of
                  None \<Rightarrow> Some (Done nmem, k, h)
                | Some (rmem, newsize, sz) \<Rightarrow> realloc_move rmem newsize sz nmem k h))
        }
      | Wait_free w res \<Rightarrow> do {
          (_, k, h) \<leftarrow> rt_free_resumed w k h;
          Some (Done res, k, h)
        })"

definition heap_memset :: "nat \<Rightarrow> u8 \<Rightarrow> nat \<Rightarrow> heap \<Rightarrow> heap" where
  "heap_memset dst c n h = h\<lparr>heap_byte := (\<lambda>a. if dst \<le> a \<and> a < dst + n then c else heap_byte h a)\<rparr>"

definition calloc_clear :: "nat option \<Rightarrow> nat \<Rightarrow> heap \<Rightarrow> heap" where
  "calloc_clear p n h = (case p of None \<Rightarrow> h | Some a \<Rightarrow> heap_memset a 0 n h)"

definition rt_calloc ::
  "u32 \<Rightarrow> u32 \<Rightarrow> kernel \<Rightarrow> heap \<Rightarrow> ((nat option, (tid \<times> nat) \<times> nat) outcome \<times> kernel \<times> heap) option" where
  "rt_calloc count len k h = do {
     (r, k, h) \<leftarrow> rt_malloc (count * len) k h;
     (case r of
        Blocked w \<Rightarrow> Some (Blocked (w, unat (count * len)), k, h)
      | Done p \<Rightarrow> Some (Done p, k, calloc_clear p (unat (count * len)) h))
   }"

definition rt_calloc_resumed ::
  "(tid \<times> nat) \<times> nat \<Rightarrow> kernel \<Rightarrow> heap \<Rightarrow> ((nat option, (tid \<times> nat) \<times> nat) outcome \<times> kernel \<times> heap) option" where
  "rt_calloc_resumed w k h = do {
     (r, k, h) \<leftarrow> rt_malloc_resumed (fst w) k h;
     (case r of
        Blocked v \<Rightarrow> Some (Blocked (v, snd w), k, h)
      | Done p \<Rightarrow> Some (Done p, k, calloc_clear p (snd w) h))
   }"

definition rt_memory_info :: "heap \<Rightarrow> nat \<times> u32 \<times> u32" where
  "rt_memory_info h = (mem_size_aligned h, used_mem h, max_mem h)"

section \<open>The blocks of the heap\<close>

text \<open>The abstract heap is the list of its blocks in the order of their addresses, each with its length (header
  included) and whether it is allocated. \<open>blocks nd q p bs\<close> says that the headers from \<open>p\<close> on are the ones of \<open>bs\<close>;
  the first of them points back to \<open>q\<close>.\<close>

type_synonym block = "nat \<times> bool"

definition total_len :: "block list \<Rightarrow> nat" where
  "total_len bs = sum_list (map fst bs)"

definition node_ok :: "heap_mem \<Rightarrow> nat \<Rightarrow> nat \<Rightarrow> block \<Rightarrow> bool" where
  "node_ok m q p b \<longleftrightarrow>
     hm_next m = p + fst b \<and> hm_prev m = q \<and> hm_used m = of_bool (snd b) \<and> hm_magic m = HEAP_MAGIC \<and>
     12 \<le> fst b \<and> 4 dvd fst b"

primrec blocks :: "(nat \<Rightarrow> heap_mem) \<Rightarrow> nat \<Rightarrow> nat \<Rightarrow> block list \<Rightarrow> bool" where
  "blocks nd q p [] \<longleftrightarrow> True"
| "blocks nd q p (b # bs) \<longleftrightarrow> node_ok (nd p) q p b \<and> blocks nd p (p + fst b) bs"

definition last_pos :: "nat \<Rightarrow> nat \<Rightarrow> block list \<Rightarrow> nat" where
  "last_pos q p bs = (if bs = [] then q else p + total_len (butlast bs))"

lemma total_len_simps [simp]:
  "total_len [] = 0" "total_len (b # bs) = fst b + total_len bs" "total_len (xs @ ys) = total_len xs + total_len ys"
  by (simp_all add: total_len_def)

lemma last_pos_simps [simp]:
  "last_pos q p [] = q" "last_pos q p (b # bs) = last_pos p (p + fst b) bs" "last_pos q p (xs @ [b]) = p + total_len xs"
  by (simp_all add: last_pos_def)

lemma blocks_append [simp]:
  "blocks nd q p (xs @ ys) \<longleftrightarrow> blocks nd q p xs \<and> blocks nd (last_pos q p xs) (p + total_len xs) ys"
  by (induction xs arbitrary: q p) (auto simp: add.assoc)

lemma blocks_upd [simp]:
  "x < p \<or> p + total_len bs \<le> x \<Longrightarrow> blocks (nd(x := m)) q p bs = blocks nd q p bs"
proof (induction bs arbitrary: q p)
  case (Cons b bs)
  have "node_ok ((nd(x := m)) p) q p b = node_ok (nd p) q p b" using Cons.prems by (auto simp: node_ok_def)
  moreover have "node_ok (nd p) q p b \<Longrightarrow> blocks (nd(x := m)) p (p + fst b) bs = blocks nd p (p + fst b) bs"
    using Cons.prems by (intro Cons.IH) auto
  ultimately show ?case by (auto simp del: fun_upd_apply)
qed simp

lemma blocks_len: "blocks nd q p bs \<Longrightarrow> 12 * length bs \<le> total_len bs \<and> 4 dvd total_len bs"
proof (induction bs arbitrary: q p)
  case (Cons b bs)
  then have "12 * length bs \<le> total_len bs \<and> 4 dvd total_len bs" "node_ok (nd p) q p b" by auto
  then show ?case by (simp add: node_ok_def)
qed simp

lemma blocks_unique:
  "blocks nd q p bs \<Longrightarrow> blocks nd q p cs \<Longrightarrow> total_len bs = total_len cs \<Longrightarrow> bs = cs"
proof (induction bs arbitrary: q p cs)
  case Nil
  then show ?case using blocks_len [of nd q p cs] by (cases cs) auto
next
  case (Cons b bs)
  then obtain c cs' where cs: "cs = c # cs'" using blocks_len [of nd q p "b # bs"] by (cases cs) auto
  have "b = c" using Cons.prems cs by (auto simp: node_ok_def prod_eq_iff)
  with Cons cs show ?case by auto
qed

lemma blocks_set_prev:
  "blocks nd q p (b # bs) \<Longrightarrow> blocks (nd(p := (nd p)\<lparr>hm_prev := q'\<rparr>)) q' p (b # bs)"
  by (simp add: node_ok_def)

text \<open>The headers of a heap: the last one is always in use and points to itself.\<close>

definition heap_shape :: "heap \<Rightarrow> block list \<Rightarrow> bool" where
  "heap_shape h bs \<longleftrightarrow>
     blocks (heap_node h) 0 0 bs \<and> total_len bs = heap_end h \<and> heap_end h = mem_size_aligned h + 12 \<and>
     hm_used (heap_node h (heap_end h)) = 1 \<and> heap_ptr h mod 4 = 0 \<and> heap_ptr h + heap_end h + 12 \<le> 2 ^ 32"

lemma heap_shape_node:
  assumes "heap_shape h (us @ b # vs)"
  shows "node_ok (heap_node h (total_len us)) (last_pos 0 0 us) (total_len us) b"
    and "total_len us + fst b + total_len vs = heap_end h" "12 \<le> fst b" "4 dvd fst b" "4 dvd total_len us"
    and "heap_end h < 2 ^ 32"
  using assms blocks_len [of "heap_node h" 0 0 us] by (auto simp: heap_shape_def node_ok_def)

lemma heap_shape_upd:
  assumes h: "heap_shape h (us @ b # vs)"
    and m: "node_ok m (last_pos 0 0 us) (total_len us) b'" "fst b' = fst b"
  shows "heap_shape (h\<lparr>heap_node := (heap_node h)(total_len us := m)\<rparr>) (us @ b' # vs)"
  using assms heap_shape_node [OF h] by (auto simp: heap_shape_def simp del: fun_upd_apply) (auto simp: m)

lemma node_at_block: "heap_shape h (us @ b # vs) \<Longrightarrow> node_at (total_len us) h = Some (heap_node h (total_len us))"
  using heap_shape_node(2) [of h us b vs] by (simp add: node_at_def)

lemma node_at_next:
  assumes "heap_shape h (us @ b # vs)"
  shows "node_at (total_len us + fst b) h = Some (heap_node h (total_len us + fst b))"
    "node_upd (total_len us + fst b) f h = Some (h\<lparr>heap_node := (heap_node h)(total_len us + fst b := f (heap_node h (total_len us + fst b)))\<rparr>)"
  using heap_shape_node(2) [OF assms] by (simp_all add: node_at_def node_upd_def)

lemma node_upd_block:
  "heap_shape h (us @ b # vs) \<Longrightarrow>
     node_upd (total_len us) f h = Some (h\<lparr>heap_node := (heap_node h)(total_len us := f (heap_node h (total_len us)))\<rparr>)"
  using heap_shape_node(2) [of h us b vs] by (simp add: node_upd_def)

text \<open>Writing the link back to \<open>q\<close> into the header behind a block, if that is not the end of the heap.\<close>

definition relink :: "nat \<Rightarrow> nat \<Rightarrow> (nat \<Rightarrow> heap_mem) \<Rightarrow> nat \<Rightarrow> heap_mem" where
  "relink p q nd = nd(p := (nd p)\<lparr>hm_prev := q\<rparr>)"

lemma blocks_relink:
  "blocks nd q p vs \<Longrightarrow> blocks (relink p q' nd) q' p vs"
  by (cases vs) (auto simp: relink_def blocks_set_prev simp del: blocks.simps(2))

lemma relink_used [simp]: "hm_used (relink p q nd x) = hm_used (nd x)"
  by (simp add: relink_def)

lemma blocks_relink_before: "p + total_len bs \<le> x \<Longrightarrow> blocks (relink x r nd) q p bs = blocks nd q p bs"
  by (simp add: relink_def)

section \<open>Splitting and merging\<close>

lemma heap_split_shape:
  assumes h: "heap_shape h (us @ (n, u) # vs)" and sz: "sz + 24 \<le> n" "4 dvd sz"
  shows "\<exists>nd. heap_split (total_len us) sz h = Some (h\<lparr>heap_node := nd\<rparr>) \<and>
    heap_shape (h\<lparr>heap_node := nd\<rparr>) (us @ (sz + 12, u) # (n - (sz + 12), False) # vs)"
proof -
  let ?p = "total_len us" and ?nd = "heap_node h"
  let ?p2 = "?p + 12 + sz"
  note nf = heap_shape_node [OF h]
  define nd where "nd = ?nd(?p2 := \<lparr>hm_magic = HEAP_MAGIC, hm_used = 0, hm_next = ?p + n, hm_prev = ?p\<rparr>, ?p := (?nd ?p)\<lparr>hm_next := ?p2\<rparr>)"
  define nd' where "nd' = (if ?p + n = heap_end h then nd else relink (?p + n) ?p2 nd)"
  have node: "hm_next (?nd ?p) = ?p + n" using nf(1) by (simp add: node_ok_def)
  have split: "heap_split ?p sz h = Some (h\<lparr>heap_node := nd'\<rparr>)"
    using nf(2) sz(1) h node_at_block [OF h]
    by (auto simp: heap_split_def Let_def node nd'_def nd_def node_upd_def relink_def heap_shape_def)
  have "blocks ?nd 0 0 us" "blocks ?nd ?p (?p + n) vs" using h by (auto simp: heap_shape_def)
  then have "blocks nd 0 0 us" "blocks nd ?p (?p + n) vs" using sz(1) by (auto simp: nd_def)
  then have "blocks nd' 0 0 us" "blocks nd' ?p2 (?p + n) vs"
    using nf(2) blocks_len [of nd ?p "?p + n" vs]
    by (auto simp: nd'_def blocks_relink_before intro: blocks_relink)
  moreover have at: "nd' ?p = nd ?p" "nd' ?p2 = nd ?p2" using sz(1) by (auto simp: nd'_def relink_def)
  have "4 dvd n - (sz + 12)" using nf(4) sz(2) by (simp add: dvd_diff_nat)
  then have "node_ok (nd' ?p) (last_pos 0 0 us) ?p (sz + 12, u)" "node_ok (nd' ?p2) ?p ?p2 (n - (sz + 12), False)"
    unfolding at using nf(1) sz by (simp_all add: node_ok_def nd_def)
  moreover have "hm_used (nd' (heap_end h)) = hm_used (?nd (heap_end h))"
    using nf(2) sz(1) by (simp add: nd'_def nd_def)
  ultimately have "heap_shape (h\<lparr>heap_node := nd'\<rparr>) (us @ (sz + 12, u) # (n - (sz + 12), False) # vs)"
    using h sz(1) by (auto simp: heap_shape_def ac_simps)
  with split show ?thesis by blast
qed

text \<open>Merging a free block with a free one behind it, and with a free one in front of it. A pointer to the lowest
  free block that points to the header that disappears moves to the merged block.\<close>

lemma merge_shape:
  assumes h: "heap_shape h (us @ (n, False) # (m, False) # vs)"
  defines "nd \<equiv> (heap_node h)(total_len us := (heap_node h (total_len us))\<lparr>hm_next := total_len us + n + m\<rparr>)"
  shows "heap_shape (h\<lparr>heap_node := relink (total_len us + n + m) (total_len us) nd\<rparr>) (us @ (n + m, False) # vs)"
proof -
  let ?p = "total_len us" and ?e = "total_len us + n + m"
  let ?nd = "relink ?e ?p nd"
  have bl: "blocks (heap_node h) 0 0 us" "blocks (heap_node h) (?p + n) ?e vs" and
    n: "node_ok (heap_node h ?p) (last_pos 0 0 us) ?p (n, False)" "node_ok (heap_node h (?p + n)) ?p (?p + n) (m, False)"
    and e: "?e + total_len vs = heap_end h"
    using h by (auto simp: heap_shape_def ac_simps)
  have "blocks nd 0 0 us" "blocks nd (?p + n) ?e vs" using bl n by (auto simp: nd_def node_ok_def)
  then have "blocks ?nd 0 0 us" "blocks ?nd ?p ?e vs" by (auto simp: blocks_relink_before intro: blocks_relink)
  moreover have "node_ok (?nd ?p) (last_pos 0 0 us) ?p (n + m, False)"
    using n by (auto simp: nd_def relink_def node_ok_def)
  moreover have "hm_used (?nd (heap_end h)) = hm_used (heap_node h (heap_end h))"
    using e n by (auto simp: nd_def node_ok_def)
  ultimately show ?thesis using h by (auto simp: heap_shape_def ac_simps)
qed

text \<open>The list after a block of length \<open>n\<close> between \<open>us\<close> and \<open>vs\<close> has become free.\<close>

definition merge_next :: "nat \<Rightarrow> block list \<Rightarrow> block list" where
  "merge_next n vs = (case vs of (m, False) # vs' \<Rightarrow> (n + m, False) # vs' | _ \<Rightarrow> (n, False) # vs)"

definition merge_prev :: "block list \<Rightarrow> nat \<Rightarrow> block list \<Rightarrow> block list" where
  "merge_prev us n vs = (case rev us of (m, False) # us' \<Rightarrow> rev us' @ (m + n, False) # vs | _ \<Rightarrow> us @ (n, False) # vs)"

definition merge_free :: "block list \<Rightarrow> nat \<Rightarrow> block list \<Rightarrow> block list" where
  "merge_free us n vs = (case merge_next n vs of (n', _) # vs' \<Rightarrow> merge_prev us n' vs' | [] \<Rightarrow> us)"

definition unfree :: "nat \<Rightarrow> nat \<Rightarrow> nat \<Rightarrow> nat" where
  "unfree gone p l = (if l = gone then p else l)"

definition lfree_next :: "block list \<Rightarrow> nat \<Rightarrow> block list \<Rightarrow> nat \<Rightarrow> nat" where
  "lfree_next us n vs l = (case vs of (m, False) # _ \<Rightarrow> unfree (total_len us + n) (total_len us) l | _ \<Rightarrow> l)"

definition lfree_prev :: "block list \<Rightarrow> nat \<Rightarrow> nat" where
  "lfree_prev us l = (case rev us of (m, False) # _ \<Rightarrow> unfree (total_len us) (total_len us - m) l | _ \<Rightarrow> l)"

lemma plug_forward_shape:
  assumes h: "heap_shape h (us @ (n, False) # vs)"
  shows "\<exists>nd. plug_forward (total_len us) h = Some (h\<lparr>heap_node := nd, lfree := lfree_next us n vs (lfree h)\<rparr>) \<and>
    heap_shape (h\<lparr>heap_node := nd\<rparr>) (us @ merge_next n vs)"
proof -
  let ?p = "total_len us"
  note nf = heap_shape_node [OF h]
  have nx: "hm_next (heap_node h ?p) = ?p + n" "?p \<noteq> ?p + n" using nf(1,3) by (simp_all add: node_ok_def)
  note rd = node_at_block [OF h] node_at_next(1) [OF h]
  show ?thesis
  proof (cases vs)
    case Nil
    then have "?p + n = heap_end h" using nf(2) by simp
    then show ?thesis using Nil h rd nx
      by (auto simp: plug_forward_def merge_next_def lfree_next_def Let_def intro!: exI [of _ "heap_node h"])
  next
    case (Cons v vs')
    obtain m u where v: "v = (m, u)" by (cases v)
    have h': "heap_shape h ((us @ [(n, False)]) @ v # vs')" using h Cons by simp
    note nf' = heap_shape_node [OF h'] and rd' = node_at_block [OF h']
    have e: "?p + n \<noteq> heap_end h" "?p + n + m \<le> heap_end h" using nf'(2,3) v by auto
    show ?thesis
    proof (cases u)
      case True
      then show ?thesis using Cons v h rd nx nf'(1)
        by (auto simp: plug_forward_def merge_next_def lfree_next_def Let_def node_ok_def intro!: exI [of _ "heap_node h"])
    next
      case False
      then have u: "hm_used (heap_node h (?p + n)) = 0" "hm_next (heap_node h (?p + n)) = ?p + n + m"
        using nf'(1) v by (auto simp: node_ok_def)
      show ?thesis
        using Cons v False rd nx e u nf(2) merge_shape [of h us n m vs'] h
        by (intro exI [of _ "relink (?p + n + m) ?p ((heap_node h)(?p := (heap_node h ?p)\<lparr>hm_next := ?p + n + m\<rparr>))"])
          (auto simp: plug_forward_def merge_next_def lfree_next_def Let_def node_upd_def relink_def unfree_def)
    qed
  qed
qed

lemma plug_backward_shape:
  assumes h: "heap_shape h (us @ (n, False) # vs)"
  shows "\<exists>nd. plug_backward (total_len us) h = Some (h\<lparr>heap_node := nd, lfree := lfree_prev us (lfree h)\<rparr>) \<and>
    heap_shape (h\<lparr>heap_node := nd\<rparr>) (merge_prev us n vs)"
proof (cases us rule: rev_cases)
  case Nil
  have "hm_prev (heap_node h 0) = 0" using heap_shape_node(1) [OF h] Nil by (simp add: node_ok_def)
  then show ?thesis using Nil h node_at_block [OF h]
    by (auto simp: plug_backward_def merge_prev_def lfree_prev_def Let_def intro!: exI [of _ "heap_node h"])
next
  case (snoc us' v)
  let ?q = "total_len us'"
  obtain m u where v: "v = (m, u)" by (cases v)
  have p: "total_len us = ?q + m" and h': "heap_shape h (us' @ (m, u) # (n, False) # vs)" using snoc v h by simp_all
  note nf = heap_shape_node [OF h] and nf' = heap_shape_node [OF h']
  have nx: "hm_next (heap_node h (?q + m)) = ?q + m + n" "hm_prev (heap_node h (?q + m)) = ?q" "0 < m"
    using nf(1) nf'(3) p snoc v by (auto simp: node_ok_def)
  have u: "hm_used (heap_node h ?q) = of_bool u" "hm_next (heap_node h ?q) = ?q + m" using nf'(1) by (simp_all add: node_ok_def)
  note rd = node_at_block [OF h, unfolded p] node_at_block [OF h']
  show ?thesis
  proof (cases u)
    case True
    then show ?thesis using snoc v h rd nx u unfolding p
      by (auto simp: plug_backward_def merge_prev_def lfree_prev_def Let_def intro!: exI [of _ "heap_node h"])
  next
    case False
    then show ?thesis using snoc v rd nx u nf(2) merge_shape [of h us' m n vs] h' unfolding p
      by (intro exI [of _ "relink (?q + m + n) ?q ((heap_node h)(?q := (heap_node h ?q)\<lparr>hm_next := ?q + m + n\<rparr>))"])
        (auto simp: plug_backward_def merge_prev_def lfree_prev_def Let_def node_upd_def relink_def unfree_def)
  qed
qed

section \<open>Allocated and free blocks\<close>

text \<open>Where the free blocks start, where the allocated ones start and how long they are, and how much is allocated.\<close>

primrec free_pos :: "nat \<Rightarrow> block list \<Rightarrow> nat set" where
  "free_pos p [] = {}"
| "free_pos p (b # bs) = (if snd b then {} else {p}) \<union> free_pos (p + fst b) bs"

primrec used_pos :: "nat \<Rightarrow> block list \<Rightarrow> (nat \<times> nat) set" where
  "used_pos p [] = {}"
| "used_pos p (b # bs) = (if snd b then {(p, fst b)} else {}) \<union> used_pos (p + fst b) bs"

definition used_len :: "block list \<Rightarrow> nat" where
  "used_len bs = sum_list (map fst (filter snd bs))"

lemma free_pos_append [simp]: "free_pos p (xs @ ys) = free_pos p xs \<union> free_pos (p + total_len xs) ys"
  by (induction xs arbitrary: p) (auto simp: add.assoc)

lemma used_pos_append [simp]: "used_pos p (xs @ ys) = used_pos p xs \<union> used_pos (p + total_len xs) ys"
  by (induction xs arbitrary: p) (auto simp: add.assoc)

lemma used_len_simps [simp]:
  "used_len [] = 0" "used_len (b # bs) = (if snd b then fst b else 0) + used_len bs" "used_len (xs @ ys) = used_len xs + used_len ys"
  by (simp_all add: used_len_def)

lemma used_len_bound: "used_len bs \<le> total_len bs"
  by (induction bs) auto

lemma used_posD: "(q, n) \<in> used_pos p bs \<Longrightarrow> \<exists>us vs. bs = us @ (n, True) # vs \<and> q = p + total_len us"
proof (induction bs arbitrary: p)
  case (Cons b bs)
  then consider "b = (n, True)" "q = p" | "(q, n) \<in> used_pos (p + fst b) bs" by (cases b) (auto split: if_splits)
  then show ?case
  proof cases
    case 1
    then show ?thesis by (intro exI [of _ "[]"] exI [of _ bs]) simp
  next
    case 2
    then obtain us vs where "bs = us @ (n, True) # vs" "q = p + fst b + total_len us" using Cons.IH [of "p + fst b"] by auto
    then show ?thesis by (intro exI [of _ "b # us"] exI [of _ vs]) simp
  qed
qed simp

lemma free_posD: "q \<in> free_pos p bs \<Longrightarrow> \<exists>us n vs. bs = us @ (n, False) # vs \<and> q = p + total_len us"
proof (induction bs arbitrary: p)
  case (Cons b bs)
  then consider "\<not> snd b" "q = p" | "q \<in> free_pos (p + fst b) bs" by (auto split: if_splits)
  then show ?case
  proof cases
    case 1
    then show ?thesis by (intro exI [of _ "[]"] exI [of _ "fst b"] exI [of _ bs]) (cases b, simp)
  next
    case 2
    then obtain us n vs where "bs = us @ (n, False) # vs" "q = p + fst b + total_len us" using Cons.IH [of "p + fst b"] by auto
    then show ?thesis by (intro exI [of _ "b # us"] exI [of _ n] exI [of _ vs]) simp
  qed
qed simp

lemma used_pos_range: "(q, n) \<in> used_pos p bs \<Longrightarrow> p \<le> q \<and> q + n \<le> p + total_len bs"
  by (auto dest: used_posD)

text \<open>Allocated blocks do not overlap.\<close>

lemma used_pos_disjoint:
  "(q, n) \<in> used_pos p bs \<Longrightarrow> (q', n') \<in> used_pos p bs \<Longrightarrow> (q, n) = (q', n') \<or> q + n \<le> q' \<or> q' + n' \<le> q"
proof (induction bs arbitrary: p)
  case (Cons b bs)
  then show ?case
    using used_pos_range [of q n "p + fst b" bs] used_pos_range [of q' n' "p + fst b" bs] by (auto split: if_splits)
qed simp

abbreviation merged_apart :: "block list \<Rightarrow> bool" where
  "merged_apart \<equiv> successively (\<lambda>a b. snd a \<or> snd b)"

definition heap_inv :: "heap \<Rightarrow> block list \<Rightarrow> bool" where
  "heap_inv h bs \<longleftrightarrow>
     heap_shape h bs \<and> merged_apart bs \<and> (lfree h \<in> free_pos 0 bs \<or> lfree h = heap_end h) \<and>
     used_mem h = word_of_nat (used_len bs) \<and> (\<forall>x \<in> used_pos 0 bs. 12 < snd x)"

definition lfree_lowest :: "heap \<Rightarrow> block list \<Rightarrow> bool" where
  "lfree_lowest h bs \<longleftrightarrow> (\<forall>q \<in> free_pos 0 bs. lfree h \<le> q)"

lemma merge_next_facts:
  "total_len (merge_next n vs) = n + total_len vs" "used_len (merge_next n vs) = used_len vs"
  "used_pos p (merge_next n vs) = used_pos (p + n) vs" "free_pos p (merge_next n vs) \<subseteq> {p} \<union> free_pos (p + n) vs"
  "p \<in> free_pos p (merge_next n vs)" "merged_apart vs \<Longrightarrow> merged_apart (merge_next n vs)"
  "\<exists>n' vs'. merge_next n vs = (n', False) # vs'"
  by (auto simp: merge_next_def successively_Cons add.assoc split: list.splits bool.splits)

lemma merge_free_facts:
  assumes "merged_apart us" "merged_apart vs"
  shows "total_len (merge_free us n vs) = total_len us + n + total_len vs"
    "used_len (merge_free us n vs) = used_len us + used_len vs"
    "used_pos 0 (merge_free us n vs) = used_pos 0 us \<union> used_pos (total_len us + n) vs"
    "free_pos 0 (merge_free us n vs) \<subseteq> free_pos 0 us \<union> {total_len us} \<union> free_pos (total_len us + n) vs"
    "merged_apart (merge_free us n vs)"
proof -
  obtain n' vs' where m: "merge_next n vs = (n', False) # vs'" using merge_next_facts(7) by blast
  note f = merge_next_facts(1,2) [of n vs, unfolded m] merge_next_facts(3,4) [of "total_len us" n vs, unfolded m] merge_next_facts(6) [OF assms(2), of n, unfolded m]
  have us: "us = [] \<or> (\<exists>us' b. us = us' @ [b])" by (metis rev_exhaust)
  show "total_len (merge_free us n vs) = total_len us + n + total_len vs"
    "used_len (merge_free us n vs) = used_len us + used_len vs"
    "used_pos 0 (merge_free us n vs) = used_pos 0 us \<union> used_pos (total_len us + n) vs"
    "free_pos 0 (merge_free us n vs) \<subseteq> free_pos 0 us \<union> {total_len us} \<union> free_pos (total_len us + n) vs"
    "merged_apart (merge_free us n vs)"
    using us assms f
    by (auto simp: merge_free_def merge_prev_def m successively_append_iff successively_Cons add.assoc split: bool.splits)
qed

lemma heap_shape_lfree [simp]:
  "heap_shape (h\<lparr>lfree := l\<rparr>) bs = heap_shape h bs" "heap_shape (h\<lparr>heap_node := nd, lfree := l\<rparr>) bs = heap_shape (h\<lparr>heap_node := nd\<rparr>) bs"
  "heap_shape (h\<lparr>lfree := l, heap_node := nd\<rparr>) bs = heap_shape (h\<lparr>heap_node := nd\<rparr>) bs"
  "heap_shape (h\<lparr>used_mem := u\<rparr>) bs = heap_shape h bs" "heap_shape (h\<lparr>max_mem := u\<rparr>) bs = heap_shape h bs"
  "heap_shape (h\<lparr>heap_byte := f\<rparr>) bs = heap_shape h bs"
  by (simp_all add: heap_shape_def)

lemma lfree_forward:
  assumes "l \<in> free_pos 0 (us @ (n, False) # vs) \<or> l = e"
  shows "lfree_next us n vs l \<le> l" "lfree_next us n vs l \<in> free_pos 0 (us @ merge_next n vs) \<or> lfree_next us n vs l = e"
  using assms by (auto simp: lfree_next_def merge_next_def unfree_def add.assoc split: list.splits bool.splits if_splits)

lemma lfree_backward:
  assumes "l \<in> free_pos 0 (us @ (n, False) # vs) \<or> l = e"
  shows "lfree_prev us l \<le> l" "lfree_prev us l \<in> free_pos 0 (merge_prev us n vs) \<or> lfree_prev us l = e"
proof -
  have us: "us = [] \<or> (\<exists>us' b. us = us' @ [b])" by (metis rev_exhaust)
  show "lfree_prev us l \<le> l" "lfree_prev us l \<in> free_pos 0 (merge_prev us n vs) \<or> lfree_prev us l = e"
    using us assms by (auto simp: lfree_prev_def merge_prev_def unfree_def add.assoc split: bool.splits if_splits)
qed

lemma plug_holes_ok:
  assumes h: "heap_shape h (us @ (n, False) # vs)"
    and l: "lfree h \<in> free_pos 0 (us @ (n, False) # vs) \<or> lfree h = heap_end h"
  shows "\<exists>nd l. plug_holes (total_len us) h = Some (h\<lparr>heap_node := nd, lfree := l\<rparr>) \<and>
    heap_shape (h\<lparr>heap_node := nd\<rparr>) (merge_free us n vs) \<and> l \<le> lfree h \<and>
    (l \<in> free_pos 0 (merge_free us n vs) \<or> l = heap_end h) \<and> l = lfree_prev us (lfree_next us n vs (lfree h))"
proof -
  let ?p = "total_len us" and ?l1 = "lfree_next us n vs (lfree h)"
  note nf = heap_shape_node [OF h]
  have used: "hm_used (heap_node h ?p) = 0" "?p < heap_end h" using nf by (auto simp: node_ok_def)
  obtain nd1 where f: "plug_forward ?p h = Some (h\<lparr>heap_node := nd1, lfree := ?l1\<rparr>)"
    and s1: "heap_shape (h\<lparr>heap_node := nd1\<rparr>) (us @ merge_next n vs)"
    using plug_forward_shape [OF h] by blast
  obtain n' vs' where m: "merge_next n vs = (n', False) # vs'" using merge_next_facts(7) by blast
  then have mf: "merge_free us n vs = merge_prev us n' vs'" by (simp add: merge_free_def)
  have "heap_shape (h\<lparr>heap_node := nd1, lfree := ?l1\<rparr>) (us @ (n', False) # vs')" using s1 m by simp
  from plug_backward_shape [OF this] obtain nd2 where
    b: "plug_backward ?p (h\<lparr>heap_node := nd1, lfree := ?l1\<rparr>) = Some (h\<lparr>heap_node := nd2, lfree := lfree_prev us ?l1\<rparr>)"
    and s2: "heap_shape (h\<lparr>heap_node := nd2\<rparr>) (merge_free us n vs)"
    by (auto simp: mf)
  have "plug_holes ?p h = Some (h\<lparr>heap_node := nd2, lfree := lfree_prev us ?l1\<rparr>)"
    using node_at_block [OF h] used f b by (simp add: plug_holes_def)
  moreover have "lfree_prev us ?l1 \<le> lfree h" "lfree_prev us ?l1 \<in> free_pos 0 (merge_free us n vs) \<or> lfree_prev us ?l1 = heap_end h"
    using lfree_forward [OF l] lfree_backward [of ?l1 us n' vs' "heap_end h", folded m mf] by (auto intro: order_trans)
  ultimately show ?thesis using s2 by blast
qed

section \<open>The search for a block\<close>

text \<open>First fit: the first free block, from the lowest known one on, with room for the request; blocks that start
  at the limit or behind it are not looked at.\<close>

primrec first_fit :: "nat \<Rightarrow> nat \<Rightarrow> nat \<Rightarrow> block list \<Rightarrow> nat option" where
  "first_fit lim sz p [] = None"
| "first_fit lim sz p (b # bs) =
     (if p < lim then if \<not> snd b \<and> sz + 12 \<le> fst b then Some p else first_fit lim sz (p + fst b) bs else None)"

lemma wsub_le: "b \<le> a \<Longrightarrow> a < 2 ^ 32 \<Longrightarrow> wsub a b = a - b"
  by (simp add: wsub_def of_nat_diff [symmetric] del: of_nat_diff)

lemma malloc_scan_eq:
  assumes "blocks (heap_node h) q p bs" "p + total_len bs = heap_end h" "heap_end h = mem_size_aligned h + 12"
    "heap_end h < 2 ^ 32" "sz \<le> mem_size_aligned h"
  shows "malloc_scan h sz p = Some (first_fit (mem_size_aligned h - sz) sz p bs)"
  using assms(1,2)
proof (induction bs arbitrary: q p)
  case Nil
  then have "\<not> p < wsub (mem_size_aligned h) sz" using assms(3-5) by (simp add: wsub_le)
  then show ?case by (subst malloc_scan.simps) simp
next
  case (Cons b bs)
  then have n: "hm_next (heap_node h p) = p + fst b" "hm_used (heap_node h p) = of_bool (snd b)" "12 \<le> fst b"
    and IH: "malloc_scan h sz (p + fst b) = Some (first_fit (mem_size_aligned h - sz) sz (p + fst b) bs)"
    by (auto simp: node_ok_def)
  have "wsub (p + fst b) (p + 12) = fst b - 12" using n(3) Cons.prems(2) assms(4) by (simp add: wsub_le)
  with n Cons.prems(2) assms(3-5) show ?case
    by (subst malloc_scan.simps) (auto simp: wsub_le node_at_def IH)
qed

lemma first_fit_Some:
  "first_fit lim sz p bs = Some r \<Longrightarrow>
     \<exists>us n vs. bs = us @ (n, False) # vs \<and> r = p + total_len us \<and> sz + 12 \<le> n \<and> r < lim"
proof (induction bs arbitrary: p)
  case (Cons b bs)
  show ?case
  proof (cases "\<not> snd b \<and> sz + 12 \<le> fst b")
    case True
    then show ?thesis using Cons.prems
      by (intro exI [of _ "[]"] exI [of _ "fst b"] exI [of _ bs]) (cases b, auto split: if_splits)
  next
    case False
    then have "first_fit lim sz (p + fst b) bs = Some r" using Cons.prems by (auto split: if_splits)
    from Cons.IH [OF this] obtain us n vs where "bs = us @ (n, False) # vs" "r = p + fst b + total_len us" "sz + 12 \<le> n" "r < lim"
      by auto
    then show ?thesis by (intro exI [of _ "b # us"] exI [of _ n] exI [of _ vs]) simp
  qed
qed simp

lemma first_fit_None:
  "first_fit lim sz p (us @ (n, False) # vs) = None \<Longrightarrow> p + total_len us < lim \<Longrightarrow> n < sz + 12"
  by (induction us arbitrary: p) (auto split: if_splits)

section \<open>Allocation\<close>

text \<open>The blocks that replace a free one of length \<open>n\<close>.\<close>

definition carve :: "nat \<Rightarrow> nat \<Rightarrow> block list" where
  "carve sz n = (if sz + 36 \<le> n then [(sz + 12, True), (n - (sz + 12), False)] else [(n, True)])"

definition carved_len :: "nat \<Rightarrow> nat \<Rightarrow> nat" where
  "carved_len sz n = (if sz + 36 \<le> n then sz + 12 else n)"

lemma count_used_simps [simp]:
  "heap_node (count_used n h) = heap_node h" "heap_end (count_used n h) = heap_end h" "lfree (count_used n h) = lfree h"
  "heap_ptr (count_used n h) = heap_ptr h" "heap_sem (count_used n h) = heap_sem h" "heap_byte (count_used n h) = heap_byte h"
  "mem_size_aligned (count_used n h) = mem_size_aligned h" "used_mem (count_used n h) = used_mem h + word_of_nat n"
  "heap_shape (count_used n h) bs = heap_shape h bs"
  by (simp_all add: count_used_def Let_def heap_shape_def)

lemma set_used_shape:
  assumes "heap_shape h (us @ (n, u) # vs)"
  shows "heap_shape (h\<lparr>heap_node := (heap_node h)(total_len us := (heap_node h (total_len us))\<lparr>hm_used := of_bool u'\<rparr>)\<rparr>) (us @ (n, u') # vs)"
  using heap_shape_node(1) [OF assms] by (intro heap_shape_upd [OF assms]) (simp_all add: node_ok_def)

lemma set_magic_shape:
  assumes "heap_shape h (us @ b # vs)"
  shows "node_upd (total_len us) (\<lambda>m. m\<lparr>hm_magic := HEAP_MAGIC\<rparr>) h = Some h"
proof -
  have "(heap_node h (total_len us))\<lparr>hm_magic := HEAP_MAGIC\<rparr> = heap_node h (total_len us)"
    using heap_shape_node(1) [OF assms] by (simp add: node_ok_def)
  then show ?thesis using node_upd_block [OF assms] by simp
qed

lemma malloc_mark_shape:
  assumes h: "heap_shape h (us @ (n, False) # vs)" and sz: "sz + 12 \<le> n" "4 dvd sz"
  shows "\<exists>nd. malloc_mark sz (total_len us) h = Some (count_used (carved_len sz n) (h\<lparr>heap_node := nd\<rparr>)) \<and>
    heap_shape (h\<lparr>heap_node := nd\<rparr>) (us @ carve sz n @ vs)"
proof -
  let ?p = "total_len us"
  note nf = heap_shape_node [OF h]
  have nx: "hm_next (heap_node h ?p) = ?p + n" using nf(1) by (simp add: node_ok_def)
  have w: "wsub (?p + n) (?p + 12) = n - 12" "wsub (?p + n) ?p = n" using nf(2,3,6) by (simp_all add: wsub_le)
  show ?thesis
  proof (cases "sz + 36 \<le> n")
    case True
    then obtain nd where split: "heap_split ?p sz h = Some (h\<lparr>heap_node := nd\<rparr>)"
      and s1: "heap_shape (h\<lparr>heap_node := nd\<rparr>) (us @ (sz + 12, False) # (n - (sz + 12), False) # vs)"
      using heap_split_shape [OF h, of sz] sz by auto
    let ?nd = "nd(?p := (nd ?p)\<lparr>hm_used := 1\<rparr>)"
    have s2: "heap_shape (h\<lparr>heap_node := ?nd\<rparr>) (us @ (sz + 12, True) # (n - (sz + 12), False) # vs)"
      using set_used_shape [OF s1, of True] by simp
    then have "node_upd ?p (\<lambda>m. m\<lparr>hm_magic := HEAP_MAGIC\<rparr>) (count_used (sz + 12) (h\<lparr>heap_node := ?nd\<rparr>)) =
        Some (count_used (sz + 12) (h\<lparr>heap_node := ?nd\<rparr>))"
      by (intro set_magic_shape) simp
    then show ?thesis
      using True split s2 nx w node_at_block [OF h] node_upd_block [OF s1]
      by (intro exI [of _ ?nd]) (auto simp: malloc_mark_def carve_def carved_len_def)
  next
    case False
    let ?nd = "(heap_node h)(?p := (heap_node h ?p)\<lparr>hm_used := 1\<rparr>)"
    have s2: "heap_shape (h\<lparr>heap_node := ?nd\<rparr>) (us @ (n, True) # vs)" using set_used_shape [OF h, of True] by simp
    then have "node_upd ?p (\<lambda>m. m\<lparr>hm_magic := HEAP_MAGIC\<rparr>) (count_used n (h\<lparr>heap_node := ?nd\<rparr>)) =
        Some (count_used n (h\<lparr>heap_node := ?nd\<rparr>))"
      by (intro set_magic_shape) simp
    then show ?thesis
      using False s2 nx w node_at_block [OF h] node_upd_block [OF h] sz(1)
      by (intro exI [of _ ?nd]) (auto simp: malloc_mark_def carve_def carved_len_def)
  qed
qed

lemma lfree_advance_eq:
  assumes "blocks (heap_node h) q p bs" "p + total_len bs = heap_end h" "hm_used (heap_node h (heap_end h)) = 1"
  shows "\<exists>r. lfree_advance h p = Some r \<and> node_at r h = Some (heap_node h r) \<and>
    (r \<in> free_pos p bs \<and> hm_used (heap_node h r) = 0 \<or> r = heap_end h) \<and> (\<forall>x \<in> free_pos p bs. r \<le> x)"
  using assms(1,2)
proof (induction bs arbitrary: q p)
  case Nil
  then show ?case by (subst lfree_advance.simps) (simp add: node_at_def)
next
  case (Cons b bs)
  then have n: "hm_next (heap_node h p) = p + fst b" "hm_used (heap_node h p) = of_bool (snd b)" "12 \<le> fst b" "p < heap_end h"
    by (auto simp: node_ok_def)
  have ge: "x \<in> free_pos (p + fst b) bs \<Longrightarrow> p \<le> x" for x by (auto dest: free_posD)
  show ?case
  proof (cases "snd b")
    case True
    then show ?thesis using n Cons.IH [of p "p + fst b"] Cons.prems
      by (subst lfree_advance.simps) (simp add: node_at_def)
  next
    case False
    then show ?thesis using n ge by (subst lfree_advance.simps) (auto simp: node_at_def)
  qed
qed

text \<open>What the operations keep of a heap.\<close>

definition heap_frame :: "heap \<Rightarrow> heap \<Rightarrow> bool" where
  "heap_frame h h' \<longleftrightarrow>
     heap_ptr h' = heap_ptr h \<and> heap_end h' = heap_end h \<and> heap_sem h' = heap_sem h \<and>
     mem_size_aligned h' = mem_size_aligned h \<and> heap_byte h' = heap_byte h"

lemma carve_facts:
  assumes "sz + 12 \<le> n"
  shows "total_len (carve sz n) = n" "used_len (carve sz n) = carved_len sz n"
    "used_pos p (carve sz n) = {(p, carved_len sz n)}" "\<forall>x \<in> free_pos p (carve sz n). p < x"
    "snd (hd (carve sz n))" "carve sz n \<noteq> []" "merged_apart (carve sz n)"
  using assms by (auto simp: carve_def carved_len_def)

lemma carve_apart:
  assumes "merged_apart (us @ (n, False) # vs)" "sz + 12 \<le> n"
  shows "merged_apart (us @ carve sz n @ vs)"
  using assms by (auto simp: carve_def successively_append_iff successively_Cons)

lemma malloc_take_ok:
  assumes h: "heap_inv h (us @ (n, False) # vs)" and sz: "sz + 12 \<le> n" "4 dvd sz" "0 < sz"
  defines "bs' \<equiv> us @ carve sz n @ vs"
  shows "\<exists>h'. malloc_take sz (total_len us) h = Some h' \<and> heap_inv h' bs' \<and> heap_frame h h' \<and>
    (lfree_lowest h (us @ (n, False) # vs) \<longrightarrow> lfree_lowest h' bs')"
proof -
  let ?p = "total_len us"
  note c = carve_facts [OF sz(1)]
  have inv: "heap_shape h (us @ (n, False) # vs)" "merged_apart (us @ (n, False) # vs)"
    "lfree h \<in> free_pos 0 (us @ (n, False) # vs) \<or> lfree h = heap_end h" "used_mem h = word_of_nat (used_len us + used_len vs)"
    "\<forall>x \<in> used_pos 0 (us @ (n, False) # vs). 12 < snd x"
    using h by (auto simp: heap_inv_def)
  have used: "\<forall>x \<in> used_pos 0 bs'. 12 < snd x" using inv(5) c(1,3) sz(1,3) by (auto simp: bs'_def carved_len_def)
  obtain nd where mark: "malloc_mark sz ?p h = Some (count_used (carved_len sz n) (h\<lparr>heap_node := nd\<rparr>))"
    and shape: "heap_shape (h\<lparr>heap_node := nd\<rparr>) bs'"
    using malloc_mark_shape [OF inv(1) sz(1,2)] by (auto simp: bs'_def)
  let ?h = "count_used (carved_len sz n) (h\<lparr>heap_node := nd\<rparr>)"
  have s: "heap_shape ?h bs'" "used_mem ?h = word_of_nat (used_len bs')" "merged_apart bs'"
    using shape inv(4) c carve_apart [OF inv(2) sz(1)] by (simp_all add: bs'_def)
  show ?thesis
  proof (cases "?p = lfree h")
    case False
    then have "malloc_take sz ?p h = Some ?h" by (simp add: malloc_take_def mark)
    moreover have "lfree h \<in> free_pos 0 bs' \<or> lfree h = heap_end h"
      using inv(3) False c(1) by (auto simp: bs'_def)
    moreover have "lfree_lowest h (us @ (n, False) # vs) \<longrightarrow> lfree_lowest ?h bs'"
      using c(1,4) by (fastforce simp: lfree_lowest_def bs'_def)
    ultimately show ?thesis using s used by (auto simp: heap_inv_def heap_frame_def)
  next
    case True
    have rest: "blocks nd (last_pos 0 0 us) ?p (carve sz n @ vs)" "?p + total_len (carve sz n @ vs) = heap_end h"
      "hm_used (nd (heap_end h)) = 1"
      using shape by (auto simp: heap_shape_def bs'_def)
    then obtain r where r: "lfree_advance ?h ?p = Some r" "node_at r ?h = Some (nd r)"
      "r \<in> free_pos ?p (carve sz n @ vs) \<and> hm_used (nd r) = 0 \<or> r = heap_end h" "\<forall>x \<in> free_pos ?p (carve sz n @ vs). r \<le> x"
      using lfree_advance_eq [of ?h "last_pos 0 0 us" ?p "carve sz n @ vs"] by auto
    then have "malloc_take sz ?p h = Some (?h\<lparr>lfree := r\<rparr>)"
      using True mark r(1-3) unfolding malloc_take_def by (auto simp: Let_def node_at_def split: if_splits)
    moreover have "r \<in> free_pos 0 bs' \<or> r = heap_end h" using r(3) by (auto simp: bs'_def)
    moreover have "free_pos 0 us = {}" if low: "lfree_lowest h (us @ (n, False) # vs)"
    proof (rule equals0I)
      fix x
      assume x: "x \<in> free_pos 0 us"
      then have "x < ?p" using free_posD [OF x] inv(1) by (auto simp: heap_shape_def node_ok_def)
      moreover have "lfree h \<le> x" using low x by (simp add: lfree_lowest_def)
      ultimately show False using True by simp
    qed
    then have "lfree_lowest h (us @ (n, False) # vs) \<longrightarrow> lfree_lowest (?h\<lparr>lfree := r\<rparr>) bs'"
      using r(4) by (auto simp: lfree_lowest_def bs'_def)
    ultimately show ?thesis using s used by (auto simp: heap_inv_def heap_frame_def)
  qed
qed

lemma first_fit_upto:
  assumes "lfree h \<in> free_pos 0 bs \<or> lfree h = total_len bs"
  shows "\<exists>us vs. bs = us @ vs \<and> lfree h = total_len us"
  using assms free_posD [of "lfree h" 0 bs] by (metis add_0 append_Nil2)

text \<open>What \<^verbatim>\<open>rt_malloc\<close> does with the heap, for a request of \<open>sz\<close> bytes (rounded up): either a free block is found
  and carved, or none of the blocks it looks at is large enough.\<close>

definition malloc_effect :: "nat \<Rightarrow> nat option \<Rightarrow> heap \<Rightarrow> block list \<Rightarrow> heap \<Rightarrow> block list \<Rightarrow> bool" where
  "malloc_effect sz found h bs h' bs' \<longleftrightarrow>
     (case found of
        None \<Rightarrow> h' = h \<and> bs' = bs \<and>
          (\<forall>us n vs. bs = us @ (n, False) # vs \<longrightarrow> lfree h \<le> total_len us \<longrightarrow> total_len us < mem_size_aligned h - sz \<longrightarrow> n < sz + 12)
      | Some ptr \<Rightarrow> \<exists>us n vs. bs = us @ (n, False) # vs \<and> ptr = total_len us \<and> sz + 12 \<le> n \<and>
          ptr < mem_size_aligned h - sz \<and> bs' = us @ carve sz n @ vs)"

lemma malloc_locked_ok:
  assumes h: "heap_inv h bs" and sz: "sz \<le> mem_size_aligned h" "4 dvd sz" "0 < sz"
  shows "\<exists>found h' bs'. malloc_locked sz h = Some (found, h') \<and> heap_inv h' bs' \<and> heap_frame h h' \<and>
    (lfree_lowest h bs \<longrightarrow> lfree_lowest h' bs') \<and> malloc_effect sz found h bs h' bs'"
proof -
  have inv: "blocks (heap_node h) 0 0 bs" "total_len bs = heap_end h" "heap_end h = mem_size_aligned h + 12" "heap_end h < 2 ^ 32"
    "lfree h \<in> free_pos 0 bs \<or> lfree h = total_len bs"
    using h by (auto simp: heap_inv_def heap_shape_def)
  obtain us vs where bs: "bs = us @ vs" "lfree h = total_len us" using first_fit_upto inv(5) by blast
  let ?lim = "mem_size_aligned h - sz"
  have scan: "malloc_scan h sz (lfree h) = Some (first_fit ?lim sz (lfree h) vs)"
    using inv bs sz by (intro malloc_scan_eq [where q = "last_pos 0 0 us"]) auto
  show ?thesis
  proof (cases "first_fit ?lim sz (lfree h) vs")
    case None
    have "n < sz + 12" if b: "bs = us' @ (n, False) # vs'" and le: "lfree h \<le> total_len us'" and l: "total_len us' < ?lim" for us' n vs'
    proof -
      from b bs have "us @ vs = us' @ (n, False) # vs'" by simp
      then consider ws where "us' = us @ ws" "vs = ws @ (n, False) # vs'" | w ws where "us = us' @ w # ws"
        by (auto simp: append_eq_append_conv2 append_eq_Cons_conv)
      then show ?thesis
      proof cases
        case 1
        then show ?thesis using None l bs(2) first_fit_None [of ?lim sz "lfree h" ws n vs'] by simp
      next
        case 2
        then show ?thesis using le bs inv(1) by (auto simp: node_ok_def)
      qed
    qed
    then show ?thesis using None scan h by (auto simp: malloc_locked_def malloc_effect_def heap_frame_def)
  next
    case (Some p)
    obtain ws n vs' where w: "vs = ws @ (n, False) # vs'" "p = total_len (us @ ws)" "sz + 12 \<le> n" "p < ?lim"
      using first_fit_Some [OF Some] bs by auto
    have "heap_inv h ((us @ ws) @ (n, False) # vs')" using h bs w by simp
    from malloc_take_ok [OF this w(3) sz(2,3)] obtain h' where
      h': "malloc_take sz p h = Some h'" "heap_inv h' ((us @ ws) @ carve sz n @ vs')" "heap_frame h h'"
        "lfree_lowest h bs \<longrightarrow> lfree_lowest h' ((us @ ws) @ carve sz n @ vs')"
      using w(1,2) bs(1) by auto
    moreover have "malloc_effect sz (Some p) h bs h' ((us @ ws) @ carve sz n @ vs')"
      unfolding malloc_effect_def option.case using w bs(1)
      by (intro exI [of _ "us @ ws"] exI [of _ n] exI [of _ vs']) simp
    moreover have "malloc_locked sz h = Some (Some p, h')" using scan Some h'(1) by (simp add: malloc_locked_def)
    ultimately show ?thesis by blast
  qed
qed

section \<open>Release\<close>

lemma free_locked_ok:
  assumes h: "heap_inv h (us @ (n, True) # vs)"
  defines "bs' \<equiv> merge_free us n vs"
  shows "\<exists>h'. free_locked (heap_ptr h + total_len us + 12) h = Some h' \<and> heap_inv h' bs' \<and> heap_frame h h' \<and>
    (lfree_lowest h (us @ (n, True) # vs) \<longrightarrow> lfree_lowest h' bs') \<and> max_mem h' = max_mem h"
proof -
  let ?p = "total_len us" and ?bs = "us @ (n, False) # vs"
  have inv: "heap_shape h (us @ (n, True) # vs)" "merged_apart (us @ (n, True) # vs)"
    "lfree h \<in> free_pos 0 (us @ (n, True) # vs) \<or> lfree h = heap_end h" "used_mem h = word_of_nat (used_len us + n + used_len vs)"
    using h by (simp_all add: heap_inv_def add.assoc)
  note nf = heap_shape_node [OF inv(1)]
  have node: "hm_used (heap_node h ?p) = 1" "hm_magic (heap_node h ?p) = HEAP_MAGIC" "wsub (hm_next (heap_node h ?p)) ?p = n"
    using nf by (auto simp: node_ok_def wsub_le)
  define nd where "nd = (heap_node h)(?p := (heap_node h ?p)\<lparr>hm_used := 0, hm_magic := HEAP_MAGIC\<rparr>)"
  define l where "l = (if ?p < lfree h then ?p else lfree h)"
  define h2 where "h2 = h\<lparr>heap_node := nd, lfree := l, used_mem := used_mem h - word_of_nat n\<rparr>"
  have "heap_shape (h\<lparr>heap_node := nd\<rparr>) ?bs"
    unfolding nd_def using nf(1) by (intro heap_shape_upd [OF inv(1)]) (simp_all add: node_ok_def)
  then have s2: "heap_shape h2 ?bs" by (auto simp: h2_def heap_shape_def)
  have l2: "lfree h2 \<in> free_pos 0 ?bs \<or> lfree h2 = heap_end h2" using inv(3) by (auto simp: h2_def l_def)
  obtain nd' l' where plug: "plug_holes ?p h2 = Some (h2\<lparr>heap_node := nd', lfree := l'\<rparr>)"
    and s3: "heap_shape (h2\<lparr>heap_node := nd'\<rparr>) bs'" and l': "l' \<le> l" "l' \<in> free_pos 0 bs' \<or> l' = heap_end h"
    using plug_holes_ok [OF s2 l2] by (auto simp: bs'_def h2_def)
  let ?h = "h2\<lparr>heap_node := nd', lfree := l'\<rparr>"
  have apart: "merged_apart us" "merged_apart vs" using inv(2) by (auto simp: successively_append_iff successively_Cons)
  note m = merge_free_facts [OF apart, of n, folded bs'_def]
  have "free_locked (heap_ptr h + ?p + 12) h = Some ?h"
    using node_at_block [OF inv(1)] node_upd_block [OF inv(1)] node plug
    by (auto simp: free_locked_def Let_def h2_def nd_def l_def split: if_splits)
  moreover have "used_mem ?h = word_of_nat (used_len bs')" "heap_end ?h = heap_end h" using m(2) inv(4) by (simp_all add: h2_def)
  then have "heap_inv ?h bs'" unfolding heap_inv_def using s3 m(3,5) l'(2) h by (auto simp: heap_inv_def)
  moreover have "lfree_lowest ?h bs'" if "lfree_lowest h (us @ (n, True) # vs)"
    unfolding lfree_lowest_def
  proof
    fix x
    assume "x \<in> free_pos 0 bs'"
    then have "x \<in> free_pos 0 us \<union> free_pos (?p + n) vs \<or> x = ?p" using m(4) by auto
    then have "lfree h \<le> x \<or> x = ?p" using that by (auto simp: lfree_lowest_def)
    then have "l \<le> x" by (auto simp: l_def)
    then show "lfree ?h \<le> x" using l'(1) by simp
  qed
  ultimately show ?thesis by (auto simp: heap_frame_def h2_def)
qed

section \<open>Resizing\<close>

lemma shrink_ok:
  assumes h: "heap_inv h (us @ (n, True) # vs)" and sz: "sz + 36 < n" "4 dvd sz" "0 < sz"
  defines "bs' \<equiv> us @ (sz + 12, True) # merge_next (n - (sz + 12)) vs"
  shows "\<exists>h'. realloc_locked (heap_ptr h + total_len us + 12) sz h = Some (Keep, h') \<and> heap_inv h' bs' \<and> heap_frame h h' \<and>
    lfree h' = lfree_next (us @ [(sz + 12, True)]) (n - (sz + 12)) vs (lfree h)"
proof -
  let ?p = "total_len us" and ?r = "n - (sz + 12)" and ?us = "us @ [(sz + 12, True)]"
  have inv: "heap_shape h (us @ (n, True) # vs)" "merged_apart (us @ (n, True) # vs)"
    "lfree h \<in> free_pos 0 (us @ (n, True) # vs) \<or> lfree h = heap_end h" "used_mem h = word_of_nat (used_len us + n + used_len vs)"
    using h by (simp_all add: heap_inv_def add.assoc)
  note nf = heap_shape_node [OF inv(1)]
  have len: "wsub (wsub (hm_next (heap_node h ?p)) ?p) 12 = n - 12" using nf by (auto simp: node_ok_def wsub_le)
  define h1 where "h1 = h\<lparr>used_mem := used_mem h - word_of_nat (n - 12 - sz)\<rparr>"
  have s1: "heap_shape h1 (us @ (n, True) # vs)" using inv(1) by (simp add: h1_def)
  from sz heap_split_shape [OF s1, of sz] obtain nd where split: "heap_split ?p sz h1 = Some (h1\<lparr>heap_node := nd\<rparr>)"
    and s2: "heap_shape (h1\<lparr>heap_node := nd\<rparr>) (?us @ (?r, False) # vs)" by auto
  have l: "lfree (h1\<lparr>heap_node := nd\<rparr>) \<in> free_pos 0 (?us @ (?r, False) # vs) \<or> lfree (h1\<lparr>heap_node := nd\<rparr>) = heap_end (h1\<lparr>heap_node := nd\<rparr>)"
    using inv(3) sz by (auto simp: h1_def)
  have mf: "merge_free ?us ?r vs = bs'"
    using merge_next_facts(7) [of ?r vs] by (auto simp: merge_free_def merge_prev_def bs'_def)
  obtain nd' l' where plug: "plug_holes (total_len ?us) (h1\<lparr>heap_node := nd\<rparr>) = Some (h1\<lparr>heap_node := nd', lfree := l'\<rparr>)"
    and s3: "heap_shape (h1\<lparr>heap_node := nd'\<rparr>) bs'" and l': "l' \<in> free_pos 0 bs' \<or> l' = heap_end h1"
      "l' = lfree_next ?us ?r vs (lfree h1)"
    using plug_holes_ok [OF s2 l] by (auto simp: mf lfree_prev_def)
  let ?h = "h1\<lparr>heap_node := nd', lfree := l'\<rparr>"
  have "realloc_locked (heap_ptr h + ?p + 12) sz h = Some (Keep, ?h)"
    using node_at_block [OF inv(1)] len nf(2,3) sz split plug
    by (auto simp: realloc_locked_def Let_def h1_def ac_simps)
  moreover have "word_of_nat (n - 12 - sz) + word_of_nat (sz + 12) = (word_of_nat n :: u32)"
    using sz(1) by (simp add: add.commute flip: of_nat_add)
  then have "used_mem ?h = word_of_nat (used_len bs')"
    using inv(4) merge_next_facts(2) [of ?r vs] by (simp add: h1_def bs'_def algebra_simps)
  moreover have "merged_apart bs'"
    using inv(2) merge_next_facts(6) [of vs ?r] by (auto simp: bs'_def successively_append_iff successively_Cons)
  moreover have "\<forall>x \<in> used_pos 0 bs'. 12 < snd x"
    using h merge_next_facts(3) [of "?p + (sz + 12)" ?r vs] sz by (auto simp: bs'_def heap_inv_def)
  ultimately show ?thesis using s3 l' by (auto simp: heap_inv_def heap_frame_def h1_def)
qed

lemma realloc_other_ok:
  assumes h: "heap_inv h (us @ (n, True) # vs)" and sz: "n \<le> sz + 36"
  shows "realloc_locked (heap_ptr h + total_len us + 12) sz h = Some (if n = sz + 12 then Keep else Grow (n - 12), h)"
proof -
  let ?p = "total_len us"
  have inv: "heap_shape h (us @ (n, True) # vs)" using h by (simp add: heap_inv_def)
  note nf = heap_shape_node [OF inv]
  have len: "wsub (wsub (hm_next (heap_node h ?p)) ?p) 12 = n - 12" using nf by (auto simp: node_ok_def wsub_le)
  have "12 < n" using h by (simp add: heap_inv_def)
  then show ?thesis using node_at_block [OF inv] nf(2) sz len by (auto simp: realloc_locked_def Let_def)
qed

end
