(* ===== verification/Heap_Service.thy ===== *)
theory Heap_Service
  imports Small_Mem
begin

text \<open>
  The allocator as its callers see it: \<^verbatim>\<open>rt_malloc\<close>, \<^verbatim>\<open>rt_free\<close> and \<^verbatim>\<open>rt_realloc\<close> together with the semaphore that
  protects the heap. Callers hold regions of memory, an address and a size each; the contract says that they
  never overlap.
\<close>

section \<open>Regions\<close>

definition regions :: "heap \<Rightarrow> block list \<Rightarrow> (nat \<times> nat) set" where
  "regions h bs = (\<lambda>(q, n). (heap_ptr h + q + 12, n - 12)) ` used_pos 0 bs"

definition apart :: "nat \<times> nat \<Rightarrow> nat \<times> nat \<Rightarrow> bool" where
  "apart r s \<longleftrightarrow> fst r + snd r \<le> fst s \<or> fst s + snd s \<le> fst r"

text \<open>A heap in which exactly the regions \<open>L\<close> are allocated.\<close>

definition heap_rep :: "heap \<Rightarrow> (nat \<times> nat) set \<Rightarrow> bool" where
  "heap_rep h L \<longleftrightarrow> (\<exists>bs. heap_inv h bs \<and> L = regions h bs)"

lemma regions_frame: "heap_frame h h' \<Longrightarrow> regions h' bs = regions h bs"
  by (simp add: regions_def heap_frame_def)

lemma regionsD:
  assumes "heap_inv h bs" "(a, m) \<in> regions h bs"
  shows "\<exists>us vs. bs = us @ (m + 12, True) # vs \<and> a = heap_ptr h + total_len us + 12 \<and> 0 < m"
proof -
  from assms(2) obtain q n where q: "(q, n) \<in> used_pos 0 bs" "a = heap_ptr h + q + 12" "m = n - 12"
    by (auto simp: regions_def)
  moreover have "12 < n" using q(1) assms(1) by (auto simp: heap_inv_def)
  moreover obtain us vs where "bs = us @ (n, True) # vs" "q = total_len us" using used_posD [OF q(1)] by auto
  ultimately show ?thesis by (intro exI [of _ us] exI [of _ vs]) auto
qed

lemma regions_range:
  assumes "heap_inv h bs" "r \<in> regions h bs"
  shows "heap_ptr h + 12 \<le> fst r" "fst r + snd r \<le> heap_ptr h + heap_end h" "0 < snd r" "fst r mod 4 = 0"
proof -
  obtain a m where r: "r = (a, m)" by (cases r)
  then obtain us vs where b: "bs = us @ (m + 12, True) # vs" "a = heap_ptr h + total_len us + 12" "0 < m"
    using regionsD [OF assms(1)] assms(2) by blast
  have h: "heap_shape h (us @ (m + 12, True) # vs)" "4 dvd heap_ptr h"
    using assms(1) b(1) by (auto simp: heap_inv_def heap_shape_def)
  have "4 dvd heap_ptr h + total_len us + 12" using heap_shape_node(5) [OF h(1)] h(2) by (intro dvd_add) auto
  then show "heap_ptr h + 12 \<le> fst r" "fst r + snd r \<le> heap_ptr h + heap_end h" "0 < snd r" "fst r mod 4 = 0"
    using r b heap_shape_node(2) [OF h(1)] by auto
qed

lemma regions_apart:
  assumes "heap_inv h bs" "r \<in> regions h bs" "s \<in> regions h bs" "r \<noteq> s"
  shows "apart r s"
proof -
  obtain q n q' n' where "(q, n) \<in> used_pos 0 bs" "(q', n') \<in> used_pos 0 bs"
    "r = (heap_ptr h + q + 12, n - 12)" "s = (heap_ptr h + q' + 12, n' - 12)"
    using assms(2,3) by (auto simp: regions_def)
  with used_pos_disjoint [of q n 0 bs q' n'] assms(4) show ?thesis by (auto simp: apart_def)
qed

lemma regions_new:
  assumes "sz + 12 \<le> n"
  shows "regions h (us @ carve sz n @ vs) =
    insert (heap_ptr h + total_len us + 12, carved_len sz n - 12) (regions h (us @ (n, False) # vs))"
  using carve_facts(1,3) [OF assms] by (auto simp: regions_def)

lemma regions_gone:
  assumes "heap_inv h (us @ (n, True) # vs)"
  shows "regions h (merge_free us n vs) = regions h (us @ (n, True) # vs) - {(heap_ptr h + total_len us + 12, n - 12)}"
proof -
  let ?U = "used_pos 0 us \<union> used_pos (total_len us + n) vs" and ?f = "\<lambda>(q, n). (heap_ptr h + q + 12, n - 12)"
  have ap: "merged_apart us" "merged_apart vs" and n: "12 < n" "blocks (heap_node h) 0 0 us"
    using assms by (auto simp: heap_inv_def heap_shape_def successively_append_iff successively_Cons)
  have d: "fst x \<noteq> total_len us" if x: "x \<in> ?U" for x
  proof (cases "x \<in> used_pos 0 us")
    case True
    then obtain us' vs' where "us = us' @ (snd x, True) # vs'" "fst x = total_len us'" using used_posD [of "fst x" "snd x" 0 us] by auto
    then show ?thesis using n(2) by (auto simp: node_ok_def)
  next
    case False
    then show ?thesis using x n(1) used_pos_range [of "fst x" "snd x" "total_len us + n" vs] by auto
  qed
  have ne: "?f (total_len us, n) \<notin> ?f ` ?U"
  proof
    assume "?f (total_len us, n) \<in> ?f ` ?U"
    then obtain x where x: "x \<in> ?U" "?f x = ?f (total_len us, n)" by (metis (no_types, lifting) imageE)
    then have "fst x = total_len us" by (cases x) simp
    with d [OF x(1)] show False by contradiction
  qed
  have "regions h (merge_free us n vs) = ?f ` ?U" using merge_free_facts(3) [OF ap, of n] by (simp add: regions_def)
  moreover have "regions h (us @ (n, True) # vs) = insert (?f (total_len us, n)) (?f ` ?U)" by (auto simp: regions_def)
  ultimately show ?thesis using ne by auto
qed

section \<open>The semaphore of the heap\<close>

definition heap_idle :: "kernel \<Rightarrow> heap \<Rightarrow> bool" where
  "heap_idle k h \<longleftrightarrow>
     rt_object_get_type k (OSem (heap_sem h)) = RT_Object_Class_Semaphore \<and> 0 < sem_value (sems k (heap_sem h)) \<and>
     tlists k (LSem (heap_sem h)) = [] \<and> rt_interrupt_nest k = 0"

lemma heap_sem_cycle:
  assumes "heap_idle k h"
  shows "\<exists>k'. rt_sem_take (heap_sem h) t k = Some (Done RT_EOK, k') \<and> rt_sem_release (heap_sem h) k' = Some (RT_EOK, k)"
proof -
  let ?s = "heap_sem h"
  let ?k = "set_sem_value ?s (\<lambda>v. v - 1) k"
  have "set_sem_value ?s (\<lambda>v. v + 1) ?k = k" by (simp add: set_sem_value_def)
  moreover have "rt_object_get_type ?k (OSem ?s) = rt_object_get_type k (OSem ?s)" "tlists ?k = tlists k"
    by (simp_all add: set_sem_value_def rt_object_get_type_def)
  ultimately show ?thesis using assms by (simp add: heap_idle_def rt_sem_take_def rt_sem_release_def)
qed

section \<open>The operations with their semaphore\<close>

lemma unat_RT_ALIGN: "unat len \<le> 2 ^ 32 - 4 \<Longrightarrow> unat (RT_ALIGN len 4) = (unat len + 3) div 4 * 4"
proof -
  assume l: "unat len \<le> 2 ^ 32 - 4"
  have "unat (3 + len) = unat len + 3" using l by (simp add: unat_word_ariths)
  then show ?thesis by (simp add: RT_ALIGN_def unat_align_down)
qed

lemma RT_ALIGN_dvd: "4 dvd unat (RT_ALIGN len 4)"
  by (simp add: RT_ALIGN_def unat_align_down)

text \<open>The bytes that \<^verbatim>\<open>rt_malloc\<close> looks for when it is asked for \<open>len\<close>.\<close>

definition malloc_size :: "u32 \<Rightarrow> nat" where
  "malloc_size len = (if unat (RT_ALIGN len 4) < 12 then 12 else unat (RT_ALIGN len 4))"

lemma malloc_size_facts: "4 dvd malloc_size len" "12 \<le> malloc_size len" "unat len \<le> 2 ^ 32 - 4 \<Longrightarrow> unat len \<le> malloc_size len"
  using RT_ALIGN_dvd [of len] by (auto simp: malloc_size_def unat_RT_ALIGN)

lemma rt_malloc_run:
  assumes idle: "heap_idle k h" and inv: "heap_inv h bs" and len: "len \<noteq> 0" "malloc_size len \<le> mem_size_aligned h"
  shows "\<exists>found h' bs'. malloc_locked (malloc_size len) h = Some (found, h') \<and>
    rt_malloc len k h = Some (Done (map_option (\<lambda>p. heap_ptr h + p + 12) found), k, h') \<and>
    heap_inv h' bs' \<and> heap_frame h h' \<and> (lfree_lowest h bs \<longrightarrow> lfree_lowest h' bs') \<and>
    malloc_effect (malloc_size len) found h bs h' bs'"
proof -
  let ?sz = "malloc_size len"
  obtain found h' bs' where m: "malloc_locked ?sz h = Some (found, h')" "heap_inv h' bs'" "heap_frame h h'"
    "lfree_lowest h bs \<longrightarrow> lfree_lowest h' bs'" "malloc_effect ?sz found h bs h' bs'"
    using malloc_locked_ok [OF inv len(2)] malloc_size_facts [of len] by auto
  obtain k' where k: "rt_sem_take (heap_sem h) 0xffffffff k = Some (Done RT_EOK, k')" "rt_sem_release (heap_sem h) k' = Some (RT_EOK, k)"
    using heap_sem_cycle [OF idle] by blast
  have fr: "heap_sem h' = heap_sem h" "heap_ptr h' = heap_ptr h" "heap_end h' = heap_end h" using m(3) by (simp_all add: heap_frame_def)
  have "malloc_result ?sz found h' = Some (map_option (\<lambda>p. heap_ptr h + p + 12) found)"
  proof (cases found)
    case (Some p)
    then obtain us n vs where b: "bs = us @ (n, False) # vs" "p = total_len us" "?sz + 12 \<le> n" using m(5) by (auto simp: malloc_effect_def)
    have s: "heap_shape h (us @ (n, False) # vs)" "4 dvd heap_ptr h" using inv b(1) by (auto simp: heap_inv_def heap_shape_def)
    have "4 dvd heap_ptr h + p" "4 dvd heap_ptr h + p + 12"
      using heap_shape_node(5) [OF s(1)] s(2) b(2) by (auto intro!: dvd_add)
    with heap_shape_node(2) [OF s(1)] b Some show ?thesis by (simp add: malloc_result_def fr mod_eq_0_iff_dvd del: dvd_imp_mod_0)
  qed (simp add: malloc_result_def)
  then have "malloc_section ?sz k' h = Some (Done (map_option (\<lambda>p. heap_ptr h + p + 12) found), k, h')"
    using m(1) k(2) fr by (simp add: malloc_section_def)
  moreover have "\<not> mem_size_aligned h < unat (RT_ALIGN len 4)" using len(2) by (auto simp: malloc_size_def split: if_splits)
  ultimately have "rt_malloc len k h = Some (Done (map_option (\<lambda>p. heap_ptr h + p + 12) found), k, h')"
    using len(1) k(1) idle by (simp add: rt_malloc_def Let_def malloc_size_def [symmetric] rt_debug_not_in_interrupt_def heap_idle_def)
  with m show ?thesis by blast
qed

lemma rt_malloc_gave:
  assumes "heap_idle k h" "heap_inv h bs" "len \<noteq> 0" "malloc_size len \<le> mem_size_aligned h"
    and "rt_malloc len k h = Some (Done (Some a), k1, h1)"
  shows "\<exists>us n vs. bs = us @ (n, False) # vs \<and> malloc_size len + 12 \<le> n \<and> a = heap_ptr h + total_len us + 12 \<and>
    total_len us < mem_size_aligned h - malloc_size len \<and>
    heap_inv h1 (us @ carve (malloc_size len) n @ vs) \<and> heap_frame h h1 \<and> k1 = k"
proof -
  obtain found h' bs' where m: "rt_malloc len k h = Some (Done (map_option (\<lambda>p. heap_ptr h + p + 12) found), k, h')"
    "heap_inv h' bs'" "heap_frame h h'" "malloc_effect (malloc_size len) found h bs h' bs'"
    using rt_malloc_run [OF assms(1-4)] by blast
  from m(1) assms(5) obtain p where "found = Some p" "a = heap_ptr h + p + 12" "h' = h1" "k1 = k" by (cases found) auto
  with m(2-4) show ?thesis by (auto simp: malloc_effect_def)
qed

lemma rt_malloc_gave_up:
  assumes "heap_idle k h" "heap_inv h bs" "len \<noteq> 0" "malloc_size len \<le> mem_size_aligned h"
    and "rt_malloc len k h = Some (Done None, k1, h1)" "bs = us @ (n, False) # vs" "lfree h \<le> total_len us"
    and "total_len us + malloc_size len < mem_size_aligned h"
  shows "n < malloc_size len + 12"
proof -
  obtain found h' bs' where m: "rt_malloc len k h = Some (Done (map_option (\<lambda>p. heap_ptr h + p + 12) found), k, h')"
    "malloc_effect (malloc_size len) found h bs h' bs'"
    using rt_malloc_run [OF assms(1-4)] by blast
  from m(1) assms(5) have "found = None" by auto
  with m(2) have all: "\<forall>us n vs. bs = us @ (n, False) # vs \<longrightarrow> lfree h \<le> total_len us \<longrightarrow>
      total_len us < mem_size_aligned h - malloc_size len \<longrightarrow> n < malloc_size len + 12"
    unfolding malloc_effect_def by simp
  show ?thesis using all [rule_format, OF assms(6,7)] assms(8) by simp
qed

text \<open>The block the search starts with, if it is large enough.\<close>

lemma rt_malloc_first:
  assumes "heap_idle k h" "bs = us @ (n, False) # vs" "heap_inv h bs" "len \<noteq> 0" "lfree h = total_len us"
    and "malloc_size len + 12 \<le> n" "total_len us + malloc_size len < mem_size_aligned h"
  shows "\<exists>h'. rt_malloc len k h = Some (Done (Some (heap_ptr h + total_len us + 12)), k, h')"
proof -
  have inv: "blocks (heap_node h) (last_pos 0 0 us) (total_len us) ((n, False) # vs)" "heap_end h = mem_size_aligned h + 12"
    "total_len us + total_len ((n, False) # vs) = heap_end h" "heap_end h < 2 ^ 32"
    using assms(2,3) by (auto simp: heap_inv_def heap_shape_def)
  have "malloc_scan h (malloc_size len) (lfree h) = Some (Some (total_len us))"
    using malloc_scan_eq [OF inv(1,3,2,4), of "malloc_size len"] assms(5-7) by simp
  moreover obtain found h' where m: "malloc_locked (malloc_size len) h = Some (found, h')"
    "rt_malloc len k h = Some (Done (map_option (\<lambda>p. heap_ptr h + p + 12) found), k, h')"
    using rt_malloc_run [OF assms(1,3,4)] assms(7) by auto
  ultimately have "found = Some (total_len us)"
    by (auto simp: malloc_locked_def bind_eq_Some_conv)
  with m(2) show ?thesis by simp
qed

lemma rt_malloc_too_large:
  "heap_idle k h \<Longrightarrow> len = 0 \<or> mem_size_aligned h < unat (RT_ALIGN len 4) \<Longrightarrow> rt_malloc len k h = Some (Done None, k, h)"
  by (auto simp: rt_malloc_def rt_debug_not_in_interrupt_def heap_idle_def)

text \<open>Nothing is found when the search starts at the end of the heap.\<close>

lemma rt_malloc_nothing:
  assumes "heap_idle k h" "heap_inv h bs" "lfree h = heap_end h" "12 \<le> mem_size_aligned h"
  shows "rt_malloc len k h = Some (Done None, k, h)"
proof (cases "len = 0 \<or> mem_size_aligned h < unat (RT_ALIGN len 4)")
  case True
  then show ?thesis by (rule rt_malloc_too_large [OF assms(1)])
next
  case False
  then have len: "len \<noteq> 0" "malloc_size len \<le> mem_size_aligned h" using assms(4) by (auto simp: malloc_size_def)
  have "heap_end h = mem_size_aligned h + 12" "heap_end h < 2 ^ 32" using assms(2) by (auto simp: heap_inv_def heap_shape_def)
  then have "malloc_scan h (malloc_size len) (lfree h) = Some None"
    using assms(3) len(2) malloc_scan_eq [of h 0 "lfree h" "[]" "malloc_size len"] by simp
  then have "malloc_locked (malloc_size len) h = Some (None, h)" by (simp add: malloc_locked_def)
  with rt_malloc_run [OF assms(1,2) len] show ?thesis by auto
qed

lemma new_region_apart:
  assumes "s \<in> regions h (us @ (n, False) # vs)" "sz + 12 \<le> n"
  shows "apart (heap_ptr h + total_len us + 12, carved_len sz n - 12) s"
proof -
  obtain q m where q: "(q, m) \<in> used_pos 0 us \<or> (q, m) \<in> used_pos (total_len us + n) vs" "s = (heap_ptr h + q + 12, m - 12)"
    using assms(1) by (auto simp: regions_def)
  have "carved_len sz n \<le> n" using assms(2) by (simp add: carved_len_def)
  with q used_pos_range [of q m 0 us] used_pos_range [of q m "total_len us + n" vs] show ?thesis by (auto simp: apart_def)
qed

lemma rt_free_run:
  assumes idle: "heap_idle k h" and inv: "heap_inv h (us @ (n, True) # vs)"
  shows "\<exists>h'. rt_free (Some (heap_ptr h + total_len us + 12)) k h = Some (Done (), k, h') \<and> heap_inv h' (merge_free us n vs) \<and>
    heap_frame h h' \<and> (lfree_lowest h (us @ (n, True) # vs) \<longrightarrow> lfree_lowest h' (merge_free us n vs))"
proof -
  let ?a = "heap_ptr h + total_len us + 12"
  obtain h' where f: "free_locked ?a h = Some h'" "heap_inv h' (merge_free us n vs)" "heap_frame h h'"
    "lfree_lowest h (us @ (n, True) # vs) \<longrightarrow> lfree_lowest h' (merge_free us n vs)"
    using free_locked_ok [OF inv] by auto
  obtain k' where k: "rt_sem_take (heap_sem h) 0xffffffff k = Some (Done RT_EOK, k')" "rt_sem_release (heap_sem h) k' = Some (RT_EOK, k)"
    using heap_sem_cycle [OF idle] by blast
  have "(?a, n - 12) \<in> regions h (us @ (n, True) # vs)" by (auto simp: regions_def)
  from regions_range [OF inv this] have "?a mod 4 = 0" "?a < heap_ptr h + heap_end h" by auto
  with f k idle have "rt_free (Some ?a) k h = Some (Done (), k, h')"
    by (simp add: rt_free_def free_section_def rt_debug_not_in_interrupt_def heap_idle_def heap_frame_def)
  with f show ?thesis by blast
qed


text \<open>Freeing a block that was carved out of a free one restores the list of blocks.\<close>

lemma merge_carved:
  assumes "heap_inv h (us @ (n, False) # vs)" "sz + 12 \<le> n"
  shows "merge_free us (carved_len sz n) (tl (carve sz n) @ vs) = us @ (n, False) # vs"
proof -
  have ap: "us = [] \<or> snd (last us)" "vs = [] \<or> snd (hd vs)"
    using assms(1) by (auto simp: heap_inv_def successively_append_iff successively_Cons)
  have "merge_next (carved_len sz n) (tl (carve sz n) @ vs) = (n, False) # vs"
  proof (cases "sz + 36 \<le> n")
    case False
    then show ?thesis using ap(2) by (cases vs) (auto simp: merge_next_def carved_len_def carve_def split: bool.splits)
  qed (use assms(2) in \<open>simp add: merge_next_def carved_len_def carve_def\<close>)
  moreover have "merge_prev us n vs = us @ (n, False) # vs"
    using ap(1) by (cases us rule: rev_cases) (auto simp: merge_prev_def split: bool.splits)
  ultimately show ?thesis by (simp add: merge_free_def)
qed

section \<open>The contract\<close>

text \<open>What callers rely on: an allocation gives a region apart from all others that is large enough for the request, or
  nothing; a region can be given back.\<close>

locale allocator =
  fixes rep :: "'h \<Rightarrow> (nat \<times> nat) set \<Rightarrow> bool" and fits :: "'r \<Rightarrow> nat \<Rightarrow> bool"
    and alloc :: "'r \<Rightarrow> 'h \<Rightarrow> (nat option \<times> 'h) option" and release :: "nat \<Rightarrow> 'h \<Rightarrow> 'h option"
  assumes alloc_step: "rep h L \<Longrightarrow> \<exists>r h'. alloc n h = Some (r, h') \<and>
      (case r of
         None \<Rightarrow> rep h' L
       | Some a \<Rightarrow> \<exists>m. 0 < m \<and> fits n m \<and> rep h' (insert (a, m) L) \<and> (\<forall>s \<in> L. apart (a, m) s))"
    and release_step: "rep h L \<Longrightarrow> (a, m) \<in> L \<Longrightarrow> \<exists>h'. release a h = Some h' \<and> rep h' (L - {(a, m)})"

text \<open>A client that asks for memory and gives back what it holds, in any order. It holds a list of requests with the
  address it got for each.\<close>

datatype 'r client_op = Ask 'r | Give_back nat

fun client_run ::
  "('r \<Rightarrow> 'h \<Rightarrow> (nat option \<times> 'h) option) \<Rightarrow> (nat \<Rightarrow> 'h \<Rightarrow> 'h option) \<Rightarrow>
   'r client_op list \<Rightarrow> ('r \<times> nat) list \<Rightarrow> 'h \<Rightarrow> (('r \<times> nat) list \<times> 'h) option" where
  "client_run alloc release [] held h = Some (held, h)"
| "client_run alloc release (Ask n # ops) held h = do {
     (r, h) \<leftarrow> alloc n h;
     client_run alloc release ops (case r of None \<Rightarrow> held | Some a \<Rightarrow> (n, a) # held) h
   }"
| "client_run alloc release (Give_back i # ops) held h =
     (if i < length held then do {
        h \<leftarrow> release (snd (held ! i)) h;
        client_run alloc release ops (take i held @ drop (Suc i) held) h
      }
      else client_run alloc release ops held h)"

text \<open>The client holds exactly the allocated regions, \<open>sz\<close> bytes at the address \<open>a\<close> for a request that fits into them, and
  no two of them overlap.\<close>

definition holds :: "('r \<Rightarrow> nat \<Rightarrow> bool) \<Rightarrow> ('r \<times> nat) list \<Rightarrow> nat list \<Rightarrow> bool" where
  "holds fits held szs \<longleftrightarrow>
     list_all2 (\<lambda>(n, a) m. 0 < m \<and> fits n m) held szs \<and> sorted_wrt apart (zip (map snd held) szs)"

abbreviation held_regions :: "('r \<times> nat) list \<Rightarrow> nat list \<Rightarrow> (nat \<times> nat) set" where
  "held_regions held szs \<equiv> set (zip (map snd held) szs)"

lemma apart_irrefl: "0 < m \<Longrightarrow> \<not> apart (a, m) (a, m)"
  by (auto simp: apart_def)

lemma holds_Cons:
  "holds fits ((n, a) # held) (m # szs) \<longleftrightarrow>
     0 < m \<and> fits n m \<and> (\<forall>s \<in> held_regions held szs. apart (a, m) s) \<and> holds fits held szs"
  by (auto simp: holds_def)

lemma holds_remove:
  assumes "holds fits held szs" "i < length held"
  shows "holds fits (take i held @ drop (Suc i) held) (take i szs @ drop (Suc i) szs)"
    and "held_regions (take i held @ drop (Suc i) held) (take i szs @ drop (Suc i) szs) =
      held_regions held szs - {(snd (held ! i), szs ! i)}"
proof -
  have len: "length szs = length held" using assms(1) by (auto simp: holds_def dest: list_all2_lengthD)
  have sp: "held = take i held @ held ! i # drop (Suc i) held" "szs = take i szs @ szs ! i # drop (Suc i) szs"
    using assms(2) len by (simp_all add: Cons_nth_drop_Suc)
  have l: "length (take i held) = length (take i szs)" using len by simp
  have h: "holds fits (take i held @ held ! i # drop (Suc i) held) (take i szs @ szs ! i # drop (Suc i) szs)"
    using assms(1) sp by simp
  then show "holds fits (take i held @ drop (Suc i) held) (take i szs @ drop (Suc i) szs)"
    using l by (auto simp: holds_def list_all2_append sorted_wrt_append)
  have "(snd (held ! i), szs ! i) \<notin> held_regions (take i held @ drop (Suc i) held) (take i szs @ drop (Suc i) szs)"
    using h l apart_irrefl [of "szs ! i" "snd (held ! i)"]
    by (auto simp: holds_def list_all2_append sorted_wrt_append)
  moreover have "held_regions held szs = insert (snd (held ! i), szs ! i) (held_regions (take i held @ drop (Suc i) held) (take i szs @ drop (Suc i) szs))"
    using l by (subst sp(1), subst sp(2)) auto
  ultimately show "held_regions (take i held @ drop (Suc i) held) (take i szs @ drop (Suc i) szs) =
      held_regions held szs - {(snd (held ! i), szs ! i)}" by auto
qed

context allocator
begin

lemma client_safe:
  assumes "rep h (held_regions held szs)" "holds fits held szs"
  shows "\<exists>held' szs' h'. client_run alloc release ops held h = Some (held', h') \<and>
    rep h' (held_regions held' szs') \<and> holds fits held' szs'"
  using assms
proof (induction ops arbitrary: held szs h)
  case Nil
  then show ?case by auto
next
  case (Cons op ops)
  show ?case
  proof (cases op)
    case (Ask n)
    obtain r h' where r: "alloc n h = Some (r, h')"
      "case r of None \<Rightarrow> rep h' (held_regions held szs)
         | Some a \<Rightarrow> \<exists>m. 0 < m \<and> fits n m \<and> rep h' (insert (a, m) (held_regions held szs)) \<and> (\<forall>s \<in> held_regions held szs. apart (a, m) s)"
      using alloc_step [OF Cons.prems(1)] by blast
    show ?thesis
    proof (cases r)
      case None
      then show ?thesis using r Ask Cons.IH [of h' held szs] Cons.prems by simp
    next
      case (Some a)
      then obtain m where "rep h' (held_regions ((n, a) # held) (m # szs))" "holds fits ((n, a) # held) (m # szs)"
        using r(2) Cons.prems(2) by (auto simp: holds_Cons)
      then show ?thesis using Cons.IH [of h' "(n, a) # held" "m # szs"] r(1) Ask Some by simp
    qed
  next
    case (Give_back i)
    show ?thesis
    proof (cases "i < length held")
      case True
      note rm = holds_remove [OF Cons.prems(2) True]
      have "length szs = length held" using Cons.prems(2) by (auto simp: holds_def dest: list_all2_lengthD)
      then have "(snd (held ! i), szs ! i) \<in> held_regions held szs" using True by (auto simp: in_set_zip intro!: exI [of _ i])
      then obtain h' where "release (snd (held ! i)) h = Some h'"
        "rep h' (held_regions (take i held @ drop (Suc i) held) (take i szs @ drop (Suc i) szs))"
        using release_step [OF Cons.prems(1)] rm(2) by fastforce
      then show ?thesis using Cons.IH [OF _ rm(1)] True Give_back by simp
    next
      case False
      then show ?thesis using Give_back Cons by simp
    qed
  qed
qed

end

section \<open>The heap keeps the contract\<close>

lemma heap_idle_frame: "heap_frame h h' \<Longrightarrow> heap_idle k h' = heap_idle k h"
  by (simp add: heap_idle_def heap_frame_def)

text \<open>The region that a call returned, for a request and the regions held before.\<close>

definition new_region :: "u32 \<Rightarrow> heap \<Rightarrow> (nat \<times> nat) set \<Rightarrow> heap \<Rightarrow> nat \<Rightarrow> nat \<Rightarrow> bool" where
  "new_region len h L h' a m \<longleftrightarrow>
     0 < m \<and> (unat len \<le> 2 ^ 32 - 4 \<longrightarrow> unat len \<le> m) \<and> a mod 4 = 0 \<and> heap_rep h' (insert (a, m) L) \<and> (\<forall>s \<in> L. apart (a, m) s) \<and>
     heap_ptr h + 12 \<le> a \<and> a + m \<le> heap_ptr h + heap_end h"

lemma rt_malloc_rep:
  assumes idle: "heap_idle k h" and rep: "heap_rep h L" and min: "12 \<le> mem_size_aligned h"
  shows "\<exists>r h'. rt_malloc len k h = Some (Done r, k, h') \<and> heap_frame h h' \<and>
    (case r of None \<Rightarrow> h' = h | Some a \<Rightarrow> \<exists>m. new_region len h L h' a m)"
proof (cases "len = 0 \<or> mem_size_aligned h < unat (RT_ALIGN len 4)")
  case True
  then show ?thesis using rt_malloc_too_large [OF idle] by (auto simp: heap_frame_def)
next
  case False
  then have len: "len \<noteq> 0" "malloc_size len \<le> mem_size_aligned h" using min by (auto simp: malloc_size_def)
  obtain bs where bs: "heap_inv h bs" "L = regions h bs" using rep by (auto simp: heap_rep_def)
  obtain found h' bs' where m: "rt_malloc len k h = Some (Done (map_option (\<lambda>p. heap_ptr h + p + 12) found), k, h')"
    "heap_inv h' bs'" "heap_frame h h'" "malloc_effect (malloc_size len) found h bs h' bs'"
    using rt_malloc_run [OF idle bs(1) len] by blast
  show ?thesis
  proof (cases found)
    case None
    then show ?thesis using m by (auto simp: malloc_effect_def)
  next
    case (Some p)
    then obtain us n vs where b: "bs = us @ (n, False) # vs" "p = total_len us" "malloc_size len + 12 \<le> n"
      "bs' = us @ carve (malloc_size len) n @ vs" using m(4) by (auto simp: malloc_effect_def)
    let ?r = "(heap_ptr h + p + 12, carved_len (malloc_size len) n - 12)"
    have reg: "regions h' bs' = insert ?r L" using regions_new [OF b(3), of h us vs] regions_frame [OF m(3), of bs'] b bs(2) by simp
    then have "?r \<in> regions h' bs'" by simp
    note rg = regions_range [OF m(2) this]
    have "malloc_size len \<le> snd ?r" using b(3) by (auto simp: carved_len_def)
    then have "new_region len h L h' (fst ?r) (snd ?r)"
      using rg reg m(2,3) malloc_size_facts(3) [of len] new_region_apart [OF _ b(3), of _ h us vs] b bs(2)
      by (auto simp: new_region_def heap_rep_def heap_frame_def)
    then show ?thesis using m(1,3) Some by auto
  qed
qed

lemma rt_free_rep:
  assumes idle: "heap_idle k h" and rep: "heap_rep h L" and a: "(a, m) \<in> L"
  shows "\<exists>h'. rt_free (Some a) k h = Some (Done (), k, h') \<and> heap_frame h h' \<and> heap_rep h' (L - {(a, m)})"
proof -
  obtain bs where bs: "heap_inv h bs" "L = regions h bs" using rep by (auto simp: heap_rep_def)
  obtain us vs where b: "bs = us @ (m + 12, True) # vs" "a = heap_ptr h + total_len us + 12"
    using regionsD [OF bs(1)] a bs(2) by blast
  then have inv: "heap_inv h (us @ (m + 12, True) # vs)" using bs(1) by simp
  obtain h' where "rt_free (Some a) k h = Some (Done (), k, h')" "heap_inv h' (merge_free us (m + 12) vs)" "heap_frame h h'"
    using rt_free_run [OF idle inv] b(2) by blast
  moreover have "regions h (merge_free us (m + 12) vs) = L - {(a, m)}" using regions_gone [OF inv] b bs(2) by simp
  ultimately show ?thesis using regions_frame by (auto simp: heap_rep_def)
qed

definition malloc_call :: "u32 \<Rightarrow> kernel \<times> heap \<Rightarrow> (nat option \<times> kernel \<times> heap) option" where
  "malloc_call len s = (case rt_malloc len (fst s) (snd s) of Some (Done r, k, h) \<Rightarrow> Some (r, k, h) | _ \<Rightarrow> None)"

definition free_call :: "nat \<Rightarrow> kernel \<times> heap \<Rightarrow> (kernel \<times> heap) option" where
  "free_call a s = (case rt_free (Some a) (fst s) (snd s) of Some (Done _, k, h) \<Rightarrow> Some (k, h) | _ \<Rightarrow> None)"

definition heap_ready :: "kernel \<times> heap \<Rightarrow> (nat \<times> nat) set \<Rightarrow> bool" where
  "heap_ready s L \<longleftrightarrow> heap_idle (fst s) (snd s) \<and> heap_rep (snd s) L \<and> 12 \<le> mem_size_aligned (snd s)"

abbreviation served_by :: "u32 \<Rightarrow> nat \<Rightarrow> bool" where
  "served_by len m \<equiv> unat len \<le> 2 ^ 32 - 4 \<longrightarrow> unat len \<le> m"

interpretation small_mem: allocator heap_ready served_by malloc_call free_call
proof
  fix s :: "kernel \<times> heap" and L n
  assume s: "heap_ready s L"
  then obtain r h' where r: "rt_malloc n (fst s) (snd s) = Some (Done r, fst s, h')" "heap_frame (snd s) h'"
    "case r of None \<Rightarrow> h' = snd s | Some a \<Rightarrow> \<exists>m. new_region n (snd s) L h' a m"
    using rt_malloc_rep [of "fst s" "snd s" L n] by (auto simp: heap_ready_def)
  have ready: "heap_ready (fst s, h') L'" if "heap_rep h' L'" for L'
    using s that r(2) heap_idle_frame [OF r(2)] by (auto simp: heap_ready_def heap_frame_def)
  show "\<exists>r h'. malloc_call n s = Some (r, h') \<and>
      (case r of None \<Rightarrow> heap_ready h' L
         | Some a \<Rightarrow> \<exists>m. 0 < m \<and> served_by n m \<and> heap_ready h' (insert (a, m) L) \<and> (\<forall>s \<in> L. apart (a, m) s))"
  proof (cases r)
    case None
    then show ?thesis using r s by (auto simp: malloc_call_def)
  next
    case (Some a)
    then obtain m where "new_region n (snd s) L h' a m" using r(3) by auto
    then show ?thesis using ready r(1) Some by (auto simp: malloc_call_def new_region_def)
  qed
next
  fix s :: "kernel \<times> heap" and L a m
  assume "heap_ready s L" "(a, m) \<in> L"
  then obtain h' where h': "rt_free (Some a) (fst s) (snd s) = Some (Done (), fst s, h')" "heap_frame (snd s) h'"
    "heap_rep h' (L - {(a, m)})"
    using rt_free_rep [of "fst s" "snd s" L a m] by (auto simp: heap_ready_def)
  then have "heap_ready (fst s, h') (L - {(a, m)})"
    using heap_idle_frame [OF h'(2)] \<open>heap_ready s L\<close> by (simp add: heap_ready_def heap_frame_def)
  then show "\<exists>h'. free_call a s = Some h' \<and> heap_ready h' (L - {(a, m)})"
    using h'(1) by (auto simp: free_call_def)
qed

section \<open>Changing the size of a region\<close>

lemma rt_realloc_section:
  assumes idle: "heap_idle k h" and ns: "RT_ALIGN len 4 = ns" "ns \<noteq> 0" "unat ns \<le> mem_size_aligned h"
    and step: "realloc_locked a (unat ns) h = Some (step, h1)" "heap_frame h h1"
  shows "rt_realloc (Some a) len k h =
    (case step of
       Keep \<Rightarrow> Some (Done (Some a), k, h1)
     | Grow sz \<Rightarrow> do {
         (r, k, h) \<leftarrow> rt_malloc ns k h1;
         (case r of
            Blocked w \<Rightarrow> Some (Blocked (Wait_malloc w (Some (a, unat ns, sz))), k, h)
          | Done nmem \<Rightarrow> realloc_move a (unat ns) sz nmem k h)
       })"
proof -
  obtain k' where k: "rt_sem_take (heap_sem h) 0xffffffff k = Some (Done RT_EOK, k')" "rt_sem_release (heap_sem h) k' = Some (RT_EOK, k)"
    using heap_sem_cycle [OF idle] by blast
  have "\<not> mem_size_aligned h < unat ns" "heap_sem h1 = heap_sem h" using ns(3) step(2) by (simp_all add: heap_frame_def)
  with k ns step(1) idle show ?thesis
    by (simp add: rt_realloc_def Let_def realloc_section_def rt_debug_not_in_interrupt_def heap_idle_def cong: realloc_step.case_cong)
qed

lemma regions_shrunk:
  assumes "heap_inv h (us @ (n, True) # vs)" "sz + 36 < n"
  shows "regions h (us @ (sz + 12, True) # merge_next (n - (sz + 12)) vs) =
    insert (heap_ptr h + total_len us + 12, sz)
      (regions h (us @ (n, True) # vs) - {(heap_ptr h + total_len us + 12, n - 12)})"
proof -
  have ap: "merged_apart us" "merged_apart vs" using assms(1) by (auto simp: heap_inv_def successively_append_iff successively_Cons)
  have "used_pos (total_len us + (sz + 12)) (merge_next (n - (sz + 12)) vs) = used_pos (total_len us + n) vs"
    using merge_next_facts(3) [of "total_len us + (sz + 12)" "n - (sz + 12)" vs] assms(2) by simp
  then have "regions h (us @ (sz + 12, True) # merge_next (n - (sz + 12)) vs) =
      insert (heap_ptr h + total_len us + 12, sz) (regions h (merge_free us n vs))"
    using merge_free_facts(3) [OF ap, of n] by (auto simp: regions_def)
  then show ?thesis using regions_gone [OF assms(1)] by simp
qed

lemma apart_smaller: "apart (a, m) s \<Longrightarrow> n \<le> m \<Longrightarrow> apart (a, n) s"
  by (auto simp: apart_def)

lemma heap_rep_apart: "heap_rep h L \<Longrightarrow> r \<in> L \<Longrightarrow> s \<in> L \<Longrightarrow> r \<noteq> s \<Longrightarrow> apart r s"
  by (auto simp: heap_rep_def intro: regions_apart)

lemma heap_rep_byte [simp]: "heap_rep (h\<lparr>heap_byte := f\<rparr>) L = heap_rep h L"
  by (simp add: heap_rep_def heap_inv_def regions_def)

lemma heap_idle_byte [simp]: "heap_idle k (h\<lparr>heap_byte := f\<rparr>) = heap_idle k h"
  by (simp add: heap_idle_def)

text \<open>What a caller gets: the old contents, up to the smaller of the two sizes, at the new address; nothing else has
  changed its contents.\<close>

definition resized :: "heap \<Rightarrow> heap \<Rightarrow> (nat \<times> nat) set \<Rightarrow> nat \<times> nat \<Rightarrow> nat \<Rightarrow> nat \<times> nat \<Rightarrow> bool" where
  "resized h h' L old n new \<longleftrightarrow>
     heap_rep h' (insert new (L - {old})) \<and> (\<forall>s \<in> L - {old}. apart new s) \<and>
     n \<le> snd new \<and> (\<forall>i < min (snd old) n. heap_byte h' (fst new + i) = heap_byte h (fst old + i)) \<and>
     (\<forall>s \<in> L - {old}. \<forall>x. fst s \<le> x \<longrightarrow> x < fst s + snd s \<longrightarrow> heap_byte h' x = heap_byte h x)"

text \<open>The size a caller asks for, rounded up.\<close>

abbreviation realloc_size :: "u32 \<Rightarrow> nat" where
  "realloc_size len \<equiv> unat (RT_ALIGN len 4)"

lemma realloc_size_facts:
  assumes "len \<noteq> 0" "unat len \<le> 2 ^ 32 - 4"
  shows "4 dvd realloc_size len" "0 < realloc_size len" "unat len \<le> realloc_size len" "RT_ALIGN len 4 \<noteq> 0"
    "RT_ALIGN (RT_ALIGN len 4) 4 = RT_ALIGN len 4"
proof -
  have "0 < unat len" using assms(1) by (simp add: unat_gt_0)
  then show "4 dvd realloc_size len" "0 < realloc_size len" "unat len \<le> realloc_size len"
    using RT_ALIGN_dvd [of len] by (auto simp: unat_RT_ALIGN [OF assms(2)])
  then show "RT_ALIGN len 4 \<noteq> 0" by auto
  have "realloc_size len \<le> 2 ^ 32 - 4" using unat_bound [of "RT_ALIGN len 4"] RT_ALIGN_dvd [of len] by (auto simp: dvd_def)
  then have "unat (RT_ALIGN (RT_ALIGN len 4) 4) = realloc_size len" using RT_ALIGN_dvd [of len] by (auto simp: unat_RT_ALIGN dvd_def)
  then show "RT_ALIGN (RT_ALIGN len 4) 4 = RT_ALIGN len 4" by (simp add: word_unat_eq_iff)
qed

lemma rt_realloc_keeps:
  assumes idle: "heap_idle k h" and inv: "heap_inv h (us @ (m + 12, True) # vs)"
    and len: "len \<noteq> 0" "unat len \<le> 2 ^ 32 - 4" "realloc_size len \<le> mem_size_aligned h"
    and m: "m = realloc_size len \<or> realloc_size len + 24 < m"
  defines "a \<equiv> heap_ptr h + total_len us + 12" and "L \<equiv> regions h (us @ (m + 12, True) # vs)"
  shows "\<exists>h'. rt_realloc (Some a) len k h = Some (Done (Some a), k, h') \<and> resized h h' L (a, m) (unat len) (a, realloc_size len)"
proof -
  let ?sz = "realloc_size len"
  note sz = realloc_size_facts [OF len(1,2)]
  have aL: "(a, m) \<in> L" by (auto simp: L_def a_def regions_def)
  have ap: "apart (a, m) s" if "s \<in> L - {(a, m)}" for s
    using that by (intro regions_apart [OF inv, folded L_def] aL) auto
  consider "m = ?sz" | "?sz + 24 < m" using m by blast
  then show ?thesis
  proof cases
    case 1
    then have "realloc_locked a ?sz h = Some (Keep, h)" using realloc_other_ok [OF inv, of ?sz] by (simp add: a_def)
    then have "rt_realloc (Some a) len k h = Some (Done (Some a), k, h)"
      using rt_realloc_section [OF idle refl sz(4) len(3)] by (simp add: heap_frame_def)
    moreover have "heap_rep h (insert (a, ?sz) (L - {(a, m)}))" using inv aL 1 by (auto simp: heap_rep_def L_def insert_absorb)
    ultimately show ?thesis using 1 ap sz(3) by (auto simp: resized_def)
  next
    case 2
    then obtain h' where h': "realloc_locked a ?sz h = Some (Keep, h')" "heap_frame h h'"
      "heap_inv h' (us @ (?sz + 12, True) # merge_next (m + 12 - (?sz + 12)) vs)"
      using shrink_ok [OF inv, of ?sz] sz by (auto simp: a_def)
    then have "rt_realloc (Some a) len k h = Some (Done (Some a), k, h')"
      using rt_realloc_section [OF idle refl sz(4) len(3) h'(1,2)] by simp
    moreover have "heap_rep h' (insert (a, ?sz) (L - {(a, m)}))"
      using h'(3) regions_shrunk [OF inv, of ?sz] regions_frame [OF h'(2)] 2 by (auto simp: heap_rep_def L_def a_def intro!: exI)
    moreover have "heap_byte h' = heap_byte h" using h'(2) by (simp add: heap_frame_def)
    ultimately show ?thesis using 2 ap apart_smaller [of a m _ ?sz] sz(3) by (auto simp: resized_def)
  qed
qed

lemma rt_realloc_grows:
  assumes idle: "heap_idle k h" and inv: "heap_inv h (us @ (m + 12, True) # vs)" and min: "12 \<le> mem_size_aligned h"
    and len: "len \<noteq> 0" "unat len \<le> 2 ^ 32 - 4" "realloc_size len \<le> mem_size_aligned h"
    and m: "m \<noteq> realloc_size len" "m \<le> realloc_size len + 24"
  defines "a \<equiv> heap_ptr h + total_len us + 12" and "L \<equiv> regions h (us @ (m + 12, True) # vs)"
  shows "\<exists>r h'. rt_realloc (Some a) len k h = Some (Done r, k, h') \<and>
    (case r of None \<Rightarrow> h' = h | Some b \<Rightarrow> \<exists>m'. resized h h' L (a, m) (unat len) (b, m'))"
proof -
  let ?sz = "realloc_size len"
  note sz = realloc_size_facts [OF len(1,2)]
  have aL: "(a, m) \<in> L" by (auto simp: L_def a_def regions_def)
  have rep: "heap_rep h L" using inv by (auto simp: L_def heap_rep_def)
  have "realloc_locked a ?sz h = Some (Grow m, h)" using realloc_other_ok [OF inv, of ?sz] m by (simp add: a_def)
  note re = rt_realloc_section [OF idle refl sz(4) len(3) this]
  obtain r h1 where r: "rt_malloc (RT_ALIGN len 4) k h = Some (Done r, k, h1)" "heap_frame h h1"
    "case r of None \<Rightarrow> h1 = h | Some b \<Rightarrow> \<exists>m'. new_region (RT_ALIGN len 4) h L h1 b m'"
    using rt_malloc_rep [OF idle rep min] by blast
  show ?thesis
  proof (cases r)
    case None
    then show ?thesis using re r by (auto simp: heap_frame_def realloc_move_def)
  next
    case (Some b)
    then obtain m' where n: "new_region (RT_ALIGN len 4) h L h1 b m'" using r(3) by auto
    have szm: "?sz \<le> m'" using n unat_bound [of "RT_ALIGN len 4"] sz(1) by (auto simp: new_region_def dvd_def)
    define h2 where "h2 = heap_memcpy b a (if m < ?sz then m else ?sz) h1"
    have "heap_rep h2 (insert (b, m') L)" "heap_idle k h2"
      using n idle heap_idle_frame [OF r(2)] by (simp_all add: h2_def heap_memcpy_def new_region_def)
    then obtain h3 where f: "rt_free (Some a) k h2 = Some (Done (), k, h3)" "heap_frame h2 h3" "heap_rep h3 (insert (b, m') L - {(a, m)})"
      using rt_free_rep [of k h2 "insert (b, m') L" a m] aL by auto
    have ap: "apart (b, m') s" if "s \<in> L" for s using n that by (simp add: new_region_def)
    have "0 < m" "0 < m'" using regions_range(3) [OF inv, folded L_def, OF aL] n by (auto simp: new_region_def)
    then have "(b, m') \<noteq> (a, m)" using ap [OF aL] by (auto simp: apart_def)
    then have rep3: "heap_rep h3 (insert (b, m') (L - {(a, m)}))" using f(3) by (auto simp: insert_Diff_if split: if_splits)
    have bytes: "heap_byte h3 = (\<lambda>x. if b \<le> x \<and> x < b + (if m < ?sz then m else ?sz) then heap_byte h (a + (x - b)) else heap_byte h x)"
      using f(2) r(2) by (auto simp: h2_def heap_memcpy_def heap_frame_def)
    have "rt_realloc (Some a) len k h = Some (Done (Some b), k, h3)"
      using re r(1,2) Some f(1) by (simp add: heap_frame_def realloc_move_def realloc_free_def h2_def)
    moreover have "heap_byte h3 x = heap_byte h x" if "s \<in> L" "fst s \<le> x" "x < fst s + snd s" for s x
      using ap [OF that(1)] that(2,3) szm by (auto simp: bytes apart_def)
    moreover have "heap_byte h3 (b + i) = heap_byte h (a + i)" if "i < min m (unat len)" for i
      using that sz(3) by (auto simp: bytes)
    ultimately have "rt_realloc (Some a) len k h = Some (Done (Some b), k, h3)" "resized h h3 L (a, m) (unat len) (b, m')"
      using rep3 ap szm sz(3) by (auto simp: resized_def)
    then show ?thesis by auto
  qed
qed

section \<open>Properties\<close>

text \<open>A heap of 112 bytes at address \<open>0x20000000\<close> with an allocated block of 12 bytes and a free one of 88.\<close>

definition demo_heap :: heap where
  "demo_heap = \<lparr>heap_ptr = 0x20000000, heap_end = 124, lfree = 24, heap_sem = 0, mem_size_aligned = 112,
     used_mem = 24, max_mem = 24,
     heap_node = (\<lambda>_. \<lparr>hm_magic = 0, hm_used = 0, hm_next = 0, hm_prev = 0\<rparr>)
       (0 := \<lparr>hm_magic = HEAP_MAGIC, hm_used = 1, hm_next = 24, hm_prev = 0\<rparr>,
        24 := \<lparr>hm_magic = HEAP_MAGIC, hm_used = 0, hm_next = 124, hm_prev = 0\<rparr>,
        124 := \<lparr>hm_magic = HEAP_MAGIC, hm_used = 1, hm_next = 124, hm_prev = 124\<rparr>),
     heap_byte = (\<lambda>_. 0)\<rparr>"

definition demo_heap_kernel :: kernel where
  "demo_heap_kernel = demo_kernel\<lparr>sems := (\<lambda>_. \<lparr>sem_value = 1\<rparr>)\<rparr>"

lemma demo_heap_inv: "heap_inv demo_heap [(24, True), (100, False)]"
  by (simp add: heap_inv_def heap_shape_def node_ok_def demo_heap_def)

lemma demo_heap_idle: "heap_idle demo_heap_kernel demo_heap"
  by (simp add: heap_idle_def demo_heap_def demo_heap_kernel_def demo_simps rt_object_get_type_def oref_class_def)

lemma demo_heap_regions: "regions demo_heap [(24, True), (100, False)] = {(0x2000000c, 12)}"
  by (simp add: regions_def demo_heap_def)

lemma demo_heap_rep: "heap_rep demo_heap {(0x2000000c, 12)}"
  using demo_heap_inv demo_heap_regions by (auto simp: heap_rep_def)

lemma demo_heap_fields: "mem_size_aligned demo_heap = 112" "heap_ptr demo_heap = 0x20000000" "heap_end demo_heap = 124"
  by (simp_all add: demo_heap_def)

text \<open>C16: \<^verbatim>\<open>rt_malloc\<close> on a well-formed heap whose semaphore is free returns, none of its assertions fails, and the
  semaphore is free again. It gives nothing and changes nothing, or it gives a region of the heap that is aligned, at
  least as long as the request, and apart from every region that is allocated; all other regions stay allocated and
  keep their contents.\<close>

theorem rt_malloc_ok:
  assumes "heap_idle k h" "heap_rep h L" "12 \<le> mem_size_aligned h" "unat len \<le> 2 ^ 32 - 4"
  shows "\<exists>r h'. rt_malloc len k h = Some (Done r, k, h') \<and> heap_byte h' = heap_byte h \<and>
    (case r of
       None \<Rightarrow> h' = h
     | Some a \<Rightarrow> \<exists>m. unat len \<le> m \<and> a mod 4 = 0 \<and> heap_rep h' (insert (a, m) L) \<and> (\<forall>s \<in> L. apart (a, m) s) \<and>
         heap_ptr h + 12 \<le> a \<and> a + m \<le> heap_ptr h + heap_end h)"
proof -
  obtain r h' where r: "rt_malloc len k h = Some (Done r, k, h')" "heap_frame h h'"
    "case r of None \<Rightarrow> h' = h | Some a \<Rightarrow> \<exists>m. new_region len h L h' a m"
    using rt_malloc_rep [OF assms(1-3)] by blast
  then show ?thesis using assms(4) by (cases r) (auto simp: heap_frame_def new_region_def)
qed

theorem rt_malloc_ok_witness:
  "\<exists>r h'. rt_malloc 10 demo_heap_kernel demo_heap = Some (Done r, demo_heap_kernel, h') \<and>
    (case r of None \<Rightarrow> h' = demo_heap | Some a \<Rightarrow> \<exists>m. 10 \<le> m \<and> heap_rep h' {(a, m), (0x2000000c, 12)} \<and> apart (a, m) (0x2000000c, 12))"
proof -
  have "(12::nat) \<le> mem_size_aligned demo_heap" "unat (10 :: u32) \<le> 2 ^ 32 - 4" "unat (10 :: u32) = 10"
    by (simp_all add: demo_heap_fields)
  from rt_malloc_ok [OF demo_heap_idle demo_heap_rep this(1,2)] obtain r h' where
    m: "rt_malloc 10 demo_heap_kernel demo_heap = Some (Done r, demo_heap_kernel, h')"
      "case r of
         None \<Rightarrow> h' = demo_heap
       | Some a \<Rightarrow> \<exists>m. unat (10 :: u32) \<le> m \<and> a mod 4 = 0 \<and> heap_rep h' (insert (a, m) {(0x2000000c, 12)}) \<and>
           (\<forall>s \<in> {(0x2000000c, 12)}. apart (a, m) s) \<and> heap_ptr demo_heap + 12 \<le> a \<and> a + m \<le> heap_ptr demo_heap + heap_end demo_heap"
    by blast
  then show ?thesis by (cases r) auto
qed

text \<open>C17: \<^verbatim>\<open>rt_free\<close> of an allocated region returns, none of its assertions fails, and exactly that region is free
  afterwards.\<close>

theorem rt_free_ok:
  assumes "heap_idle k h" "heap_rep h L" "(a, m) \<in> L"
  shows "\<exists>h'. rt_free (Some a) k h = Some (Done (), k, h') \<and> heap_rep h' (L - {(a, m)}) \<and> heap_byte h' = heap_byte h"
  using rt_free_rep [OF assms] by (auto simp: heap_frame_def)

theorem rt_free_ok_witness:
  "\<exists>h'. rt_free (Some 0x2000000c) demo_heap_kernel demo_heap = Some (Done (), demo_heap_kernel, h') \<and> heap_rep h' {}"
  using rt_free_ok [OF demo_heap_idle demo_heap_rep, of "0x2000000c" 12] by auto

text \<open>What \<^verbatim>\<open>rt_malloc\<close> takes, \<^verbatim>\<open>rt_free\<close> gives back: the blocks of the heap, free and allocated, are the same as before,
  because a freed block is merged with its free neighbours.\<close>

theorem malloc_free_roundtrip:
  assumes "heap_idle k h" "heap_inv h bs" "rt_malloc len k h = Some (Done (Some a), k1, h1)" "12 \<le> mem_size_aligned h"
  shows "\<exists>h2. rt_free (Some a) k1 h1 = Some (Done (), k, h2) \<and> heap_inv h2 bs"
proof -
  have len: "len \<noteq> 0" "malloc_size len \<le> mem_size_aligned h"
    using assms(3,4) rt_malloc_too_large [OF assms(1), of len] by (auto simp: malloc_size_def not_less) (metis not_less)
  obtain us n vs where b: "bs = us @ (n, False) # vs" "malloc_size len + 12 \<le> n" "a = heap_ptr h + total_len us + 12"
    "heap_inv h1 (us @ carve (malloc_size len) n @ vs)" "heap_frame h h1" "k1 = k"
    using rt_malloc_gave [OF assms(1,2) len assms(3)] by blast
  let ?ws = "tl (carve (malloc_size len) n) @ vs"
  have inv: "heap_inv h1 (us @ (carved_len (malloc_size len) n, True) # ?ws)" using b(4) by (simp add: carve_def carved_len_def split: if_splits)
  have "merge_free us (carved_len (malloc_size len) n) ?ws = bs" by (rule merge_carved [OF assms(2) [unfolded b(1)] b(2), folded b(1)])
  moreover have "heap_idle k h1" "heap_ptr h1 = heap_ptr h" using assms(1) heap_idle_frame [OF b(5)] b(5) by (simp_all add: heap_frame_def)
  ultimately show ?thesis using rt_free_run [OF _ inv] b(3,6) by auto
qed

theorem malloc_free_roundtrip_witness:
  "\<exists>h1 h2. rt_malloc 10 demo_heap_kernel demo_heap = Some (Done (Some 0x20000024), demo_heap_kernel, h1) \<and>
    rt_free (Some 0x20000024) demo_heap_kernel h1 = Some (Done (), demo_heap_kernel, h2) \<and> heap_inv h2 [(24, True), (100, False)]"
proof -
  have sz: "malloc_size 10 = 12" by (simp add: malloc_size_def RT_ALIGN_def)
  then obtain h1 where h1: "rt_malloc 10 demo_heap_kernel demo_heap = Some (Done (Some 0x20000024), demo_heap_kernel, h1)"
    using rt_malloc_first [OF demo_heap_idle _ demo_heap_inv, of "[(24, True)]" 100 "[]" 10]
    by (auto simp: demo_heap_fields demo_heap_def)
  with malloc_free_roundtrip [OF demo_heap_idle demo_heap_inv h1] show ?thesis by (simp add: demo_heap_fields)
qed

text \<open>C19: Exactly when \<^verbatim>\<open>rt_malloc\<close> gives nothing, for a request that is not larger than the heap, if the pointer to the
  lowest free block is right: when every free block is too small, except that the last block of the heap is not given
  away either if the request fills it exactly.\<close>

theorem rt_malloc_fails_iff:
  assumes "heap_idle k h" "heap_inv h bs" "lfree_lowest h bs" "len \<noteq> 0" "malloc_size len \<le> mem_size_aligned h"
  shows "rt_malloc len k h = Some (Done None, k, h) \<longleftrightarrow>
    (\<forall>us n vs. bs = us @ (n, False) # vs \<longrightarrow> n < malloc_size len + 12 \<or> n = malloc_size len + 12 \<and> vs = [])"
proof
  assume fail: "rt_malloc len k h = Some (Done None, k, h)"
  show "\<forall>us n vs. bs = us @ (n, False) # vs \<longrightarrow> n < malloc_size len + 12 \<or> n = malloc_size len + 12 \<and> vs = []"
  proof (intro allI impI)
    fix us n vs
    assume bs: "bs = us @ (n, False) # vs"
    have low: "lfree h \<le> total_len us" using assms(3) bs by (auto simp: lfree_lowest_def)
    have e: "total_len us + n + total_len vs = mem_size_aligned h + 12" "12 * length vs \<le> total_len vs"
      using assms(2) bs blocks_len [of "heap_node h" "total_len us" "total_len us + n" vs] by (auto simp: heap_inv_def heap_shape_def)
    show "n < malloc_size len + 12 \<or> n = malloc_size len + 12 \<and> vs = []"
    proof (cases "total_len us + malloc_size len < mem_size_aligned h")
      case True
      then show ?thesis using rt_malloc_gave_up [OF assms(1,2,4,5) fail bs low] by simp
    next
      case False
      then show ?thesis using e by (cases vs) auto
    qed
  qed
next
  assume small: "\<forall>us n vs. bs = us @ (n, False) # vs \<longrightarrow> n < malloc_size len + 12 \<or> n = malloc_size len + 12 \<and> vs = []"
  obtain found h' bs' where m: "rt_malloc len k h = Some (Done (map_option (\<lambda>p. heap_ptr h + p + 12) found), k, h')"
    "malloc_effect (malloc_size len) found h bs h' bs'"
    using rt_malloc_run [OF assms(1,2,4,5)] by blast
  show "rt_malloc len k h = Some (Done None, k, h)"
  proof (cases found)
    case None
    then show ?thesis using m by (simp add: malloc_effect_def)
  next
    case (Some p)
    then obtain us n vs where b: "bs = us @ (n, False) # vs" "p = total_len us" "malloc_size len + 12 \<le> n"
      "p < mem_size_aligned h - malloc_size len" using m(2) by (auto simp: malloc_effect_def)
    then have "n = malloc_size len + 12" "vs = []" using small [rule_format, OF b(1)] by auto
    then have "total_len us + malloc_size len = mem_size_aligned h" using b(1) assms(2) by (auto simp: heap_inv_def heap_shape_def)
    then show ?thesis using b(2,4) by simp
  qed
qed

theorem rt_malloc_fails_iff_witness:
  "rt_malloc 88 demo_heap_kernel demo_heap = Some (Done None, demo_heap_kernel, demo_heap)"
proof -
  have "lfree_lowest demo_heap [(24, True), (100, False)]" "malloc_size 88 = 88"
    by (simp_all add: lfree_lowest_def demo_heap_def malloc_size_def RT_ALIGN_def)
  moreover have "[(24, True), (100, False)] = us @ (n, False) # vs \<Longrightarrow> n = 100 \<and> vs = []" for us n and vs :: "block list"
    by (cases us) (auto simp: Cons_eq_append_conv append_eq_Cons_conv)
  ultimately show ?thesis
    using rt_malloc_fails_iff [OF demo_heap_idle demo_heap_inv, of 88] by (auto simp: demo_heap_fields)
qed

text \<open>A request within 3 bytes of \<open>2 ^ 32\<close> is rounded up to 0, passes the check against the size of the heap, and is
  served with 12 bytes.\<close>

theorem rt_malloc_wraps:
  assumes "2 ^ 32 - 4 < unat len" "12 \<le> mem_size_aligned h"
  shows "rt_malloc len k h = rt_malloc 12 k h"
proof -
  have "unat (3 + len) = unat len + 3 - 2 ^ 32" "unat len < 2 ^ 32"
    using assms(1) unat_bound [of len] by (simp_all add: unat_word_ariths le_mod_geq)
  then have "unat (RT_ALIGN len 4) = 0" using assms(1) by (simp add: RT_ALIGN_def unat_align_down)
  moreover have "RT_ALIGN 12 4 = (12 :: u32)" "len \<noteq> 0" using assms(1) by (auto simp: RT_ALIGN_def)
  ultimately show ?thesis using assms(2) by (simp add: rt_malloc_def Let_def)
qed

theorem rt_malloc_wraps_witness:
  "\<exists>h1. rt_malloc 0xffffffff demo_heap_kernel demo_heap = Some (Done (Some 0x20000024), demo_heap_kernel, h1)"
proof -
  have "malloc_size 12 = 12" by (simp add: malloc_size_def RT_ALIGN_def)
  then have "\<exists>h1. rt_malloc 12 demo_heap_kernel demo_heap = Some (Done (Some 0x20000024), demo_heap_kernel, h1)"
    using rt_malloc_first [OF demo_heap_idle _ demo_heap_inv, of "[(24, True)]" 100 "[]" 12]
    by (auto simp: demo_heap_fields demo_heap_def)
  then show ?thesis using rt_malloc_wraps [of "0xffffffff" demo_heap demo_heap_kernel] by (simp add: demo_heap_fields)
qed

text \<open>C18: Any sequence of \<^verbatim>\<open>rt_malloc\<close> and \<^verbatim>\<open>rt_free\<close> by callers that free only what they hold succeeds: no assertion fails, no
  access leaves the heap, and at the end the allocated regions are exactly the ones held, each large enough for its
  request and apart from all others.\<close>

theorem heap_client_safe:
  assumes "heap_idle k h" "heap_rep h {}" "12 \<le> mem_size_aligned h"
  shows "\<exists>held szs k' h'. client_run malloc_call free_call ops [] (k, h) = Some (held, k', h') \<and>
    heap_rep h' (set (zip (map snd held) szs)) \<and> sorted_wrt apart (zip (map snd held) szs) \<and>
    list_all2 (\<lambda>(len, a) m. unat len \<le> 2 ^ 32 - 4 \<longrightarrow> unat len \<le> m) held szs"
proof -
  have "heap_ready (k, h) (held_regions ([] :: (u32 \<times> nat) list) [])" "holds served_by [] []"
    using assms by (simp_all add: heap_ready_def holds_def)
  from small_mem.client_safe [OF this, of ops] obtain held szs k' h' where
    "client_run malloc_call free_call ops [] (k, h) = Some (held, k', h')" "heap_rep h' (held_regions held szs)" "holds served_by held szs"
    by (auto simp: heap_ready_def)
  moreover from this(3) have "list_all2 (\<lambda>(len, a) m. unat len \<le> 2 ^ 32 - 4 \<longrightarrow> unat len \<le> m) held szs"
    by (auto simp: holds_def elim: list_all2_mono)
  ultimately show ?thesis by (auto simp: holds_def)
qed

definition demo_empty_heap :: heap where
  "demo_empty_heap = demo_heap\<lparr>lfree := 0, used_mem := 0,
     heap_node := (heap_node demo_heap)(0 := \<lparr>hm_magic = HEAP_MAGIC, hm_used = 0, hm_next = 124, hm_prev = 0\<rparr>)\<rparr>"

lemma demo_empty_heap_inv: "heap_inv demo_empty_heap [(124, False)]"
  by (simp add: heap_inv_def heap_shape_def node_ok_def demo_empty_heap_def demo_heap_def)

theorem heap_client_safe_witness:
  "\<exists>held szs k' h'. client_run malloc_call free_call [Ask 10, Ask 20, Give_back 1, Ask 30] [] (demo_heap_kernel, demo_empty_heap) =
      Some (held, k', h') \<and> heap_rep h' (set (zip (map snd held) szs)) \<and> sorted_wrt apart (zip (map snd held) szs)"
proof -
  have "heap_rep demo_empty_heap {}" using demo_empty_heap_inv by (auto simp: heap_rep_def regions_def intro!: exI [of _ "[(124, False)]"])
  moreover have "heap_idle demo_heap_kernel demo_empty_heap" "12 \<le> mem_size_aligned demo_empty_heap"
    using demo_heap_idle by (simp_all add: heap_idle_def demo_empty_heap_def demo_heap_def)
  ultimately show ?thesis using heap_client_safe [of demo_heap_kernel demo_empty_heap "[Ask 10, Ask 20, Give_back 1, Ask 30]"] by blast
qed

text \<open>C20: \<^verbatim>\<open>rt_realloc\<close> of an allocated region returns. It gives nothing and changes nothing, or it gives a region that replaces
  the old one, is large enough, is apart from all others, and holds the old contents up to the smaller size; no other
  region is touched.\<close>

theorem rt_realloc_ok:
  assumes idle: "heap_idle k h" and rep: "heap_rep h L" and a: "(a, m) \<in> L" and min: "12 \<le> mem_size_aligned h"
    and len: "len \<noteq> 0" "unat len \<le> 2 ^ 32 - 4"
  shows "\<exists>r h'. rt_realloc (Some a) len k h = Some (Done r, k, h') \<and>
    (case r of None \<Rightarrow> h' = h | Some b \<Rightarrow> \<exists>m'. resized h h' L (a, m) (unat len) (b, m'))"
proof -
  obtain bs where bs: "heap_inv h bs" "L = regions h bs" using rep by (auto simp: heap_rep_def)
  obtain us vs where b: "bs = us @ (m + 12, True) # vs" "a = heap_ptr h + total_len us + 12"
    using regionsD [OF bs(1)] a bs(2) by blast
  note inv = bs(1) [unfolded b(1)]
  consider (large) "mem_size_aligned h < realloc_size len"
    | (keep) "realloc_size len \<le> mem_size_aligned h" "m = realloc_size len \<or> realloc_size len + 24 < m"
    | (grow) "realloc_size len \<le> mem_size_aligned h" "m \<noteq> realloc_size len" "m \<le> realloc_size len + 24" by linarith
  then show ?thesis
  proof cases
    case large
    then show ?thesis using idle by (auto simp: rt_realloc_def Let_def rt_debug_not_in_interrupt_def heap_idle_def)
  next
    case keep
    then show ?thesis using rt_realloc_keeps [OF idle inv len keep] b bs(2) by fastforce
  next
    case grow
    then show ?thesis unfolding b(2) bs(2) b(1) by (rule rt_realloc_grows [OF idle inv min len])
  qed
qed

theorem rt_realloc_ok_witness:
  "\<exists>r h'. rt_realloc (Some 0x2000000c) 40 demo_heap_kernel demo_heap = Some (Done r, demo_heap_kernel, h') \<and>
    (case r of None \<Rightarrow> h' = demo_heap | Some b \<Rightarrow> \<exists>m'. resized demo_heap h' {(0x2000000c, 12)} (0x2000000c, 12) 40 (b, m'))"
  using rt_realloc_ok [OF demo_heap_idle demo_heap_rep, of "0x2000000c" 12 40] by (simp add: demo_heap_fields cong: option.case_cong)

text \<open>\<^verbatim>\<open>rt_realloc\<close> that makes a block smaller does not move the pointer to the lowest free block back to the part that has
  become free. In a heap in which everything was allocated, that part is free and nevertheless every \<^verbatim>\<open>rt_malloc\<close> fails.\<close>

theorem rt_realloc_loses_memory:
  assumes idle: "heap_idle k h" and inv: "heap_inv h (us @ (n, True) # vs)" and full: "\<forall>b \<in> set (us @ vs). snd b"
    and len: "len \<noteq> 0" "unat len \<le> 2 ^ 32 - 4" "realloc_size len + 36 < n"
  shows "\<exists>h'. rt_realloc (Some (heap_ptr h + total_len us + 12)) len k h = Some (Done (Some (heap_ptr h + total_len us + 12)), k, h') \<and>
    heap_inv h' (us @ (realloc_size len + 12, True) # (n - (realloc_size len + 12), False) # vs) \<and>
    (\<forall>len'. rt_malloc len' k h' = Some (Done None, k, h'))"
proof -
  let ?sz = "realloc_size len"
  note sz = realloc_size_facts [OF len(1,2)]
  have no: "free_pos p bs = {}" if "\<forall>b \<in> set bs. snd b" for p and bs :: "block list" using that by (induction bs arbitrary: p) auto
  have lf: "lfree h = heap_end h" using inv no [of us] no [of vs] full by (auto simp: heap_inv_def)
  have mem: "heap_end h = mem_size_aligned h + 12" "total_len us + n + total_len vs = heap_end h"
    using inv heap_shape_node(2) [of h us "(n, True)" vs] by (auto simp: heap_inv_def heap_shape_def)
  have mn: "merge_next r vs = (r, False) # vs" "lfree_next ws r vs l = l" for r ws l
    using full by (cases vs; force simp: merge_next_def lfree_next_def split: bool.splits)+
  obtain h' where h': "realloc_locked (heap_ptr h + total_len us + 12) ?sz h = Some (Keep, h')" "heap_frame h h'"
    "heap_inv h' (us @ (?sz + 12, True) # (n - (?sz + 12), False) # vs)" "lfree h' = heap_end h"
    using shrink_ok [OF inv len(3) sz(1,2)] lf by (auto simp: mn)
  have "rt_realloc (Some (heap_ptr h + total_len us + 12)) len k h = Some (Done (Some (heap_ptr h + total_len us + 12)), k, h')"
    using rt_realloc_section [OF idle refl sz(4) _ h'(1,2)] len(3) mem by simp
  moreover have "rt_malloc len' k h' = Some (Done None, k, h')" for len'
  proof (rule rt_malloc_nothing)
    show "heap_idle k h'" using idle heap_idle_frame [OF h'(2)] by simp
    show "heap_inv h' (us @ (?sz + 12, True) # (n - (?sz + 12), False) # vs)" by (rule h'(3))
    show "lfree h' = heap_end h'" using h'(2,4) by (simp add: heap_frame_def)
    show "12 \<le> mem_size_aligned h'" using h'(2) mem len(3) by (simp add: heap_frame_def)
  qed
  ultimately show ?thesis using h'(3) by blast
qed

text \<open>A heap of 112 bytes that is one allocated block.\<close>

definition demo_full_heap :: heap where
  "demo_full_heap = demo_heap\<lparr>lfree := 124, used_mem := 124,
     heap_node := (heap_node demo_heap)(0 := \<lparr>hm_magic = HEAP_MAGIC, hm_used = 1, hm_next = 124, hm_prev = 0\<rparr>)\<rparr>"

lemma demo_full_heap_inv: "heap_inv demo_full_heap [(124, True)]"
  by (simp add: heap_inv_def heap_shape_def node_ok_def demo_full_heap_def demo_heap_def)

theorem rt_realloc_loses_memory_witness:
  "\<exists>h'. rt_realloc (Some 0x2000000c) 16 demo_heap_kernel demo_full_heap = Some (Done (Some 0x2000000c), demo_heap_kernel, h') \<and>
    heap_inv h' [(28, True), (96, False)] \<and> rt_malloc 20 demo_heap_kernel h' = Some (Done None, demo_heap_kernel, h')"
proof -
  have "heap_idle demo_heap_kernel demo_full_heap" using demo_heap_idle by (simp add: heap_idle_def demo_full_heap_def demo_heap_def)
  moreover have "realloc_size 16 = 16" "heap_ptr demo_full_heap = 0x20000000"
    by (simp_all add: RT_ALIGN_def demo_full_heap_def demo_heap_def)
  ultimately show ?thesis
    using rt_realloc_loses_memory [of demo_heap_kernel demo_full_heap "[]" 124 "[]" 16] demo_full_heap_inv by auto
qed

text \<open>\<^verbatim>\<open>rt_calloc\<close> gives a region whose first \<open>count * len\<close> bytes are zero and leaves the contents of all other regions
  alone. The product is taken modulo \<open>2 ^ 32\<close>: with \<open>count * len = 2 ^ 32 + n\<close> the caller gets a region for \<open>n\<close> bytes.\<close>

theorem rt_calloc_ok:
  fixes count len :: u32
  defines "n \<equiv> unat count * unat len mod 2 ^ 32"
  assumes "heap_idle k h" "heap_rep h L" "12 \<le> mem_size_aligned h" "n \<le> 2 ^ 32 - 4"
  shows "\<exists>r h'. rt_calloc count len k h = Some (Done r, k, h') \<and>
    (case r of
       None \<Rightarrow> h' = h
     | Some a \<Rightarrow> \<exists>m. n \<le> m \<and> heap_rep h' (insert (a, m) L) \<and> (\<forall>s \<in> L. apart (a, m) s) \<and>
         (\<forall>i < n. heap_byte h' (a + i) = 0) \<and>
         (\<forall>s \<in> L. \<forall>x. fst s \<le> x \<and> x < fst s + snd s \<longrightarrow> heap_byte h' x = heap_byte h x))"
proof -
  have n: "unat (count * len) = n" by (simp add: n_def unat_word_ariths)
  obtain r h1 where r: "rt_malloc (count * len) k h = Some (Done r, k, h1)" "heap_frame h h1"
    "case r of None \<Rightarrow> h1 = h | Some a \<Rightarrow> \<exists>m. new_region (count * len) h L h1 a m"
    using rt_malloc_rep [OF assms(2-4)] by blast
  show ?thesis
  proof (cases r)
    case (Some a)
    then obtain m where m: "new_region (count * len) h L h1 a m" using r(3) by auto
    have "n \<le> m" using m assms(5) n by (simp add: new_region_def)
    with m r(2) have "\<forall>s \<in> L. \<forall>x. fst s \<le> x \<and> x < fst s + snd s \<longrightarrow> heap_byte (heap_memset a 0 n h1) x = heap_byte h x"
      by (fastforce simp: new_region_def apart_def heap_memset_def heap_frame_def)
    with m r(1) Some \<open>n \<le> m\<close> show ?thesis
      by (auto simp: rt_calloc_def calloc_clear_def n new_region_def heap_memset_def)
  qed (use r in \<open>simp add: rt_calloc_def calloc_clear_def\<close>)
qed

theorem rt_calloc_ok_witness:
  "\<exists>r h'. rt_calloc 0x80000001 2 demo_heap_kernel demo_heap = Some (Done r, demo_heap_kernel, h') \<and>
    (case r of None \<Rightarrow> h' = demo_heap | Some a \<Rightarrow> \<exists>m. 2 \<le> m \<and> heap_rep h' {(a, m), (0x2000000c, 12)} \<and> (\<forall>i < 2. heap_byte h' (a + i) = 0))"
proof -
  have "(12::nat) \<le> mem_size_aligned demo_heap" by (simp add: demo_heap_fields)
  note w = rt_calloc_ok [OF demo_heap_idle demo_heap_rep this, of "0x80000001" 2, simplified]
  then obtain r h' where "rt_calloc 0x80000001 2 demo_heap_kernel demo_heap = Some (Done r, demo_heap_kernel, h')"
    by blast
  with w show ?thesis by (cases r) auto
qed

text \<open>\<^verbatim>\<open>rt_system_heap_init\<close> on memory with room for the two headers makes a well-formed heap of one free block; nothing is
  allocated, and the pointer to the lowest free block is right.\<close>

theorem rt_system_heap_init_ok:
  assumes "rt_interrupt_nest k = 0" "used_mem h = 0"
    and mem: "24 < RT_ALIGN_DOWN end_addr 4" "RT_ALIGN begin_addr 4 \<le> RT_ALIGN_DOWN end_addr 4 - 24"
    and sem: "rt_sem_init (heap_sem h) ''heap'' 1 RT_IPC_FLAG_FIFO k = Some (r, k')"
  shows "\<exists>h'. rt_system_heap_init begin_addr end_addr k h = Some (k', h') \<and>
    heap_inv h' [(mem_size_aligned h' + 12, False)] \<and> lfree_lowest h' [(mem_size_aligned h' + 12, False)] \<and> heap_rep h' {} \<and>
    heap_ptr h' + mem_size_aligned h' + 24 = unat (RT_ALIGN_DOWN end_addr 4)"
proof -
  let ?b = "RT_ALIGN begin_addr 4" and ?e = "RT_ALIGN_DOWN end_addr 4"
  have d: "4 dvd unat ?b" "4 dvd unat ?e" using RT_ALIGN_dvd by (simp_all add: RT_ALIGN_DOWN_def unat_align_down)
  have e: "unat (?e - 24) = unat ?e - 24" "24 < unat ?e" using mem(1) by (simp_all add: unat_sub word_le_nat_alt word_less_nat_alt)
  have le: "unat ?b \<le> unat ?e - 24" using mem(2) e by (simp add: word_le_nat_alt)
  have sz: "unat (?e - ?b - 24) = unat ?e - 24 - unat ?b"
    using le e mem(2) by (simp add: diff_right_commute [of ?e ?b 24] unat_sub)
  define n where "n = unat (?e - ?b - 24)"
  have "4 dvd n + 12" "n + 24 + unat ?b = unat ?e" using d le e(2) sz by (auto simp: n_def intro!: dvd_add dvd_diff_nat)
  moreover have "unat ?e < 2 ^ 32" using unat_bound [of ?e] by simp
  ultimately show ?thesis
    using assms(1,2) mem sem d(1)
    by (auto simp: rt_system_heap_init_def Let_def rt_debug_not_in_interrupt_def n_def [symmetric] heap_inv_def heap_shape_def
        node_ok_def lfree_lowest_def heap_rep_def regions_def intro!: exI [of _ "[(n + 12, False)]"])
qed

lemma demo_sem_init: "\<exists>k'. rt_sem_init (heap_sem demo_heap) ''heap'' 1 RT_IPC_FLAG_FIFO demo_kernel = Some (0, k')"
proof -
  have "RT_Object_Class_Semaphore \<in> set rt_object_container" "OSem (heap_sem demo_heap) \<notin> set (object_list demo_kernel RT_Object_Class_Semaphore)"
    by (simp_all add: rt_object_container_def demo_simps)
  from rt_object_init_step [OF demo_kernel_inv this, of "''heap''"] obtain k1 where
    "rt_object_init (OSem (heap_sem demo_heap)) RT_Object_Class_Semaphore ''heap'' demo_kernel = Some k1" by blast
  then show ?thesis by (simp add: rt_sem_init_def Let_def)
qed

theorem rt_system_heap_init_ok_witness:
  "\<exists>k' h'. rt_system_heap_init 0x20000001 0x20000090 demo_kernel (demo_heap\<lparr>used_mem := 0\<rparr>) = Some (k', h') \<and>
    heap_inv h' [(mem_size_aligned h' + 12, False)] \<and> heap_rep h' {}"
proof -
  obtain k' where k': "rt_sem_init (heap_sem (demo_heap\<lparr>used_mem := 0\<rparr>)) ''heap'' 1 RT_IPC_FLAG_FIFO demo_kernel = Some (0, k')"
    using demo_sem_init by auto
  have "rt_interrupt_nest demo_kernel = 0" "used_mem (demo_heap\<lparr>used_mem := 0\<rparr>) = 0"
    "24 < RT_ALIGN_DOWN 0x20000090 4" "RT_ALIGN 0x20000001 4 \<le> RT_ALIGN_DOWN 0x20000090 4 - 24"
    by (simp_all add: demo_simps RT_ALIGN_DOWN_def RT_ALIGN_def)
  from rt_system_heap_init_ok [OF this k'] show ?thesis by blast
qed

end
