(* ===== verification/Idle.thy ===== *)
theory Idle
  imports Heap_Service
begin

text \<open>
  The end of a thread: \<^verbatim>\<open>rt_thread_delete\<close> and \<^verbatim>\<open>rt_thread_exit\<close> of \<^verbatim>\<open>src/thread.c\<close> close it and put it on the
  list of defunct threads, and the idle thread (\<^verbatim>\<open>src/idle.c\<close>) takes it from there, calls its cleanup function and
  gives its stack back to the heap. The hooks of the idle thread are a list of function numbers; what the hooks and
  the cleanup functions do is a parameter.
\<close>

section \<open>Operations\<close>


primrec hook_replace :: "nat option \<Rightarrow> nat option \<Rightarrow> nat option list \<Rightarrow> nat option list option" where
  "hook_replace a b [] = None"
| "hook_replace a b (x # xs) = (if x = a then Some (b # xs) else map_option ((#) x) (hook_replace a b xs))"

definition rt_thread_idle_sethook :: "nat option \<Rightarrow> nat option list \<Rightarrow> rt_err_t \<times> nat option list" where
  "rt_thread_idle_sethook hook hooks =
     (case hook_replace None hook hooks of None \<Rightarrow> (- RT_EFULL, hooks) | Some hooks' \<Rightarrow> (RT_EOK, hooks'))"

definition rt_thread_idle_delhook :: "nat option \<Rightarrow> nat option list \<Rightarrow> rt_err_t \<times> nat option list" where
  "rt_thread_idle_delhook hook hooks =
     (case hook_replace hook None hooks of None \<Rightarrow> (- RT_ENOSYS, hooks) | Some hooks' \<Rightarrow> (RT_EOK, hooks'))"

definition has_defunct_thread :: "kernel \<Rightarrow> bool" where
  "has_defunct_thread k = (tlists k LDefunct \<noteq> [])"

text \<open>The part of \<^verbatim>\<open>rt_thread_idle_excute\<close> with interrupts disabled: it takes a thread off the list and returns it
  when its memory has to be given back.\<close>

definition idle_detach :: "(nat \<Rightarrow> tid \<Rightarrow> kernel \<Rightarrow> kernel option) \<Rightarrow> tid \<Rightarrow> kernel \<Rightarrow> (tid option \<times> kernel) option" where
  "idle_detach cleanup t k = do {
     let k = tlist_remove t k;
     let k = rt_enter_critical k;
     k \<leftarrow> (case th_cleanup (threads k t) of None \<Rightarrow> Some k | Some f \<Rightarrow> cleanup f t k);
     if rt_object_is_systemobject k (OThread t) then do {
       let k = rt_object_detach (OThread t) k;
       k \<leftarrow> rt_exit_critical k;
       Some (None, k)
     }
     else do {
       k \<leftarrow> rt_exit_critical k;
       Some (Some t, k)
     }
   }"

definition stack_ptr :: "kernel \<Rightarrow> tid \<Rightarrow> nat option" where
  "stack_ptr k t = (if th_stack_addr (threads k t) = 0 then None else Some (th_stack_addr (threads k t)))"

text \<open>\<^verbatim>\<open>rt_free\<close> can wait for the heap; the thread whose memory is being freed is what the idle thread still needs then.
  The loop is a partial function: \<open>None\<close> if it never ends.\<close>

partial_function (option) rt_thread_idle_excute ::
  "(nat \<Rightarrow> tid \<Rightarrow> kernel \<Rightarrow> kernel option) \<Rightarrow> kernel \<Rightarrow> heap \<Rightarrow>
     ((unit, (tid \<times> nat) \<times> tid) outcome \<times> kernel \<times> heap) option" where
  "rt_thread_idle_excute cleanup k h =
     (case tlists k LDefunct of
        [] \<Rightarrow> Some (Done (), k, h)
      | t # _ \<Rightarrow> do {
          rt_debug_not_in_interrupt k;
          (thread, k) \<leftarrow> idle_detach cleanup t k;
          (case thread of
             None \<Rightarrow> Some (Done (), k, h)
           | Some t \<Rightarrow> do {
               (r, k, h) \<leftarrow> rt_free (stack_ptr k t) k h;
               (case r of
                  Blocked w \<Rightarrow> Some (Blocked (w, t), k, h)
                | Done _ \<Rightarrow> do {
                    k \<leftarrow> rt_object_delete (OThread t) k;
                    rt_thread_idle_excute cleanup k h
                  })
             })
        })"

definition rt_thread_idle_excute_resumed ::
  "(nat \<Rightarrow> tid \<Rightarrow> kernel \<Rightarrow> kernel option) \<Rightarrow> (tid \<times> nat) \<times> tid \<Rightarrow> kernel \<Rightarrow> heap \<Rightarrow>
     ((unit, (tid \<times> nat) \<times> tid) outcome \<times> kernel \<times> heap) option" where
  "rt_thread_idle_excute_resumed cleanup w k h = do {
     (r, k, h) \<leftarrow> rt_free_resumed (fst w) k h;
     (case r of
        Blocked v \<Rightarrow> Some (Blocked (v, snd w), k, h)
      | Done _ \<Rightarrow> do {
          k \<leftarrow> rt_object_delete (OThread (snd w)) k;
          rt_thread_idle_excute cleanup k h
        })
   }"

text \<open>One round of \<^verbatim>\<open>rt_thread_idle_entry\<close>: the hooks that are set, in order, then the cleaning up.\<close>

definition idle_hooks :: "(nat \<Rightarrow> kernel \<Rightarrow> kernel option) \<Rightarrow> nat option list \<Rightarrow> kernel \<Rightarrow> kernel option" where
  "idle_hooks call hooks = iterM (\<lambda>hook k. case hook of None \<Rightarrow> Some k | Some f \<Rightarrow> call f k) hooks"

definition rt_thread_idle_entry ::
  "(nat \<Rightarrow> kernel \<Rightarrow> kernel option) \<Rightarrow> (nat \<Rightarrow> tid \<Rightarrow> kernel \<Rightarrow> kernel option) \<Rightarrow> nat option list \<Rightarrow> kernel \<Rightarrow> heap \<Rightarrow>
     ((unit, (tid \<times> nat) \<times> tid) outcome \<times> kernel \<times> heap) option" where
  "rt_thread_idle_entry call cleanup hooks k h = do {
     k \<leftarrow> idle_hooks call hooks k;
     rt_thread_idle_excute cleanup k h
   }"

text \<open>\<open>idle\<close> is the thread \<^verbatim>\<open>idle[0]\<close>, \<open>entry\<close> the function \<^verbatim>\<open>rt_thread_idle_entry\<close>.\<close>

definition rt_thread_idle_init :: "tid \<Rightarrow> nat \<Rightarrow> nat \<Rightarrow> kernel \<Rightarrow> kernel option" where
  "rt_thread_idle_init idle entry stack k = do {
     (_, k) \<leftarrow> rt_thread_init idle ''tidle0'' entry 0 stack 256 31 32 k;
     (_, k) \<leftarrow> rt_thread_startup idle k;
     Some k
   }"

section \<open>Closing a thread\<close>

text \<open>The state behind the steps that \<^verbatim>\<open>rt_thread_delete\<close> and \<^verbatim>\<open>rt_thread_exit\<close> share.\<close>

definition close_thread :: "tid \<Rightarrow> kernel \<Rightarrow> kernel" where
  "close_thread t k =
     upd_thread t (\<lambda>th. th\<lparr>th_stat := RT_THREAD_CLOSE\<rparr>)
       (rt_object_detach (OTimer (Thread_Timer t)) (rt_timer_remove (Thread_Timer t)
         (if thread_stat k t \<noteq> RT_THREAD_INIT then rt_schedule_remove_thread t k else k)))"

lemma close_thread_lists:
  assumes "sched_inv k"
  shows "tlists (close_thread t k) l = removeAll t (tlists k l)"
proof -
  have "t \<notin> set (tlists k l)" if "thread_stat k t = RT_THREAD_INIT"
    using that assms sched_core_list_state [of "{}" k t l]
    by (auto simp: sched_inv_def list_state_def list_stat_def split: lid.splits)
  then show ?thesis by (simp add: close_thread_def rt_object_detach_def)
qed

lemma close_thread_reads [simp]:
  "threads (close_thread t k) = (threads k)(t := (threads k t)\<lparr>th_stat := RT_THREAD_CLOSE\<rparr>)"
  "rt_current_thread (close_thread t k) = rt_current_thread k"
  "thread_stat (close_thread t k) u = (if u = t then RT_THREAD_CLOSE else thread_stat k u)"
  "prio (close_thread t k) u = prio k u"
  "objs (close_thread t k) = (objs k)(OTimer (Thread_Timer t) := (objs k (OTimer (Thread_Timer t)))\<lparr>obj_type := 0\<rparr>)"
  "timers (close_thread t k) = timers k"
  "rt_interrupt_nest (close_thread t k) = rt_interrupt_nest k"
  "sems (close_thread t k) = sems k"
  "listed (close_thread t k) m \<longleftrightarrow> m \<noteq> Thread_Timer t \<and> listed k m"
  by (auto simp: close_thread_def rt_object_detach_def upd_obj_def object_list_remove_def rt_timer_remove_def
      rt_schedule_remove_thread_def tlist_remove_def upd_thread_def thread_stat_def prio_def listed_def Let_def)

lemma close_thread_core:
  assumes i: "sched_inv k" and t: "live k t \<or> thread_stat k t = RT_THREAD_INIT"
  shows "sched_core {t} (close_thread t k)"
proof -
  let ?k1 = "if thread_stat k t \<noteq> RT_THREAD_INIT then rt_schedule_remove_thread t k else k"
  from i have c: "sched_core {} k" by (simp add: sched_inv_def)
  have "sched_core {t} ?k1"
  proof (cases "thread_stat k t = RT_THREAD_INIT")
    case True
    then have "t \<notin> set (tlists k l)" for l
      using sched_core_list_state [OF c, of t l] by (auto simp: list_state_def list_stat_def split: lid.splits)
    with True sched_core_take_off [OF c] show ?thesis by simp
  next
    case False
    with t sched_core_mask [OF c, of t] sched_core_remove [OF c, of t] show ?thesis by simp
  qed
  then have "sched_core {t} (rt_object_detach (OTimer (Thread_Timer t)) (rt_timer_remove (Thread_Timer t) ?k1))"
    by (subst sched_core_cong [of _ ?k1]) (simp_all add: rt_object_detach_def)
  then show ?thesis unfolding close_thread_def by (rule sched_core_upd_off) simp
qed

lemma close_thread_timer_inv:
  assumes "timer_inv k"
  shows "timer_inv (close_thread t k)"
proof -
  let ?k = "close_thread t k"
  have ty: "rt_object_get_type ?k r = (if r = OTimer (Thread_Timer t) then 0 else rt_object_get_type k r)"
    "tm_flag ?k m = tm_flag k m" for r m
    by (simp_all add: rt_object_get_type_def tm_flag_def)
  have "set (rt_timer_list ?k) \<subseteq> set (rt_timer_list k)" "set (rt_soft_timer_list ?k) \<subseteq> set (rt_soft_timer_list k)"
    "distinct (rt_timer_list k) \<Longrightarrow> distinct (rt_timer_list ?k)"
    "distinct (rt_soft_timer_list k) \<Longrightarrow> distinct (rt_soft_timer_list ?k)"
    by (auto simp: close_thread_def rt_object_detach_def upd_obj_def object_list_remove_def rt_timer_remove_def
      rt_schedule_remove_thread_def tlist_remove_def upd_thread_def Let_def intro: distinct_removeAll)
  with assms have "timer_lists_ok ?k" unfolding timer_inv_def timer_lists_ok_def by (auto simp: ty)
  moreover have "live ?k u \<Longrightarrow> u \<noteq> t \<and> live k u" for u by (auto simp: live_def split: if_splits)
  ultimately show ?thesis using assms by (auto simp: timer_inv_def thread_timer_ok_def ty)
qed

text \<open>What is left of a thread that has been closed: it is on no list but that of the defunct threads, its timer is
  gone, nothing else has changed.\<close>

definition closed :: "tid \<Rightarrow> kernel \<Rightarrow> kernel \<Rightarrow> bool" where
  "closed t k k' \<longleftrightarrow>
     sched_inv k' \<and> timer_inv k' \<and> thread_stat k' t = RT_THREAD_CLOSE \<and> \<not> listed k' (Thread_Timer t) \<and>
     (\<forall>u. u \<noteq> t \<longrightarrow> prio k' u = prio k u) \<and>
     (\<forall>l. l \<noteq> LDefunct \<longrightarrow> (\<forall>p. l \<noteq> LReady p) \<longrightarrow> tlists k' l = removeAll t (tlists k l)) \<and>
     tlists k' LDefunct = t # tlists k LDefunct \<and>
     rt_object_get_type k' (OThread t) = RT_Object_Class_Thread \<and>
     rt_object_get_type k' (OTimer (Thread_Timer t)) = 0 \<and>
     (\<forall>u. u \<noteq> t \<longrightarrow> runnable k' u = runnable k u)"

lemma close_thread_defunct:
  assumes i: "sched_inv k" and ti: "timer_inv k" and t: "live k t \<or> thread_stat k t = RT_THREAD_INIT"
    and ty: "rt_object_get_type k (OThread t) = RT_Object_Class_Thread"
  shows "closed t k (tlist_push LDefunct t (close_thread t k))" (is "closed t k ?k'")
proof -
  let ?k = "close_thread t k"
  have "sched_core {} ?k'"
    by (rule sched_core_link [OF close_thread_core [OF i t], where l = LDefunct and as = "[]" and bs = "tlists ?k LDefunct"])
      (simp_all add: list_state_def list_stat_def live_def tlist_push_def)
  moreover have "current_ok ?k'"
    using i by (auto simp: sched_inv_def current_ok_def tlist_push_def thread_stat_def)
  moreover have "timer_inv ?k'"
    by (rule timer_inv_cong [OF _ _ _ close_thread_timer_inv [OF ti, of t]])
      (simp_all add: timers_same_def tlist_push_def live_def thread_stat_def)
  moreover have "t \<notin> set (tlists k LDefunct)"
    using t i sched_core_list_state [of "{}" k t LDefunct] by (auto simp: sched_inv_def list_state_def list_stat_def live_def)
  moreover have "thread_stat ?k' u = thread_stat ?k u" "listed ?k' m = listed ?k m"
    "prio ?k' u = prio ?k u" "objs ?k' = objs ?k" for u m
    by (simp_all add: tlist_push_def thread_stat_def listed_def prio_def)
  ultimately show ?thesis
    using ty close_thread_lists [OF i, of t] by (auto simp: closed_def sched_inv_def tlist_push_def runnable_def rt_object_get_type_def)
qed

lemma closed_resched:
  assumes c: "closed t k k1" and r: "resched k1 k2"
  shows "closed t k k2"
proof -
  note d = reschedD [OF r] and o = timers_sameD [OF reschedD(3) [OF r]]
  have "thread_stat k2 t = RT_THREAD_CLOSE" using c d(7) [of t] by (simp add: closed_def runnable_def)
  moreover have "prio k2 u = prio k1 u" for u using only_statD(7) [OF d(4)] .
  moreover have "timer_inv k2" using timer_inv_resched [OF r] c by (simp add: closed_def)
  ultimately show ?thesis using c d(1,5,6) o by (auto simp: closed_def listed_def rt_object_get_type_def)
qed

section \<open>Cleaning up\<close>

text \<open>The cleanup functions the guarantees are for: they return and work on the data of their thread only.\<close>

definition cleans :: "(nat \<Rightarrow> tid \<Rightarrow> kernel \<Rightarrow> kernel option) \<Rightarrow> bool" where
  "cleans cleanup \<longleftrightarrow> (\<forall>f t k. \<exists>u. cleanup f t k = Some (upd_thread t (\<lambda>th. th\<lparr>th_user_data := u\<rparr>) k))"

text \<open>What a step of the idle thread keeps while it removes thread \<open>t\<close>.\<close>

definition reaps :: "tid \<Rightarrow> kernel \<Rightarrow> kernel \<Rightarrow> bool" where
  "reaps t k k' \<longleftrightarrow>
     sched_inv k' \<and> timer_inv k' \<and> (rt_current_thread k' = None \<longleftrightarrow> rt_current_thread k = None) \<and>
     sems k' = sems k \<and> rt_interrupt_nest k' = rt_interrupt_nest k \<and>
     (\<forall>l. (\<forall>p. l \<noteq> LReady p) \<longrightarrow> tlists k' l = removeAll t (tlists k l)) \<and>
     (\<forall>u. th_stack_addr (threads k' u) = th_stack_addr (threads k u)) \<and>
     (\<forall>u. runnable k' u = runnable k u) \<and> (\<forall>u. \<not> runnable k u \<longrightarrow> thread_stat k' u = thread_stat k u) \<and>
     (\<forall>r. r \<noteq> OThread t \<longrightarrow> objs k' r = objs k r) \<and>
     (\<forall>c. set (object_list k' c) \<subseteq> set (object_list k c))"

lemma reaps_resched:
  assumes "reaps t k k1" "resched k1 k2"
  shows "reaps t k k2"
proof -
  note d = reschedD [OF assms(2)]
  have "th_stack_addr (threads k2 u) = th_stack_addr (threads k1 u)" for u
    using d(4) [unfolded only_stat_def, rule_format, of u] by (metis rt_thread.select_convs(3) rt_thread.surjective rt_thread.update_convs(6))
  then show ?thesis
    using assms(1) d(1,5,6,7,8) timer_inv_resched [OF assms(2)] timers_sameD(2) [OF d(3)] ipc_sameD(1,7,10) [OF d(2)]
    by (simp add: reaps_def)
qed

lemma reaps_off_list:
  assumes i: "sched_inv k" and ti: "timer_inv k" and st: "thread_stat k t = RT_THREAD_CLOSE"
  shows "reaps t k (tlist_remove t k)"
proof -
  from i have c: "sched_core {} k" "current_ok k" by (auto simp: sched_inv_def)
  have "sched_core {t} (tlist_remove t k)" by (rule sched_core_unlink [OF c(1)]) (simp add: st)
  then have "sched_core {} (tlist_remove t k)"
    by (rule sched_core_put_back) (simp_all add: thread_stat_def live_def st [unfolded thread_stat_def])
  moreover have "thread_stat (tlist_remove t k) u = thread_stat k u" for u by (simp add: thread_stat_def)
  moreover have "timer_inv (tlist_remove t k)"
    by (rule timer_inv_cong [OF _ _ _ ti]) (simp_all add: live_def thread_stat_def)
  ultimately show ?thesis
    using c(2) by (auto simp: reaps_def sched_inv_def current_ok_def runnable_def tlist_remove_def)
qed

lemma reaps_data:
  assumes "reaps t k k1"
  shows "reaps t k (upd_thread t (\<lambda>th. th\<lparr>th_user_data := u\<rparr>) k1)"
proof -
  let ?k = "upd_thread t (\<lambda>th. th\<lparr>th_user_data := u\<rparr>) k1"
  have st: "thread_stat ?k v = thread_stat k1 v" for v by (simp add: thread_stat_def)
  have "sched_inv ?k" using assms by (intro sched_inv_slice) (simp_all add: reaps_def)
  moreover have "timer_inv ?k"
    by (rule timer_inv_cong [of k1]) (use assms in \<open>simp_all add: reaps_def live_def st del: thread_stat_upd\<close>)
  ultimately show ?thesis using assms st by (simp add: reaps_def runnable_def upd_thread_def del: thread_stat_upd)
qed

lemma timer_inv_object:
  assumes ti: "timer_inv k" and t: "\<not> live k t" and k2: "k2 = object_list_remove (OThread t) (upd_obj (OThread t) f k)"
  shows "timer_inv k2"
proof -
  have rd: "thread_stat k2 u = thread_stat k u" "live k2 u = live k u" "listed k2 m = listed k m"
    "tm_flag k2 m = tm_flag k m" "timers k2 = timers k" "rt_timer_list k2 = rt_timer_list k"
    "rt_soft_timer_list k2 = rt_soft_timer_list k" "rt_object_get_type k2 (OTimer m) = rt_object_get_type k (OTimer m)" for u m
    by (simp_all add: k2 thread_stat_def live_def listed_def tm_flag_def object_list_remove_def upd_obj_def rt_object_get_type_def)
  have "thread_timer_ok k2 u = thread_timer_ok k u" if "live k u" for u
  proof -
    have "u \<noteq> t" using that t by auto
    then show ?thesis by (simp add: thread_timer_ok_def rd) (simp add: k2 rt_object_get_type_def)
  qed
  then show ?thesis using ti by (auto simp: timer_inv_def timer_lists_ok_def rd)
qed

lemma reaps_object:
  assumes "reaps t k k1" "thread_stat k t = RT_THREAD_CLOSE"
    and k2: "k2 = object_list_remove (OThread t) (upd_obj (OThread t) f k1)"
  shows "reaps t k k2"
proof -
  have "thread_stat k1 t = RT_THREAD_CLOSE" using assms(1,2) by (simp add: reaps_def runnable_def)
  then have "timer_inv k2" using assms(1) by (intro timer_inv_object [OF _ _ k2]) (simp_all add: reaps_def live_def)
  then show ?thesis
    using assms(1) by (auto simp: reaps_def k2 runnable_def thread_stat_def object_list_remove_def upd_obj_def)
qed

text \<open>Both outcomes of the locked part.\<close>

lemma idle_detach_step:
  assumes i: "sched_inv k" and ti: "timer_inv k" and st: "thread_stat k t = RT_THREAD_CLOSE" and cl: "cleans cleanup"
  obtains k' where "idle_detach cleanup t k = Some (if rt_object_is_systemobject k (OThread t) then None else Some t, k')"
    "reaps t k k'" "rt_object_is_systemobject k (OThread t) \<Longrightarrow>
       obj_type (objs k' (OThread t)) = 0 \<and> (\<forall>c. OThread t \<notin> set (object_list k' c))"
    "\<not> rt_object_is_systemobject k (OThread t) \<Longrightarrow> objs k' (OThread t) = objs k (OThread t)"
proof -
  let ?k1 = "rt_enter_critical (tlist_remove t k)"
  note r0 = reaps_off_list [OF i ti st]
  then have "sched_inv (tlist_remove t k)" by (simp add: reaps_def)
  then have r1: "reaps t k ?k1" by (rule reaps_resched [OF r0 rt_enter_critical_resched])
  have o1: "objs ?k1 = objs k" "object_list ?k1 = object_list k" by (simp_all add: rt_enter_critical_def tlist_remove_def)
  obtain k2 where k2: "(case th_cleanup (threads ?k1 t) of None \<Rightarrow> Some ?k1 | Some f \<Rightarrow> cleanup f t ?k1) = Some k2"
    "reaps t k k2" "objs k2 = objs k"
  proof (cases "th_cleanup (threads ?k1 t)")
    case None
    then show ?thesis using that r1 o1 by simp
  next
    case (Some f)
    obtain u where "cleanup f t ?k1 = Some (upd_thread t (\<lambda>th. th\<lparr>th_user_data := u\<rparr>) ?k1)"
      using cl unfolding cleans_def by blast
    then show ?thesis using that Some reaps_data [OF r1] o1 by (simp add: upd_thread_def)
  qed
  let ?k3 = "if rt_object_is_systemobject k (OThread t) then rt_object_detach (OThread t) k2 else k2"
  have r3: "reaps t k ?k3" using k2(2) reaps_object [OF k2(2) st] by (simp add: rt_object_detach_def)
  then obtain k' where k': "rt_exit_critical ?k3 = Some k'" "resched ?k3 k'"
    using rt_exit_critical_step [of ?k3] by (auto simp: reaps_def)
  have o: "objs k' = objs ?k3" "object_list k' = object_list ?k3"
    using timers_sameD(2) [OF reschedD(3) [OF k'(2)]] ipc_sameD(7) [OF reschedD(2) [OF k'(2)]] by simp_all
  have "rt_object_is_systemobject k2 (OThread t) = rt_object_is_systemobject k (OThread t)"
    using k2(3) by (simp add: rt_object_is_systemobject_def)
  then have "idle_detach cleanup t k = Some (if rt_object_is_systemobject k (OThread t) then None else Some t, k')"
    using k2(1) k'(1) by (simp add: idle_detach_def Let_def split: if_splits)
  then show ?thesis
    using that reaps_resched [OF r3 k'(2)] o k2(3) by (simp add: rt_object_detach_def)
qed

lemma reaps_heap_idle: "reaps t k k' \<Longrightarrow> t \<notin> set (tlists k (LSem (heap_sem h))) \<Longrightarrow> heap_idle k h \<Longrightarrow> heap_idle k' h"
  by (auto simp: reaps_def heap_idle_def rt_object_get_type_def)

lemma defunct_closed: "sched_inv k \<Longrightarrow> t \<in> set (tlists k LDefunct) \<Longrightarrow> thread_stat k t = RT_THREAD_CLOSE"
  using sched_core_list_state [of "{}" k t LDefunct] by (simp add: sched_inv_def list_state_def list_stat_def)

lemma closed_not_waiting: "sched_inv k \<Longrightarrow> thread_stat k t = RT_THREAD_CLOSE \<Longrightarrow> wait_list l \<Longrightarrow> t \<notin> set (tlists k l)"
  using sched_core_list_state [of "{}" k t l] by (auto simp: sched_inv_def list_state_def wait_list_def)

text \<open>What the idle thread needs, and what is left when it has removed the threads \<open>ds\<close>.\<close>

definition idle_ready :: "kernel \<Rightarrow> heap \<Rightarrow> (nat \<times> nat) set \<Rightarrow> bool" where
  "idle_ready k h L \<longleftrightarrow> sched_inv k \<and> timer_inv k \<and> heap_idle k h \<and> heap_rep h L"

definition gone :: "kernel \<Rightarrow> tid \<Rightarrow> bool" where
  "gone k t \<longleftrightarrow> obj_type (objs k (OThread t)) = 0 \<and> (\<forall>c. OThread t \<notin> set (object_list k c))"

text \<open>One thread of the heap: the round of the loop that removes it.\<close>

lemma idle_round:
  assumes r: "idle_ready k h L" and cl: "cleans cleanup" and d: "tlists k LDefunct = t # ds"
    and dyn: "\<not> rt_object_is_systemobject k (OThread t)"
    and st: "(th_stack_addr (threads k t), n) \<in> L" "th_stack_addr (threads k t) \<noteq> 0"
  obtains k' h' where "rt_thread_idle_excute cleanup k h = rt_thread_idle_excute cleanup k' h'"
    "idle_ready k' h' (L - {(th_stack_addr (threads k t), n)})" "reaps t k k'" "gone k' t"
proof -
  let ?a = "th_stack_addr (threads k t)"
  have cls: "thread_stat k t = RT_THREAD_CLOSE" using r d by (intro defunct_closed) (simp_all add: idle_ready_def)
  obtain k1 where k1: "idle_detach cleanup t k = Some (Some t, k1)" "reaps t k k1" "objs k1 (OThread t) = objs k (OThread t)"
    using idle_detach_step [OF _ _ cls cl] r dyn by (auto simp: idle_ready_def)
  have "t \<notin> set (tlists k (LSem (heap_sem h)))" using closed_not_waiting [OF _ cls] r by (simp add: idle_ready_def)
  then have idle: "heap_idle k1 h" using reaps_heap_idle [OF k1(2)] r by (simp add: idle_ready_def)
  obtain h' where h': "rt_free (Some ?a) k1 h = Some (Done (), k1, h')" "heap_frame h h'" "heap_rep h' (L - {(?a, n)})"
    using rt_free_rep [OF idle _ st(1)] r by (auto simp: idle_ready_def)
  let ?k2 = "object_list_remove (OThread t) (upd_obj (OThread t) (\<lambda>ob. ob\<lparr>obj_type := 0\<rparr>) k1)"
  have r2: "reaps t k ?k2" by (rule reaps_object [OF k1(2) cls]) simp
  have del: "rt_object_delete (OThread t) k1 = Some ?k2"
    using dyn k1(3) by (simp add: rt_object_delete_def rt_object_is_systemobject_def)
  have "stack_ptr k1 t = Some ?a" using k1(2) st(2) by (simp add: stack_ptr_def reaps_def)
  moreover have "rt_interrupt_nest k = 0" using r by (simp add: idle_ready_def heap_idle_def)
  ultimately have "rt_thread_idle_excute cleanup k h = rt_thread_idle_excute cleanup ?k2 h'"
    using d k1(1) h'(1) del by (subst rt_thread_idle_excute.simps) (simp add: rt_debug_not_in_interrupt_def)
  moreover have "heap_idle ?k2 h" using idle by (auto simp: heap_idle_def rt_object_get_type_def object_list_remove_def upd_obj_def)
  then have "idle_ready ?k2 h' (L - {(?a, n)})"
    using r2 heap_idle_frame [OF h'(2)] h'(3) by (simp add: idle_ready_def reaps_def)
  moreover have "gone ?k2 t" by (simp add: gone_def)
  ultimately show ?thesis using that r2 by blast
qed

definition reaped :: "tid set \<Rightarrow> kernel \<Rightarrow> kernel \<Rightarrow> bool" where
  "reaped D k k' \<longleftrightarrow>
     (\<forall>t \<in> D. gone k' t) \<and> (\<forall>t. gone k t \<longrightarrow> gone k' t) \<and> (\<forall>t. t \<notin> D \<longrightarrow> objs k' (OThread t) = objs k (OThread t)) \<and>
     (\<forall>t. runnable k' t = runnable k t) \<and> (\<forall>l. wait_list l \<longrightarrow> tlists k' l = tlists k l)"

lemma reaped_trans: "reaped D k k1 \<Longrightarrow> reaped E k1 k2 \<Longrightarrow> reaped (D \<union> E) k k2"
  by (simp add: reaped_def) blast

lemma reaps_reaped:
  assumes "sched_inv k" "thread_stat k t = RT_THREAD_CLOSE" "reaps t k k'" "gone k' t"
  shows "reaped {t} k k'"
proof -
  have "tlists k' l = tlists k l" if "wait_list l" for l
    using assms(3) wait_list_not_ready [OF that] closed_not_waiting [OF assms(1,2) that] by (simp add: reaps_def)
  moreover have "gone k' u" if "gone k u" for u
  proof (cases "u = t")
    case False
    then have "objs k' (OThread u) = objs k (OThread u)" "\<forall>c. set (object_list k' c) \<subseteq> set (object_list k c)"
      using assms(3) by (simp_all add: reaps_def)
    then show ?thesis using that unfolding gone_def by auto
  qed (use assms(4) in simp)
  ultimately show ?thesis using assms(3,4) by (auto simp: reaped_def reaps_def)
qed

lemma idle_excute_static:
  assumes r: "idle_ready k h L" and cl: "cleans cleanup" and d: "tlists k LDefunct = t # ds"
    and sys: "rt_object_is_systemobject k (OThread t)"
  shows "\<exists>k'. rt_thread_idle_excute cleanup k h = Some (Done (), k', h) \<and> idle_ready k' h L \<and> reaped {t} k k' \<and>
    tlists k' LDefunct = ds"
proof -
  have s: "sched_inv k" "timer_inv k" "rt_interrupt_nest k = 0" using r by (auto simp: idle_ready_def heap_idle_def)
  have cls: "thread_stat k t = RT_THREAD_CLOSE" using s(1) d by (intro defunct_closed) simp_all
  obtain k' where k': "idle_detach cleanup t k = Some (None, k')" "reaps t k k'" "gone k' t"
    using idle_detach_step [OF s(1,2) cls cl] sys by (auto simp: gone_def)
  have "rt_thread_idle_excute cleanup k h = Some (Done (), k', h)"
    using d k'(1) s(3) by (subst rt_thread_idle_excute.simps) (simp add: rt_debug_not_in_interrupt_def)
  moreover have "heap_idle k' h"
    using r closed_not_waiting [OF s(1) cls] by (intro reaps_heap_idle [OF k'(2)]) (simp_all add: idle_ready_def)
  moreover have "tlists k' LDefunct = ds"
    using k'(2) d s(1) sched_core_distinct [of "{}" k LDefunct] by (simp add: reaps_def sched_inv_def)
  ultimately show ?thesis
    using k'(2) r reaps_reaped [OF s(1) cls k'(2,3)] by (auto simp: idle_ready_def reaps_def)
qed

lemma idle_excute_reaps:
  assumes "idle_ready k h L" "cleans cleanup" "tlists k LDefunct = ds @ rest"
    and "\<forall>t \<in> set ds. \<not> rt_object_is_systemobject k (OThread t) \<and> addr t = th_stack_addr (threads k t) \<and>
      addr t \<noteq> 0 \<and> (addr t, len t) \<in> L"
    and "inj_on addr (set ds)" "rest = [] \<or> rt_object_is_systemobject k (OThread (hd rest))"
  shows "\<exists>k' h'. rt_thread_idle_excute cleanup k h = Some (Done (), k', h') \<and>
    idle_ready k' h' (L - (\<lambda>t. (addr t, len t)) ` set ds) \<and> reaped (set ds \<union> set (take 1 rest)) k k' \<and>
    tlists k' LDefunct = tl rest"
  using assms
proof (induction ds arbitrary: k h L)
  case Nil
  show ?case
  proof (cases rest)
    case Nil
    then show ?thesis using Nil.prems by (subst rt_thread_idle_excute.simps) (simp add: reaped_def)
  next
    case (Cons t rest')
    then show ?thesis using idle_excute_static [OF Nil.prems(1,2), of t rest'] Nil.prems by auto
  qed
next
  case (Cons t ds)
  have t: "\<not> rt_object_is_systemobject k (OThread t)" "addr t = th_stack_addr (threads k t)" "addr t \<noteq> 0" "(addr t, len t) \<in> L"
    using bspec [OF Cons.prems(4), of t] by auto
  have s: "sched_inv k" using Cons.prems(1) by (simp add: idle_ready_def)
  have dis: "distinct (t # ds @ rest)" using sched_core_distinct [of "{}" k LDefunct] s Cons.prems(3) by (simp add: sched_inv_def)
  obtain k1 h1 where k1: "rt_thread_idle_excute cleanup k h = rt_thread_idle_excute cleanup k1 h1"
    "idle_ready k1 h1 (L - {(addr t, len t)})" "reaps t k k1" "gone k1 t"
    using idle_round [OF Cons.prems(1,2), of t "ds @ rest" "len t"] Cons.prems(3) t by auto
  have rd: "reaped {t} k k1"
    using reaps_reaped [OF s _ k1(3,4)] defunct_closed [OF s] Cons.prems(3) by simp
  have sys: "rt_object_is_systemobject k1 (OThread u) = rt_object_is_systemobject k (OThread u)" if "u \<noteq> t" for u
    using rd that by (simp add: reaped_def rt_object_is_systemobject_def)
  have d1: "tlists k1 LDefunct = ds @ rest" using k1(3) Cons.prems(3) dis by (simp add: reaps_def)
  have m1: "\<forall>u \<in> set ds. \<not> rt_object_is_systemobject k1 (OThread u) \<and> addr u = th_stack_addr (threads k1 u) \<and>
      addr u \<noteq> 0 \<and> (addr u, len u) \<in> L - {(addr t, len t)}"
  proof
    fix u
    assume u: "u \<in> set ds"
    then have "u \<noteq> t" "addr u \<noteq> addr t" using dis inj_onD [OF Cons.prems(5), of u t] by auto
    moreover have "th_stack_addr (threads k1 u) = th_stack_addr (threads k u)" using k1(3) by (simp add: reaps_def)
    ultimately show "\<not> rt_object_is_systemobject k1 (OThread u) \<and> addr u = th_stack_addr (threads k1 u) \<and>
      addr u \<noteq> 0 \<and> (addr u, len u) \<in> L - {(addr t, len t)}"
      using bspec [OF Cons.prems(4), of u] u sys [of u] by auto
  qed
  have e1: "rest = [] \<or> rt_object_is_systemobject k1 (OThread (hd rest))"
    using Cons.prems(6) dis sys by (cases rest) auto
  have "inj_on addr (set ds)" using Cons.prems(5) by (rule inj_on_subset) auto
  from Cons.IH [OF k1(2) Cons.prems(2) d1 m1 this e1] obtain k' h' where k': "rt_thread_idle_excute cleanup k1 h1 = Some (Done (), k', h')"
    "idle_ready k' h' (L - {(addr t, len t)} - (\<lambda>t. (addr t, len t)) ` set ds)" "reaped (set ds \<union> set (take 1 rest)) k1 k'"
    "tlists k' LDefunct = tl rest"
    by blast
  have "L - {(addr t, len t)} - (\<lambda>t. (addr t, len t)) ` set ds = L - (\<lambda>t. (addr t, len t)) ` set (t # ds)" by auto
  with k' k1(1) reaped_trans [OF rd k'(3)] show ?case by (intro exI [of _ k'] exI [of _ h']) simp
qed

section \<open>Leaving a thread\<close>

text \<open>The state in which \<^verbatim>\<open>rt_thread_exit\<close> calls the scheduler.\<close>

definition exits_at_once :: "kernel \<Rightarrow> tid \<Rightarrow> bool" where
  "exits_at_once k t \<longleftrightarrow> rt_object_is_systemobject k (OThread t) \<and> th_cleanup (threads k t) = None"

definition exit_state :: "tid \<Rightarrow> kernel \<Rightarrow> kernel" where
  "exit_state t k =
     (if exits_at_once k t then rt_object_detach (OThread t) (close_thread t k)
      else tlist_push LDefunct t (close_thread t k))"

lemma rt_thread_exit_run:
  assumes "rt_current_thread k = Some t" "thread_stat k t = RT_THREAD_RUNNING"
    and "rt_object_get_type k (OTimer (Thread_Timer t)) = RT_Object_Class_Timer"
      "rt_object_is_systemobject k (OTimer (Thread_Timer t))"
  shows "rt_thread_exit k = rt_schedule (exit_state t k)"
proof -
  let ?f = "\<lambda>th :: rt_thread. th\<lparr>th_stat := RT_THREAD_CLOSE\<rparr>"
  have "rt_timer_detach (Thread_Timer t) (upd_thread t ?f (rt_schedule_remove_thread t k)) = Some (RT_EOK, close_thread t k)"
    using assms
    by (simp add: rt_timer_detach_def close_thread_def rt_schedule_remove_thread_def tlist_remove_def upd_thread_def
        rt_object_detach_def rt_timer_remove_def object_list_remove_def upd_obj_def rt_object_is_systemobject_def
        rt_object_get_type_def Let_def)
  then show ?thesis
    using assms(1)
    by (simp add: rt_thread_exit_def exit_state_def exits_at_once_def rt_thread_self_def rt_object_is_systemobject_def Let_def)
qed

lemma exit_state_reads [simp]:
  "rt_current_thread (exit_state t k) = rt_current_thread k"
  "thread_stat (exit_state t k) u = (if u = t then RT_THREAD_CLOSE else thread_stat k u)"
  "rt_scheduler_lock_nest (exit_state t k) = rt_scheduler_lock_nest k"
  by (simp_all add: exit_state_def tlist_push_def rt_object_detach_def thread_stat_def close_thread_def object_list_remove_def
      upd_obj_def rt_timer_remove_def rt_schedule_remove_thread_def tlist_remove_def upd_thread_def Let_def)

lemma close_thread_inv:
  assumes "sched_inv k" "live k t"
  shows "sched_inv (close_thread t k)"
proof -
  have "sched_core {} (close_thread t k)"
    by (rule sched_core_put_back [OF close_thread_core [OF assms(1)]]) (use assms(2) in \<open>simp_all add: live_def\<close>)
  moreover have "current_ok (close_thread t k)" using assms(1) by (auto simp: sched_inv_def current_ok_def)
  ultimately show ?thesis by (simp add: sched_inv_def)
qed

lemma exit_state_inv:
  assumes "sched_inv k" "timer_inv k" "live k t"
  shows "sched_inv (exit_state t k)" "timer_inv (exit_state t k)" "\<not> exits_at_once k t \<Longrightarrow> closed t k (exit_state t k)"
proof -
  have "rt_object_get_type k (OThread t) = RT_Object_Class_Thread"
    using live_timer_ok [OF assms(2,3)] by (simp add: thread_timer_ok_def)
  then have cl: "closed t k (tlist_push LDefunct t (close_thread t k))"
    using close_thread_defunct [OF assms(1,2)] assms(3) by blast
  have "timer_inv (rt_object_detach (OThread t) (close_thread t k))"
    by (rule timer_inv_object [OF close_thread_timer_inv [OF assms(2), of t]]) (simp_all add: live_def rt_object_detach_def)
  then show "timer_inv (exit_state t k)" using cl by (simp add: exit_state_def closed_def)
  show "sched_inv (exit_state t k)"
    using cl rt_object_detach_inv(1) [OF close_thread_inv [OF assms(1,3)]] by (simp add: exit_state_def closed_def)
  show "closed t k (exit_state t k)" if "\<not> exits_at_once k t" using cl that by (simp add: exit_state_def)
qed

lemma exit_removes:
  assumes "sched_inv k" "live k t" "exits_at_once k t" "resched (exit_state t k) k'"
  shows "gone k' t" "t \<notin> set (tlists k' l)"
proof -
  note d = reschedD [OF assms(4)]
  show "gone k' t"
    using assms(3) timers_sameD(2) [OF d(3)] ipc_sameD(7) [OF d(2)] by (simp add: gone_def exit_state_def rt_object_detach_def)
  have st: "thread_stat k' t = RT_THREAD_CLOSE" using d(7) [of t] by (simp add: runnable_def)
  show "t \<notin> set (tlists k' l)"
  proof (cases "\<exists>p. l = LReady p")
    case True
    with st d(1) sched_core_list_state [of "{}" k' t l] show ?thesis by (auto simp: sched_inv_def list_state_def list_stat_def)
  next
    case False
    with d(5) [of l] assms(3) close_thread_lists [OF assms(1), of t l] show ?thesis
      by (simp add: exit_state_def rt_object_detach_def)
  qed
qed

text \<open>A thread that \<^verbatim>\<open>rt_thread_delete\<close> accepts: from the heap, started or new, with its timer in place.\<close>

definition deletable :: "kernel \<Rightarrow> tid \<Rightarrow> bool" where
  "deletable k t \<longleftrightarrow>
     (live k t \<or> thread_stat k t = RT_THREAD_INIT) \<and>
     rt_object_get_type k (OThread t) = RT_Object_Class_Thread \<and> \<not> rt_object_is_systemobject k (OThread t) \<and>
     rt_object_get_type k (OTimer (Thread_Timer t)) = RT_Object_Class_Timer \<and>
     rt_object_is_systemobject k (OTimer (Thread_Timer t))"

lemma rt_thread_delete_run:
  "deletable k t \<Longrightarrow> rt_thread_delete t k = Some (RT_EOK, tlist_push LDefunct t (close_thread t k))"
  by (simp add: deletable_def rt_thread_delete_def rt_timer_detach_def close_thread_def rt_object_is_systemobject_def Let_def
      rt_schedule_remove_thread_def tlist_remove_def rt_object_get_type_def)

section \<open>Properties\<close>

text \<open>\<^verbatim>\<open>rt_thread_delete\<close> of a thread from the heap, started or not, returns: the thread is closed and first on the list of
  the defunct threads, it has left every other list, its timer is stopped and gone, all other threads and the
  invariants are kept. Deleting it once more stops at an assertion.\<close>

theorem rt_thread_delete_ok:
  assumes "sched_inv k" "timer_inv k" "deletable k t"
  shows "\<exists>k'. rt_thread_delete t k = Some (RT_EOK, k') \<and> closed t k k' \<and> rt_thread_delete t k' = None"
proof -
  let ?k' = "tlist_push LDefunct t (close_thread t k)"
  have c: "closed t k ?k'" using close_thread_defunct [OF assms(1,2)] assms(3) by (simp add: deletable_def)
  then have "rt_timer_detach (Thread_Timer t) k1 = None" if "objs k1 = objs ?k'" for k1
    using that by (simp add: rt_timer_detach_def closed_def rt_object_get_type_def)
  then have "rt_thread_delete t ?k' = None"
    by (simp add: rt_thread_delete_def Let_def rt_schedule_remove_thread_def tlist_remove_def)
  with c rt_thread_delete_run [OF assms(3)] show ?thesis by blast
qed

text \<open>The example: thread 3 of the example system comes from the heap, its stack is the allocated region of the example heap.\<close>

definition demo_heap_thread :: kernel where
  "demo_heap_thread = upd_obj (OThread 3) (\<lambda>ob. ob\<lparr>obj_type := RT_Object_Class_Thread\<rparr>)
     (upd_thread 3 (\<lambda>th. th\<lparr>th_stack_addr := 0x2000000c, th_cleanup := Some 7\<rparr>) demo_heap_kernel)"

lemma demo_heap_thread_ready: "idle_ready demo_heap_thread demo_heap {(0x2000000c, 12)}"
proof -
  have "sched_inv demo_heap_thread"
    unfolding demo_heap_thread_def demo_heap_kernel_def obj_sched_inv by (rule sched_inv_slice) (simp_all add: demo_kernel_inv)
  moreover have "rt_timer_list demo_heap_thread = []" "rt_soft_timer_list demo_heap_thread = []"
    by (simp_all add: demo_heap_thread_def demo_heap_kernel_def upd_thread_def) (simp_all add: demo_simps)
  then have "timer_lists_ok demo_heap_thread" "\<not> listed demo_heap_thread m" for m
    by (simp_all add: timer_lists_ok_def listed_def)
  moreover have "thread_timer_ok demo_heap_thread t" for t
    using demo_thread_timer_ok [of t]
    by (cases "t = 3") (simp_all add: thread_timer_ok_def demo_heap_thread_def demo_heap_kernel_def rt_object_get_type_def
        tm_flag_def upd_thread_def)
  ultimately have "sched_inv demo_heap_thread" "timer_inv demo_heap_thread" by (simp_all add: timer_inv_def)
  moreover have "heap_idle demo_heap_thread demo_heap"
    using demo_heap_idle by (simp add: heap_idle_def demo_heap_thread_def rt_object_get_type_def)
      (simp add: upd_thread_def upd_obj_def)
  ultimately show ?thesis using demo_heap_rep by (simp add: idle_ready_def)
qed

lemma demo_heap_thread_deletable: "deletable demo_heap_thread 3"
  by (simp add: deletable_def demo_heap_thread_def demo_heap_kernel_def rt_object_get_type_def rt_object_is_systemobject_def
      live_def upd_thread_def) (simp add: demo_simps oref_class_def)

theorem rt_thread_delete_ok_witness:
  "\<exists>k'. rt_thread_delete 3 demo_heap_thread = Some (RT_EOK, k') \<and> tlists k' LDefunct = [3] \<and> thread_stat k' 3 = RT_THREAD_CLOSE"
proof -
  have "tlists demo_heap_thread LDefunct = []" by (simp add: demo_heap_thread_def demo_heap_kernel_def) (simp add: demo_simps)
  then show ?thesis
    using rt_thread_delete_ok [OF _ _ demo_heap_thread_deletable] demo_heap_thread_ready by (auto simp: idle_ready_def closed_def)
qed



text \<open>The running thread that calls \<^verbatim>\<open>rt_thread_exit\<close> is closed. A static thread without a cleanup function is removed at
  once; any other waits on the list of the defunct threads for the idle thread. With another thread ready the
  processor goes to one of them.\<close>

theorem rt_thread_exit_ok:
  assumes "sched_inv k" "timer_inv k" "rt_current_thread k = Some t" "thread_stat k t = RT_THREAD_RUNNING"
    and "rt_object_get_type k (OTimer (Thread_Timer t)) = RT_Object_Class_Timer"
      "rt_object_is_systemobject k (OTimer (Thread_Timer t))"
  shows "\<exists>k'. rt_thread_exit k = Some k' \<and> sched_inv k' \<and> timer_inv k' \<and> thread_stat k' t = RT_THREAD_CLOSE \<and>
    (if rt_object_is_systemobject k (OThread t) \<and> th_cleanup (threads k t) = None
     then gone k' t \<and> (\<forall>l. t \<notin> set (tlists k' l)) else closed t k k') \<and>
    (rt_scheduler_lock_nest k = 0 \<longrightarrow> (\<exists>r. thread_stat k r = RT_THREAD_READY) \<longrightarrow> rt_current_thread k' \<noteq> Some t)"
proof -
  have live: "live k t" using assms(4) by (simp add: live_def)
  note inv = exit_state_inv [OF assms(1,2) live]
  obtain k' where k': "rt_schedule (exit_state t k) = Some k'" "resched (exit_state t k) k'"
    using rt_schedule_step [OF inv(1)] assms(3) by auto
  have st: "thread_stat k' t = RT_THREAD_CLOSE" using reschedD(7) [OF k'(2), of t] by (simp add: runnable_def)
  have "rt_current_thread k' \<noteq> Some t" if l: "rt_scheduler_lock_nest k = 0" and r: "thread_stat k r = RT_THREAD_READY" for r
  proof (rule current_runs_highest [OF k'(1) inv(1)])
    show "rt_scheduler_lock_nest (exit_state t k) = 0" using l by simp
    have "thread_stat (exit_state t k) r = RT_THREAD_READY" using r assms(4) by auto
    then show "rt_thread_ready_priority_group (exit_state t k) \<noteq> 0" using ready_group inv(1) by (auto simp: sched_inv_def)
    show "rt_current_thread k' \<noteq> Some t" if "rt_current_thread k' = Some c" "thread_stat k' c = RT_THREAD_RUNNING" for c
      using that st by auto
  qed
  moreover have "if exits_at_once k t then gone k' t \<and> (\<forall>l. t \<notin> set (tlists k' l)) else closed t k k'"
    using exit_removes [OF assms(1) live _ k'(2)] closed_resched [OF inv(3) k'(2)] by simp
  ultimately show ?thesis
    using rt_thread_exit_run [OF assms(3-6)] k'(1) st reschedD(1) [OF k'(2)] timer_inv_resched [OF k'(2) inv(2)]
    unfolding exits_at_once_def by auto
qed

theorem rt_thread_exit_ok_witness:
  "\<exists>k'. rt_thread_exit demo_kernel = Some k' \<and> thread_stat k' 1 = RT_THREAD_CLOSE \<and> gone k' 1 \<and> rt_current_thread k' \<noteq> Some 1"
proof -
  have "rt_current_thread demo_kernel = Some 1" "thread_stat demo_kernel 1 = RT_THREAD_RUNNING"
    "rt_object_get_type demo_kernel (OTimer (Thread_Timer 1)) = RT_Object_Class_Timer"
    "rt_object_is_systemobject demo_kernel (OTimer (Thread_Timer 1))" "rt_object_is_systemobject demo_kernel (OThread 1)"
    "th_cleanup (threads demo_kernel 1) = None" "rt_scheduler_lock_nest demo_kernel = 0" "thread_stat demo_kernel 2 = RT_THREAD_READY"
    by (simp_all add: demo_simps rt_object_get_type_def rt_object_is_systemobject_def oref_class_def)
  with rt_thread_exit_ok [OF demo_kernel_inv demo_timer_inv this(1-4)] show ?thesis by auto
qed

text \<open>One call of \<^verbatim>\<open>rt_thread_idle_excute\<close> removes the defunct threads from the heap up to and including the first static
  thread, and returns there: the threads behind it stay defunct until the next call, although the comment at the loop
  says that one call does all the cleanups. The stacks of the removed heap threads are free, all waiting lists are as
  they were.\<close>

theorem rt_thread_idle_excute_stops_at_static:
  assumes "idle_ready k h L" "cleans cleanup" "tlists k LDefunct = ds @ s # rest"
    and "\<forall>t \<in> set ds. \<not> rt_object_is_systemobject k (OThread t) \<and> addr t = th_stack_addr (threads k t) \<and>
      addr t \<noteq> 0 \<and> (addr t, len t) \<in> L"
    and "inj_on addr (set ds)" "rt_object_is_systemobject k (OThread s)"
  shows "\<exists>k' h'. rt_thread_idle_excute cleanup k h = Some (Done (), k', h') \<and>
    tlists k' LDefunct = rest \<and> (\<forall>t \<in> set (ds @ [s]). gone k' t) \<and> (\<forall>t \<in> set rest. objs k' (OThread t) = objs k (OThread t)) \<and>
    idle_ready k' h' (L - (\<lambda>t. (addr t, len t)) ` set ds) \<and> (\<forall>l. wait_list l \<longrightarrow> tlists k' l = tlists k l)"
proof -
  have "distinct (ds @ s # rest)"
    using sched_core_distinct [of "{}" k LDefunct] assms(1,3) by (simp add: idle_ready_def sched_inv_def)
  moreover obtain k' h' where "rt_thread_idle_excute cleanup k h = Some (Done (), k', h')"
    "idle_ready k' h' (L - (\<lambda>t. (addr t, len t)) ` set ds)" "reaped (set ds \<union> set (take 1 (s # rest))) k k'"
    "tlists k' LDefunct = tl (s # rest)"
    using idle_excute_reaps [OF assms(1-5)] assms(6) by auto
  ultimately show ?thesis by (intro exI [of _ k'] exI [of _ h']) (auto simp: reaped_def)
qed

text \<open>The example: the static threads 5 and 6 are defunct.\<close>

definition demo_defunct :: kernel where
  "demo_defunct = tlist_push LDefunct 5 (close_thread 5 (tlist_push LDefunct 6 (close_thread 6 demo_heap_kernel)))"

lemma demo_defunct_ready: "idle_ready demo_defunct demo_heap {(0x2000000c, 12)}" "tlists demo_defunct LDefunct = [5, 6]"
proof -
  let ?k = "tlist_push LDefunct 6 (close_thread 6 demo_heap_kernel)"
  have k: "sched_inv demo_heap_kernel" "timer_inv demo_heap_kernel" "tlists demo_heap_kernel LDefunct = []"
    "rt_object_get_type demo_heap_kernel (OThread t) = RT_Object_Class_Thread"
    "thread_stat demo_heap_kernel 5 = RT_THREAD_INIT" "thread_stat demo_heap_kernel 6 = RT_THREAD_INIT" for t
    using demo_kernel_inv timer_inv_write [OF _ _ demo_timer_inv]
    by (simp_all add: demo_heap_kernel_def timers_same_def) (simp_all add: demo_simps rt_object_get_type_def oref_class_def)
  have c: "closed 6 demo_heap_kernel ?k" using close_thread_defunct [OF k(1,2) _ k(4)] k(6) by blast
  have "thread_stat ?k 5 = RT_THREAD_INIT" "rt_object_get_type ?k (OThread 5) = RT_Object_Class_Thread"
    using k(4,5) by (simp_all add: tlist_push_def thread_stat_def rt_object_get_type_def)
  then have d: "closed 5 ?k demo_defunct"
    unfolding demo_defunct_def using close_thread_defunct [of ?k 5] c by (simp add: closed_def)
  show "tlists demo_defunct LDefunct = [5, 6]" using c d k(3) by (simp add: closed_def)
  have "heap_idle demo_defunct demo_heap"
    using c d demo_heap_idle
    by (simp add: heap_idle_def closed_def) (simp add: demo_defunct_def tlist_push_def rt_object_get_type_def)
  then show "idle_ready demo_defunct demo_heap {(0x2000000c, 12)}"
    using d demo_heap_rep by (simp add: idle_ready_def closed_def)
qed

theorem rt_thread_idle_excute_stops_at_static_witness:
  "\<exists>k' h'. rt_thread_idle_excute (\<lambda>f t k. Some (upd_thread t (\<lambda>th. th\<lparr>th_user_data := 0\<rparr>) k)) demo_defunct demo_heap =
     Some (Done (), k', h') \<and> tlists k' LDefunct = [6] \<and> gone k' 5"
proof -
  have c: "cleans (\<lambda>f t k. Some (upd_thread t (\<lambda>th. th\<lparr>th_user_data := 0\<rparr>) k))" by (auto simp: cleans_def)
  have "rt_object_is_systemobject demo_defunct (OThread 5)"
    by (simp add: demo_defunct_def tlist_push_def rt_object_is_systemobject_def demo_heap_kernel_def) (simp add: demo_simps)
  then show ?thesis
    using rt_thread_idle_excute_stops_at_static [OF demo_defunct_ready(1) c, of "[]" 5 "[6]"] demo_defunct_ready(2) by auto
qed

section \<open>Hooks\<close>

lemma hook_replace_first: "x \<notin> set a \<Longrightarrow> hook_replace x y (a @ x # b) = Some (a @ y # b)"
  by (induction a) auto

lemma hook_replace_none: "x \<notin> set hs \<Longrightarrow> hook_replace x y hs = None"
  by (induction hs) auto

text \<open>The list of idle hooks. Setting a hook fails with \<^verbatim>\<open>-RT_EFULL\<close> exactly when no slot is free, and changes nothing
  then; a hook that was set is found by \<^verbatim>\<open>rt_thread_idle_delhook\<close>, and when it was not set before, deleting it restores
  the list.\<close>

theorem idle_hook_roundtrip:
  assumes "f \<notin> set hs" "f \<noteq> None"
  shows "(case rt_thread_idle_sethook f hs of
      (r, hs') \<Rightarrow> (r = RT_EOK \<longleftrightarrow> None \<in> set hs) \<and> (r \<noteq> RT_EOK \<longrightarrow> r = - RT_EFULL \<and> hs' = hs) \<and> length hs' = length hs \<and>
        (r = RT_EOK \<longrightarrow> f \<in> set hs' \<and> rt_thread_idle_delhook f hs' = (RT_EOK, hs)))"
proof (cases "None \<in> set hs")
  case True
  then obtain a b where hs: "hs = a @ None # b" "None \<notin> set a" by (meson split_list_first)
  with assms show ?thesis
    by (simp add: rt_thread_idle_sethook_def rt_thread_idle_delhook_def hook_replace_first)
qed (simp add: rt_thread_idle_sethook_def hook_replace_none)

theorem idle_hook_roundtrip_witness:
  "rt_thread_idle_delhook (Some 7) (snd (rt_thread_idle_sethook (Some 7) [Some 1, None, None, None])) = (RT_EOK, [Some 1, None, None, None])"
  using idle_hook_roundtrip [of "Some 7" "[Some 1, None, None, None]"] by (auto split: prod.splits)

end
