(* ===== verification/Startup.thy ===== *)
theory Startup
  imports Idle
begin

text \<open>
  The start of the system (\<^verbatim>\<open>src/components.c\<close>): from the state after the initialisation of the board to the first thread
  on the processor. The functions that the linker collects in the initialisation table are lists of state
  transformers; the initialisation of the board is a parameter.
\<close>

section \<open>Operations\<close>

definition rt_components_board_init :: "(kernel \<Rightarrow> kernel option) list \<Rightarrow> kernel \<Rightarrow> kernel option" where
  "rt_components_board_init fns = iterM (\<lambda>fn. fn) fns"

definition rt_components_init :: "(kernel \<Rightarrow> kernel option) list \<Rightarrow> kernel \<Rightarrow> kernel option" where
  "rt_components_init fns = iterM (\<lambda>fn. fn) fns"

definition main_thread_entry :: "(kernel \<Rightarrow> kernel option) list \<Rightarrow> (kernel \<Rightarrow> kernel option) \<Rightarrow> kernel \<Rightarrow> kernel option" where
  "main_thread_entry fns main k = do {
     k \<leftarrow> rt_components_init fns k;
     main k
   }"

text \<open>\<open>mem\<close> and \<open>stack_mem\<close> are the results of the allocations for the thread and its stack.\<close>

definition rt_application_init :: "nat \<Rightarrow> tid option \<Rightarrow> nat option \<Rightarrow> kernel \<Rightarrow> kernel option" where
  "rt_application_init entry mem stack_mem k = do {
     (tid, k) \<leftarrow> rt_thread_create ''main'' entry 0 2048 10 20 mem stack_mem k;
     t \<leftarrow> tid;
     (_, k) \<leftarrow> rt_thread_startup t k;
     Some k
   }"

text \<open>Where the threads of the system are: the results of the allocations, the entry functions and the static stacks.\<close>

record boot_config =
  main_entry :: nat
  main_mem :: "tid option"
  main_stack :: "nat option"
  timer_entry :: nat
  timer_stack :: nat
  idle_thread :: tid
  idle_entry :: nat
  idle_stack :: nat

definition rtthread_startup :: "(kernel \<Rightarrow> kernel option) \<Rightarrow> boot_config \<Rightarrow> kernel \<Rightarrow> kernel option" where
  "rtthread_startup rt_hw_board_init cf k = do {
     k \<leftarrow> rt_hw_board_init k;
     let k = rt_system_timer_init k;
     let k = rt_system_scheduler_init k;
     k \<leftarrow> rt_application_init (main_entry cf) (main_mem cf) (main_stack cf) k;
     k \<leftarrow> rt_system_timer_thread_init (timer_entry cf) (timer_stack cf) k;
     k \<leftarrow> rt_thread_idle_init (idle_thread cf) (idle_entry cf) (idle_stack cf) k;
     rt_system_scheduler_start k
   }"

section \<open>Before the scheduler runs\<close>

definition boot_inv :: "kernel \<Rightarrow> bool" where
  "boot_inv k \<longleftrightarrow>
     sched_inv k \<and> (\<forall>t. live k t \<longrightarrow> thread_timer_ok k t) \<and> rt_timer_list k = [] \<and> rt_soft_timer_list k = [] \<and>
     rt_current_thread k = None \<and> rt_scheduler_lock_nest k = 0 \<and> rt_interrupt_nest k = 0"

lemma boot_invD:
  assumes "boot_inv k"
  shows "sched_inv k" "timer_inv k" "rt_current_thread k = None" "rt_scheduler_lock_nest k = 0"
  using assms by (auto simp: boot_inv_def timer_inv_def timer_lists_ok_def listed_def)

text \<open>A thread that can still be created: it has never been started and its objects are not registered.\<close>

definition unborn :: "kernel \<Rightarrow> tid \<Rightarrow> bool" where
  "unborn k t \<longleftrightarrow>
     thread_stat k t = RT_THREAD_INIT \<and> OThread t \<notin> set (object_list k RT_Object_Class_Thread) \<and>
     OTimer (Thread_Timer t) \<notin> set (object_list k RT_Object_Class_Timer)"

text \<open>Creating threads concerns no object but threads and timers.\<close>

definition ipc_kept :: "kernel \<Rightarrow> kernel \<Rightarrow> bool" where
  "ipc_kept k k' \<longleftrightarrow>
     sems k' = sems k \<and> mailboxes k' = mailboxes k \<and> msgqueues k' = msgqueues k \<and>
     (\<forall>r. (\<forall>t. r \<noteq> OThread t) \<longrightarrow> (\<forall>m. r \<noteq> OTimer m) \<longrightarrow> objs k' r = objs k r)"

lemma ipc_kept_trans [trans]: "ipc_kept k k1 \<Longrightarrow> ipc_kept k1 k' \<Longrightarrow> ipc_kept k k'"
  by (simp add: ipc_kept_def)

lemma ipc_same_kept: "ipc_same k k' \<Longrightarrow> ipc_kept k k'"
  by (simp add: ipc_kept_def ipc_same_def)

text \<open>What creating and starting \<open>t\<close> changes: nothing of the other threads.\<close>

definition born :: "tid \<Rightarrow> nat \<Rightarrow> kernel \<Rightarrow> kernel \<Rightarrow> bool" where
  "born t p k k' \<longleftrightarrow>
     boot_inv k' \<and> thread_stat k' t = RT_THREAD_READY \<and> prio k' t = p \<and> timer_thread k' = timer_thread k \<and>
     (\<forall>u. u \<noteq> t \<longrightarrow> thread_stat k' u = thread_stat k u \<and> prio k' u = prio k u \<and> unborn k' u = unborn k u) \<and>
     ipc_kept k k'"

lemma boot_critical: "rt_scheduler_lock_nest k = 0 \<Longrightarrow> rt_current_thread k = None \<Longrightarrow> rt_exit_critical (rt_enter_critical k) = Some k"
  by (cases k) (simp add: rt_exit_critical_def rt_enter_critical_def Let_def)

lemma boot_object_init:
  assumes "rt_scheduler_lock_nest k = 0" "rt_current_thread k = None" "ty \<in> set rt_object_container" "r \<notin> set (object_list k ty)"
  shows "rt_object_init r ty name k =
    Some (object_list_push ty r (upd_obj r (\<lambda>ob. ob\<lparr>obj_type := ty OR RT_Object_Class_Static, obj_name := rt_strncpy_name name\<rparr>) k))"
proof -
  have "object_list (rt_enter_critical k) = object_list k" by (simp add: rt_enter_critical_def)
  with assms boot_critical [of k] show ?thesis by (auto simp: rt_object_init_def get_information_eq)
qed

lemma init_on_no_list: "sched_inv k \<Longrightarrow> thread_stat k t = RT_THREAD_INIT \<Longrightarrow> t \<notin> set (tlists k l)"
  using sched_core_list_state [of "{}" k t l] by (auto simp: sched_inv_def list_state_def list_stat_def split: lid.splits)

lemma sched_inv_init_upd:
  assumes "sched_inv k" "thread_stat k t = RT_THREAD_INIT" "th_stat (f (threads k t)) AND 7 = 0"
  shows "sched_inv (upd_thread t f k)"
proof -
  have "sched_core {t} k" using sched_core_take_off [of "{}" k t] init_on_no_list [OF assms(1,2)] assms(1) by (simp add: sched_inv_def)
  then have "sched_core {t} (upd_thread t f k)" by (rule sched_core_upd_off) simp
  then have "sched_core {} (upd_thread t f k)" by (rule sched_core_put_back) (simp_all add: assms(3) live_def)
  moreover have "current_ok (upd_thread t f k)" using assms by (auto simp: sched_inv_def current_ok_def)
  ultimately show ?thesis by (simp add: sched_inv_def)
qed

text \<open>The state behind \<^verbatim>\<open>_rt_thread_init\<close> before the scheduler runs.\<close>

definition new_thread :: "tid \<Rightarrow> (rt_thread \<Rightarrow> rt_thread) \<Rightarrow> kernel \<Rightarrow> kernel" where
  "new_thread t f k =
     rt_timer_init_body (Thread_Timer t) Rt_thread_timeout t 0 RT_TIMER_FLAG_ONE_SHOT
       (object_list_push RT_Object_Class_Timer (OTimer (Thread_Timer t))
         (upd_obj (OTimer (Thread_Timer t)) (\<lambda>ob. ob\<lparr>obj_type := RT_Object_Class_Timer OR RT_Object_Class_Static,
            obj_name := rt_strncpy_name (obj_name (objs k (OThread t)))\<rparr>) (upd_thread t f k)))"

lemma new_thread_reads [simp]:
  "threads (new_thread t f k) = (threads k)(t := f (threads k t))" "tlists (new_thread t f k) = tlists k"
  "rt_thread_ready_priority_group (new_thread t f k) = rt_thread_ready_priority_group k"
  "rt_current_thread (new_thread t f k) = rt_current_thread k" "rt_scheduler_lock_nest (new_thread t f k) = rt_scheduler_lock_nest k"
  "rt_interrupt_nest (new_thread t f k) = rt_interrupt_nest k" "timer_thread (new_thread t f k) = timer_thread k"
  "rt_timer_list (new_thread t f k) = rt_timer_list k" "rt_soft_timer_list (new_thread t f k) = rt_soft_timer_list k"
  "r \<noteq> OTimer (Thread_Timer t) \<Longrightarrow> objs (new_thread t f k) r = objs k r"
  "m \<noteq> Thread_Timer t \<Longrightarrow> timers (new_thread t f k) m = timers k m"
  "object_list (new_thread t f k) = (object_list k)(RT_Object_Class_Timer := OTimer (Thread_Timer t) # object_list k RT_Object_Class_Timer)"
  by (simp_all add: new_thread_def rt_timer_init_body_def set_flag_def upd_obj_def object_list_push_def upd_thread_def upd_timer_def Let_def)

lemma new_thread_kept: "ipc_kept k (new_thread t f k)"
  by (simp add: ipc_kept_def)
    (simp add: new_thread_def rt_timer_init_body_def set_flag_def upd_obj_def object_list_push_def upd_thread_def upd_timer_def Let_def)

lemma new_thread_timer:
  "obj_type (objs (new_thread t f k) (OTimer (Thread_Timer t))) = RT_Object_Class_Timer OR RT_Object_Class_Static"
  "tm_flag (new_thread t f k) (Thread_Timer t) = 0"
  "tm_timeout_func (timers (new_thread t f k) (Thread_Timer t)) = Rt_thread_timeout"
  "tm_parameter (timers (new_thread t f k) (Thread_Timer t)) = t"
  by (simp_all add: new_thread_def rt_timer_init_body_def set_flag_def tm_flag_def upd_obj_def object_list_push_def upd_thread_def
      upd_timer_def Let_def)

lemma new_thread_prepared:
  assumes b: "boot_inv k" and t: "thread_stat k t = RT_THREAD_INIT" "rt_object_get_type k (OThread t) = RT_Object_Class_Thread"
    and f: "th_stat (f (threads k t)) = RT_THREAD_INIT" "unat (th_init_priority (f (threads k t))) < 32"
  shows "boot_inv (new_thread t f k)" "prepared (new_thread t f k) t"
proof -
  let ?k = "new_thread t f k"
  have st: "thread_stat ?k u = thread_stat k u" for u using t(1) f(1) by (simp add: thread_stat_def)
  have s: "sched_inv ?k"
    using sched_inv_init_upd [OF boot_invD(1) [OF b] t(1), of f] f(1) sched_inv_cong [of ?k "upd_thread t f k"] by simp
  have ok: "thread_timer_ok ?k t"
    using t(2) new_thread_timer [of t f k] by (simp add: thread_timer_ok_def rt_object_get_type_def tm_flag_def)
  have "thread_timer_ok ?k u" if "live ?k u" for u
  proof (cases "u = t")
    case False
    have "live k u" using that st by (simp add: live_def)
    then have "thread_timer_ok k u" using b by (simp add: boot_inv_def)
    with False show ?thesis by (simp add: thread_timer_ok_def rt_object_get_type_def tm_flag_def)
  qed (use ok in simp)
  then show "boot_inv ?k" using b s by (simp add: boot_inv_def)
  show "prepared ?k t"
    using s ok b st t(1) f(2) init_on_no_list [OF s, of t] by (simp add: prepared_def boot_inv_def listed_def)
qed

lemma boot_init_body:
  assumes b: "boot_inv k" and t: "OTimer (Thread_Timer t) \<notin> set (object_list k RT_Object_Class_Timer)" and p: "unat p < 32"
  obtains f where "rt_thread_init_body t e a stack len p tick k = Some (RT_EOK, new_thread t f k)"
    "\<And>th. th_stat (f th) = RT_THREAD_INIT" "\<And>th. th_init_priority (f th) = p"
proof -
  let ?g = "\<lambda>th. th\<lparr>th_entry := e, th_parameter := a, th_stack_addr := stack, th_stack_size := len\<rparr>"
  let ?h = "\<lambda>th. th\<lparr>th_init_priority := p, th_current_priority := p, th_number_mask := 0, th_init_tick := tick,
      th_remaining_tick := tick, th_error := RT_EOK, th_stat := RT_THREAD_INIT, th_cleanup := None, th_user_data := 0\<rparr>"
  let ?f = "\<lambda>th. ?h (?g th)"
  have u: "upd_thread t ?h (upd_thread t ?g k) = upd_thread t ?f k" by (simp add: upd_thread_def)
  have "rt_scheduler_lock_nest (upd_thread t ?f k) = 0" "rt_current_thread (upd_thread t ?f k) = None"
    "OTimer (Thread_Timer t) \<notin> set (object_list (upd_thread t ?f k) RT_Object_Class_Timer)"
    using b t by (simp_all add: boot_inv_def) (simp add: upd_thread_def)
  then have "rt_thread_init_body t e a stack len p tick k = Some (RT_EOK, new_thread t ?f k)"
    using p boot_object_init [of "upd_thread t ?f k" RT_Object_Class_Timer]
    by (simp add: rt_thread_init_body_def rt_timer_init_def new_thread_def u Let_def rt_object_container_def)
      (simp add: upd_thread_def)
  then show ?thesis by (rule that) simp_all
qed

lemma insert_thread_timers:
  "rt_timer_list (rt_schedule_insert_thread t k) = rt_timer_list k"
  "rt_soft_timer_list (rt_schedule_insert_thread t k) = rt_soft_timer_list k"
  "rt_scheduler_lock_nest (rt_schedule_insert_thread t k) = rt_scheduler_lock_nest k"
  by (simp_all add: rt_schedule_insert_thread_def upd_thread_def tlist_append_def Let_def)

lemma rt_thread_resume_timers:
  assumes "rt_thread_resume t k = Some (r, k')"
  shows "rt_timer_list k = [] \<Longrightarrow> rt_timer_list k' = []" "rt_soft_timer_list k = [] \<Longrightarrow> rt_soft_timer_list k' = []"
    "rt_scheduler_lock_nest k' = rt_scheduler_lock_nest k"
proof -
  have "rt_timer_list (tlist_remove t k) = rt_timer_list k" "rt_soft_timer_list (tlist_remove t k) = rt_soft_timer_list k"
    "rt_scheduler_lock_nest (tlist_remove t k) = rt_scheduler_lock_nest k" by (simp_all add: tlist_remove_def)
  with assms show "rt_timer_list k = [] \<Longrightarrow> rt_timer_list k' = []" "rt_soft_timer_list k = [] \<Longrightarrow> rt_soft_timer_list k' = []"
    "rt_scheduler_lock_nest k' = rt_scheduler_lock_nest k"
    by (auto simp: rt_thread_resume_def rt_timer_stop_def insert_thread_timers Let_def split: if_splits)
qed

lemma boot_startup:
  assumes b: "boot_inv k" and p: "prepared k t"
  obtains k' where "rt_thread_startup t k = Some (RT_EOK, k')" "born t (unat (th_init_priority (threads k t))) k k'"
proof -
  let ?k1 = "upd_thread t (\<lambda>th. th\<lparr>th_stat := RT_THREAD_SUSPEND\<rparr>)
      (upd_thread t (\<lambda>th. th\<lparr>th_number_mask := push_bit (unat (th_current_priority th)) 1\<rparr>)
        (upd_thread t (\<lambda>th. th\<lparr>th_current_priority := th_init_priority th\<rparr>) k))"
  note st = startup_state [OF boot_invD(1,2) [OF b] p]
  obtain k2 where k2: "rt_thread_resume t ?k1 = Some (RT_EOK, k2)" "woken t ?k1 k2"
    using rt_thread_resume_step [OF st(1-3)] by blast
  note w = wokenD [OF k2(2)] and fr = ipc_sameD [OF wokenD(3) [OF k2(2)]]
  have cur: "rt_current_thread k2 = None" using w(8) b by (simp add: boot_inv_def)
  have pr: "thread_stat k t = 0" "rt_object_get_type k (OThread t) = 1" using p by (simp_all add: prepared_def thread_timer_ok_def)
  have "rt_timer_list k2 = []" "rt_soft_timer_list k2 = []" "rt_scheduler_lock_nest k2 = 0"
    using rt_thread_resume_timers [OF k2(1)] b by (simp_all add: boot_inv_def) (simp_all add: upd_thread_def)
  moreover have "rt_interrupt_nest k2 = 0" using fr(10) b by (simp add: boot_inv_def upd_thread_def)
  ultimately have "boot_inv k2" using w(1,2) cur by (simp add: boot_inv_def timer_invD)
  moreover have "thread_stat k2 t = RT_THREAD_READY"
    using w(1,5) cur by (auto simp: runnable_def sched_inv_def dest: current_ok_running)
  moreover have "prio k2 u = prio ?k1 u" for u using only_statD(7) [OF w(4)] .
  moreover have "object_list k2 = object_list k" "timer_thread k2 = timer_thread k" using fr(7,8) by (simp_all add: upd_thread_def)
  moreover have "ipc_kept k k2" using ipc_same_kept [OF w(3)] by (simp add: ipc_kept_def upd_thread_def)
  ultimately have "born t (unat (th_init_priority (threads k t))) k k2"
    using w(6) st(4) by (simp add: born_def unborn_def thread_stat_def prio_def)
  moreover have "rt_thread_startup t k = Some (RT_EOK, k2)"
    using k2(1) pr cur by (simp add: rt_thread_startup_def rt_thread_self_def Let_def)
  ultimately show ?thesis using that by blast
qed

text \<open>A registered object for thread \<open>t\<close>, and everything that creates and starts it from there.\<close>

definition registered :: "tid \<Rightarrow> kernel \<Rightarrow> kernel \<Rightarrow> bool" where
  "registered t k k' \<longleftrightarrow>
     boot_inv k' \<and> thread_stat k' t = RT_THREAD_INIT \<and> rt_object_get_type k' (OThread t) = RT_Object_Class_Thread \<and>
     OTimer (Thread_Timer t) \<notin> set (object_list k' RT_Object_Class_Timer) \<and> timer_thread k' = timer_thread k \<and>
     (\<forall>u. u \<noteq> t \<longrightarrow> thread_stat k' u = thread_stat k u \<and> prio k' u = prio k u \<and> unborn k' u = unborn k u) \<and>
     ipc_kept k k'"

lemma boot_thread:
  assumes r: "registered t k k0" and p: "unat p < 32"
  obtains k1 k' where "rt_thread_init_body t e a stack len p tick k0 = Some (RT_EOK, k1)"
    "rt_thread_startup t k1 = Some (RT_EOK, k')" "born t (unat p) k k'" "timer_thread k1 = timer_thread k"
proof -
  obtain f where f: "rt_thread_init_body t e a stack len p tick k0 = Some (RT_EOK, new_thread t f k0)"
    "\<And>th. th_stat (f th) = RT_THREAD_INIT" "\<And>th. th_init_priority (f th) = p"
    using boot_init_body [of k0 t p e a stack len tick] r p by (auto simp: registered_def)
  let ?k1 = "new_thread t f k0"
  have k1: "boot_inv ?k1" "prepared ?k1 t" using new_thread_prepared [of k0 t f] r f(2,3) p by (auto simp: registered_def)
  obtain k' where k': "rt_thread_startup t ?k1 = Some (RT_EOK, k')" "born t (unat p) ?k1 k'"
    using boot_startup [OF k1] f(3) by auto
  have "thread_stat ?k1 u = thread_stat k0 u \<and> prio ?k1 u = prio k0 u \<and> unborn ?k1 u = unborn k0 u" if "u \<noteq> t" for u
    using that by (simp add: unborn_def thread_stat_def prio_def)
  moreover have "ipc_kept k k'"
    using ipc_kept_trans [OF _ ipc_kept_trans [OF new_thread_kept [of k0 t f]], of k k'] k'(2) r by (simp add: born_def registered_def)
  ultimately have "born t (unat p) k k'" using k'(2) r by (simp add: born_def registered_def)
  with f(1) k' r that show ?thesis by (simp add: registered_def)
qed

lemma registered_static:
  assumes "boot_inv k" "unborn k t"
  shows "registered t k (object_list_push RT_Object_Class_Thread (OThread t) (upd_obj (OThread t)
    (\<lambda>ob. ob\<lparr>obj_type := RT_Object_Class_Thread OR RT_Object_Class_Static, obj_name := name\<rparr>) k))" (is "registered t k ?k")
proof -
  have st: "thread_stat ?k u = thread_stat k u" "prio ?k u = prio k u" for u by (simp_all add: thread_stat_def prio_def)
  have "\<not> live k t" using assms(2) by (simp add: unborn_def live_def)
  then have "thread_timer_ok ?k u" if "live k u" for u
    using that assms(1) by (auto simp: boot_inv_def thread_timer_ok_def rt_object_get_type_def tm_flag_def object_list_push_def upd_obj_def)
  then have "boot_inv ?k"
    using assms(1) st by (auto simp: boot_inv_def live_def object_list_push_def upd_obj_def)
  with assms(2) st show ?thesis
    by (simp add: registered_def unborn_def rt_object_get_type_def) (simp add: object_list_push_def upd_obj_def ipc_kept_def)
qed

lemma registered_dynamic:
  assumes "boot_inv k" "unborn k t"
  shows "registered t k (object_list_push RT_Object_Class_Thread (OThread t) (upd_obj (OThread t)
    (\<lambda>ob. ob\<lparr>obj_type := RT_Object_Class_Thread, obj_flag := 0, obj_name := name\<rparr>) (zero_object (OThread t) k)))" (is "registered t k ?k")
proof -
  have th: "threads ?k = (threads k)(t := zero_thread)" by (simp add: zero_object_def)
  have st: "thread_stat ?k u = thread_stat k u" "u \<noteq> t \<Longrightarrow> prio ?k u = prio k u" for u
    using assms(2) th by (simp_all add: thread_stat_def prio_def unborn_def zero_thread_def)
  have "sched_inv (upd_thread t (\<lambda>_. zero_thread) k)"
    using assms by (intro sched_inv_init_upd) (simp_all add: boot_inv_def unborn_def zero_thread_def)
  then have s: "sched_inv ?k" by (subst sched_inv_cong [of _ "upd_thread t (\<lambda>_. zero_thread) k"]) (simp_all add: zero_object_def)
  have "\<not> live k t" using assms(2) by (simp add: unborn_def live_def)
  then have "thread_timer_ok ?k u" if "live k u" for u
    using that assms(1)
    by (auto simp: boot_inv_def thread_timer_ok_def rt_object_get_type_def tm_flag_def object_list_push_def upd_obj_def zero_object_def
        upd_timer_def upd_thread_def)
  then have "boot_inv ?k"
    using assms(1) st(1) s by (auto simp: boot_inv_def live_def object_list_push_def upd_obj_def zero_object_def upd_timer_def upd_thread_def)
  with assms(2) st show ?thesis
    by (simp add: registered_def unborn_def rt_object_get_type_def)
      (simp add: object_list_push_def upd_obj_def zero_object_def upd_timer_def upd_thread_def ipc_kept_def)
qed

lemma scheduler_start_frames:
  assumes "sched_inv k" "rt_system_scheduler_start k = Some k'" "rt_current_thread k' = Some c"
  shows "thread_stat k c = RT_THREAD_READY" "u \<noteq> c \<Longrightarrow> thread_stat k' u = thread_stat k u" "prio k' u = prio k u" "timers_same k k'"
    "rt_scheduler_lock_nest k' = rt_scheduler_lock_nest k" "rt_interrupt_nest k' = rt_interrupt_nest k" "ipc_kept k k'"
proof -
  obtain hp where h: "get_highest_priority_thread k = Some (c, hp)"
    "k' = upd_thread c (\<lambda>th. th\<lparr>th_stat := RT_THREAD_RUNNING\<rparr>) (rt_schedule_remove_thread c (k\<lparr>rt_current_thread := Some c\<rparr>))"
    using assms(2,3) by (auto simp: rt_system_scheduler_start_def Let_def split: Option.bind_splits)
  then have "c \<in> set (tlists k (LReady hp))" by (auto simp: get_highest_priority_thread_def Let_def split: list.splits)
  then show "thread_stat k c = RT_THREAD_READY"
    using assms(1) sched_core_list_state [of "{}" k c] by (auto simp: sched_inv_def list_state_def list_stat_def)
  show "prio k' u = prio k u" "u \<noteq> c \<Longrightarrow> thread_stat k' u = thread_stat k u" using h(2) by (simp_all add: prio_def thread_stat_def)
  show "timers_same k k'" "rt_scheduler_lock_nest k' = rt_scheduler_lock_nest k" "rt_interrupt_nest k' = rt_interrupt_nest k" "ipc_kept k k'"
    using h(2) by (simp_all add: timers_same_def ipc_kept_def upd_thread_def rt_schedule_remove_thread_def tlist_remove_def Let_def)
qed

section \<open>The running system\<close>

text \<open>What the initialisation of the board must leave: no thread has been started and no list of threads is in use.\<close>

definition board_ok :: "kernel \<Rightarrow> bool" where
  "board_ok k \<longleftrightarrow>
     (\<forall>t. thread_stat k t = RT_THREAD_INIT) \<and> (\<forall>l. (\<forall>p < 32. l \<noteq> LReady p) \<longrightarrow> tlists k l = []) \<and>
     rt_soft_timer_list k = [] \<and> rt_current_thread k = None \<and> rt_interrupt_nest k = 0"

lemma boot_inits:
  assumes "board_ok k"
  defines "k1 \<equiv> rt_system_scheduler_init (rt_system_timer_init k)"
  shows "boot_inv k1" "thread_stat k1 t = RT_THREAD_INIT" "unborn k1 t = unborn k t" "timer_thread k1 = timer_thread k"
    "ipc_kept k k1"
proof -
  have st: "thread_stat k1 u = RT_THREAD_INIT" for u
    using assms(1) by (simp add: k1_def rt_system_scheduler_init_def rt_system_timer_init_def thread_stat_def board_ok_def)
  have "sched_inv k1"
    unfolding k1_def using assms(1)
    by (intro rt_system_scheduler_init_inv) (auto simp: rt_system_timer_init_def board_ok_def thread_stat_def)
  then show "boot_inv k1"
    using assms(1) st
    by (simp add: boot_inv_def live_def) (simp add: k1_def rt_system_scheduler_init_def rt_system_timer_init_def board_ok_def)
  show "thread_stat k1 t = RT_THREAD_INIT" by (rule st)
  show "unborn k1 t = unborn k t" "timer_thread k1 = timer_thread k" "ipc_kept k k1"
    by (simp_all add: unborn_def ipc_kept_def k1_def rt_system_scheduler_init_def rt_system_timer_init_def thread_stat_def)
qed

lemma rt_application_init_step:
  assumes "boot_inv k" "unborn k t"
  obtains k' where "rt_application_init e (Some t) (Some s) k = Some k'" "born t 10 k k'"
proof -
  let ?k0 = "object_list_push RT_Object_Class_Thread (OThread t) (upd_obj (OThread t)
    (\<lambda>ob. ob\<lparr>obj_type := RT_Object_Class_Thread, obj_flag := 0, obj_name := rt_strncpy_name ''main''\<rparr>) (zero_object (OThread t) k))"
  have al: "rt_object_allocate RT_Object_Class_Thread ''main'' (Some (OThread t)) k = Some (Some (OThread t), ?k0)"
    using assms(1) by (simp add: rt_object_allocate_def rt_debug_not_in_interrupt_def boot_inv_def get_information_eq rt_object_container_def Let_def)
  obtain k1 k' where "rt_thread_init_body t e 0 s 2048 10 20 ?k0 = Some (RT_EOK, k1)" "rt_thread_startup t k1 = Some (RT_EOK, k')"
    "born t (unat (10 :: u8)) k k'"
    by (rule boot_thread [OF registered_dynamic [OF assms, of "rt_strncpy_name ''main''"], of 10 e 0 s 2048 20]) auto
  with al that show ?thesis by (simp add: rt_application_init_def rt_thread_create_def)
qed

lemma boot_static_thread:
  assumes "boot_inv k" "unborn k t" "stack \<noteq> 0" "unat p < 32"
  obtains k1 k' where "rt_thread_init t name e a stack len p tick k = Some (RT_EOK, k1)" "rt_thread_startup t k1 = Some (RT_EOK, k')"
    "born t (unat p) k k'" "timer_thread k1 = timer_thread k"
proof -
  obtain k1 k' where "rt_thread_init_body t e a stack len p tick (object_list_push RT_Object_Class_Thread (OThread t) (upd_obj (OThread t)
      (\<lambda>ob. ob\<lparr>obj_type := RT_Object_Class_Thread OR RT_Object_Class_Static, obj_name := rt_strncpy_name name\<rparr>) k)) = Some (RT_EOK, k1)"
    "rt_thread_startup t k1 = Some (RT_EOK, k')" "born t (unat p) k k'" "timer_thread k1 = timer_thread k"
    using boot_thread [OF registered_static [OF assms(1,2)] assms(4)] by blast
  moreover have "rt_object_init (OThread t) RT_Object_Class_Thread name k = Some (object_list_push RT_Object_Class_Thread (OThread t) (upd_obj (OThread t)
      (\<lambda>ob. ob\<lparr>obj_type := RT_Object_Class_Thread OR RT_Object_Class_Static, obj_name := rt_strncpy_name name\<rparr>) k))"
    using assms(1,2) by (intro boot_object_init) (simp_all add: boot_inv_def unborn_def rt_object_container_def)
  ultimately show ?thesis using that assms(3) by (simp add: rt_thread_init_def)
qed

lemma bornD:
  assumes "born t p k k'"
  shows "boot_inv k'" "thread_stat k' t = RT_THREAD_READY" "prio k' t = p" "timer_thread k' = timer_thread k"
    "u \<noteq> t \<Longrightarrow> thread_stat k' u = thread_stat k u" "u \<noteq> t \<Longrightarrow> prio k' u = prio k u" "u \<noteq> t \<Longrightarrow> unborn k' u = unborn k u"
    "ipc_kept k k'"
  using assms by (simp_all add: born_def)

text \<open>The three threads of the system, ready to run.\<close>

lemma boot_threads:
  assumes k: "boot_inv k" "\<And>t. thread_stat k t = RT_THREAD_INIT"
    and d: "distinct [m, timer_thread k, idle_thread cf]" "unborn k m" "unborn k (timer_thread k)" "unborn k (idle_thread cf)"
    and st: "timer_stack cf \<noteq> 0" "idle_stack cf \<noteq> 0"
  obtains k1 k2 k3 where "rt_application_init e (Some m) (Some s) k = Some k1"
    "rt_system_timer_thread_init (timer_entry cf) (timer_stack cf) k1 = Some k2"
    "rt_thread_idle_init (idle_thread cf) (idle_entry cf) (idle_stack cf) k2 = Some k3" "boot_inv k3"
    "thread_stat k3 = (\<lambda>t. if t \<in> {m, timer_thread k, idle_thread cf} then RT_THREAD_READY else RT_THREAD_INIT)"
    "prio k3 m = 10" "prio k3 (timer_thread k) = 4" "prio k3 (idle_thread cf) = 31" "ipc_kept k k3"
proof -
  let ?w = "timer_thread k" and ?i = "idle_thread cf"
  obtain k1 where k1: "rt_application_init e (Some m) (Some s) k = Some k1" "born m 10 k k1"
    using rt_application_init_step [OF k(1) d(2)] by blast
  note b1 = bornD [OF k1(2)]
  have "rt_soft_timer_list k1 = []" using b1(1) by (simp add: boot_inv_def)
  then have soft: "k1\<lparr>rt_soft_timer_list := []\<rparr> = k1" by (cases k1) simp
  obtain a k2 where k2: "rt_thread_init ?w ''timer'' (timer_entry cf) 0 (timer_stack cf) 512 4 10 k1 = Some (RT_EOK, a)"
    "rt_thread_startup ?w a = Some (RT_EOK, k2)" "born ?w (unat (4 :: u8)) k1 k2" "timer_thread a = ?w"
    by (rule boot_static_thread [OF b1(1) _ st(1), of ?w 4 "''timer''" "timer_entry cf" 0 512 10]) (use b1(4,7) d in auto)
  note b2 = bornD [OF k2(3)]
  obtain b k3 where k3: "rt_thread_init ?i ''tidle0'' (idle_entry cf) 0 (idle_stack cf) 256 31 32 k2 = Some (RT_EOK, b)"
    "rt_thread_startup ?i b = Some (RT_EOK, k3)" "born ?i (unat (31 :: u8)) k2 k3"
    by (rule boot_static_thread [OF b2(1) _ st(2), of ?i 31 "''tidle0''" "idle_entry cf" 0 256 32]) (use b1(7) b2(7) d in auto)
  note b3 = bornD [OF k3(3)]
  have "rt_system_timer_thread_init (timer_entry cf) (timer_stack cf) k1 = Some k2"
    using k2(1,2,4) b1(4) soft by (simp add: rt_system_timer_thread_init_def)
  moreover have "rt_thread_idle_init ?i (idle_entry cf) (idle_stack cf) k2 = Some k3" using k3(1,2) by (simp add: rt_thread_idle_init_def)
  moreover have "thread_stat k3 t = (if t \<in> {m, ?w, ?i} then RT_THREAD_READY else RT_THREAD_INIT)" for t
    using b1(2,5) b2(2,5) b3(2,5) k(2) d(1) by (cases "t = ?i"; cases "t = ?w"; cases "t = m") simp_all
  moreover have "prio k3 m = 10" "prio k3 ?w = 4" "prio k3 ?i = 31" using b1(3) b2(3,6) b3(3,6) d(1) by simp_all
  ultimately show ?thesis
    using that k1(1) b3(1) ipc_kept_trans [OF b1(8) ipc_kept_trans [OF b2(8) b3(8)]] by (simp add: fun_eq_iff)
qed

lemma rtthread_startup_step:
  assumes "board k0 = Some k" "board_ok k" "main_mem cf = Some m" "main_stack cf = Some s"
    and "distinct [m, timer_thread k, idle_thread cf]" "\<forall>t \<in> {m, timer_thread k, idle_thread cf}. unborn k t"
    and "timer_stack cf \<noteq> 0" "idle_stack cf \<noteq> 0"
  shows "\<exists>k'. rtthread_startup board cf k0 = Some k' \<and> base_inv k' \<and> in_thread k' (timer_thread k) \<and>
    (\<forall>t. thread_stat k' t = RT_THREAD_READY \<longleftrightarrow> t = m \<or> t = idle_thread cf) \<and>
    (\<forall>t. t \<notin> {m, timer_thread k, idle_thread cf} \<longrightarrow> thread_stat k' t = RT_THREAD_INIT) \<and>
    prio k' (timer_thread k) = 4 \<and> prio k' m = 10 \<and> prio k' (idle_thread cf) = 31 \<and>
    rt_timer_list k' = [] \<and> rt_soft_timer_list k' = [] \<and> rt_scheduler_lock_nest k' = 0 \<and> ipc_kept k k'"
proof -
  let ?w = "timer_thread k" and ?i = "idle_thread cf" and ?k = "rt_system_scheduler_init (rt_system_timer_init k)"
  note b = boot_inits [OF assms(2)]
  obtain k1 k2 k3 where s: "rt_application_init (main_entry cf) (Some m) (Some s) ?k = Some k1"
    "rt_system_timer_thread_init (timer_entry cf) (timer_stack cf) k1 = Some k2"
    "rt_thread_idle_init ?i (idle_entry cf) (idle_stack cf) k2 = Some k3" "boot_inv k3"
    "thread_stat k3 = (\<lambda>t. if t \<in> {m, ?w, ?i} then RT_THREAD_READY else RT_THREAD_INIT)"
    "prio k3 m = 10" "prio k3 ?w = 4" "prio k3 ?i = 31" "ipc_kept ?k k3"
    by (rule boot_threads [OF b(1,2), of m cf "main_entry cf" s]) (use assms(5-8) b(3,4) in auto)
  have rdy: "thread_stat k3 ?w = RT_THREAD_READY" using s(5) by simp
  obtain k' c where k': "rt_system_scheduler_start k3 = Some k'" "sched_inv k'" "rt_current_thread k' = Some c"
    "thread_stat k' c = RT_THREAD_RUNNING" "prio k' c \<le> prio k' ?w"
    using rt_system_scheduler_start_ok [OF boot_invD(1,3) [OF s(4)] rdy] by blast
  note f = scheduler_start_frames [OF boot_invD(1) [OF s(4)] k'(1,3)]
  have c: "c = ?w" using f(1,3) k'(5) s(5-8) by (auto split: if_splits)
  have "timer_inv k'"
    using timer_inv_cong [OF f(4) _ _ boot_invD(2) [OF s(4)]] f(1,2) boot_invD [OF s(4)] s(4)
    by (metis boot_inv_def empty_iff live_def insert_iff list.set(1) listed_def)
  then have "base_inv k'" using k'(2,3) by (simp add: base_inv_def)
  moreover have "rtthread_startup board cf k0 = Some k'"
    using assms(1,3,4) s(1-3) k'(1) by (simp add: rtthread_startup_def Let_def)
  moreover have "thread_stat k' t = (if t = ?w then RT_THREAD_RUNNING else thread_stat k3 t)" for t
    using f(2) k'(4) c by simp
  ultimately show ?thesis
    using ipc_kept_trans [OF b(5) ipc_kept_trans [OF s(9) f(7)]] s f(3,5,6) timers_sameD(3,4) [OF f(4)] k'(3) c assms(5) by (simp add: in_thread_def boot_inv_def)
qed

text \<open>The system starts. When the board has been initialised and the memory for the main thread is there,
  \<^verbatim>\<open>rtthread_startup\<close> hands the processor to the timer thread, with the main thread and the idle thread ready and no other
  thread started; all the invariants on which the rest of the development relies hold in this state.\<close>

theorem rtthread_startup_ok:
  assumes "board k0 = Some k" "board_ok k" "main_mem cf = Some m" "main_stack cf = Some s"
    and "distinct [m, timer_thread k, idle_thread cf]" "\<forall>t \<in> {m, timer_thread k, idle_thread cf}. unborn k t"
    and "timer_stack cf \<noteq> 0" "idle_stack cf \<noteq> 0"
  shows "\<exists>k'. rtthread_startup board cf k0 = Some k' \<and> base_inv k' \<and> in_thread k' (timer_thread k) \<and>
    (\<forall>t. thread_stat k' t = RT_THREAD_READY \<longleftrightarrow> t = m \<or> t = idle_thread cf) \<and>
    (\<forall>t. t \<notin> {m, timer_thread k, idle_thread cf} \<longrightarrow> thread_stat k' t = RT_THREAD_INIT) \<and>
    prio k' (timer_thread k) = 4 \<and> prio k' m = 10 \<and> prio k' (idle_thread cf) = 31 \<and>
    rt_timer_list k' = [] \<and> rt_soft_timer_list k' = [] \<and> rt_scheduler_lock_nest k' = 0"
  using rtthread_startup_step [of board k0 k, OF assms] by blast

definition demo_config :: boot_config where
  "demo_config = \<lparr>main_entry = 1, main_mem = Some 2, main_stack = Some 0x20000100, timer_entry = 2, timer_stack = 0x20001000,
     idle_thread = 1, idle_entry = 3, idle_stack = 0x20002000\<rparr>"

theorem rtthread_startup_ok_witness:
  "\<exists>k'. rtthread_startup Some demo_config zero_kernel = Some k' \<and> base_inv k' \<and> in_thread k' 0 \<and> thread_stat k' 2 = RT_THREAD_READY"
proof -
  have "board_ok zero_kernel" by (simp add: board_ok_def thread_stat_def) (simp add: zero_kernel_def zero_thread_def)
  moreover have "unborn zero_kernel t" "timer_thread zero_kernel = 0" for t
    by (simp_all add: unborn_def thread_stat_def) (simp_all add: zero_kernel_def zero_thread_def)
  ultimately show ?thesis
    using rtthread_startup_ok [of Some zero_kernel zero_kernel demo_config 2 "0x20000100"] by (auto simp: demo_config_def)
qed

end
