(* ===== verification/Mutex.thy ===== *)
theory Mutex
  imports Semaphore
begin

text \<open>
  Mutexes with priority inheritance (\<^verbatim>\<open>rt_mutex_*\<close> of \<^verbatim>\<open>src/ipc.c\<close>): the refinement of an abstract
  recursive lock with a queue of waiters, the inheritance of priorities and where it goes wrong.
\<close>

section \<open>Operations\<close>

definition upd_mutex :: "nat \<Rightarrow> (rt_mutex \<Rightarrow> rt_mutex) \<Rightarrow> kernel \<Rightarrow> kernel" where
  "upd_mutex m f k = k\<lparr>mutexes := (mutexes k)(m := f (mutexes k m))\<rparr>"

definition mutex_fields_init :: "nat \<Rightarrow> u8 \<Rightarrow> kernel \<Rightarrow> kernel" where
  "mutex_fields_init m flag k =
     (let k = rt_ipc_object_init (LMutex m) k;
          k = upd_mutex m (\<lambda>_. \<lparr>mtx_value = 1, mtx_original_priority = 0xFF, mtx_hold = 0, mtx_owner = None\<rparr>) k
      in upd_obj (OMutex m) (\<lambda>ob. ob\<lparr>obj_flag := flag\<rparr>) k)"

definition rt_mutex_init :: "nat \<Rightarrow> string \<Rightarrow> u8 \<Rightarrow> kernel \<Rightarrow> (rt_err_t \<times> kernel) option" where
  "rt_mutex_init m name flag k = do {
     k \<leftarrow> rt_object_init (OMutex m) RT_Object_Class_Mutex name k;
     Some (RT_EOK, mutex_fields_init m flag k)
   }"

definition rt_mutex_detach :: "nat \<Rightarrow> kernel \<Rightarrow> (rt_err_t \<times> kernel) option" where
  "rt_mutex_detach m k = do {
     rt_assert (rt_object_get_type k (OMutex m) = RT_Object_Class_Mutex);
     rt_assert (rt_object_is_systemobject k (OMutex m));
     k \<leftarrow> rt_ipc_list_resume_all (LMutex m) k;
     Some (RT_EOK, rt_object_detach (OMutex m) k)
   }"

definition rt_mutex_create :: "string \<Rightarrow> u8 \<Rightarrow> nat option \<Rightarrow> kernel \<Rightarrow> (nat option \<times> kernel) option" where
  "rt_mutex_create name flag mem k = do {
     rt_debug_not_in_interrupt k;
     (_, k) \<leftarrow> rt_object_allocate RT_Object_Class_Mutex name (map_option OMutex mem) k;
     (case mem of
        None \<Rightarrow> Some (None, k)
      | Some m \<Rightarrow> Some (Some m, mutex_fields_init m flag k))
   }"

definition rt_mutex_delete :: "nat \<Rightarrow> kernel \<Rightarrow> (rt_err_t \<times> kernel) option" where
  "rt_mutex_delete m k = do {
     rt_debug_not_in_interrupt k;
     rt_assert (rt_object_get_type k (OMutex m) = RT_Object_Class_Mutex);
     rt_assert (\<not> rt_object_is_systemobject k (OMutex m));
     k \<leftarrow> rt_ipc_list_resume_all (LMutex m) k;
     k \<leftarrow> rt_object_delete (OMutex m) k;
     Some (RT_EOK, k)
   }"

text \<open>The part of \<^verbatim>\<open>rt_mutex_take\<close> behind the label \<^verbatim>\<open>__again\<close>.\<close>

definition mutex_try :: "nat \<Rightarrow> tid \<Rightarrow> u32 \<Rightarrow> kernel \<Rightarrow> ((rt_err_t, tid) outcome \<times> kernel) option" where
  "mutex_try m thread time k =
     (if 0 < mtx_value (mutexes k m) then
        Some (Done RT_EOK,
          upd_mutex m (\<lambda>mx. mx\<lparr>mtx_value := mtx_value mx - 1, mtx_owner := Some thread,
             mtx_original_priority := th_current_priority (threads k thread),
             mtx_hold := mtx_hold mx + 1\<rparr>) k)
      else if time = 0 then Some (Done (- RT_ETIMEOUT), set_error thread (- RT_ETIMEOUT) k)
      else do {
        owner \<leftarrow> mtx_owner (mutexes k m);
        (_, k) \<leftarrow> (if th_current_priority (threads k thread) < th_current_priority (threads k owner)
                  then rt_thread_control owner RT_THREAD_CTRL_CHANGE_PRIORITY
                         (th_current_priority (threads k thread)) k
                  else Some (RT_EOK, k));
        k \<leftarrow> ipc_wait (LMutex m) (obj_flag (objs k (OMutex m))) thread time k;
        Some (Blocked thread, k)
      })"

definition rt_mutex_take :: "nat \<Rightarrow> u32 \<Rightarrow> kernel \<Rightarrow> ((rt_err_t, tid) outcome \<times> kernel) option" where
  "rt_mutex_take m time k = do {
     rt_debug_in_thread_context k;
     rt_assert (rt_object_get_type k (OMutex m) = RT_Object_Class_Mutex);
     thread \<leftarrow> rt_thread_self k;
     let k = set_error thread RT_EOK k;
     if mtx_owner (mutexes k m) = Some thread
     then Some (Done RT_EOK, upd_mutex m (\<lambda>mx. mx\<lparr>mtx_hold := mtx_hold mx + 1\<rparr>) k)
     else mutex_try m thread time k
   }"

definition rt_mutex_take_resumed ::
  "nat \<Rightarrow> u32 \<Rightarrow> tid \<Rightarrow> kernel \<Rightarrow> ((rt_err_t, tid) outcome \<times> kernel) option" where
  "rt_mutex_take_resumed m time thread k =
     (if th_error (threads k thread) \<noteq> RT_EOK then
        if th_error (threads k thread) = - RT_EINTR then mutex_try m thread time k
        else Some (Done (th_error (threads k thread)), k)
      else Some (Done RT_EOK, k))"

definition rt_mutex_release :: "nat \<Rightarrow> kernel \<Rightarrow> (rt_err_t \<times> kernel) option" where
  "rt_mutex_release m k = do {
     rt_assert (rt_object_get_type k (OMutex m) = RT_Object_Class_Mutex);
     rt_debug_in_thread_context k;
     thread \<leftarrow> rt_thread_self k;
     if Some thread \<noteq> mtx_owner (mutexes k m) then Some (- RT_ERROR, set_error thread (- RT_ERROR) k)
     else do {
       let k = upd_mutex m (\<lambda>mx. mx\<lparr>mtx_hold := mtx_hold mx - 1\<rparr>) k;
       if mtx_hold (mutexes k m) = 0 then do {
         (_, k) \<leftarrow> (if mtx_original_priority (mutexes k m) \<noteq> th_current_priority (threads k thread)
                   then rt_thread_control thread RT_THREAD_CTRL_CHANGE_PRIORITY
                          (mtx_original_priority (mutexes k m)) k
                   else Some (RT_EOK, k));
         (case tlists k (LMutex m) of
            t # _ \<Rightarrow> do {
              let k = upd_mutex m (\<lambda>mx. mx\<lparr>mtx_owner := Some t,
                        mtx_original_priority := th_current_priority (threads k t),
                        mtx_hold := mtx_hold mx + 1\<rparr>) k;
              k \<leftarrow> rt_ipc_list_resume (LMutex m) k;
              k \<leftarrow> rt_schedule k;
              Some (RT_EOK, k)
            }
          | [] \<Rightarrow>
              Some (RT_EOK, upd_mutex m (\<lambda>mx. mx\<lparr>mtx_value := mtx_value mx + 1, mtx_owner := None,
                mtx_original_priority := 0xff\<rparr>) k))
       }
       else Some (RT_EOK, k)
     }
   }"

definition rt_mutex_control :: "nat \<Rightarrow> int \<Rightarrow> u32 \<Rightarrow> kernel \<Rightarrow> rt_err_t option" where
  "rt_mutex_control m cmd arg k = do {
     rt_assert (rt_object_get_type k (OMutex m) = RT_Object_Class_Mutex);
     Some (- RT_ERROR)
   }"

section \<open>Invariant\<close>

text \<open>A mutex is free, with value 1, no owner and no waiters, or held by a live thread that does not wait
  for it.\<close>

definition mutex_free :: "kernel \<Rightarrow> nat \<Rightarrow> bool" where
  "mutex_free k m \<longleftrightarrow>
     mtx_value (mutexes k m) = 1 \<and> mtx_owner (mutexes k m) = None \<and> mtx_hold (mutexes k m) = 0 \<and>
     tlists k (LMutex m) = []"

definition mutex_held :: "kernel \<Rightarrow> nat \<Rightarrow> tid \<Rightarrow> bool" where
  "mutex_held k m t \<longleftrightarrow>
     mtx_value (mutexes k m) = 0 \<and> mtx_owner (mutexes k m) = Some t \<and> mtx_hold (mutexes k m) \<noteq> 0 \<and>
     unat (mtx_original_priority (mutexes k m)) < 32 \<and> live k t \<and> t \<notin> set (tlists k (LMutex m))"

definition mutex_ok :: "kernel \<Rightarrow> nat \<Rightarrow> bool" where
  "mutex_ok k m \<longleftrightarrow> mutex_free k m \<or> (\<exists>t. mutex_held k m t)"

lemma upd_mutex_frame [simp]:
  "threads (upd_mutex m f k) = threads k" "tlists (upd_mutex m f k) = tlists k"
  "objs (upd_mutex m f k) = objs k" "sched_inv (upd_mutex m f k) = sched_inv k"
  "rt_current_thread (upd_mutex m f k) = rt_current_thread k"
  "timers_same k0 (upd_mutex m f k) = timers_same k0 k"
  "mutexes (upd_mutex m f k) = (mutexes k)(m := f (mutexes k m))"
  "runnable (upd_mutex m f k) t = runnable k t" "live (upd_mutex m f k) t = live k t"
  "prio (upd_mutex m f k) = prio k" "thread_stat (upd_mutex m f k) t = thread_stat k t"
  "rt_interrupt_nest (upd_mutex m f k) = rt_interrupt_nest k"
  "rt_object_get_type (upd_mutex m f k) r = rt_object_get_type k r"
  by (simp_all add: upd_mutex_def timers_same_def runnable_def live_def thread_stat_def prio_def
      rt_object_get_type_def fun_eq_iff)

lemma timer_inv_upd_mutex [simp]: "timer_inv k \<Longrightarrow> timer_inv (upd_mutex m f k)"
  by (rule timer_inv_write [of k]) simp_all

lemma base_inv_upd_mutex [simp]: "base_inv k \<Longrightarrow> base_inv (upd_mutex m f k)"
  by (simp add: base_inv_def)

lemma base_inv_set_error [simp]: "base_inv k \<Longrightarrow> base_inv (set_error t e k)"
  by (simp add: base_inv_def set_error_inv)

lemma in_thread_frame [simp]:
  "in_thread (set_error t' e k) t = in_thread k t" "in_thread (upd_mutex m f k) t = in_thread k t"
  by (simp_all add: in_thread_def)

section \<open>The abstract lock\<close>

type_synonym lock_state = "tid option \<times> nat \<times> tid list"

definition lock_spec_take ::
  "(tid \<Rightarrow> tid list \<Rightarrow> tid list) \<Rightarrow> tid \<Rightarrow> u32 \<Rightarrow> lock_state \<Rightarrow> (rt_err_t, tid) outcome \<times> lock_state" where
  "lock_spec_take enq t time st =
     (let (owner, n, q) = st
      in if owner = Some t then (Done RT_EOK, (owner, n + 1, q))
         else if owner = None then (Done RT_EOK, (Some t, 1, q))
         else if time = 0 then (Done (- RT_ETIMEOUT), st)
         else (Blocked t, (owner, n, enq t q)))"

definition lock_spec_release :: "tid \<Rightarrow> lock_state \<Rightarrow> rt_err_t \<times> lock_state" where
  "lock_spec_release t st =
     (let (owner, n, q) = st
      in if owner \<noteq> Some t then (- RT_ERROR, st)
         else if n > 1 then (RT_EOK, (owner, n - 1, q))
         else (case q of [] \<Rightarrow> (RT_EOK, (None, 0, [])) | u # q' \<Rightarrow> (RT_EOK, (Some u, 1, q'))))"

definition lock_abs :: "kernel \<Rightarrow> nat \<Rightarrow> lock_state" where
  "lock_abs k m = (mtx_owner (mutexes k m), unat (mtx_hold (mutexes k m)), tlists k (LMutex m))"

lemma enqueue_cong:
  assumes "p t = p' t" "\<forall>u \<in> set ts. p u = p' u"
  shows "enqueue f p t ts = enqueue f p' t ts"
proof -
  have "prio_insert p t ts = prio_insert p' t ts" using assms by (induction ts) auto
  then show ?thesis by (simp add: enqueue_def)
qed

lemma live_prio: "sched_inv k \<Longrightarrow> live k t \<Longrightarrow> unat (th_current_priority (threads k t)) < 32"
  using sched_core_mask [of "{}" k t] by (simp add: sched_inv_def mask_ok_def prio_def)

lemma in_thread_live: "in_thread k t \<Longrightarrow> live k t"
  by (simp add: in_thread_def live_def)

section \<open>Changing priorities\<close>

text \<open>The effect of a call of \<^verbatim>\<open>rt_thread_control\<close> that may change the priority of \<open>t\<close> to \<open>p\<close>.\<close>

definition reprio :: "tid \<Rightarrow> u8 \<Rightarrow> kernel \<Rightarrow> kernel \<Rightarrow> bool" where
  "reprio t p k k' \<longleftrightarrow>
     base_inv k' \<and> ipc_same k k' \<and> timers_same k k' \<and> rt_current_thread k' = rt_current_thread k \<and>
     (\<forall>u. thread_stat k' u = thread_stat k u) \<and> prio k' t = unat p \<and> (\<forall>u. u \<noteq> t \<longrightarrow> threads k' u = threads k u) \<and>
     (\<forall>l. wait_list l \<longrightarrow> tlists k' l = tlists k l)"

lemma reprio_control:
  assumes b: "base_inv k" and l: "live k t" and p: "unat p < 32"
  shows "rt_thread_control t RT_THREAD_CTRL_CHANGE_PRIORITY p k = Some (RT_EOK, change_priority t p k)"
    "reprio t p k (change_priority t p k)"
proof -
  note i = base_invD [OF b]
  show "rt_thread_control t 2 p k = Some (RT_EOK, change_priority t p k)"
    using timer_invD(2) [OF i(2) l] by (simp add: rt_thread_control_def thread_timer_ok_def)
  have "threads (change_priority t p k) u = threads k u" if "u \<noteq> t" for u
    using that by (subst change_priority_threads(1) [OF i(1)]) simp
  moreover have "prio (change_priority t p k) t = unat p"
    by (subst prio_def, subst change_priority_threads(1) [OF i(1)]) simp
  moreover have "tlists (change_priority t p k) l = tlists k l" if "wait_list l" for l
    using that by (intro change_priority_wait_lists [OF i(1)]) (auto dest: wait_list_not_ready)
  ultimately show "reprio t p k (change_priority t p k)"
    using i change_priority_inv [OF i(1) p] change_priority_timer_inv [OF i(1,2)]
    by (simp add: reprio_def base_inv_def change_priority_threads(2) [OF i(1)])
qed

lemma reprio_refl: "base_inv k \<Longrightarrow> p = th_current_priority (threads k t) \<Longrightarrow> reprio t p k k"
  by (simp add: reprio_def prio_def)

lemma reprio_reads:
  assumes "reprio t p k k'"
  shows "base_inv k'" "mutexes k' = mutexes k" "objs k' = objs k" "in_thread k' u = in_thread k u"
    "live k' u = live k u" "runnable k' u = runnable k u" "wait_list l \<Longrightarrow> tlists k' l = tlists k l"
    "u \<noteq> t \<Longrightarrow> prio k' u = prio k u" "rt_object_get_type k' r = rt_object_get_type k r"
    "prio k' t = unat p" "th_current_priority (threads k' t) = p" "ipc_same k k'" "timers_same k k'"
    "u \<noteq> t \<Longrightarrow> threads k' u = threads k u" "rt_current_thread k' = rt_current_thread k"
  using assms ipc_sameD(2,10) [of k k'] timers_sameD(2) [of k k']
  by (simp_all add: reprio_def in_thread_def live_def runnable_def prio_def rt_object_get_type_def
      word_unat_eq_iff)

lemma mutex_ok_reprio: "reprio t p k k' \<Longrightarrow> mutex_ok k' m = mutex_ok k m"
  by (simp add: mutex_ok_def mutex_free_def mutex_held_def reprio_reads)

section \<open>Taking\<close>

lemma mutex_try_blocks:
  assumes b: "base_inv k" and i: "in_thread k t" and h: "mutex_held k m w" and ne: "w \<noteq> t"
    and tm: "time \<noteq> 0" "time_ok time" and f: "ipc_flag (obj_flag (objs k (OMutex m)))"
  obtains k1 k' p where "mutex_try m t time k = Some (Blocked t, k')" "reprio w p k k1"
    "unat p \<le> prio k t" "unat p \<le> prio k w"
    "waits (LMutex m) (obj_flag (objs k (OMutex m))) t k1 k'"
proof -
  let ?c = "\<lambda>t. th_current_priority (threads k t)"
  have hw: "mtx_owner (mutexes k m) = Some w" "mtx_value (mutexes k m) = 0" "live k w"
    using h by (auto simp: mutex_held_def)
  have lt: "unat (?c t) < 32" using live_prio [OF base_invD(1) [OF b] in_thread_live [OF i]] .
  define p where "p = (if ?c t < ?c w then ?c t else ?c w)"
  define k1 where "k1 = (if ?c t < ?c w then change_priority w (?c t) k else k)"
  have k1: "(if ?c t < ?c w then rt_thread_control w RT_THREAD_CTRL_CHANGE_PRIORITY (?c t) k
      else Some (RT_EOK, k)) = Some (RT_EOK, k1)" "reprio w p k k1"
    using reprio_control [OF b hw(3) lt] reprio_refl [OF b, of "?c w" w] by (auto simp: p_def k1_def)
  have p: "unat p \<le> prio k t" "unat p \<le> prio k w"
    by (auto simp: p_def prio_def word_less_nat_alt)
  note r = reprio_reads [OF k1(2)]
  have "runnable k1 t" using i r(6) by (auto simp: in_thread_def runnable_def)
  from ipc_wait_step [OF base_invD(1,2) [OF r(1)] this _ _ base_invD(3) [OF r(1)] tm(2), of _ "LMutex m"] f r(3)
  obtain k' where k': "ipc_wait (LMutex m) (obj_flag (objs k1 (OMutex m))) t time k1 = Some k'"
    "waits (LMutex m) (obj_flag (objs k1 (OMutex m))) t k1 k'"
    by auto
  have "mutex_try m t time k = Some (Blocked t, k')"
    using hw tm(1) k1(1) k'(1) by (simp add: mutex_try_def)
  with that k1(2) p k'(2) r(3) show ?thesis by metis
qed

lemma waits_mutexes: "waits l flag t k k' \<Longrightarrow> mutexes k' = mutexes k"
  using ipc_sameD(2) [of k k'] by (simp add: waits_def)

lemma waits_live:
  assumes "waits l flag t k k'" "live k u" "base_inv k"
  shows "live k' u"
proof (cases "u = t")
  case True
  with assms show ?thesis by (simp add: waits_def live_def)
next
  case False
  have "runnable k' u = runnable k u" using assms(1) False by (simp add: waits_def)
  moreover have "thread_stat k' u = thread_stat k u" if "\<not> runnable k u"
    using assms(1) that False by (auto simp: waits_def)
  ultimately show ?thesis using assms(2) by (auto simp: live_def runnable_def)
qed

lemma mutex_ok_cases:
  assumes "mutex_ok k m"
  obtains (free) "mutex_free k m" "mtx_owner (mutexes k m) = None"
  | (held) w where "mutex_held k m w" "mtx_owner (mutexes k m) = Some w"
  using assms by (auto simp: mutex_ok_def mutex_free_def mutex_held_def)



section \<open>Releasing\<close>

lemma rt_mutex_release_last:
  assumes b: "base_inv k" and i: "in_thread k t" and h: "mutex_held k m t"
    and ty: "rt_object_get_type k (OMutex m) = RT_Object_Class_Mutex" and one: "mtx_hold (mutexes k m) = 1"
  obtains k1 where "reprio t (mtx_original_priority (mutexes k m)) (upd_mutex m (\<lambda>mx. mx\<lparr>mtx_hold := mtx_hold mx - 1\<rparr>) k) k1"
    "rt_mutex_release m k =
       (case tlists k1 (LMutex m) of
          u # _ \<Rightarrow> do {
            let k = upd_mutex m (\<lambda>mx. mx\<lparr>mtx_owner := Some u,
                      mtx_original_priority := th_current_priority (threads k1 u), mtx_hold := mtx_hold mx + 1\<rparr>) k1;
            k \<leftarrow> rt_ipc_list_resume (LMutex m) k;
            k \<leftarrow> rt_schedule k;
            Some (RT_EOK, k)
          }
        | [] \<Rightarrow> Some (RT_EOK, upd_mutex m (\<lambda>mx. mx\<lparr>mtx_value := mtx_value mx + 1, mtx_owner := None,
              mtx_original_priority := 0xff\<rparr>) k1))"
proof -
  let ?k = "upd_mutex m (\<lambda>mx. mx\<lparr>mtx_hold := mtx_hold mx - 1\<rparr>) k"
  let ?p = "mtx_original_priority (mutexes k m)"
  have bk: "base_inv ?k" "live ?k t" "unat ?p < 32" using b h by (simp_all add: mutex_held_def)
  define k1 where "k1 = (if ?p \<noteq> th_current_priority (threads k t) then change_priority t ?p ?k else ?k)"
  have k1: "(if ?p \<noteq> th_current_priority (threads k t)
      then rt_thread_control t RT_THREAD_CTRL_CHANGE_PRIORITY ?p ?k else Some (RT_EOK, ?k)) = Some (RT_EOK, k1)"
    "reprio t ?p ?k k1"
    using reprio_control [OF bk] reprio_refl [OF bk(1), of ?p t] by (auto simp: k1_def)
  show ?thesis
    by (rule that [OF k1(2)], cases "?p = th_current_priority (threads k t)")
      (use i ty h one reprio_control(1) [OF bk] in \<open>simp_all add: k1_def rt_mutex_release_def in_thread_def rt_debug_in_thread_context_def
        rt_thread_self_def mutex_held_def Let_def split: list.split\<close>)
qed

text \<open>C8: \<^verbatim>\<open>rt_mutex_release\<close> refines the abstract lock: only the owner can release; a nested release
  keeps the ownership; the last one hands the mutex to the first waiter, which becomes runnable, or
  frees it, and gives the releasing thread the priority recorded when it took the mutex. The invariants
  hold afterwards.\<close>

theorem rt_mutex_release_refines:
  assumes b: "base_inv k" and ok: "mutex_ok k m" and i: "in_thread k t"
    and ty: "rt_object_get_type k (OMutex m) = RT_Object_Class_Mutex"
  shows "\<exists>r k'. rt_mutex_release m k = Some (r, k') \<and>
    (r, lock_abs k' m) = lock_spec_release t (lock_abs k m) \<and> base_inv k' \<and> mutex_ok k' m \<and>
    (mtx_owner (mutexes k m) = Some t \<longrightarrow> mtx_hold (mutexes k m) = 1 \<longrightarrow>
       prio k' t = unat (mtx_original_priority (mutexes k m)) \<and>
       (\<forall>u us. tlists k (LMutex m) = u # us \<longrightarrow> runnable k' u))"
proof (cases "mtx_owner (mutexes k m) = Some t")
  case False
  let ?k = "set_error t (- RT_ERROR) k"
  have "rt_mutex_release m k = Some (- RT_ERROR, ?k)"
    using i ty False by (auto simp: rt_mutex_release_def in_thread_def rt_debug_in_thread_context_def rt_thread_self_def)
  moreover have "mutex_ok ?k m"
    using ok by (simp add: mutex_ok_def mutex_free_def mutex_held_def live_def)
  ultimately show ?thesis using b False by (auto simp: lock_abs_def lock_spec_release_def)
next
  case own: True
  have h: "mutex_held k m t" using ok own by (cases rule: mutex_ok_cases) (auto simp: mutex_held_def mutex_free_def)
  then have h0: "mtx_hold (mutexes k m) \<noteq> 0" by (simp add: mutex_held_def)
  have u1: "unat (mtx_hold (mutexes k m) - 1) = unat (mtx_hold (mutexes k m)) - 1"
    using h0 by (rule unat_minus_one)
  have u2: "0 < unat (mtx_hold (mutexes k m))" using h0 by (simp add: unat_gt_0)
  show ?thesis
  proof (cases "mtx_hold (mutexes k m) = 1")
    case False
    let ?k = "upd_mutex m (\<lambda>mx. mx\<lparr>mtx_hold := mtx_hold mx - 1\<rparr>) k"
    have ne: "mtx_hold (mutexes k m) - 1 \<noteq> 0" using False by simp
    have gt: "1 < unat (mtx_hold (mutexes k m))"
      using u1 u2 ne by (metis One_nat_def Suc_lessI diff_self_eq_0 unat_eq_zero)
    have "rt_mutex_release m k = Some (RT_EOK, ?k)"
      using i ty own ne by (simp add: rt_mutex_release_def in_thread_def rt_debug_in_thread_context_def
          rt_thread_self_def Let_def)
    moreover have "mutex_held ?k m t" using h ne by (simp add: mutex_held_def)
    ultimately show ?thesis
      using b own False gt u1 by (auto simp: lock_abs_def lock_spec_release_def mutex_ok_def)
  next
    case one: True
    obtain k1 where k1: "reprio t (mtx_original_priority (mutexes k m)) (upd_mutex m (\<lambda>mx. mx\<lparr>mtx_hold := mtx_hold mx - 1\<rparr>) k) k1"
      and run: "rt_mutex_release m k =
       (case tlists k1 (LMutex m) of
          u # _ \<Rightarrow> do {
            let k = upd_mutex m (\<lambda>mx. mx\<lparr>mtx_owner := Some u,
                      mtx_original_priority := th_current_priority (threads k1 u), mtx_hold := mtx_hold mx + 1\<rparr>) k1;
            k \<leftarrow> rt_ipc_list_resume (LMutex m) k;
            k \<leftarrow> rt_schedule k;
            Some (RT_EOK, k)
          }
        | [] \<Rightarrow> Some (RT_EOK, upd_mutex m (\<lambda>mx. mx\<lparr>mtx_value := mtx_value mx + 1, mtx_owner := None,
              mtx_original_priority := 0xff\<rparr>) k1))"
      using rt_mutex_release_last [OF b i h ty one] by blast
    note r = reprio_reads [OF k1]
    have q: "tlists k1 (LMutex m) = tlists k (LMutex m)" using r(7) [of "LMutex m"] by simp
    have mx: "mtx_value (mutexes k1 m) = 0" "mtx_hold (mutexes k1 m) = 0"
      using r(2) h one by (simp_all add: mutex_held_def)
    show ?thesis
    proof (cases "tlists k (LMutex m)")
      case Nil
      let ?k = "upd_mutex m (\<lambda>mx. mx\<lparr>mtx_value := mtx_value mx + 1, mtx_owner := None, mtx_original_priority := 0xff\<rparr>) k1"
      have "mutex_free ?k m" using q Nil mx by (simp add: mutex_free_def)
      then show ?thesis
        using run q Nil own one r(1,10) mx
        by (auto simp: lock_abs_def lock_spec_release_def mutex_ok_def)
    next
      case (Cons u us)
      let ?k2 = "upd_mutex m (\<lambda>mx. mx\<lparr>mtx_owner := Some u,
          mtx_original_priority := th_current_priority (threads k1 u), mtx_hold := mtx_hold mx + 1\<rparr>) k1"
      have s2: "sched_inv ?k2" "timer_inv ?k2" "tlists ?k2 (LMutex m) = u # us" "rt_current_thread ?k2 \<noteq> None"
        using base_invD [OF r(1)] q Cons by simp_all
      obtain k3 where k3: "rt_ipc_list_resume (LMutex m) ?k2 = Some k3" "wakes u ?k2 k3" "tlists k3 (LMutex m) = us"
        using rt_ipc_list_resume_step [OF s2(1,2) _ s2(3)] by auto
      have "sched_inv k3" "rt_current_thread k3 \<noteq> None" using k3(2) s2(4) by (auto simp: wakes_def)
      then obtain k' where k': "rt_schedule k3 = Some k'" "resched k3 k'" by (rule rt_schedule_step)
      have w: "wakes u ?k2 k'" using wakes_schedule(1) [OF k3(2) k'(1)] .
      have tl: "tlists k' (LMutex m) = us" using resched_wait_list [OF k'(2)] k3(3) by simp
      have mx': "mutexes k' = mutexes ?k2" using w ipc_sameD(2) [of ?k2 k'] by (simp add: wakes_def)
      have "thread_stat k1 u = 2" using waiter_suspended [of k1 "LMutex m" u] base_invD(1) [OF r(1)] q Cons by simp
      then have "unat (th_current_priority (threads k1 u)) < 32"
        using live_prio [OF base_invD(1) [OF r(1)], of u] by (simp add: live_def)
      moreover have "distinct (u # us)"
        using sched_core_distinct [of "{}" ?k2 "LMutex m"] s2(1,3) by (simp add: sched_inv_def)
      moreover have "runnable k' u" using w by (simp add: wakes_def)
      ultimately have "mutex_held k' m u"
        using mx' tl mx by (auto simp: mutex_held_def runnable_live)
      moreover have "prio k' t = unat (mtx_original_priority (mutexes k m))"
        using w only_statD(7) [of ?k2 k' t] r(10) by (simp add: wakes_def)
      moreover have "base_inv k'" using base_inv_wakes [OF _ w] r(1) by simp
      moreover have "rt_mutex_release m k = Some (RT_EOK, k')"
        using run q Cons k3(1) k'(1) by simp
      ultimately show ?thesis
        using own one Cons mx' tl mx \<open>runnable k' u\<close>
        by (auto simp: lock_abs_def lock_spec_release_def mutex_ok_def)
    qed
  qed
qed

definition demo_lock_kernel :: kernel where
  "demo_lock_kernel =
     upd_mutex 0 (\<lambda>_. \<lparr>mtx_value = 0, mtx_original_priority = 10, mtx_hold = 1, mtx_owner = Some 1\<rparr>)
       (upd_mutex 1 (\<lambda>_. \<lparr>mtx_value = 0, mtx_original_priority = 5, mtx_hold = 1, mtx_owner = Some 1\<rparr>) demo_kernel)"

lemma demo_lock:
  "base_inv demo_lock_kernel" "in_thread demo_lock_kernel 1" "mutex_held demo_lock_kernel 0 1"
  "mutex_held demo_lock_kernel 1 1" "rt_object_get_type demo_lock_kernel (OMutex m) = 3"
  "tlists demo_lock_kernel (LMutex m) = []"
  "mutexes demo_lock_kernel 0 = \<lparr>mtx_value = 0, mtx_original_priority = 10, mtx_hold = 1, mtx_owner = Some 1\<rparr>"
  "mutexes demo_lock_kernel 1 = \<lparr>mtx_value = 0, mtx_original_priority = 5, mtx_hold = 1, mtx_owner = Some 1\<rparr>"
proof -
  have d: "base_inv demo_kernel" "in_thread demo_kernel 1" "live demo_kernel 1" "tlists demo_kernel (LMutex m) = []" for m
    using demo_kernel_inv demo_timer_inv
    by (simp_all add: base_inv_def in_thread_def live_def) (simp_all add: demo_simps)
  have "rt_object_get_type demo_kernel (OMutex m) = 3"
    by (simp add: rt_object_get_type_def demo_kernel_def) (simp add: oref_class_def)
  with d show "base_inv demo_lock_kernel" "in_thread demo_lock_kernel 1" "mutex_held demo_lock_kernel 0 1"
    "mutex_held demo_lock_kernel 1 1" "rt_object_get_type demo_lock_kernel (OMutex m) = 3"
    "tlists demo_lock_kernel (LMutex m) = []"
    "mutexes demo_lock_kernel 0 = \<lparr>mtx_value = 0, mtx_original_priority = 10, mtx_hold = 1, mtx_owner = Some 1\<rparr>"
    "mutexes demo_lock_kernel 1 = \<lparr>mtx_value = 0, mtx_original_priority = 5, mtx_hold = 1, mtx_owner = Some 1\<rparr>"
    by (simp_all add: demo_lock_kernel_def mutex_held_def)
qed

theorem rt_mutex_release_refines_witness:
  "\<exists>k'. rt_mutex_release 0 demo_lock_kernel = Some (RT_EOK, k') \<and> lock_abs k' 0 = (None, 0, []) \<and> prio k' 1 = 10"
proof -
  have "mutex_ok demo_lock_kernel 0" using demo_lock(3) by (auto simp: mutex_ok_def)
  then show ?thesis
    using rt_mutex_release_refines [OF demo_lock(1) _ demo_lock(2,5), of 0] demo_lock(6,7)
    by (auto simp: lock_abs_def lock_spec_release_def)
qed

lemma rt_mutex_release_uncontended:
  assumes "base_inv k" "in_thread k t" "mutex_held k m t" "rt_object_get_type k (OMutex m) = RT_Object_Class_Mutex"
    and "mtx_hold (mutexes k m) = 1" "tlists k (LMutex m) = []"
  obtains k' where "reprio t (mtx_original_priority (mutexes k m)) (upd_mutex m (\<lambda>mx. mx\<lparr>mtx_hold := mtx_hold mx - 1\<rparr>) k) k'"
    "rt_mutex_release m k = Some (RT_EOK, upd_mutex m (\<lambda>mx. mx\<lparr>mtx_value := mtx_value mx + 1, mtx_owner := None,
       mtx_original_priority := 0xff\<rparr>) k')"
  using rt_mutex_release_last [OF assms(1-5)] assms(6) reprio_reads(7)
  by (metis (no_types, lifting) list.case(1) upd_mutex_frame(2) wait_list_simps(4))



text \<open>C26: lowering the priority on release does not give up the processor. A thread that runs at an inherited priority, releases the
  mutex and finds no waiter (the one that raised it has timed out) returns to its own priority and goes on running, although a
  thread that is more urgent than it now is is ready: the call does not reschedule.\<close>

theorem rt_mutex_release_no_preemption:
  assumes "base_inv k" "in_thread k t" "mutex_held k m t" "rt_object_get_type k (OMutex m) = RT_Object_Class_Mutex"
    and "mtx_hold (mutexes k m) = 1" "tlists k (LMutex m) = []"
    and "thread_stat k u = RT_THREAD_READY" "prio k u < unat (mtx_original_priority (mutexes k m))"
  shows "\<exists>k'. rt_mutex_release m k = Some (RT_EOK, k') \<and> mutex_free k' m \<and> in_thread k' t \<and>
    thread_stat k' u = RT_THREAD_READY \<and> prio k' u < prio k' t"
proof -
  obtain k' where k': "reprio t (mtx_original_priority (mutexes k m)) (upd_mutex m (\<lambda>mx. mx\<lparr>mtx_hold := mtx_hold mx - 1\<rparr>) k) k'"
    "rt_mutex_release m k = Some (RT_EOK, upd_mutex m (\<lambda>mx. mx\<lparr>mtx_value := mtx_value mx + 1, mtx_owner := None,
       mtx_original_priority := 0xff\<rparr>) k')"
    using rt_mutex_release_uncontended [OF assms(1-6)] .
  note r = reprio_reads [OF k'(1)]
  have "u \<noteq> t" using assms(2,7) by (auto simp: in_thread_def)
  then have "thread_stat k' u = RT_THREAD_READY" "prio k' u < prio k' t"
    using k'(1) r(8,10) assms(7,8) by (simp_all add: reprio_def)
  moreover have "in_thread k' t" using r(4) assms(2) by simp
  ultimately show ?thesis
    using k'(2) r(2) r(7) [of "LMutex m"] assms(3,5,6) by (auto simp: mutex_free_def mutex_held_def)
qed

theorem rt_mutex_release_no_preemption_witness:
  "\<exists>k'. rt_mutex_release 0 (upd_mutex 0 (\<lambda>mx. mx\<lparr>mtx_original_priority := 15\<rparr>) demo_lock_kernel) = Some (RT_EOK, k') \<and>
     in_thread k' 1 \<and> thread_stat k' 2 = RT_THREAD_READY \<and> prio k' 2 < prio k' 1"
proof -
  let ?k = "upd_mutex 0 (\<lambda>mx. mx\<lparr>mtx_original_priority := 15\<rparr>) demo_lock_kernel"
  have "base_inv ?k" "in_thread ?k 1" "mutex_held ?k 0 1" "rt_object_get_type ?k (OMutex 0) = 3" "tlists ?k (LMutex 0) = []"
    using demo_lock by (simp_all add: mutex_held_def)
  moreover have "mtx_hold (mutexes ?k 0) = 1" "mtx_original_priority (mutexes ?k 0) = 15" using demo_lock(7) by simp_all
  moreover have "thread_stat ?k 2 = RT_THREAD_READY" "prio ?k 2 = 10"
    by (simp_all add: demo_lock_kernel_def) (simp_all add: demo_simps)
  ultimately show ?thesis using rt_mutex_release_no_preemption [of ?k 1 0 2] by auto
qed

text \<open>The depth counter of a mutex has 8 bits: at depth 255 one more \<^verbatim>\<open>rt_mutex_take\<close> by the owner succeeds
  and sets it to 0.\<close>

theorem rt_mutex_hold_wraps:
  assumes "in_thread k t" "mtx_owner (mutexes k m) = Some t" "mtx_hold (mutexes k m) = 255"
    and "rt_object_get_type k (OMutex m) = RT_Object_Class_Mutex"
  shows "\<exists>k'. rt_mutex_take m time k = Some (Done RT_EOK, k') \<and> mtx_hold (mutexes k' m) = 0 \<and>
    mtx_owner (mutexes k' m) = Some t"
  using assms by (simp add: rt_mutex_take_def in_thread_def rt_debug_in_thread_context_def rt_thread_self_def Let_def)

theorem rt_mutex_hold_wraps_witness:
  "\<exists>k'. rt_mutex_take 0 0 (upd_mutex 0 (\<lambda>mx. mx\<lparr>mtx_hold := 255\<rparr>) demo_lock_kernel) = Some (Done RT_EOK, k') \<and>
     mtx_hold (mutexes k' 0) = 0"
proof -
  let ?k = "upd_mutex 0 (\<lambda>mx. mx\<lparr>mtx_hold := 255\<rparr>) demo_lock_kernel"
  have "in_thread ?k 1" "mtx_owner (mutexes ?k 0) = Some 1" "mtx_hold (mutexes ?k 0) = 255"
    "rt_object_get_type ?k (OMutex 0) = 3"
    using demo_lock(2,5,7) by simp_all
  from rt_mutex_hold_wraps [OF this] show ?thesis by blast
qed

end
