(* ===== verification/Event.thy ===== *)
theory Event
  imports Mutex
begin

text \<open>
  Event sets (\<^verbatim>\<open>rt_event_*\<close> of \<^verbatim>\<open>src/ipc.c\<close>). The main property is that no wake-up is lost: a thread
  that waits on an event is never satisfied by the events that are pending. The value stored through
  \<^verbatim>\<open>recved\<close> is a result of the operations.
\<close>

section \<open>Operations\<close>

definition set_event :: "nat \<Rightarrow> (u32 \<Rightarrow> u32) \<Rightarrow> kernel \<Rightarrow> kernel" where
  "set_event e f k = k\<lparr>events := (events k)(e := (events k e)\<lparr>ev_set := f (ev_set (events k e))\<rparr>)\<rparr>"

definition event_fields_init :: "nat \<Rightarrow> u8 \<Rightarrow> kernel \<Rightarrow> kernel" where
  "event_fields_init e flag k =
     set_event e (\<lambda>_. 0) (rt_ipc_object_init (LEvent e) (upd_obj (OEvent e) (\<lambda>ob. ob\<lparr>obj_flag := flag\<rparr>) k))"

definition rt_event_init :: "nat \<Rightarrow> string \<Rightarrow> u8 \<Rightarrow> kernel \<Rightarrow> (rt_err_t \<times> kernel) option" where
  "rt_event_init e name flag k = do {
     k \<leftarrow> rt_object_init (OEvent e) RT_Object_Class_Event name k;
     Some (RT_EOK, event_fields_init e flag k)
   }"

definition rt_event_detach :: "nat \<Rightarrow> kernel \<Rightarrow> (rt_err_t \<times> kernel) option" where
  "rt_event_detach e k = do {
     rt_assert (rt_object_get_type k (OEvent e) = RT_Object_Class_Event);
     rt_assert (rt_object_is_systemobject k (OEvent e));
     k \<leftarrow> rt_ipc_list_resume_all (LEvent e) k;
     Some (RT_EOK, rt_object_detach (OEvent e) k)
   }"

definition rt_event_create :: "string \<Rightarrow> u8 \<Rightarrow> nat option \<Rightarrow> kernel \<Rightarrow> (nat option \<times> kernel) option" where
  "rt_event_create name flag mem k = do {
     rt_debug_not_in_interrupt k;
     (_, k) \<leftarrow> rt_object_allocate RT_Object_Class_Event name (map_option OEvent mem) k;
     (case mem of
        None \<Rightarrow> Some (None, k)
      | Some e \<Rightarrow> Some (Some e, event_fields_init e flag k))
   }"

definition rt_event_delete :: "nat \<Rightarrow> kernel \<Rightarrow> (rt_err_t \<times> kernel) option" where
  "rt_event_delete e k = do {
     rt_assert (rt_object_get_type k (OEvent e) = RT_Object_Class_Event);
     rt_assert (\<not> rt_object_is_systemobject k (OEvent e));
     rt_debug_not_in_interrupt k;
     k \<leftarrow> rt_ipc_list_resume_all (LEvent e) k;
     k \<leftarrow> rt_object_delete (OEvent e) k;
     Some (RT_EOK, k)
   }"

definition event_satisfied :: "u8 \<Rightarrow> u32 \<Rightarrow> u32 \<Rightarrow> bool" where
  "event_satisfied info want pending =
     (if info AND RT_EVENT_FLAG_AND \<noteq> 0 then want AND pending = want
      else if info AND RT_EVENT_FLAG_OR \<noteq> 0 then want AND pending \<noteq> 0
      else False)"

text \<open>One round of the loop of \<^verbatim>\<open>rt_event_send\<close>: the result says whether the thread was resumed.\<close>

definition event_send_one :: "nat \<Rightarrow> tid \<Rightarrow> kernel \<Rightarrow> (bool \<times> kernel) option" where
  "event_send_one e t k =
     (let info = th_event_info (threads k t);
          pending = ev_set (events k e)
      in if event_satisfied info (th_event_set (threads k t)) pending then do {
           let k = (if info AND RT_EVENT_FLAG_AND \<noteq> 0 then k
                    else upd_thread t (\<lambda>th. th\<lparr>th_event_set := th_event_set th AND pending\<rparr>) k);
           let k = (if info AND RT_EVENT_FLAG_CLEAR \<noteq> 0
                    then set_event e (\<lambda>s. s AND NOT (th_event_set (threads k t))) k else k);
           (_, k) \<leftarrow> rt_thread_resume t k;
           Some (True, k)
         }
         else Some (False, k))"

fun event_send_loop :: "nat \<Rightarrow> tid list \<Rightarrow> bool \<Rightarrow> kernel \<Rightarrow> (bool \<times> kernel) option" where
  "event_send_loop e [] need_schedule k = Some (need_schedule, k)"
| "event_send_loop e (t # ts) need_schedule k = do {
     (resumed, k) \<leftarrow> event_send_one e t k;
     event_send_loop e ts (need_schedule \<or> resumed) k
   }"

definition rt_event_send :: "nat \<Rightarrow> u32 \<Rightarrow> kernel \<Rightarrow> (rt_err_t \<times> kernel) option" where
  "rt_event_send e evs k = do {
     rt_assert (rt_object_get_type k (OEvent e) = RT_Object_Class_Event);
     if evs = 0 then Some (- RT_ERROR, k)
     else do {
       let k = set_event e (\<lambda>s. s OR evs) k;
       (need_schedule, k) \<leftarrow> event_send_loop e (tlists k (LEvent e)) False k;
       k \<leftarrow> (if need_schedule then rt_schedule k else Some k);
       Some (RT_EOK, k)
     }
   }"

definition rt_event_recv ::
  "nat \<Rightarrow> u32 \<Rightarrow> u8 \<Rightarrow> u32 \<Rightarrow> kernel \<Rightarrow> ((rt_err_t \<times> u32 option, tid) outcome \<times> kernel) option" where
  "rt_event_recv e evs option timeout k = do {
     rt_debug_in_thread_context k;
     rt_assert (rt_object_get_type k (OEvent e) = RT_Object_Class_Event);
     if evs = 0 then Some (Done (- RT_ERROR, None), k)
     else do {
       thread \<leftarrow> rt_thread_self k;
       let k = set_error thread RT_EOK k;
       rt_assert (option AND RT_EVENT_FLAG_AND \<noteq> 0 \<or> option AND RT_EVENT_FLAG_OR \<noteq> 0);
       if event_satisfied option evs (ev_set (events k e)) then
         Some (Done (RT_EOK, Some (ev_set (events k e) AND evs)),
               if option AND RT_EVENT_FLAG_CLEAR \<noteq> 0 then set_event e (\<lambda>s. s AND NOT evs) k else k)
       else if timeout = 0 then Some (Done (- RT_ETIMEOUT, None), set_error thread (- RT_ETIMEOUT) k)
       else do {
         let k = upd_thread thread (\<lambda>th. th\<lparr>th_event_set := evs, th_event_info := option\<rparr>) k;
         k \<leftarrow> ipc_wait (LEvent e) (obj_flag (objs k (OEvent e))) thread timeout k;
         Some (Blocked thread, k)
       }
     }
   }"

definition rt_event_recv_resumed :: "tid \<Rightarrow> kernel \<Rightarrow> rt_err_t \<times> u32 option" where
  "rt_event_recv_resumed thread k =
     (if th_error (threads k thread) \<noteq> RT_EOK then (th_error (threads k thread), None)
      else (th_error (threads k thread), Some (th_event_set (threads k thread))))"

definition rt_event_control :: "nat \<Rightarrow> int \<Rightarrow> u32 \<Rightarrow> kernel \<Rightarrow> (rt_err_t \<times> kernel) option" where
  "rt_event_control e cmd arg k = do {
     rt_assert (rt_object_get_type k (OEvent e) = RT_Object_Class_Event);
     if cmd = RT_IPC_CMD_RESET then do {
       k \<leftarrow> rt_ipc_list_resume_all (LEvent e) k;
       let k = set_event e (\<lambda>_. 0) k;
       k \<leftarrow> rt_schedule k;
       Some (RT_EOK, k)
     }
     else Some (- RT_ERROR, k)
   }"

section \<open>Invariant\<close>

definition unsatisfied :: "kernel \<Rightarrow> u32 \<Rightarrow> tid \<Rightarrow> bool" where
  "unsatisfied k pending t \<longleftrightarrow>
     \<not> event_satisfied (th_event_info (threads k t)) (th_event_set (threads k t)) pending"

definition event_inv :: "kernel \<Rightarrow> nat \<Rightarrow> bool" where
  "event_inv k e \<longleftrightarrow> (\<forall>t \<in> set (tlists k (LEvent e)). unsatisfied k (ev_set (events k e)) t)"

text \<open>Fewer pending events satisfy fewer waiters.\<close>

lemma event_satisfied_mono:
  assumes "event_satisfied info want p" "p AND q = p"
  shows "event_satisfied info want q"
proof -
  have q: "want AND p = (want AND p) AND q" using assms(2) by (simp add: and.assoc)
  show ?thesis
  proof (cases "info AND 1 \<noteq> 0")
    case True
    then have "want AND p = want" using assms(1) by (simp add: event_satisfied_def)
    then have "want AND q = want" using q by simp
    with True show ?thesis by (simp add: event_satisfied_def)
  next
    case False
    then have "info AND 2 \<noteq> 0" "want AND p \<noteq> 0" using assms(1) by (auto simp: event_satisfied_def split: if_splits)
    moreover have "want AND q \<noteq> 0"
    proof
      assume "want AND q = 0"
      then have "(want AND p) AND q = 0" by (metis and.assoc and.commute and_zero_eq)
      with q calculation(2) show False by simp
    qed
    ultimately show ?thesis using False by (simp add: event_satisfied_def)
  qed
qed

lemma unsatisfied_mono: "unsatisfied k q t \<Longrightarrow> p AND q = p \<Longrightarrow> unsatisfied k p t"
  unfolding unsatisfied_def using event_satisfied_mono by blast

lemma unsatisfied_cong:
  assumes "th_event_info (threads k' t) = th_event_info (threads k t)"
    "th_event_set (threads k' t) = th_event_set (threads k t)"
  shows "unsatisfied k' p t = unsatisfied k p t"
  using assms by (simp add: unsatisfied_def)

lemma set_event_frame [simp]:
  "threads (set_event e f k) = threads k" "tlists (set_event e f k) = tlists k"
  "objs (set_event e f k) = objs k" "sched_inv (set_event e f k) = sched_inv k"
  "rt_current_thread (set_event e f k) = rt_current_thread k"
  "timers_same k0 (set_event e f k) = timers_same k0 k"
  "ev_set (events (set_event e f k) e') = (if e' = e then f (ev_set (events k e)) else ev_set (events k e'))"
  "runnable (set_event e f k) t = runnable k t" "thread_stat (set_event e f k) t = thread_stat k t"
  "unsatisfied (set_event e f k) p t = unsatisfied k p t"
  by (simp_all add: set_event_def timers_same_def runnable_def thread_stat_def unsatisfied_def)

lemma timer_inv_set_event [simp]: "timer_inv k \<Longrightarrow> timer_inv (set_event e f k)"
  by (rule timer_inv_write [of k]) simp_all

lemma base_inv_set_event [simp]: "base_inv k \<Longrightarrow> base_inv (set_event e f k)"
  by (simp add: base_inv_def)

section \<open>Sending\<close>

text \<open>The state after some rounds of the loop: the threads \<open>W\<close> have been woken and hold what they received,
  the other waiters are as before, and pending events have only been taken away.\<close>

definition received :: "u8 \<Rightarrow> u32 \<Rightarrow> u32 \<Rightarrow> bool" where
  "received info want got \<longleftrightarrow>
     (if info AND RT_EVENT_FLAG_AND \<noteq> 0 then got = want else got AND want = got \<and> got \<noteq> 0)"

definition taken :: "kernel \<Rightarrow> tid list \<Rightarrow> u32 \<Rightarrow> u32" where
  "taken k W p = foldl (\<lambda>s t. if th_event_info (threads k t) AND RT_EVENT_FLAG_CLEAR \<noteq> 0
     then s AND NOT (th_event_set (threads k t)) else s) p W"

lemma taken_simps [simp]:
  "taken k [] p = p"
  "taken k (t # W) p = taken k W (if th_event_info (threads k t) AND RT_EVENT_FLAG_CLEAR \<noteq> 0
     then p AND NOT (th_event_set (threads k t)) else p)"
  "taken k (W @ W') p = taken k W' (taken k W p)"
  by (simp_all add: taken_def)

lemma taken_cong:
  assumes "\<And>t. t \<in> set W \<Longrightarrow> th_event_info (threads k' t) = th_event_info (threads k t)"
    "\<And>t. t \<in> set W \<Longrightarrow> th_event_set (threads k' t) = th_event_set (threads k t)"
  shows "taken k' W p = taken k W p"
  unfolding taken_def by (rule foldl_cong) (use assms in simp_all)

lemma taken_subset: "taken k W p AND p = taken k W p"
proof (induction W arbitrary: p)
  case (Cons t W)
  have "taken k W q AND p = taken k W q" if "q AND p = q" for q
    using Cons [of q] that by (metis and.assoc)
  then show ?case by (simp add: and.assoc and.left_commute and.commute)
qed simp

definition event_woke :: "nat \<Rightarrow> tid list \<Rightarrow> kernel \<Rightarrow> kernel \<Rightarrow> bool" where
  "event_woke e W k k' \<longleftrightarrow>
     base_inv k' \<and> set W \<subseteq> set (tlists k (LEvent e)) \<and>
     tlists k' (LEvent e) = filter (\<lambda>t. t \<notin> set W) (tlists k (LEvent e)) \<and>
     (\<forall>l. wait_list l \<longrightarrow> l \<noteq> LEvent e \<longrightarrow> tlists k' l = tlists k l) \<and>
     (\<forall>t. th_event_info (threads k' t) = th_event_info (threads k t) \<and>
        th_error (threads k' t) = th_error (threads k t) \<and> runnable k' t = (runnable k t \<or> t \<in> set W) \<and>
        (t \<notin> set W \<longrightarrow> th_event_set (threads k' t) = th_event_set (threads k t))) \<and>
     (\<forall>t \<in> set W. received (th_event_info (threads k t)) (th_event_set (threads k t)) (th_event_set (threads k' t))) \<and>
     ev_set (events k' e) = taken k' W (ev_set (events k e)) \<and>
     (\<forall>e'. e' \<noteq> e \<longrightarrow> events k' e' = events k e')"

lemma event_woke_refl: "base_inv k \<Longrightarrow> event_woke e [] k k"
  by (simp add: event_woke_def)

lemma base_inv_upd_thread:
  assumes "base_inv k" "th_stat (f (threads k t)) = th_stat (threads k t)"
    "th_current_priority (f (threads k t)) = th_current_priority (threads k t)"
    "th_number_mask (f (threads k t)) = th_number_mask (threads k t)"
  shows "base_inv (upd_thread t f k)"
proof -
  have st: "thread_stat (upd_thread t f k) u = thread_stat k u" for u
    using assms(2) by (simp add: thread_stat_def)
  have "sched_inv (upd_thread t f k)"
    using base_invD(1) [OF assms(1)] by (rule sched_inv_slice) (use assms in simp_all)
  moreover have "timer_inv (upd_thread t f k)"
    by (rule timer_inv_cong [OF _ _ _ base_invD(2) [OF assms(1)]])
      (simp_all add: live_def st del: thread_stat_upd)
  ultimately show ?thesis using base_invD(3) [OF assms(1)] by (simp add: base_inv_def)
qed

lemma event_send_one_step:
  assumes b: "base_inv k" and t: "t \<in> set (tlists k (LEvent e))"
  obtains (woken) k' where "event_send_one e t k = Some (True, k')" "event_woke e [t] k k'"
    | (left) "event_send_one e t k = Some (False, k)" "unsatisfied k (ev_set (events k e)) t"
proof (cases "event_satisfied (th_event_info (threads k t)) (th_event_set (threads k t)) (ev_set (events k e))")
  case sat: True
  let ?info = "th_event_info (threads k t)" and ?p = "ev_set (events k e)"
  define k1 where "k1 = (if ?info AND 1 \<noteq> 0 then k
    else upd_thread t (\<lambda>th. th\<lparr>th_event_set := th_event_set th AND ?p\<rparr>) k)"
  define k2 where "k2 = (if ?info AND 4 \<noteq> 0
    then set_event e (\<lambda>s. s AND NOT (th_event_set (threads k1 t))) k1 else k1)"
  have th: "threads k2 = threads k1" "tlists k2 = tlists k" "rt_current_thread k2 = rt_current_thread k"
    "events k1 = events k" "e' \<noteq> e \<Longrightarrow> events k2 e' = events k e'" for e'
    by (simp_all add: k2_def k1_def) (simp_all add: upd_thread_def set_event_def)
  have u: "u \<noteq> t \<Longrightarrow> threads k1 u = threads k u" "th_event_info (threads k1 u) = th_event_info (threads k u)"
    "th_error (threads k1 u) = th_error (threads k u)" "thread_stat k1 u = thread_stat k u" for u
    by (simp_all add: k1_def thread_stat_def)
  have rec: "received ?info (th_event_set (threads k t)) (th_event_set (threads k1 t))"
    using sat by (auto simp: received_def k1_def event_satisfied_def and.commute and.left_commute split: if_splits)
  have "base_inv k1" using b by (auto simp: k1_def intro: base_inv_upd_thread)
  then have b2: "base_inv k2" by (simp add: k2_def)
  have st: "thread_stat k2 u = thread_stat k u" for u using u(4) [of u] th(1) by (simp add: thread_stat_def)
  then have "thread_stat k2 t = 2" using waiter_suspended [OF base_invD(1) [OF b] _ t] by simp
  from rt_thread_resume_step [OF base_invD(1,2) [OF b2] this] obtain k'
    where k': "rt_thread_resume t k2 = Some (RT_EOK, k')" "woken t k2 k'" by blast
  note w = wokenD [OF k'(2)] and f = only_statD [OF wokenD(4) [OF k'(2)]]
  have "event_send_one e t k = Some (True, k')"
    using sat k'(1) unfolding event_send_one_def k2_def k1_def by (simp add: Let_def)
  moreover have "event_woke e [t] k k'"
  proof -
    have ev: "events k' = events k2" using ipc_sameD(3) [OF w(3)] .
    have p: "ev_set (events k' e) = taken k' [t] ?p"
      using ev th(1,4) u(2) f by (simp add: k2_def)
    have off: "t \<notin> set (tlists k l)" if "l \<noteq> LEvent e" for l
      using sched_core_disjoint [of "{}" k t "LEvent e" l] t base_invD(1) [OF b] that by (auto simp: sched_inv_def)
    have "runnable k' u = (runnable k u \<or> u = t)" for u
      using w(5) w(6) [of u] st [of u] th(1) by (cases "u = t") (simp_all add: runnable_def thread_stat_def)
    moreover have "tlists k' (LEvent e) = filter (\<lambda>u. u \<noteq> t) (tlists k (LEvent e))"
      using w(7) [of "LEvent e"] th(2) by (simp add: removeAll_filter_not_eq eq_commute)
    moreover have "tlists k' l = tlists k l" if "wait_list l" "l \<noteq> LEvent e" for l
      using woken_wait_list [OF k'(2) that(1)] off [OF that(2)] th(2) by simp
    moreover have "base_inv k'" using w b2 by (simp add: base_inv_def)
    ultimately show ?thesis
      using t f u th rec p ev by (simp add: event_woke_def)
  qed
  ultimately show ?thesis by (rule woken)
next
  case False
  then show ?thesis by (intro left) (simp_all add: event_send_one_def unsatisfied_def Let_def)
qed

lemma event_woke_trans:
  assumes 1: "event_woke e W k k1" and 2: "event_woke e W' k1 k2"
  shows "event_woke e (W @ W') k k2"
proof -
  note a = 1 [unfolded event_woke_def] and b = 2 [unfolded event_woke_def]
  have disj: "t \<notin> set W" if "t \<in> set W'" for t using a b that by auto
  have "received (th_event_info (threads k t)) (th_event_set (threads k t)) (th_event_set (threads k2 t))"
    if "t \<in> set W \<union> set W'" for t
  proof (cases "t \<in> set W'")
    case True
    with a b disj [OF True] show ?thesis by metis
  next
    case False
    with a b that show ?thesis by (metis Un_iff)
  qed
  moreover have "taken k2 W p = taken k1 W p" for p
    by (rule taken_cong) (use b disj in auto)
  then have "ev_set (events k2 e) = taken k2 (W @ W') (ev_set (events k e))"
    using a b by simp
  moreover have "set W' \<subseteq> set (tlists k (LEvent e))" using a b by auto
  moreover have "tlists k2 (LEvent e) = filter (\<lambda>t. t \<notin> set (W @ W')) (tlists k (LEvent e))"
    using a b by (simp add: conj_commute)
  ultimately show ?thesis using a b unfolding event_woke_def by auto
qed

lemma event_woke_unsatisfied:
  assumes "event_woke e W k k'" "t \<notin> set W" "unsatisfied k (ev_set (events k e)) t"
  shows "unsatisfied k' (ev_set (events k' e)) t"
proof -
  have "unsatisfied k' (ev_set (events k e)) t"
    using assms unsatisfied_cong [of k' t k] by (simp add: event_woke_def)
  then show ?thesis by (rule unsatisfied_mono) (use assms(1) in \<open>simp add: event_woke_def taken_subset\<close>)
qed

lemma event_send_loop_step:
  assumes "base_inv k" "set ts \<subseteq> set (tlists k (LEvent e))" "distinct ts"
  shows "\<exists>W k'. event_send_loop e ts n k = Some (n \<or> W \<noteq> [], k') \<and> event_woke e W k k' \<and> set W \<subseteq> set ts \<and>
    (\<forall>t \<in> set ts - set W. unsatisfied k' (ev_set (events k' e)) t)"
  using assms
proof (induction ts arbitrary: n k)
  case Nil
  then show ?case by (auto simp: event_woke_refl intro!: exI [of _ "[]"])
next
  case (Cons t ts)
  then have t: "t \<in> set (tlists k (LEvent e))" by simp
  from Cons.prems(1) t show ?case
  proof (cases rule: event_send_one_step)
    case (woken k1)
    have "set ts \<subseteq> set (tlists k1 (LEvent e))" "base_inv k1"
      using woken(2) Cons.prems(2,3) by (auto simp: event_woke_def)
    then obtain W k' where W: "event_send_loop e ts True k1 = Some (True, k')"
      "event_woke e W k1 k'" "set W \<subseteq> set ts" "\<forall>t \<in> set ts - set W. unsatisfied k' (ev_set (events k' e)) t"
      using Cons.IH [of k1 True] Cons.prems(3) by auto
    have "event_woke e (t # W) k k'" using event_woke_trans [OF woken(2) W(2)] by simp
    with woken(1) W show ?thesis by (intro exI [of _ "t # W"] exI [of _ k']) auto
  next
    case left
    obtain W k' where W: "event_send_loop e ts n k = Some (n \<or> W \<noteq> [], k')" "event_woke e W k k'" "set W \<subseteq> set ts"
      "\<forall>t \<in> set ts - set W. unsatisfied k' (ev_set (events k' e)) t"
      using Cons.IH [of k n] Cons.prems by auto
    moreover have "t \<notin> set W" using W(3) Cons.prems(3) by auto
    then have "unsatisfied k' (ev_set (events k' e)) t" using event_woke_unsatisfied [OF W(2) _ left(2)] by simp
    ultimately show ?thesis using left(1) by (intro exI [of _ W] exI [of _ k']) auto
  qed
qed

lemma event_woke_resched:
  assumes w: "event_woke e W k k1" and r: "resched k1 k'"
  shows "event_woke e W k k'"
proof -
  note d = reschedD [OF r] and f = only_statD [OF reschedD(4) [OF r]]
  have "tlists k' l = tlists k1 l" if "wait_list l" for l using resched_wait_list [OF r that] .
  moreover have "events k' = events k1" using ipc_sameD(3) [OF d(2)] .
  moreover have "base_inv k'"
    using w d(1,8) timer_inv_resched [OF r] by (simp add: event_woke_def base_inv_def)
  moreover have "taken k' W p = taken k1 W p" for p by (rule taken_cong) (use f in simp_all)
  ultimately show ?thesis using w d(6) f unfolding event_woke_def by simp
qed

lemma event_inv_other:
  assumes s: "sched_inv k" and w: "event_woke e W k k'" and e: "e' \<noteq> e" "event_inv k e'"
  shows "event_inv k' e'"
  unfolding event_inv_def
proof
  fix t
  note a = w [unfolded event_woke_def]
  assume "t \<in> set (tlists k' (LEvent e'))"
  then have t: "t \<in> set (tlists k (LEvent e'))" using a e(1) by simp
  then have "t \<notin> set W"
    using a sched_core_disjoint [of "{}" k t "LEvent e" "LEvent e'"] s e(1) by (auto simp: sched_inv_def)
  then show "unsatisfied k' (ev_set (events k' e')) t"
    using a e t unsatisfied_cong [of k' t k] by (simp add: event_inv_def)
qed

lemma event_woke_set_event:
  assumes "event_woke e W (set_event e f k) k'"
  shows "set W \<subseteq> set (tlists k (LEvent e))" "tlists k' (LEvent e) = filter (\<lambda>t. t \<notin> set W) (tlists k (LEvent e))"
    "t \<in> set W \<Longrightarrow> runnable k' t" "th_error (threads k' t) = th_error (threads k t)"
    "t \<in> set W \<Longrightarrow> received (th_event_info (threads k t)) (th_event_set (threads k t)) (th_event_set (threads k' t))"
    "ev_set (events k' e) = taken k' W (f (ev_set (events k e)))"
    "th_event_info (threads k' t) = th_event_info (threads k t)"
    "t \<notin> set W \<Longrightarrow> th_event_set (threads k' t) = th_event_set (threads k t)"
  using assms by (simp_all add: event_woke_def)


text \<open>The example: thread 3 waits for both events 1 and 2 and clears what it receives.\<close>

definition demo_event :: kernel where
  "demo_event = upd_thread 3 (\<lambda>th. th\<lparr>th_event_set := 3, th_event_info := 5\<rparr>) (demo_wait (LEvent 0))"

lemma demo_event_inv:
  "base_inv demo_event" "rt_object_get_type demo_event (OEvent 0) = RT_Object_Class_Event"
  "tlists demo_event (LEvent 0) = [3]" "\<forall>e'. event_inv demo_event e'"
  "ev_set (events demo_event 0) = 0" "th_event_info (threads demo_event 3) = 5" "th_event_set (threads demo_event 3) = 3"
  "th_error (threads demo_event 3) = 0"
proof -
  have "base_inv (demo_wait (LEvent 0))" by (simp add: base_inv_def demo_wait_inv)
  then show "base_inv demo_event" unfolding demo_event_def by (rule base_inv_upd_thread) simp_all
  show "rt_object_get_type demo_event (OEvent 0) = RT_Object_Class_Event"
    by (simp add: rt_object_get_type_def demo_event_def demo_wait_def demo_kernel_def upd_thread_def)
      (simp add: oref_class_def)
  show tl: "tlists demo_event (LEvent 0) = [3]" by (simp add: demo_event_def demo_wait_def)
  show "ev_set (events demo_event 0) = 0" "th_event_info (threads demo_event 3) = 5" "th_event_set (threads demo_event 3) = 3"
    "th_error (threads demo_event 3) = 0"
    by (simp_all add: demo_event_def demo_wait_def demo_simps upd_thread_def)
  then show "\<forall>e'. event_inv demo_event e'"
    using tl by (auto simp: event_inv_def unsatisfied_def event_satisfied_def demo_event_def demo_wait_def demo_simps)
qed


section \<open>Receiving\<close>

text \<open>\<^verbatim>\<open>rt_event_recv\<close> called by the running thread returns at once with the pending events it asked for
  when they satisfy it (removing them if it clears), fails at once when it must not wait, and otherwise
  queues the thread; that every waiter is unsatisfied stays true.\<close>

theorem rt_event_recv_ok:
  assumes b: "base_inv k" and i: "in_thread k t" and tm: "time_ok timeout" and ev: "event_inv k e"
    and ty: "rt_object_get_type k (OEvent e) = RT_Object_Class_Event" and f: "ipc_flag (obj_flag (objs k (OEvent e)))"
    and a: "evs \<noteq> 0" "option AND RT_EVENT_FLAG_AND \<noteq> 0 \<or> option AND RT_EVENT_FLAG_OR \<noteq> 0"
  shows "\<exists>r k'. rt_event_recv e evs option timeout k = Some (r, k') \<and> base_inv k' \<and> event_inv k' e \<and>
    (r, ev_set (events k' e), tlists k' (LEvent e)) =
      (let p = ev_set (events k e); q = tlists k (LEvent e)
       in if event_satisfied option evs p
          then (Done (RT_EOK, Some (p AND evs)),
                if option AND RT_EVENT_FLAG_CLEAR \<noteq> 0 then p AND NOT evs else p, q)
          else if timeout = 0 then (Done (- RT_ETIMEOUT, None), p, q)
          else (Blocked t, p, enqueue (obj_flag (objs k (OEvent e))) (prio k) t q))"
proof -
  let ?p = "ev_set (events k e)" and ?k = "set_error t RT_EOK k"
  have b1: "base_inv (set_error t x k)" for x using b set_error_inv [of k t x] by (simp add: base_inv_def)
  have uns: "unsatisfied (set_error t x k) p u = unsatisfied k p u" for x p u
    by (rule unsatisfied_cong) (simp_all add: set_error_def)
  have uns2: "unsatisfied (set_error t y (set_error t x k)) p u = unsatisfied k p u" for x y p u
    by (rule unsatisfied_cong) (simp_all add: set_error_def)
  have start: "rt_event_recv e evs option timeout k =
     (if event_satisfied option evs ?p then
        Some (Done (RT_EOK, Some (?p AND evs)),
          if option AND 4 \<noteq> 0 then set_event e (\<lambda>s. s AND NOT evs) ?k else ?k)
      else if timeout = 0 then Some (Done (- 2, None), set_error t (- 2) ?k)
      else do {
        k' \<leftarrow> ipc_wait (LEvent e) (obj_flag (objs k (OEvent e))) t timeout
               (upd_thread t (\<lambda>th. th\<lparr>th_event_set := evs, th_event_info := option\<rparr>) ?k);
        Some (Blocked t, k') })"
    using i ty a by (simp add: rt_event_recv_def in_thread_def rt_debug_in_thread_context_def rt_thread_self_def
        Let_def upd_thread_def)
  consider (sat) "event_satisfied option evs ?p" | (poll) "\<not> event_satisfied option evs ?p" "timeout = 0"
    | (wait) "\<not> event_satisfied option evs ?p" "timeout \<noteq> 0" by blast
  then show ?thesis
  proof cases
    case sat
    let ?k' = "if option AND 4 \<noteq> 0 then set_event e (\<lambda>s. s AND NOT evs) ?k else ?k"
    have "event_inv ?k' e"
      using ev unsatisfied_mono [of k ?p _ "?p AND NOT evs"]
      by (auto simp: event_inv_def uns and.assoc and.left_commute and.commute)
    then show ?thesis using sat start b1 by (intro exI [of _ "Done (0, Some (?p AND evs))"] exI [of _ ?k']) (simp add: Let_def)
  next
    case poll
    have "event_inv (set_error t (- 2) ?k) e" using ev by (simp add: event_inv_def uns2)
    moreover have "base_inv (set_error t (- 2) ?k)"
      using b1 [of 0] set_error_inv [of ?k t "- 2"] by (simp add: base_inv_def)
    ultimately show ?thesis using poll start by (intro exI [of _ "Done (- 2, None)"] exI [of _ "set_error t (- 2) ?k"]) (simp add: Let_def)
  next
    case wait
    let ?k1 = "upd_thread t (\<lambda>th. th\<lparr>th_event_set := evs, th_event_info := option\<rparr>) ?k"
    have b2: "base_inv ?k1" using b1 by (rule base_inv_upd_thread) simp_all
    have r: "runnable ?k1 t" using i by (simp add: in_thread_def runnable_def set_error_def thread_stat_def)
    obtain k' where k': "ipc_wait (LEvent e) (obj_flag (objs k (OEvent e))) t timeout ?k1 = Some k'"
      "waits (LEvent e) (obj_flag (objs k (OEvent e))) t ?k1 k'"
      using ipc_wait_step [OF base_invD(1,2) [OF b2] r f _ base_invD(3) [OF b2] tm, of "LEvent e"] by auto
    have w: "ipc_same ?k1 k'" "only_stat ?k1 k'"
      "tlists k' (LEvent e) = enqueue (obj_flag (objs k (OEvent e))) (prio ?k1) t (tlists k (LEvent e))"
      using k'(2) by (simp_all add: waits_def)
    have pr: "prio ?k1 = prio k" by (simp add: fun_eq_iff set_error_def prio_def)
    have evs: "events k' = events k" using ipc_sameD(3) [OF w(1)] by (simp add: upd_thread_def)
    have "unsatisfied k' p u = unsatisfied ?k1 p u" for p u
      using only_statD [OF w(2)] by (simp add: unsatisfied_def)
    moreover have "unsatisfied ?k1 ?p u" if "u \<in> set (tlists k (LEvent e)) \<or> u = t" for u
      using that ev wait(1) by (cases "u = t") (auto simp: event_inv_def unsatisfied_def set_error_def)
    ultimately have "event_inv k' e" using w(3) by (auto simp: event_inv_def evs enqueue_set [OF f])
    then show ?thesis
      using wait start k'(1) w(3) pr evs base_inv_waits [OF k'(2)]
      by (intro exI [of _ "Blocked t"] exI [of _ k']) (simp add: Let_def)
  qed
qed

theorem rt_event_recv_ok_witness:
  "\<exists>k'. rt_event_recv 0 2 RT_EVENT_FLAG_OR 5 demo_event = Some (Blocked 1, k') \<and> tlists k' (LEvent 0) = [3, 1]"
proof -
  have "in_thread demo_event 1" "obj_flag (objs demo_event (OEvent 0)) = 0"
    by (simp_all add: in_thread_def demo_event_def demo_wait_def demo_simps thread_stat_def upd_thread_def)
  moreover have "time_ok 5" by (simp add: time_ok_def RT_TICK_HALF_def)
  ultimately show ?thesis
    using rt_event_recv_ok [of demo_event 1 5 0 2 2] demo_event_inv
    by (auto simp: ipc_flag_def event_satisfied_def enqueue_def)
qed

end
