(* ===== verification/Channel.thy ===== *)
theory Channel
  imports Event Queue_Spec
begin

text \<open>
  What mailboxes and message queues share. Both are a bounded queue with a list of waiting receivers and a
  list of waiting senders, and their blocking operations run the same loop: wait while the queue is full
  (or empty), try again with the time that remains, then insert (or remove) and wake the first thread of the
  other side. The locale \<open>channel\<close> states what the loop relies on and proves once that it refines the
  abstract channel; the components interpret it.
\<close>

section \<open>Operations\<close>

text \<open>Waking the first waiter of a list, if there is one, and rescheduling then.\<close>

definition resume_first :: "lid \<Rightarrow> kernel \<Rightarrow> kernel option" where
  "resume_first l k =
     (if tlists k l \<noteq> [] then do { k \<leftarrow> rt_ipc_list_resume l k; rt_schedule k } else Some k)"

text \<open>The local variables of a call that waits: the thread, the time limit and the tick at which the
  thread timer was started; and the limit that remains when the thread runs again.\<close>

record waiter =
  w_thread :: tid
  w_timeout :: u32
  w_start :: rt_tick_t

definition remaining :: "waiter \<Rightarrow> rt_tick_t \<Rightarrow> u32" where
  "remaining w now =
     (if 0 < sint (w_timeout w) then
        let timeout = w_timeout w - (now - w_start w)
        in if sint timeout < 0 then 0 else timeout
      else w_timeout w)"

section \<open>Waiting and waking\<close>

text \<open>The effect of waking the first waiter of \<open>l\<close>, if any.\<close>

definition served :: "lid \<Rightarrow> kernel \<Rightarrow> kernel \<Rightarrow> bool" where
  "served l k k' \<longleftrightarrow>
     base_inv k' \<and> ipc_same k k' \<and> only_stat k k' \<and> tlists k' l = tl (tlists k l) \<and>
     (\<forall>l'. wait_list l' \<longrightarrow> l' \<noteq> l \<longrightarrow> tlists k' l' = tlists k l') \<and>
     (\<forall>t ts. tlists k l = t # ts \<longrightarrow> runnable k' t) \<and>
     orderly k k' \<and> (\<forall>u. runnable k u \<longrightarrow> runnable k' u)"

lemma sched_same_set_error [simp]: "sched_same k (set_error t e k)"
  by (simp add: sched_same_def)

lemma resume_first_step:
  assumes b: "base_inv k" and l: "wait_list l"
  obtains k' where "resume_first l k = Some k'" "served l k k'"
proof (cases "tlists k l")
  case Nil
  then have "served l k k" using b by (simp add: served_def)
  then show ?thesis using Nil that [of k] by (simp add: resume_first_def)
next
  case (Cons t ts)
  obtain k1 where k1: "rt_ipc_list_resume l k = Some k1" "wakes t k k1" "tlists k1 l = ts"
    using rt_ipc_list_resume_step [OF base_invD(1,2) [OF b] l Cons] by blast
  then have "sched_inv k1" "rt_current_thread k1 \<noteq> None" using base_invD(3) [OF b] by (auto simp: wakes_def)
  then obtain k' where k': "rt_schedule k1 = Some k'" "resched k1 k'" by (rule rt_schedule_step)
  have w: "wakes t k k'" using wakes_schedule(1) [OF k1(2) k'(1)] .
  have "t \<notin> set (tlists k l')" if "l' \<noteq> l" for l'
    using sched_core_disjoint [of "{}" k t l l'] base_invD(1) [OF b] Cons that by (auto simp: sched_inv_def)
  moreover have "tlists k' l = ts" using resched_wait_list [OF k'(2) l] k1(3) by simp
  ultimately have "served l k k'"
    using w base_inv_wakes [OF b w] Cons wakes_schedule(2) [OF k1(2) k'(1)] unfolding served_def wakes_def by simp metis
  then show ?thesis using Cons k1(1) k'(1) that [of k'] by (simp add: resume_first_def)
qed

lemma ipc_block_step:
  assumes b: "base_inv k" and i: "in_thread k t" and tm: "time_ok time" and f: "ipc_flag flag" and l: "wait_list l"
  obtains k' where "ipc_wait l flag t time (set_error t e k) = Some k'" "waits l flag t (set_error t e k) k'"
proof -
  have "runnable (set_error t e k) t" using i by (simp add: in_thread_def runnable_def)
  from ipc_wait_step [OF set_error_inv [OF base_invD(1,2) [OF b]] this f l _ tm] base_invD(3) [OF b] that
  show ?thesis by auto
qed

text \<open>The same wait where the source links the thread at the tail of the list itself.\<close>

lemma append_block_step:
  assumes b: "base_inv k" and i: "in_thread k t" and tm: "time_ok time" and l: "wait_list l"
  obtains k1 k' where "rt_thread_suspend t (set_error t e k) = Some (RT_EOK, k1)" "rt_interrupt_nest k1 = 0"
    "wait_for t time (tlist_append l t k1) = Some k'" "waits l RT_IPC_FLAG_FIFO t (set_error t e k) k'"
proof -
  let ?k = "set_error t e k"
  have "runnable ?k t" using i by (simp add: in_thread_def runnable_def)
  with set_error_inv [OF base_invD(1,2) [OF b]] obtain k1
    where k1: "rt_thread_suspend t ?k = Some (RT_EOK, k1)" "parked t ?k k1" by (blast intro: rt_thread_suspend_step)
  have n: "rt_interrupt_nest k1 = 0" using ipc_sameD(10) [OF parkedD(3) [OF k1(2)]] i by (simp add: in_thread_def)
  obtain k' where k': "ipc_wait l RT_IPC_FLAG_FIFO t time ?k = Some k'" "waits l RT_IPC_FLAG_FIFO t ?k k'"
    using ipc_block_step [OF b i tm _ l, of RT_IPC_FLAG_FIFO] by (auto simp: ipc_flag_def)
  then have "wait_for t time (tlist_append l t k1) = Some k'"
    using k1(1) by (simp add: ipc_wait_def rt_ipc_list_suspend_def enqueue_def tlist_append_def)
  with k1(1) n show ?thesis by (rule that) (rule k'(2))
qed

text \<open>How much of a time limit is left.\<close>

lemma mod_half:
  fixes a :: int
  assumes "0 \<le> a" "a < 0x100000000"
  shows "(a + 0x80000000) mod 0x100000000 = (if a < 0x80000000 then a + 0x80000000 else a - 0x80000000)"
proof (cases "a < 0x80000000")
  case True
  with assms show ?thesis by (simp add: mod_pos_pos_trivial)
next
  case False
  have "(a - 0x80000000 + 0x100000000) mod 0x100000000 = (a - 0x80000000) mod 0x100000000" by (rule mod_add_self2)
  also have "\<dots> = a - 0x80000000" using False assms by (intro mod_pos_pos_trivial) linarith+
  finally show ?thesis using False by (simp add: add.commute)
qed

lemma sint_u32: "sint (x :: u32) = (if unat x < 0x80000000 then int (unat x) else int (unat x) - 0x100000000)"
proof -
  have "sint x = (uint x + 0x80000000) mod 0x100000000 - 0x80000000"
    using int_word_sint [of "uint x", where ?'a = 32] by simp
  moreover have "uint x = int (unat x)" by simp
  moreover have "int (unat x) < 0x100000000" using unat_bound [of x] by (simp del: of_nat_unat unsigned_less)
  ultimately show ?thesis using mod_half [of "int (unat x)"] by (simp del: of_nat_unat unsigned_less)
qed

lemma sint_u32_neg: "0x80000000 \<le> unat x \<Longrightarrow> sint (x :: u32) < 0"
  using unat_bound [of x] by (simp add: sint_u32 del: of_nat_unat unsigned_less)

lemma remaining_exact:
  assumes "0 < sint (w_timeout w)" "unat (now - w_start w) < 2 ^ 31"
  shows "unat (remaining w now) = unat (w_timeout w) - unat (now - w_start w)"
proof -
  let ?t = "w_timeout w" and ?d = "now - w_start w"
  have t: "unat ?t < 2 ^ 31" using assms(1) unat_bound [of ?t] by (simp add: sint_u32 del: of_nat_unat split: if_splits)
  show ?thesis
  proof (cases "?d \<le> ?t")
    case True
    then have "unat (?t - ?d) = unat ?t - unat ?d" by (simp add: unat_sub word_le_nat_alt)
    with t assms(1) show ?thesis by (auto simp: remaining_def Let_def sint_u32)
  next
    case False
    then have lt: "unat ?t < unat ?d" by (simp add: word_le_nat_alt)
    then have "?d \<noteq> ?t" by auto
    with lt have "unat (?t - ?d) = 2 ^ 32 - (unat ?d - unat ?t)"
      using unat_neg [of "?d - ?t"] by (simp add: unat_sub word_le_nat_alt)
    then have "sint (?t - ?d) < 0" using assms(2) by (intro sint_u32_neg) simp
    with lt assms(1) show ?thesis by (simp add: remaining_def Let_def)
  qed
qed

section \<open>The abstract channel\<close>

text \<open>A bounded list of items, the waiting receivers and the waiting senders.\<close>

type_synonym 'a chan_state = "'a list \<times> tid list \<times> tid list"

definition chan_send ::
  "(tid list \<Rightarrow> tid list) \<Rightarrow> nat \<Rightarrow> waiter \<Rightarrow> 'a \<Rightarrow> 'a chan_state \<Rightarrow> (rt_err_t, waiter) outcome \<times> 'a chan_state" where
  "chan_send enq cap w v st =
     (let (q, rs, ss) = st
      in if length q < cap then (Done RT_EOK, (q @ [v], tl rs, ss))
         else if w_timeout w = 0 then (Done (- RT_EFULL), (q, rs, ss))
         else (Blocked w, (q, rs, enq ss)))"

definition chan_recv ::
  "(tid list \<Rightarrow> tid list) \<Rightarrow> waiter \<Rightarrow> ('a \<Rightarrow> 'b) \<Rightarrow> 'a chan_state \<Rightarrow>
     (rt_err_t \<times> 'b option, waiter) outcome \<times> 'a chan_state" where
  "chan_recv enq w view st =
     (let (q, rs, ss) = st
      in case q of
           v # q' \<Rightarrow> (Done (RT_EOK, Some (view v)), (q', rs, tl ss))
         | [] \<Rightarrow> if w_timeout w = 0 then (Done (- RT_ETIMEOUT, None), (q, rs, ss))
                else (Blocked w, (q, enq rs, ss)))"

section \<open>The blocking loops\<close>

locale channel = bounded_queue ok contents cap item put get full vacant
  for ok :: "'q \<Rightarrow> bool" and contents :: "'q \<Rightarrow> 'a list" and cap :: "'q \<Rightarrow> nat"
    and item :: "'q \<Rightarrow> 'a \<Rightarrow> bool" and put :: "'a \<Rightarrow> 'q \<Rightarrow> 'q option" and get :: "'q \<Rightarrow> ('a \<times> 'q) option"
    and full :: "'q \<Rightarrow> bool" and vacant :: "'q \<Rightarrow> bool" +
  fixes sel :: "kernel \<Rightarrow> 'q" and upd :: "'q \<Rightarrow> kernel \<Rightarrow> kernel" and rl :: lid and sl :: lid
    and flag :: "kernel \<Rightarrow> u8"
  assumes upd_base: "base_inv k \<Longrightarrow> base_inv (upd q k)"
    and upd_tlists: "tlists (upd q k) = tlists k"
    and sel_upd: "sel (upd q k) = q"
    and sel_frame: "ipc_same k k' \<Longrightarrow> sel k' = sel k"
    and flag_frame: "flag (set_error t e k) = flag k"
    and upd_sched: "sched_same k (upd q k)"
    and lists: "wait_list rl" "wait_list sl" "rl \<noteq> sl"
begin

definition send_loop :: "'a \<Rightarrow> tid option \<Rightarrow> u32 \<Rightarrow> kernel \<Rightarrow> ((rt_err_t, waiter) outcome \<times> kernel) option" where
  "send_loop v thread timeout k =
     (if full (sel k) then do {
        t \<leftarrow> thread;
        let k = set_error t RT_EOK k;
        if timeout = 0 then Some (Done (- RT_EFULL), k)
        else do {
          rt_debug_in_thread_context k;
          let w = \<lparr>w_thread = t, w_timeout = timeout, w_start = rt_tick k\<rparr>;
          k \<leftarrow> ipc_wait sl (flag k) t timeout k;
          Some (Blocked w, k)
        }
      }
      else do {
        q \<leftarrow> put v (sel k);
        k \<leftarrow> resume_first rl (upd q k);
        Some (Done RT_EOK, k)
      })"

definition recv_loop ::
  "('a \<Rightarrow> 'b) \<Rightarrow> tid option \<Rightarrow> u32 \<Rightarrow> kernel \<Rightarrow> ((rt_err_t \<times> 'b option, waiter) outcome \<times> kernel) option" where
  "recv_loop view thread timeout k =
     (if vacant (sel k) then do {
        t \<leftarrow> thread;
        let k = set_error t RT_EOK k;
        if timeout = 0 then Some (Done (- RT_ETIMEOUT, None), set_error t (- RT_ETIMEOUT) k)
        else do {
          rt_debug_in_thread_context k;
          let w = \<lparr>w_thread = t, w_timeout = timeout, w_start = rt_tick k\<rparr>;
          k \<leftarrow> ipc_wait rl (flag k) t timeout k;
          Some (Blocked w, k)
        }
      }
      else do {
        (v, q) \<leftarrow> get (sel k);
        k \<leftarrow> resume_first sl (upd q k);
        Some (Done (RT_EOK, Some (view v)), k)
      })"

definition chan :: "kernel \<Rightarrow> 'a chan_state" where
  "chan k = (contents (sel k), tlists k rl, tlists k sl)"

definition stepped :: "kernel \<Rightarrow> kernel \<Rightarrow> bool" where
  "stepped k k' \<longleftrightarrow>
     base_inv k' \<and> ok (sel k') \<and> cap (sel k') = cap (sel k) \<and> item (sel k') = item (sel k) \<and>
     (\<exists>k0. (k0 = k \<or> (\<exists>q. k0 = upd q k)) \<and> ipc_same k0 k') \<and>
     (\<forall>l. wait_list l \<longrightarrow> l \<noteq> rl \<longrightarrow> l \<noteq> sl \<longrightarrow> tlists k' l = tlists k l) \<and>
     orderly k k' \<and> (\<forall>u. runnable k u \<longrightarrow> runnable k' u \<or>
       rt_current_thread k = Some u \<and> (u \<in> set (tlists k' rl) \<or> u \<in> set (tlists k' sl)))"

lemma stepped_served:
  assumes "served l (upd q k) k'" "l = rl \<or> l = sl" "ok q" "cap q = cap (sel k)" "item q = item (sel k)"
  shows "stepped k k'"
    "chan k' = (contents q, if l = rl then tl (tlists k rl) else tlists k rl, if l = sl then tl (tlists k sl) else tlists k sl)"
proof -
  note s = assms(1) [unfolded served_def]
  have sel: "sel k' = q" using s sel_frame [of "upd q k" k'] sel_upd by simp
  show "chan k' = (contents q, if l = rl then tl (tlists k rl) else tlists k rl, if l = sl then tl (tlists k sl) else tlists k sl)"
    using s sel assms(2) lists by (auto simp: chan_def upd_tlists)
  have "orderly k k'" "runnable k u \<Longrightarrow> runnable k' u" for u
    using s orderly_before [OF upd_sched, of q k k'] sched_same_reads(3) [OF upd_sched, of q k u] by simp_all
  then show "stepped k k'" using s sel assms upd_tlists unfolding stepped_def by auto
qed

lemma stepped_waits:
  assumes w: "waits l f t (set_error t e k) k'" and l: "l = rl \<or> l = sl" and ok: "ok (sel k)"
    and c: "rt_current_thread k = Some t" and f: "ipc_flag f"
  shows "stepped k k'"
    "chan k' = (contents (sel k), if l = rl then enqueue f (prio k) t (tlists k rl) else tlists k rl,
       if l = sl then enqueue f (prio k) t (tlists k sl) else tlists k sl)"
proof -
  note a = w [unfolded waits_def]
  have ipc: "ipc_same k k'" using a ipc_same_trans [of k "set_error t e k" k'] by simp
  have sel: "sel k' = sel k" using sel_frame [OF ipc] .
  show "chan k' = (contents (sel k), if l = rl then enqueue f (prio k) t (tlists k rl) else tlists k rl,
       if l = sl then enqueue f (prio k) t (tlists k sl) else tlists k sl)"
    using a sel l lists by (auto simp: chan_def)
  have "orderly k k'" using a orderly_before [OF sched_same_set_error, of t e k k'] by simp
  moreover have "runnable k' u \<or> rt_current_thread k = Some u \<and> (u \<in> set (tlists k' rl) \<or> u \<in> set (tlists k' sl))"
    if "runnable k u" for u
    using that a l c enqueue_set [OF f, of "prio k" t] by (cases "u = t") auto
  ultimately show "stepped k k'" using a l ipc sel ok base_inv_waits [OF w] unfolding stepped_def by auto
qed

lemma stepped_error:
  assumes "base_inv k" "ok (sel k)"
  shows "stepped k (set_error t e k)" "chan (set_error t e k) = chan k"
proof -
  have "ipc_same k (set_error t e k)" by simp
  then show "stepped k (set_error t e k)" "chan (set_error t e k) = chan k"
    using assms sel_frame [of k "set_error t e k"] by (auto simp: stepped_def chan_def orderly_same)
qed

lemma stepped_refl: "base_inv k \<Longrightarrow> ok (sel k) \<Longrightarrow> stepped k k"
  by (auto simp: stepped_def)

lemma send_loop_refines:
  assumes b: "base_inv k" and ok: "ok (sel k)" and v: "item (sel k) v" and f: "ipc_flag (flag k)"
    and tm: "time_ok timeout" and i: "timeout \<noteq> 0 \<longrightarrow> in_thread k t"
  shows "\<exists>r k'. send_loop v (Some t) timeout k = Some (r, k') \<and> stepped k k' \<and>
    (r, chan k') = chan_send (enqueue (flag k) (prio k) t) (cap (sel k))
      \<lparr>w_thread = t, w_timeout = timeout, w_start = rt_tick k\<rparr> v (chan k) \<and>
    (\<forall>u us. r = Done RT_EOK \<longrightarrow> tlists k rl = u # us \<longrightarrow> runnable k' u)"
proof (cases "full (sel k)")
  case False
  then obtain q where q: "put v (sel k) = Some q" "ok q" "contents q = contents (sel k) @ [v]" "cap q = cap (sel k)"
    "item q = item (sel k)" using put_step [OF ok v] by auto
  obtain k' where k': "resume_first rl (upd q k) = Some k'" "served rl (upd q k) k'"
    using resume_first_step [OF upd_base [OF b] lists(1)] by blast
  have "send_loop v (Some t) timeout k = Some (Done RT_EOK, k')" using False q(1) k'(1) by (simp add: send_loop_def)
  moreover have "\<forall>u us. tlists k rl = u # us \<longrightarrow> runnable k' u"
    using k'(2) by (simp add: served_def upd_tlists)
  ultimately show ?thesis
    using stepped_served [OF k'(2) _ q(2,4,5)] q(3) False full_iff [OF ok] lists(3)
    by (simp add: chan_send_def chan_def [of k])
next
  case full: True
  show ?thesis
  proof (cases "timeout = 0")
    case True
    then show ?thesis
      using full stepped_error [OF b ok, of t RT_EOK] full_iff [OF ok]
      by (simp add: send_loop_def chan_send_def Let_def chan_def [of k])
  next
    case False
    with i have it: "in_thread k t" by simp
    obtain k' where k': "ipc_wait sl (flag k) t timeout (set_error t RT_EOK k) = Some k'"
      "waits sl (flag k) t (set_error t RT_EOK k) k'"
      using ipc_block_step [OF b it tm f lists(2)] by blast
    have "send_loop v (Some t) timeout k = Some (Blocked \<lparr>w_thread = t, w_timeout = timeout, w_start = rt_tick k\<rparr>, k')"
      using full False it k'(1)
      by (simp add: send_loop_def Let_def rt_debug_in_thread_context_def in_thread_def flag_frame)
    then show ?thesis
      using stepped_waits [OF k'(2) _ ok in_threadD(1) [OF it] f] full False full_iff [OF ok] lists(3) by (simp add: chan_send_def chan_def [of k])
  qed
qed

lemma recv_loop_refines:
  assumes b: "base_inv k" and ok: "ok (sel k)" and f: "ipc_flag (flag k)"
    and tm: "time_ok timeout" and i: "timeout \<noteq> 0 \<longrightarrow> in_thread k t"
  shows "\<exists>r k'. recv_loop view (Some t) timeout k = Some (r, k') \<and> stepped k k' \<and>
    (r, chan k') = chan_recv (enqueue (flag k) (prio k) t)
      \<lparr>w_thread = t, w_timeout = timeout, w_start = rt_tick k\<rparr> view (chan k) \<and>
    (\<forall>u us x. r = Done (RT_EOK, x) \<longrightarrow> tlists k sl = u # us \<longrightarrow> runnable k' u)"
proof (cases "vacant (sel k)")
  case False
  then obtain v q where q: "get (sel k) = Some (v, q)" "ok q" "contents (sel k) = v # contents q" "cap q = cap (sel k)"
    "item q = item (sel k)" using get_step [OF ok] by auto
  obtain k' where k': "resume_first sl (upd q k) = Some k'" "served sl (upd q k) k'"
    using resume_first_step [OF upd_base [OF b] lists(2)] by blast
  have "recv_loop view (Some t) timeout k = Some (Done (RT_EOK, Some (view v)), k')"
    using False q(1) k'(1) by (simp add: recv_loop_def)
  moreover have "\<forall>u us. tlists k sl = u # us \<longrightarrow> runnable k' u"
    using k'(2) by (simp add: served_def upd_tlists)
  ultimately show ?thesis
    using stepped_served [OF k'(2) _ q(2,4,5)] q(3) lists(3) by (simp add: chan_recv_def chan_def [of k])
next
  case vac: True
  then have nil: "contents (sel k) = []" using vacant_iff [OF ok] by simp
  show ?thesis
  proof (cases "timeout = 0")
    case True
    let ?k' = "set_error t (- 2) (set_error t RT_EOK k)"
    have "ipc_same k ?k'" by simp
    then have "stepped k ?k'" "chan ?k' = chan k"
      using b ok sel_frame [of k ?k'] orderly_after [OF orderly_same sched_same_set_error] by (auto simp: stepped_def chan_def)
    then show ?thesis using vac nil True by (simp add: recv_loop_def chan_recv_def Let_def chan_def [of k])
  next
    case False
    with i have it: "in_thread k t" by simp
    obtain k' where k': "ipc_wait rl (flag k) t timeout (set_error t RT_EOK k) = Some k'"
      "waits rl (flag k) t (set_error t RT_EOK k) k'"
      using ipc_block_step [OF b it tm f lists(1)] by blast
    have "recv_loop view (Some t) timeout k =
        Some (Blocked \<lparr>w_thread = t, w_timeout = timeout, w_start = rt_tick k\<rparr>, k')"
      using vac False it k'(1)
      by (simp add: recv_loop_def Let_def rt_debug_in_thread_context_def in_thread_def flag_frame)
    then show ?thesis
      using stepped_waits [OF k'(2) _ ok in_threadD(1) [OF it] f] nil False lists(3) by (simp add: chan_recv_def chan_def [of k])
  qed
qed

end

end
