(* ===== verification/Completion.thy ===== *)
theory Completion
  imports Channel
begin

text \<open>
  Completions (\<^verbatim>\<open>components/drivers/src/completion.c\<close>): one thread waits until another thread or an interrupt
  handler says that something is done. The abstract completion is a flag and at most one waiter.
\<close>

section \<open>Operations\<close>

abbreviation (input) RT_COMPLETED :: u32 where "RT_COMPLETED \<equiv> 1"
abbreviation (input) RT_UNCOMPLETED :: u32 where "RT_UNCOMPLETED \<equiv> 0"

definition set_completion :: "nat \<Rightarrow> u32 \<Rightarrow> kernel \<Rightarrow> kernel" where
  "set_completion c v k = k\<lparr>completions := (completions k)(c := (completions k c)\<lparr>cp_flag := v\<rparr>)\<rparr>"

definition rt_completion_init :: "nat \<Rightarrow> kernel \<Rightarrow> kernel" where
  "rt_completion_init c k =
     (let k = set_completion c RT_UNCOMPLETED k
      in k\<lparr>tlists := (tlists k)(LCompletion c := [])\<rparr>)"

definition rt_completion_wait :: "nat \<Rightarrow> u32 \<Rightarrow> kernel \<Rightarrow> ((rt_err_t, tid) outcome \<times> kernel) option" where
  "rt_completion_wait c timeout k =
     (if cp_flag (completions k c) \<noteq> RT_COMPLETED then do {
        rt_assert (tlists k (LCompletion c) = []);
        if timeout = 0 then Some (Done (- RT_ETIMEOUT), k)
        else do {
          thread \<leftarrow> rt_thread_self k;
          let k = set_error thread RT_EOK k;
          (_, k) \<leftarrow> rt_thread_suspend thread k;
          let k = tlist_append (LCompletion c) thread k;
          rt_debug_not_in_interrupt k;
          k \<leftarrow> wait_for thread timeout k;
          Some (Blocked thread, k)
        }
      }
      else Some (Done RT_EOK, set_completion c RT_UNCOMPLETED k))"

definition rt_completion_wait_resumed :: "nat \<Rightarrow> tid \<Rightarrow> kernel \<Rightarrow> rt_err_t \<times> kernel" where
  "rt_completion_wait_resumed c thread k =
     (let result = th_error (threads k thread)
      in (result, set_completion c RT_UNCOMPLETED k))"

definition rt_completion_done :: "nat \<Rightarrow> kernel \<Rightarrow> kernel option" where
  "rt_completion_done c k =
     (if cp_flag (completions k c) = RT_COMPLETED then Some k
      else resume_first (LCompletion c) (set_completion c RT_COMPLETED k))"

section \<open>The abstract completion\<close>

text \<open>Whether the event has happened, and who waits for it.\<close>

type_synonym completion_state = "bool \<times> tid option"

definition completion_spec_wait ::
  "tid \<Rightarrow> u32 \<Rightarrow> completion_state \<Rightarrow> ((rt_err_t, tid) outcome \<times> completion_state) option" where
  "completion_spec_wait t timeout st =
     (case st of
        (True, w) \<Rightarrow> Some (Done RT_EOK, (False, w))
      | (False, Some _) \<Rightarrow> None
      | (False, None) \<Rightarrow>
          if timeout = 0 then Some (Done (- RT_ETIMEOUT), st) else Some (Blocked t, (False, Some t)))"

definition completion_spec_done :: "completion_state \<Rightarrow> completion_state" where
  "completion_spec_done st = (if fst st then st else (True, None))"

definition completion_abs :: "kernel \<Rightarrow> nat \<Rightarrow> completion_state" where
  "completion_abs k c =
     (cp_flag (completions k c) = RT_COMPLETED,
      case tlists k (LCompletion c) of [] \<Rightarrow> None | t # _ \<Rightarrow> Some t)"

text \<open>The flag has one of its two values and at most one thread waits.\<close>

definition completion_ok :: "kernel \<Rightarrow> nat \<Rightarrow> bool" where
  "completion_ok k c \<longleftrightarrow>
     cp_flag (completions k c) \<in> {RT_COMPLETED, RT_UNCOMPLETED} \<and> length (tlists k (LCompletion c)) \<le> 1"

section \<open>Effects\<close>

lemma set_completion_frame [simp]:
  "threads (set_completion c v k) = threads k" "tlists (set_completion c v k) = tlists k"
  "rt_current_thread (set_completion c v k) = rt_current_thread k"
  "rt_interrupt_nest (set_completion c v k) = rt_interrupt_nest k"
  "timers_same k0 (set_completion c v k) = timers_same k0 k"
  "cp_flag (completions (set_completion c v k) c') = (if c' = c then v else cp_flag (completions k c'))"
  "runnable (set_completion c v k) t = runnable k t" "prio (set_completion c v k) = prio k"
  by (simp_all add: set_completion_def timers_same_def runnable_def thread_stat_def prio_def fun_eq_iff)

lemma base_inv_set_completion [simp]: "base_inv k \<Longrightarrow> base_inv (set_completion c v k)"
proof -
  assume b: "base_inv k"
  have "sched_inv (set_completion c v k)"
    using base_invD(1) [OF b] sched_inv_cong [of "set_completion c v k" k] by (simp add: set_completion_def)
  with b show ?thesis by (auto simp: base_inv_def intro: timer_inv_write [of k])
qed

text \<open>The wait of a completion is the timed wait of an object that serves in order of arrival.\<close>

lemma rt_completion_wait_blocks:
  assumes b: "base_inv k" and i: "in_thread k t" and tm: "timeout \<noteq> 0" "time_ok timeout"
    and c: "cp_flag (completions k c) \<noteq> RT_COMPLETED" "tlists k (LCompletion c) = []"
  obtains k' where "rt_completion_wait c timeout k = Some (Blocked t, k')"
    "waits (LCompletion c) RT_IPC_FLAG_FIFO t (set_error t RT_EOK k) k'"
proof -
  obtain k1 k' where k1: "rt_thread_suspend t (set_error t RT_EOK k) = Some (RT_EOK, k1)" "rt_interrupt_nest k1 = 0"
    "wait_for t timeout (tlist_append (LCompletion c) t k1) = Some k'"
    "waits (LCompletion c) RT_IPC_FLAG_FIFO t (set_error t RT_EOK k) k'"
    using append_block_step [OF b i tm(2), of "LCompletion c"] by auto
  then have "rt_completion_wait c timeout k = Some (Blocked t, k')"
    using c tm(1) i
    by (simp add: rt_completion_wait_def rt_debug_not_in_interrupt_def rt_thread_self_def in_thread_def Let_def
        tlist_append_def)
  then show ?thesis using k1(4) by (rule that)
qed

lemma completion_list_cases:
  assumes "completion_ok k c"
  obtains "tlists k (LCompletion c) = []" | t where "tlists k (LCompletion c) = [t]"
  using assms by (cases "tlists k (LCompletion c)") (auto simp: completion_ok_def)

lemma set_error_completions [simp]: "completions (set_error t e k) = completions k"
  by (simp add: set_error_def upd_thread_def)

lemma rt_completion_done_step:
  assumes b: "base_inv k" and ok: "completion_ok k c" and f: "cp_flag (completions k c) \<noteq> RT_COMPLETED"
  obtains k' where "rt_completion_done c k = Some k'" "served (LCompletion c) (set_completion c RT_COMPLETED k) k'"
    "completions k' = completions (set_completion c RT_COMPLETED k)" "tlists k' (LCompletion c) = []"
proof -
  let ?k = "set_completion c RT_COMPLETED k"
  obtain k' where k': "resume_first (LCompletion c) ?k = Some k'" "served (LCompletion c) ?k k'"
    using resume_first_step [OF base_inv_set_completion [OF b]] by (metis wait_list_simps(11))
  moreover have "tl (tlists k (LCompletion c)) = []" using ok by (cases rule: completion_list_cases) auto
  ultimately show ?thesis
    using f that [of k'] ipc_sameD(13) [of ?k k'] by (simp add: rt_completion_done_def served_def)
qed

text \<open>C32: completions refine the abstract completion. \<^verbatim>\<open>rt_completion_wait\<close>, called by the running thread, consumes the
  event when it has happened, answers \<^verbatim>\<open>-RT_ETIMEOUT\<close> at once or makes the caller the waiter when it has not, and fails its
  assertion when there is a waiter already; \<^verbatim>\<open>rt_completion_done\<close> always returns, records the event and makes the waiter
  runnable. Both keep the invariants and leave other completions alone.\<close>

theorem rt_completion_refines:
  assumes "base_inv k" "completion_ok k c" "in_thread k t" "time_ok timeout"
  shows "(case completion_spec_wait t timeout (completion_abs k c) of
      None \<Rightarrow> rt_completion_wait c timeout k = None
    | Some (r, st) \<Rightarrow> \<exists>k'. rt_completion_wait c timeout k = Some (r, k') \<and> completion_abs k' c = st \<and>
        base_inv k' \<and> completion_ok k' c \<and> (\<forall>c'. c' \<noteq> c \<longrightarrow> completion_abs k' c' = completion_abs k c')) \<and>
    (\<exists>k'. rt_completion_done c k = Some k' \<and> completion_abs k' c = completion_spec_done (completion_abs k c) \<and>
        base_inv k' \<and> completion_ok k' c \<and> (\<forall>c'. c' \<noteq> c \<longrightarrow> completion_abs k' c' = completion_abs k c') \<and>
        (\<forall>u. completion_abs k c = (False, Some u) \<longrightarrow> runnable k' u))"
    (is "?wait \<and> ?done")
proof
  have fl: "cp_flag (completions k c) = 1 \<or> cp_flag (completions k c) = 0" using assms(2) by (auto simp: completion_ok_def)
  show ?wait
  proof (cases "cp_flag (completions k c) = 1")
    case True
    with assms(1,2) show ?thesis
      by (auto simp: completion_abs_def completion_spec_wait_def rt_completion_wait_def completion_ok_def)
  next
    case False
    from assms(2) show ?thesis
    proof (cases rule: completion_list_cases)
      case 2
      with False show ?thesis by (simp add: completion_abs_def completion_spec_wait_def rt_completion_wait_def)
    next
      case 1
      show ?thesis
      proof (cases "timeout = 0")
        case True
        with False 1 assms(1,2) show ?thesis
          by (simp add: completion_abs_def completion_spec_wait_def rt_completion_wait_def)
      next
        case t: False
        obtain k' where k': "rt_completion_wait c timeout k = Some (Blocked t, k')"
          "waits (LCompletion c) RT_IPC_FLAG_FIFO t (set_error t RT_EOK k) k'"
          using rt_completion_wait_blocks [OF assms(1,3) t assms(4) False 1] .
        have "completions k' = completions k"
          using k'(2) ipc_sameD(13) [of "set_error t RT_EOK k" k'] by (simp add: waits_def)
        then show ?thesis
          using k' False 1 t fl base_inv_waits [OF k'(2)]
          by (simp add: completion_abs_def completion_spec_wait_def completion_ok_def waits_def enqueue_def)
      qed
    qed
  qed
  show ?done
  proof (cases "cp_flag (completions k c) = 1")
    case True
    with assms(1,2) show ?thesis by (simp add: rt_completion_done_def completion_spec_done_def completion_abs_def)
  next
    case False
    obtain k' where k': "rt_completion_done c k = Some k'" "served (LCompletion c) (set_completion c RT_COMPLETED k) k'"
      "completions k' = completions (set_completion c RT_COMPLETED k)" "tlists k' (LCompletion c) = []"
      using rt_completion_done_step [OF assms(1,2) False] .
    then show ?thesis
      using False
      by (auto simp: completion_spec_done_def completion_abs_def completion_ok_def served_def split: list.splits)
  qed
qed

lemma demo_completion_inv:
  "base_inv (demo_wait (LCompletion 0))" "completion_ok (demo_wait (LCompletion 0)) 0"
  "in_thread (demo_wait (LCompletion 0)) 1" "completion_abs (demo_wait (LCompletion 0)) 0 = (False, Some 3)"
  "th_error (threads (demo_wait (LCompletion 0)) 3) = RT_EOK" "\<not> listed (demo_wait (LCompletion 0)) (Thread_Timer 3)"
proof -
  show "base_inv (demo_wait (LCompletion 0))" by (simp add: base_inv_def demo_wait_inv)
qed (simp_all add: completion_ok_def completion_abs_def in_thread_def demo_wait_def demo_simps listed_def)

lemma demo_completion_free:
  "base_inv demo_kernel" "completion_ok demo_kernel 0" "in_thread demo_kernel 1" "completion_abs demo_kernel 0 = (False, None)"
  using demo_kernel_inv demo_timer_inv
  by (simp_all add: base_inv_def completion_ok_def completion_abs_def in_thread_def) (simp_all add: demo_simps)

theorem rt_completion_refines_witness:
  "rt_completion_wait 0 5 (demo_wait (LCompletion 0)) = None \<and>
   (\<exists>k'. rt_completion_done 0 (demo_wait (LCompletion 0)) = Some k' \<and> completion_abs k' 0 = (True, None) \<and> runnable k' 3)"
proof -
  have "time_ok 5" by (simp add: time_ok_def RT_TICK_HALF_def)
  then show ?thesis
    using rt_completion_refines [OF demo_completion_inv(1-3), of 5] demo_completion_inv(4)
    by (auto simp: completion_spec_wait_def completion_spec_done_def)
qed

text \<open>A completion is not lost, whichever side comes first: a thread that waits for an event that has not happened is
  made runnable by \<^verbatim>\<open>rt_completion_done\<close> and its call returns \<^verbatim>\<open>RT_EOK\<close>; when the event has happened first, the call returns \<^verbatim>\<open>RT_EOK\<close>
  at once. In both cases the completion is ready for the next round.\<close>

theorem rt_completion_handover:
  assumes "base_inv k" "in_thread k t" "completion_ok k c" "completion_abs k c = (False, None)"
    and "timeout \<noteq> 0" "time_ok timeout"
  shows "(\<exists>k1 k2 k3. rt_completion_wait c timeout k = Some (Blocked t, k1) \<and> \<not> runnable k1 t \<and>
      rt_completion_done c k1 = Some k2 \<and> runnable k2 t \<and>
      rt_completion_wait_resumed c t k2 = (RT_EOK, k3) \<and> completion_abs k3 c = (False, None)) \<and>
    (\<exists>k1 k2. rt_completion_done c k = Some k1 \<and> rt_completion_wait c timeout k1 = Some (Done RT_EOK, k2) \<and>
      completion_abs k2 c = (False, None))"
    (is "?waiter_first \<and> ?done_first")
proof
  have f: "cp_flag (completions k c) \<noteq> 1" "tlists k (LCompletion c) = []"
    using assms(4) by (auto simp: completion_abs_def split: list.splits)
  obtain k1 where k1: "rt_completion_wait c timeout k = Some (Blocked t, k1)"
    "waits (LCompletion c) RT_IPC_FLAG_FIFO t (set_error t RT_EOK k) k1"
    using rt_completion_wait_blocks [OF assms(1,2,5,6) f] .
  note w = k1(2) [unfolded waits_def]
  have c1: "completions k1 = completions k" using w ipc_sameD(13) [of "set_error t RT_EOK k" k1] by simp
  have l1: "tlists k1 (LCompletion c) = [t]" using w f(2) by (simp add: enqueue_def)
  have "completion_ok k1 c" using assms(3) c1 l1 by (simp add: completion_ok_def)
  with base_inv_waits [OF k1(2)] obtain k2
    where k2: "rt_completion_done c k1 = Some k2" "served (LCompletion c) (set_completion c RT_COMPLETED k1) k2"
      "completions k2 = completions (set_completion c RT_COMPLETED k1)" "tlists k2 (LCompletion c) = []"
    by (rule rt_completion_done_step) (use c1 f in auto)
  have "th_error (threads k2 t) = th_error (threads k1 t)"
    using k2(2) only_statD(4) [of "set_completion c RT_COMPLETED k1" k2 t] by (simp add: served_def)
  also have "\<dots> = 0" using w only_statD(4) [of "set_error t RT_EOK k" k1 t] by simp
  finally have "th_error (threads k2 t) = 0" .
  moreover have "runnable k2 t" using k2(2) l1 by (simp add: served_def)
  moreover have "\<not> runnable k1 t" using w by (simp add: runnable_def)
  ultimately show ?waiter_first
    using k1(1) k2(1,3,4) by (simp add: rt_completion_wait_resumed_def completion_abs_def)
  show ?done_first
    using f by (simp add: rt_completion_done_def resume_first_def rt_completion_wait_def completion_abs_def)
qed

theorem rt_completion_handover_witness:
  "\<exists>k1 k2 k3. rt_completion_wait 0 5 demo_kernel = Some (Blocked 1, k1) \<and> rt_completion_done 0 k1 = Some k2 \<and>
     runnable k2 1 \<and> rt_completion_wait_resumed 0 1 k2 = (RT_EOK, k3)"
proof -
  have "time_ok 5" by (simp add: time_ok_def RT_TICK_HALF_def)
  then show ?thesis
    using rt_completion_handover [OF demo_completion_free(1,3,2,4), of 5] by auto
qed

text \<open>A timeout swallows a completion. When the limit of the waiter expires and the event happens before the waiter
  runs again, the event is recorded, but the waiter clears the flag on its way out while it reports \<^verbatim>\<open>-RT_ETIMEOUT\<close>: nobody
  learns of the event, and the next call waits for another one.\<close>

theorem rt_completion_timeout_swallows:
  assumes "base_inv k" "completion_ok k c" "completion_abs k c = (False, Some t)" "\<not> listed k (Thread_Timer t)"
  shows "\<exists>k1 k2 k3. rt_thread_timeout t k = Some k1 \<and> rt_completion_done c k1 = Some k2 \<and>
    completion_abs k2 c = (True, None) \<and>
    rt_completion_wait_resumed c t k2 = (- RT_ETIMEOUT, k3) \<and> completion_abs k3 c = (False, None)"
proof -
  have l: "tlists k (LCompletion c) = [t]" and f: "cp_flag (completions k c) \<noteq> 1"
    using assms(2,3) by (auto simp: completion_abs_def elim: completion_list_cases split: list.splits)
  have "thread_stat k t = 2" using waiter_suspended [OF base_invD(1) [OF assms(1)], of "LCompletion c" t] l by simp
  from rt_thread_timeout_step [OF base_invD(1,2) [OF assms(1)] this assms(4) base_invD(3) [OF assms(1)]] obtain k1
    where k1: "rt_thread_timeout t k = Some k1" "timed_out t k k1" by blast
  have c1: "completions k1 = completions k" "tlists k1 (LCompletion c) = []" "th_error (threads k1 t) = - RT_ETIMEOUT"
    using k1(2) l ipc_sameD(13) [of k k1] by (simp_all add: timed_out_def)
  then have "rt_completion_done c k1 = Some (set_completion c 1 k1)"
    using f by (simp add: rt_completion_done_def resume_first_def)
  with k1(1) c1 show ?thesis by (simp add: rt_completion_wait_resumed_def completion_abs_def)
qed

theorem rt_completion_timeout_swallows_witness:
  "\<exists>k1 k2 k3. rt_thread_timeout 3 (demo_wait (LCompletion 0)) = Some k1 \<and> rt_completion_done 0 k1 = Some k2 \<and>
     rt_completion_wait_resumed 0 3 k2 = (- RT_ETIMEOUT, k3) \<and> completion_abs k3 0 = (False, None)"
  using rt_completion_timeout_swallows [OF demo_completion_inv(1,2,4,6)] by blast

end
