(* ===== verification/Data_Queue.thy ===== *)
theory Data_Queue
  imports Channel
begin

text \<open>
  Data queues (\<^verbatim>\<open>components/drivers/src/dataqueue.c\<close>): a bounded queue of pointer and length pairs for drivers, with
  waiting producers and consumers, a low-water mark that decides when a producer is woken, and a notification
  function. The two indices are free-running 16-bit counters, compared after promotion to \<^verbatim>\<open>int\<close>.
\<close>

section \<open>Operations\<close>

abbreviation (input) RT_DATAQUEUE_EVENT_POP :: u32 where "RT_DATAQUEUE_EVENT_POP \<equiv> 1"
abbreviation (input) RT_DATAQUEUE_EVENT_PUSH :: u32 where "RT_DATAQUEUE_EVENT_PUSH \<equiv> 2"
abbreviation (input) RT_DATAQUEUE_EVENT_LWM :: u32 where "RT_DATAQUEUE_EVENT_LWM \<equiv> 3"

definition upd_dq :: "nat \<Rightarrow> (rt_data_queue \<Rightarrow> rt_data_queue) \<Rightarrow> kernel \<Rightarrow> kernel" where
  "upd_dq q f k = k\<lparr>dataqueues := (dataqueues k)(q := f (dataqueues k q))\<rparr>"

text \<open>The memory for the array is a parameter: its contents when \<^verbatim>\<open>rt_malloc\<close> returns a region, nothing when it fails.\<close>

definition rt_data_queue_init ::
  "nat \<Rightarrow> u16 \<Rightarrow> u16 \<Rightarrow> nat option \<Rightarrow> rt_data_item list option \<Rightarrow> kernel \<Rightarrow> rt_err_t \<times> kernel" where
  "rt_data_queue_init q sz lwm evt_notify mem k =
     (let k = upd_dq q (\<lambda>dq. dq\<lparr>dq_evt_notify := evt_notify, dq_size := sz, dq_lwm := lwm,
                                dq_get_index := 0, dq_put_index := 0\<rparr>) k;
          k = k\<lparr>tlists := (tlists k)(LDqPush q := [], LDqPop q := [])\<rparr>
      in case mem of
           None \<Rightarrow> (- RT_ENOMEM, upd_dq q (\<lambda>dq. dq\<lparr>dq_queue := []\<rparr>) k)
         | Some items \<Rightarrow> (RT_EOK, upd_dq q (\<lambda>dq. dq\<lparr>dq_queue := items\<rparr>) k))"

text \<open>\<^verbatim>\<open>put_index - get_index\<close> is a subtraction of \<^verbatim>\<open>int\<close>s.\<close>

definition dq_used :: "rt_data_queue \<Rightarrow> int" where
  "dq_used dq = uint (dq_put_index dq) - uint (dq_get_index dq)"

definition dq_full :: "rt_data_queue \<Rightarrow> bool" where
  "dq_full dq \<longleftrightarrow> dq_used dq = uint (dq_size dq)"

text \<open>The array element at an index; a size of 0 and a missing array are errors.\<close>

definition dq_slot :: "rt_data_queue \<Rightarrow> u16 \<Rightarrow> nat option" where
  "dq_slot dq index = do {
     rt_assert (dq_size dq \<noteq> 0);
     let i = unat index mod unat (dq_size dq);
     rt_assert (i < length (dq_queue dq));
     Some i
   }"

definition dq_put :: "rt_data_item \<Rightarrow> rt_data_queue \<Rightarrow> rt_data_queue option" where
  "dq_put x dq = do {
     i \<leftarrow> dq_slot dq (dq_put_index dq);
     Some (dq\<lparr>dq_queue := (dq_queue dq)[i := x], dq_put_index := dq_put_index dq + 1\<rparr>)
   }"

definition dq_get :: "rt_data_queue \<Rightarrow> (rt_data_item \<times> rt_data_queue) option" where
  "dq_get dq = do {
     i \<leftarrow> dq_slot dq (dq_get_index dq);
     Some (dq_queue dq ! i, dq\<lparr>dq_get_index := dq_get_index dq + 1\<rparr>)
   }"

text \<open>What a notification function does is the parameter \<open>notify\<close>: function, queue and event.\<close>

definition dq_notify :: "(nat \<Rightarrow> nat \<Rightarrow> u32 \<Rightarrow> kernel \<Rightarrow> kernel option) \<Rightarrow> nat \<Rightarrow> u32 \<Rightarrow> kernel \<Rightarrow> kernel option" where
  "dq_notify notify q event k =
     (case dq_evt_notify (dataqueues k q) of
        None \<Rightarrow> Some k
      | Some f \<Rightarrow> notify f q event k)"

text \<open>One round of a wait: \<open>thread\<close> goes to the tail of the list, with the whole time limit.\<close>

definition dq_wait :: "lid \<Rightarrow> tid option \<Rightarrow> u32 \<Rightarrow> kernel \<Rightarrow> (tid \<times> kernel) option" where
  "dq_wait l thread timeout k = do {
     rt_debug_not_in_interrupt k;
     t \<leftarrow> thread;
     let k = set_error t RT_EOK k;
     (_, k) \<leftarrow> rt_thread_suspend t k;
     let k = tlist_append l t k;
     k \<leftarrow> wait_for t timeout k;
     Some (t, k)
   }"

definition dq_push_loop ::
  "(nat \<Rightarrow> nat \<Rightarrow> u32 \<Rightarrow> kernel \<Rightarrow> kernel option) \<Rightarrow> nat \<Rightarrow> rt_data_item \<Rightarrow> tid option \<Rightarrow> u32 \<Rightarrow> kernel \<Rightarrow>
     ((rt_err_t, tid) outcome \<times> kernel) option" where
  "dq_push_loop notify q x thread timeout k =
     (if dq_full (dataqueues k q) then
        if timeout = 0 then Some (Done (- RT_ETIMEOUT), k)
        else do {
          (t, k) \<leftarrow> dq_wait (LDqPush q) thread timeout k;
          Some (Blocked t, k)
        }
      else do {
        dq \<leftarrow> dq_put x (dataqueues k q);
        let k = upd_dq q (\<lambda>_. dq) k;
        if tlists k (LDqPop q) \<noteq> [] then do {
          k \<leftarrow> rt_ipc_list_resume (LDqPop q) k;
          k \<leftarrow> rt_schedule k;
          Some (Done RT_EOK, k)
        }
        else do {
          k \<leftarrow> dq_notify notify q RT_DATAQUEUE_EVENT_PUSH k;
          Some (Done RT_EOK, k)
        }
      })"

definition rt_data_queue_push ::
  "(nat \<Rightarrow> nat \<Rightarrow> u32 \<Rightarrow> kernel \<Rightarrow> kernel option) \<Rightarrow> nat \<Rightarrow> u32 \<Rightarrow> u32 \<Rightarrow> u32 \<Rightarrow> kernel \<Rightarrow>
     ((rt_err_t, tid) outcome \<times> kernel) option" where
  "rt_data_queue_push notify q data_ptr data_size timeout k =
     dq_push_loop notify q \<lparr>di_data_ptr = data_ptr, di_data_size = data_size\<rparr> (rt_thread_self k) timeout k"

definition rt_data_queue_push_resumed ::
  "(nat \<Rightarrow> nat \<Rightarrow> u32 \<Rightarrow> kernel \<Rightarrow> kernel option) \<Rightarrow> nat \<Rightarrow> u32 \<Rightarrow> u32 \<Rightarrow> tid \<Rightarrow> u32 \<Rightarrow> kernel \<Rightarrow>
     ((rt_err_t, tid) outcome \<times> kernel) option" where
  "rt_data_queue_push_resumed notify q data_ptr data_size thread timeout k =
     (if th_error (threads k thread) \<noteq> RT_EOK then Some (Done (th_error (threads k thread)), k)
      else dq_push_loop notify q \<lparr>di_data_ptr = data_ptr, di_data_size = data_size\<rparr> (Some thread) timeout k)"

definition dq_pop_loop ::
  "(nat \<Rightarrow> nat \<Rightarrow> u32 \<Rightarrow> kernel \<Rightarrow> kernel option) \<Rightarrow> nat \<Rightarrow> tid option \<Rightarrow> u32 \<Rightarrow> kernel \<Rightarrow>
     ((rt_err_t \<times> rt_data_item option, tid) outcome \<times> kernel) option" where
  "dq_pop_loop notify q thread timeout k =
     (if dq_get_index (dataqueues k q) = dq_put_index (dataqueues k q) then
        if timeout = 0 then Some (Done (- RT_ETIMEOUT, None), k)
        else do {
          (t, k) \<leftarrow> dq_wait (LDqPop q) thread timeout k;
          Some (Blocked t, k)
        }
      else do {
        (x, dq) \<leftarrow> dq_get (dataqueues k q);
        let k = upd_dq q (\<lambda>_. dq) k;
        if dq_used dq \<le> uint (dq_lwm dq) then do {
          k \<leftarrow> resume_first (LDqPush q) k;
          k \<leftarrow> dq_notify notify q RT_DATAQUEUE_EVENT_LWM k;
          Some (Done (RT_EOK, Some x), k)
        }
        else do {
          k \<leftarrow> dq_notify notify q RT_DATAQUEUE_EVENT_POP k;
          Some (Done (RT_EOK, Some x), k)
        }
      })"

definition rt_data_queue_pop ::
  "(nat \<Rightarrow> nat \<Rightarrow> u32 \<Rightarrow> kernel \<Rightarrow> kernel option) \<Rightarrow> nat \<Rightarrow> u32 \<Rightarrow> kernel \<Rightarrow>
     ((rt_err_t \<times> rt_data_item option, tid) outcome \<times> kernel) option" where
  "rt_data_queue_pop notify q timeout k = dq_pop_loop notify q (rt_thread_self k) timeout k"

definition rt_data_queue_pop_resumed ::
  "(nat \<Rightarrow> nat \<Rightarrow> u32 \<Rightarrow> kernel \<Rightarrow> kernel option) \<Rightarrow> nat \<Rightarrow> tid \<Rightarrow> u32 \<Rightarrow> kernel \<Rightarrow>
     ((rt_err_t \<times> rt_data_item option, tid) outcome \<times> kernel) option" where
  "rt_data_queue_pop_resumed notify q thread timeout k =
     (if th_error (threads k thread) \<noteq> RT_EOK then Some (Done (th_error (threads k thread), None), k)
      else dq_pop_loop notify q (Some thread) timeout k)"

definition rt_data_queue_peak :: "nat \<Rightarrow> kernel \<Rightarrow> (rt_err_t \<times> rt_data_item option) option" where
  "rt_data_queue_peak q k =
     (let dq = dataqueues k q
      in if dq_get_index dq = dq_put_index dq then Some (- RT_EEMPTY, None)
         else do {
           i \<leftarrow> dq_slot dq (dq_get_index dq);
           Some (RT_EOK, Some (dq_queue dq ! i))
         })"

definition rt_data_queue_reset :: "nat \<Rightarrow> kernel \<Rightarrow> kernel option" where
  "rt_data_queue_reset q k = do {
     let k = rt_enter_critical k;
     k \<leftarrow> rt_ipc_list_resume_all (LDqPop q) k;
     k \<leftarrow> rt_ipc_list_resume_all (LDqPush q) k;
     k \<leftarrow> rt_exit_critical k;
     rt_schedule k
   }"

section \<open>The queue\<close>

text \<open>As long as the write index has not wrapped, the elements between the two indices are the contents.\<close>

definition dq_ok :: "rt_data_queue \<Rightarrow> bool" where
  "dq_ok dq \<longleftrightarrow>
     dq_size dq \<noteq> 0 \<and> length (dq_queue dq) = unat (dq_size dq) \<and> unat (dq_get_index dq) \<le> unat (dq_put_index dq) \<and>
     unat (dq_put_index dq) - unat (dq_get_index dq) \<le> unat (dq_size dq)"

definition dq_contents :: "rt_data_queue \<Rightarrow> rt_data_item list" where
  "dq_contents dq = ring_view (dq_queue dq) (unat (dq_get_index dq)) (unat (dq_put_index dq) - unat (dq_get_index dq))"

definition dq_shape :: "rt_data_queue \<Rightarrow> rt_data_queue \<Rightarrow> bool" where
  "dq_shape dq dq' \<longleftrightarrow>
     dq_ok dq' \<and> dq_size dq' = dq_size dq \<and> dq_lwm dq' = dq_lwm dq \<and> dq_evt_notify dq' = dq_evt_notify dq"

lemma dq_contents_length: "dq_ok dq \<Longrightarrow> int (length (dq_contents dq)) = dq_used dq"
  by (simp add: dq_ok_def dq_contents_def dq_used_def of_nat_diff)

lemma dq_full_iff: "dq_ok dq \<Longrightarrow> dq_full dq \<longleftrightarrow> length (dq_contents dq) = unat (dq_size dq)"
  using dq_contents_length [of dq] by (simp add: dq_full_def) (metis of_nat_eq_iff of_nat_unat)

lemma dq_empty_iff: "dq_ok dq \<Longrightarrow> dq_get_index dq = dq_put_index dq \<longleftrightarrow> dq_contents dq = []"
  by (auto simp: dq_ok_def dq_contents_def ring_view_def word_unat_eq_iff)

lemma dq_slot_ok: "dq_ok dq \<Longrightarrow> dq_slot dq i = Some (unat i mod unat (dq_size dq))"
  by (simp add: dq_slot_def dq_ok_def unat_gt_0)

lemma u16_Suc: "unat (n :: u16) < 0xffff \<Longrightarrow> unat (n + 1) = Suc (unat n)"
  by (simp add: unat_word_ariths)

lemma dq_put_step:
  assumes ok: "dq_ok dq" and f: "\<not> dq_full dq" and p: "dq_put_index dq \<noteq> 0xffff"
  obtains dq' where "dq_put x dq = Some dq'" "dq_shape dq dq'" "dq_contents dq' = dq_contents dq @ [x]"
proof -
  let ?n = "unat (dq_put_index dq) - unat (dq_get_index dq)"
  let ?dq = "dq\<lparr>dq_queue := (dq_queue dq)[unat (dq_put_index dq) mod unat (dq_size dq) := x], dq_put_index := dq_put_index dq + 1\<rparr>"
  have put: "unat (dq_put_index dq + 1) = Suc (unat (dq_put_index dq))"
    using p unat_bound [of "dq_put_index dq"] by (intro u16_Suc) (auto simp: word_unat_eq_iff less_Suc_eq)
  have n: "?n < length (dq_queue dq)" using f dq_full_iff [OF ok] ok by (auto simp: dq_ok_def dq_contents_def)
  have "dq_put x dq = Some ?dq" by (simp add: dq_put_def dq_slot_ok [OF ok])
  moreover have "dq_shape dq ?dq" using ok n put by (auto simp: dq_shape_def dq_ok_def)
  moreover have "dq_contents ?dq = dq_contents dq @ [x]"
    using ring_put [OF n, of "unat (dq_get_index dq)" x] ok put by (simp add: dq_contents_def dq_ok_def Suc_diff_le)
  ultimately show ?thesis by (rule that)
qed

lemma dq_get_step:
  assumes ok: "dq_ok dq" and e: "dq_get_index dq \<noteq> dq_put_index dq"
  obtains x dq' where "dq_get dq = Some (x, dq')" "dq_shape dq dq'" "dq_contents dq = x # dq_contents dq'"
proof -
  let ?g = "unat (dq_get_index dq)" and ?p = "unat (dq_put_index dq)"
  let ?dq = "dq\<lparr>dq_get_index := dq_get_index dq + 1\<rparr>"
  have lt: "?g < ?p" using ok e by (auto simp: dq_ok_def word_unat_eq_iff)
  have get: "unat (dq_get_index dq + 1) = Suc ?g"
    using lt unat_bound [of "dq_put_index dq"] by (intro u16_Suc) simp
  have "dq_get dq = Some (dq_queue dq ! (?g mod unat (dq_size dq)), ?dq)" by (simp add: dq_get_def dq_slot_ok [OF ok])
  moreover have "dq_shape dq ?dq" using ok lt get by (auto simp: dq_shape_def dq_ok_def)
  moreover have "[0..<?p - ?g] = 0 # map Suc [0..<?p - Suc ?g]"
    using lt by (simp add: map_Suc_upt upt_conv_Cons Suc_diff_Suc)
  then have "dq_contents dq = dq_queue dq ! (?g mod unat (dq_size dq)) # dq_contents ?dq"
    using ok get by (simp add: dq_contents_def ring_view_def dq_ok_def comp_def)
  ultimately show ?thesis by (rule that)
qed

section \<open>The abstract data queue\<close>

text \<open>A bounded list of items, the waiting producers and the waiting consumers. An item wakes the first consumer; taking
  an item wakes the first producer once no more than \<open>lwm\<close> items are left.\<close>

type_synonym dq_state = "rt_data_item list \<times> tid list \<times> tid list"

definition dq_spec_push ::
  "nat \<Rightarrow> tid \<Rightarrow> u32 \<Rightarrow> rt_data_item \<Rightarrow> dq_state \<Rightarrow> (rt_err_t, tid) outcome \<times> dq_state" where
  "dq_spec_push cap t timeout x st =
     (let (xs, ps, cs) = st
      in if length xs < cap then (Done RT_EOK, (xs @ [x], ps, tl cs))
         else if timeout = 0 then (Done (- RT_ETIMEOUT), st)
         else (Blocked t, (xs, ps @ [t], cs)))"

definition dq_spec_pop ::
  "nat \<Rightarrow> tid \<Rightarrow> u32 \<Rightarrow> dq_state \<Rightarrow> (rt_err_t \<times> rt_data_item option, tid) outcome \<times> dq_state" where
  "dq_spec_pop lwm t timeout st =
     (let (xs, ps, cs) = st
      in case xs of
           x # xs' \<Rightarrow> (Done (RT_EOK, Some x), (xs', if length xs' \<le> lwm then tl ps else ps, cs))
         | [] \<Rightarrow> if timeout = 0 then (Done (- RT_ETIMEOUT, None), st) else (Blocked t, (xs, ps, cs @ [t])))"

definition dq_abs :: "kernel \<Rightarrow> nat \<Rightarrow> dq_state" where
  "dq_abs k q = (dq_contents (dataqueues k q), tlists k (LDqPush q), tlists k (LDqPop q))"

text \<open>Everything else stays as it is.\<close>

definition dq_stepped :: "nat \<Rightarrow> kernel \<Rightarrow> kernel \<Rightarrow> bool" where
  "dq_stepped q k k' \<longleftrightarrow>
     base_inv k' \<and> dq_shape (dataqueues k q) (dataqueues k' q) \<and>
     (\<forall>q'. q' \<noteq> q \<longrightarrow> dataqueues k' q' = dataqueues k q') \<and>
     (\<forall>l. wait_list l \<longrightarrow> l \<noteq> LDqPush q \<longrightarrow> l \<noteq> LDqPop q \<longrightarrow> tlists k' l = tlists k l)"

text \<open>What a notification function must respect: it returns, keeps the invariant and touches neither queues nor
  waiting lists. (A function that works on the queue acts after the call it is told about.)\<close>

definition dq_quiet :: "(nat \<Rightarrow> nat \<Rightarrow> u32 \<Rightarrow> kernel \<Rightarrow> kernel option) \<Rightarrow> bool" where
  "dq_quiet notify \<longleftrightarrow>
     (\<forall>f q e k. base_inv k \<longrightarrow>
        (\<exists>k'. notify f q e k = Some k' \<and> base_inv k' \<and> dataqueues k' = dataqueues k \<and>
          (\<forall>l. wait_list l \<longrightarrow> tlists k' l = tlists k l)))"

lemma upd_dq_frame [simp]:
  "threads (upd_dq q f k) = threads k" "tlists (upd_dq q f k) = tlists k" "objs (upd_dq q f k) = objs k"
  "sched_inv (upd_dq q f k) = sched_inv k" "rt_current_thread (upd_dq q f k) = rt_current_thread k"
  "timers_same k0 (upd_dq q f k) = timers_same k0 k" "rt_interrupt_nest (upd_dq q f k) = rt_interrupt_nest k"
  "dataqueues (upd_dq q f k) q' = (if q' = q then f (dataqueues k q) else dataqueues k q')"
  by (simp_all add: upd_dq_def timers_same_def sched_inv_cong [of "upd_dq q f k" k, unfolded upd_dq_def])

lemma base_inv_upd_dq [simp]: "base_inv k \<Longrightarrow> base_inv (upd_dq q f k)"
  by (auto simp: base_inv_def intro: timer_inv_write [of k])

lemma set_error_dataqueues [simp]: "dataqueues (set_error t e k) = dataqueues k"
  by (simp add: set_error_def upd_thread_def)

lemma dq_notify_step:
  assumes "dq_quiet notify" "base_inv k"
  obtains k' where "dq_notify notify q e k = Some k'" "base_inv k'" "dataqueues k' = dataqueues k"
    "\<And>l. wait_list l \<Longrightarrow> tlists k' l = tlists k l"
proof (cases "dq_evt_notify (dataqueues k q)")
  case None
  then show ?thesis using that [of k] assms(2) by (simp add: dq_notify_def)
next
  case (Some f)
  with assms that show ?thesis unfolding dq_notify_def dq_quiet_def by (metis option.simps(5))
qed

lemma dq_wait_step:
  assumes b: "base_inv k" and i: "in_thread k t" and tm: "time_ok timeout" and l: "wait_list l"
    and ok: "dq_ok (dataqueues k q)"
  obtains k' where "dq_wait l (Some t) timeout k = Some (t, k')" "base_inv k'" "dataqueues k' = dataqueues k"
    "tlists k' l = tlists k l @ [t]" "\<And>l'. wait_list l' \<Longrightarrow> l' \<noteq> l \<Longrightarrow> tlists k' l' = tlists k l'"
proof -
  obtain k1 k' where k1: "rt_thread_suspend t (set_error t RT_EOK k) = Some (RT_EOK, k1)"
    "wait_for t timeout (tlist_append l t k1) = Some k'" "waits l RT_IPC_FLAG_FIFO t (set_error t RT_EOK k) k'"
    using append_block_step [OF b i tm l] .
  have "dq_wait l (Some t) timeout k = Some (t, k')"
    using k1(1,2) i by (simp add: dq_wait_def rt_debug_not_in_interrupt_def in_thread_def Let_def)
  moreover have "dataqueues k' = dataqueues k"
    using k1(3) ipc_sameD(14) [of "set_error t RT_EOK k" k'] by (simp add: waits_def)
  ultimately show ?thesis
    using k1(3) base_inv_waits [OF k1(3)] by (intro that [of k']) (simp_all add: waits_def enqueue_def)
qed

lemma dq_push_loop_refines:
  assumes b: "base_inv k" and ok: "dq_ok (dataqueues k q)" and p: "dq_put_index (dataqueues k q) \<noteq> 0xffff"
    and n: "dq_quiet notify" and tm: "time_ok timeout" and i: "timeout \<noteq> 0 \<Longrightarrow> in_thread k t"
  shows "\<exists>r k'. dq_push_loop notify q x (Some t) timeout k = Some (r, k') \<and>
    (r, dq_abs k' q) = dq_spec_push (unat (dq_size (dataqueues k q))) t timeout x (dq_abs k q) \<and> dq_stepped q k k' \<and>
    (\<forall>u us. r = Done RT_EOK \<longrightarrow> tlists k (LDqPop q) = u # us \<longrightarrow> runnable k' u)"
proof (cases "dq_full (dataqueues k q)")
  case full: True
  then have len: "\<not> length (dq_contents (dataqueues k q)) < unat (dq_size (dataqueues k q))"
    using dq_full_iff [OF ok] by simp
  show ?thesis
  proof (cases "timeout = 0")
    case True
    with full len b ok show ?thesis
      by (simp add: dq_push_loop_def dq_spec_push_def dq_abs_def dq_stepped_def dq_shape_def)
  next
    case False
    obtain k' where "dq_wait (LDqPush q) (Some t) timeout k = Some (t, k')" "base_inv k'" "dataqueues k' = dataqueues k"
      "tlists k' (LDqPush q) = tlists k (LDqPush q) @ [t]"
      "\<And>l'. wait_list l' \<Longrightarrow> l' \<noteq> LDqPush q \<Longrightarrow> tlists k' l' = tlists k l'"
      using dq_wait_step [OF b i [OF False] tm _ ok, of "LDqPush q"] by auto
    with False full len ok show ?thesis
      by (simp add: dq_push_loop_def dq_spec_push_def dq_abs_def dq_stepped_def dq_shape_def)
  qed
next
  case False
  have len: "length (dq_contents (dataqueues k q)) < unat (dq_size (dataqueues k q))"
    using False dq_full_iff [OF ok] ok by (auto simp: dq_ok_def dq_contents_def)
  obtain dq where dq: "dq_put x (dataqueues k q) = Some dq" "dq_shape (dataqueues k q) dq"
    "dq_contents dq = dq_contents (dataqueues k q) @ [x]"
    using dq_put_step [OF ok False p] .
  let ?k = "upd_dq q (\<lambda>_. dq) k"
  show ?thesis
  proof (cases "tlists k (LDqPop q) = []")
    case True
    obtain k' where "dq_notify notify q RT_DATAQUEUE_EVENT_PUSH ?k = Some k'" "base_inv k'" "dataqueues k' = dataqueues ?k"
      "\<And>l. wait_list l \<Longrightarrow> tlists k' l = tlists ?k l"
      using dq_notify_step [OF n base_inv_upd_dq [OF b]] by blast
    with False True len dq show ?thesis
      by (simp add: dq_push_loop_def dq_spec_push_def dq_abs_def dq_stepped_def)
  next
    case w: False
    obtain k' where k': "resume_first (LDqPop q) ?k = Some k'" "served (LDqPop q) ?k k'"
      using resume_first_step [OF base_inv_upd_dq [OF b]] by (metis wait_list_simps(13))
    have "dq_push_loop notify q x (Some t) timeout k = Some (Done RT_EOK, k')"
      using False w dq(1) k'(1) by (auto simp: dq_push_loop_def resume_first_def Let_def split: Option.bind_splits)
    moreover have "dataqueues k' = dataqueues ?k" using k'(2) ipc_sameD(14) by (simp add: served_def)
    ultimately show ?thesis
      using k'(2) len dq(2,3) by (auto simp: dq_spec_push_def dq_abs_def dq_stepped_def served_def)
  qed
qed

lemma dq_pop_loop_refines:
  assumes b: "base_inv k" and ok: "dq_ok (dataqueues k q)" and n: "dq_quiet notify" and tm: "time_ok timeout"
    and i: "timeout \<noteq> 0 \<Longrightarrow> in_thread k t"
  shows "\<exists>r k'. dq_pop_loop notify q (Some t) timeout k = Some (r, k') \<and>
    (r, dq_abs k' q) = dq_spec_pop (unat (dq_lwm (dataqueues k q))) t timeout (dq_abs k q) \<and> dq_stepped q k k'"
proof (cases "dq_get_index (dataqueues k q) = dq_put_index (dataqueues k q)")
  case emp: True
  then have len: "dq_contents (dataqueues k q) = []" using dq_empty_iff [OF ok] by simp
  show ?thesis
  proof (cases "timeout = 0")
    case True
    with emp len b ok show ?thesis
      by (simp add: dq_pop_loop_def dq_spec_pop_def dq_abs_def dq_stepped_def dq_shape_def)
  next
    case False
    obtain k' where "dq_wait (LDqPop q) (Some t) timeout k = Some (t, k')" "base_inv k'" "dataqueues k' = dataqueues k"
      "tlists k' (LDqPop q) = tlists k (LDqPop q) @ [t]"
      "\<And>l'. wait_list l' \<Longrightarrow> l' \<noteq> LDqPop q \<Longrightarrow> tlists k' l' = tlists k l'"
      using dq_wait_step [OF b i [OF False] tm _ ok, of "LDqPop q"] by auto
    with False emp len ok show ?thesis
      by (simp add: dq_pop_loop_def dq_spec_pop_def dq_abs_def dq_stepped_def dq_shape_def)
  qed
next
  case False
  obtain x dq where dq: "dq_get (dataqueues k q) = Some (x, dq)" "dq_shape (dataqueues k q) dq"
    "dq_contents (dataqueues k q) = x # dq_contents dq"
    using dq_get_step [OF ok False] .
  have used: "dq_used dq \<le> uint (dq_lwm dq) \<longleftrightarrow> length (dq_contents dq) \<le> unat (dq_lwm (dataqueues k q))"
    using dq_contents_length [of dq] dq(2) by (simp add: dq_shape_def) (metis of_nat_le_iff of_nat_unat)
  let ?k = "upd_dq q (\<lambda>_. dq) k"
  obtain k1 where k1: "(if dq_used dq \<le> uint (dq_lwm dq) then resume_first (LDqPush q) ?k else Some ?k) = Some k1"
    "base_inv k1" "dataqueues k1 = dataqueues ?k"
    "tlists k1 (LDqPush q) = (if dq_used dq \<le> uint (dq_lwm dq) then tl (tlists k (LDqPush q)) else tlists k (LDqPush q))"
    "\<And>l. wait_list l \<Longrightarrow> l \<noteq> LDqPush q \<Longrightarrow> tlists k1 l = tlists k l"
  proof (cases "dq_used dq \<le> uint (dq_lwm dq)")
    case True
    obtain k' where k': "resume_first (LDqPush q) ?k = Some k'" "served (LDqPush q) ?k k'"
      using resume_first_step [OF base_inv_upd_dq [OF b]] by (metis wait_list_simps(12))
    with True ipc_sameD(14) show ?thesis by (intro that [of k']) (simp_all add: served_def)
  next
    case False
    with b show ?thesis by (intro that [of ?k]) simp_all
  qed
  define e where "e = (if dq_used dq \<le> uint (dq_lwm dq) then RT_DATAQUEUE_EVENT_LWM else RT_DATAQUEUE_EVENT_POP)"
  obtain k' where k': "dq_notify notify q e k1 = Some k'" "base_inv k'" "dataqueues k' = dataqueues k1"
    "\<And>l. wait_list l \<Longrightarrow> tlists k' l = tlists k1 l"
    using dq_notify_step [OF n k1(2)] by blast
  have "dq_pop_loop notify q (Some t) timeout k = Some (Done (RT_EOK, Some x), k')"
    using False dq(1) k1(1) k'(1) by (auto simp: dq_pop_loop_def e_def Let_def split: if_splits)
  then show ?thesis
    using k1(3,4,5) k'(2-4) dq(2,3) used by (auto simp: dq_spec_pop_def dq_abs_def dq_stepped_def)
qed

section \<open>Properties\<close>

text \<open>C29: \<^verbatim>\<open>rt_data_queue_push\<close> refines the abstract data queue as long as the write index does not wrap: it appends the item
  and wakes the first consumer, answers \<^verbatim>\<open>-RT_ETIMEOUT\<close> when the queue is full and the caller does not wait, and otherwise
  makes the caller the last waiting producer; other queues and waiting lists keep their state.\<close>

theorem rt_data_queue_push_refines:
  assumes "base_inv k" "dq_ok (dataqueues k q)" "dq_put_index (dataqueues k q) \<noteq> 0xffff" "dq_quiet notify"
    and "rt_current_thread k = Some t" "time_ok timeout" "timeout \<noteq> 0 \<Longrightarrow> in_thread k t"
  shows "\<exists>r k'. rt_data_queue_push notify q p n timeout k = Some (r, k') \<and>
    (r, dq_abs k' q) = dq_spec_push (unat (dq_size (dataqueues k q))) t timeout
       \<lparr>di_data_ptr = p, di_data_size = n\<rparr> (dq_abs k q) \<and> dq_stepped q k k' \<and>
    (\<forall>u us. r = Done RT_EOK \<longrightarrow> tlists k (LDqPop q) = u # us \<longrightarrow> runnable k' u)"
  using dq_push_loop_refines [OF assms(1-4,6,7)] assms(5) by (simp add: rt_data_queue_push_def rt_thread_self_def)


definition demo_dq :: "u16 \<Rightarrow> kernel" where
  "demo_dq i = upd_dq 0 (\<lambda>_. \<lparr>dq_size = 1, dq_lwm = 0, dq_get_index = i, dq_put_index = i,
     dq_queue = [\<lparr>di_data_ptr = 0, di_data_size = 0\<rparr>], dq_evt_notify = None\<rparr>) demo_kernel"

lemma demo_dq_inv:
  "base_inv (demo_dq i)" "dq_ok (dataqueues (demo_dq i) 0)" "dq_abs (demo_dq i) 0 = ([], [], [])" "in_thread (demo_dq i) 1"
  "rt_current_thread (demo_dq i) = Some 1" "dq_quiet (\<lambda>_ _ _ k. Some k)" "dq_put_index (dataqueues (demo_dq i) 0) = i"
  "dq_size (dataqueues (demo_dq i) 0) = 1"
proof -
  have b: "base_inv demo_kernel"
    using demo_kernel_inv demo_timer_inv by (simp add: base_inv_def) (simp add: demo_simps)
  show "base_inv (demo_dq i)" using b by (simp add: demo_dq_def)
  show "in_thread (demo_dq i) 1" "rt_current_thread (demo_dq i) = Some 1" "dq_abs (demo_dq i) 0 = ([], [], [])"
    by (simp_all add: demo_dq_def in_thread_def thread_stat_def dq_abs_def dq_contents_def)
      (simp_all add: demo_simps)
qed (simp_all add: demo_dq_def dq_ok_def dq_quiet_def)

theorem rt_data_queue_push_refines_witness:
  "\<exists>k'. rt_data_queue_push (\<lambda>_ _ _ k. Some k) 0 16 4 0 (demo_dq 3) = Some (Done RT_EOK, k') \<and>
     dq_abs k' 0 = ([\<lparr>di_data_ptr = 16, di_data_size = 4\<rparr>], [], [])"
proof -
  have "(3 :: u16) \<noteq> 0xffff" by simp
  then show ?thesis
    using rt_data_queue_push_refines [OF demo_dq_inv(1,2) _ demo_dq_inv(6,5), of 3 0 16 4] demo_dq_inv(3,7,8)
    by (auto simp: dq_spec_push_def time_ok_def)
qed


text \<open>Without waiters and without a notification function the operations work on the queue alone.\<close>

lemma plain_push:
  assumes "dq_evt_notify (dataqueues k q) = None" "tlists k (LDqPop q) = []" "\<not> dq_full (dataqueues k q)"
    and "dq_put \<lparr>di_data_ptr = p, di_data_size = n\<rparr> (dataqueues k q) = Some dq"
  shows "rt_data_queue_push notify q p n timeout k = Some (Done RT_EOK, upd_dq q (\<lambda>_. dq) k)"
proof -
  have "dq_evt_notify dq = None" using assms(1,4) by (auto simp: dq_put_def split: Option.bind_splits)
  with assms show ?thesis by (simp add: rt_data_queue_push_def dq_push_loop_def dq_notify_def)
qed

lemma plain_pop:
  assumes "dq_evt_notify (dataqueues k q) = None" "tlists k (LDqPush q) = []"
    and "dq_get_index (dataqueues k q) \<noteq> dq_put_index (dataqueues k q)" "dq_get (dataqueues k q) = Some (x, dq)"
  shows "rt_data_queue_pop notify q timeout k = Some (Done (RT_EOK, Some x), upd_dq q (\<lambda>_. dq) k)"
proof -
  have "dq_evt_notify dq = None" using assms(1,4) by (auto simp: dq_get_def split: Option.bind_splits)
  with assms show ?thesis by (simp add: rt_data_queue_pop_def dq_pop_loop_def dq_notify_def resume_first_def Let_def)
qed

lemma upd_dq_twice [simp]: "upd_dq q (\<lambda>_. b) (upd_dq q (\<lambda>_. a) k) = upd_dq q (\<lambda>_. b) k"
  by (simp add: upd_dq_def)

text \<open>One item through the queue: pushed and popped again.\<close>

definition dq_round :: "nat \<Rightarrow> u32 \<times> u32 \<Rightarrow> kernel \<Rightarrow> kernel option" where
  "dq_round q x k = do {
     (_, k) \<leftarrow> rt_data_queue_push (\<lambda>_ _ _ k. Some k) q (fst x) (snd x) 0 k;
     (_, k) \<leftarrow> rt_data_queue_pop (\<lambda>_ _ _ k. Some k) q 0 k;
     Some k
   }"

text \<open>An unused queue of one element, with both indices at \<open>i\<close>.\<close>

definition dq_single :: "u16 \<Rightarrow> rt_data_queue \<Rightarrow> bool" where
  "dq_single i dq \<longleftrightarrow>
     dq_size dq = 1 \<and> dq_lwm dq = 0 \<and> dq_get_index dq = i \<and> dq_put_index dq = i \<and> length (dq_queue dq) = 1 \<and>
     dq_evt_notify dq = None"

lemma dq_round_single:
  assumes "dq_single i (dataqueues k q)" "tlists k (LDqPop q) = []" "tlists k (LDqPush q) = []"
  shows "\<exists>dq. dq_round q x k = Some (upd_dq q (\<lambda>_. dq) k) \<and> dq_single (i + 1) dq"
proof -
  let ?x = "\<lparr>di_data_ptr = fst x, di_data_size = snd x\<rparr>" and ?d = "dataqueues k q"
  let ?d1 = "?d\<lparr>dq_queue := [?x], dq_put_index := i + 1\<rparr>"
  note s = assms(1) [unfolded dq_single_def]
  have "length (dq_queue ?d) = 1" using s by simp
  then obtain y where y: "dq_queue ?d = [y]" by (auto simp: length_Suc_conv)
  have put: "dq_put ?x ?d = Some ?d1" using s y by (simp add: dq_put_def dq_slot_def)
  have "\<not> dq_full ?d" using s by (simp add: dq_full_def dq_used_def)
  then have "rt_data_queue_push (\<lambda>_ _ _ k. Some k) q (fst x) (snd x) 0 k = Some (Done RT_EOK, upd_dq q (\<lambda>_. ?d1) k)"
    using s put assms(2) by (intro plain_push) simp_all
  moreover have "rt_data_queue_pop (\<lambda>_ _ _ k. Some k) q 0 (upd_dq q (\<lambda>_. ?d1) k) =
      Some (Done (RT_EOK, Some ?x), upd_dq q (\<lambda>_. ?d1\<lparr>dq_get_index := i + 1\<rparr>) k)"
    using s assms(3) plain_pop [of "upd_dq q (\<lambda>_. ?d1) k" q ?x "?d1\<lparr>dq_get_index := i + 1\<rparr>"]
    by (simp add: dq_get_def dq_slot_def)
  ultimately show ?thesis
    using s by (intro exI [of _ "?d1\<lparr>dq_get_index := i + 1\<rparr>"]) (simp add: dq_round_def dq_single_def)
qed

lemma dq_rounds_single:
  assumes "dq_single i (dataqueues k q)" "tlists k (LDqPop q) = []" "tlists k (LDqPush q) = []"
  shows "\<exists>dq. iterM (dq_round q) xs k = Some (upd_dq q (\<lambda>_. dq) k) \<and> dq_single (i + word_of_nat (length xs)) dq"
  using assms
proof (induction xs arbitrary: i k)
  case Nil
  then show ?case by (intro exI [of _ "dataqueues k q"]) (auto simp: upd_dq_def)
next
  case (Cons x xs)
  obtain dq where dq: "dq_round q x k = Some (upd_dq q (\<lambda>_. dq) k)" "dq_single (i + 1) dq"
    using dq_round_single [OF Cons.prems] by blast
  from Cons.IH [of "i + 1" "upd_dq q (\<lambda>_. dq) k"] dq(2) Cons.prems(2,3)
  obtain dq' where "iterM (dq_round q) xs (upd_dq q (\<lambda>_. dq) k) = Some (upd_dq q (\<lambda>_. dq') k)"
    "dq_single (i + 1 + word_of_nat (length xs)) dq'" by auto
  with dq(1) show ?case by (auto simp: algebra_simps)
qed

text \<open>C31: the 16-bit indices of a data queue do not survive their wrap-around. From a fresh queue of one element, after
  65535 items have gone through one at a time, the write index wraps with the next item while the read index does not:
  the full queue accepts another item without waiting, the first of the two is lost and the second is delivered twice.\<close>

theorem rt_data_queue_wrap_loses:
  assumes "dq_single 0 (dataqueues k q)" "tlists k (LDqPop q) = []" "tlists k (LDqPush q) = []" "length xs = 65535"
  shows "\<exists>k0 k1 k2 k3 k4. iterM (dq_round q) xs k = Some k0 \<and>
    rt_data_queue_push (\<lambda>_ _ _ k. Some k) q p m 0 k0 = Some (Done RT_EOK, k1) \<and>
    rt_data_queue_push (\<lambda>_ _ _ k. Some k) q p' m' 0 k1 = Some (Done RT_EOK, k2) \<and>
    rt_data_queue_pop (\<lambda>_ _ _ k. Some k) q 0 k2 = Some (Done (RT_EOK, Some \<lparr>di_data_ptr = p', di_data_size = m'\<rparr>), k3) \<and>
    rt_data_queue_pop (\<lambda>_ _ _ k. Some k) q 0 k3 = Some (Done (RT_EOK, Some \<lparr>di_data_ptr = p', di_data_size = m'\<rparr>), k4)"
proof -
  obtain dq where r: "iterM (dq_round q) xs k = Some (upd_dq q (\<lambda>_. dq) k)" "dq_single 0xffff dq"
    using dq_rounds_single [OF assms(1-3), of xs] assms(4) by auto
  let ?k = "\<lambda>dq. upd_dq q (\<lambda>_. dq) k"
  let ?x = "\<lparr>di_data_ptr = p, di_data_size = m\<rparr>" and ?y = "\<lparr>di_data_ptr = p', di_data_size = m'\<rparr>"
  let ?d1 = "dq\<lparr>dq_queue := [?x], dq_put_index := 0\<rparr>" and ?d2 = "dq\<lparr>dq_queue := [?y], dq_put_index := 1\<rparr>"
  let ?d3 = "?d2\<lparr>dq_get_index := 0\<rparr>" and ?d4 = "?d2\<lparr>dq_get_index := 1\<rparr>"
  note s = r(2) [unfolded dq_single_def]
  have "length (dq_queue dq) = 1" using s by simp
  then obtain y where y: "dq_queue dq = [y]" by (auto simp: length_Suc_conv)
  have "rt_data_queue_push (\<lambda>_ _ _ k. Some k) q p m 0 (?k dq) = Some (Done RT_EOK, ?k ?d1)"
    using s y assms(2) plain_push [of "?k dq" q p m ?d1] by (simp add: dq_put_def dq_slot_def dq_full_def dq_used_def)
  moreover have "rt_data_queue_push (\<lambda>_ _ _ k. Some k) q p' m' 0 (?k ?d1) = Some (Done RT_EOK, ?k ?d2)"
    using s assms(2) plain_push [of "?k ?d1" q p' m' ?d2] by (simp add: dq_put_def dq_slot_def dq_full_def dq_used_def)
  moreover have "rt_data_queue_pop (\<lambda>_ _ _ k. Some k) q 0 (?k ?d2) = Some (Done (RT_EOK, Some ?y), ?k ?d3)"
    using s assms(3) plain_pop [of "?k ?d2" q ?y ?d3] by (simp add: dq_get_def dq_slot_def)
  moreover have "rt_data_queue_pop (\<lambda>_ _ _ k. Some k) q 0 (?k ?d3) = Some (Done (RT_EOK, Some ?y), ?k ?d4)"
    using s assms(3) plain_pop [of "?k ?d3" q ?y ?d4] by (simp add: dq_get_def dq_slot_def)
  ultimately show ?thesis using r(1) by blast
qed

theorem rt_data_queue_wrap_loses_witness:
  "\<exists>k0 k1 k2 k3 k4. iterM (dq_round 0) (replicate 65535 (9, 9)) (demo_dq 0) = Some k0 \<and>
    rt_data_queue_push (\<lambda>_ _ _ k. Some k) 0 1 1 0 k0 = Some (Done RT_EOK, k1) \<and>
    rt_data_queue_push (\<lambda>_ _ _ k. Some k) 0 2 2 0 k1 = Some (Done RT_EOK, k2) \<and>
    rt_data_queue_pop (\<lambda>_ _ _ k. Some k) 0 0 k2 = Some (Done (RT_EOK, Some \<lparr>di_data_ptr = 2, di_data_size = 2\<rparr>), k3) \<and>
    rt_data_queue_pop (\<lambda>_ _ _ k. Some k) 0 0 k3 = Some (Done (RT_EOK, Some \<lparr>di_data_ptr = 2, di_data_size = 2\<rparr>), k4)"
proof -
  have "dq_single 0 (dataqueues (demo_dq 0) 0)" by (simp add: demo_dq_def dq_single_def)
  moreover have "tlists (demo_dq 0) (LDqPop 0) = []" "tlists (demo_dq 0) (LDqPush 0) = []"
    using demo_dq_inv(3) [of 0] by (simp_all add: dq_abs_def)
  ultimately show ?thesis by (rule rt_data_queue_wrap_loses) simp
qed

text \<open>Resetting a queue wakes every waiting producer and consumer with an error and leaves the items in the queue.\<close>

theorem rt_data_queue_reset_ok:
  assumes "base_inv k"
  shows "\<exists>k'. rt_data_queue_reset q k = Some k' \<and> base_inv k' \<and> dataqueues k' = dataqueues k \<and>
    tlists k' (LDqPop q) = [] \<and> tlists k' (LDqPush q) = [] \<and>
    (\<forall>t \<in> set (tlists k (LDqPop q)) \<union> set (tlists k (LDqPush q)). runnable k' t \<and> th_error (threads k' t) = - RT_ERROR)"
proof -
  let ?k = "rt_enter_critical k"
  note c = rt_enter_critical_resched [OF base_invD(1) [OF assms]]
  have b: "sched_inv ?k" "timer_inv ?k" "rt_current_thread ?k \<noteq> None" "tlists ?k = tlists k"
    using reschedD(1,8) [OF c] timer_inv_resched [OF c base_invD(2) [OF assms]] base_invD(3) [OF assms]
    by (simp_all add: rt_enter_critical_def)
  obtain k1 where k1: "rt_ipc_list_resume_all (LDqPop q) ?k = Some k1" "wakes_all (LDqPop q) ?k k1"
    using rt_ipc_list_resume_all_step [OF b(1,2), of "LDqPop q"] by auto
  note w1 = k1(2) [unfolded wakes_all_def]
  obtain k2 where k2: "rt_ipc_list_resume_all (LDqPush q) k1 = Some k2" "wakes_all (LDqPush q) k1 k2"
    using rt_ipc_list_resume_all_step [of k1 "LDqPush q"] w1 by auto
  note w2 = k2(2) [unfolded wakes_all_def]
  obtain k3 where k3: "rt_exit_critical k2 = Some k3" "resched k2 k3" using rt_exit_critical_step [of k2] w2 by blast
  have "sched_inv k3" "rt_current_thread k3 \<noteq> None" using reschedD(1,8) [OF k3(2)] w1 w2 b(3) by auto
  then obtain k4 where k4: "rt_schedule k3 = Some k4" "resched k3 k4" by (rule rt_schedule_step)
  have r: "resched k2 k4" using resched_trans [OF k3(2) k4(2)] .
  note d = reschedD [OF r]
  have "rt_data_queue_reset q k = Some k4" using k1(1) k2(1) k3(1) k4(1) by (simp add: rt_data_queue_reset_def)
  moreover have "base_inv k4" using d(1,8) timer_inv_resched [OF r] w1 w2 b(3) by (simp add: base_inv_def)
  moreover have "dataqueues k4 = dataqueues k"
    using ipc_sameD(14) [OF d(2)] w1 w2 ipc_sameD(14) [OF reschedD(2) [OF c]] ipc_sameD(14) by metis
  moreover have "tlists k4 (LDqPop q) = [] \<and> tlists k4 (LDqPush q) = []"
    using resched_wait_list [OF r] w1 w2 by simp
  moreover have "runnable k4 t \<and> th_error (threads k4 t) = - 1"
    if "t \<in> set (tlists k (LDqPop q)) \<union> set (tlists k (LDqPush q))" for t
  proof -
    have "tlists k1 (LDqPush q) = tlists k (LDqPush q)" using w1 b(4) by simp
    then have "runnable k2 t \<and> th_error (threads k2 t) = - 1"
      using that w1 w2 b(4) by (cases "t \<in> set (tlists k (LDqPush q))") auto
    then show ?thesis using d(6) only_statD(4) [OF d(4), of t] by simp
  qed
  ultimately show ?thesis by blast
qed

theorem rt_data_queue_reset_ok_witness:
  "\<exists>k'. rt_data_queue_reset 0 (demo_wait (LDqPop 0)) = Some k' \<and> runnable k' 3 \<and> th_error (threads k' 3) = - RT_ERROR"
proof -
  have "base_inv (demo_wait (LDqPop 0))" by (simp add: base_inv_def demo_wait_inv)
  moreover have "3 \<in> set (tlists (demo_wait (LDqPop 0)) (LDqPop 0))" by (simp add: demo_wait_def)
  ultimately show ?thesis using rt_data_queue_reset_ok [of "demo_wait (LDqPop 0)" 0] by blast
qed

end
