(* ===== verification/Wait_Queue.thy ===== *)
theory Wait_Queue
  imports Semaphore
begin

text \<open>
  Wait queues (\<^verbatim>\<open>components/drivers/src/waitqueue.c\<close>): threads wait until a device has something for them. A waiting
  thread is suspended on no kernel list; the queue holds a node for it, with a function that decides whether a wake-up
  concerns it.
\<close>

section \<open>Operations\<close>

abbreviation (input) RT_WQ_FLAG_CLEAN :: u32 where "RT_WQ_FLAG_CLEAN \<equiv> 0"
abbreviation (input) RT_WQ_FLAG_WAKEUP :: u32 where "RT_WQ_FLAG_WAKEUP \<equiv> 1"

definition upd_wqueue :: "nat \<Rightarrow> (rt_wqueue \<Rightarrow> rt_wqueue) \<Rightarrow> kernel \<Rightarrow> kernel" where
  "upd_wqueue q f k = k\<lparr>wqueues := (wqueues k)(q := f (wqueues k q))\<rparr>"

definition rt_wqueue_init :: "nat \<Rightarrow> kernel \<Rightarrow> kernel" where
  "rt_wqueue_init q = upd_wqueue q (\<lambda>_. \<lparr>wqu_flag = RT_WQ_FLAG_CLEAN, wqu_waiting_list = []\<rparr>)"

definition rt_wqueue_add :: "nat \<Rightarrow> nat \<Rightarrow> kernel \<Rightarrow> kernel" where
  "rt_wqueue_add q n = upd_wqueue q (\<lambda>wq. wq\<lparr>wqu_waiting_list := wqu_waiting_list wq @ [n]\<rparr>)"

text \<open>A node is on at most one queue.\<close>

definition rt_wqueue_remove :: "nat \<Rightarrow> kernel \<Rightarrow> kernel" where
  "rt_wqueue_remove n k =
     k\<lparr>wqueues := (\<lambda>q. (wqueues k q)\<lparr>wqu_waiting_list := removeAll n (wqu_waiting_list (wqueues k q))\<rparr>)\<rparr>"

text \<open>The wake function of a node: number 0 is \<^verbatim>\<open>__wqueue_default_wake\<close>, the others are the parameter \<open>wake\<close>,
  and do not change the queue.\<close>

definition wqueue_default_wake :: "nat \<Rightarrow> nat \<Rightarrow> int" where
  "wqueue_default_wake n key = 0"

definition call_wake ::
  "(nat \<Rightarrow> nat \<Rightarrow> nat \<Rightarrow> kernel \<Rightarrow> (int \<times> kernel) option) \<Rightarrow> nat \<Rightarrow> nat \<Rightarrow> kernel \<Rightarrow> (int \<times> kernel) option" where
  "call_wake wake n key k =
     (if wn_wakeup (wqnodes k n) = 0 then Some (wqueue_default_wake n key, k)
      else wake (wn_wakeup (wqnodes k n)) n key k)"

primrec wakeup_loop ::
  "(nat \<Rightarrow> nat \<Rightarrow> nat \<Rightarrow> kernel \<Rightarrow> (int \<times> kernel) option) \<Rightarrow> nat \<Rightarrow> nat list \<Rightarrow> kernel \<Rightarrow> (bool \<times> kernel) option" where
  "wakeup_loop wake key [] k = Some (False, k)"
| "wakeup_loop wake key (n # ns) k = do {
     (r, k) \<leftarrow> call_wake wake n key k;
     if r = 0 then do {
       (_, k) \<leftarrow> rt_thread_resume (wn_polling_thread (wqnodes k n)) k;
       Some (True, rt_wqueue_remove n k)
     }
     else wakeup_loop wake key ns k
   }"

definition rt_wqueue_wakeup ::
  "(nat \<Rightarrow> nat \<Rightarrow> nat \<Rightarrow> kernel \<Rightarrow> (int \<times> kernel) option) \<Rightarrow> nat \<Rightarrow> nat \<Rightarrow> kernel \<Rightarrow> kernel option" where
  "rt_wqueue_wakeup wake q key k = do {
     let k = upd_wqueue q (\<lambda>wq. wq\<lparr>wqu_flag := RT_WQ_FLAG_WAKEUP\<rparr>) k;
     (need_schedule, k) \<leftarrow> wakeup_loop wake key (wqu_waiting_list (wqueues k q)) k;
     if need_schedule then rt_schedule k else Some k
   }"

text \<open>\<open>n\<close> is the node on the stack of the caller. The result is \<open>Done 0\<close>, or the wait.\<close>

definition rt_wqueue_wait ::
  "nat \<Rightarrow> int \<Rightarrow> int \<Rightarrow> nat \<Rightarrow> kernel \<Rightarrow> ((int, tid) outcome \<times> kernel) option" where
  "rt_wqueue_wait q condition msec n k = do {
     tid \<leftarrow> rt_thread_self k;
     rt_debug_not_in_interrupt k;
     let tick = rt_tick_from_millisecond msec;
     if condition \<noteq> 0 \<or> tick = 0 then Some (Done 0, k)
     else do {
       let k = k\<lparr>wqnodes := (wqnodes k)(n := \<lparr>wn_polling_thread = tid, wn_wakeup = 0, wn_key = 0\<rparr>)\<rparr>;
       if wqu_flag (wqueues k q) = RT_WQ_FLAG_WAKEUP
       then Some (Done 0, rt_wqueue_remove n (upd_wqueue q (\<lambda>wq. wq\<lparr>wqu_flag := 0\<rparr>) k))
       else do {
         let k = rt_wqueue_add q n k;
         (_, k) \<leftarrow> rt_thread_suspend tid k;
         k \<leftarrow> (if tick \<noteq> RT_WAITING_FOREVER then start_thread_timer tid tick k else Some k);
         k \<leftarrow> rt_schedule k;
         Some (Blocked tid, k)
       }
     }
   }"

definition rt_wqueue_wait_resumed :: "nat \<Rightarrow> nat \<Rightarrow> kernel \<Rightarrow> int \<times> kernel" where
  "rt_wqueue_wait_resumed q n k =
     (0, rt_wqueue_remove n (upd_wqueue q (\<lambda>wq. wq\<lparr>wqu_flag := 0\<rparr>) k))"

section \<open>Effects\<close>

lemma base_inv_cong:
  assumes "threads k' = threads k" "tlists k' = tlists k" "rt_thread_ready_priority_group k' = rt_thread_ready_priority_group k"
    "rt_current_thread k' = rt_current_thread k" "timers_same k k'" "base_inv k"
  shows "base_inv k'"
  using assms sched_inv_cong [OF assms(1-4)] by (auto simp: base_inv_def intro: timer_inv_write [of k])

lemma upd_wqueue_frame [simp]:
  "threads (upd_wqueue q f k) = threads k" "rt_current_thread (upd_wqueue q f k) = rt_current_thread k"
  "rt_interrupt_nest (upd_wqueue q f k) = rt_interrupt_nest k" "wqnodes (upd_wqueue q f k) = wqnodes k"
  "wqueues (upd_wqueue q f k) q' = (if q' = q then f (wqueues k q) else wqueues k q')"
  by (simp_all add: upd_wqueue_def)

lemma wqueue_remove_frame [simp]:
  "threads (rt_wqueue_remove n k) = threads k" "rt_current_thread (rt_wqueue_remove n k) = rt_current_thread k"
  "wqu_flag (wqueues (rt_wqueue_remove n k) q) = wqu_flag (wqueues k q)"
  "wqu_waiting_list (wqueues (rt_wqueue_remove n k) q) = removeAll n (wqu_waiting_list (wqueues k q))"
  by (simp_all add: rt_wqueue_remove_def)

lemma base_inv_wqueue [simp]:
  "base_inv k \<Longrightarrow> base_inv (upd_wqueue q f k)" "base_inv k \<Longrightarrow> base_inv (rt_wqueue_remove n k)"
  "base_inv k \<Longrightarrow> base_inv (k\<lparr>wqnodes := ns\<rparr>)"
  by (rule base_inv_cong [of _ k]; simp add: upd_wqueue_def rt_wqueue_remove_def timers_same_def)+

lemma runnable_threads: "threads k' = threads k \<Longrightarrow> runnable k' t = runnable k t"
  by (simp add: runnable_def thread_stat_def)

text \<open>Suspending the running thread on no list, with or without a time limit.\<close>

lemma sleep_off_lists:
  assumes b: "base_inv k" and i: "in_thread k t" and tick: "tick = RT_WAITING_FOREVER \<or> tick < RT_TICK_HALF"
  obtains k1 k2 k' where "rt_thread_suspend t k = Some (RT_EOK, k1)"
    "(if tick \<noteq> RT_WAITING_FOREVER then start_thread_timer t tick k1 else Some k1) = Some k2" "rt_schedule k2 = Some k'"
    "base_inv k'" "ipc_same k k'" "thread_stat k' t = RT_THREAD_SUSPEND"
proof -
  have "runnable k t" using i by (simp add: in_thread_def runnable_def)
  with base_invD(1,2) [OF b] obtain k1 where k1: "rt_thread_suspend t k = Some (RT_EOK, k1)" "parked t k k1"
    by (blast intro: rt_thread_suspend_step)
  note p = parkedD [OF k1(2)]
  obtain k2 where k2: "(if tick \<noteq> RT_WAITING_FOREVER then start_thread_timer t tick k1 else Some k1) = Some k2"
    "sched_inv k2" "timer_inv k2" "ipc_same k1 k2" "threads k2 = threads k1" "rt_current_thread k2 = rt_current_thread k1"
  proof (cases "tick = RT_WAITING_FOREVER")
    case True
    with p(1,2) show ?thesis by (intro that [of k1]) auto
  next
    case False
    with tick have "tick < RT_TICK_HALF" by simp
    from start_thread_timer_step [OF p(1,2,5) this] obtain k2 where "start_thread_timer t tick k1 = Some k2" "armed t tick k1 k2"
      by blast
    with False show ?thesis by (intro that [of k2]) (auto simp: armed_def)
  qed
  have c: "rt_current_thread k2 \<noteq> None" using k2(6) p(8) base_invD(3) [OF b] by simp
  with k2(2) obtain k' where k': "rt_schedule k2 = Some k'" "resched k2 k'" by (rule rt_schedule_step)
  note d = reschedD [OF k'(2)]
  have "base_inv k'" using d(1,8) c timer_inv_resched [OF k'(2) k2(3)] by (simp add: base_inv_def)
  moreover have "ipc_same k k'" using ipc_same_trans [OF p(3) ipc_same_trans [OF k2(4) d(2)]] .
  moreover have "thread_stat k' t = RT_THREAD_SUSPEND"
    using p(5) k2(5) resched_suspended [OF k'(2), of t] by (simp add: thread_stat_def)
  ultimately show ?thesis by (rule that [OF k1(1) k2(1) k'(1)])
qed

text \<open>Resuming a thread, suspended or not.\<close>

lemma resume_any:
  assumes b: "base_inv k" and l: "live k t"
  obtains r k' where "rt_thread_resume t k = Some (r, k')" "base_inv k'" "ipc_same k k'" "runnable k' t"
    "\<forall>u. u \<noteq> t \<longrightarrow> threads k' u = threads k u"
proof (cases "thread_stat k t = RT_THREAD_SUSPEND")
  case True
  from rt_thread_resume_step [OF base_invD(1,2) [OF b] True] obtain k'
    where "rt_thread_resume t k = Some (RT_EOK, k')" "woken t k k'" by blast
  then show ?thesis using that base_invD(3) [OF b] by (simp add: woken_def base_inv_def)
next
  case False
  have "rt_object_get_type k (OThread t) = RT_Object_Class_Thread"
    using live_timer_ok [OF base_invD(2) [OF b] l] by (simp add: thread_timer_ok_def)
  with False l b that show ?thesis by (auto simp: rt_thread_resume_def live_def runnable_def)
qed

lemma wakeup_first_default:
  assumes b: "base_inv k" and n: "wqu_waiting_list (wqueues k q) = n # ns" "wn_wakeup (wqnodes k n) = 0"
    and l: "live k (wn_polling_thread (wqnodes k n))"
  obtains k' where "rt_wqueue_wakeup wake q key k = Some k'" "base_inv k'"
    "wqueues k' q = \<lparr>wqu_flag = RT_WQ_FLAG_WAKEUP, wqu_waiting_list = removeAll n ns\<rparr>"
    "runnable k' (wn_polling_thread (wqnodes k n))"
    "\<And>u. u \<noteq> wn_polling_thread (wqnodes k n) \<Longrightarrow> thread_stat k u = RT_THREAD_SUSPEND \<Longrightarrow> thread_stat k' u = RT_THREAD_SUSPEND"
proof -
  let ?t = "wn_polling_thread (wqnodes k n)"
  let ?k = "upd_wqueue q (\<lambda>wq. wq\<lparr>wqu_flag := RT_WQ_FLAG_WAKEUP\<rparr>) k"
  have "live ?k ?t" using l by (simp add: live_def thread_stat_def)
  then obtain r k1 where k1: "rt_thread_resume ?t ?k = Some (r, k1)" "base_inv k1" "ipc_same ?k k1" "runnable k1 ?t"
    "\<forall>u. u \<noteq> ?t \<longrightarrow> threads k1 u = threads ?k u"
    using resume_any [OF base_inv_wqueue(1) [OF b]] by blast
  let ?k2 = "rt_wqueue_remove n k1"
  have b2: "base_inv ?k2" using k1(2) by simp
  obtain k' where k': "rt_schedule ?k2 = Some k'" "resched ?k2 k'" using rt_schedule_step [OF base_invD(1,3) [OF b2]] by blast
  note d = reschedD [OF k'(2)]
  have "wqueues k1 q = wqueues ?k q" using ipc_sameD(17) [OF k1(3)] by simp
  then have "wqueues ?k2 q = \<lparr>wqu_flag = 1, wqu_waiting_list = removeAll n ns\<rparr>" using n(1) by (simp add: rt_wqueue_remove_def)
  then have "wqueues k' q = \<lparr>wqu_flag = 1, wqu_waiting_list = removeAll n ns\<rparr>" using ipc_sameD(17) [OF d(2)] by simp
  moreover have "rt_wqueue_wakeup wake q key k = Some k'"
    using n k1(1) k'(1) by (simp add: rt_wqueue_wakeup_def call_wake_def wqueue_default_wake_def)
  moreover have "base_inv k'" using d(1,8) b2 timer_inv_resched [OF k'(2)] by (simp add: base_inv_def)
  moreover have "runnable k' ?t" using d(6) k1(4) runnable_threads [of ?k2 k1] by simp
  moreover have "thread_stat k' u = RT_THREAD_SUSPEND" if "u \<noteq> ?t" "thread_stat k u = RT_THREAD_SUSPEND" for u
    using that k1(5) resched_suspended [OF k'(2), of u] by (simp add: thread_stat_def)
  ultimately show ?thesis by (intro that [of k']) auto
qed

section \<open>Properties\<close>

text \<open>C33: a wake-up is not lost, whichever side comes first. A thread that waits on a queue without a wake-up is suspended and listed;
  the next \<^verbatim>\<open>rt_wqueue_wakeup\<close> makes it runnable and its call ends with the queue clean and the node off the list. A wake-up
  that comes first is remembered: the call that would wait returns at once and the queue is clean again.\<close>

theorem rt_wqueue_handover:
  assumes "base_inv k" "in_thread k t" "wqueues k q = \<lparr>wqu_flag = 0, wqu_waiting_list = []\<rparr>"
    and "0 < msec" "msec < 2 ^ 31 - 1"
  shows "(\<exists>k1 k2 k3. rt_wqueue_wait q 0 msec n k = Some (Blocked t, k1) \<and> \<not> runnable k1 t \<and>
      rt_wqueue_wakeup wake q key k1 = Some k2 \<and> runnable k2 t \<and>
      rt_wqueue_wait_resumed q n k2 = (0, k3) \<and> wqueues k3 q = \<lparr>wqu_flag = 0, wqu_waiting_list = []\<rparr>) \<and>
    (\<exists>k1 k2. rt_wqueue_wakeup wake q key k = Some k1 \<and> rt_wqueue_wait q 0 msec n k1 = Some (Done 0, k2) \<and>
      wqueues k2 q = \<lparr>wqu_flag = 0, wqu_waiting_list = []\<rparr>)"
    (is "?waiter_first \<and> ?wakeup_first")
proof
  define tick where "tick = rt_tick_from_millisecond msec"
  have tick: "tick \<noteq> 0" "tick \<noteq> RT_WAITING_FOREVER" "tick < RT_TICK_HALF"
  proof -
    have t: "tick = word_of_int msec" using assms(4) by (simp add: tick_def tick_from_ms)
    have "uint tick = msec" using assms(4,5) by (simp add: t unsigned_of_int take_bit_int_eq_self)
    then show "tick \<noteq> 0" "tick < RT_TICK_HALF" using assms(4,5) by (auto simp: word_less_def RT_TICK_HALF_def)
    then show "tick \<noteq> RT_WAITING_FOREVER" by (auto simp: RT_TICK_HALF_def)
  qed
  let ?k = "rt_wqueue_add q n (k\<lparr>wqnodes := (wqnodes k)(n := \<lparr>wn_polling_thread = t, wn_wakeup = 0, wn_key = 0\<rparr>)\<rparr>)"
  have b: "base_inv ?k" using assms(1) by (simp add: rt_wqueue_add_def)
  have i: "in_thread ?k t" using assms(2) by (simp add: in_thread_def rt_wqueue_add_def thread_stat_def)
  obtain k1 k2 k' where w: "rt_thread_suspend t ?k = Some (RT_EOK, k1)"
    "(if tick \<noteq> RT_WAITING_FOREVER then start_thread_timer t tick k1 else Some k1) = Some k2" "rt_schedule k2 = Some k'"
    "base_inv k'" "ipc_same ?k k'" "thread_stat k' t = RT_THREAD_SUSPEND"
    using sleep_off_lists [OF b i, of tick] tick(3) by blast
  have wait: "rt_wqueue_wait q 0 msec n k = Some (Blocked t, k')"
    using assms(2,3) tick(1,2) w(1-3)
    by (simp add: rt_wqueue_wait_def rt_thread_self_def in_thread_def rt_debug_not_in_interrupt_def tick_def [symmetric] Let_def
        rt_wqueue_add_def)
  have f: "wqueues k' q = \<lparr>wqu_flag = 0, wqu_waiting_list = [n]\<rparr>" "wqnodes k' n = \<lparr>wn_polling_thread = t, wn_wakeup = 0, wn_key = 0\<rparr>"
    using ipc_sameD(17,18) [OF w(5)] assms(3) by (simp_all add: rt_wqueue_add_def)
  have "live k' (wn_polling_thread (wqnodes k' n))" using w(6) f(2) by (simp add: live_def)
  then obtain k'' where k'': "rt_wqueue_wakeup wake q key k' = Some k''" "runnable k'' t"
    "wqueues k'' q = \<lparr>wqu_flag = 1, wqu_waiting_list = []\<rparr>"
    using wakeup_first_default [OF w(4), of q n "[]" wake key] f by auto
  then show ?waiter_first
    using wait w(6) by (simp add: rt_wqueue_wait_resumed_def runnable_def rt_wqueue_remove_def upd_wqueue_def)
  show ?wakeup_first
    using assms(2,3) tick(1)
    by (simp add: rt_wqueue_wakeup_def rt_wqueue_wait_def rt_thread_self_def in_thread_def rt_debug_not_in_interrupt_def
        tick_def [symmetric] Let_def rt_wqueue_remove_def upd_wqueue_def)
qed

text \<open>A wake-up can be wasted. The node of a thread whose time limit has expired stays on the queue until the thread
  runs again; a wake-up in between is spent on that node, and the next waiter, which could use it, stays suspended although
  the thread that consumed the wake-up was runnable already, and clears the flag.\<close>

theorem rt_wqueue_wakeup_wasted:
  assumes "base_inv k" "wqu_waiting_list (wqueues k q) = [n, n']" "n \<noteq> n'" "wn_wakeup (wqnodes k n) = 0"
    and "wn_polling_thread (wqnodes k n) = t" "runnable k t"
    and "wn_polling_thread (wqnodes k n') = t'" "thread_stat k t' = RT_THREAD_SUSPEND"
  shows "\<exists>k1 k2. rt_wqueue_wakeup wake q key k = Some k1 \<and> thread_stat k1 t' = RT_THREAD_SUSPEND \<and>
    rt_wqueue_wait_resumed q n k1 = (0, k2) \<and> wqueues k2 q = \<lparr>wqu_flag = 0, wqu_waiting_list = [n']\<rparr> \<and>
    thread_stat k2 t' = RT_THREAD_SUSPEND"
proof -
  have "live k (wn_polling_thread (wqnodes k n))" using assms(5,6) runnable_live by simp
  moreover have "t' \<noteq> t" using assms(6,8) by (auto simp: runnable_def)
  ultimately obtain k1 where k1: "rt_wqueue_wakeup wake q key k = Some k1" "thread_stat k1 t' = RT_THREAD_SUSPEND"
    "wqueues k1 q = \<lparr>wqu_flag = 1, wqu_waiting_list = [n']\<rparr>"
    using wakeup_first_default [OF assms(1,2,4), of wake key] assms(3,5,8) by auto
  let ?k2 = "rt_wqueue_remove n (upd_wqueue q (\<lambda>wq. wq\<lparr>wqu_flag := 0\<rparr>) k1)"
  have "wqueues ?k2 q = \<lparr>wqu_flag = 0, wqu_waiting_list = [n']\<rparr>" using k1(3) assms(3) by (simp add: rt_wqueue_remove_def)
  moreover have "thread_stat ?k2 t' = RT_THREAD_SUSPEND" using k1(2) by (simp add: thread_stat_def)
  ultimately show ?thesis using k1(1,2) by (auto simp: rt_wqueue_wait_resumed_def)
qed

theorem rt_wqueue_handover_witness:
  "\<exists>k1 k2. rt_wqueue_wait 0 0 5 0 demo_kernel = Some (Blocked 1, k1) \<and> rt_wqueue_wakeup (\<lambda>_ _ _ _. None) 0 0 k1 = Some k2 \<and>
     runnable k2 1"
proof -
  have "base_inv demo_kernel" "in_thread demo_kernel 1" "wqueues demo_kernel 0 = \<lparr>wqu_flag = 0, wqu_waiting_list = []\<rparr>"
    using demo_kernel_inv demo_timer_inv by (simp_all add: base_inv_def in_thread_def) (simp_all add: demo_simps)
  then show ?thesis using rt_wqueue_handover [of demo_kernel 1 0 5 0 "\<lambda>_ _ _ _. None" 0] by auto
qed

definition demo_wqueue :: kernel where
  "demo_wqueue = upd_wqueue 0 (\<lambda>_. \<lparr>wqu_flag = 0, wqu_waiting_list = [0, 1]\<rparr>)
     ((demo_wait (LSem 0))\<lparr>wqnodes := (\<lambda>n. \<lparr>wn_polling_thread = if n = 0 then 2 else 3, wn_wakeup = 0, wn_key = 0\<rparr>)\<rparr>)"

theorem rt_wqueue_wakeup_wasted_witness:
  "\<exists>k1 k2. rt_wqueue_wakeup (\<lambda>_ _ _ _. None) 0 0 demo_wqueue = Some k1 \<and> rt_wqueue_wait_resumed 0 0 k1 = (0, k2) \<and>
     wqueues k2 0 = \<lparr>wqu_flag = 0, wqu_waiting_list = [1]\<rparr> \<and> thread_stat k2 3 = RT_THREAD_SUSPEND"
proof -
  have "base_inv demo_wqueue" by (simp add: demo_wqueue_def base_inv_def [of "demo_wait (LSem 0)"] demo_wait_inv)
  moreover have "runnable demo_wqueue 2" "thread_stat demo_wqueue 3 = 2"
    by (simp_all add: runnable_def thread_stat_def demo_wqueue_def) (simp_all add: demo_wait_def demo_simps)
  moreover have "wqu_waiting_list (wqueues demo_wqueue 0) = [0, 1]" "wn_polling_thread (wqnodes demo_wqueue 0) = 2"
    "wn_polling_thread (wqnodes demo_wqueue 1) = 3" "wn_wakeup (wqnodes demo_wqueue 0) = 0"
    by (simp_all add: demo_wqueue_def)
  ultimately show ?thesis
    using rt_wqueue_wakeup_wasted [of demo_wqueue 0 0 1 2 3 "\<lambda>_ _ _ _. None" 0] by auto
qed

end
