(* ===== verification/Work_Queue.thy ===== *)
theory Work_Queue
  imports Wait_Queue Idle
begin

text \<open>
  Work queues (\<^verbatim>\<open>components/drivers/src/workqueue.c\<close>): a thread that executes submitted work items one after the
  other. Submitting, cancelling and delaying items, the loop of the worker, and the semaphore by which other threads
  wait for the item that is being executed. The worker is cut where it gives up the processor.
\<close>

section \<open>Operations\<close>

abbreviation (input) RT_WORK_STATE_PENDING :: u16 where "RT_WORK_STATE_PENDING \<equiv> 1"
abbreviation (input) RT_WORK_STATE_SUBMITTING :: u16 where "RT_WORK_STATE_SUBMITTING \<equiv> 2"
abbreviation (input) RT_WORK_TYPE_DELAYED :: u16 where "RT_WORK_TYPE_DELAYED \<equiv> 1"

definition upd_wq :: "nat \<Rightarrow> (rt_workqueue \<Rightarrow> rt_workqueue) \<Rightarrow> kernel \<Rightarrow> kernel" where
  "upd_wq q f k = k\<lparr>workqueues := (workqueues k)(q := f (workqueues k q))\<rparr>"

definition upd_work :: "nat \<Rightarrow> (rt_work \<Rightarrow> rt_work) \<Rightarrow> kernel \<Rightarrow> kernel" where
  "upd_work w f k = k\<lparr>works := (works k)(w := f (works k w))\<rparr>"

definition work_flags_or :: "nat \<Rightarrow> u16 \<Rightarrow> kernel \<Rightarrow> kernel" where
  "work_flags_or w b = upd_work w (\<lambda>x. x\<lparr>wk_flags := wk_flags x OR b\<rparr>)"

definition work_flags_clear :: "nat \<Rightarrow> u16 \<Rightarrow> kernel \<Rightarrow> kernel" where
  "work_flags_clear w b = upd_work w (\<lambda>x. x\<lparr>wk_flags := wk_flags x AND NOT b\<rparr>)"

text \<open>\<^verbatim>\<open>rt_list_remove(&(work->list))\<close>: an item is on at most one list.\<close>

definition work_unlink :: "nat \<Rightarrow> kernel \<Rightarrow> kernel" where
  "work_unlink w k =
     k\<lparr>workqueues := (\<lambda>q. (workqueues k q)\<lparr>wq_work_list := removeAll w (wq_work_list (workqueues k q))\<rparr>)\<rparr>"

definition work_append :: "nat \<Rightarrow> nat \<Rightarrow> kernel \<Rightarrow> kernel" where
  "work_append q w = upd_wq q (\<lambda>wq. wq\<lparr>wq_work_list := wq_work_list wq @ [w]\<rparr>)"

definition rt_work_init :: "nat \<Rightarrow> nat \<Rightarrow> nat \<Rightarrow> kernel \<Rightarrow> kernel" where
  "rt_work_init w work_func work_data =
     upd_work w (\<lambda>x. x\<lparr>wk_func := work_func, wk_data := work_data, wk_workqueue := None, wk_flags := 0, wk_type := 0\<rparr>)"

definition rt_delayed_work_init :: "nat \<Rightarrow> nat \<Rightarrow> nat \<Rightarrow> kernel \<Rightarrow> kernel" where
  "rt_delayed_work_init w work_func work_data k = rt_work_init w work_func work_data k"

text \<open>The loop that acknowledges a finished item to everybody who waits for it.\<close>

partial_function (option) completion_loop :: "nat \<Rightarrow> kernel \<Rightarrow> (rt_err_t \<times> kernel) option" where
  "completion_loop s k = do {
     (r, k) \<leftarrow> rt_sem_trytake s k;
     (case r of
        Blocked _ \<Rightarrow> None
      | Done result \<Rightarrow>
          if result = - RT_ETIMEOUT then do {
            (_, k) \<leftarrow> rt_sem_release s k;
            completion_loop s k
          }
          else if result = RT_EOK then Some (RT_EOK, k)
          else Some (- RT_ERROR, k))
   }"

definition workqueue_work_completion :: "nat \<Rightarrow> kernel \<Rightarrow> (rt_err_t \<times> kernel) option" where
  "workqueue_work_completion q k = do {
     let k = rt_enter_critical k;
     (result, k) \<leftarrow> completion_loop (wq_sem (workqueues k q)) k;
     k \<leftarrow> rt_exit_critical k;
     Some (result, k)
   }"

text \<open>The worker takes the first item. On an empty list the code would take the list head itself for an item.\<close>

definition workqueue_take :: "nat \<Rightarrow> kernel \<Rightarrow> (nat \<times> kernel) option" where
  "workqueue_take q k =
     (case wq_work_list (workqueues k q) of
        [] \<Rightarrow> None
      | w # _ \<Rightarrow>
          let k = work_unlink w k;
              k = upd_wq q (\<lambda>wq. wq\<lparr>wq_work_current := Some w\<rparr>) k;
              k = work_flags_clear w RT_WORK_STATE_PENDING k;
              k = upd_work w (\<lambda>x. x\<lparr>wk_workqueue := None\<rparr>) k
          in Some (w, k))"

text \<open>The rest of the loop body, with the effect \<open>run\<close> of the work functions (function, item, data) as a parameter.\<close>

definition workqueue_thread_resumed ::
  "(nat \<Rightarrow> nat \<Rightarrow> nat \<Rightarrow> kernel \<Rightarrow> kernel option) \<Rightarrow> nat \<Rightarrow> kernel \<Rightarrow> (nat \<times> kernel) option" where
  "workqueue_thread_resumed run q k = do {
     (w, k) \<leftarrow> workqueue_take q k;
     k \<leftarrow> run (wk_func (works k w)) w (wk_data (works k w)) k;
     let k = upd_wq q (\<lambda>wq. wq\<lparr>wq_work_current := None\<rparr>) k;
     (_, k) \<leftarrow> workqueue_work_completion q k;
     Some (w, k)
   }"

text \<open>One round of the worker: it gives up the processor when there is nothing to do, and executes one item otherwise.\<close>

definition workqueue_thread_entry ::
  "(nat \<Rightarrow> nat \<Rightarrow> nat \<Rightarrow> kernel \<Rightarrow> kernel option) \<Rightarrow> nat \<Rightarrow> kernel \<Rightarrow> ((nat, tid) outcome \<times> kernel) option" where
  "workqueue_thread_entry run q k =
     (if wq_work_list (workqueues k q) = [] then do {
        thread \<leftarrow> rt_thread_self k;
        (_, k) \<leftarrow> rt_thread_suspend thread k;
        k \<leftarrow> rt_schedule k;
        Some (Blocked thread, k)
      }
      else do {
        (w, k) \<leftarrow> workqueue_thread_resumed run q k;
        Some (Done w, k)
      })"

text \<open>Waking the worker when it is not executing an item.\<close>

definition workqueue_wake :: "nat \<Rightarrow> kernel \<Rightarrow> kernel option" where
  "workqueue_wake q k =
     (if wq_work_current (workqueues k q) = None then do {
        (_, k) \<leftarrow> rt_thread_resume (wq_work_thread (workqueues k q)) k;
        rt_schedule k
      }
      else Some k)"

definition workqueue_submit_work :: "nat \<Rightarrow> nat \<Rightarrow> kernel \<Rightarrow> (rt_err_t \<times> kernel) option" where
  "workqueue_submit_work q w k =
     (if wk_flags (works k w) AND RT_WORK_STATE_PENDING \<noteq> 0 then Some (- RT_EBUSY, k)
      else if wq_work_current (workqueues k q) = Some w then Some (- RT_EBUSY, k)
      else do {
        let k = work_unlink w k;
        let k = work_append q w k;
        let k = work_flags_or w RT_WORK_STATE_PENDING k;
        k \<leftarrow> workqueue_wake q k;
        Some (RT_EOK, k)
      })"

definition workqueue_cancel_work :: "nat \<Rightarrow> nat \<Rightarrow> kernel \<Rightarrow> rt_err_t \<times> kernel" where
  "workqueue_cancel_work q w k =
     (if wq_work_current (workqueues k q) = Some w then (- RT_EBUSY, k)
      else (RT_EOK, work_flags_clear w RT_WORK_STATE_PENDING (work_unlink w k)))"

text \<open>\<open>einval\<close> is the constant \<^verbatim>\<open>EINVAL\<close> of the C library.\<close>

definition workqueue_cancel_delayed_work :: "rt_err_t \<Rightarrow> nat \<Rightarrow> kernel \<Rightarrow> (rt_err_t \<times> kernel) option" where
  "workqueue_cancel_delayed_work einval w k =
     (case wk_workqueue (works k w) of
        None \<Rightarrow> Some (- einval, k)
      | Some q \<Rightarrow> do {
          (ret, k) \<leftarrow>
            (if wk_flags (works k w) AND RT_WORK_STATE_PENDING \<noteq> 0 then Some (workqueue_cancel_work q w k)
             else if wk_flags (works k w) AND RT_WORK_STATE_SUBMITTING \<noteq> 0 then do {
               (_, k) \<leftarrow> rt_timer_stop (Timer (wk_timer (works k w))) k;
               (_, k) \<leftarrow> rt_timer_detach (Timer (wk_timer (works k w))) k;
               Some (RT_EOK, work_flags_clear w RT_WORK_STATE_SUBMITTING k)
             }
             else Some (RT_EOK, k));
          if ret \<noteq> 0 then Some (ret, k)
          else Some (ret, work_flags_clear w RT_WORK_STATE_PENDING (upd_work w (\<lambda>x. x\<lparr>wk_workqueue := None\<rparr>) k))
        })"

text \<open>\<open>handler\<close> is the number of \<^verbatim>\<open>_delayed_work_timeout_handler\<close>.\<close>

definition workqueue_submit_delayed_work ::
  "rt_err_t \<Rightarrow> nat \<Rightarrow> nat \<Rightarrow> nat \<Rightarrow> rt_tick_t \<Rightarrow> kernel \<Rightarrow> (rt_err_t \<times> kernel) option" where
  "workqueue_submit_delayed_work einval handler q w ticks k =
     (if wk_workqueue (works k w) \<noteq> None \<and> wk_workqueue (works k w) \<noteq> Some q then Some (- RT_EINVAL, k)
      else do {
        (ret, k) \<leftarrow> (if wk_workqueue (works k w) = Some q then workqueue_cancel_delayed_work einval w k
                     else Some (RT_EOK, k));
        if ret < 0 then Some (ret, k)
        else do {
          let k = upd_work w (\<lambda>x. x\<lparr>wk_workqueue := Some q\<rparr>) k;
          if ticks = 0 then workqueue_submit_work q w k
          else do {
            let k = work_flags_or w RT_WORK_STATE_SUBMITTING k;
            k \<leftarrow> rt_timer_init (Timer (wk_timer (works k w))) ''work'' (User_timeout handler) w ticks
                   (RT_TIMER_FLAG_ONE_SHOT OR RT_TIMER_FLAG_SOFT_TIMER) k;
            (_, k) \<leftarrow> rt_timer_start (Timer (wk_timer (works k w))) k;
            Some (ret, k)
          }
        }
      })"

definition delayed_work_timeout_handler :: "nat \<Rightarrow> kernel \<Rightarrow> kernel option" where
  "delayed_work_timeout_handler w k = do {
     (_, k) \<leftarrow> rt_timer_stop (Timer (wk_timer (works k w))) k;
     (_, k) \<leftarrow> rt_timer_detach (Timer (wk_timer (works k w))) k;
     let k = work_flags_clear w RT_WORK_STATE_SUBMITTING k;
     let k = upd_work w (\<lambda>x. x\<lparr>wk_type := wk_type x AND NOT RT_WORK_TYPE_DELAYED\<rparr>) k;
     q \<leftarrow> wk_workqueue (works k w);
     (_, k) \<leftarrow> workqueue_submit_work q w k;
     Some k
   }"

text \<open>\<open>mem\<close>, \<open>tmem\<close> and \<open>smem\<close> are the memory for the queue, the thread and its stack; \<open>entry\<close> is the number of
  \<^verbatim>\<open>_workqueue_thread_entry\<close>.\<close>

definition rt_workqueue_create ::
  "nat \<Rightarrow> string \<Rightarrow> u16 \<Rightarrow> u8 \<Rightarrow> nat option \<Rightarrow> tid option \<Rightarrow> nat option \<Rightarrow> kernel \<Rightarrow> (nat option \<times> kernel) option" where
  "rt_workqueue_create entry name stack_size priority mem tmem smem k =
     (case mem of
        None \<Rightarrow> Some (None, k)
      | Some q \<Rightarrow> do {
          let k = upd_wq q (\<lambda>wq. wq\<lparr>wq_work_list := [], wq_work_current := None\<rparr>) k;
          (_, k) \<leftarrow> rt_sem_init (wq_sem (workqueues k q)) ''wqueue'' 0 RT_IPC_FLAG_FIFO k;
          (thread, k) \<leftarrow> rt_thread_create name entry q (ucast stack_size) priority 10 tmem smem k;
          (case thread of
             None \<Rightarrow> Some (None, k)
           | Some t \<Rightarrow> do {
               let k = upd_wq q (\<lambda>wq. wq\<lparr>wq_work_thread := t\<rparr>) k;
               (_, k) \<leftarrow> rt_thread_startup t k;
               Some (Some q, k)
             })
        })"

definition rt_workqueue_destroy :: "nat \<Rightarrow> kernel \<Rightarrow> (rt_err_t \<times> kernel) option" where
  "rt_workqueue_destroy q k = do {
     (_, k) \<leftarrow> rt_thread_delete (wq_work_thread (workqueues k q)) k;
     Some (RT_EOK, k)
   }"

definition rt_workqueue_dowork :: "nat \<Rightarrow> nat \<Rightarrow> kernel \<Rightarrow> (rt_err_t \<times> kernel) option" where
  "rt_workqueue_dowork q w k = workqueue_submit_work q w k"

definition rt_workqueue_submit_work ::
  "rt_err_t \<Rightarrow> nat \<Rightarrow> nat \<Rightarrow> nat \<Rightarrow> rt_tick_t \<Rightarrow> kernel \<Rightarrow> (rt_err_t \<times> kernel) option" where
  "rt_workqueue_submit_work einval handler q w time k =
     (let k = (if 0 < time then upd_work w (\<lambda>x. x\<lparr>wk_type := wk_type x OR RT_WORK_TYPE_DELAYED\<rparr>) k else k)
      in if wk_type (works k w) AND RT_WORK_TYPE_DELAYED \<noteq> 0 then workqueue_submit_delayed_work einval handler q w time k
         else workqueue_submit_work q w k)"

definition rt_workqueue_critical_work :: "nat \<Rightarrow> nat \<Rightarrow> kernel \<Rightarrow> (rt_err_t \<times> kernel) option" where
  "rt_workqueue_critical_work q w k =
     (if wq_work_current (workqueues k q) = Some w then Some (- RT_EBUSY, k)
      else do {
        let k = work_unlink w k;
        let k = work_append q w k;
        k \<leftarrow> workqueue_wake q k;
        Some (RT_EOK, k)
      })"

definition rt_workqueue_cancel_work :: "rt_err_t \<Rightarrow> nat \<Rightarrow> nat \<Rightarrow> kernel \<Rightarrow> (rt_err_t \<times> kernel) option" where
  "rt_workqueue_cancel_work einval q w k =
     (if wk_type (works k w) AND RT_WORK_TYPE_DELAYED \<noteq> 0 then workqueue_cancel_delayed_work einval w k
      else Some (workqueue_cancel_work q w k))"

definition rt_workqueue_cancel_work_sync ::
  "nat \<Rightarrow> nat \<Rightarrow> kernel \<Rightarrow> ((rt_err_t, tid) outcome \<times> kernel) option" where
  "rt_workqueue_cancel_work_sync q w k =
     (if wq_work_current (workqueues k q) = Some w then do {
        (r, k) \<leftarrow> rt_sem_take (wq_sem (workqueues k q)) RT_WAITING_FOREVER k;
        (case r of
           Blocked t \<Rightarrow> Some (Blocked t, k)
         | Done _ \<Rightarrow> Some (Done RT_EOK, work_flags_clear w RT_WORK_STATE_PENDING k))
      }
      else Some (Done RT_EOK, work_flags_clear w RT_WORK_STATE_PENDING (work_unlink w k)))"

definition rt_workqueue_cancel_work_sync_resumed :: "nat \<Rightarrow> kernel \<Rightarrow> rt_err_t \<times> kernel" where
  "rt_workqueue_cancel_work_sync_resumed w k = (RT_EOK, work_flags_clear w RT_WORK_STATE_PENDING k)"

definition rt_workqueue_cancel_all_work :: "nat \<Rightarrow> kernel \<Rightarrow> (rt_err_t \<times> kernel) option" where
  "rt_workqueue_cancel_all_work q k = do {
     let k = rt_enter_critical k;
     let k = upd_wq q (\<lambda>wq. wq\<lparr>wq_work_list := []\<rparr>) k;
     k \<leftarrow> rt_exit_critical k;
     Some (RT_EOK, k)
   }"

text \<open>The work queue of the system, \<open>sys_workq\<close> once it has been created.\<close>

definition rt_work_submit ::
  "rt_err_t \<Rightarrow> nat \<Rightarrow> nat option \<Rightarrow> nat \<Rightarrow> rt_tick_t \<Rightarrow> kernel \<Rightarrow> (rt_err_t \<times> kernel) option" where
  "rt_work_submit einval handler sys_workq w time k = do {
     q \<leftarrow> sys_workq;
     rt_workqueue_submit_work einval handler q w time k
   }"

definition rt_work_cancel :: "rt_err_t \<Rightarrow> nat option \<Rightarrow> nat \<Rightarrow> kernel \<Rightarrow> (rt_err_t \<times> kernel) option" where
  "rt_work_cancel einval sys_workq w k = do {
     q \<leftarrow> sys_workq;
     rt_workqueue_cancel_work einval q w k
   }"

definition rt_work_sys_workqueue_init ::
  "nat \<Rightarrow> nat option \<Rightarrow> nat option \<Rightarrow> tid option \<Rightarrow> nat option \<Rightarrow> kernel \<Rightarrow> (nat option \<times> kernel) option" where
  "rt_work_sys_workqueue_init entry sys_workq mem tmem smem k =
     (if sys_workq \<noteq> None then Some (sys_workq, k)
      else rt_workqueue_create entry ''sys_work'' 2048 23 mem tmem smem k)"

section \<open>Frames\<close>

lemma upd_wq_frame [simp]:
  "threads (upd_wq q f k) = threads k" "tlists (upd_wq q f k) = tlists k" "objs (upd_wq q f k) = objs k"
  "sems (upd_wq q f k) = sems k" "works (upd_wq q f k) = works k"
  "workqueues (upd_wq q f k) q' = (if q' = q then f (workqueues k q) else workqueues k q')"
  by (simp_all add: upd_wq_def)

lemma upd_work_frame [simp]:
  "threads (upd_work w g k) = threads k" "tlists (upd_work w g k) = tlists k" "objs (upd_work w g k) = objs k"
  "sems (upd_work w g k) = sems k" "workqueues (upd_work w g k) = workqueues k"
  "works (upd_work w g k) w' = (if w' = w then g (works k w) else works k w')"
  by (simp_all add: upd_work_def)

lemma work_unlink_frame [simp]:
  "threads (work_unlink w k) = threads k" "tlists (work_unlink w k) = tlists k" "objs (work_unlink w k) = objs k"
  "sems (work_unlink w k) = sems k" "works (work_unlink w k) = works k"
  "wq_work_list (workqueues (work_unlink w k) q) = removeAll w (wq_work_list (workqueues k q))"
  "wq_work_current (workqueues (work_unlink w k) q) = wq_work_current (workqueues k q)"
  "wq_work_thread (workqueues (work_unlink w k) q) = wq_work_thread (workqueues k q)"
  "wq_sem (workqueues (work_unlink w k) q) = wq_sem (workqueues k q)"
  by (simp_all add: work_unlink_def)

lemma base_inv_work [simp]:
  "base_inv k \<Longrightarrow> base_inv (upd_wq q f k)" "base_inv k \<Longrightarrow> base_inv (upd_work w g k)" "base_inv k \<Longrightarrow> base_inv (work_unlink w k)"
  by (rule base_inv_cong [of _ k]; simp add: upd_wq_def upd_work_def work_unlink_def timers_same_def)+

lemma live_threads: "threads k' = threads k \<Longrightarrow> live k' t = live k t"
  by (simp add: live_def thread_stat_def)

lemma get_type_objs: "objs k' = objs k \<Longrightarrow> rt_object_get_type k' r = rt_object_get_type k r"
  by (simp add: rt_object_get_type_def)

section \<open>Submitting\<close>

text \<open>An item on the list is marked as pending, and the one in execution is not on the list.\<close>

definition wq_inv :: "kernel \<Rightarrow> nat \<Rightarrow> bool" where
  "wq_inv k q \<longleftrightarrow>
     distinct (wq_work_list (workqueues k q)) \<and>
     (\<forall>w \<in> set (wq_work_list (workqueues k q)). wk_flags (works k w) AND RT_WORK_STATE_PENDING \<noteq> 0) \<and>
     (\<forall>w. wq_work_current (workqueues k q) = Some w \<longrightarrow> w \<notin> set (wq_work_list (workqueues k q)))"

abbreviation worker :: "kernel \<Rightarrow> nat \<Rightarrow> tid" where
  "worker k q \<equiv> wq_work_thread (workqueues k q)"

lemma wq_inv_ipc: "ipc_same k k' \<Longrightarrow> wq_inv k' q = wq_inv k q"
  by (simp add: wq_inv_def ipc_sameD(15,16))

lemma workqueue_wake_step:
  assumes b: "base_inv k" and t: "live k (worker k q)"
  obtains k' where "workqueue_wake q k = Some k'" "base_inv k'" "ipc_same k k'"
    "wq_work_current (workqueues k q) = None \<Longrightarrow> runnable k' (worker k q)"
proof (cases "wq_work_current (workqueues k q)")
  case (Some w)
  then show ?thesis using that [of k] b by (simp add: workqueue_wake_def)
next
  case None
  let ?t = "worker k q"
  obtain r k1 where k1: "rt_thread_resume ?t k = Some (r, k1)" "base_inv k1" "ipc_same k k1" "runnable k1 ?t"
    by (rule resume_any [OF b t]) blast
  note s = base_invD [OF k1(2)]
  obtain k' where k': "rt_schedule k1 = Some k'" "resched k1 k'" using s(1,3) by (rule rt_schedule_step)
  note d = reschedD [OF k'(2)]
  have "workqueue_wake q k = Some k'" using None k1(1) k'(1) by (simp add: workqueue_wake_def)
  moreover have "base_inv k'" using d(1,8) timer_inv_resched [OF k'(2) s(2)] s(3) by (simp add: base_inv_def)
  moreover have "ipc_same k k'" using ipc_same_trans [OF k1(3) d(2)] .
  moreover have "runnable k' ?t" using d(6) k1(4) by simp
  ultimately show ?thesis by (rule that)
qed

lemma or_pending: "(x OR (1 :: u16)) AND 1 = 1"
  by (simp add: bit.conj_disj_distrib2)

lemma clear_pending [simp]: "(x AND - (2 :: u16)) AND 1 = 0"
  by (simp add: and.assoc)

text \<open>The effect of an accepted submission.\<close>

definition submitted :: "nat \<Rightarrow> nat \<Rightarrow> kernel \<Rightarrow> kernel \<Rightarrow> bool" where
  "submitted q w k k' \<longleftrightarrow>
     base_inv k' \<and> wq_inv k' q \<and> wq_work_list (workqueues k' q) = wq_work_list (workqueues k q) @ [w] \<and>
     wq_work_current (workqueues k' q) = wq_work_current (workqueues k q) \<and>
     wk_flags (works k' w) AND RT_WORK_STATE_PENDING \<noteq> 0 \<and> wk_type (works k' w) = wk_type (works k w) \<and>
     worker k' q = worker k q \<and> (wq_work_current (workqueues k q) = None \<longrightarrow> runnable k' (worker k q)) \<and>
     wq_sem (workqueues k' q) = wq_sem (workqueues k q) \<and> sems k' = sems k \<and>
     (\<forall>r. rt_object_get_type k' r = rt_object_get_type k r) \<and> (\<forall>v. v \<noteq> w \<longrightarrow> works k' v = works k v)"

lemma workqueue_submit_accepts:
  assumes b: "base_inv k" and i: "wq_inv k q" and t: "live k (worker k q)"
    and p: "wk_flags (works k w) AND RT_WORK_STATE_PENDING = 0" and c: "wq_work_current (workqueues k q) \<noteq> Some w"
  obtains k' where "workqueue_submit_work q w k = Some (RT_EOK, k')" "submitted q w k k'"
proof -
  let ?k = "work_flags_or w RT_WORK_STATE_PENDING (work_append q w (work_unlink w k))"
  have w: "w \<notin> set (wq_work_list (workqueues k q))" using i p by (auto simp: wq_inv_def)
  have wl: "wq_work_list (workqueues ?k q) = wq_work_list (workqueues k q) @ [w]"
    "wq_work_current (workqueues ?k q) = wq_work_current (workqueues k q)" "worker ?k q = worker k q"
    "wk_flags (works ?k w) AND 1 \<noteq> 0" "wk_type (works ?k w) = wk_type (works k w)"
    "\<And>w'. w' \<noteq> w \<Longrightarrow> works ?k w' = works k w'"
    using w by (simp_all add: work_flags_or_def work_append_def or_pending)
  have "wk_flags (works ?k v) AND 1 \<noteq> 0" if "v \<in> set (wq_work_list (workqueues k q))" for v
    using that i wl(4,6) by (cases "v = w") (simp_all add: wq_inv_def)
  then have i': "wq_inv ?k q"
    using i w c wl(1,2,4) by (auto simp: wq_inv_def simp del: work_unlink_frame)
  have b': "base_inv ?k" using b by (simp add: work_flags_or_def work_append_def)
  have "threads ?k = threads k" by (simp add: work_flags_or_def work_append_def)
  then have t': "live ?k (worker ?k q)" using t wl(3) live_threads by metis
  obtain k' where k': "workqueue_wake q ?k = Some k'" "base_inv k'" "ipc_same ?k k'"
    "wq_work_current (workqueues ?k q) = None \<Longrightarrow> runnable k' (worker ?k q)"
    using workqueue_wake_step [OF b' t'] by blast
  note f = ipc_sameD(1,15,16) [OF k'(3)]
  have o: "wq_sem (workqueues ?k q) = wq_sem (workqueues k q)" "sems ?k = sems k" "objs ?k = objs k"
    by (simp_all add: work_flags_or_def work_append_def)
  have "rt_object_get_type k' r = rt_object_get_type k r" for r
    using ipc_sameD(11) [OF k'(3), of r] o(3) by (simp add: rt_object_get_type_def)
  moreover have "workqueue_submit_work q w k = Some (RT_EOK, k')" using p c k'(1) by (simp add: workqueue_submit_work_def Let_def)
  moreover have "wq_inv k' q" using i' wq_inv_ipc [OF k'(3)] by simp
  ultimately show ?thesis using k'(2,4) wl o by (intro that [of k']) (simp_all add: submitted_def f)
qed

section \<open>Acknowledging\<close>

text \<open>The effect of acknowledging an item: every thread that waits on the semaphore is runnable, its value is 0.\<close>

definition acked :: "nat \<Rightarrow> kernel \<Rightarrow> kernel \<Rightarrow> bool" where
  "acked s k k' \<longleftrightarrow>
     base_inv k' \<and> workqueues k' = workqueues k \<and> works k' = works k \<and> sem_value (sems k' s) = 0 \<and> tlists k' (LSem s) = [] \<and>
     (\<forall>r. rt_object_get_type k' r = rt_object_get_type k r) \<and> only_stat k k' \<and>
     (\<forall>t. runnable k t \<or> t \<in> set (tlists k (LSem s)) \<longrightarrow> runnable k' t)"

lemma completion_loop_acks:
  assumes "base_inv k" "rt_object_get_type k (OSem s) = RT_Object_Class_Semaphore" "sem_value (sems k s) = 0"
  shows "\<exists>k'. completion_loop s k = Some (RT_EOK, k') \<and> acked s k k'"
  using assms
proof (induction "tlists k (LSem s)" arbitrary: k)
  case Nil
  let ?k1 = "set_sem_value s (\<lambda>v. v + 1) k" and ?k2 = "set_sem_value s (\<lambda>v. v - 1) (set_sem_value s (\<lambda>v. v + 1) k)"
  have ob: "rt_object_get_type ?k1 r = rt_object_get_type k r" "rt_object_get_type ?k2 r = rt_object_get_type k r"
    "workqueues ?k2 = workqueues k" "works ?k2 = works k" for r
    by (simp_all add: rt_object_get_type_def set_sem_value_def)
  have "completion_loop s k = completion_loop s ?k1"
    using Nil by (subst completion_loop.simps) (simp add: rt_sem_trytake_def rt_sem_take_def rt_sem_release_def)
  also have "\<dots> = Some (RT_EOK, ?k2)"
    using Nil ob by (subst completion_loop.simps) (simp add: rt_sem_trytake_def rt_sem_take_def)
  finally show ?case
    using Nil ob by (intro exI [of _ ?k2]) (auto simp: acked_def only_stat_def dest: sym)
next
  case (Cons t ts)
  obtain k1 where k1: "rt_sem_release s k = Some (RT_EOK, k1)" "wakes t k k1" "tlists k1 (LSem s) = ts"
    using rt_sem_release_wakes [OF Cons.prems(1,2) Cons.hyps(2) [symmetric]] by blast
  note w = k1(2) [unfolded wakes_def]
  have f: "sems k1 = sems k" "workqueues k1 = workqueues k" "works k1 = works k"
    "\<And>r. rt_object_get_type k1 r = rt_object_get_type k r"
    using w ipc_sameD(1,11,15,16) [of k k1] by (simp_all add: rt_object_get_type_def)
  obtain k' where k': "completion_loop s k1 = Some (RT_EOK, k')" "acked s k1 k'"
    using Cons.hyps(1) [OF k1(3) [symmetric]] base_inv_wakes [OF Cons.prems(1) k1(2)] f Cons.prems(2,3) by metis
  have "completion_loop s k = Some (RT_EOK, k')"
    using Cons.prems(2,3) k1(1) k'(1)
    by (subst completion_loop.simps) (simp add: rt_sem_trytake_def rt_sem_take_def)
  moreover have "runnable k' u" if "runnable k u \<or> u \<in> set (tlists k (LSem s))" for u
  proof -
    have "runnable k1 u \<or> u \<in> set (tlists k1 (LSem s))"
      using that w k1(3) Cons.hyps(2) by (cases "u = t") auto
    then show ?thesis using k'(2) by (auto simp: acked_def)
  qed
  then have "acked s k k'"
    using k'(2) f w only_stat_trans [of k k1 k'] by (simp add: acked_def)
  ultimately show ?case by blast
qed

lemma acked_critical: "acked s (rt_enter_critical k) k' \<Longrightarrow> acked s k k'"
  by (simp add: acked_def rt_enter_critical_def rt_object_get_type_def only_stat_def runnable_def thread_stat_def)

lemma acked_resched:
  assumes "acked s k k1" "resched k1 k'"
  shows "acked s k k'"
proof -
  note a = assms(1) [unfolded acked_def] and d = reschedD [OF assms(2)]
  have "base_inv k'" using a d(1,8) timer_inv_resched [OF assms(2)] by (simp add: base_inv_def)
  moreover have "rt_object_get_type k' r = rt_object_get_type k1 r" for r
    using ipc_sameD(11) [OF d(2), of r] by (simp add: rt_object_get_type_def)
  ultimately show ?thesis
    using a d(6) ipc_sameD(1,15,16) [OF d(2)] only_stat_trans [OF _ d(4)] resched_wait_list [OF assms(2)]
    by (simp add: acked_def)
qed

lemma workqueue_completion_acks:
  assumes "base_inv k" "rt_object_get_type k (OSem (wq_sem (workqueues k q))) = RT_Object_Class_Semaphore"
    "sem_value (sems k (wq_sem (workqueues k q))) = 0"
  obtains k' where "workqueue_work_completion q k = Some (RT_EOK, k')" "acked (wq_sem (workqueues k q)) k k'"
proof -
  let ?s = "wq_sem (workqueues k q)" and ?k = "rt_enter_critical k"
  have "base_inv ?k" using assms(1) by (rule base_inv_cong [rotated 5]) (simp_all add: rt_enter_critical_def timers_same_def)
  moreover have "rt_object_get_type ?k (OSem ?s) = RT_Object_Class_Semaphore" "sem_value (sems ?k ?s) = 0"
    "wq_sem (workqueues ?k q) = ?s"
    using assms(2,3) by (simp_all add: rt_enter_critical_def rt_object_get_type_def)
  ultimately obtain k1 where k1: "completion_loop ?s ?k = Some (RT_EOK, k1)" "acked ?s ?k k1" "wq_sem (workqueues ?k q) = ?s"
    using completion_loop_acks [of ?k ?s] by blast
  have "sched_inv k1" using k1(2) by (simp add: acked_def base_inv_def)
  then obtain k' where k': "rt_exit_critical k1 = Some k'" "resched k1 k'" by (rule rt_exit_critical_step)
  have "workqueue_work_completion q k = Some (RT_EOK, k')" using k1(1,3) k'(1) by (simp add: workqueue_work_completion_def)
  moreover have "acked ?s k k'" using acked_resched [OF acked_critical [OF k1(2)] k'(2)] .
  ultimately show ?thesis by (rule that)
qed

section \<open>The worker\<close>

definition wq_ready :: "kernel \<Rightarrow> nat \<Rightarrow> bool" where
  "wq_ready k q \<longleftrightarrow>
     base_inv k \<and> rt_object_get_type k (OSem (wq_sem (workqueues k q))) = RT_Object_Class_Semaphore \<and>
     sem_value (sems k (wq_sem (workqueues k q))) = 0"

text \<open>What the work functions must respect: they return in a good state and leave the queue and its items alone; threads
  may start to wait for the item.\<close>

definition work_respects :: "(nat \<Rightarrow> nat \<Rightarrow> nat \<Rightarrow> kernel \<Rightarrow> kernel option) \<Rightarrow> nat \<Rightarrow> bool" where
  "work_respects run q \<longleftrightarrow>
     (\<forall>f w d k. wq_ready k q \<longrightarrow>
        (\<exists>k'. run f w d k = Some k' \<and> wq_ready k' q \<and> workqueues k' q = workqueues k q \<and> works k' = works k \<and>
          set (tlists k (LSem (wq_sem (workqueues k q)))) \<subseteq> set (tlists k' (LSem (wq_sem (workqueues k q))))))"

lemma workqueue_take_step:
  assumes r: "wq_ready k q" and i: "wq_inv k q" and l: "wq_work_list (workqueues k q) = w # ws"
  obtains k' where "workqueue_take q k = Some (w, k')" "wq_ready k' q" "tlists k' = tlists k"
    "workqueues k' q = (workqueues k q)\<lparr>wq_work_list := ws, wq_work_current := Some w\<rparr>"
    "wk_flags (works k' w) AND RT_WORK_STATE_PENDING = 0" "\<And>v. v \<noteq> w \<Longrightarrow> works k' v = works k v"
proof -
  let ?k = "upd_work w (\<lambda>x. x\<lparr>wk_workqueue := None\<rparr>) (work_flags_clear w RT_WORK_STATE_PENDING
    (upd_wq q (\<lambda>wq. wq\<lparr>wq_work_current := Some w\<rparr>) (work_unlink w k)))"
  have ws: "removeAll w (w # ws) = ws" using i l by (simp add: wq_inv_def)
  have "workqueues ?k q = (workqueues k q)\<lparr>wq_work_list := ws, wq_work_current := Some w\<rparr>"
    using ws l by (simp add: work_flags_clear_def work_unlink_def)
  moreover have "objs ?k = objs k" "sems ?k = sems k" "base_inv ?k"
    using r by (simp_all add: work_flags_clear_def wq_ready_def)
  ultimately have "wq_ready ?k q" using r get_type_objs [of ?k k] by (simp add: wq_ready_def)
  moreover have "workqueue_take q k = Some (w, ?k)" using l by (simp add: workqueue_take_def Let_def)
  moreover have "workqueues ?k q = (workqueues k q)\<lparr>wq_work_list := ws, wq_work_current := Some w\<rparr>" by fact
  ultimately show ?thesis by (intro that [of ?k]) (simp_all add: work_flags_clear_def)
qed

lemma workqueue_item_step:
  assumes r: "wq_ready k q" and i: "wq_inv k q" and l: "wq_work_list (workqueues k q) = w # ws"
    and run: "work_respects run q"
  obtains k' where "workqueue_thread_resumed run q k = Some (w, k')" "wq_ready k' q" "wq_inv k' q"
    "wq_work_list (workqueues k' q) = ws" "wq_work_current (workqueues k' q) = None"
    "wk_flags (works k' w) AND RT_WORK_STATE_PENDING = 0" "\<And>v. v \<noteq> w \<Longrightarrow> works k' v = works k v"
    "\<And>t. t \<in> set (tlists k (LSem (wq_sem (workqueues k q)))) \<Longrightarrow> runnable k' t"
proof -
  let ?s = "wq_sem (workqueues k q)"
  obtain k1 where k1: "workqueue_take q k = Some (w, k1)" "wq_ready k1 q" "tlists k1 = tlists k"
    "workqueues k1 q = (workqueues k q)\<lparr>wq_work_list := ws, wq_work_current := Some w\<rparr>"
    "wk_flags (works k1 w) AND RT_WORK_STATE_PENDING = 0" "\<And>v. v \<noteq> w \<Longrightarrow> works k1 v = works k v"
    by (rule workqueue_take_step [OF r i l]) blast
  obtain k2 where k2: "run (wk_func (works k1 w)) w (wk_data (works k1 w)) k1 = Some k2" "wq_ready k2 q"
    "workqueues k2 q = workqueues k1 q" "works k2 = works k1" "set (tlists k (LSem ?s)) \<subseteq> set (tlists k2 (LSem ?s))"
    using run [unfolded work_respects_def, rule_format, OF k1(2), of "wk_func (works k1 w)" w "wk_data (works k1 w)"] k1(3,4)
    by auto
  let ?k3 = "upd_wq q (\<lambda>wq. wq\<lparr>wq_work_current := None\<rparr>) k2"
  have s: "wq_sem (workqueues ?k3 q) = ?s" "wq_sem (workqueues k2 q) = ?s" using k2(3) k1(4) by simp_all
  have b: "base_inv ?k3" "rt_object_get_type ?k3 (OSem (wq_sem (workqueues ?k3 q))) = RT_Object_Class_Semaphore"
    "sem_value (sems ?k3 (wq_sem (workqueues ?k3 q))) = 0"
    using k2(2) s get_type_objs [of ?k3 k2] by (simp_all add: wq_ready_def)
  obtain k' where k': "workqueue_work_completion q ?k3 = Some (RT_EOK, k')" "acked ?s ?k3 k'"
    using workqueue_completion_acks [OF b] unfolding s by blast
  note a = k'(2) [unfolded acked_def]
  have "workqueue_thread_resumed run q k = Some (w, k')"
    using k1(1) k2(1) k'(1) by (simp add: workqueue_thread_resumed_def)
  moreover have wq: "workqueues k' q = (workqueues k q)\<lparr>wq_work_list := ws, wq_work_current := None\<rparr>"
    using a k2(3) k1(4) by simp
  moreover have wk: "works k' = works k1" using a k2(4) by simp
  moreover have "wq_ready k' q" using a b s wq by (simp add: wq_ready_def)
  moreover have "works k1 v = works k v" if "v \<in> set ws" for v using that i l k1(6) [of v] by (auto simp: wq_inv_def)
  then have "wq_inv k' q" using i l unfolding wq_inv_def wq wk by auto
  moreover have "runnable k' t" if "t \<in> set (tlists k (LSem ?s))" for t using that k2(5) a by auto
  ultimately show ?thesis using k1(5,6) by (intro that [of k']) simp_all
qed

primrec worker_rounds ::
  "(nat \<Rightarrow> nat \<Rightarrow> nat \<Rightarrow> kernel \<Rightarrow> kernel option) \<Rightarrow> nat \<Rightarrow> nat \<Rightarrow> kernel \<Rightarrow> (nat list \<times> kernel) option" where
  "worker_rounds run q 0 k = Some ([], k)"
| "worker_rounds run q (Suc n) k = do {
     (w, k) \<leftarrow> workqueue_thread_resumed run q k;
     (ws, k) \<leftarrow> worker_rounds run q n k;
     Some (w # ws, k)
   }"

lemma worker_rounds_all:
  assumes "wq_ready k q" "wq_inv k q" "wq_work_list (workqueues k q) = ws" "work_respects run q"
  shows "\<exists>k'. worker_rounds run q (length ws) k = Some (ws, k') \<and> wq_ready k' q \<and> wq_inv k' q \<and>
    wq_work_list (workqueues k' q) = [] \<and> (\<forall>w \<in> set ws. wk_flags (works k' w) AND RT_WORK_STATE_PENDING = 0) \<and>
    (\<forall>w. w \<notin> set ws \<longrightarrow> works k' w = works k w)"
  using assms(1-3)
proof (induction ws arbitrary: k)
  case (Cons w ws)
  obtain k1 where k1: "workqueue_thread_resumed run q k = Some (w, k1)" "wq_ready k1 q" "wq_inv k1 q"
    "wq_work_list (workqueues k1 q) = ws" "wk_flags (works k1 w) AND RT_WORK_STATE_PENDING = 0"
    "\<And>v. v \<noteq> w \<Longrightarrow> works k1 v = works k v"
    using workqueue_item_step [OF Cons.prems assms(4)] by blast
  obtain k' where k': "worker_rounds run q (length ws) k1 = Some (ws, k')" "wq_ready k' q" "wq_inv k' q"
    "wq_work_list (workqueues k' q) = []" "\<forall>w \<in> set ws. wk_flags (works k' w) AND RT_WORK_STATE_PENDING = 0"
    "\<forall>w. w \<notin> set ws \<longrightarrow> works k' w = works k1 w"
    using Cons.IH [OF k1(2-4)] by blast
  have "w \<notin> set ws" using Cons.prems(2,3) by (simp add: wq_inv_def)
  with k1 k' show ?case by (intro exI [of _ k']) auto
qed simp

section \<open>Properties\<close>

text \<open>\<^verbatim>\<open>rt_workqueue_dowork\<close> returns on every branch. An item that is pending or in execution is refused with \<^verbatim>\<open>-RT_EBUSY\<close> and
  nothing changes; any other item goes to the end of the list, once, marked as pending, and the worker is runnable unless it is
  executing an item.\<close>

theorem rt_workqueue_dowork_ok:
  assumes "base_inv k" "wq_inv k q" "live k (worker k q)"
  shows "if wk_flags (works k w) AND RT_WORK_STATE_PENDING \<noteq> 0 \<or> wq_work_current (workqueues k q) = Some w
    then rt_workqueue_dowork q w k = Some (- RT_EBUSY, k)
    else \<exists>k'. rt_workqueue_dowork q w k = Some (RT_EOK, k') \<and> base_inv k' \<and> wq_inv k' q \<and>
      wq_work_list (workqueues k' q) = wq_work_list (workqueues k q) @ [w] \<and>
      wk_flags (works k' w) AND RT_WORK_STATE_PENDING \<noteq> 0 \<and>
      (wq_work_current (workqueues k q) = None \<longrightarrow> runnable k' (worker k q))"
proof (cases "wk_flags (works k w) AND RT_WORK_STATE_PENDING \<noteq> 0 \<or> wq_work_current (workqueues k q) = Some w")
  case True
  then show ?thesis by (auto simp: rt_workqueue_dowork_def workqueue_submit_work_def)
next
  case False
  then have f: "wk_flags (works k w) AND 1 = 0" "wq_work_current (workqueues k q) \<noteq> Some w" by auto
  obtain k' where "workqueue_submit_work q w k = Some (RT_EOK, k')" "submitted q w k k'"
    using workqueue_submit_accepts [OF assms f] .
  with False show ?thesis by (simp add: rt_workqueue_dowork_def submitted_def)
qed

text \<open>Submitting a sequence of different items to a queue.\<close>

lemma submit_all:
  assumes "wq_ready k q" "wq_inv k q" "live k (worker k q)" "wq_work_current (workqueues k q) = None"
    "distinct ws" "\<forall>w \<in> set ws. wk_flags (works k w) AND RT_WORK_STATE_PENDING = 0"
  shows "\<exists>k'. iterM (\<lambda>w k. map_option snd (rt_workqueue_dowork q w k)) ws k = Some k' \<and> wq_ready k' q \<and> wq_inv k' q \<and>
    wq_work_list (workqueues k' q) = wq_work_list (workqueues k q) @ ws \<and> live k' (worker k q) \<and>
    (ws \<noteq> [] \<longrightarrow> runnable k' (worker k q))"
  using assms
proof (induction ws arbitrary: k)
  case (Cons w ws)
  have c: "wq_work_current (workqueues k q) \<noteq> Some w" "wk_flags (works k w) AND 1 = 0" using Cons.prems(4,6) by auto
  have b: "base_inv k" using Cons.prems(1) by (simp add: wq_ready_def)
  obtain k1 where k1: "workqueue_submit_work q w k = Some (RT_EOK, k1)" "submitted q w k k1"
    using workqueue_submit_accepts [OF b Cons.prems(2,3) c(2,1)] .
  note s = k1(2) [unfolded submitted_def]
  have "\<forall>v \<in> set ws. wk_flags (works k1 v) AND 1 = 0" using Cons.prems(5,6) s by (metis distinct.simps(2) list.set_intros(2))
  moreover have "wq_ready k1 q" using Cons.prems(1) s by (simp add: wq_ready_def)
  ultimately obtain k' where k': "iterM (\<lambda>w k. map_option snd (rt_workqueue_dowork q w k)) ws k1 = Some k'" "wq_ready k' q"
    "wq_inv k' q" "wq_work_list (workqueues k' q) = wq_work_list (workqueues k1 q) @ ws" "live k' (worker k1 q)"
    "ws \<noteq> [] \<longrightarrow> runnable k' (worker k1 q)"
    using Cons.IH [of k1] Cons.prems(4,5) s runnable_live by auto
  then show ?case using k1(1) Cons.prems(4) s by (cases ws) (auto simp: rt_workqueue_dowork_def)
qed simp


text \<open>The timer of a work item is taken off its list and out of the registry.\<close>

lemma timer_inv_unregister:
  assumes "timer_inv k" "\<not> listed k (Timer n)"
  shows "timer_inv (rt_object_detach (OTimer (Timer n)) k)"
proof -
  let ?k = "rt_object_detach (OTimer (Timer n)) k"
  have rd: "thread_stat ?k u = thread_stat k u" "live ?k u = live k u" "listed ?k m = listed k m" "tm_flag ?k m = tm_flag k m"
    "timers ?k = timers k" "rt_timer_list ?k = rt_timer_list k" "rt_soft_timer_list ?k = rt_soft_timer_list k"
    "rt_object_get_type ?k (OThread u) = rt_object_get_type k (OThread u)"
    "m \<noteq> Timer n \<Longrightarrow> rt_object_get_type ?k (OTimer m) = rt_object_get_type k (OTimer m)" for u m
    by (simp_all add: thread_stat_def live_def listed_def tm_flag_def rt_object_detach_def object_list_remove_def
        upd_obj_def rt_object_get_type_def)
  have "thread_timer_ok ?k u = thread_timer_ok k u" for u by (simp add: thread_timer_ok_def rd)
  moreover have "timer_lists_ok ?k"
    using timer_invD(1) [OF assms(1)] assms(2) unfolding timer_lists_ok_def rd(3,4,6,7) by (metis rd(9))
  ultimately show ?thesis using assms(1) by (simp add: timer_inv_def rd)
qed

lemma work_timer_removed:
  assumes b: "base_inv k" and ty: "rt_object_get_type k (OTimer (Timer n)) = RT_Object_Class_Timer"
    and st: "rt_object_is_systemobject k (OTimer (Timer n))"
  obtains r k1 k2 where "rt_timer_stop (Timer n) k = Some (r, k1)" "rt_timer_detach (Timer n) k1 = Some (RT_EOK, k2)"
    "base_inv k2" "threads k2 = threads k" "workqueues k2 = workqueues k" "works k2 = works k" "works k1 = works k"
    "\<not> listed k2 (Timer n)" "\<And>c. OTimer (Timer n) \<notin> set (object_list k2 c)"
proof -
  obtain r k1 where k1: "rt_timer_stop (Timer n) k = Some (r, k1)" "stopped (Timer n) k k1"
    using rt_timer_stop_step [OF base_invD(2) [OF b] ty] by blast
  note s = k1(2) [unfolded stopped_def]
  have tp: "obj_type (objs k1 r') = obj_type (objs k r')" for r' using s ipc_sameD(11) by simp
  let ?k2 = "rt_object_detach (OTimer (Timer n)) (rt_timer_remove (Timer n) k1)"
  have "rt_timer_detach (Timer n) k1 = Some (RT_EOK, ?k2)"
    using ty st tp by (simp add: rt_timer_detach_def rt_object_get_type_def rt_object_is_systemobject_def)
  moreover have "timer_inv ?k2"
    using s by (intro timer_inv_unregister timer_inv_remove) (simp_all add: listed_def rt_timer_remove_def)
  then have "base_inv ?k2"
    using b s sched_inv_cong [of ?k2 k]
    by (simp add: base_inv_def rt_object_detach_def rt_timer_remove_def object_list_remove_def upd_obj_def)
  ultimately show ?thesis
    using k1(1) s ipc_sameD(15,16) [of k k1]
    by (intro that [of r k1 ?k2])
      (simp_all add: rt_object_detach_def rt_timer_remove_def object_list_remove_def upd_obj_def listed_def)
qed

text \<open>The timeout of a delayed item submits it: \<^verbatim>\<open>_delayed_work_timeout_handler\<close> returns, the timer of the item is on no list and no
  longer registered, and the item is the last one on the list of the queue it was delayed for, pending and no longer marked as
  being submitted, with the worker runnable unless it is executing an item.\<close>

theorem delayed_work_timeout_submits:
  assumes "base_inv k" "wq_inv k q" "live k (worker k q)" "wk_workqueue (works k w) = Some q"
    and "wk_flags (works k w) AND RT_WORK_STATE_PENDING = 0" "wq_work_current (workqueues k q) \<noteq> Some w"
    and "rt_object_get_type k (OTimer (Timer (wk_timer (works k w)))) = RT_Object_Class_Timer"
    and "rt_object_is_systemobject k (OTimer (Timer (wk_timer (works k w))))"
  shows "\<exists>k'. delayed_work_timeout_handler w k = Some k' \<and> base_inv k' \<and> wq_inv k' q \<and>
    wq_work_list (workqueues k' q) = wq_work_list (workqueues k q) @ [w] \<and>
    wk_flags (works k' w) AND RT_WORK_STATE_PENDING \<noteq> 0 \<and> wk_type (works k' w) AND RT_WORK_TYPE_DELAYED = 0 \<and>
    (wq_work_current (workqueues k q) = None \<longrightarrow> runnable k' (worker k q))"
proof -
  let ?n = "wk_timer (works k w)"
  obtain r k1 k2 where k2: "rt_timer_stop (Timer ?n) k = Some (r, k1)" "rt_timer_detach (Timer ?n) k1 = Some (RT_EOK, k2)"
    "base_inv k2" "threads k2 = threads k" "workqueues k2 = workqueues k" "works k2 = works k" "works k1 = works k"
    by (rule work_timer_removed [OF assms(1,7,8)]) blast
  let ?k = "upd_work w (\<lambda>x. x\<lparr>wk_type := wk_type x AND NOT RT_WORK_TYPE_DELAYED\<rparr>) (work_flags_clear w RT_WORK_STATE_SUBMITTING k2)"
  have fl: "wk_flags (works ?k v) AND 1 = wk_flags (works k v) AND 1" for v
    using k2(6) by (simp add: work_flags_clear_def and.assoc)
  have wq: "workqueues ?k = workqueues k" "threads ?k = threads k" using k2 by (simp_all add: work_flags_clear_def)
  have b: "base_inv ?k" using k2(3) by (simp add: work_flags_clear_def)
  have i: "wq_inv ?k q" using assms(2) unfolding wq_inv_def wq fl .
  have l: "live ?k (worker ?k q)" using assms(3) unfolding wq(1) live_threads [OF wq(2)] .
  have f: "wk_flags (works ?k w) AND 1 = 0" "wq_work_current (workqueues ?k q) \<noteq> Some w"
    using assms(5,6) unfolding wq(1) fl .
  have ty: "wk_type (works ?k w) AND 1 = 0" by simp
  obtain k' where k': "workqueue_submit_work q w ?k = Some (RT_EOK, k')" "submitted q w ?k k'"
    using workqueue_submit_accepts [OF b i l f] .
  have "delayed_work_timeout_handler w k = Some k'"
    using k2(1,2,6,7) assms(4) k'(1) by (simp add: delayed_work_timeout_handler_def work_flags_clear_def Let_def)
  moreover have "wk_type (works k' w) AND 1 = 0" using k'(2) ty by (simp add: submitted_def)
  ultimately show ?thesis using k'(2) wq(1) unfolding submitted_def by simp
qed

text \<open>Whoever waits for the item in execution is woken when it is finished. The loop that acknowledges the item ends, however many threads
  wait: each of them is runnable afterwards, nobody waits any more, and the semaphore is back at 0.\<close>

theorem workqueue_completion_wakes_all:
  assumes "base_inv k" "rt_object_get_type k (OSem (wq_sem (workqueues k q))) = RT_Object_Class_Semaphore"
    and "sem_value (sems k (wq_sem (workqueues k q))) = 0"
  shows "\<exists>k'. workqueue_work_completion q k = Some (RT_EOK, k') \<and> base_inv k' \<and>
    (\<forall>t \<in> set (tlists k (LSem (wq_sem (workqueues k q)))). runnable k' t) \<and>
    tlists k' (LSem (wq_sem (workqueues k q))) = [] \<and> sem_value (sems k' (wq_sem (workqueues k q))) = 0"
  using workqueue_completion_acks [OF assms] unfolding acked_def by metis

text \<open>C28: cancelling the only item of a queue before the worker runs breaks the worker. The submission has made the
  worker runnable behind its test for an empty list; when it runs after the cancellation it takes the first element of an empty
  list, which is the list head itself.\<close>

theorem workqueue_cancel_breaks_worker:
  assumes "base_inv k" "wq_inv k q" "live k (worker k q)" "wq_work_current (workqueues k q) = None"
    and "wq_work_list (workqueues k q) = []" "wk_flags (works k w) AND RT_WORK_STATE_PENDING = 0"
    and "wk_type (works k w) AND RT_WORK_TYPE_DELAYED = 0"
  shows "\<exists>k1 k2. rt_workqueue_dowork q w k = Some (RT_EOK, k1) \<and> runnable k1 (worker k q) \<and>
    rt_workqueue_cancel_work einval q w k1 = Some (RT_EOK, k2) \<and> runnable k2 (worker k q) \<and>
    workqueue_thread_resumed run q k2 = None"
proof -
  have c: "wq_work_current (workqueues k q) \<noteq> Some w" using assms(4) by simp
  obtain k1 where k0: "workqueue_submit_work q w k = Some (RT_EOK, k1)" "submitted q w k k1"
    using workqueue_submit_accepts [OF assms(1-3,6) c] .
  have k1: "workqueue_submit_work q w k = Some (RT_EOK, k1)" "wq_work_list (workqueues k1 q) = [w]"
    "wq_work_current (workqueues k1 q) = None" "wk_type (works k1 w) = wk_type (works k w)" "runnable k1 (worker k q)"
    using k0 assms(4,5) by (simp_all add: submitted_def)
  let ?k = "work_flags_clear w RT_WORK_STATE_PENDING (work_unlink w k1)"
  have "rt_workqueue_cancel_work einval q w k1 = Some (RT_EOK, ?k)"
    using assms(7) k1(3,4) by (simp add: rt_workqueue_cancel_work_def workqueue_cancel_work_def)
  moreover have "workqueue_thread_resumed run q ?k = None"
    using k1(2) by (simp add: workqueue_thread_resumed_def workqueue_take_def work_flags_clear_def)
  moreover have "runnable ?k (worker k q)" using k1(5) by (simp add: runnable_def thread_stat_def work_flags_clear_def)
  ultimately show ?thesis using k1(1,5) by (auto simp: rt_workqueue_dowork_def)
qed

text \<open>\<^verbatim>\<open>rt_workqueue_cancel_all_work\<close> empties the list and leaves the items marked as pending: no item that was on the
  list can be submitted again.\<close>

theorem rt_workqueue_cancel_all_blocks:
  assumes "sched_inv k" "wq_inv k q" "w \<in> set (wq_work_list (workqueues k q))"
  shows "\<exists>k'. rt_workqueue_cancel_all_work q k = Some (RT_EOK, k') \<and> wq_work_list (workqueues k' q) = [] \<and>
    rt_workqueue_dowork q w k' = Some (- RT_EBUSY, k')"
proof -
  let ?k = "upd_wq q (\<lambda>wq. wq\<lparr>wq_work_list := []\<rparr>) (rt_enter_critical k)"
  have "sched_inv ?k" using assms(1) sched_inv_cong [of ?k k] by (simp add: upd_wq_def rt_enter_critical_def)
  then obtain k' where k': "rt_exit_critical ?k = Some k'" "resched ?k k'" by (rule rt_exit_critical_step)
  have "works k' = works k" "wq_work_list (workqueues k' q) = []"
    using ipc_sameD(15,16) [OF reschedD(2) [OF k'(2)]] by (simp_all add: rt_enter_critical_def)
  with k'(1) assms(2,3) show ?thesis
    by (auto simp: rt_workqueue_cancel_all_work_def rt_workqueue_dowork_def workqueue_submit_work_def wq_inv_def Let_def)
qed

text \<open>The example: work queue 0 with thread 3 as its worker, suspended by itself.\<close>

definition demo_wq :: kernel where
  "demo_wq = upd_wq 0 (\<lambda>_. \<lparr>wq_work_list = [], wq_work_current = None, wq_sem = 0, wq_work_thread = 3\<rparr>) demo_kernel"

lemma demo_wq_inv:
  "wq_ready demo_wq 0" "wq_inv demo_wq 0" "live demo_wq (worker demo_wq 0)" "worker demo_wq 0 = 3"
  "wq_work_current (workqueues demo_wq 0) = None" "wq_work_list (workqueues demo_wq 0) = []"
  "wk_flags (works demo_wq w) = 0" "wk_type (works demo_wq w) = 0" "base_inv demo_wq" "sched_inv demo_wq"
proof -
  have b: "base_inv demo_kernel"
    using demo_kernel_inv demo_timer_inv by (simp add: base_inv_def) (simp add: demo_simps)
  then show b': "base_inv demo_wq" by (simp add: demo_wq_def)
  then show "sched_inv demo_wq" by (rule base_invD)
  have "rt_object_get_type demo_wq (OSem 0) = 2"
    by (simp add: rt_object_get_type_def demo_wq_def demo_kernel_def) (simp add: oref_class_def)
  then show "wq_ready demo_wq 0" using b' by (simp add: wq_ready_def) (simp add: demo_wq_def demo_simps)
  show "live demo_wq (worker demo_wq 0)" by (simp add: live_def thread_stat_def demo_wq_def) (simp add: demo_simps)
qed (simp_all add: wq_inv_def demo_wq_def, simp_all add: demo_simps)

lemma work_respects_skip: "work_respects (\<lambda>_ _ _. Some) q"
  by (simp add: work_respects_def)

theorem rt_workqueue_dowork_ok_witness:
  "\<exists>k'. rt_workqueue_dowork 0 5 demo_wq = Some (RT_EOK, k') \<and> wq_work_list (workqueues k' 0) = [5] \<and> runnable k' 3"
  using rt_workqueue_dowork_ok [OF demo_wq_inv(9,2,3), of 5] demo_wq_inv(4-8) by auto


theorem workqueue_completion_wakes_all_witness:
  "\<exists>k'. workqueue_work_completion 0 (upd_wq 0 (\<lambda>wq. wq\<lparr>wq_sem := 0\<rparr>) (demo_wait (LSem 0))) = Some (RT_EOK, k') \<and>
     runnable k' 3 \<and> tlists k' (LSem 0) = []"
proof -
  let ?k = "upd_wq 0 (\<lambda>wq. wq\<lparr>wq_sem := 0\<rparr>) (demo_wait (LSem 0))"
  have "base_inv ?k" by (simp add: base_inv_def [of "demo_wait (LSem 0)"] demo_wait_inv)
  moreover have "rt_object_get_type ?k (OSem (wq_sem (workqueues ?k 0))) = 2"
    by (simp add: rt_object_get_type_def demo_wait_def demo_kernel_def) (simp add: oref_class_def)
  moreover have "sem_value (sems ?k (wq_sem (workqueues ?k 0))) = 0" by (simp add: demo_wait_def demo_simps)
  ultimately show ?thesis
    using workqueue_completion_wakes_all [of ?k 0] by (auto simp: demo_wait_def [of "LSem 0"])
qed

theorem workqueue_cancel_breaks_worker_witness:
  "\<exists>k1 k2. rt_workqueue_dowork 0 5 demo_wq = Some (RT_EOK, k1) \<and>
     rt_workqueue_cancel_work 22 0 5 k1 = Some (RT_EOK, k2) \<and> runnable k2 3 \<and>
     workqueue_thread_resumed (\<lambda>_ _ _. Some) 0 k2 = None"
  using workqueue_cancel_breaks_worker [OF demo_wq_inv(9,2,3,5,6), of 5 22 "\<lambda>_ _ _. Some"] demo_wq_inv(4,7,8) by auto

theorem rt_workqueue_cancel_all_blocks_witness:
  "\<exists>k' k''. rt_workqueue_cancel_all_work 0 k' = Some (RT_EOK, k'') \<and> rt_workqueue_dowork 0 5 k'' = Some (- RT_EBUSY, k'')"
proof -
  let ?k = "upd_work 5 (\<lambda>x. x\<lparr>wk_flags := 1\<rparr>) (upd_wq 0 (\<lambda>wq. wq\<lparr>wq_work_list := [5]\<rparr>) demo_wq)"
  have "sched_inv ?k" using demo_wq_inv(9) by (intro base_invD) simp
  moreover have "wq_inv ?k 0" using demo_wq_inv(5) by (simp add: wq_inv_def)
  ultimately show ?thesis using rt_workqueue_cancel_all_blocks [of ?k 0 5] by auto
qed

theorem delayed_work_timeout_submits_witness:
  "\<exists>k'. delayed_work_timeout_handler 5 (upd_work 5 (\<lambda>x. x\<lparr>wk_workqueue := Some 0, wk_flags := 2, wk_type := 1\<rparr>) demo_wq) = Some k' \<and>
     wq_work_list (workqueues k' 0) = [5] \<and> runnable k' 3"
proof -
  let ?k = "upd_work 5 (\<lambda>x. x\<lparr>wk_workqueue := Some 0, wk_flags := 2, wk_type := 1\<rparr>) demo_wq"
  have "obj_type (objs ?k (OTimer m)) = 0x8a" for m
    by (simp add: demo_wq_def demo_kernel_def oref_class_def)
  then have "rt_object_get_type ?k (OTimer m) = 10" "rt_object_is_systemobject ?k (OTimer m)" for m
    by (simp_all add: rt_object_get_type_def rt_object_is_systemobject_def)
  moreover have "wq_inv ?k 0" using demo_wq_inv(5,6) by (simp add: wq_inv_def)
  moreover have "live ?k (worker ?k 0)" using demo_wq_inv(3) by (simp add: live_def thread_stat_def)
  ultimately show ?thesis
    using delayed_work_timeout_submits [of ?k 0 5] demo_wq_inv(4-6,9) by auto
qed

end
