(* ===== verification/Mempool.thy ===== *)
theory Mempool
  imports Channel Chain
begin

text \<open>
  Memory pools (\<^verbatim>\<open>src/mempool.c\<close>): blocks of one size with a free list through their headers. A block is named
  by the pool whose memory it lies in and its number there. The invariant says that every block is either on
  the free list or allocated and marked with its pool; the allocator hands out each free block once.
\<close>

section \<open>Operations\<close>

definition upd_mp :: "nat \<Rightarrow> (rt_mempool \<Rightarrow> rt_mempool) \<Rightarrow> kernel \<Rightarrow> kernel" where
  "upd_mp p f k = k\<lparr>mempools := (mempools k)(p := f (mempools k p))\<rparr>"

text \<open>The headers of \<open>n\<close> blocks linked in the order of their addresses. With no block at all the last
  assignment of the code writes in front of the pool, which has no result here.\<close>

definition mp_link_blocks :: "nat \<Rightarrow> (nat \<Rightarrow> mp_word) \<Rightarrow> (nat \<Rightarrow> mp_word) option" where
  "mp_link_blocks n link = do {
     let link = fold (\<lambda>offset link. link(offset := Mp_Next (Some (offset + 1)))) [0..<n] link;
     rt_assert (0 < n);
     Some (link(n - 1 := Mp_Next None))
   }"

definition rt_mp_init :: "nat \<Rightarrow> string \<Rightarrow> u32 \<Rightarrow> u32 \<Rightarrow> kernel \<Rightarrow> (rt_err_t \<times> kernel) option" where
  "rt_mp_init p name len block_len k = do {
     rt_assert (0 < len \<and> 0 < block_len);
     k \<leftarrow> rt_object_init (OMp p) RT_Object_Class_MemPool name k;
     let len = RT_ALIGN_DOWN len 4;
     let block_len = RT_ALIGN block_len 4;
     rt_assert (block_len + 4 \<noteq> 0);
     let total = len div (block_len + 4);
     let k = rt_ipc_object_init (LMp p) k;
     link \<leftarrow> mp_link_blocks (unat total) (mp_link (mempools k p));
     Some (RT_EOK, upd_mp p (\<lambda>_. \<lparr>mp_size = len, mp_block_size = block_len, mp_block_total_count = total,
       mp_block_free_count = total, mp_block_list = Some 0, mp_link = link\<rparr>) k)
   }"

definition rt_mp_detach :: "nat \<Rightarrow> kernel \<Rightarrow> (rt_err_t \<times> kernel) option" where
  "rt_mp_detach p k = do {
     rt_assert (rt_object_get_type k (OMp p) = RT_Object_Class_MemPool);
     rt_assert (rt_object_is_systemobject k (OMp p));
     k \<leftarrow> rt_ipc_list_resume_all (LMp p) k;
     Some (RT_EOK, rt_object_detach (OMp p) k)
   }"

definition rt_mp_create ::
  "string \<Rightarrow> u32 \<Rightarrow> u32 \<Rightarrow> nat option \<Rightarrow> (nat \<Rightarrow> mp_word) option \<Rightarrow> kernel \<Rightarrow> (nat option \<times> kernel) option" where
  "rt_mp_create name block_count block_len mem pool k = do {
     rt_debug_not_in_interrupt k;
     rt_assert (0 < block_count \<and> 0 < block_len);
     (_, k) \<leftarrow> rt_object_allocate RT_Object_Class_MemPool name (map_option OMp mem) k;
     (case mem of
        None \<Rightarrow> Some (None, k)
      | Some p \<Rightarrow> do {
          let block_len = RT_ALIGN block_len 4;
          let k = upd_mp p (\<lambda>mp. mp\<lparr>mp_block_size := block_len, mp_size := (block_len + 4) * block_count\<rparr>) k;
          (case pool of
             None \<Rightarrow> do {
               k \<leftarrow> rt_object_delete (OMp p) k;
               Some (None, k)
             }
           | Some memory \<Rightarrow> do {
               let k = upd_mp p (\<lambda>mp. mp\<lparr>mp_block_total_count := block_count, mp_block_free_count := block_count\<rparr>) k;
               let k = rt_ipc_object_init (LMp p) k;
               link \<leftarrow> mp_link_blocks (unat block_count) memory;
               Some (Some p, upd_mp p (\<lambda>mp. mp\<lparr>mp_block_list := Some 0, mp_link := link\<rparr>) k)
             })
        })
   }"

definition rt_mp_delete :: "nat \<Rightarrow> kernel \<Rightarrow> (rt_err_t \<times> kernel) option" where
  "rt_mp_delete p k = do {
     rt_debug_not_in_interrupt k;
     rt_assert (rt_object_get_type k (OMp p) = RT_Object_Class_MemPool);
     rt_assert (\<not> rt_object_is_systemobject k (OMp p));
     k \<leftarrow> rt_ipc_list_resume_all (LMp p) k;
     k \<leftarrow> rt_object_delete (OMp p) k;
     Some (RT_EOK, k)
   }"

text \<open>\<^verbatim>\<open>rt_set_errno\<close>; the errno of interrupt handlers is not part of the state.\<close>

definition rt_set_errno :: "rt_err_t \<Rightarrow> kernel \<Rightarrow> kernel" where
  "rt_set_errno e k =
     (if rt_interrupt_nest k \<noteq> 0 then k
      else case rt_thread_self k of None \<Rightarrow> k | Some tid \<Rightarrow> set_error tid e k)"

text \<open>Taking the first block off the free list and marking it with its pool.\<close>

definition mp_take :: "nat \<Rightarrow> rt_mempool \<Rightarrow> (nat \<times> rt_mempool) option" where
  "mp_take p mp = do {
     let mp = mp\<lparr>mp_block_free_count := mp_block_free_count mp - 1\<rparr>;
     block \<leftarrow> mp_block_list mp;
     (case mp_link mp block of
        Mp_Owner _ \<Rightarrow> None
      | Mp_Next next \<Rightarrow> Some (block, mp\<lparr>mp_block_list := next, mp_link := (mp_link mp)(block := Mp_Owner p)\<rparr>))
   }"

definition mp_alloc_loop ::
  "nat \<Rightarrow> tid option \<Rightarrow> u32 \<Rightarrow> kernel \<Rightarrow> (((nat \<times> nat) option, waiter) outcome \<times> kernel) option" where
  "mp_alloc_loop p thread time k =
     (if mp_block_free_count (mempools k p) = 0 then
        (if time = 0 then Some (Done None, rt_set_errno (- RT_ETIMEOUT) k)
         else do {
           rt_debug_not_in_interrupt k;
           t \<leftarrow> thread;
           let k = set_error t RT_EOK k;
           (_, k) \<leftarrow> rt_thread_suspend t k;
           let w = \<lparr>w_thread = t, w_timeout = time, w_start = rt_tick k\<rparr>;
           k \<leftarrow> wait_for t time (tlist_push (LMp p) t k);
           Some (Blocked w, k)
         })
      else do {
        (block, mp) \<leftarrow> mp_take p (mempools k p);
        Some (Done (Some (p, block)), upd_mp p (\<lambda>_. mp) k)
      })"

definition rt_mp_alloc ::
  "nat \<Rightarrow> u32 \<Rightarrow> kernel \<Rightarrow> (((nat \<times> nat) option, waiter) outcome \<times> kernel) option" where
  "rt_mp_alloc p time k = mp_alloc_loop p (rt_thread_self k) time k"

definition rt_mp_alloc_resumed ::
  "nat \<Rightarrow> waiter \<Rightarrow> kernel \<Rightarrow> (((nat \<times> nat) option, waiter) outcome \<times> kernel) option" where
  "rt_mp_alloc_resumed p w k =
     (if th_error (threads k (w_thread w)) \<noteq> RT_EOK then Some (Done None, k)
      else mp_alloc_loop p (Some (w_thread w)) (remaining w (rt_tick k)) k)"

text \<open>Freeing block \<open>b\<close> of the memory of pool \<open>p\<close>. The header names the pool; a header that does not (a block
  freed twice) sends the code to an arbitrary address.\<close>

definition rt_mp_free :: "(nat \<times> nat) option \<Rightarrow> kernel \<Rightarrow> kernel option" where
  "rt_mp_free block k =
     (case block of
        None \<Rightarrow> Some k
      | Some (p, b) \<Rightarrow> do {
          rt_assert (mp_link (mempools k p) b = Mp_Owner p);
          let k = upd_mp p (\<lambda>mp. mp\<lparr>mp_block_free_count := mp_block_free_count mp + 1,
                                    mp_link := (mp_link mp)(b := Mp_Next (mp_block_list mp)),
                                    mp_block_list := Some b\<rparr>) k;
          (case tlists k (LMp p) of
             [] \<Rightarrow> Some k
           | t # _ \<Rightarrow> do {
               (_, k) \<leftarrow> rt_thread_resume t (set_error t RT_EOK k);
               rt_schedule k
             })
        })"

section \<open>Invariant\<close>

definition mp_nx :: "(nat \<Rightarrow> mp_word) \<Rightarrow> nat \<Rightarrow> nat option" where
  "mp_nx link b = (case link b of Mp_Next n \<Rightarrow> n | Mp_Owner _ \<Rightarrow> None)"

definition mp_rep :: "nat \<Rightarrow> nat list \<Rightarrow> rt_mempool \<Rightarrow> bool" where
  "mp_rep p fs mp \<longleftrightarrow>
     chain (mp_nx (mp_link mp)) (mp_block_list mp) fs \<and> distinct fs \<and> set fs \<subseteq> {..<unat (mp_block_total_count mp)} \<and>
     unat (mp_block_free_count mp) = length fs \<and>
     (\<forall>b \<in> set fs. \<exists>n. mp_link mp b = Mp_Next n) \<and>
     (\<forall>b < unat (mp_block_total_count mp). b \<notin> set fs \<longrightarrow> mp_link mp b = Mp_Owner p)"

definition mp_free_blocks :: "rt_mempool \<Rightarrow> nat list" where
  "mp_free_blocks mp = walk (mp_nx (mp_link mp)) (unat (mp_block_free_count mp)) (mp_block_list mp)"

definition mp_ok :: "nat \<Rightarrow> rt_mempool \<Rightarrow> bool" where
  "mp_ok p mp \<longleftrightarrow> mp_rep p (mp_free_blocks mp) mp"

definition mp_allocated :: "rt_mempool \<Rightarrow> nat set" where
  "mp_allocated mp = {..<unat (mp_block_total_count mp)} - set (mp_free_blocks mp)"

lemma mp_rep_free_blocks: "mp_rep p fs mp \<Longrightarrow> mp_free_blocks mp = fs"
  using walk_chain [of "mp_nx (mp_link mp)" "mp_block_list mp" fs] by (simp add: mp_rep_def mp_free_blocks_def)

lemma mp_rep_ok: "mp_rep p fs mp \<Longrightarrow> mp_ok p mp \<and> mp_free_blocks mp = fs"
  by (simp add: mp_ok_def mp_rep_free_blocks)

lemma mp_nx_upd [simp]: "mp_nx (link(b := Mp_Next n)) = (mp_nx link)(b := n)" "mp_nx (link(b := Mp_Owner p)) = (mp_nx link)(b := None)"
  by (auto simp: mp_nx_def fun_eq_iff)

lemma mp_take_step:
  assumes "mp_rep p (b # fs) mp"
  shows "\<exists>mp'. mp_take p mp = Some (b, mp') \<and> mp_rep p fs mp' \<and> mp_block_total_count mp' = mp_block_total_count mp"
proof -
  note r = assms [unfolded mp_rep_def]
  obtain n where n: "mp_link mp b = Mp_Next n" using r by auto
  then have "mp_nx (mp_link mp) b = n" by (simp add: mp_nx_def)
  moreover have "mp_block_free_count mp \<noteq> 0" using r by auto
  then have "unat (mp_block_free_count mp - 1) = length fs" using r unat_minus_one [of "mp_block_free_count mp"] by simp
  ultimately show ?thesis using r n by (auto simp: mp_take_def mp_rep_def)
qed

lemma mp_give_step:
  assumes "mp_rep p fs mp" "b < unat (mp_block_total_count mp)" "b \<notin> set fs"
  shows "mp_rep p (b # fs) (mp\<lparr>mp_block_free_count := mp_block_free_count mp + 1,
    mp_link := (mp_link mp)(b := Mp_Next (mp_block_list mp)), mp_block_list := Some b\<rparr>)"
proof -
  note r = assms(1) [unfolded mp_rep_def]
  have "card (set fs) < card {..<unat (mp_block_total_count mp)}" using r assms(2,3) by (intro psubset_card_mono) auto
  then have "length fs < unat (mp_block_total_count mp)" using r distinct_card [of fs] by simp
  then have "unat (mp_block_free_count mp + 1) = Suc (length fs)" using r unat_Suc_less [of "mp_block_free_count mp"] by simp
  then show ?thesis using r assms(2,3) by (auto simp: mp_rep_def)
qed

lemma mp_link_fold:
  "fold (\<lambda>offset link. link(offset := Mp_Next (Some (offset + 1)))) [0..<n] link =
     (\<lambda>b. if b < n then Mp_Next (Some (b + 1)) else link b)"
  by (induction n) (auto simp: fun_eq_iff)

lemma mp_chain_up:
  assumes "\<And>b. b < n \<Longrightarrow> nx b = (if b = n - 1 then None else Some (b + 1))" "m < n"
  shows "chain nx (Some m) [m..<n]"
  using assms(2)
proof (induction "n - m" arbitrary: m)
  case (Suc d)
  then show ?case
    using assms(1) [of m] Suc.hyps(1) [of "Suc m"] by (cases "Suc m < n") (auto simp: upt_conv_Cons)
qed simp

lemma mp_link_blocks_rep:
  assumes "mp_link_blocks (unat cnt) link0 = Some link"
  shows "mp_rep p [0..<unat cnt] \<lparr>mp_size = sz, mp_block_size = bs, mp_block_total_count = cnt,
    mp_block_free_count = cnt, mp_block_list = Some 0, mp_link = link\<rparr>"
proof -
  let ?n = "unat cnt"
  have n: "0 < ?n" "link = (\<lambda>b. if b < ?n then Mp_Next (Some (b + 1)) else link0 b)(?n - 1 := Mp_Next None)"
    using assms unfolding mp_link_blocks_def mp_link_fold Let_def by (auto split: if_splits)
  then have "chain (mp_nx link) (Some 0) [0..<?n]" by (intro mp_chain_up) (auto simp: mp_nx_def)
  with n show ?thesis by (auto simp: mp_rep_def)
qed

section \<open>Effects on the kernel\<close>

lemma upd_mp_frame [simp]:
  "threads (upd_mp p f k) = threads k" "tlists (upd_mp p f k) = tlists k" "objs (upd_mp p f k) = objs k"
  "sched_inv (upd_mp p f k) = sched_inv k" "rt_current_thread (upd_mp p f k) = rt_current_thread k"
  "timers_same k0 (upd_mp p f k) = timers_same k0 k"
  "mempools (upd_mp p f k) p' = (if p' = p then f (mempools k p) else mempools k p')"
  "runnable (upd_mp p f k) t = runnable k t" "th_error (threads (upd_mp p f k) t) = th_error (threads k t)"
  by (simp_all add: upd_mp_def timers_same_def runnable_def thread_stat_def)

lemma base_inv_upd_mp [simp]: "base_inv k \<Longrightarrow> base_inv (upd_mp p f k)"
  by (auto simp: base_inv_def intro: timer_inv_write [of k])

lemma rt_set_errno_frame [simp]:
  "base_inv k \<Longrightarrow> base_inv (rt_set_errno e k)" "mempools (rt_set_errno e k) = mempools k"
  "tlists (rt_set_errno e k) = tlists k"
  by (simp_all add: rt_set_errno_def split: option.split)

lemma mp_wait_step:
  assumes b: "base_inv k" and i: "in_thread k t" and tm: "time_ok time"
  obtains k1 k' where "rt_thread_suspend t (set_error t RT_EOK k) = Some (RT_EOK, k1)" "rt_tick k1 = rt_tick k"
    "wait_for t time (tlist_push (LMp p) t k1) = Some k'"
    "waits_at (LMp p) (t # tlists k (LMp p)) t (set_error t RT_EOK k) k'"
proof -
  let ?k = "set_error t RT_EOK k"
  have b': "base_inv ?k" using b by simp
  have r: "runnable ?k t" using i by (simp add: in_thread_def runnable_def)
  obtain k1 where k1: "rt_thread_suspend t ?k = Some (RT_EOK, k1)" "parked t ?k k1" "tlists k1 (LMp p) = tlists ?k (LMp p)"
    "sched_inv (k1\<lparr>tlists := (tlists k1)(LMp p := [] @ t # tlists k (LMp p))\<rparr>)"
    "timer_inv (k1\<lparr>tlists := (tlists k1)(LMp p := [] @ t # tlists k (LMp p))\<rparr>)"
    using suspend_link_step [OF base_invD(1,2) [OF b'] r, of "LMp p" "[]" "tlists k (LMp p)"] by auto
  have p: "tlist_push (LMp p) t k1 = k1\<lparr>tlists := (tlists k1)(LMp p := [] @ t # tlists k (LMp p))\<rparr>"
    using k1(3) by (simp add: tlist_push_def)
  obtain k' where "wait_for t time (tlist_push (LMp p) t k1) = Some k'"
    "waits_at (LMp p) ([] @ t # tlists k (LMp p)) t ?k k'"
    using wait_for_step [OF base_invD(1) [OF b'] r _ base_invD(3) [OF b'] tm k1(2) p] k1(4,5) p by auto
  moreover have "rt_tick k1 = rt_tick k" using ipc_sameD(9) [OF parkedD(3) [OF k1(2)]] by simp
  ultimately show ?thesis using that k1(1) by simp
qed

section \<open>Properties\<close>

text \<open>C15: \<^verbatim>\<open>rt_mp_alloc\<close> on a well-formed pool returns on every branch. A free block is handed out: it was not
  allocated and is allocated afterwards, and nothing else changes. With no free block the call fails at
  once when it must not wait, and otherwise the caller waits in front of all other waiters (the last to come
  is served first). The pool stays well-formed.\<close>

theorem rt_mp_alloc_ok:
  assumes b: "base_inv k" and ok: "mp_ok p (mempools k p)" and tm: "time_ok time"
    and t: "rt_current_thread k = Some t" "time \<noteq> 0 \<longrightarrow> in_thread k t"
  shows "\<exists>r k'. rt_mp_alloc p time k = Some (r, k') \<and> base_inv k' \<and> mp_ok p (mempools k' p) \<and>
    (case mp_free_blocks (mempools k p) of
       [] \<Rightarrow> mempools k' = mempools k \<and>
         (if time = 0 then r = Done None \<and> tlists k' (LMp p) = tlists k (LMp p)
          else r = Blocked \<lparr>w_thread = t, w_timeout = time, w_start = rt_tick k\<rparr> \<and>
            tlists k' (LMp p) = t # tlists k (LMp p))
     | block # bs \<Rightarrow> r = Done (Some (p, block)) \<and> block \<notin> mp_allocated (mempools k p) \<and>
         mp_allocated (mempools k' p) = insert block (mp_allocated (mempools k p)) \<and>
         mp_free_blocks (mempools k' p) = bs \<and> tlists k' = tlists k)"
proof (cases "mp_free_blocks (mempools k p)")
  case (Cons block bs)
  then have r: "mp_rep p (block # bs) (mempools k p)" using ok by (simp add: mp_ok_def)
  obtain mp where mp: "mp_take p (mempools k p) = Some (block, mp)" "mp_rep p bs mp"
    "mp_block_total_count mp = mp_block_total_count (mempools k p)" using mp_take_step [OF r] by blast
  have "mp_block_free_count (mempools k p) \<noteq> 0" using r by (auto simp: mp_rep_def)
  then have "rt_mp_alloc p time k = Some (Done (Some (p, block)), upd_mp p (\<lambda>_. mp) k)"
    using mp(1) by (simp add: rt_mp_alloc_def mp_alloc_loop_def)
  moreover have "block < unat (mp_block_total_count mp)" "block \<notin> set bs" using r mp(3) by (auto simp: mp_rep_def)
  ultimately show ?thesis
    using Cons b mp_rep_ok [OF mp(2)] mp(3) by (auto simp: mp_allocated_def)
next
  case Nil
  then have z: "mp_block_free_count (mempools k p) = 0" using ok by (simp add: mp_ok_def mp_rep_def unat_eq_zero)
  show ?thesis
  proof (cases "time = 0")
    case True
    with Nil z b ok show ?thesis by (simp add: rt_mp_alloc_def mp_alloc_loop_def)
  next
    case False
    with t have i: "in_thread k t" by simp
    obtain k1 k' where k': "rt_thread_suspend t (set_error t RT_EOK k) = Some (RT_EOK, k1)" "rt_tick k1 = rt_tick k"
      "wait_for t time (tlist_push (LMp p) t k1) = Some k'"
      "waits_at (LMp p) (t # tlists k (LMp p)) t (set_error t RT_EOK k) k'" using mp_wait_step [OF b i tm] by blast
    have "rt_mp_alloc p time k = Some (Blocked \<lparr>w_thread = t, w_timeout = time, w_start = rt_tick k\<rparr>, k')"
      using z False i k'(1-3)
      by (simp add: rt_mp_alloc_def mp_alloc_loop_def rt_thread_self_def in_thread_def rt_debug_not_in_interrupt_def Let_def)
    moreover have "mempools k' = mempools k" "base_inv k'"
      using k'(4) ipc_sameD(6) [of "set_error t RT_EOK k" k'] by (auto simp: waits_def base_inv_def)
    ultimately show ?thesis using Nil False k'(4) ok by (auto simp: waits_def)
  qed
qed

text \<open>\<^verbatim>\<open>rt_mp_free\<close> of an allocated block returns: the block is free again and is the next to be handed out,
  the pool stays well-formed, and the thread that began to wait last is made runnable with its error
  cleared. Freeing the null pointer does nothing.\<close>

theorem rt_mp_free_ok:
  assumes b: "base_inv k" and ok: "mp_ok p (mempools k p)" and a: "block \<in> mp_allocated (mempools k p)"
  shows "rt_mp_free None k = Some k \<and>
    (\<exists>k'. rt_mp_free (Some (p, block)) k = Some k' \<and> base_inv k' \<and> mp_ok p (mempools k' p) \<and>
       mp_free_blocks (mempools k' p) = block # mp_free_blocks (mempools k p) \<and>
       mp_allocated (mempools k' p) = mp_allocated (mempools k p) - {block} \<and>
       tlists k' (LMp p) = tl (tlists k (LMp p)) \<and>
       (\<forall>t ts. tlists k (LMp p) = t # ts \<longrightarrow> runnable k' t \<and> th_error (threads k' t) = RT_EOK))"
proof
  show "rt_mp_free None k = Some k" by (simp add: rt_mp_free_def)
next
  let ?mp = "mempools k p"
  let ?mp' = "?mp\<lparr>mp_block_free_count := mp_block_free_count ?mp + 1,
      mp_link := (mp_link ?mp)(block := Mp_Next (mp_block_list ?mp)), mp_block_list := Some block\<rparr>"
  have r: "mp_rep p (mp_free_blocks ?mp) ?mp" "block < unat (mp_block_total_count ?mp)" "block \<notin> set (mp_free_blocks ?mp)"
    using ok a by (auto simp: mp_ok_def mp_allocated_def)
  then have own: "mp_link ?mp block = Mp_Owner p" by (auto simp: mp_rep_def)
  have g: "mp_ok p ?mp'" "mp_free_blocks ?mp' = block # mp_free_blocks ?mp" "mp_allocated ?mp' = mp_allocated ?mp - {block}"
    using mp_rep_ok [OF mp_give_step [OF r]] by (auto simp: mp_allocated_def)
  let ?k1 = "upd_mp p (\<lambda>_. ?mp') k"
  have eq: "upd_mp p (\<lambda>mp. mp\<lparr>mp_block_free_count := mp_block_free_count mp + 1,
      mp_link := (mp_link mp)(block := Mp_Next (mp_block_list mp)), mp_block_list := Some block\<rparr>) k = ?k1"
    by (simp add: upd_mp_def)
  have b1: "base_inv ?k1" using b by simp
  show "\<exists>k'. rt_mp_free (Some (p, block)) k = Some k' \<and> base_inv k' \<and> mp_ok p (mempools k' p) \<and>
       mp_free_blocks (mempools k' p) = block # mp_free_blocks ?mp \<and> mp_allocated (mempools k' p) = mp_allocated ?mp - {block} \<and>
       tlists k' (LMp p) = tl (tlists k (LMp p)) \<and>
       (\<forall>t ts. tlists k (LMp p) = t # ts \<longrightarrow> runnable k' t \<and> th_error (threads k' t) = RT_EOK)"
  proof (cases "tlists k (LMp p)")
    case Nil
    with own b1 g show ?thesis by (intro exI [of _ ?k1]) (simp add: rt_mp_free_def eq Let_def)
  next
    case (Cons t ts)
    let ?k2 = "set_error t RT_EOK ?k1"
    have b2: "base_inv ?k2" using b1 by simp
    have "tlists ?k2 (LMp p) = t # ts" using Cons by simp
    then obtain k3 where k3: "rt_ipc_list_resume (LMp p) ?k2 = Some k3" "wakes t ?k2 k3" "tlists k3 (LMp p) = ts"
      using rt_ipc_list_resume_step [OF base_invD(1,2) [OF b2], of "LMp p" t ts] by auto
    then have "sched_inv k3" "rt_current_thread k3 \<noteq> None" using base_invD(3) [OF b2] by (auto simp: wakes_def)
    then obtain k' where k': "rt_schedule k3 = Some k'" "resched k3 k'" by (rule rt_schedule_step)
    have w: "wakes t ?k2 k'" using wakes_schedule(1) [OF k3(2) k'(1)] .
    obtain r4 where "rt_thread_resume t ?k2 = Some (r4, k3)"
      using k3(1) Cons by (auto simp: rt_ipc_list_resume_def bind_Some_iff)
    then have "rt_mp_free (Some (p, block)) k = Some k'" using own Cons k'(1) by (simp add: rt_mp_free_def eq Let_def)
    moreover have "mempools k' = mempools ?k1" using w ipc_sameD(6) [of ?k2 k'] by (simp add: wakes_def)
    moreover have "th_error (threads k' t) = 0" "runnable k' t"
      using w only_statD(4) [of ?k2 k' t] by (simp_all add: wakes_def)
    moreover have "tlists k' (LMp p) = ts" using resched_wait_list [OF k'(2)] k3(3) by simp
    ultimately show ?thesis using Cons g base_inv_wakes [OF b2 w] by (intro exI [of _ k']) simp
  qed
qed

text \<open>The example: pool 0 of the example system has two blocks, of which block 1 is allocated.\<close>

definition demo_mp :: kernel where
  "demo_mp = upd_mp 0 (\<lambda>_. \<lparr>mp_size = 16, mp_block_size = 4, mp_block_total_count = 2, mp_block_free_count = 1,
     mp_block_list = Some 0, mp_link = (\<lambda>b. if b = 0 then Mp_Next None else Mp_Owner 0)\<rparr>) (demo_wait (LMp 0))"

lemma demo_mp_inv:
  "base_inv demo_mp" "mp_ok 0 (mempools demo_mp 0)" "mp_free_blocks (mempools demo_mp 0) = [0]"
  "mp_allocated (mempools demo_mp 0) = {1}" "rt_current_thread demo_mp = Some 1" "tlists demo_mp (LMp 0) = [3]"
proof -
  show "base_inv demo_mp" unfolding demo_mp_def by (simp add: base_inv_def demo_wait_inv timer_inv_write [of "demo_wait (LMp 0)"])
  have "mp_rep 0 [0] (mempools demo_mp 0)" by (auto simp: demo_mp_def mp_rep_def mp_nx_def)
  then show f: "mp_ok 0 (mempools demo_mp 0)" "mp_free_blocks (mempools demo_mp 0) = [0]" using mp_rep_ok by auto
  show "mp_allocated (mempools demo_mp 0) = {1}" unfolding mp_allocated_def f(2) by (auto simp: demo_mp_def)
  show "rt_current_thread demo_mp = Some 1" "tlists demo_mp (LMp 0) = [3]" by (simp_all add: demo_mp_def demo_wait_def demo_simps)
qed

theorem rt_mp_alloc_ok_witness:
  "\<exists>k'. rt_mp_alloc 0 0 demo_mp = Some (Done (Some (0, 0)), k') \<and> mp_allocated (mempools k' 0) = {0, 1}"
  using rt_mp_alloc_ok [of demo_mp 0 0 1] demo_mp_inv by (auto simp: time_ok_def)

theorem rt_mp_free_ok_witness:
  "\<exists>k'. rt_mp_free (Some (0, 1)) demo_mp = Some k' \<and> mp_free_blocks (mempools k' 0) = [1, 0] \<and>
     mp_allocated (mempools k' 0) = {} \<and> runnable k' 3"
  using rt_mp_free_ok [of demo_mp 0 1] demo_mp_inv by auto

text \<open>What \<^verbatim>\<open>rt_mp_init\<close> makes of a piece of memory. When at least one block with its header fits, it returns
  a well-formed pool in which every block is free, and all blocks with their headers lie inside
  the memory; when not a single block fits, the code writes a null pointer in front of the pool.\<close>

theorem rt_mp_init_ok:
  assumes "sched_inv k" "OMp p \<notin> set (object_list k RT_Object_Class_MemPool)" "0 < len" "0 < block_len"
    and "unat (RT_ALIGN block_len 4) + 4 < 2 ^ 32"
  shows "if RT_ALIGN block_len 4 + 4 \<le> RT_ALIGN_DOWN len 4
    then \<exists>k'. rt_mp_init p name len block_len k = Some (RT_EOK, k') \<and> mp_ok p (mempools k' p) \<and>
      mp_allocated (mempools k' p) = {} \<and> tlists k' (LMp p) = [] \<and>
      unat (mp_block_total_count (mempools k' p)) * (unat (mp_block_size (mempools k' p)) + 4) \<le> unat len
    else rt_mp_init p name len block_len k = None"
proof -
  let ?len = "RT_ALIGN_DOWN len 4" and ?bl = "RT_ALIGN block_len 4"
  define cnt where "cnt = ?len div (?bl + 4)"
  obtain k1 where k1: "rt_object_init (OMp p) 8 name k = Some k1"
    using rt_object_init_step [OF assms(1), of 8 "OMp p" name] assms(2) by (auto simp: rt_object_container_def)
  have s: "unat (?bl + 4) = unat ?bl + 4" using assms(5) by (simp add: unat_word_ariths)
  then have nz: "?bl + 4 \<noteq> 0" by (metis add_is_0 unat_0 zero_neq_numeral)
  have pos: "0 < unat cnt \<longleftrightarrow> ?bl + 4 \<le> ?len"
    using nz by (simp add: cnt_def unat_div div_greater_zero_iff word_le_nat_alt unat_gt_0)
  have fit: "unat cnt * (unat ?bl + 4) \<le> unat len"
  proof -
    have "unat ?len \<le> unat len" by (simp add: RT_ALIGN_DOWN_def word_and_le2 flip: word_le_nat_alt)
    moreover have "unat cnt * (unat ?bl + 4) \<le> unat ?len"
      using s by (simp add: cnt_def unat_div)
    ultimately show ?thesis by linarith
  qed
  show ?thesis
  proof (cases "?bl + 4 \<le> ?len")
    case True
    then obtain link where l: "mp_link_blocks (unat cnt) (mp_link (mempools (rt_ipc_object_init (LMp p) k1) p)) = Some link"
      using pos by (simp add: mp_link_blocks_def)
    let ?mp = "\<lparr>mp_size = ?len, mp_block_size = ?bl, mp_block_total_count = cnt, mp_block_free_count = cnt,
      mp_block_list = Some 0, mp_link = link\<rparr>"
    have "rt_mp_init p name len block_len k = Some (RT_EOK, upd_mp p (\<lambda>_. ?mp) (rt_ipc_object_init (LMp p) k1))"
      using assms(3,4) nz k1 l by (simp add: rt_mp_init_def Let_def cnt_def)
    moreover have "mp_ok p ?mp" "mp_allocated ?mp = {}"
      using mp_rep_ok [OF mp_link_blocks_rep [OF l]] by (auto simp: mp_allocated_def)
    ultimately show ?thesis using True fit by (simp add: rt_ipc_object_init_def)
  next
    case False
    then show ?thesis
      using pos assms(3,4) nz k1 by (simp add: rt_mp_init_def Let_def mp_link_blocks_def flip: cnt_def)
  qed
qed

theorem rt_mp_init_ok_witness:
  "rt_mp_init 0 ''pool'' 4 1 demo_kernel = None"
proof -
  have "sched_inv demo_kernel" "OMp 0 \<notin> set (object_list demo_kernel 8)"
    using demo_kernel_inv by (simp_all add: demo_kernel_def zero_kernel_def)
  moreover have "RT_ALIGN 1 4 = (4 :: u32)" "RT_ALIGN_DOWN 4 4 = (4 :: u32)" by (simp_all add: RT_ALIGN_def RT_ALIGN_DOWN_def)
  ultimately show ?thesis using rt_mp_init_ok [of demo_kernel 0 4 1 "''pool''"] by simp
qed

end
