(* ===== verification/Device.thy ===== *)
theory Device
  imports Wait_Queue Mempool
begin

text \<open>
  The device layer (\<^verbatim>\<open>src/device.c\<close>): registering, finding, opening and closing devices, and the calls that pass on to
  the functions of a driver. What the functions of the drivers do is a parameter: the record \<open>driver\<close> gives their effect by
  their number, on the device and the kernel.
\<close>

section \<open>Operations\<close>

abbreviation (input) RT_DEVICE_FLAG_STANDALONE :: u16 where "RT_DEVICE_FLAG_STANDALONE \<equiv> 0x008"
abbreviation (input) RT_DEVICE_FLAG_ACTIVATED :: u16 where "RT_DEVICE_FLAG_ACTIVATED \<equiv> 0x010"
abbreviation (input) RT_DEVICE_OFLAG_CLOSE :: u16 where "RT_DEVICE_OFLAG_CLOSE \<equiv> 0x000"
abbreviation (input) RT_DEVICE_OFLAG_OPEN :: u16 where "RT_DEVICE_OFLAG_OPEN \<equiv> 0x008"
abbreviation (input) RT_DEVICE_OFLAG_MASK :: u16 where "RT_DEVICE_OFLAG_MASK \<equiv> 0xf0f"

record driver =
  drv_init :: "nat \<Rightarrow> nat \<Rightarrow> kernel \<Rightarrow> (rt_err_t \<times> kernel) option"
  drv_open :: "nat \<Rightarrow> nat \<Rightarrow> u16 \<Rightarrow> kernel \<Rightarrow> (rt_err_t \<times> kernel) option"
  drv_close :: "nat \<Rightarrow> nat \<Rightarrow> kernel \<Rightarrow> (rt_err_t \<times> kernel) option"
  drv_read :: "nat \<Rightarrow> nat \<Rightarrow> int \<Rightarrow> u32 \<Rightarrow> u32 \<Rightarrow> kernel \<Rightarrow> (u32 \<times> kernel) option"
  drv_write :: "nat \<Rightarrow> nat \<Rightarrow> int \<Rightarrow> u32 \<Rightarrow> u32 \<Rightarrow> kernel \<Rightarrow> (u32 \<times> kernel) option"
  drv_control :: "nat \<Rightarrow> nat \<Rightarrow> int \<Rightarrow> u32 \<Rightarrow> kernel \<Rightarrow> (rt_err_t \<times> kernel) option"

definition upd_dev :: "nat \<Rightarrow> (rt_device \<Rightarrow> rt_device) \<Rightarrow> kernel \<Rightarrow> kernel" where
  "upd_dev d f k = k\<lparr>devices := (devices k)(d := f (devices k d))\<rparr>"

definition is_device :: "kernel \<Rightarrow> nat \<Rightarrow> bool" where
  "is_device k d \<longleftrightarrow> rt_object_get_type k (ODevice d) = RT_Object_Class_Device"

definition rt_device_find :: "string \<Rightarrow> kernel \<Rightarrow> (oref option \<times> kernel) option" where
  "rt_device_find name k = do {
     let k = (if rt_thread_self k \<noteq> None then rt_enter_critical k else k);
     information \<leftarrow> rt_object_get_information RT_Object_Class_Device;
     let found = find (\<lambda>r. take RT_NAME_MAX (obj_name (objs k r)) = take RT_NAME_MAX name) (object_list k information);
     k \<leftarrow> (if rt_thread_self k \<noteq> None then rt_exit_critical k else Some k);
     Some (found, k)
   }"

definition rt_device_register :: "nat option \<Rightarrow> string \<Rightarrow> u16 \<Rightarrow> kernel \<Rightarrow> (rt_err_t \<times> kernel) option" where
  "rt_device_register dev name flags k =
     (case dev of
        None \<Rightarrow> Some (- RT_ERROR, k)
      | Some d \<Rightarrow> do {
          (found, k) \<leftarrow> rt_device_find name k;
          if found \<noteq> None then Some (- RT_ERROR, k)
          else do {
            k \<leftarrow> rt_object_init (ODevice d) RT_Object_Class_Device name k;
            let k = upd_dev d (\<lambda>dev. dev\<lparr>dv_flag := flags, dv_ref_count := 0, dv_open_flag := 0, dv_fops := None\<rparr>) k;
            Some (RT_EOK, rt_wqueue_init (dv_wait_queue (devices k d)) k)
          }
        })"

definition rt_device_unregister :: "nat \<Rightarrow> kernel \<Rightarrow> (rt_err_t \<times> kernel) option" where
  "rt_device_unregister d k = do {
     rt_assert (is_device k d);
     rt_assert (rt_object_is_systemobject k (ODevice d));
     Some (RT_EOK, rt_object_detach (ODevice d) k)
   }"

definition rt_device_init_all :: "kernel \<Rightarrow> rt_err_t \<times> kernel" where
  "rt_device_init_all k = (RT_EOK, k)"

text \<open>\<open>mem\<close> is the result of \<^verbatim>\<open>rt_malloc\<close>.\<close>

definition rt_device_create :: "nat \<Rightarrow> nat option \<Rightarrow> kernel \<Rightarrow> nat option \<times> kernel" where
  "rt_device_create type mem k =
     (case mem of
        None \<Rightarrow> (None, k)
      | Some d \<Rightarrow> (Some d, upd_dev d (\<lambda>dev. dev\<lparr>dv_type := type\<rparr>) (zero_object (ODevice d) k)))"

definition rt_device_destroy :: "nat \<Rightarrow> kernel \<Rightarrow> kernel option" where
  "rt_device_destroy d k = do {
     rt_assert (is_device k d);
     rt_assert (\<not> rt_object_is_systemobject k (ODevice d));
     Some (rt_object_detach (ODevice d) k)
   }"

definition rt_device_init :: "driver \<Rightarrow> nat \<Rightarrow> kernel \<Rightarrow> (rt_err_t \<times> kernel) option" where
  "rt_device_init drv d k =
     (case dv_init (devices k d) of
        None \<Rightarrow> Some (RT_EOK, k)
      | Some f \<Rightarrow>
          if dv_flag (devices k d) AND RT_DEVICE_FLAG_ACTIVATED = 0 then do {
            (result, k) \<leftarrow> drv_init drv f d k;
            if result \<noteq> RT_EOK then Some (result, k)
            else Some (result, upd_dev d (\<lambda>dev. dev\<lparr>dv_flag := dv_flag dev OR RT_DEVICE_FLAG_ACTIVATED\<rparr>) k)
          }
          else Some (RT_EOK, k))"

text \<open>The first part of \<^verbatim>\<open>rt_device_open\<close>: a device that is not active is initialised.\<close>

definition device_activate :: "driver \<Rightarrow> nat \<Rightarrow> kernel \<Rightarrow> (rt_err_t \<times> kernel) option" where
  "device_activate drv d k =
     (if dv_flag (devices k d) AND RT_DEVICE_FLAG_ACTIVATED = 0 then do {
        (result, k) \<leftarrow> (case dv_init (devices k d) of None \<Rightarrow> Some (RT_EOK, k) | Some f \<Rightarrow> drv_init drv f d k);
        if result \<noteq> RT_EOK then Some (result, k)
        else Some (RT_EOK, upd_dev d (\<lambda>dev. dev\<lparr>dv_flag := dv_flag dev OR RT_DEVICE_FLAG_ACTIVATED\<rparr>) k)
      }
      else Some (RT_EOK, k))"

definition rt_device_open :: "driver \<Rightarrow> nat \<Rightarrow> u16 \<Rightarrow> kernel \<Rightarrow> (rt_err_t \<times> kernel) option" where
  "rt_device_open drv d oflag k = do {
     rt_assert (is_device k d);
     (result, k) \<leftarrow> device_activate drv d k;
     if result \<noteq> RT_EOK then Some (result, k)
     else if dv_flag (devices k d) AND RT_DEVICE_FLAG_STANDALONE \<noteq> 0 \<and> dv_open_flag (devices k d) AND RT_DEVICE_OFLAG_OPEN \<noteq> 0
     then Some (- RT_EBUSY, k)
     else do {
       (result, k) \<leftarrow>
         (case dv_open (devices k d) of
            None \<Rightarrow> Some (RT_EOK, upd_dev d (\<lambda>dev. dev\<lparr>dv_open_flag := oflag AND RT_DEVICE_OFLAG_MASK\<rparr>) k)
          | Some f \<Rightarrow> drv_open drv f d oflag k);
       if result = RT_EOK \<or> result = - RT_ENOSYS then do {
         let k = upd_dev d (\<lambda>dev. dev\<lparr>dv_open_flag := dv_open_flag dev OR RT_DEVICE_OFLAG_OPEN,
                                     dv_ref_count := dv_ref_count dev + 1\<rparr>) k;
         rt_assert (dv_ref_count (devices k d) \<noteq> 0);
         Some (result, k)
       }
       else Some (result, k)
     }
   }"

definition rt_device_close :: "driver \<Rightarrow> nat \<Rightarrow> kernel \<Rightarrow> (rt_err_t \<times> kernel) option" where
  "rt_device_close drv d k = do {
     rt_assert (is_device k d);
     if dv_ref_count (devices k d) = 0 then Some (- RT_ERROR, k)
     else do {
       let k = upd_dev d (\<lambda>dev. dev\<lparr>dv_ref_count := dv_ref_count dev - 1\<rparr>) k;
       if dv_ref_count (devices k d) \<noteq> 0 then Some (RT_EOK, k)
       else do {
         (result, k) \<leftarrow> (case dv_close (devices k d) of None \<Rightarrow> Some (RT_EOK, k) | Some f \<Rightarrow> drv_close drv f d k);
         if result = RT_EOK \<or> result = - RT_ENOSYS
         then Some (result, upd_dev d (\<lambda>dev. dev\<lparr>dv_open_flag := RT_DEVICE_OFLAG_CLOSE\<rparr>) k)
         else Some (result, k)
       }
     }
   }"

definition rt_device_read :: "driver \<Rightarrow> nat \<Rightarrow> int \<Rightarrow> u32 \<Rightarrow> u32 \<Rightarrow> kernel \<Rightarrow> (u32 \<times> kernel) option" where
  "rt_device_read drv d pos buffer n k = do {
     rt_assert (is_device k d);
     if dv_ref_count (devices k d) = 0 then Some (0, rt_set_errno (- RT_ERROR) k)
     else case dv_read (devices k d) of
         Some f \<Rightarrow> drv_read drv f d pos buffer n k
       | None \<Rightarrow> Some (0, rt_set_errno (- RT_ENOSYS) k)
   }"

definition rt_device_write :: "driver \<Rightarrow> nat \<Rightarrow> int \<Rightarrow> u32 \<Rightarrow> u32 \<Rightarrow> kernel \<Rightarrow> (u32 \<times> kernel) option" where
  "rt_device_write drv d pos buffer n k = do {
     rt_assert (is_device k d);
     if dv_ref_count (devices k d) = 0 then Some (0, rt_set_errno (- RT_ERROR) k)
     else case dv_write (devices k d) of
         Some f \<Rightarrow> drv_write drv f d pos buffer n k
       | None \<Rightarrow> Some (0, rt_set_errno (- RT_ENOSYS) k)
   }"

definition rt_device_control :: "driver \<Rightarrow> nat \<Rightarrow> int \<Rightarrow> u32 \<Rightarrow> kernel \<Rightarrow> (rt_err_t \<times> kernel) option" where
  "rt_device_control drv d cmd arg k = do {
     rt_assert (is_device k d);
     (case dv_control (devices k d) of Some f \<Rightarrow> drv_control drv f d cmd arg k | None \<Rightarrow> Some (- RT_ENOSYS, k))
   }"

definition rt_device_set_rx_indicate :: "nat \<Rightarrow> nat option \<Rightarrow> kernel \<Rightarrow> (rt_err_t \<times> kernel) option" where
  "rt_device_set_rx_indicate d rx_ind k = do {
     rt_assert (is_device k d);
     Some (RT_EOK, upd_dev d (\<lambda>dev. dev\<lparr>dv_rx_indicate := rx_ind\<rparr>) k)
   }"

definition rt_device_set_tx_complete :: "nat \<Rightarrow> nat option \<Rightarrow> kernel \<Rightarrow> (rt_err_t \<times> kernel) option" where
  "rt_device_set_tx_complete d tx_done k = do {
     rt_assert (is_device k d);
     Some (RT_EOK, upd_dev d (\<lambda>dev. dev\<lparr>dv_tx_complete := tx_done\<rparr>) k)
   }"

section \<open>Opening and closing\<close>

text \<open>A driver whose functions succeed and leave the fields of device \<open>d\<close> to the device layer.\<close>

definition obliging :: "driver \<Rightarrow> nat \<Rightarrow> bool" where
  "obliging drv d \<longleftrightarrow>
     (\<forall>f oflag k. is_device k d \<longrightarrow>
        (\<exists>k1 k2 k3. drv_init drv f d k = Some (RT_EOK, k1) \<and> devices k1 d = devices k d \<and> is_device k1 d \<and>
          drv_open drv f d oflag k = Some (RT_EOK, k2) \<and> devices k2 d = devices k d \<and> is_device k2 d \<and>
          drv_close drv f d k = Some (RT_EOK, k3) \<and> devices k3 d = devices k d \<and> is_device k3 d))"

lemma upd_dev_frame [simp]:
  "devices (upd_dev d f k) d' = (if d' = d then f (devices k d) else devices k d')" "is_device (upd_dev d f k) d' = is_device k d'"
  by (simp_all add: upd_dev_def is_device_def rt_object_get_type_def)

lemma obliging_init:
  assumes "obliging drv d" "is_device k d"
  shows "\<exists>k1. (case dv_init (devices k d) of None \<Rightarrow> Some (RT_EOK, k) | Some f \<Rightarrow> drv_init drv f d k) = Some (RT_EOK, k1) \<and>
    devices k1 d = devices k d \<and> is_device k1 d"
proof (cases "dv_init (devices k d)")
  case (Some f)
  with assms(1) [unfolded obliging_def, rule_format, OF assms(2), of f] show ?thesis by auto
qed (use assms(2) in simp)

lemma obliging_close:
  assumes "obliging drv d" "is_device k d"
  shows "\<exists>k1. (case dv_close (devices k d) of None \<Rightarrow> Some (RT_EOK, k) | Some f \<Rightarrow> drv_close drv f d k) = Some (RT_EOK, k1) \<and>
    devices k1 d = devices k d \<and> is_device k1 d"
proof (cases "dv_close (devices k d)")
  case (Some f)
  with assms(1) [unfolded obliging_def, rule_format, OF assms(2), of f] show ?thesis by auto
qed (use assms(2) in simp)

lemma activated_bits: "(x OR (0x10 :: u16)) AND 0x10 \<noteq> 0" "(x OR (0x10 :: u16)) AND 8 = x AND 8"
  by (simp_all add: bit.conj_disj_distrib2)

lemma device_activate_step:
  assumes "obliging drv d" "is_device k d"
  obtains k' fl where "device_activate drv d k = Some (RT_EOK, k')" "is_device k' d" "devices k' d = (devices k d)\<lparr>dv_flag := fl\<rparr>"
    "fl AND RT_DEVICE_FLAG_ACTIVATED \<noteq> 0" "fl AND RT_DEVICE_FLAG_STANDALONE = dv_flag (devices k d) AND RT_DEVICE_FLAG_STANDALONE"
proof (cases "dv_flag (devices k d) AND RT_DEVICE_FLAG_ACTIVATED = 0")
  case False
  then show ?thesis using assms(2) by (intro that [of k "dv_flag (devices k d)"]) (simp_all add: device_activate_def)
next
  case True
  let ?f = "dv_flag (devices k d) OR RT_DEVICE_FLAG_ACTIVATED"
  obtain k1 where k1: "(case dv_init (devices k d) of None \<Rightarrow> Some (RT_EOK, k) | Some f \<Rightarrow> drv_init drv f d k) = Some (RT_EOK, k1)"
    "devices k1 d = devices k d" "is_device k1 d"
    using obliging_init [OF assms] by blast
  with True show ?thesis
    by (intro that [of "upd_dev d (\<lambda>dev. dev\<lparr>dv_flag := dv_flag dev OR RT_DEVICE_FLAG_ACTIVATED\<rparr>) k1" ?f])
      (simp_all add: device_activate_def activated_bits)
qed

lemma u8_wraps: "x + 1 = (0 :: u8) \<longleftrightarrow> x = 0xff"
proof -
  have "- 1 = (0xff :: u8)" by simp
  moreover have "x + 1 = 0 \<longleftrightarrow> x = - 1" by (simp add: eq_neg_iff_add_eq_0)
  ultimately show ?thesis by (simp only:)
qed

text \<open>Up to the count of the users, opening a shared device always succeeds.\<close>

lemma rt_device_open_run:
  assumes o: "obliging drv d" "is_device k d" and s: "dv_flag (devices k d) AND RT_DEVICE_FLAG_STANDALONE = 0"
  obtains k2 fl ofl where "is_device k2 d" "devices k2 d = (devices k d)\<lparr>dv_flag := fl, dv_open_flag := ofl\<rparr>"
    "fl AND RT_DEVICE_FLAG_STANDALONE = 0" "rt_device_open drv d oflag k =
      (let k = upd_dev d (\<lambda>dev. dev\<lparr>dv_open_flag := dv_open_flag dev OR RT_DEVICE_OFLAG_OPEN, dv_ref_count := dv_ref_count dev + 1\<rparr>) k2
       in do { rt_assert (dv_ref_count (devices k d) \<noteq> 0); Some (RT_EOK, k) })"
proof -
  obtain k1 fl where k1: "device_activate drv d k = Some (RT_EOK, k1)" "is_device k1 d" "devices k1 d = (devices k d)\<lparr>dv_flag := fl\<rparr>"
    "fl AND 0x10 \<noteq> 0" "fl AND 8 = dv_flag (devices k d) AND 8"
    using device_activate_step [OF o] .
  obtain k2 ofl where k2: "(case dv_open (devices k1 d) of
      None \<Rightarrow> Some (RT_EOK, upd_dev d (\<lambda>dev. dev\<lparr>dv_open_flag := oflag AND RT_DEVICE_OFLAG_MASK\<rparr>) k1)
    | Some f \<Rightarrow> drv_open drv f d oflag k1) = Some (RT_EOK, k2)"
    "devices k2 d = (devices k1 d)\<lparr>dv_open_flag := ofl\<rparr>" "is_device k2 d"
  proof (cases "dv_open (devices k1 d)")
    case None
    with k1(2) that show ?thesis by simp
  next
    case (Some f)
    obtain k2 where "drv_open drv f d oflag k1 = Some (RT_EOK, k2)" "devices k2 d = devices k1 d" "is_device k2 d"
      using o(1) k1(2) unfolding obliging_def by metis
    with Some show ?thesis by (intro that [of k2 "dv_open_flag (devices k1 d)"]) simp_all
  qed
  show ?thesis
    by (rule that [of k2 ofl fl]) (use o(2) k1 k2 s in \<open>simp_all add: rt_device_open_def\<close>)
qed

lemma rt_device_open_step:
  assumes o: "obliging drv d" "is_device k d" and s: "dv_flag (devices k d) AND RT_DEVICE_FLAG_STANDALONE = 0"
    and r: "dv_ref_count (devices k d) \<noteq> 0xff"
  obtains k' where "rt_device_open drv d oflag k = Some (RT_EOK, k')" "is_device k' d"
    "dv_ref_count (devices k' d) = dv_ref_count (devices k d) + 1" "dv_open_flag (devices k' d) AND RT_DEVICE_OFLAG_OPEN \<noteq> 0"
    "dv_flag (devices k' d) AND RT_DEVICE_FLAG_STANDALONE = 0"
proof -
  obtain k2 fl ofl where k2: "is_device k2 d" "devices k2 d = (devices k d)\<lparr>dv_flag := fl, dv_open_flag := ofl\<rparr>"
    "fl AND RT_DEVICE_FLAG_STANDALONE = 0" "rt_device_open drv d oflag k =
      (let k = upd_dev d (\<lambda>dev. dev\<lparr>dv_open_flag := dv_open_flag dev OR RT_DEVICE_OFLAG_OPEN, dv_ref_count := dv_ref_count dev + 1\<rparr>) k2
       in do { rt_assert (dv_ref_count (devices k d) \<noteq> 0); Some (RT_EOK, k) })"
    using rt_device_open_run [OF o s] .
  have "dv_ref_count (devices k d) + 1 \<noteq> 0" using r by (simp add: u8_wraps)
  with k2 show ?thesis
    by (intro that [of "upd_dev d (\<lambda>dev. dev\<lparr>dv_open_flag := dv_open_flag dev OR RT_DEVICE_OFLAG_OPEN,
        dv_ref_count := dv_ref_count dev + 1\<rparr>) k2"]) (simp_all add: bit.conj_disj_distrib2)
qed

lemma rt_device_open_full:
  assumes o: "obliging drv d" "is_device k d" and s: "dv_flag (devices k d) AND RT_DEVICE_FLAG_STANDALONE = 0"
    and r: "dv_ref_count (devices k d) = 0xff"
  shows "rt_device_open drv d oflag k = None"
  by (rule rt_device_open_run [OF o s]) (use r in simp)

lemma rt_device_close_step:
  assumes o: "obliging drv d" "is_device k d" and r: "dv_ref_count (devices k d) \<noteq> 0"
  obtains k' where "rt_device_close drv d k = Some (RT_EOK, k')" "is_device k' d"
    "devices k' d = (devices k d)\<lparr>dv_ref_count := dv_ref_count (devices k d) - 1,
       dv_open_flag := if dv_ref_count (devices k d) = 1 then RT_DEVICE_OFLAG_CLOSE else dv_open_flag (devices k d)\<rparr>"
proof (cases "dv_ref_count (devices k d) = 1")
  case False
  with o(2) r show ?thesis
    by (intro that [of "upd_dev d (\<lambda>dev. dev\<lparr>dv_ref_count := dv_ref_count dev - 1\<rparr>) k"]) (simp_all add: rt_device_close_def)
next
  case True
  let ?k = "upd_dev d (\<lambda>dev. dev\<lparr>dv_ref_count := dv_ref_count dev - 1\<rparr>) k"
  have "is_device ?k d" using o(2) by simp
  then obtain k1 where k1: "(case dv_close (devices ?k d) of None \<Rightarrow> Some (RT_EOK, ?k) | Some f \<Rightarrow> drv_close drv f d ?k) = Some (RT_EOK, k1)"
    "devices k1 d = devices ?k d" "is_device k1 d"
    using obliging_close [OF o(1), of ?k] by blast
  have "rt_device_close drv d k = Some (RT_EOK, upd_dev d (\<lambda>dev. dev\<lparr>dv_open_flag := RT_DEVICE_OFLAG_CLOSE\<rparr>) k1)"
    using o(2) True k1(1) by (simp add: rt_device_close_def Let_def)
  with k1(2,3) True show ?thesis
    by (intro that [of "upd_dev d (\<lambda>dev. dev\<lparr>dv_open_flag := RT_DEVICE_OFLAG_CLOSE\<rparr>) k1"]) simp_all
qed

abbreviation opens :: "driver \<Rightarrow> nat \<Rightarrow> u16 list \<Rightarrow> kernel \<Rightarrow> kernel option" where
  "opens drv d \<equiv> iterM (\<lambda>oflag k. map_option snd (rt_device_open drv d oflag k))"

abbreviation closes :: "driver \<Rightarrow> nat \<Rightarrow> nat \<Rightarrow> kernel \<Rightarrow> kernel option" where
  "closes drv d n \<equiv> iterM (\<lambda>_ k. map_option snd (rt_device_close drv d k)) (replicate n ())"

lemma opens_count:
  assumes "obliging drv d" "is_device k d" "dv_flag (devices k d) AND RT_DEVICE_FLAG_STANDALONE = 0"
    and "unat (dv_ref_count (devices k d)) + length oflags \<le> 255" "oflags \<noteq> []"
  shows "\<exists>k'. opens drv d oflags k = Some k' \<and> is_device k' d \<and> dv_flag (devices k' d) AND RT_DEVICE_FLAG_STANDALONE = 0 \<and>
    unat (dv_ref_count (devices k' d)) = unat (dv_ref_count (devices k d)) + length oflags \<and>
    dv_open_flag (devices k' d) AND RT_DEVICE_OFLAG_OPEN \<noteq> 0"
  using assms(2-5)
proof (induction oflags arbitrary: k)
  case (Cons oflag oflags)
  have r: "dv_ref_count (devices k d) \<noteq> 0xff" using Cons.prems(3) by auto
  obtain k1 where k1: "rt_device_open drv d oflag k = Some (RT_EOK, k1)" "is_device k1 d"
    "dv_ref_count (devices k1 d) = dv_ref_count (devices k d) + 1" "dv_open_flag (devices k1 d) AND 8 \<noteq> 0"
    "dv_flag (devices k1 d) AND 8 = 0"
    using rt_device_open_step [OF assms(1) Cons.prems(1,2) r] by blast
  have u: "unat (dv_ref_count (devices k1 d)) = Suc (unat (dv_ref_count (devices k d)))"
    using Cons.prems(3) k1(3) by (simp add: unat_word_ariths)
  show ?case
  proof (cases "oflags = []")
    case True
    with k1 u show ?thesis by simp
  next
    case False
    then show ?thesis using Cons.IH [OF k1(2,5)] Cons.prems(3) k1(1) u by auto
  qed
qed simp

lemma closes_count:
  assumes "obliging drv d" "is_device k d" "n \<le> unat (dv_ref_count (devices k d))" "dv_open_flag (devices k d) AND RT_DEVICE_OFLAG_OPEN \<noteq> 0"
  shows "\<exists>k'. closes drv d n k = Some k' \<and> is_device k' d \<and> unat (dv_ref_count (devices k' d)) = unat (dv_ref_count (devices k d)) - n \<and>
    dv_open_flag (devices k' d) = (if n = unat (dv_ref_count (devices k d)) \<and> n \<noteq> 0 then RT_DEVICE_OFLAG_CLOSE else dv_open_flag (devices k d))"
  using assms(2-4)
proof (induction n arbitrary: k)
  case (Suc n)
  let ?r = "dv_ref_count (devices k d)"
  have r: "?r \<noteq> 0" using Suc.prems(2) by auto
  obtain k1 where k1: "rt_device_close drv d k = Some (RT_EOK, k1)" "is_device k1 d"
    "devices k1 d = (devices k d)\<lparr>dv_ref_count := ?r - 1, dv_open_flag := if ?r = 1 then 0 else dv_open_flag (devices k d)\<rparr>"
    using rt_device_close_step [OF assms(1) Suc.prems(1) r] .
  have u: "unat (?r - 1) = unat ?r - 1" using r by (simp add: unat_minus_one)
  have one: "?r = 1 \<longleftrightarrow> unat ?r = 1" by (simp add: word_unat_eq_iff)
  show ?case
  proof (cases "?r = 1")
    case True
    then have "n = 0" using Suc.prems(2) by simp
    with True k1 u show ?thesis by simp
  next
    case False
    then have "dv_open_flag (devices k1 d) AND 8 \<noteq> 0" "n \<le> unat (dv_ref_count (devices k1 d))"
      using k1(3) Suc.prems(2,3) u by auto
    from Suc.IH [OF k1(2) this(2,1)] k1 u False one Suc.prems(2) show ?thesis
      by (cases n) (auto simp: le_Suc_eq)
  qed
qed simp


definition calm_driver :: driver where
  "calm_driver = \<lparr>drv_init = (\<lambda>_ _ k. Some (RT_EOK, k)), drv_open = (\<lambda>_ _ _ k. Some (RT_EOK, k)), drv_close = (\<lambda>_ _ k. Some (RT_EOK, k)),
     drv_read = (\<lambda>_ _ _ _ n k. Some (n, k)), drv_write = (\<lambda>_ _ _ _ n k. Some (n, k)), drv_control = (\<lambda>_ _ _ _ k. Some (RT_EOK, k))\<rparr>"

lemma demo_device: "obliging calm_driver d" "is_device demo_kernel 0" "dv_flag (devices demo_kernel 0) = 0" "dv_ref_count (devices demo_kernel 0) = 0"
proof -
  show "is_device demo_kernel 0" by (simp add: is_device_def rt_object_get_type_def demo_kernel_def) (simp add: oref_class_def)
qed (simp_all add: obliging_def calm_driver_def demo_simps)


section \<open>Names\<close>

lemma rt_device_find_step:
  assumes "sched_inv k"
  obtains k' where "rt_device_find name k =
    Some (find (\<lambda>r. take RT_NAME_MAX (obj_name (objs k r)) = take RT_NAME_MAX name) (object_list k RT_Object_Class_Device), k')" "resched k k'"
proof -
  have g: "rt_object_get_information RT_Object_Class_Device = Some RT_Object_Class_Device"
    by (simp add: get_information_eq rt_object_container_def)
  show ?thesis
  proof (cases "rt_current_thread k = None")
    case True
    then show ?thesis using that [of k] resched_refl [OF assms] by (simp add: rt_device_find_def rt_thread_self_def g)
  next
    case False
    obtain k' where "rt_exit_critical (rt_enter_critical k) = Some k'" "resched k k'" using critical_section_step [OF assms] .
    moreover have "rt_current_thread (rt_enter_critical k) = rt_current_thread k" "objs (rt_enter_critical k) = objs k"
      "object_list (rt_enter_critical k) = object_list k" by (simp_all add: rt_enter_critical_def)
    ultimately show ?thesis
      using False that [of k'] by (simp add: rt_device_find_def rt_thread_self_def Let_def g)
  qed
qed

text \<open>Registering makes a device known under its name. When no device has the name (up to 16 characters), \<^verbatim>\<open>rt_device_register\<close>
  succeeds, the device is closed with the flags asked for and an empty wait queue, \<^verbatim>\<open>rt_device_find\<close> returns exactly this
  device, and registering any device under the same name is refused.\<close>

theorem rt_device_register_find:
  assumes "sched_inv k" "ODevice d \<notin> set (object_list k RT_Object_Class_Device)"
    and "\<forall>r \<in> set (object_list k RT_Object_Class_Device). take RT_NAME_MAX (obj_name (objs k r)) \<noteq> take RT_NAME_MAX name"
  shows "\<exists>k1. rt_device_register (Some d) name flags k = Some (RT_EOK, k1) \<and> sched_inv k1 \<and> is_device k1 d \<and>
    dv_flag (devices k1 d) = flags \<and> dv_open_flag (devices k1 d) = RT_DEVICE_OFLAG_CLOSE \<and> dv_ref_count (devices k1 d) = 0 \<and>
    wqu_waiting_list (wqueues k1 (dv_wait_queue (devices k1 d))) = [] \<and>
    (\<exists>k2. rt_device_find name k1 = Some (Some (ODevice d), k2)) \<and>
    (\<exists>k2. rt_device_register (Some d') name flags' k1 = Some (- RT_ERROR, k2))"
proof -
  let ?ty = "RT_Object_Class_Device"
  have "find (\<lambda>r. take RT_NAME_MAX (obj_name (objs k r)) = take RT_NAME_MAX name) (object_list k ?ty) = None"
    using assms(3) by (simp add: find_None_iff)
  then obtain ka where ka: "rt_device_find name k = Some (None, ka)" "resched k ka"
    using rt_device_find_step [OF assms(1), of name] by metis
  have ol: "object_list ka = object_list k" using ipc_sameD(7) [OF reschedD(2) [OF ka(2)]] .
  have "?ty \<in> set rt_object_container" by (simp add: rt_object_container_def)
  then obtain kb where kb: "resched ka kb" "rt_object_init (ODevice d) ?ty name ka =
      Some (object_list_push ?ty (ODevice d) (upd_obj (ODevice d) (\<lambda>ob. ob\<lparr>obj_type := ?ty OR RT_Object_Class_Static,
        obj_name := rt_strncpy_name name\<rparr>) kb))" (is "_ = Some ?kc")
    using rt_object_init_step [OF reschedD(1) [OF ka(2)], of ?ty "ODevice d" name] assms(2) ol by metis
  let ?kd = "upd_dev d (\<lambda>dev. dev\<lparr>dv_flag := flags, dv_ref_count := 0, dv_open_flag := 0, dv_fops := None\<rparr>) ?kc"
  let ?k1 = "rt_wqueue_init (dv_wait_queue (devices ?kd d)) ?kd"
  have reg: "rt_device_register (Some d) name flags k = Some (RT_EOK, ?k1)"
    using ka(1) kb(2) by (simp add: rt_device_register_def Let_def)
  have f: "objs ?k1 = objs ?kc" "object_list ?k1 = object_list ?kc" "devices ?k1 = devices ?kd"
    by (simp_all add: rt_wqueue_init_def upd_wqueue_def upd_dev_def)
  have s: "sched_inv ?k1"
    using reschedD(1) [OF kb(1)] sched_inv_cong [of ?k1 kb]
    by (simp add: rt_wqueue_init_def upd_wqueue_def upd_dev_def object_list_push_def upd_obj_def)
  have fd: "find (\<lambda>r. take RT_NAME_MAX (obj_name (objs ?k1 r)) = take RT_NAME_MAX name) (object_list ?k1 ?ty) = Some (ODevice d)"
    unfolding f by (simp add: object_list_push_def upd_obj_def rt_strncpy_name_def)
  obtain k2 where k2: "rt_device_find name ?k1 = Some (Some (ODevice d), k2)"
    using rt_device_find_step [OF s, of name] unfolding fd .
  then have "rt_device_register (Some d') name flags' ?k1 = Some (- RT_ERROR, k2)" by (simp add: rt_device_register_def)
  moreover have "is_device ?k1 d"
    unfolding is_device_def rt_object_get_type_def f by (simp add: object_list_push_def upd_obj_def)
  moreover have "wqu_waiting_list (wqueues ?k1 (dv_wait_queue (devices ?k1 d))) = []"
    unfolding f by (simp add: rt_wqueue_init_def)
  ultimately show ?thesis using reg s k2 f(3) by (intro exI [of _ ?k1]) auto
qed

theorem rt_device_register_find_witness:
  "\<exists>k1 k2. rt_device_register (Some 0) ''uart1'' 3 demo_kernel = Some (RT_EOK, k1) \<and>
     rt_device_find ''uart1'' k1 = Some (Some (ODevice 0), k2)"
proof -
  have "object_list demo_kernel 9 = []" by (simp add: demo_simps)
  then show ?thesis using rt_device_register_find [OF demo_kernel_inv, of 0 "''uart1''" 3 0 0] by auto
qed

section \<open>Errors\<close>

text \<open>An error of the driver on the last close locks a stand-alone device. \<^verbatim>\<open>rt_device_close\<close> reports the error with the count at 0 and
  the device still marked as open: closing it again is refused because the count is 0, opening it because it is open, and
  reading from it because the count is 0.\<close>

theorem rt_device_close_error_locks:
  assumes "is_device k d" "dv_ref_count (devices k d) = 1" "dv_close (devices k d) = Some f"
    and "dv_flag (devices k d) AND RT_DEVICE_FLAG_STANDALONE \<noteq> 0" "dv_flag (devices k d) AND RT_DEVICE_FLAG_ACTIVATED \<noteq> 0"
    and "dv_open_flag (devices k d) AND RT_DEVICE_OFLAG_OPEN \<noteq> 0"
    and "\<And>k. drv_close drv f d k = Some (e, k)" "e \<noteq> RT_EOK" "e \<noteq> - RT_ENOSYS"
  shows "\<exists>k'. rt_device_close drv d k = Some (e, k') \<and> rt_device_close drv d k' = Some (- RT_ERROR, k') \<and>
    rt_device_open drv d oflag k' = Some (- RT_EBUSY, k') \<and>
    rt_device_read drv d pos buffer n k' = Some (0, rt_set_errno (- RT_ERROR) k')"
  using assms
  by (intro exI [of _ "upd_dev d (\<lambda>dev. dev\<lparr>dv_ref_count := dv_ref_count dev - 1\<rparr>) k"])
    (simp add: rt_device_close_def rt_device_open_def device_activate_def rt_device_read_def Let_def)

definition demo_lock_device :: kernel where
  "demo_lock_device = upd_dev 0 (\<lambda>dev. dev\<lparr>dv_flag := 0x18, dv_open_flag := 0x0b, dv_ref_count := 1, dv_close := Some 0\<rparr>) demo_kernel"

definition failing_driver :: driver where
  "failing_driver = calm_driver\<lparr>drv_close := (\<lambda>_ _ k. Some (- 8, k))\<rparr>"

theorem rt_device_close_error_locks_witness:
  "\<exists>k'. rt_device_close failing_driver 0 demo_lock_device = Some (- 8, k') \<and>
     rt_device_open failing_driver 0 3 k' = Some (- RT_EBUSY, k')"
proof -
  have "is_device demo_lock_device 0" using demo_device(2) by (simp add: demo_lock_device_def)
  moreover have "dv_flag (devices demo_lock_device 0) = 0x18" "dv_open_flag (devices demo_lock_device 0) = 0x0b"
    "dv_ref_count (devices demo_lock_device 0) = 1" "dv_close (devices demo_lock_device 0) = Some 0"
    by (simp_all add: demo_lock_device_def)
  moreover have "drv_close failing_driver 0 0 k = Some (- 8, k)" for k by (simp add: failing_driver_def)
  ultimately show ?thesis
    using rt_device_close_error_locks [of demo_lock_device 0 0 failing_driver "- 8" 3 0 0 0] by auto
qed

end
