(* ===== verification/Mem_Ops.thy ===== *)
theory Mem_Ops
  imports Prelude
begin

text \<open>
  The memory functions of \<^verbatim>\<open>kservice.c\<close>, on a memory of bytes addressed by 32-bit words. The optimised versions store and load
  words (little-endian, four bytes) while the addresses are aligned and enough bytes are left, then single bytes. Each is
  shown equal to writing one list of bytes.
\<close>

section \<open>Bytes and words of memory\<close>

type_synonym memory = "u32 \<Rightarrow> u8"

primrec write_bytes :: "u32 \<Rightarrow> u8 list \<Rightarrow> memory \<Rightarrow> memory" where
  "write_bytes a [] m = m"
| "write_bytes a (x # xs) m = write_bytes (a + 1) xs (m(a := x))"

primrec read_bytes :: "memory \<Rightarrow> u32 \<Rightarrow> nat \<Rightarrow> u8 list" where
  "read_bytes m a 0 = []"
| "read_bytes m a (Suc n) = m a # read_bytes m (a + 1) n"

definition word_bytes :: "u32 \<Rightarrow> u8 list" where
  "word_bytes w = [ucast w, ucast (drop_bit 8 w), ucast (drop_bit 16 w), ucast (drop_bit 24 w)]"

definition store_word :: "u32 \<Rightarrow> u32 \<Rightarrow> memory \<Rightarrow> memory" where
  "store_word a w m = write_bytes a (word_bytes w) m"

definition load_word :: "memory \<Rightarrow> u32 \<Rightarrow> u32" where
  "load_word m a = ucast (m a) OR push_bit 8 (ucast (m (a + 1))) OR push_bit 16 (ucast (m (a + 2))) OR
     push_bit 24 (ucast (m (a + 3)))"

lemma word_sub_decreases: "(k :: u32) \<le> n \<Longrightarrow> 0 < k \<Longrightarrow> unat (n - k) < unat n"
  by (simp add: unat_sub word_le_nat_alt word_less_nat_alt)

section \<open>Operations\<close>

text \<open>\<^verbatim>\<open>while (count--) *m++ = (char)d\<close>\<close>

primrec set_loop :: "nat \<Rightarrow> u32 \<Rightarrow> u8 \<Rightarrow> memory \<Rightarrow> memory" where
  "set_loop 0 a d m = m"
| "set_loop (Suc n) a d m = set_loop n (a + 1) d (m(a := d))"

text \<open>The loops that store four words, and one word, at a time.\<close>

function set_big :: "u32 \<Rightarrow> u32 \<Rightarrow> u32 \<Rightarrow> memory \<Rightarrow> u32 \<times> u32 \<times> memory" where
  "set_big w a count m =
     (if 16 \<le> count then
        let m = store_word a w m; m = store_word (a + 4) w m; m = store_word (a + 8) w m; m = store_word (a + 12) w m
        in set_big w (a + 16) (count - 16) m
      else (a, count, m))"
  by pat_completeness auto
termination
  by (relation "measure (\<lambda>(w, a, count, m). unat count)") (simp_all add: word_sub_decreases)

function set_little :: "u32 \<Rightarrow> u32 \<Rightarrow> u32 \<Rightarrow> memory \<Rightarrow> u32 \<times> u32 \<times> memory" where
  "set_little w a count m =
     (if 4 \<le> count then set_little w (a + 4) (count - 4) (store_word a w m) else (a, count, m))"
  by pat_completeness auto
termination
  by (relation "measure (\<lambda>(w, a, count, m). unat count)") (simp_all add: word_sub_decreases)

definition fill_word :: "u32 \<Rightarrow> u32" where
  "fill_word d = (let buffer = push_bit 8 d OR d in buffer OR push_bit 16 buffer)"

definition rt_memset :: "u32 \<Rightarrow> u32 \<Rightarrow> u32 \<Rightarrow> memory \<Rightarrow> u32 \<times> memory" where
  "rt_memset s c count m =
     (let d = c AND 0xff
      in if 4 \<le> count \<and> s AND 3 = 0 then
           (let buffer = fill_word d;
                (aligned_addr, count, m) = set_big buffer s count m;
                (aligned_addr, count, m) = set_little buffer aligned_addr count m
            in (s, set_loop (unat count) aligned_addr (ucast d) m))
         else (s, set_loop (unat count) s (ucast d) m))"

primrec copy_loop :: "nat \<Rightarrow> u32 \<Rightarrow> u32 \<Rightarrow> memory \<Rightarrow> memory" where
  "copy_loop 0 d s m = m"
| "copy_loop (Suc n) d s m = copy_loop n (d + 1) (s + 1) (m(d := m s))"

definition copy_word :: "u32 \<Rightarrow> u32 \<Rightarrow> memory \<Rightarrow> memory" where
  "copy_word d s m = store_word d (load_word m s) m"

text \<open>\<^verbatim>\<open>len\<close> is an \<^verbatim>\<open>int\<close> in the code, compared with the unsigned block sizes, so that all comparisons are unsigned.\<close>

function copy_big :: "u32 \<Rightarrow> u32 \<Rightarrow> u32 \<Rightarrow> memory \<Rightarrow> u32 \<times> u32 \<times> u32 \<times> memory" where
  "copy_big d s len m =
     (if 16 \<le> len then
        let m = copy_word d s m; m = copy_word (d + 4) (s + 4) m; m = copy_word (d + 8) (s + 8) m;
            m = copy_word (d + 12) (s + 12) m
        in copy_big (d + 16) (s + 16) (len - 16) m
      else (d, s, len, m))"
  by pat_completeness auto
termination
  by (relation "measure (\<lambda>(d, s, len, m). unat len)") (simp_all add: word_sub_decreases)

function copy_little :: "u32 \<Rightarrow> u32 \<Rightarrow> u32 \<Rightarrow> memory \<Rightarrow> u32 \<times> u32 \<times> u32 \<times> memory" where
  "copy_little d s len m =
     (if 4 \<le> len then copy_little (d + 4) (s + 4) (len - 4) (copy_word d s m) else (d, s, len, m))"
  by pat_completeness auto
termination
  by (relation "measure (\<lambda>(d, s, len, m). unat len)") (simp_all add: word_sub_decreases)

declare set_big.simps [simp del] set_little.simps [simp del] copy_big.simps [simp del] copy_little.simps [simp del]

definition rt_memcpy :: "u32 \<Rightarrow> u32 \<Rightarrow> u32 \<Rightarrow> memory \<Rightarrow> u32 \<times> memory" where
  "rt_memcpy dst src count m =
     (if 16 \<le> count \<and> (src AND 3) OR (dst AND 3) = 0 then
        (let (d, s, len, m) = copy_big dst src count m;
             (d, s, len, m) = copy_little d s len m
         in (dst, copy_loop (unat len) d s m))
      else (dst, copy_loop (unat count) dst src m))"

text \<open>\<^verbatim>\<open>while (n--) *(--tmp) = *(--s)\<close>\<close>

primrec copy_down :: "nat \<Rightarrow> u32 \<Rightarrow> u32 \<Rightarrow> memory \<Rightarrow> memory" where
  "copy_down 0 d s m = m"
| "copy_down (Suc n) d s m = copy_down n (d - 1) (s - 1) (m(d - 1 := m (s - 1)))"

definition rt_memmove :: "u32 \<Rightarrow> u32 \<Rightarrow> u32 \<Rightarrow> memory \<Rightarrow> u32 \<times> memory" where
  "rt_memmove dest src n m =
     (if src < dest \<and> dest < src + n then (dest, copy_down (unat n) (dest + n) (src + n) m)
      else (dest, copy_loop (unat n) dest src m))"

primrec memcmp_loop :: "nat \<Rightarrow> u32 \<Rightarrow> u32 \<Rightarrow> memory \<Rightarrow> int" where
  "memcmp_loop 0 cs ct m = 0"
| "memcmp_loop (Suc n) cs ct m =
     (let res = uint (m cs) - uint (m ct) in if res \<noteq> 0 then res else memcmp_loop n (cs + 1) (ct + 1) m)"

definition rt_memcmp :: "u32 \<Rightarrow> u32 \<Rightarrow> u32 \<Rightarrow> memory \<Rightarrow> int" where
  "rt_memcmp cs ct count m = memcmp_loop (unat count) cs ct m"

section \<open>Lists of bytes in memory\<close>

lemma length_read_bytes [simp]: "length (read_bytes m a n) = n"
  by (induction n arbitrary: a) auto

lemma nth_read_bytes: "i < n \<Longrightarrow> read_bytes m a n ! i = m (a + of_nat i)"
proof (induction n arbitrary: a i)
  case (Suc n)
  then show ?case by (cases i) (simp_all add: add.assoc add.commute [of 1])
qed simp

lemma read_bytes_add: "read_bytes m a (n + k) = read_bytes m a n @ read_bytes m (a + of_nat n) k"
  by (induction n arbitrary: a) (simp_all add: add.assoc)

lemma write_bytes_append: "write_bytes a (xs @ ys) m = write_bytes (a + of_nat (length xs)) ys (write_bytes a xs m)"
  by (induction xs arbitrary: a m) (simp_all add: add.assoc)

lemma unat_step_back: "unat (b - a :: u32) = (if b = a then 0 else Suc (unat (b - (a + 1))))"
proof (cases "b = a")
  case False
  then have "unat (b - a) \<noteq> 0" by (simp add: unat_eq_zero)
  moreover have "unat (b - a - 1) = unat (b - a) - 1" using False by (simp add: unat_minus_one)
  ultimately show ?thesis using False by (simp add: diff_diff_eq)
qed simp

text \<open>The bytes after a write: the written ones inside of the region, the old ones outside.\<close>

lemma write_bytes_at:
  assumes "length xs \<le> 2 ^ 32"
  shows "write_bytes a xs m b = (if unat (b - a) < length xs then xs ! unat (b - a) else m b)"
  using assms
proof (induction xs arbitrary: a m)
  case (Cons x xs)
  show ?case
  proof (cases "b = a")
    case True
    have "unat (a - (a + 1)) = 2 ^ 32 - 1" by (simp add: unat_neg)
    then have "\<not> unat (b - (a + 1)) < length xs" using Cons.prems True by simp
    then show ?thesis using Cons True by simp
  next
    case False
    then show ?thesis using Cons.IH [of "a + 1"] Cons.prems unat_step_back [of b a] by simp
  qed
qed simp

section \<open>Filling\<close>

lemma set_loop_bytes: "set_loop n a d m = write_bytes a (replicate n d) m"
  by (induction n arbitrary: a m) simp_all

lemma store_word_replicate:
  assumes "word_bytes w = replicate 4 d"
  shows "store_word a w m = write_bytes a (replicate 4 d) m"
  by (simp add: store_word_def assms)

lemma write_replicate: "write_bytes (a + of_nat k) (replicate n d) (write_bytes a (replicate k d) m) = write_bytes a (replicate (k + n) d) m"
  using write_bytes_append [of a "replicate k d" "replicate n d" m] by (simp add: replicate_add)

lemma unat_sub_add: "(k :: u32) \<le> n \<Longrightarrow> unat n = unat k + unat (n - k)"
  by (simp add: unat_sub word_le_nat_alt)

lemma set_big_bytes:
  assumes "word_bytes w = replicate 4 d"
  shows "\<exists>k c. unat count = k + unat c \<and> set_big w a count m = (a + of_nat k, c, write_bytes a (replicate k d) m)"
  using assms
proof (induction w a count m rule: set_big.induct)
  case (1 w a count m)
  show ?case
  proof (cases "16 \<le> count")
    case True
    let ?m = "write_bytes a (replicate 16 d) m"
    have "store_word (a + 12) w (store_word (a + 8) w (store_word (a + 4) w (store_word a w m))) = ?m"
      using write_replicate [of a 4 4 d m] write_replicate [of a 8 4 d m] write_replicate [of a 12 4 d m]
      by (simp add: store_word_replicate [OF "1.prems"])
    then obtain k c where k: "unat (count - 16) = k + unat c"
      "set_big w a count m = (a + 16 + of_nat k, c, write_bytes (a + 16) (replicate k d) ?m)"
      using "1.IH" [OF True refl refl refl refl "1.prems"] True by (auto simp: set_big.simps [of w a count] Let_def)
    then have "unat count = (16 + k) + unat c" using unat_sub_add [OF True] by simp
    then show ?thesis using k(2) write_replicate [of a 16 k d m] by (intro exI [of _ "16 + k"] exI [of _ c]) simp
  next
    case False
    then show ?thesis by (intro exI [of _ 0] exI [of _ count]) (simp add: set_big.simps [of w a count])
  qed
qed

lemma set_little_bytes:
  assumes "word_bytes w = replicate 4 d"
  shows "\<exists>k c. unat count = k + unat c \<and> set_little w a count m = (a + of_nat k, c, write_bytes a (replicate k d) m)"
  using assms
proof (induction w a count m rule: set_little.induct)
  case (1 w a count m)
  show ?case
  proof (cases "4 \<le> count")
    case True
    let ?m = "write_bytes a (replicate 4 d) m"
    obtain k c where k: "unat (count - 4) = k + unat c"
      "set_little w a count m = (a + 4 + of_nat k, c, write_bytes (a + 4) (replicate k d) ?m)"
      using 1 True by (auto simp: set_little.simps [of w a count] store_word_replicate)
    then have "unat count = (4 + k) + unat c" using unat_sub_add [OF True] by simp
    then show ?thesis using k(2) write_replicate [of a 4 k d m] by (intro exI [of _ "4 + k"] exI [of _ c]) simp
  next
    case False
    then show ?thesis by (intro exI [of _ 0] exI [of _ count]) (simp add: set_little.simps [of w a count])
  qed
qed

lemma low_byte: "(c :: u32) AND 0xff = take_bit 8 c"
  by (simp add: take_bit_eq_mask mask_eq_exp_minus_1)

lemma fill_word_bytes:
  "ucast (fill_word (take_bit 8 c)) = (ucast c :: u8)" "ucast (drop_bit 8 (fill_word (take_bit 8 c))) = (ucast c :: u8)"
  "ucast (drop_bit 16 (fill_word (take_bit 8 c))) = (ucast c :: u8)"
  "ucast (drop_bit 24 (fill_word (take_bit 8 c))) = (ucast c :: u8)"
  unfolding fill_word_def Let_def by (intro bit_word_eqI; auto simp: bit_simps)+

lemma replicate_4: "replicate 4 x = [x, x, x, x]"
  by (simp add: numeral_eq_Suc)

lemma word_bytes_fill: "word_bytes (fill_word (take_bit 8 c)) = replicate 4 (ucast c)"
  by (simp add: word_bytes_def fill_word_bytes replicate_4)

text \<open>\<^verbatim>\<open>rt_memset\<close> with its word stores is the plain fill: exactly the \<open>count\<close> bytes from \<open>s\<close> on get the low byte of \<open>c\<close>, for every address,
  alignment and count, and the address is returned.\<close>

theorem rt_memset_fills:
  "rt_memset s c count m = (s, write_bytes s (replicate (unat count) (ucast c)) m)"
proof -
  let ?w = "fill_word (take_bit 8 c)" and ?d = "ucast c :: u8"
  have d: "ucast (take_bit 8 c) = ?d" by (intro bit_word_eqI) (auto simp: bit_simps)
  obtain k c1 where k: "unat count = k + unat c1"
    "set_big ?w s count m = (s + of_nat k, c1, write_bytes s (replicate k ?d) m)"
    using set_big_bytes [OF word_bytes_fill] by blast
  obtain j c2 where j: "unat c1 = j + unat c2"
    "set_little ?w (s + of_nat k) c1 (write_bytes s (replicate k ?d) m) =
      (s + of_nat k + of_nat j, c2, write_bytes (s + of_nat k) (replicate j ?d) (write_bytes s (replicate k ?d) m))"
    using set_little_bytes [OF word_bytes_fill] by blast
  have "write_bytes (s + of_nat k + of_nat j) (replicate (unat c2) ?d)
      (write_bytes (s + of_nat k) (replicate j ?d) (write_bytes s (replicate k ?d) m)) =
    write_bytes s (replicate (unat count) ?d) m"
    using write_replicate [of s "k + j" "unat c2" ?d m] k(1) j(1) by (simp add: write_replicate add.assoc)
  then show ?thesis
    by (simp add: rt_memset_def Let_def low_byte d k(2) j(2) set_loop_bytes)
qed

section \<open>Copying\<close>

lemma word_bytes_load: "word_bytes (load_word m a) = read_bytes m a 4"
proof -
  have "ucast (load_word m a) = m a" "ucast (drop_bit 8 (load_word m a)) = m (a + 1)"
    "ucast (drop_bit 16 (load_word m a)) = m (a + 2)" "ucast (drop_bit 24 (load_word m a)) = m (a + 3)"
    unfolding load_word_def by (intro bit_word_eqI; auto simp: bit_simps dest: bit_imp_le_length)+
  moreover have "read_bytes m a 4 = [m a, m (a + 1), m (a + 2), m (a + 3)]" by (simp add: numeral_eq_Suc add.assoc)
  ultimately show ?thesis by (simp add: word_bytes_def)
qed

lemma copy_word_bytes: "copy_word d s m = write_bytes d (read_bytes m s 4) m"
  by (simp add: copy_word_def store_word_def word_bytes_load)

definition clear_of :: "u32 \<Rightarrow> u32 \<Rightarrow> nat \<Rightarrow> bool" where
  "clear_of d s n \<longleftrightarrow> (\<forall>i < n. \<forall>j < n. d + of_nat i \<noteq> s + of_nat j)"

lemma write_bytes_other: "(\<And>i. i < length xs \<Longrightarrow> a + of_nat i \<noteq> b) \<Longrightarrow> write_bytes a xs m b = m b"
proof (induction xs arbitrary: a m)
  case (Cons x xs)
  have "a + 1 + of_nat i \<noteq> b" if "i < length xs" for i using Cons.prems [of "Suc i"] that by (simp add: add.assoc)
  then have "write_bytes (a + 1) xs (m(a := x)) b = (m(a := x)) b" by (rule Cons.IH)
  then show ?case using Cons.prems [of 0] by simp
qed simp

lemma read_bytes_cong: "(\<And>j. j < n \<Longrightarrow> m' (s + of_nat j) = m (s + of_nat j)) \<Longrightarrow> read_bytes m' s n = read_bytes m s n"
  by (rule nth_equalityI) (simp_all add: nth_read_bytes)

text \<open>Copying a part and then the rest.\<close>

lemma copy_parts:
  assumes "clear_of d s (k + n)"
  shows "write_bytes (d + of_nat k) (read_bytes (write_bytes d (read_bytes m s k) m) (s + of_nat k) n)
      (write_bytes d (read_bytes m s k) m) = write_bytes d (read_bytes m s (k + n)) m"
proof -
  have "read_bytes (write_bytes d (read_bytes m s k) m) (s + of_nat k) n = read_bytes m (s + of_nat k) n"
  proof (rule read_bytes_cong, rule write_bytes_other)
    fix j i
    assume "j < n" "i < length (read_bytes m s k)"
    then show "d + of_nat i \<noteq> s + of_nat k + of_nat j"
      using assms [unfolded clear_of_def, rule_format, of i "k + j"] by (simp add: add.assoc)
  qed
  then show ?thesis using write_bytes_append [of d "read_bytes m s k" "read_bytes m (s + of_nat k) n" m]
    by (simp add: read_bytes_add)
qed

lemma clear_less: "clear_of d s n \<Longrightarrow> k \<le> n \<Longrightarrow> clear_of d s k"
  by (auto simp: clear_of_def)

lemma clear_shift:
  assumes "clear_of d s (k + n)" shows "clear_of (d + of_nat k) (s + of_nat k) n"
  unfolding clear_of_def
proof (intro allI impI)
  fix i j
  assume "i < n" "j < n"
  then show "d + of_nat k + of_nat i \<noteq> s + of_nat k + of_nat j"
    using assms [unfolded clear_of_def, rule_format, of "k + i" "k + j"] by (simp add: add.assoc)
qed

text \<open>Byte by byte upwards is right as long as no byte is overwritten before it is read, and downwards likewise.\<close>

lemma copy_loop_bytes:
  assumes "\<And>i j. i < j \<Longrightarrow> j < n \<Longrightarrow> d + of_nat i \<noteq> s + of_nat j"
  shows "copy_loop n d s m = write_bytes d (read_bytes m s n) m"
  using assms
proof (induction n arbitrary: d s m)
  case (Suc n)
  have "d + 1 + of_nat i \<noteq> s + 1 + of_nat j" if "i < j" "j < n" for i j
    using Suc.prems [of "Suc i" "Suc j"] that by (simp add: add.assoc)
  then have "copy_loop n (d + 1) (s + 1) (m(d := m s)) =
      write_bytes (d + 1) (read_bytes (m(d := m s)) (s + 1) n) (m(d := m s))"
    by (rule Suc.IH)
  moreover have "read_bytes (m(d := m s)) (s + 1) n = read_bytes m (s + 1) n"
  proof (rule read_bytes_cong)
    fix j
    assume "j < n"
    then show "(m(d := m s)) (s + 1 + of_nat j) = m (s + 1 + of_nat j)"
      using Suc.prems [of 0 "Suc j"] by (simp add: add.assoc)
  qed
  ultimately show ?case by simp
qed simp

lemma write_bytes_upd:
  assumes "\<And>i. i < length xs \<Longrightarrow> a + of_nat i \<noteq> b"
  shows "write_bytes a xs (m(b := v)) = (write_bytes a xs m)(b := v)"
  using assms
proof (induction xs arbitrary: a m)
  case (Cons x xs)
  have "a + 1 + of_nat i \<noteq> b" if "i < length xs" for i using Cons.prems [of "Suc i"] that by (simp add: add.assoc)
  then have "write_bytes (a + 1) xs ((m(a := x))(b := v)) = (write_bytes (a + 1) xs (m(a := x)))(b := v)" by (rule Cons.IH)
  moreover have "a \<noteq> b" using Cons.prems [of 0] by simp
  ultimately show ?case by (metis fun_upd_twist write_bytes.simps(2))
qed simp

lemma copy_down_bytes:
  assumes "\<And>i j. j < i \<Longrightarrow> i < n \<Longrightarrow> d + of_nat i \<noteq> s + of_nat j" "n \<le> 2 ^ 32"
  shows "copy_down n (d + of_nat n) (s + of_nat n) m = write_bytes d (read_bytes m s n) m"
  using assms
proof (induction n arbitrary: m)
  case (Suc n)
  let ?m = "m(d + of_nat n := m (s + of_nat n))"
  have "copy_down (Suc n) (d + of_nat (Suc n)) (s + of_nat (Suc n)) m = copy_down n (d + of_nat n) (s + of_nat n) ?m"
    by (simp add: algebra_simps)
  also have "\<dots> = write_bytes d (read_bytes ?m s n) ?m" using Suc.prems by (intro Suc.IH) auto
  also have "read_bytes ?m s n = read_bytes m s n"
  proof (rule read_bytes_cong)
    fix j
    assume "j < n"
    then show "?m (s + of_nat j) = m (s + of_nat j)" using Suc.prems(1) [of j n] by simp
  qed
  also have "write_bytes d (read_bytes m s n) ?m = (write_bytes d (read_bytes m s n) m)(d + of_nat n := m (s + of_nat n))"
  proof (rule write_bytes_upd)
    fix i
    assume "i < length (read_bytes m s n)"
    then show "d + of_nat i \<noteq> d + of_nat n"
      using Suc.prems(2) by (simp add: of_nat_eq_iff word_of_nat_eq_iff take_bit_nat_eq_self)
  qed
  also have "\<dots> = write_bytes d (read_bytes m s (Suc n)) m"
    using read_bytes_add [of m s n 1] write_bytes_append [of d "read_bytes m s n" "[m (s + of_nat n)]" m] by simp
  finally show ?case .
qed simp

lemma copy_loop_clear:
  assumes "clear_of d s n" shows "copy_loop n d s m = write_bytes d (read_bytes m s n) m"
proof (rule copy_loop_bytes)
  fix i j assume "i < j" "j < n"
  then show "d + of_nat i \<noteq> s + of_nat j" using assms by (auto simp: clear_of_def)
qed

lemma copy_big_bytes:
  assumes "clear_of d s (unat len)"
  shows "\<exists>k l. unat len = k + unat l \<and>
    copy_big d s len m = (d + of_nat k, s + of_nat k, l, write_bytes d (read_bytes m s k) m)"
  using assms
proof (induction d s len m rule: copy_big.induct)
  case (1 d s len m)
  show ?case
  proof (cases "16 \<le> len")
    case True
    let ?m = "write_bytes d (read_bytes m s 16) m"
    have len: "unat len = 16 + unat (len - 16)" using unat_sub_add [OF True] by simp
    have ap: "clear_of d s 16" using clear_less [OF "1.prems", of 16] len by simp
    have m: "copy_word (d + 12) (s + 12) (copy_word (d + 8) (s + 8) (copy_word (d + 4) (s + 4) (copy_word d s m))) = ?m"
      using copy_parts [of d s 4 4 m] copy_parts [of d s 8 4 m] copy_parts [of d s 12 4 m] ap
        clear_less [OF ap, of 8] clear_less [OF ap, of 12] by (simp add: copy_word_bytes)
    have "clear_of (d + of_nat 16) (s + of_nat 16) (unat (len - 16))" using "1.prems" len by (intro clear_shift) simp
    then obtain k l where k: "unat (len - 16) = k + unat l"
      "copy_big (d + 16) (s + 16) (len - 16) ?m =
        (d + 16 + of_nat k, s + 16 + of_nat k, l, write_bytes (d + 16) (read_bytes ?m (s + 16) k) ?m)"
      using "1.IH" [OF True refl refl refl refl, unfolded m] by auto
    have "clear_of d s (16 + k)" using clear_less [OF "1.prems", of "16 + k"] len k(1) by simp
    then have "write_bytes (d + 16) (read_bytes ?m (s + 16) k) ?m = write_bytes d (read_bytes m s (16 + k)) m"
      using copy_parts [of d s 16 k m] by simp
    then show ?thesis using k len True m
      by (intro exI [of _ "16 + k"] exI [of _ l]) (simp add: copy_big.simps [of d s len] add.assoc)
  next
    case False
    then show ?thesis by (intro exI [of _ 0] exI [of _ len]) (simp add: copy_big.simps [of d s len])
  qed
qed

lemma copy_little_bytes:
  assumes "clear_of d s (unat len)"
  shows "\<exists>k l. unat len = k + unat l \<and>
    copy_little d s len m = (d + of_nat k, s + of_nat k, l, write_bytes d (read_bytes m s k) m)"
  using assms
proof (induction d s len m rule: copy_little.induct)
  case (1 d s len m)
  show ?case
  proof (cases "4 \<le> len")
    case True
    let ?m = "write_bytes d (read_bytes m s 4) m"
    have len: "unat len = 4 + unat (len - 4)" using unat_sub_add [OF True] by simp
    have "clear_of (d + of_nat 4) (s + of_nat 4) (unat (len - 4))" using "1.prems" len by (intro clear_shift) simp
    then obtain k l where k: "unat (len - 4) = k + unat l"
      "copy_little (d + 4) (s + 4) (len - 4) ?m =
        (d + 4 + of_nat k, s + 4 + of_nat k, l, write_bytes (d + 4) (read_bytes ?m (s + 4) k) ?m)"
      using "1.IH" [OF True, unfolded copy_word_bytes] by auto
    have "clear_of d s (4 + k)" using clear_less [OF "1.prems", of "4 + k"] len k(1) by simp
    then have "write_bytes (d + 4) (read_bytes ?m (s + 4) k) ?m = write_bytes d (read_bytes m s (4 + k)) m"
      using copy_parts [of d s 4 k m] by simp
    then show ?thesis using k len True
      by (intro exI [of _ "4 + k"] exI [of _ l]) (simp add: copy_little.simps [of d s len] copy_word_bytes add.assoc)
  next
    case False
    then show ?thesis by (intro exI [of _ 0] exI [of _ len]) (simp add: copy_little.simps [of d s len])
  qed
qed

lemma rt_memcpy_clear:
  assumes "clear_of dst src (unat count)"
  shows "rt_memcpy dst src count m = (dst, write_bytes dst (read_bytes m src (unat count)) m)"
proof -
  obtain k l where k: "unat count = k + unat l"
    "copy_big dst src count m = (dst + of_nat k, src + of_nat k, l, write_bytes dst (read_bytes m src k) m)"
    using copy_big_bytes [OF assms] by blast
  let ?m = "write_bytes dst (read_bytes m src k) m"
  have ap: "clear_of (dst + of_nat k) (src + of_nat k) (unat l)" using assms k(1) by (intro clear_shift) simp
  obtain j l' where j: "unat l = j + unat l'" "copy_little (dst + of_nat k) (src + of_nat k) l ?m =
      (dst + of_nat k + of_nat j, src + of_nat k + of_nat j, l',
       write_bytes (dst + of_nat k) (read_bytes ?m (src + of_nat k) j) ?m)"
    using copy_little_bytes [OF ap] by blast
  have m2: "write_bytes (dst + of_nat k) (read_bytes ?m (src + of_nat k) j) ?m = write_bytes dst (read_bytes m src (k + j)) m"
    using assms k(1) j(1) by (intro copy_parts clear_less [OF assms]) simp
  have n: "unat count = (k + j) + unat l'" using k(1) j(1) by simp
  have "copy_loop (unat l') (dst + of_nat (k + j)) (src + of_nat (k + j)) (write_bytes dst (read_bytes m src (k + j)) m) =
      write_bytes dst (read_bytes m src (unat count)) m"
    using copy_loop_clear [OF clear_shift [of dst src "k + j" "unat l'"]] copy_parts [of dst src "k + j" "unat l'" m]
      assms n by simp
  then show ?thesis using copy_loop_clear [OF assms] by (simp add: rt_memcpy_def k(2) j(2) m2 add.assoc)
qed

text \<open>C38: \<^verbatim>\<open>rt_memcpy\<close> with its word copies moves exactly the \<open>count\<close> bytes from \<open>src\<close> to \<open>dst\<close>, for every alignment and count, when the two regions are
  apart.\<close>

theorem rt_memcpy_copies:
  assumes "clear_of dst src (unat count)"
  shows "rt_memcpy dst src count m = (dst, write_bytes dst (read_bytes m src (unat count)) m)"
  using assms by (rule rt_memcpy_clear)

text \<open>The hypothesis of \<^verbatim>\<open>rt_memcpy\<close> for regions that do not wrap.\<close>

lemma unat_add_index: "unat (a :: u32) + i < 2 ^ 32 \<Longrightarrow> unat (a + of_nat i) = unat a + i"
  by (simp add: unat_word_ariths take_bit_nat_eq_self unsigned_of_nat)

lemma clear_ofI:
  assumes "unat d + n \<le> 2 ^ 32" "unat s + n \<le> 2 ^ 32" "unat d + n \<le> unat s \<or> unat s + n \<le> unat d"
  shows "clear_of d s n"
  unfolding clear_of_def
proof (intro allI impI notI)
  fix i j
  assume "i < n" "j < n" "d + of_nat i = s + of_nat j"
  then have "unat d + i = unat s + j" using assms unat_add_index [of d i] unat_add_index [of s j] by simp
  then show False using assms \<open>i < n\<close> \<open>j < n\<close> by linarith
qed

theorem rt_memcpy_copies_witness:
  "rt_memcpy 0x2000 0x1000 39 ucast = (0x2000, write_bytes 0x2000 (read_bytes ucast 0x1000 39) ucast)"
  using rt_memcpy_copies [of "0x2000" "0x1000" 39 ucast] by (simp add: clear_ofI)

text \<open>\<^verbatim>\<open>rt_memmove\<close> is right for regions that overlap in any way: the bytes that were at \<open>src\<close> before the call are at \<open>dest\<close> afterwards and no
  other byte changes, as long as the regions do not run over the end of the address space.\<close>

theorem rt_memmove_moves:
  assumes "unat dest + unat n < 2 ^ 32" "unat src + unat n < 2 ^ 32"
  shows "rt_memmove dest src n m = (dest, write_bytes dest (read_bytes m src (unat n)) m)"
proof -
  have at: "unat (dest + of_nat i) = unat dest + i" "unat (src + of_nat i) = unat src + i" if "i < unat n" for i
    using that assms by (simp_all add: unat_add_index)
  show ?thesis
  proof (cases "src < dest \<and> dest < src + n")
    case True
    have "copy_down (unat n) (dest + of_nat (unat n)) (src + of_nat (unat n)) m = write_bytes dest (read_bytes m src (unat n)) m"
    proof (rule copy_down_bytes)
      fix i j assume *: "j < i" "i < unat n"
      then have "unat (dest + of_nat i) \<noteq> unat (src + of_nat j)" using True at [of i] at [of j] by (simp add: word_less_nat_alt)
      then show "dest + of_nat i \<noteq> src + of_nat j" by metis
    qed (use unat_bound [of n] in simp)
    then show ?thesis using True by (simp add: rt_memmove_def)
  next
    case False
    have "unat (src + n) = unat src + unat n" using assms(2) by (simp add: unat_word_ariths)
    then have le: "unat dest \<le> unat src \<or> unat src + unat n \<le> unat dest"
      using False by (auto simp: word_less_nat_alt not_less)
    have "copy_loop (unat n) dest src m = write_bytes dest (read_bytes m src (unat n)) m"
    proof (rule copy_loop_bytes)
      fix i j assume *: "i < j" "j < unat n"
      then have "unat (dest + of_nat i) \<noteq> unat (src + of_nat j)" using le at [of i] at [of j] by auto
      then show "dest + of_nat i \<noteq> src + of_nat j" by metis
    qed
    then show ?thesis using False by (auto simp: rt_memmove_def)
  qed
qed

theorem rt_memmove_moves_witness:
  "rt_memmove 0x1004 0x1000 39 ucast = (0x1004, write_bytes 0x1004 (read_bytes ucast 0x1000 39) ucast)"
  using rt_memmove_moves [of "0x1004" 39 "0x1000" ucast] by simp

text \<open>What the bytes are after such a write, and that copying back restores them.\<close>

lemma read_write_bytes:
  assumes "length xs \<le> 2 ^ 32" shows "read_bytes (write_bytes a xs m) a (length xs) = xs"
proof (rule nth_equalityI)
  fix i
  assume "i < length (read_bytes (write_bytes a xs m) a (length xs))"
  then show "read_bytes (write_bytes a xs m) a (length xs) ! i = xs ! i"
    using assms by (simp add: nth_read_bytes write_bytes_at unsigned_of_nat take_bit_nat_eq_self)
qed simp

section \<open>Comparing\<close>

text \<open>The reference: the difference of the first bytes that differ.\<close>

primrec bytes_diff :: "u8 list \<Rightarrow> u8 list \<Rightarrow> int" where
  "bytes_diff [] ys = 0"
| "bytes_diff (x # xs) ys =
     (case ys of [] \<Rightarrow> 0 | y # ys \<Rightarrow> if x = y then bytes_diff xs ys else uint x - uint y)"

lemma memcmp_loop_diff: "memcmp_loop n cs ct m = bytes_diff (read_bytes m cs n) (read_bytes m ct n)"
  by (induction n arbitrary: cs ct) (simp_all add: Let_def flip: word_uint_eq_iff)

lemma bytes_diff_0: "length xs = length ys \<Longrightarrow> bytes_diff xs ys = 0 \<longleftrightarrow> xs = ys"
  by (induction xs ys rule: list_induct2) (simp_all flip: word_uint_eq_iff)

lemma bytes_diff_less:
  "length xs = length ys \<Longrightarrow> bytes_diff xs ys < 0 \<longleftrightarrow> (xs, ys) \<in> lexord {(a, b). a < b}"
  by (induction xs ys rule: list_induct2) (auto simp: word_less_def)

lemma rt_memcmp_order:
  "rt_memcmp cs ct count m = 0 \<longleftrightarrow> read_bytes m cs (unat count) = read_bytes m ct (unat count)"
  "rt_memcmp cs ct count m < 0 \<longleftrightarrow>
     (read_bytes m cs (unat count), read_bytes m ct (unat count)) \<in> lexord {(a, b). a < b}"
  by (simp_all add: rt_memcmp_def memcmp_loop_diff bytes_diff_0 bytes_diff_less)

end
