(* ===== verification/C_String.thy ===== *)
theory C_String
  imports Mem_Ops
begin

text \<open>
  The string functions of \<^verbatim>\<open>kservice.c\<close>. \<open>cstr m p xs\<close> says that the memory holds the characters \<open>xs\<close> at \<open>p\<close>, followed by a null character.
  A plain \<^verbatim>\<open>char\<close> of the processor is unsigned. Loops that look for the null character are partial functions; they
  return on every string. A null pointer is the address 0.
\<close>

section \<open>Operations\<close>

partial_function (option) strlen_loop :: "memory \<Rightarrow> u32 \<Rightarrow> u32 option" where
  "strlen_loop m sc = (if m sc \<noteq> 0 then strlen_loop m (sc + 1) else Some sc)"

definition rt_strlen :: "u32 \<Rightarrow> memory \<Rightarrow> u32 option" where
  "rt_strlen s m = do { sc \<leftarrow> strlen_loop m s; Some (sc - s) }"

partial_function (option) strnlen_loop :: "memory \<Rightarrow> u32 \<Rightarrow> u32 \<Rightarrow> u32 \<Rightarrow> u32 option" where
  "strnlen_loop m s maxlen sc =
     (if m sc \<noteq> 0 \<and> sc - s < maxlen then strnlen_loop m s maxlen (sc + 1) else Some sc)"

definition rt_strnlen :: "u32 \<Rightarrow> u32 \<Rightarrow> memory \<Rightarrow> u32 option" where
  "rt_strnlen s maxlen m = do { sc \<leftarrow> strnlen_loop m s maxlen s; Some (sc - s) }"

partial_function (option) strcmp_loop :: "memory \<Rightarrow> u32 \<Rightarrow> u32 \<Rightarrow> int option" where
  "strcmp_loop m cs ct =
     (if m cs \<noteq> 0 \<and> m cs = m ct then strcmp_loop m (cs + 1) (ct + 1) else Some (uint (m cs) - uint (m ct)))"

definition rt_strcmp :: "u32 \<Rightarrow> u32 \<Rightarrow> memory \<Rightarrow> int option" where
  "rt_strcmp cs ct m = strcmp_loop m cs ct"

text \<open>\<^verbatim>\<open>__res\<close> is a signed character, so that the difference loses its upper bits.\<close>

primrec strncmp_loop :: "nat \<Rightarrow> u32 \<Rightarrow> u32 \<Rightarrow> memory \<Rightarrow> int" where
  "strncmp_loop 0 cs ct m = 0"
| "strncmp_loop (Suc n) cs ct m =
     (let res = m cs - m ct in if res \<noteq> 0 \<or> m cs = 0 then sint res else strncmp_loop n (cs + 1) (ct + 1) m)"

definition rt_strncmp :: "u32 \<Rightarrow> u32 \<Rightarrow> u32 \<Rightarrow> memory \<Rightarrow> int" where
  "rt_strncmp cs ct count m = strncmp_loop (unat count) cs ct m"

definition fold_case :: "u8 \<Rightarrow> int" where
  "fold_case c = (if 65 \<le> c \<and> c \<le> 90 then uint c + 32 else uint c)"

partial_function (option) strcasecmp_loop :: "memory \<Rightarrow> u32 \<Rightarrow> u32 \<Rightarrow> int option" where
  "strcasecmp_loop m a b =
     (let ca = fold_case (m a); cb = fold_case (m b)
      in if ca = cb \<and> ca \<noteq> 0 then strcasecmp_loop m (a + 1) (b + 1) else Some (ca - cb))"

definition rt_strcasecmp :: "u32 \<Rightarrow> u32 \<Rightarrow> memory \<Rightarrow> u32 option" where
  "rt_strcasecmp a b m = map_option of_int (strcasecmp_loop m a b)"

primrec strncpy_loop :: "nat \<Rightarrow> u32 \<Rightarrow> u32 \<Rightarrow> memory \<Rightarrow> memory" where
  "strncpy_loop 0 d s m = m"
| "strncpy_loop (Suc n) d s m =
     (let c = m s; m = m(d := c) in if c = 0 then set_loop n (d + 1) 0 m else strncpy_loop n (d + 1) (s + 1) m)"

definition rt_strncpy :: "u32 \<Rightarrow> u32 \<Rightarrow> u32 \<Rightarrow> memory \<Rightarrow> u32 \<times> memory" where
  "rt_strncpy dst src n m = (dst, strncpy_loop (unat n) dst src m)"

function strstr_loop :: "u32 \<Rightarrow> u32 \<Rightarrow> int \<Rightarrow> int \<Rightarrow> memory \<Rightarrow> u32" where
  "strstr_loop s1 s2 l1 l2 m =
     (if l1 \<ge> l2 then
        (if rt_memcmp s1 s2 (of_int l2) m = 0 then s1 else strstr_loop (s1 + 1) s2 (l1 - 1) l2 m)
      else 0)"
  by pat_completeness auto
termination
  by (relation "measure (\<lambda>(s1, s2, l1, l2, m). nat (l1 - l2 + 1))") auto

declare strstr_loop.simps [simp del]

definition rt_strstr :: "u32 \<Rightarrow> u32 \<Rightarrow> memory \<Rightarrow> u32 option" where
  "rt_strstr s1 s2 m = do {
     l2 \<leftarrow> map_option sint (rt_strlen s2 m);
     if l2 = 0 then Some s1
     else do {
       l1 \<leftarrow> map_option sint (rt_strlen s1 m);
       Some (strstr_loop s1 s2 l1 l2 m)
     }
   }"

text \<open>\<^verbatim>\<open>rt_strdup\<close>; \<open>alloc n\<close> is the result of \<^verbatim>\<open>rt_malloc(n)\<close>, the address 0 if there is no room.\<close>

definition rt_strdup :: "(u32 \<Rightarrow> u32) \<Rightarrow> u32 \<Rightarrow> memory \<Rightarrow> (u32 \<times> memory) option" where
  "rt_strdup alloc s m = do {
     n \<leftarrow> rt_strlen s m;
     let len = n + 1;
     let tmp = alloc len;
     if tmp = 0 then Some (0, m)
     else Some (tmp, snd (rt_memcpy tmp s len m))
   }"

section \<open>Strings in memory\<close>

primrec cstr :: "memory \<Rightarrow> u32 \<Rightarrow> u8 list \<Rightarrow> bool" where
  "cstr m p [] \<longleftrightarrow> m p = 0"
| "cstr m p (x # xs) \<longleftrightarrow> m p = x \<and> x \<noteq> 0 \<and> cstr m (p + 1) xs"

lemma cstr_unique: "cstr m p xs \<Longrightarrow> cstr m p ys \<Longrightarrow> xs = ys"
proof (induction xs arbitrary: p ys)
  case Nil
  then show ?case by (cases ys) auto
next
  case (Cons x xs)
  then show ?case by (cases ys) auto
qed

lemma cstr_iff: "cstr m p xs \<longleftrightarrow> read_bytes m p (length xs) = xs \<and> 0 \<notin> set xs \<and> m (p + of_nat (length xs)) = 0"
  by (induction xs arbitrary: p) (auto simp: add.assoc)

lemma cstr_read: "cstr m p xs \<Longrightarrow> read_bytes m p (length xs) = xs"
  by (simp add: cstr_iff)

lemma cstr_read_null: "cstr m p xs \<Longrightarrow> read_bytes m p (length xs + 1) = xs @ [0]"
  using read_bytes_add [of m p "length xs" 1] by (simp add: cstr_iff)

lemma cstr_nonzero: "cstr m p xs \<Longrightarrow> 0 \<notin> set xs"
  by (simp add: cstr_iff)

lemma cstr_cong:
  assumes "\<And>j. j \<le> length xs \<Longrightarrow> m' (p + of_nat j) = m (p + of_nat j)"
  shows "cstr m' p xs = cstr m p xs"
  using assms read_bytes_cong [of "length xs" m' p m] by (simp add: cstr_iff)

lemma cstr_write:
  assumes "0 \<notin> set xs" "length xs < 2 ^ 32" shows "cstr (write_bytes p (xs @ [0]) m) p xs"
proof -
  have "read_bytes (write_bytes p (xs @ [0]) m) p (length xs + 1) = xs @ [0]"
    using read_write_bytes [of "xs @ [0]" p m] assms(2) by simp
  then show ?thesis
    using assms(1) read_bytes_add [of "write_bytes p (xs @ [0]) m" p "length xs" 1] by (simp add: cstr_iff)
qed

section \<open>Lengths\<close>

lemma strlen_loop_cstr: "cstr m s xs \<Longrightarrow> strlen_loop m s = Some (s + of_nat (length xs))"
proof (induction xs arbitrary: s)
  case Nil
  then show ?case by (simp add: strlen_loop.simps [of m s])
next
  case (Cons x xs)
  then show ?case using Cons.IH [of "s + 1"] by (simp add: strlen_loop.simps [of m s] add.assoc)
qed

lemma rt_strlen_cstr: "cstr m s xs \<Longrightarrow> rt_strlen s m = Some (of_nat (length xs))"
  by (simp add: rt_strlen_def strlen_loop_cstr)

text \<open>\<^verbatim>\<open>rt_strnlen\<close> reads the character at \<open>maxlen\<close>, one more than it reports.\<close>

lemma strnlen_loop_cstr:
  assumes "cstr m (s + of_nat k) xs" "k \<le> unat maxlen"
  shows "strnlen_loop m s maxlen (s + of_nat k) = Some (s + of_nat (min (k + length xs) (unat maxlen)))"
  using assms
proof (induction xs arbitrary: k)
  case Nil
  then show ?case by (simp add: strnlen_loop.simps [of m s maxlen "s + of_nat k"])
next
  case (Cons x xs)
  have k: "unat (of_nat k :: u32) = k" using Cons.prems(2) unat_bound [of maxlen]
    by (simp add: unsigned_of_nat take_bit_nat_eq_self)
  show ?case
  proof (cases "k < unat maxlen")
    case True
    then have "strnlen_loop m s maxlen (s + of_nat k) = strnlen_loop m s maxlen (s + of_nat (Suc k))"
      using Cons.prems(1) k by (simp add: strnlen_loop.simps [of m s maxlen "s + of_nat k"] word_less_nat_alt algebra_simps)
    then show ?thesis using Cons.IH [of "Suc k"] Cons.prems True by (simp add: algebra_simps)
  next
    case False
    then have "strnlen_loop m s maxlen (s + of_nat k) = Some (s + of_nat k)"
      using k by (simp add: strnlen_loop.simps [of m s maxlen "s + of_nat k"] word_less_nat_alt)
    then show ?thesis using False Cons.prems(2) by (simp add: min_def)
  qed
qed

lemma rt_strnlen_cstr: "cstr m s xs \<Longrightarrow> rt_strnlen s maxlen m = Some (of_nat (min (length xs) (unat maxlen)))"
  using strnlen_loop_cstr [of m s 0 xs maxlen] by (simp add: rt_strnlen_def)

section \<open>Comparison\<close>

text \<open>The order of strings: the difference of the first characters that differ, the end counting as 0.\<close>

fun str_diff :: "u8 list \<Rightarrow> u8 list \<Rightarrow> int" where
  "str_diff [] [] = 0"
| "str_diff [] (y # ys) = - uint y"
| "str_diff (x # xs) [] = uint x"
| "str_diff (x # xs) (y # ys) = (if x = y then str_diff xs ys else uint x - uint y)"

lemma strcmp_loop_cstr: "cstr m p xs \<Longrightarrow> cstr m q ys \<Longrightarrow> strcmp_loop m p q = Some (str_diff xs ys)"
  by (induction xs ys arbitrary: p q rule: str_diff.induct) (simp_all add: strcmp_loop.simps [of m])

lemma uint_zero_iff: "uint (x :: u8) = 0 \<longleftrightarrow> x = 0"
  by (simp add: word_uint_eq_iff)

lemma str_diff_0: "0 \<notin> set xs \<Longrightarrow> 0 \<notin> set ys \<Longrightarrow> str_diff xs ys = 0 \<longleftrightarrow> xs = ys"
  by (induction xs ys rule: str_diff.induct) (auto simp: uint_zero_iff simp flip: word_uint_eq_iff)

lemma str_diff_less:
  "0 \<notin> set xs \<Longrightarrow> 0 \<notin> set ys \<Longrightarrow> str_diff xs ys < 0 \<longleftrightarrow> (xs, ys) \<in> lexord {(a, b). a < b}"
  by (induction xs ys rule: str_diff.induct) (auto simp: word_less_def uint_zero_iff order_less_le)

text \<open>\<^verbatim>\<open>rt_strcmp\<close> returns on every two strings, gives 0 exactly for equal strings and a negative number exactly when the first string comes
  first in the lexicographic order of its (unsigned) characters.\<close>

theorem rt_strcmp_order:
  assumes "cstr m cs xs" "cstr m ct ys"
  shows "\<exists>r. rt_strcmp cs ct m = Some r \<and> (r = 0 \<longleftrightarrow> xs = ys) \<and> (r < 0 \<longleftrightarrow> (xs, ys) \<in> lexord {(a, b). a < b})"
  using strcmp_loop_cstr [OF assms] str_diff_0 str_diff_less cstr_nonzero [OF assms(1)] cstr_nonzero [OF assms(2)]
  by (simp add: rt_strcmp_def)

text \<open>\<^verbatim>\<open>rt_strncmp\<close> tells equality up to \<open>count\<close> characters. Its sign is that of the difference modulo 256 and can be wrong.\<close>

lemma strncmp_loop_0:
  assumes "cstr m p xs" "cstr m q ys"
  shows "strncmp_loop n p q m = 0 \<longleftrightarrow> take n xs = take n ys"
  using assms
proof (induction n arbitrary: p q xs ys)
  case (Suc n)
  have "sint (x :: u8) = 0 \<longleftrightarrow> x = 0" for x by (metis signed_0 signed_word_eqI)
  then show ?case using Suc by (cases xs; cases ys) (auto simp: Let_def)
qed simp

lemma rt_strncmp_equal:
  assumes "cstr m cs xs" "cstr m ct ys"
  shows "rt_strncmp cs ct count m = 0 \<longleftrightarrow> take (unat count) xs = take (unat count) ys"
  using strncmp_loop_0 [OF assms] by (simp add: rt_strncmp_def)

lemma rt_strncmp_wrong_sign:
  assumes "m cs = 0x81" "m ct = 0x01" "0 < count"
  shows "rt_strncmp cs ct count m < 0"
proof -
  obtain n where "unat count = Suc n" using assms(3) by (metis gr0_conv_Suc unat_gt_0 word_neq_0_conv)
  then show ?thesis using assms by (simp add: rt_strncmp_def)
qed

text \<open>\<^verbatim>\<open>rt_strcasecmp\<close> gives 0 exactly for strings that are equal up to the case of their letters.\<close>

lemma fold_case_range: "0 \<le> fold_case c" "fold_case c < 288" "fold_case c = 0 \<longleftrightarrow> c = 0"
  using uint_lt2p [of c] uint_zero_iff [of c] by (auto simp: fold_case_def) (use uint_ge_0 [of c] in linarith)

lemma fold_case_0 [simp]: "fold_case 0 = 0"
  by (simp add: fold_case_def)

lemma strcasecmp_loop_cstr:
  assumes "cstr m p xs" "cstr m q ys"
  shows "\<exists>r. strcasecmp_loop m p q = Some r \<and> \<bar>r\<bar> < 288 \<and> (r = 0 \<longleftrightarrow> map fold_case xs = map fold_case ys)"
  using assms
proof (induction xs ys arbitrary: p q rule: list_induct2')
  case (2 x xs)
  then show ?case
    using fold_case_range [of x] by (simp add: strcasecmp_loop.simps [of m p] Let_def abs_less_iff)
next
  case (3 y ys)
  then show ?case
    using fold_case_range [of y] by (auto simp: strcasecmp_loop.simps [of m p] Let_def abs_less_iff)
next
  case (4 x xs y ys)
  show ?case
  proof (cases "fold_case x = fold_case y")
    case True
    then show ?thesis
      using "4.prems" "4.IH" [of "p + 1" "q + 1"] fold_case_range(3) [of x] fold_case_range(3) [of y]
      by (simp add: strcasecmp_loop.simps [of m p] Let_def)
  next
    case False
    then show ?thesis
      using "4.prems" fold_case_range(1,2) [of x] fold_case_range(1,2) [of y]
      by (simp add: strcasecmp_loop.simps [of m p] Let_def abs_less_iff)
  qed
qed (simp add: strcasecmp_loop.simps [of m])

lemma rt_strcasecmp_equal:
  assumes "cstr m a xs" "cstr m b ys"
  shows "\<exists>r. rt_strcasecmp a b m = Some r \<and> (r = 0 \<longleftrightarrow> map fold_case xs = map fold_case ys)"
proof -
  obtain r where r: "strcasecmp_loop m a b = Some r" "\<bar>r\<bar> < 288" "r = 0 \<longleftrightarrow> map fold_case xs = map fold_case ys"
    using strcasecmp_loop_cstr [OF assms] by blast
  have "(of_int r :: u32) = 0 \<longleftrightarrow> r = 0"
  proof
    assume "(of_int r :: u32) = 0"
    then have "2 ^ 32 dvd r" by (simp add: word_of_int_eq_0_iff)
    then show "r = 0" using r(2) zdvd_imp_le [of "2 ^ 32" "\<bar>r\<bar>"] by fastforce
  qed simp
  then show ?thesis using r by (simp add: rt_strcasecmp_def)
qed

section \<open>Copies\<close>

lemma strncpy_loop_cstr:
  assumes "cstr m s xs" "\<And>i j. i < n \<Longrightarrow> j \<le> length xs \<Longrightarrow> d + of_nat i \<noteq> s + of_nat j"
  shows "strncpy_loop n d s m = write_bytes d (take n (xs @ replicate n 0)) m"
  using assms
proof (induction n arbitrary: d s xs m)
  case (Suc n)
  show ?case
  proof (cases xs)
    case Nil
    then show ?thesis using Suc.prems(1) by (simp add: Let_def set_loop_bytes)
  next
    case (Cons x ys)
    let ?m = "m(d := x)"
    have "cstr ?m (s + 1) ys = cstr m (s + 1) ys"
    proof (rule cstr_cong)
      fix j
      assume "j \<le> length ys"
      then show "?m (s + 1 + of_nat j) = m (s + 1 + of_nat j)" using Suc.prems(2) [of 0 "Suc j"] Cons by (simp add: add.assoc)
    qed
    moreover have "d + 1 + of_nat i \<noteq> s + 1 + of_nat j" if "i < n" "j \<le> length ys" for i j
      using Suc.prems(2) [of "Suc i" "Suc j"] that Cons by (simp add: add.assoc)
    ultimately have "strncpy_loop n (d + 1) (s + 1) ?m = write_bytes (d + 1) (take n (ys @ replicate n 0)) ?m"
      using Suc.prems(1) Cons by (intro Suc.IH) (simp_all del: fun_upd_apply)
    then show ?thesis using Suc.prems(1) Cons by (simp add: Let_def take_append replicate_append_same [symmetric])
  qed
qed simp

text \<open>\<^verbatim>\<open>rt_strncpy\<close> fills exactly \<open>n\<close> bytes: the characters, then nulls; a string of \<open>n\<close> or more characters stays without a null.\<close>

lemma rt_strncpy_pads:
  assumes "cstr m src xs" "\<And>i j. i < unat n \<Longrightarrow> j \<le> length xs \<Longrightarrow> dst + of_nat i \<noteq> src + of_nat j"
  shows "rt_strncpy dst src n m = (dst, write_bytes dst (take (unat n) (xs @ replicate (unat n) 0)) m)"
  using strncpy_loop_cstr [OF assms] by (simp add: rt_strncpy_def)

lemma rt_strdup_copies:
  assumes "cstr m s xs" "length xs < 2 ^ 32 - 1" "clear_of (alloc (of_nat (length xs) + 1)) s (length xs + 1)"
  shows "\<exists>p m'. rt_strdup alloc s m = Some (p, m') \<and>
    (if alloc (of_nat (length xs) + 1) = 0 then p = 0 \<and> m' = m else p = alloc (of_nat (length xs) + 1) \<and> cstr m' p xs)"
proof -
  let ?n = "of_nat (length xs) + 1 :: u32"
  have n: "unat ?n = length xs + 1" using assms(2) by (simp add: unat_word_ariths unsigned_of_nat take_bit_nat_eq_self)
  have "rt_memcpy (alloc ?n) s ?n m = (alloc ?n, write_bytes (alloc ?n) (xs @ [0]) m)"
    using rt_memcpy_clear [of "alloc ?n" s ?n m] assms(3) unfolding n cstr_read_null [OF assms(1)] by blast
  then have "cstr (snd (rt_memcpy (alloc ?n) s ?n m)) (alloc ?n) xs"
    using cstr_write [OF cstr_nonzero [OF assms(1)]] assms(2) by simp
  then show ?thesis
    using rt_strlen_cstr [OF assms(1)] by (cases "alloc ?n = 0") (simp_all add: rt_strdup_def Let_def)
qed

section \<open>Search\<close>

definition occurs_at :: "u8 list \<Rightarrow> u8 list \<Rightarrow> nat \<Rightarrow> bool" where
  "occurs_at ys xs i \<longleftrightarrow> take (length ys) (drop i xs) = ys"

lemma memcmp_occurs:
  assumes "cstr m s1 xs" "cstr m s2 ys" "i + length ys \<le> length xs" "unat l = length ys"
  shows "rt_memcmp (s1 + of_nat i) s2 l m = 0 \<longleftrightarrow> occurs_at ys xs i"
proof -
  have "read_bytes m (s1 + of_nat i) (length ys) = take (length ys) (drop i xs)"
  proof (rule nth_equalityI)
    fix j assume "j < length (read_bytes m (s1 + of_nat i) (length ys))"
    then have j: "j < length ys" by simp
    have "xs ! (i + j) = read_bytes m s1 (length xs) ! (i + j)" using cstr_read [OF assms(1)] by simp
    then show "read_bytes m (s1 + of_nat i) (length ys) ! j = take (length ys) (drop i xs) ! j"
      using j assms(3) by (simp add: nth_read_bytes add.assoc)
  qed (use assms(3) in simp)
  then show ?thesis using cstr_read [OF assms(2)] by (simp add: rt_memcmp_order(1) assms(4) occurs_at_def)
qed

lemma strstr_loop_find:
  assumes "cstr m s1 xs" "cstr m s2 ys" "length ys < 2 ^ 31" "i \<le> Suc (length xs)"
  shows "strstr_loop (s1 + of_nat i) s2 (int (length xs) - int i) (int (length ys)) m =
    (case find (occurs_at ys xs) [i ..< Suc (length xs) - length ys] of None \<Rightarrow> 0 | Some j \<Rightarrow> s1 + of_nat j)"
  using assms(4)
proof (induction "Suc (length xs) - i" arbitrary: i rule: less_induct)
  case less
  have l: "unat (of_nat (length ys) :: u32) = length ys" using assms(3) by (simp add: unsigned_of_nat take_bit_nat_eq_self)
  show ?case
  proof (cases "i + length ys \<le> length xs")
    case True
    then have u: "[i ..< Suc (length xs) - length ys] = i # [Suc i ..< Suc (length xs) - length ys]"
      by (simp add: upt_conv_Cons)
    have "strstr_loop (s1 + of_nat (Suc i)) s2 (int (length xs) - int (Suc i)) (int (length ys)) m =
        (case find (occurs_at ys xs) [Suc i ..< Suc (length xs) - length ys] of None \<Rightarrow> 0 | Some j \<Rightarrow> s1 + of_nat j)"
      using True by (intro less) simp_all
    then show ?thesis
      using True memcmp_occurs [OF assms(1,2) True l]
      by (subst strstr_loop.simps) (simp add: u algebra_simps)
  next
    case False
    then show ?thesis by (subst strstr_loop.simps) simp
  qed
qed

text \<open>\<^verbatim>\<open>rt_strstr\<close> finds the first occurrence of the second string in the first: the address of the first position at which it occurs, or a null pointer
  when it does not occur; the empty string occurs at the beginning. It returns on all strings.\<close>

theorem rt_strstr_first:
  assumes "cstr m s1 xs" "cstr m s2 ys" "length xs < 2 ^ 31" "length ys < 2 ^ 31"
  shows "rt_strstr s1 s2 m =
    Some (case find (occurs_at ys xs) [0 ..< Suc (length xs) - length ys] of None \<Rightarrow> 0 | Some i \<Rightarrow> s1 + of_nat i)"
proof -
  have len: "sint (of_nat k :: u32) = int k" if "k < 2 ^ 31" for k
    using that by (simp add: signed_of_nat signed_take_bit_int_eq_self_iff)
  show ?thesis
  proof (cases "ys = []")
    case True
    then have "find (occurs_at ys xs) [0 ..< Suc (length xs) - length ys] = Some 0"
      by (simp add: occurs_at_def upt_rec del: upt_Suc)
    then show ?thesis using rt_strlen_cstr [OF assms(2)] True by (simp add: rt_strstr_def)
  next
    case False
    then show ?thesis
      using strstr_loop_find [OF assms(1,2,4), of 0] rt_strlen_cstr [OF assms(1)] rt_strlen_cstr [OF assms(2)] len assms(3,4)
      by (simp add: rt_strstr_def)
  qed
qed

text \<open>An example: \<^verbatim>\<open>"aab"\<close> at address 16, \<^verbatim>\<open>"ab"\<close> at address 32.\<close>

definition str_example :: memory where
  "str_example = write_bytes 16 [97, 97, 98, 0] (write_bytes 32 [97, 98, 0] (\<lambda>a. 0))"

lemma str_example_cstr: "cstr str_example 16 [97, 97, 98]" "cstr str_example 32 [97, 98]"
  by (simp_all add: str_example_def)

theorem rt_strstr_first_witness: "rt_strstr 16 32 str_example = Some 17"
  using rt_strstr_first [OF str_example_cstr] by (simp add: occurs_at_def upt_conv_Cons)

theorem rt_strcmp_order_witness: "\<exists>r. rt_strcmp 16 32 str_example = Some r \<and> r < 0"
  using rt_strcmp_order [OF str_example_cstr] by auto

end
