(* ===== verification/Printf.thy ===== *)
theory Printf
  imports C_String
begin

text \<open>
  Formatted output (\<^verbatim>\<open>kservice.c\<close>): \<^verbatim>\<open>print_number\<close>, \<^verbatim>\<open>rt_vsnprintf\<close> and the functions on top of it. The format is the list of its characters; arguments are
  the 32-bit words that \<^verbatim>\<open>va_arg\<close> takes one after the other, and taking one more than there are has no result. Strings that are
  arguments are read from the memory into which the output goes. Widths and precisions are integers; numbers in a format that
  exceed the range of \<^verbatim>\<open>int\<close> are undefined in C.
\<close>

section \<open>Operations\<close>

abbreviation (input) ZEROPAD :: u8 where "ZEROPAD \<equiv> 1"
abbreviation (input) SIGN :: u8 where "SIGN \<equiv> 2"
abbreviation (input) PLUS :: u8 where "PLUS \<equiv> 4"
abbreviation (input) SPACE :: u8 where "SPACE \<equiv> 8"
abbreviation (input) LEFT :: u8 where "LEFT \<equiv> 16"
abbreviation (input) SPECIAL :: u8 where "SPECIAL \<equiv> 32"
abbreviation (input) LARGE :: u8 where "LARGE \<equiv> 64"

definition has :: "u8 \<Rightarrow> u8 \<Rightarrow> bool" where
  "has flags f \<longleftrightarrow> flags AND f \<noteq> 0"

text \<open>The position in the output and the memory; \<open>lim\<close> is the pointer \<^verbatim>\<open>end\<close>: \<^verbatim>\<open>if (str < end) *str = c; ++str\<close>.\<close>

type_synonym outp = "u32 \<times> memory"

definition put :: "u32 \<Rightarrow> u8 \<Rightarrow> outp \<Rightarrow> outp" where
  "put lim c out = (case out of (str, m) \<Rightarrow> (str + 1, if str < lim then m(str := c) else m))"

definition divide :: "u32 \<Rightarrow> nat \<Rightarrow> u32 \<times> u32" where
  "divide n base = (if base = 10 then (n mod 10, n div 10) else (n mod 16, n div 16))"

definition digit_char :: "bool \<Rightarrow> u32 \<Rightarrow> u8" where
  "digit_char large d = (if d < 10 then 48 + ucast d else if large then 55 + ucast d else 87 + ucast d)"

text \<open>The digits in the temporary buffer, the last one of the number first.\<close>

function digit_loop :: "bool \<Rightarrow> nat \<Rightarrow> u32 \<Rightarrow> u8 list \<Rightarrow> u8 list" where
  "digit_loop large base num tmp =
     (if num \<noteq> 0 then let (res, num) = divide num base in digit_loop large base num (tmp @ [digit_char large res])
      else tmp)"
  by pat_completeness auto
termination
proof (relation "measure (\<lambda>(large, base, num, tmp). unat num)", simp, goal_cases)
  case (1 large base num tmp x res num')
  then show ?case by (auto simp: divide_def unat_div unat_gt_0 split: if_splits)
qed

declare digit_loop.simps [simp del]

text \<open>\<^verbatim>\<open>while (size-- > 0) { if (buf < end) *buf = c; ++buf; }\<close>\<close>

function pad_loop :: "u32 \<Rightarrow> int \<Rightarrow> u8 \<Rightarrow> outp \<Rightarrow> int \<times> outp" where
  "pad_loop lim sz c out = (if sz > 0 then pad_loop lim (sz - 1) c (put lim c out) else (sz - 1, out))"
  by pat_completeness auto
termination
  by (relation "measure (\<lambda>(lim, sz, c, out). nat sz)") auto

declare pad_loop.simps [simp del]

definition number_tmp :: "bool \<Rightarrow> nat \<Rightarrow> u32 \<Rightarrow> u8 list" where
  "number_tmp large base num = (if num = 0 then [48] else digit_loop large base num [])"

definition get_sign :: "u8 \<Rightarrow> u32 \<Rightarrow> u8 \<times> u32" where
  "get_sign type num =
     (if has type SIGN then
        if sint num < 0 then (45, - num)
        else if has type PLUS then (43, num)
        else if has type SPACE then (32, num)
        else (0, num)
      else (0, num))"

definition print_number :: "u32 \<Rightarrow> u32 \<Rightarrow> nat \<Rightarrow> int \<Rightarrow> int \<Rightarrow> u8 \<Rightarrow> outp \<Rightarrow> outp" where
  "print_number lim num base s precision type out =
     (let type = (if has type LEFT then type AND NOT ZEROPAD else type);
          c = (if has type ZEROPAD then 48 else 32);
          (sign, num) = get_sign type num;
          tmp = number_tmp (has type LARGE) base num;
          i = int (length tmp);
          precision_bak = precision;
          precision = (if i > precision then i else precision);
          sz = s - precision;
          (sz, out) =
            (if \<not> has type (ZEROPAD OR LEFT) then pad_loop lim (if sign \<noteq> 0 \<and> sz > 0 then sz - 1 else sz) 32 out
             else (sz, out));
          (sz, out) = (if sign \<noteq> 0 then (sz - 1, put lim sign out) else (sz, out));
          (sz, out) = (if \<not> has type LEFT then pad_loop lim sz c out else (sz, out));
          (_, out) = pad_loop lim (precision - i) 48 out;
          out = (if precision_bak \<noteq> 0 then fold (put lim) (rev tmp) out else out);
          (_, out) = pad_loop lim sz 32 out
      in out)"

definition isdigit :: "u8 \<Rightarrow> bool" where
  "isdigit c \<longleftrightarrow> c - 48 < 10"

fun skip_atoi :: "int \<Rightarrow> u8 list \<Rightarrow> int \<times> u8 list" where
  "skip_atoi i (c # cs) = (if isdigit c then skip_atoi (i * 10 + uint c - 48) cs else (i, c # cs))"
| "skip_atoi i [] = (i, [])"

fun parse_flags :: "u8 \<Rightarrow> u8 list \<Rightarrow> u8 \<times> u8 list" where
  "parse_flags flags (c # cs) =
     (if c = 45 then parse_flags (flags OR LEFT) cs
      else if c = 43 then parse_flags (flags OR PLUS) cs
      else if c = 32 then parse_flags (flags OR SPACE) cs
      else if c = 35 then parse_flags (flags OR SPECIAL) cs
      else if c = 48 then parse_flags (flags OR ZEROPAD) cs
      else (flags, c # cs))"
| "parse_flags flags [] = (flags, [])"

fun va_arg :: "u32 list \<Rightarrow> (u32 \<times> u32 list) option" where
  "va_arg (a # args) = Some (a, args)"
| "va_arg [] = None"

definition parse_width :: "u8 \<Rightarrow> u8 list \<Rightarrow> u32 list \<Rightarrow> (u8 \<times> int \<times> u8 list \<times> u32 list) option" where
  "parse_width flags fmt args =
     (case fmt of
        [] \<Rightarrow> Some (flags, - 1, fmt, args)
      | c # cs \<Rightarrow>
          if isdigit c then (let (w, fmt) = skip_atoi 0 fmt in Some (flags, w, fmt, args))
          else if c = 42 then do {
            (a, args) \<leftarrow> va_arg args;
            Some (if sint a < 0 then (flags OR LEFT, - sint a, cs, args) else (flags, sint a, cs, args))
          }
          else Some (flags, - 1, fmt, args))"

definition parse_precision :: "u8 list \<Rightarrow> u32 list \<Rightarrow> (int \<times> u8 list \<times> u32 list) option" where
  "parse_precision fmt args =
     (case fmt of
        c # cs \<Rightarrow>
          if c = 46 then
            (case cs of
               d # ds \<Rightarrow>
                 if isdigit d then (let (p, fmt) = skip_atoi 0 cs in Some (if p < 0 then 0 else p, fmt, args))
                 else if d = 42 then do {
                   (a, args) \<leftarrow> va_arg args;
                   Some (if sint a < 0 then 0 else sint a, ds, args)
                 }
                 else Some (0, cs, args)
             | [] \<Rightarrow> Some (0, cs, args))
          else Some (- 1, fmt, args)
      | [] \<Rightarrow> Some (- 1, fmt, args))"

definition parse_qualifier :: "u8 list \<Rightarrow> u8 \<times> u8 list" where
  "parse_qualifier fmt = (case fmt of c # cs \<Rightarrow> if c = 104 \<or> c = 108 then (c, cs) else (0, fmt) | [] \<Rightarrow> (0, fmt))"

text \<open>\<^verbatim>\<open>while (--field_width > 0)\<close> and \<^verbatim>\<open>while (len < field_width--)\<close>, both with a space as the output.\<close>

function width_loop :: "u32 \<Rightarrow> int \<Rightarrow> outp \<Rightarrow> int \<times> outp" where
  "width_loop lim w out = (if w - 1 > 0 then width_loop lim (w - 1) (put lim 32 out) else (w - 1, out))"
  by pat_completeness auto
termination
  by (relation "measure (\<lambda>(lim, w, out). nat w)") auto

function len_loop :: "u32 \<Rightarrow> int \<Rightarrow> int \<Rightarrow> outp \<Rightarrow> int \<times> outp" where
  "len_loop lim len w out = (if len < w then len_loop lim len (w - 1) (put lim 32 out) else (w - 1, out))"
  by pat_completeness auto
termination
  by (relation "measure (\<lambda>(lim, len, w, out). nat (w - len))") auto

declare width_loop.simps [simp del] len_loop.simps [simp del]

primrec str_loop :: "u32 \<Rightarrow> nat \<Rightarrow> u32 \<Rightarrow> outp \<Rightarrow> outp" where
  "str_loop lim 0 s out = out"
| "str_loop lim (Suc n) s out = str_loop lim n (s + 1) (put lim (snd out s) out)"

definition null_text :: "u8 list" where
  "null_text = [40, 78, 85, 76, 76, 41]"

definition print_char :: "u32 \<Rightarrow> u8 \<Rightarrow> int \<Rightarrow> u32 \<Rightarrow> outp \<Rightarrow> outp" where
  "print_char lim flags w a out =
     (let (w, out) = (if \<not> has flags LEFT then width_loop lim w out else (w, out));
          out = put lim (ucast a) out;
          (w, out) = width_loop lim w out
      in out)"

definition print_string :: "u32 \<Rightarrow> u8 \<Rightarrow> int \<Rightarrow> int \<Rightarrow> u32 \<Rightarrow> outp \<Rightarrow> outp option" where
  "print_string lim flags w precision s out = do {
     len \<leftarrow> (if s = 0 then Some (int (length null_text)) else map_option sint (rt_strlen s (snd out)));
     let len = (if precision > 0 \<and> len > precision then precision else len);
     let (w, out) = (if \<not> has flags LEFT then len_loop lim len w out else (w, out));
     let out = (if s = 0 then fold (put lim) (take (nat len) null_text) out else str_loop lim (nat len) s out);
     let (w, out) = len_loop lim len w out;
     Some out
   }"

text \<open>The conversion of an integer, after the format has selected base and flags.\<close>

definition print_integer :: "u32 \<Rightarrow> u8 \<Rightarrow> int \<Rightarrow> int \<Rightarrow> u8 \<Rightarrow> nat \<Rightarrow> u32 \<Rightarrow> outp \<Rightarrow> outp" where
  "print_integer lim flags w precision qualifier base a out =
     (let num = (if qualifier = 104 then
                   (if has flags SIGN then scast (ucast a :: u16) else ucast (ucast a :: u16))
                 else a)
      in print_number lim num base w precision flags out)"

definition convert :: "u32 \<Rightarrow> u8 \<Rightarrow> u8 \<Rightarrow> int \<Rightarrow> int \<Rightarrow> u8 \<Rightarrow> u32 list \<Rightarrow> outp \<Rightarrow> (u32 list \<times> outp) option" where
  "convert lim k flags w precision qualifier args out =
     (let integer = (\<lambda>flags base. do {
            (a, args) \<leftarrow> va_arg args;
            Some (args, print_integer lim flags w precision qualifier base a out)
          })
      in if k = 99 then do { (a, args) \<leftarrow> va_arg args; Some (args, print_char lim flags w a out) }
      else if k = 115 then do {
        (a, args) \<leftarrow> va_arg args;
        out \<leftarrow> print_string lim flags w precision a out;
        Some (args, out)
      }
      else if k = 112 then do {
        let (w, flags) = (if w = - 1 then (8, flags OR ZEROPAD) else (w, flags));
        (a, args) \<leftarrow> va_arg args;
        Some (args, print_number lim a 16 w precision flags out)
      }
      else if k = 37 then Some (args, put lim 37 out)
      else if k = 111 then integer flags 8
      else if k = 88 then integer (flags OR LARGE) 16
      else if k = 120 then integer flags 16
      else if k = 100 \<or> k = 105 then integer (flags OR SIGN) 10
      else if k = 117 then integer flags 10
      else Some (args, put lim k (put lim 37 out)))"

definition parse_spec :: "u8 list \<Rightarrow> u32 list \<Rightarrow> (u8 \<times> int \<times> int \<times> u8 \<times> u8 list \<times> u32 list) option" where
  "parse_spec fmt args = do {
     let (flags, fmt) = parse_flags 0 fmt;
     (flags, w, fmt, args) \<leftarrow> parse_width flags fmt args;
     (precision, fmt, args) \<leftarrow> parse_precision fmt args;
     let (qualifier, fmt) = parse_qualifier fmt;
     Some (flags, w, precision, qualifier, fmt, args)
   }"

lemma skip_atoi_length: "length (snd (skip_atoi i fmt)) \<le> length fmt"
  by (induction i fmt rule: skip_atoi.induct) auto

lemma parse_flags_length: "length (snd (parse_flags fl fmt)) \<le> length fmt"
  by (induction fl fmt rule: parse_flags.induct) auto

lemma parse_width_length: "parse_width fl fmt args = Some (fl', w, fmt', args') \<Longrightarrow> length fmt' \<le> length fmt"
  using skip_atoi_length [of 0 fmt]
  by (auto simp: parse_width_def split: list.splits if_splits prod.splits bind_splits)

lemma parse_precision_length: "parse_precision fmt args = Some (p, fmt', args') \<Longrightarrow> length fmt' \<le> length fmt"
  using skip_atoi_length [of 0 "tl fmt"]
  by (auto simp: parse_precision_def split: list.splits if_splits prod.splits bind_splits)

lemma parse_spec_length: "parse_spec fmt args = Some (fl, w, p, q, fmt', args') \<Longrightarrow> length fmt' \<le> length fmt"
  using parse_flags_length [of 0 fmt]
  by (auto simp: parse_spec_def parse_qualifier_def dest!: parse_width_length parse_precision_length
      split: prod.splits bind_splits list.splits if_splits)

text \<open>The loop over the format. Where the format ends within a directive, the percent sign is put out.\<close>

function vsn_loop :: "u32 \<Rightarrow> u8 list \<Rightarrow> u32 list \<Rightarrow> outp \<Rightarrow> outp option" where
  "vsn_loop lim [] args out = Some out"
| "vsn_loop lim (c # fmt) args out =
     (if c \<noteq> 37 then vsn_loop lim fmt args (put lim c out)
      else case parse_spec fmt args of
        None \<Rightarrow> None
      | Some (flags, w, precision, qualifier, rest, args) \<Rightarrow>
          (case rest of
             [] \<Rightarrow> Some (put lim 37 out)
           | k # rest \<Rightarrow>
               (case convert lim k flags w precision qualifier args out of
                  None \<Rightarrow> None
                | Some (args, out) \<Rightarrow> vsn_loop lim rest args out)))"
  by pat_completeness auto
termination
  by (relation "measure (\<lambda>(lim, fmt, args, out). length fmt)") (auto dest!: parse_spec_length)

definition rt_vsnprintf :: "u32 \<Rightarrow> u32 \<Rightarrow> u8 list \<Rightarrow> u32 list \<Rightarrow> memory \<Rightarrow> (u32 \<times> memory) option" where
  "rt_vsnprintf buf sz fmt args m = do {
     let lim = buf + sz;
     let (lim, sz) = (if lim < buf then (- 1, - 1 - buf) else (lim, sz));
     (str, m) \<leftarrow> vsn_loop lim fmt args (buf, m);
     let m = (if sz > 0 then (if str < lim then m(str := 0) else m(lim - 1 := 0)) else m);
     Some (str - buf, m)
   }"

definition rt_snprintf :: "u32 \<Rightarrow> u32 \<Rightarrow> u8 list \<Rightarrow> u32 list \<Rightarrow> memory \<Rightarrow> (u32 \<times> memory) option" where
  "rt_snprintf buf sz fmt args m = rt_vsnprintf buf sz fmt args m"

definition rt_vsprintf :: "u32 \<Rightarrow> u8 list \<Rightarrow> u32 list \<Rightarrow> memory \<Rightarrow> (u32 \<times> memory) option" where
  "rt_vsprintf buf fmt args m = rt_vsnprintf buf (- 1) fmt args m"

definition rt_sprintf :: "u32 \<Rightarrow> u8 list \<Rightarrow> u32 list \<Rightarrow> memory \<Rightarrow> (u32 \<times> memory) option" where
  "rt_sprintf buf fmt args m = rt_vsprintf buf fmt args m"

section \<open>What is printed\<close>

text \<open>The reference: the text of each directive, laid out by flags, width and precision.\<close>

definition spaces :: "int \<Rightarrow> u8 list" where
  "spaces n = replicate (nat n) 32"

definition zeros :: "int \<Rightarrow> u8 list" where
  "zeros n = replicate (nat n) 48"

definition number_digits :: "bool \<Rightarrow> nat \<Rightarrow> u32 \<Rightarrow> u8 list" where
  "number_digits large base num = rev (number_tmp large base num)"

definition number_sign :: "u8 \<Rightarrow> u32 \<Rightarrow> u8 list" where
  "number_sign flags num =
     (if \<not> has flags SIGN then []
      else if sint num < 0 then [45] else if has flags PLUS then [43] else if has flags SPACE then [32] else [])"

definition number_text :: "u32 \<Rightarrow> nat \<Rightarrow> int \<Rightarrow> int \<Rightarrow> u8 \<Rightarrow> u8 list" where
  "number_text num base w precision flags =
     (let sign = number_sign flags num;
          digits = number_digits (has flags LARGE) base (if has flags SIGN \<and> sint num < 0 then - num else num);
          width = max (int (length digits)) precision;
          body = zeros (width - int (length digits)) @ (if precision = 0 then [] else digits);
          rest = w - width - int (length sign)
      in if has flags LEFT then sign @ body @ spaces rest
         else if has flags ZEROPAD then sign @ zeros rest @ body
         else spaces rest @ sign @ body)"

definition char_text :: "u8 \<Rightarrow> int \<Rightarrow> u8 \<Rightarrow> u8 list" where
  "char_text flags w c = (if has flags LEFT then c # spaces (w - 1) else spaces (w - 1) @ [c])"

definition string_text :: "u8 \<Rightarrow> int \<Rightarrow> int \<Rightarrow> u8 list \<Rightarrow> u8 list" where
  "string_text flags w precision xs =
     (let ys = (if precision > 0 then take (nat precision) xs else xs); pad = spaces (w - int (length ys))
      in if has flags LEFT then ys @ pad else pad @ ys)"

definition integer_text :: "u8 \<Rightarrow> int \<Rightarrow> int \<Rightarrow> u8 \<Rightarrow> nat \<Rightarrow> u32 \<Rightarrow> u8 list" where
  "integer_text flags w precision qualifier base a =
     number_text (if qualifier = 104 then (if has flags SIGN then scast (ucast a :: u16) else ucast (ucast a :: u16)) else a)
       base w precision flags"

text \<open>\<open>str\<close> tells the strings that can be printed, by their addresses.\<close>

definition convert_text ::
    "(u32 \<Rightarrow> u8 list option) \<Rightarrow> u8 \<Rightarrow> u8 \<Rightarrow> int \<Rightarrow> int \<Rightarrow> u8 \<Rightarrow> u32 list \<Rightarrow> (u32 list \<times> u8 list) option" where
  "convert_text str k flags w precision qualifier args =
     (let integer = (\<lambda>flags base. do {
            (a, args) \<leftarrow> va_arg args; Some (args, integer_text flags w precision qualifier base a) })
      in if k = 99 then do { (a, args) \<leftarrow> va_arg args; Some (args, char_text flags w (ucast a)) }
      else if k = 115 then do {
        (a, args) \<leftarrow> va_arg args;
        xs \<leftarrow> (if a = 0 then Some null_text else str a);
        Some (args, string_text flags w precision xs)
      }
      else if k = 112 then do {
        (a, args) \<leftarrow> va_arg args;
        Some (args, if w = - 1 then number_text a 16 8 precision (flags OR ZEROPAD) else number_text a 16 w precision flags)
      }
      else if k = 37 then Some (args, [37])
      else if k = 111 then integer flags 8
      else if k = 88 then integer (flags OR LARGE) 16
      else if k = 120 then integer flags 16
      else if k = 100 \<or> k = 105 then integer (flags OR SIGN) 10
      else if k = 117 then integer flags 10
      else Some (args, [37, k]))"

function vsn_text :: "(u32 \<Rightarrow> u8 list option) \<Rightarrow> u8 list \<Rightarrow> u32 list \<Rightarrow> u8 list option" where
  "vsn_text str [] args = Some []"
| "vsn_text str (c # fmt) args =
     (if c \<noteq> 37 then map_option ((#) c) (vsn_text str fmt args)
      else case parse_spec fmt args of
        None \<Rightarrow> None
      | Some (flags, w, precision, qualifier, rest, args) \<Rightarrow>
          (case rest of
             [] \<Rightarrow> Some [37]
           | k # rest \<Rightarrow>
               (case convert_text str k flags w precision qualifier args of
                  None \<Rightarrow> None
                | Some (args, text) \<Rightarrow> map_option ((@) text) (vsn_text str rest args))))"
  by pat_completeness auto
termination
  by (relation "measure (\<lambda>(str, fmt, args). length fmt)") (auto dest!: parse_spec_length)

section \<open>Each conversion prints its text\<close>

abbreviation puts :: "u32 \<Rightarrow> u8 list \<Rightarrow> outp \<Rightarrow> outp" where
  "puts lim \<equiv> fold (put lim)"

lemma replicate_nat_pos: "0 < n \<Longrightarrow> replicate (nat n) c = c # replicate (nat (n - 1)) c"
proof -
  assume "0 < n"
  then have "nat n = Suc (nat (n - 1))" by simp
  then show ?thesis by simp
qed

lemma spaces_pos: "0 < n \<Longrightarrow> spaces n = 32 # spaces (n - 1)"
  by (simp add: spaces_def replicate_nat_pos)

lemma spaces_none [simp]: "n \<le> 0 \<Longrightarrow> spaces n = []"
  by (simp add: spaces_def)

lemma zeros_none [simp]: "n \<le> 0 \<Longrightarrow> zeros n = []"
  by (simp add: zeros_def)

lemma pad_loop_puts: "pad_loop lim n c out = (min n 0 - 1, puts lim (replicate (nat n) c) out)"
proof (induction lim n c out rule: pad_loop.induct)
  case (1 lim n c out)
  then show ?case by (cases "n > 0") (auto simp: pad_loop.simps [of lim n] replicate_nat_pos)
qed

lemma width_loop_puts: "width_loop lim w out = (min w 1 - 1, puts lim (spaces (w - 1)) out)"
proof (induction lim w out rule: width_loop.induct)
  case (1 lim w out)
  then show ?case
    using spaces_pos [of "w - 1"] by (cases "w - 1 > 0") (auto simp: width_loop.simps [of lim w])
qed

lemma len_loop_puts: "len_loop lim len w out = (min w len - 1, puts lim (spaces (w - len)) out)"
proof (induction lim len w out rule: len_loop.induct)
  case (1 lim len w out)
  then show ?case
    using spaces_pos [of "w - len"] by (cases "len < w") (auto simp: len_loop.simps [of lim len w] algebra_simps)
qed

lemma print_char_puts: "print_char lim flags w a out = puts lim (char_text flags w (ucast a)) out"
  by (auto simp: print_char_def width_loop_puts char_text_def)

text \<open>Two flags are tested at once; with \<^verbatim>\<open>LEFT\<close>, zero padding is off.\<close>

lemma has_flags:
  "has f (ZEROPAD OR LEFT) \<longleftrightarrow> has f ZEROPAD \<or> has f LEFT"
  "has (f AND NOT ZEROPAD) ZEROPAD = False" "has (f AND NOT ZEROPAD) LEFT = has f LEFT"
  "has (f AND NOT ZEROPAD) SIGN = has f SIGN" "has (f AND NOT ZEROPAD) PLUS = has f PLUS"
  "has (f AND NOT ZEROPAD) SPACE = has f SPACE" "has (f AND NOT ZEROPAD) LARGE = has f LARGE"
proof -
  have *: "has x 1 = bit x 0" "has x 2 = bit x 1" "has x 4 = bit x 2" "has x 8 = bit x 3" "has x 16 = bit x 4"
    "has x 64 = bit x 6" for x :: u8
    using and_exp_eq_0_iff_not_bit [of x 0] and_exp_eq_0_iff_not_bit [of x 1] and_exp_eq_0_iff_not_bit [of x 2]
      and_exp_eq_0_iff_not_bit [of x 3] and_exp_eq_0_iff_not_bit [of x 4] and_exp_eq_0_iff_not_bit [of x 6]
    by (simp_all add: has_def)
  have or: "has x (a OR b) \<longleftrightarrow> has x a \<or> has x b" for x a b :: u8
    by (auto simp: has_def bit_eq_iff bit_simps)
  have bit1: "bit (1 :: u8) n \<longleftrightarrow> n = 0" for n by (simp add: bit_1_iff)
  show "has f (ZEROPAD OR LEFT) \<longleftrightarrow> has f ZEROPAD \<or> has f LEFT" by (rule or)
  show "has (f AND NOT ZEROPAD) ZEROPAD = False" "has (f AND NOT ZEROPAD) LEFT = has f LEFT"
    "has (f AND NOT ZEROPAD) SIGN = has f SIGN" "has (f AND NOT ZEROPAD) PLUS = has f PLUS"
    "has (f AND NOT ZEROPAD) SPACE = has f SPACE" "has (f AND NOT ZEROPAD) LARGE = has f LARGE"
    by (simp_all add: * bit_simps)
qed

lemma pad_loop_texts:
  "pad_loop lim n 32 out = (min n 0 - 1, puts lim (spaces n) out)"
  "pad_loop lim n 48 out = (min n 0 - 1, puts lim (zeros n) out)"
  by (simp_all add: pad_loop_puts spaces_def zeros_def del: fold_replicate)

lemma get_sign_eq:
  "get_sign flags num =
     (if number_sign flags num = [] then 0 else hd (number_sign flags num), if has flags SIGN \<and> sint num < 0 then - num else num)"
  by (simp add: get_sign_def number_sign_def)

lemma number_sign_cases:
  obtains "number_sign flags num = []" | c where "number_sign flags num = [c]" "c \<noteq> 0"
proof -
  consider "number_sign flags num = []" | "number_sign flags num = [45]" | "number_sign flags num = [43]" | "number_sign flags num = [32]"
    by (simp add: number_sign_def) metis
  then show thesis by cases (use that in auto)
qed

lemmas has_flags_simps = has_flags [simplified]

text \<open>\<^verbatim>\<open>print_number\<close> prints the text of the number, for every position and end of the buffer.\<close>

lemma print_number_puts: "print_number lim num base w precision flags out = puts lim (number_text num base w precision flags) out"
proof -
  have mx: "(if p < i then i else p) = max i p" for i p :: int by simp
  have clr: "number_sign (flags AND NOT ZEROPAD) num = number_sign flags num" by (simp add: number_sign_def has_flags_simps)
  note unfolds = print_number_def get_sign_eq Let_def has_flags_simps clr [simplified] mx
    pad_loop_texts number_text_def number_digits_def
  show ?thesis
  proof (cases rule: number_sign_cases [of flags num])
    case 1
    then show ?thesis 
      by (cases "has flags LEFT"; cases "has flags ZEROPAD"; cases "precision = 0"; cases "has flags SIGN \<and> sint num < 0")
        (simp_all add: unfolds)
  next
    case (2 c)
    then show ?thesis
      by (cases "has flags LEFT"; cases "has flags ZEROPAD"; cases "precision = 0"; cases "has flags SIGN \<and> sint num < 0")
        (auto simp: unfolds)
  qed
qed

section \<open>The buffer\<close>

text \<open>After the characters \<open>xs\<close>, the position is behind all of them and the buffer has those that fit.\<close>

definition render :: "u32 \<Rightarrow> nat \<Rightarrow> memory \<Rightarrow> u8 list \<Rightarrow> outp" where
  "render buf n m xs = (buf + of_nat (length xs), write_bytes buf (take n xs) m)"

lemma put_render:
  assumes "unat lim = unat buf + n" "unat buf + length xs < 2 ^ 32"
  shows "put lim c (render buf n m xs) = render buf n m (xs @ [c])"
proof -
  have "buf + of_nat (length xs) < lim \<longleftrightarrow> length xs < n"
    using assms unat_add_index [OF assms(2)] by (simp add: word_less_nat_alt)
  then show ?thesis
    using write_bytes_append [of buf xs "[c]" m] by (auto simp: put_def render_def add.assoc)
qed

lemma puts_render:
  assumes "unat lim = unat buf + n" "unat buf + length (xs @ ys) \<le> 2 ^ 32"
  shows "puts lim ys (render buf n m xs) = render buf n m (xs @ ys)"
  using assms(2)
proof (induction ys arbitrary: xs)
  case (Cons y ys)
  then show ?case using put_render [OF assms(1), of xs y m] Cons.IH [of "xs @ [y]"] by simp
qed simp

text \<open>The strings that the format may name: in memory, and apart from the buffer.\<close>

definition strings_ok :: "(u32 \<Rightarrow> u8 list option) \<Rightarrow> u32 \<Rightarrow> nat \<Rightarrow> memory \<Rightarrow> bool" where
  "strings_ok str buf n m \<longleftrightarrow>
     (\<forall>a xs. str a = Some xs \<longrightarrow> cstr m a xs \<and> length xs < 2 ^ 31 \<and>
        (\<forall>i < n. \<forall>j \<le> length xs. buf + of_nat i \<noteq> a + of_nat j))"

lemma render_outside:
  assumes "\<And>i. i < n \<Longrightarrow> buf + of_nat i \<noteq> a" shows "snd (render buf n m xs) a = m a"
  unfolding render_def snd_conv using assms by (intro write_bytes_other) simp

lemma strings_okD:
  assumes "strings_ok str buf n m" "str a = Some xs"
  shows "cstr m a xs" "length xs < 2 ^ 31" "\<And>i j. i < n \<Longrightarrow> j \<le> length xs \<Longrightarrow> buf + of_nat i \<noteq> a + of_nat j"
  using assms by (auto simp: strings_ok_def)

lemma render_cstr:
  assumes "strings_ok str buf n m" "str a = Some xs" shows "cstr (snd (render buf n m ys)) a xs"
proof -
  have "cstr (snd (render buf n m ys)) a xs = cstr m a xs"
    using strings_okD(3) [OF assms] by (intro cstr_cong render_outside) blast
  then show ?thesis using strings_okD(1) [OF assms] by simp
qed

lemma str_loop_render:
  assumes "unat lim = unat buf + n" "unat buf + length (xs @ ys) \<le> 2 ^ 32"
    and "\<And>i j. i < n \<Longrightarrow> j < length ys \<Longrightarrow> buf + of_nat i \<noteq> a + of_nat j" "read_bytes m a (length ys) = ys"
  shows "str_loop lim (length ys) a (render buf n m xs) = render buf n m (xs @ ys)"
  using assms(2-)
proof (induction ys arbitrary: a xs)
  case (Cons y ys)
  have a: "snd (render buf n m xs) a = y" using Cons.prems(2) [of _ 0] Cons.prems(3) by (subst render_outside) auto
  have "buf + of_nat i \<noteq> a + 1 + of_nat j" if "i < n" "j < length ys" for i j
    using Cons.prems(2) [of i "Suc j"] that by (simp add: add.assoc)
  then show ?case using put_render [OF assms(1), of xs y m] Cons.IH [of "xs @ [y]" "a + 1"] Cons.prems a by simp
qed simp

lemma print_string_render:
  assumes lim: "unat lim = unat buf + n" and ok: "strings_ok str buf n m"
    and ys: "(if a = 0 then Some null_text else str a) = Some ys"
    and room: "unat buf + length (xs @ string_text flags w precision ys) \<le> 2 ^ 32"
  shows "print_string lim flags w precision a (render buf n m xs) =
    Some (render buf n m (xs @ string_text flags w precision ys))"
proof -
  define zs where "zs = (if precision > 0 then take (nat precision) ys else ys)"
  have layout: "string_text flags w precision ys =
      (if has flags LEFT then zs @ spaces (w - int (length zs)) else spaces (w - int (length zs)) @ zs)"
    by (simp add: string_text_def zs_def Let_def)
  have len: "(if precision > 0 \<and> int (length ys) > precision then precision else int (length ys)) = int (length zs)"
    by (auto simp: zs_def min_def)
  have body: "(if a = 0 then puts lim (take (length zs) null_text) (render buf n m us)
      else str_loop lim (length zs) a (render buf n m us)) = render buf n m (us @ zs)"
    if "unat buf + length (us @ zs) \<le> 2 ^ 32" for us
  proof (cases "a = 0")
    case True
    then have "take (length zs) null_text = zs" using ys by (auto simp: zs_def min_def)
    then show ?thesis using True puts_render [OF lim that] by simp
  next
    case False
    then have s: "str a = Some ys" using ys by simp
    have "read_bytes m a (length ys) = ys" using cstr_read [OF strings_okD(1) [OF ok s]] .
    moreover have "read_bytes m a (length ys) = read_bytes m a (length zs + (length ys - length zs))" by (simp add: zs_def)
    ultimately have "read_bytes m a (length zs) = zs"
      by (metis append_eq_conv_conj length_read_bytes read_bytes_add zs_def append_take_drop_id take_all nle_le)
    then show ?thesis using False strings_okD(3) [OF ok s] str_loop_render [OF lim that, of a m] by (auto simp: zs_def)
  qed
  have "(if a = 0 then Some (int (length null_text)) else map_option sint (rt_strlen a (snd (render buf n m xs)))) =
      Some (int (length ys))"
    using ys rt_strlen_cstr [OF render_cstr [OF ok]] strings_okD(2) [OF ok]
    by (auto simp: signed_of_nat signed_take_bit_int_eq_self_iff)
  then show ?thesis
    using room body [of xs] body [of "xs @ spaces (w - int (length zs))"] len
      puts_render [OF lim, of xs "spaces (w - int (length zs))"] puts_render [OF lim, of "xs @ zs" "spaces (w - int (length zs))"]
    by (simp add: print_string_def layout len_loop_puts Let_def split: if_splits)
qed

lemma print_integer_puts:
  "print_integer lim flags w precision q base a out = puts lim (integer_text flags w precision q base a) out"
  by (simp add: print_integer_def integer_text_def print_number_puts Let_def)

lemma convert_render:
  assumes lim: "unat lim = unat buf + n" and ok: "strings_ok str buf n m"
    and t: "convert_text str k flags w precision q args = Some (args', text)"
    and room: "unat buf + length (xs @ text) \<le> 2 ^ 32"
  shows "convert lim k flags w precision q args (render buf n m xs) = Some (args', render buf n m (xs @ text))"
proof -
  note r = puts_render [OF lim room, of m]
  have r2: "put lim k (put lim 37 (render buf n m xs)) = render buf n m (xs @ text)" if "text = [37, k]" using r that by simp
  show ?thesis
  proof (cases "k = 115")
    case True
    then obtain a ys where a: "va_arg args = Some (a, args')" "(if a = 0 then Some null_text else str a) = Some ys"
      "text = string_text flags w precision ys"
      using t by (auto simp: convert_text_def bind_eq_Some_conv split: if_splits)
    then show ?thesis using True print_string_render [OF lim ok a(2)] room by (simp add: convert_def)
  next
    case False
    then show ?thesis
      using t r r2
      by (auto simp: convert_text_def convert_def Let_def print_char_puts print_number_puts print_integer_puts bind_eq_Some_conv
          split: if_splits)
  qed
qed

lemma vsn_loop_render:
  assumes "unat lim = unat buf + n" "strings_ok str buf n m"
    and "vsn_text str fmt args = Some tx" "unat buf + length (xs @ tx) \<le> 2 ^ 32"
  shows "vsn_loop lim fmt args (render buf n m xs) = Some (render buf n m (xs @ tx))"
  using assms(2-4)
proof (induction str fmt args arbitrary: xs tx rule: vsn_text.induct)
  case (1 str args)
  then show ?case by simp
next
  case (2 str c fmt args)
  show ?case
  proof (cases "c = 37")
    case False
    then obtain t where t: "vsn_text str fmt args = Some t" "tx = c # t" using "2.prems"(2) by auto
    then show ?thesis
      using False "2.IH"(1) [OF False "2.prems"(1) t(1), of "xs @ [c]"] "2.prems"(3) put_render [OF assms(1), of xs c m] by simp
  next
    case True
    then obtain flags w pr q rest args' where p: "parse_spec fmt args = Some (flags, w, pr, q, rest, args')"
      using "2.prems"(2) by (auto split: option.splits prod.splits)
    show ?thesis
    proof (cases rest)
      case Nil
      then have "tx = [37]" using True p "2.prems"(2) by simp
      then show ?thesis using Nil True p "2.prems"(3) put_render [OF assms(1), of xs 37 m] by simp
    next
      case (Cons k ks)
      then obtain args'' t1 t2 where t: "convert_text str k flags w pr q args' = Some (args'', t1)"
        "vsn_text str ks args'' = Some t2" "tx = t1 @ t2"
        using "2.prems"(2) True p by (auto split: option.splits prod.splits)
      have "convert lim k flags w pr q args' (render buf n m xs) = Some (args'', render buf n m (xs @ t1))"
        using "2.prems"(3) t(3) by (intro convert_render [OF assms(1) "2.prems"(1) t(1)]) simp
      moreover have "vsn_loop lim ks args'' (render buf n m (xs @ t1)) = Some (render buf n m ((xs @ t1) @ t2))"
        using True "2.prems"(1,3) t p Cons by (intro "2.IH"(2)) auto
      ultimately show ?thesis using True p Cons t(3) by simp
    qed
  qed
qed

lemma rt_vsnprintf_text:
  assumes "vsn_text str fmt args = Some tx" "strings_ok str buf (unat sz) m"
    and "unat buf + unat sz < 2 ^ 32" "unat buf + length tx < 2 ^ 32"
  shows "rt_vsnprintf buf sz fmt args m =
    Some (of_nat (length tx), if sz = 0 then m else write_bytes buf (take (unat sz - 1) tx @ [0]) m)"
proof -
  have lim: "unat (buf + sz) = unat buf + unat sz" using assms(3) by (simp add: unat_word_ariths)
  then have le: "\<not> buf + sz < buf" by (simp add: word_less_nat_alt)
  have start: "(buf, m) = render buf (unat sz) m []" by (simp add: render_def)
  have "vsn_loop (buf + sz) fmt args (buf, m) = Some (render buf (unat sz) m ([] @ tx))"
    unfolding start using assms by (intro vsn_loop_render [OF lim assms(2,1)]) simp
  then have loop: "vsn_loop (buf + sz) fmt args (buf, m) = Some (buf + of_nat (length tx), write_bytes buf (take (unat sz) tx) m)"
    by (simp add: render_def)
  have str: "buf + of_nat (length tx) < buf + sz \<longleftrightarrow> length tx < unat sz"
    using unat_add_index [OF assms(4)] lim by (simp add: word_less_nat_alt)
  show ?thesis
  proof (cases "length tx < unat sz")
    case True
    then have "sz > 0" "sz \<noteq> 0" by (auto simp: word_less_nat_alt)
    then show ?thesis using True le loop str write_bytes_append [of buf tx "[0]" m] by (simp add: rt_vsnprintf_def Let_def)
  next
    case False
    show ?thesis
    proof (cases "sz = 0")
      case True
      then show ?thesis using le loop by (simp add: rt_vsnprintf_def Let_def)
    next
      case nz: False
      let ?ys = "take (unat sz - 1) tx"
      have pos: "0 < unat sz" using nz by (simp add: unat_gt_0)
      then have "take (unat sz) tx = ?ys @ [tx ! (unat sz - 1)]" "length ?ys = unat sz - 1"
        using False take_Suc_conv_app_nth [of "unat sz - 1" tx] by simp_all
      moreover have at: "buf + sz - 1 = buf + of_nat (unat sz - 1)" using pos by (simp add: of_nat_diff)
      ultimately have "(write_bytes buf (take (unat sz) tx) m)(buf + sz - 1 := 0) = write_bytes buf (?ys @ [0]) m"
        unfolding at by (simp add: write_bytes_append)
      moreover have "0 < sz" using nz by (simp add: word_neq_0_conv)
      ultimately show ?thesis using False nz le loop str by (simp add: rt_vsnprintf_def Let_def)
    qed
  qed
qed

text \<open>C36: formatted output into a buffer. Whatever the format and the arguments, \<^verbatim>\<open>rt_vsnprintf\<close> returns the length of the whole text,
  writes the beginning of the text that fits into the buffer, ends it with a null character inside of the buffer and changes no byte
  outside; with an empty buffer it changes nothing. The text is that of the directives one after the other; the strings that are
  printed lie outside of the buffer.\<close>

theorem rt_vsnprintf_truncates:
  assumes "vsn_text str fmt args = Some tx" "strings_ok str buf (unat sz) m"
    and "unat buf + unat sz < 2 ^ 32" "unat buf + length tx < 2 ^ 32"
  shows "rt_vsnprintf buf sz fmt args m =
    Some (of_nat (length tx), if sz = 0 then m else write_bytes buf (take (unat sz - 1) tx @ [0]) m)"
  using assms by (rule rt_vsnprintf_text)

section \<open>Numbers\<close>

lemma divide_less: "n \<noteq> 0 \<Longrightarrow> unat (snd (divide n base)) < unat n"
  by (auto simp: divide_def unat_div unat_gt_0)

lemma digit_loop_step:
  "n \<noteq> 0 \<Longrightarrow> digit_loop large base n tmp =
     digit_loop large base (snd (divide n base)) (tmp @ [digit_char large (fst (divide n base))])"
  by (simp add: digit_loop.simps [of large base n] split_beta)

lemma digit_loop_append: "digit_loop large base n (us @ vs) = us @ digit_loop large base n vs"
proof (induction "unat n" arbitrary: n vs rule: less_induct)
  case less
  show ?case
  proof (cases "n = 0")
    case True
    then show ?thesis by (simp add: digit_loop.simps)
  next
    case False
    then show ?thesis using less [OF divide_less [OF False]] by (simp add: digit_loop_step)
  qed
qed

text \<open>The digits of a number: those of its quotient, then the remainder.\<close>

lemma rev_digits_step:
  assumes "n \<noteq> 0"
  shows "rev (digit_loop large base n []) =
    rev (digit_loop large base (snd (divide n base)) []) @ [digit_char large (fst (divide n base))]"
  using digit_loop_step [OF assms, of large base "[]"]
    digit_loop_append [of large base "snd (divide n base)" "[digit_char large (fst (divide n base))]" "[]"] by simp

lemma digit_loop_length: "unat n < 10 ^ k \<Longrightarrow> length (digit_loop large base n []) \<le> k"
proof (induction k arbitrary: n)
  case 0
  then show ?case by (simp add: digit_loop.simps unat_eq_zero)
next
  case (Suc k)
  show ?case
  proof (cases "n = 0")
    case False
    have "unat n div 16 \<le> unat n div 10" by (rule div_le_mono2) simp_all
    then have "unat (snd (divide n base)) < 10 ^ k"
      using Suc.prems by (auto simp: divide_def unat_div less_mult_imp_div_less)
    then show ?thesis using Suc.IH arg_cong [OF rev_digits_step [OF False, of large base], of length] by simp
  qed (simp add: digit_loop.simps)
qed

lemma digits_bound: "length (number_digits large base n) \<le> 10"
  using digit_loop_length [of n 10 large base] unat_bound [of n] by (simp add: number_digits_def number_tmp_def)

lemma decimal_char:
  fixes d :: u32
  assumes "d < 10" shows "isdigit (digit_char large d)" "uint (digit_char large d) = 48 + uint d"
proof -
  have d: "unat d < 10" using assms by (simp add: word_less_nat_alt)
  then have u: "unat (ucast d :: u8) = unat d" by (simp add: unsigned_ucast_eq take_bit_nat_eq_self)
  show "isdigit (digit_char large d)" using assms d u by (simp add: isdigit_def digit_char_def word_less_nat_alt)
  have "unat (48 + ucast d :: u8) = 48 + unat d" using d u by (simp add: unat_word_ariths)
  then have "int (unat (48 + ucast d :: u8)) = 48 + int (unat d)" by simp
  then show "uint (digit_char large d) = 48 + uint d" unfolding uint_nat using assms by (simp add: digit_char_def)
qed

text \<open>Reading the decimal digits with \<^verbatim>\<open>skip_atoi\<close> gives the number.\<close>

lemma skip_atoi_digits: "skip_atoi 0 (rev (digit_loop large 10 n []) @ rest) = skip_atoi (uint n) rest"
proof (induction "unat n" arbitrary: n rest rule: less_induct)
  case less
  show ?case
  proof (cases "n = 0")
    case True
    then show ?thesis by (simp add: digit_loop.simps)
  next
    case False
    let ?d = "digit_char large (n mod 10)"
    have d: "isdigit ?d" "uint ?d = 48 + uint (n mod 10)" using decimal_char [of "n mod 10" large] by (simp_all add: word_mod_less_divisor)
    have "skip_atoi 0 (rev (digit_loop large 10 n []) @ rest) = skip_atoi 0 (rev (digit_loop large 10 (n div 10) []) @ ?d # rest)"
      using rev_digits_step [OF False, of large 10] by (simp add: divide_def)
    also have "\<dots> = skip_atoi (uint (n div 10)) (?d # rest)"
      using less [of "n div 10" "?d # rest"] divide_less [OF False, of 10] by (simp add: divide_def)
    also have "\<dots> = skip_atoi (uint n) rest"
      using d by (simp add: uint_div uint_mod div_mult_mod_eq)
    finally show ?thesis .
  qed
qed

lemma number_digits_read: "skip_atoi 0 (number_digits large 10 n) = (uint n, [])"
  using skip_atoi_digits [of large n "[]"] by (simp add: number_digits_def number_tmp_def isdigit_def)

lemma abs_sint: "uint (if sint n < 0 then - n else n :: u32) = \<bar>sint n\<bar>"
proof (cases "sint n < 0")
  case True
  then have "n \<noteq> 0" by auto
  have "uint n = sint n + 2 ^ 32"
    using True uint_sint [of n] sint_ge [of n] mod_pos_pos_trivial [of "sint n + 4294967296" 4294967296]
    by (simp add: take_bit_eq_mod)
  moreover have "uint (- n) = 2 ^ 32 - uint n" 
    unfolding uint_nat using unat_neg [OF \<open>n \<noteq> 0\<close>] unat_bound [of n] by (simp add: of_nat_diff)
  ultimately show ?thesis using True by simp
next
  case False
  then have "uint n = sint n" using uint_sint [of n] sint_lt [of n] by (simp add: take_bit_eq_mod)
  then show ?thesis using False by simp
qed

lemma has_0 [simp]: "has 0 f = False"
  by (simp add: has_def)

text \<open>An example: \<^verbatim>\<open>"%s=%d"\<close> with the string at address 16 and the number 7, into a buffer of 4 bytes.\<close>

definition str_table :: "u32 \<Rightarrow> u8 list option" where
  "str_table = [16 \<mapsto> [97, 97, 98]]"

lemma str_table_ok: "strings_ok str_table 64 (unat (4 :: u32)) str_example"
  unfolding strings_ok_def
proof (intro allI impI conjI)
  fix a xs
  assume "str_table a = Some xs"
  then have a: "a = 16" "xs = [97, 97, 98]" by (auto simp: str_table_def split: if_splits)
  show "cstr str_example a xs" "length xs < 2 ^ 31" using str_example_cstr(1) a by simp_all
  fix i j
  assume "i < unat (4 :: u32)" "j \<le> length xs"
  then have ij: "i < 4" "j \<le> 3" using a by simp_all
  then have "unat (64 + of_nat i :: u32) = 64 + i" "unat (16 + of_nat j :: u32) = 16 + j"
    using unat_add_index [of 64 i] unat_add_index [of 16 j] by simp_all
  then have "unat (64 + of_nat i :: u32) \<noteq> unat (16 + of_nat j :: u32)" using ij by linarith
  then show "64 + of_nat i \<noteq> a + of_nat j" unfolding a by metis
qed

lemma seven_digits: "number_digits False 10 7 = [55]"
  by (simp add: number_digits_def number_tmp_def digit_loop_step divide_def digit_char_def digit_loop.simps [of False 10 0])

lemma str_table_text: "vsn_text str_table [37, 115, 61, 37, 100] [16, 7] = Some [97, 97, 98, 61, 55]"
proof -
  have "has 2 2" "\<not> has 2 4" "\<not> has 2 8" "\<not> has 2 16" "\<not> has 2 1" "\<not> has 2 64" "\<And>f. \<not> has 0 f"
    by (simp_all add: has_def)
  then show ?thesis
    by (simp add: parse_spec_def parse_width_def parse_precision_def parse_qualifier_def isdigit_def convert_text_def
        integer_text_def number_text_def number_sign_def seven_digits string_text_def str_table_def Let_def)
qed

theorem rt_vsnprintf_truncates_witness:
  "rt_vsnprintf 64 4 [37, 115, 61, 37, 100] [16, 7] str_example = Some (5, write_bytes 64 [97, 97, 98, 0] str_example)"
  using rt_vsnprintf_truncates [OF str_table_text str_table_ok] by simp

lemma digits_isdigit: "c \<in> set (digit_loop large 10 n []) \<Longrightarrow> isdigit c"
proof (induction "unat n" arbitrary: n rule: less_induct)
  case less
  show ?case
  proof (cases "n = 0")
    case False
    have "set (digit_loop large 10 n []) = insert (digit_char large (n mod 10)) (set (digit_loop large 10 (n div 10) []))"
      using arg_cong [OF rev_digits_step [OF False, of large 10], of set] by (simp add: divide_def)
    moreover have "isdigit (digit_char large (n mod 10))" using decimal_char(1) [of "n mod 10"] by (simp add: word_mod_less_divisor)
    ultimately show ?thesis using less.prems less.hyps [of "n div 10"] divide_less [OF False, of 10] by (auto simp: divide_def)
  qed (use less.prems in \<open>simp add: digit_loop.simps\<close>)
qed

lemma digits_nonzero: "0 \<notin> set (number_digits large 10 n)"
  using digits_isdigit [of 0 large n] by (auto simp: number_digits_def number_tmp_def isdigit_def)

text \<open>The texts of the directives \<^verbatim>\<open>%u\<close> and \<^verbatim>\<open>%d\<close>.\<close>

lemma decimal_texts:
  "vsn_text str [37, 117] [n] = Some (number_digits False 10 n)"
  "vsn_text str [37, 100] [n] =
     Some ((if sint n < 0 then [45] else []) @ number_digits False 10 (if sint n < 0 then - n else n))"
proof -
  have two: "has 2 2" "\<not> has 2 4" "\<not> has 2 8" "\<not> has 2 16" "\<not> has 2 1" "\<not> has 2 64" by (simp_all add: has_def)
  note parsing = parse_spec_def parse_width_def parse_precision_def parse_qualifier_def isdigit_def convert_text_def
    integer_text_def number_text_def number_sign_def two Let_def max_def
  show "vsn_text str [37, 117] [n] = Some (number_digits False 10 n)"
    using digits_bound [of False 10 n] by (simp add: parsing)
  show "vsn_text str [37, 100] [n] =
      Some ((if sint n < 0 then [45] else []) @ number_digits False 10 (if sint n < 0 then - n else n))"
    using digits_bound [of False 10 n] digits_bound [of False 10 "- n"] by (simp add: parsing)
qed

lemma snprintf_cstr:
  assumes "\<And>str. vsn_text str fmt args = Some tx" "length tx < unat sz" "0 \<notin> set tx" "unat buf + unat sz < 2 ^ 32"
  shows "\<exists>m'. rt_snprintf buf sz fmt args m = Some (of_nat (length tx), m') \<and> cstr m' buf tx"
proof -
  have "strings_ok (\<lambda>_. None) buf (unat sz) m" by (simp add: strings_ok_def)
  from rt_vsnprintf_text [OF assms(1) this assms(4)] assms(2,4)
  have "rt_snprintf buf sz fmt args m = Some (of_nat (length tx), write_bytes buf (tx @ [0]) m)"
    by (auto simp: rt_snprintf_def)
  moreover have "cstr (write_bytes buf (tx @ [0]) m) buf tx" using assms(2-4) by (intro cstr_write) auto
  ultimately show ?thesis by blast
qed

text \<open>C37: printing and reading. The string that \<^verbatim>\<open>%u\<close> leaves in memory for a number is read back by \<^verbatim>\<open>skip_atoi\<close> as that number; the string of \<^verbatim>\<open>%d\<close> is
  a minus sign for negative numbers and the digits of the absolute value, the smallest number included. A buffer of 12 bytes has
  room for every number, and the digits for the temporary buffer of 16.\<close>

theorem decimal_roundtrip:
  assumes "unat buf + 12 < 2 ^ 32"
  shows "\<exists>u m1 d m2. rt_snprintf buf 12 [37, 117] [n] m = Some (of_nat (length u), m1) \<and> cstr m1 buf u \<and>
    skip_atoi 0 u = (uint n, []) \<and> length (number_tmp False 10 n) \<le> 16 \<and>
    rt_snprintf buf 12 [37, 100] [n] m = Some (of_nat (length ((if sint n < 0 then [45] else []) @ d)), m2) \<and>
    cstr m2 buf ((if sint n < 0 then [45] else []) @ d) \<and> skip_atoi 0 d = (\<bar>sint n\<bar>, [])"
proof -
  let ?a = "if sint n < 0 then - n else n"
  let ?u = "number_digits False 10 n" and ?d = "number_digits False 10 ?a"
  have b: "length ?u \<le> 10" "length ?d \<le> 10" by (rule digits_bound)+
  have "\<exists>m1. rt_snprintf buf 12 [37, 117] [n] m = Some (of_nat (length ?u), m1) \<and> cstr m1 buf ?u"
    using b(1) digits_nonzero assms by (intro snprintf_cstr decimal_texts) simp_all
  moreover have "\<exists>m2. rt_snprintf buf 12 [37, 100] [n] m =
      Some (of_nat (length ((if sint n < 0 then [45] else []) @ ?d)), m2) \<and>
      cstr m2 buf ((if sint n < 0 then [45] else []) @ ?d)"
    using b(2) digits_nonzero [of False ?a] assms by (intro snprintf_cstr decimal_texts) (simp_all split: if_splits)
  moreover have "skip_atoi 0 ?d = (\<bar>sint n\<bar>, [])" using number_digits_read [of False ?a] abs_sint [of n] by simp
  moreover have "length (number_tmp False 10 n) \<le> 16" using b(1) by (simp add: number_digits_def)
  ultimately show ?thesis using number_digits_read [of False n] by blast
qed

theorem decimal_roundtrip_witness:
  "\<exists>d m2. rt_snprintf 0x1000 12 [37, 100] [- 5] (\<lambda>_. 0) = Some (of_nat (length (45 # d)), m2) \<and> cstr m2 0x1000 (45 # d) \<and>
     skip_atoi 0 d = (5, [])"
proof -
  have n: "sint (- 5 :: u32) = - 5" by simp
  have "unat (0x1000 :: u32) + 12 < 2 ^ 32" by simp
  from decimal_roundtrip [OF this, of "- 5" "\<lambda>_. 0"] show ?thesis unfolding n by fastforce
qed

text \<open>\<^verbatim>\<open>divide\<close> knows the bases 10 and 16 only: octal numbers are printed in hexadecimal.\<close>

lemma octal_is_hexadecimal: "integer_text flags w precision q 8 a = integer_text flags w precision q 16 a"
proof -
  have "digit_loop large 8 n [] = digit_loop large 16 n []" for large and n :: u32
  proof (induction "unat n" arbitrary: n rule: less_induct)
    case less
    show ?case
    proof (cases "n = 0")
      case False
      have "rev (digit_loop large 8 n []) = rev (digit_loop large 16 n [])"
        using rev_digits_step [OF False, of large 8] rev_digits_step [OF False, of large 16] less [of "n div 16"]
          divide_less [OF False, of 16] by (simp add: divide_def)
      then show ?thesis by simp
    qed (simp add: digit_loop.simps)
  qed
  then show ?thesis by (simp add: integer_text_def number_text_def number_digits_def number_tmp_def)
qed

text \<open>With precision 0 no digit is printed, whatever the number.\<close>

lemma precision_zero_drops_digits: "number_text num base (- 1) 0 0 = []"
  by (simp add: number_text_def number_sign_def Let_def)

end
