(* ===== verification/Console.thy ===== *)
theory Console
  imports Device Printf
begin

text \<open>
  The console of \<^verbatim>\<open>kservice.c\<close>: the choice of the console device, \<^verbatim>\<open>rt_kputs\<close> and \<^verbatim>\<open>rt_kprintf\<close>. \<open>hw\<close> stands for \<^verbatim>\<open>rt_hw_console_output\<close>, which a board
  supplies; the address of the log buffer is a parameter.
\<close>

abbreviation (input) RT_DEVICE_FLAG_STREAM :: u16 where "RT_DEVICE_FLAG_STREAM \<equiv> 0x040"
abbreviation (input) RT_DEVICE_OFLAG_RDWR :: u16 where "RT_DEVICE_OFLAG_RDWR \<equiv> 0x003"

definition rt_console_get_device :: "nat option \<Rightarrow> nat option" where
  "rt_console_get_device console = console"

text \<open>The result is the old device and the new value of \<^verbatim>\<open>_console_device\<close>.\<close>

definition rt_console_set_device ::
    "driver \<Rightarrow> string \<Rightarrow> nat option \<Rightarrow> kernel \<Rightarrow> (nat option \<times> nat option \<times> kernel) option" where
  "rt_console_set_device drv name console k = do {
     (found, k) \<leftarrow> rt_device_find name k;
     (case found of
        Some (ODevice d) \<Rightarrow> do {
          k \<leftarrow> (case console of None \<Rightarrow> Some k | Some c \<Rightarrow> map_option snd (rt_device_close drv c k));
          (_, k) \<leftarrow> rt_device_open drv d (RT_DEVICE_OFLAG_RDWR OR RT_DEVICE_FLAG_STREAM) k;
          Some (console, Some d, k)
        }
      | _ \<Rightarrow> Some (console, console, k))
   }"

text \<open>Output through the console device, with its stream flag set meanwhile.\<close>

definition console_write :: "driver \<Rightarrow> nat \<Rightarrow> u32 \<Rightarrow> u32 \<Rightarrow> kernel \<Rightarrow> kernel option" where
  "console_write drv d buf n k = do {
     let old_flag = dv_open_flag (devices k d);
     let k = upd_dev d (\<lambda>dev. dev\<lparr>dv_open_flag := dv_open_flag dev OR RT_DEVICE_FLAG_STREAM\<rparr>) k;
     (_, k) \<leftarrow> rt_device_write drv d 0 buf n k;
     Some (upd_dev d (\<lambda>dev. dev\<lparr>dv_open_flag := old_flag\<rparr>) k)
   }"

definition rt_kputs ::
    "driver \<Rightarrow> (u32 \<Rightarrow> memory \<Rightarrow> kernel \<Rightarrow> kernel) \<Rightarrow> nat option \<Rightarrow> u32 \<Rightarrow> memory \<Rightarrow> kernel \<Rightarrow> kernel option" where
  "rt_kputs drv hw console str m k =
     (if str = 0 then Some k
      else case console of
        None \<Rightarrow> Some (hw str m k)
      | Some d \<Rightarrow> do { n \<leftarrow> rt_strlen str m; console_write drv d str n k })"

definition kprintf_length :: "u32 \<Rightarrow> u32" where
  "kprintf_length n = (if n > 255 then 255 else n)"

definition rt_kprintf ::
    "driver \<Rightarrow> (u32 \<Rightarrow> memory \<Rightarrow> kernel \<Rightarrow> kernel) \<Rightarrow> u32 \<Rightarrow> nat option \<Rightarrow> u8 list \<Rightarrow> u32 list \<Rightarrow> memory \<Rightarrow> kernel \<Rightarrow>
     (memory \<times> kernel) option" where
  "rt_kprintf drv hw log_buf console fmt args m k = do {
     (n, m) \<leftarrow> rt_vsnprintf log_buf 255 fmt args m;
     let n = kprintf_length n;
     (case console of
        None \<Rightarrow> Some (m, hw log_buf m k)
      | Some d \<Rightarrow> map_option (\<lambda>k. (m, k)) (console_write drv d log_buf n k))
   }"

section \<open>What reaches the device\<close>

lemma take_read_bytes: "n \<le> k \<Longrightarrow> read_bytes m a n = take n (read_bytes m a k)"
proof -
  assume "n \<le> k"
  then have "read_bytes m a k = read_bytes m a n @ read_bytes m (a + of_nat n) (k - n)"
    using read_bytes_add [of m a n "k - n"] by simp
  then show ?thesis by simp
qed

text \<open>\<^verbatim>\<open>rt_kprintf\<close> stays within its log buffer of 256 bytes. A text of up to 254 characters is written to the device as it is; of a longer one the
  device gets 254 characters and the null character that ends them in the buffer.\<close>

lemma rt_kprintf_output:
  assumes tx: "vsn_text str fmt args = Some tx" and ok: "strings_ok str log_buf 255 m"
    and room: "unat log_buf + 255 < 2 ^ 32" "unat log_buf + length tx < 2 ^ 32"
  defines "m' \<equiv> write_bytes log_buf (take 254 tx @ [0]) m"
    and "n \<equiv> kprintf_length (of_nat (length tx))"
  shows "rt_kprintf drv hw log_buf (Some d) fmt args m k = map_option (\<lambda>k. (m', k)) (console_write drv d log_buf n k)"
    and "read_bytes m' log_buf (unat n) = (if length tx \<le> 254 then tx else take 254 tx @ [0])"
proof -
  have s: "unat (255 :: u32) = 255" by simp
  have r: "rt_vsnprintf log_buf 255 fmt args m = Some (of_nat (length tx), m')"
    using rt_vsnprintf_text [OF tx, of log_buf 255 m] ok room unfolding s m'_def by simp
  then show "rt_kprintf drv hw log_buf (Some d) fmt args m k = map_option (\<lambda>k. (m', k)) (console_write drv d log_buf n k)"
    by (simp add: rt_kprintf_def n_def Let_def)
  have len: "unat (of_nat (length tx) :: u32) = length tx" using room(2) by (simp add: unsigned_of_nat take_bit_nat_eq_self)
  have read: "read_bytes m' log_buf (length (take 254 tx @ [0])) = take 254 tx @ [0]"
    unfolding m'_def by (rule read_write_bytes) simp
  show "read_bytes m' log_buf (unat n) = (if length tx \<le> 254 then tx else take 254 tx @ [0])"
  proof (cases "length tx \<le> 254")
    case True
    then have "unat n = length tx" using len by (simp add: n_def kprintf_length_def word_less_nat_alt)
    then show ?thesis using True read take_read_bytes [of "length tx" "length tx + 1" m' log_buf] by simp
  next
    case False
    then have "unat n = 255" using len by (auto simp: n_def kprintf_length_def word_less_nat_alt)
    then show ?thesis using False read by (simp add: min_def)
  qed
qed

end
