(* ===== verification/Malloc_Align.thy ===== *)
theory Malloc_Align
  imports Heap_Service Mem_Ops
begin

text \<open>
  Aligned allocation (\<^verbatim>\<open>rt_malloc_align\<close> and \<^verbatim>\<open>rt_free_align\<close> of \<^verbatim>\<open>kservice.c\<close>): more memory than needed is taken from the heap, an aligned address
  inside of it is given out, and the word before that address remembers where the memory begins.
\<close>

section \<open>Operations\<close>

definition heap_store_word :: "nat \<Rightarrow> u32 \<Rightarrow> heap \<Rightarrow> heap" where
  "heap_store_word a w h =
     h\<lparr>heap_byte := (\<lambda>x. if a \<le> x \<and> x < a + 4 then word_bytes w ! (x - a) else heap_byte h x)\<rparr>"

definition heap_load_word :: "nat \<Rightarrow> heap \<Rightarrow> u32" where
  "heap_load_word a h =
     ucast (heap_byte h a) OR push_bit 8 (ucast (heap_byte h (a + 1))) OR push_bit 16 (ucast (heap_byte h (a + 2))) OR
     push_bit 24 (ucast (heap_byte h (a + 3)))"

definition align_ptr :: "u32 \<Rightarrow> u32 \<Rightarrow> u32" where
  "align_ptr align ptr =
     (if ptr AND (align - 1) = 0 then ptr + align else (ptr + (align - 1)) AND NOT (align - 1))"

definition align_finish :: "u32 \<Rightarrow> nat option \<Rightarrow> heap \<Rightarrow> nat option \<times> heap" where
  "align_finish align r h =
     (case r of
        None \<Rightarrow> (None, h)
      | Some ptr \<Rightarrow>
          let q = align_ptr align (of_nat ptr)
          in (Some (unat q), heap_store_word (unat (q - 4)) (of_nat ptr) h))"

definition rt_malloc_align ::
    "u32 \<Rightarrow> u32 \<Rightarrow> kernel \<Rightarrow> heap \<Rightarrow> ((nat option, (tid \<times> nat) \<times> u32) outcome \<times> kernel \<times> heap) option" where
  "rt_malloc_align sz align k h = do {
     let align = (align + 3) AND NOT 3;
     let align_size = ((sz + 3) AND NOT 3) + align;
     (r, k, h) \<leftarrow> rt_malloc align_size k h;
     Some (case r of
         Blocked x \<Rightarrow> (Blocked (x, align), k, h)
       | Done ptr \<Rightarrow> (let (p, h) = align_finish align ptr h in (Done p, k, h)))
   }"

definition rt_malloc_align_resumed ::
    "(tid \<times> nat) \<times> u32 \<Rightarrow> kernel \<Rightarrow> heap \<Rightarrow> ((nat option, (tid \<times> nat) \<times> u32) outcome \<times> kernel \<times> heap) option" where
  "rt_malloc_align_resumed w k h = do {
     (r, k, h) \<leftarrow> rt_malloc_resumed (fst w) k h;
     Some (case r of
         Blocked x \<Rightarrow> (Blocked (x, snd w), k, h)
       | Done ptr \<Rightarrow> (let (p, h) = align_finish (snd w) ptr h in (Done p, k, h)))
   }"

definition rt_free_align :: "nat \<Rightarrow> kernel \<Rightarrow> heap \<Rightarrow> ((unit, tid \<times> nat) outcome \<times> kernel \<times> heap) option" where
  "rt_free_align ptr k h =
     (let real_ptr = heap_load_word (ptr - 4) h
      in rt_free (if real_ptr = 0 then None else Some (unat real_ptr)) k h)"

section \<open>Aligned addresses\<close>

lemma unat_power:
  assumes "j < 32" shows "unat (2 ^ j :: u32) = 2 ^ j"
proof -
  have "unat (of_nat (2 ^ j) :: u32) = 2 ^ j" using assms by (simp only: unsigned_of_nat) (simp add: take_bit_nat_eq_self)
  then show ?thesis by simp
qed

text \<open>For an alignment that is a power of two: the next multiple above the address.\<close>

lemma align_ptr_next:
  assumes "j < 32" "unat p + 2 ^ j < 2 ^ 32"
  shows "unat (align_ptr (2 ^ j) p) = (unat p div 2 ^ j + 1) * 2 ^ j"
proof -
  have m: "(2 ^ j - 1 :: u32) = mask j" by (simp add: mask_eq_exp_minus_1)
  have pw: "unat (2 ^ j :: u32) = 2 ^ j" using unat_power [OF assms(1)] .
  then have z: "p AND mask j = 0 \<longleftrightarrow> unat p mod 2 ^ j = 0"
    by (simp add: take_bit_eq_mask [symmetric] take_bit_eq_mod word_unat_eq_iff unat_mod)
  show ?thesis
  proof (cases "unat p mod 2 ^ j = 0")
    case True
    have "unat (p + 2 ^ j) = unat p + 2 ^ j" using assms(2) pw by (simp add: unat_word_ariths)
    then show ?thesis using True m z by (auto simp: align_ptr_def algebra_simps)
  next
    case False
    have s: "unat (p + mask j) = unat p + (2 ^ j - 1)"
    proof -
      have "(2 ^ j :: u32) \<noteq> 0" using pw by (metis power_not_zero unat_0 zero_neq_numeral)
      then have "unat (mask j :: u32) = 2 ^ j - 1" using pw by (simp add: mask_eq_exp_minus_1 unat_minus_one)
      then show ?thesis using assms(2) by (simp add: unat_word_ariths)
    qed
    have "unat ((p + mask j) AND NOT (mask j)) = (unat p + (2 ^ j - 1)) div 2 ^ j * 2 ^ j"
    proof -
      have "(unat p + (2 ^ j - 1)) div 2 ^ j * 2 ^ j < 2 ^ 32"
        using assms(2) le_less_trans [OF div_times_less_eq_dividend, of "unat p + (2 ^ j - 1)" "2 ^ 32" "2 ^ j"] by simp
      then show ?thesis
        unfolding and_not_mask unsigned_push_bit_eq unsigned_drop_bit_eq s
        using assms(2) by (simp add: push_bit_eq_mult drop_bit_eq_div take_bit_nat_eq_self [of "unat p + 2 ^ j - Suc 0"]
          take_bit_nat_eq_self [of "(unat p + 2 ^ j - Suc 0) div 2 ^ j * 2 ^ j"])
    qed
    also have "(unat p + (2 ^ j - 1)) div 2 ^ j = unat p div 2 ^ j + 1"
    proof -
      have "unat p + (2 ^ j - 1) = (unat p div 2 ^ j + 1) * 2 ^ j + (unat p mod 2 ^ j - 1)"
        using False div_mult_mod_eq [of "unat p" "2 ^ j"] gr0I [of "unat p"] by (cases "unat p = 0") (simp_all add: algebra_simps)
      moreover have "unat p mod 2 ^ j - 1 < 2 ^ j" by (simp add: less_imp_diff_less)
      ultimately show ?thesis by (intro div_nat_eqI) (simp_all only: algebra_simps, simp_all)
    qed
    finally show ?thesis using False m z by (simp add: align_ptr_def)
  qed
qed

lemma unat_round_up: "unat (x :: u32) + 3 < 2 ^ 32 \<Longrightarrow> unat ((x + 3) AND NOT 3) = (unat x + 3) div 4 * 4"
  by (simp add: unat_align_down unat_word_ariths)

lemma align_of_power:
  assumes "2 \<le> j" "j < 31" shows "((2 ^ j + 3) AND NOT 3 :: u32) = 2 ^ j"
proof -
  have d: "(4 :: nat) dvd 2 ^ j" using le_imp_power_dvd [OF assms(1), of "2 :: nat"] by simp
  have "(2 :: nat) ^ j \<le> 2 ^ 30" using assms(2) by (intro power_increasing) simp_all
  moreover have "unat (2 ^ j :: u32) = 2 ^ j" using assms(2) by (simp add: unat_power)
  ultimately have "unat ((2 ^ j + 3) AND NOT 3 :: u32) = (2 ^ j + 3) div 4 * 4" using unat_round_up [of "2 ^ j"] by simp
  also have "(2 ^ j + 3) div 4 * 4 = (2 :: nat) ^ j" 
  proof -
    obtain c where "(2 :: nat) ^ j = 4 * c" using d by (rule dvdE)
    then show ?thesis by simp
  qed
  finally show ?thesis using assms(2) by (simp add: word_unat_eq_iff unat_power)
qed

lemma word_of_bytes:
  "ucast (ucast w :: u8) OR push_bit 8 (ucast (ucast (drop_bit 8 w) :: u8)) OR
     push_bit 16 (ucast (ucast (drop_bit 16 w) :: u8)) OR push_bit 24 (ucast (ucast (drop_bit 24 w) :: u8)) = (w :: u32)"
proof (rule bit_word_eqI)
  fix n
  assume "n < LENGTH(32)"
  then consider "n < 8" | "8 \<le> n" "n < 16" | "16 \<le> n" "n < 24" | "24 \<le> n" "n < 32" by fastforce
  then show "bit (ucast (ucast w :: u8) OR push_bit 8 (ucast (ucast (drop_bit 8 w) :: u8)) OR
     push_bit 16 (ucast (ucast (drop_bit 16 w) :: u8)) OR push_bit 24 (ucast (ucast (drop_bit 24 w) :: u8)) :: u32) n = bit w n"
    by cases (auto simp: bit_simps)
qed

lemma load_store_word:
  assumes "\<And>x. a \<le> x \<Longrightarrow> x < a + 4 \<Longrightarrow> heap_byte h' x = heap_byte (heap_store_word a w h) x"
  shows "heap_load_word a h' = w"
proof -
  have "heap_byte h' a = ucast w" "heap_byte h' (a + 1) = ucast (drop_bit 8 w)" "heap_byte h' (a + 2) = ucast (drop_bit 16 w)"
    "heap_byte h' (a + 3) = ucast (drop_bit 24 w)"
    using assms [of a] assms [of "a + 1"] assms [of "a + 2"] assms [of "a + 3"]
    by (simp_all add: heap_store_word_def word_bytes_def numeral_eq_Suc)
  then show ?thesis unfolding heap_load_word_def by (simp only: word_of_bytes)
qed

section \<open>Allocation and release\<close>

text \<open>Where the aligned address lies in the memory that was taken.\<close>

lemma align_ptr_inside:
  assumes "2 \<le> j" "j < 31" "a mod 4 = 0" "a + 2 ^ j < 2 ^ 32"
  defines "q \<equiv> align_ptr (2 ^ j) (of_nat a)"
  shows "unat q mod 2 ^ j = 0" "a + 4 \<le> unat q" "unat q \<le> a + 2 ^ j" "unat (q - 4) = unat q - 4"
proof -
  have a: "unat (of_nat a :: u32) = a" using assms(4) by (simp add: unsigned_of_nat take_bit_nat_eq_self)
  have q: "unat q = (a div 2 ^ j + 1) * 2 ^ j" unfolding q_def using align_ptr_next [of j "of_nat a"] assms(2,4) a by simp
  then show "unat q mod 2 ^ j = 0" by simp
  have d: "(4 :: nat) dvd 2 ^ j" using le_imp_power_dvd [OF assms(1), of "2 :: nat"] by simp
  then have "4 dvd unat q" using q by (metis dvd_mult)
  moreover have lt: "a < unat q" using q dividend_less_div_times [of "2 ^ j" a] by (simp add: algebra_simps)
  moreover have "4 dvd a" using assms(3) by auto
  ultimately show 4: "a + 4 \<le> unat q" by (auto elim!: dvdE)
  show "unat q \<le> a + 2 ^ j" using q div_mult_mod_eq [of a "2 ^ j"] by (simp add: algebra_simps)
  show "unat (q - 4) = unat q - 4" using 4 by (simp add: unat_sub word_le_nat_alt)
qed

lemma heap_rep_store [simp]: "heap_rep (heap_store_word a w h) L = heap_rep h L"
  by (simp add: heap_store_word_def)

lemma heap_idle_store [simp]: "heap_idle k (heap_store_word a w h) = heap_idle k h"
  by (simp add: heap_store_word_def)

lemma heap_rep_range: "heap_rep h L \<Longrightarrow> heap_ptr h + heap_end h + 12 \<le> 2 ^ 32"
  by (auto simp: heap_rep_def heap_inv_def heap_shape_def)

text \<open>What the caller of the aligned allocation gets.\<close>

definition aligned_region :: "u32 \<Rightarrow> nat \<Rightarrow> heap \<Rightarrow> (nat \<times> nat) set \<Rightarrow> heap \<Rightarrow> nat \<Rightarrow> nat \<Rightarrow> nat \<Rightarrow> bool" where
  "aligned_region sz al h L h' q a m \<longleftrightarrow>
     q mod al = 0 \<and> a + 4 \<le> q \<and> q + unat sz \<le> a + m \<and> heap_rep h' (insert (a, m) L) \<and> (\<forall>s \<in> L. apart (a, m) s) \<and>
     heap_load_word (q - 4) h' = of_nat a \<and>
     (\<forall>s \<in> L. \<forall>x. fst s \<le> x \<and> x < fst s + snd s \<longrightarrow> heap_byte h' x = heap_byte h x)"

lemma align_finish_region:
  assumes j: "2 \<le> j" "j < 31" and n: "unat n \<le> 2 ^ 32 - 4" "unat sz + 2 ^ j \<le> unat n"
    and new: "new_region n h L h1 a m" and f: "heap_byte h1 = heap_byte h" "heap_rep h L"
  shows "\<exists>q h'. align_finish (2 ^ j) (Some a) h1 = (Some q, h') \<and> aligned_region sz (2 ^ j) h L h' q a m \<and>
    heap_byte h' = heap_byte (heap_store_word (q - 4) (of_nat a) h1) \<and> (\<forall>k. heap_idle k h' = heap_idle k h1)"
proof -
  have a: "unat n \<le> m" "a mod 4 = 0" "heap_rep h1 (insert (a, m) L)" "\<forall>s \<in> L. apart (a, m) s" "a + m \<le> heap_ptr h + heap_end h"
    using new n(1) by (simp_all add: new_region_def)
  have am: "a + 2 ^ j < 2 ^ 32" using a n heap_rep_range [OF f(2)] by linarith
  let ?q = "align_ptr (2 ^ j) (of_nat a)"
  note q = align_ptr_inside [OF j a(2) am]
  let ?h = "heap_store_word (unat ?q - 4) (of_nat a) h1"
  have "heap_byte ?h x = heap_byte h x" if "s \<in> L" "fst s \<le> x" "x < fst s + snd s" for s x
  proof -
    have "apart (a, m) s" using a(4) that(1) by blast
    then have "\<not> (unat ?q - 4 \<le> x \<and> x < unat ?q - 4 + 4)" using that q(2,3) a(1) n(2) by (auto simp: apart_def)
    then show ?thesis using f(1) by (auto simp: heap_store_word_def)
  qed
  then have "aligned_region sz (2 ^ j) h L ?h (unat ?q) a m"
    using q a n load_store_word [of "unat ?q - 4" ?h "of_nat a" h1] by (simp add: aligned_region_def)
  then show ?thesis using q(4) by (simp add: align_finish_def Let_def)
qed

text \<open>C35: aligned allocation and release. For an alignment that is a power of two and sizes that do not overflow, \<^verbatim>\<open>rt_malloc_align\<close> gives nothing, or an address
  that is a multiple of the alignment, with the requested number of bytes behind it inside of a region that nobody else holds; other
  regions keep their contents. Whatever the owner writes behind the address, \<^verbatim>\<open>rt_free_align\<close> then frees exactly that region.\<close>

theorem rt_malloc_align_roundtrip:
  assumes "heap_idle k h" "heap_rep h L" "12 \<le> mem_size_aligned h" "2 \<le> j" "j < 31" "unat sz + 2 ^ j + 8 \<le> 2 ^ 32"
  shows "\<exists>r h'. rt_malloc_align sz (2 ^ j) k h = Some (Done r, k, h') \<and>
    (case r of
       None \<Rightarrow> h' = h
     | Some q \<Rightarrow> \<exists>a m. aligned_region sz (2 ^ j) h L h' q a m \<and>
         (\<forall>f. (\<forall>x < q. f x = heap_byte h' x) \<longrightarrow>
            (\<exists>h2. rt_free_align q k (h'\<lparr>heap_byte := f\<rparr>) = Some (Done (), k, h2) \<and> heap_rep h2 L)))"
proof -
  define n :: u32 where "n = ((sz + 3) AND NOT 3) + 2 ^ j"
  have al: "((2 ^ j + 3) AND NOT 3 :: u32) = 2 ^ j" using align_of_power assms(4,5) .
  have "unat ((sz + 3) AND NOT 3) = (unat sz + 3) div 4 * 4" using assms(6) by (intro unat_round_up) linarith
  moreover have "(unat sz + 3) div 4 * 4 \<le> unat sz + 3" "unat sz \<le> (unat sz + 3) div 4 * 4" by linarith+
  moreover have "unat (2 ^ j :: u32) = 2 ^ j" using assms(5) by (simp add: unat_power)
  ultimately have n: "unat sz + 2 ^ j \<le> unat n" "unat n \<le> 2 ^ 32 - 4"
    using assms(6) by (simp_all add: n_def unat_word_ariths)
  obtain r h1 where r: "rt_malloc n k h = Some (Done r, k, h1)" "heap_frame h h1"
    "case r of None \<Rightarrow> h1 = h | Some a \<Rightarrow> \<exists>m. new_region n h L h1 a m"
    using rt_malloc_rep [OF assms(1-3)] by blast
  have code: "rt_malloc_align sz (2 ^ j) k h = (let (p, h') = align_finish (2 ^ j) r h1 in Some (Done p, k, h'))"
    using r(1) al by (simp add: rt_malloc_align_def n_def Let_def split_beta)
  show ?thesis
  proof (cases r)
    case None
    then show ?thesis using r(3) code by (simp add: align_finish_def)
  next
    case (Some a)
    then obtain m where m: "new_region n h L h1 a m" using r(3) by auto
    obtain q h' where q: "align_finish (2 ^ j) (Some a) h1 = (Some q, h')" "aligned_region sz (2 ^ j) h L h' q a m"
      "heap_byte h' = heap_byte (heap_store_word (q - 4) (of_nat a) h1)" "heap_idle k h' = heap_idle k h1"
      using align_finish_region [OF assms(4,5) n(2,1) m _ assms(2)] r(2) by (auto simp: heap_frame_def)
    have idle: "heap_idle k h'" using q(4) heap_idle_frame [OF r(2)] assms(1) by simp
    have free: "\<exists>h2. rt_free_align q k (h'\<lparr>heap_byte := f\<rparr>) = Some (Done (), k, h2) \<and> heap_rep h2 L"
      if f: "\<forall>x < q. f x = heap_byte h' x" for f
    proof -
      let ?h = "h'\<lparr>heap_byte := f\<rparr>"
      have reg: "a + 4 \<le> q" "heap_rep h' (insert (a, m) L)" "heap_load_word (q - 4) h' = of_nat a" "\<forall>s \<in> L. apart (a, m) s"
        using q(2) by (simp_all add: aligned_region_def)
      have "heap_load_word (q - 4) ?h = heap_load_word (q - 4) h'" using f reg(1) by (simp add: heap_load_word_def)
      moreover have "0 < m" "0 < a" "a < 2 ^ 32" using m heap_rep_range [OF assms(2)] by (auto simp: new_region_def)
      moreover have "unat (of_nat a :: u32) = a" using \<open>a < 2 ^ 32\<close> by (simp add: unsigned_of_nat take_bit_nat_eq_self)
      moreover have "(of_nat a :: u32) \<noteq> 0" using calculation by (metis less_not_refl unat_0)
      ultimately have "rt_free_align q k ?h = rt_free (Some a) k ?h" using reg(3) by (simp add: rt_free_align_def)
      moreover have "insert (a, m) L - {(a, m)} = L" using reg(4) \<open>0 < m\<close> by (auto simp: apart_def)
      ultimately show ?thesis using rt_free_rep [of k ?h "insert (a, m) L" a m] idle reg(2) by auto
    qed
    then show ?thesis using code Some q(1,2) by auto
  qed
qed

theorem rt_malloc_align_roundtrip_witness:
  "\<exists>r h'. rt_malloc_align 10 (2 ^ 4) demo_heap_kernel demo_heap = Some (Done r, demo_heap_kernel, h') \<and>
    (case r of None \<Rightarrow> h' = demo_heap | Some q \<Rightarrow> q mod 16 = 0)"
proof -
  have "(12 :: nat) \<le> mem_size_aligned demo_heap" "unat (10 :: u32) + 2 ^ 4 + 8 \<le> 2 ^ 32" by (simp_all add: demo_heap_fields)
  from rt_malloc_align_roundtrip [OF demo_heap_idle demo_heap_rep this(1) _ _ this(2)] obtain r h' where
    *: "rt_malloc_align 10 (2 ^ 4) demo_heap_kernel demo_heap = Some (Done r, demo_heap_kernel, h')"
    "case r of None \<Rightarrow> h' = demo_heap | Some q \<Rightarrow> \<exists>a m. aligned_region 10 (2 ^ 4) demo_heap {(0x2000000c, 12)} h' q a m \<and>
      (\<forall>f. (\<forall>x < q. f x = heap_byte h' x) \<longrightarrow> (\<exists>h2. rt_free_align q demo_heap_kernel (h'\<lparr>heap_byte := f\<rparr>) =
        Some (Done (), demo_heap_kernel, h2) \<and> heap_rep h2 {(0x2000000c, 12)}))" by auto
  have "case r of None \<Rightarrow> h' = demo_heap | Some q \<Rightarrow> q mod 16 = 0" using *(2) by (cases r) (auto simp: aligned_region_def)
  then show ?thesis using *(1) by blast
qed

end
