(* ===== verification/Mailbox.thy ===== *)
theory Mailbox
  imports Channel
begin

text \<open>
  Mailboxes (\<^verbatim>\<open>rt_mb_*\<close> of \<^verbatim>\<open>src/ipc.c\<close>): a circular buffer of words with waiting receivers and waiting
  senders. A call that has to wait returns \<open>Blocked\<close> with its local variables; the function with the suffix
  \<open>_resumed\<close> runs the rest of the loop. The memory of the pool is a parameter where it comes from the heap.
\<close>

section \<open>Operations\<close>

definition upd_mb :: "nat \<Rightarrow> (rt_mailbox \<Rightarrow> rt_mailbox) \<Rightarrow> kernel \<Rightarrow> kernel" where
  "upd_mb b f k = k\<lparr>mailboxes := (mailboxes k)(b := f (mailboxes k b))\<rparr>"

definition rt_mb_init ::
  "nat \<Rightarrow> string \<Rightarrow> u32 list \<Rightarrow> u32 \<Rightarrow> u8 \<Rightarrow> kernel \<Rightarrow> (rt_err_t \<times> kernel) option" where
  "rt_mb_init b name msgpool len flag k = do {
     k \<leftarrow> rt_object_init (OMb b) RT_Object_Class_MailBox name k;
     let k = upd_obj (OMb b) (\<lambda>ob. ob\<lparr>obj_flag := flag\<rparr>) k;
     let k = rt_ipc_object_init (LMb b) k;
     let k = upd_mb b (\<lambda>_. \<lparr>mb_msg_pool = msgpool, mb_size = ucast len, mb_entry = 0,
                            mb_in_offset = 0, mb_out_offset = 0\<rparr>) k;
     Some (RT_EOK, rt_ipc_object_init (LMbSender b) k)
   }"

definition rt_mb_detach :: "nat \<Rightarrow> kernel \<Rightarrow> (rt_err_t \<times> kernel) option" where
  "rt_mb_detach b k = do {
     rt_assert (rt_object_get_type k (OMb b) = RT_Object_Class_MailBox);
     rt_assert (rt_object_is_systemobject k (OMb b));
     k \<leftarrow> rt_ipc_list_resume_all (LMb b) k;
     k \<leftarrow> rt_ipc_list_resume_all (LMbSender b) k;
     Some (RT_EOK, rt_object_detach (OMb b) k)
   }"

definition rt_mb_create ::
  "string \<Rightarrow> u32 \<Rightarrow> u8 \<Rightarrow> nat option \<Rightarrow> u32 list option \<Rightarrow> kernel \<Rightarrow> (nat option \<times> kernel) option" where
  "rt_mb_create name len flag mem pool k = do {
     rt_debug_not_in_interrupt k;
     (_, k) \<leftarrow> rt_object_allocate RT_Object_Class_MailBox name (map_option OMb mem) k;
     (case mem of
        None \<Rightarrow> Some (None, k)
      | Some b \<Rightarrow> do {
          let k = upd_obj (OMb b) (\<lambda>ob. ob\<lparr>obj_flag := flag\<rparr>) k;
          let k = rt_ipc_object_init (LMb b) k;
          let k = upd_mb b (\<lambda>mb. mb\<lparr>mb_size := ucast len\<rparr>) k;
          (case pool of
             None \<Rightarrow> do {
               k \<leftarrow> rt_object_delete (OMb b) k;
               Some (None, k)
             }
           | Some msgpool \<Rightarrow>
               let k = upd_mb b (\<lambda>mb. mb\<lparr>mb_msg_pool := msgpool, mb_entry := 0, mb_in_offset := 0,
                                         mb_out_offset := 0\<rparr>) k
               in Some (Some b, rt_ipc_object_init (LMbSender b) k))
        })
   }"

definition rt_mb_delete :: "nat \<Rightarrow> kernel \<Rightarrow> (rt_err_t \<times> kernel) option" where
  "rt_mb_delete b k = do {
     rt_debug_not_in_interrupt k;
     rt_assert (rt_object_get_type k (OMb b) = RT_Object_Class_MailBox);
     rt_assert (\<not> rt_object_is_systemobject k (OMb b));
     k \<leftarrow> rt_ipc_list_resume_all (LMb b) k;
     k \<leftarrow> rt_ipc_list_resume_all (LMbSender b) k;
     k \<leftarrow> rt_object_delete (OMb b) k;
     Some (RT_EOK, k)
   }"

text \<open>The circular buffer. An access outside of the pool has no result.\<close>

definition mb_next :: "rt_mailbox \<Rightarrow> u16 \<Rightarrow> u16" where
  "mb_next mb i = (if i + 1 \<ge> mb_size mb then 0 else i + 1)"

definition mb_put :: "u32 \<Rightarrow> rt_mailbox \<Rightarrow> rt_mailbox option" where
  "mb_put value mb = do {
     rt_assert (unat (mb_in_offset mb) < length (mb_msg_pool mb));
     Some (mb\<lparr>mb_msg_pool := (mb_msg_pool mb)[unat (mb_in_offset mb) := value],
              mb_in_offset := mb_next mb (mb_in_offset mb), mb_entry := mb_entry mb + 1\<rparr>)
   }"

definition mb_get :: "rt_mailbox \<Rightarrow> (u32 \<times> rt_mailbox) option" where
  "mb_get mb = do {
     rt_assert (unat (mb_out_offset mb) < length (mb_msg_pool mb));
     Some (mb_msg_pool mb ! unat (mb_out_offset mb),
           mb\<lparr>mb_out_offset := mb_next mb (mb_out_offset mb), mb_entry := mb_entry mb - 1\<rparr>)
   }"

definition mb_send_loop ::
  "nat \<Rightarrow> u32 \<Rightarrow> tid option \<Rightarrow> u32 \<Rightarrow> kernel \<Rightarrow> ((rt_err_t, waiter) outcome \<times> kernel) option" where
  "mb_send_loop b value thread timeout k =
     (if mb_entry (mailboxes k b) = mb_size (mailboxes k b) then do {
        t \<leftarrow> thread;
        let k = set_error t RT_EOK k;
        if timeout = 0 then Some (Done (- RT_EFULL), k)
        else do {
          rt_debug_in_thread_context k;
          let w = \<lparr>w_thread = t, w_timeout = timeout, w_start = rt_tick k\<rparr>;
          k \<leftarrow> ipc_wait (LMbSender b) (obj_flag (objs k (OMb b))) t timeout k;
          Some (Blocked w, k)
        }
      }
      else do {
        mb \<leftarrow> mb_put value (mailboxes k b);
        k \<leftarrow> resume_first (LMb b) (upd_mb b (\<lambda>_. mb) k);
        Some (Done RT_EOK, k)
      })"

definition rt_mb_send_wait ::
  "nat \<Rightarrow> u32 \<Rightarrow> u32 \<Rightarrow> kernel \<Rightarrow> ((rt_err_t, waiter) outcome \<times> kernel) option" where
  "rt_mb_send_wait b value timeout k = do {
     rt_assert (rt_object_get_type k (OMb b) = RT_Object_Class_MailBox);
     if mb_entry (mailboxes k b) = mb_size (mailboxes k b) \<and> timeout = 0 then Some (Done (- RT_EFULL), k)
     else mb_send_loop b value (rt_thread_self k) timeout k
   }"

definition rt_mb_send_wait_resumed ::
  "nat \<Rightarrow> u32 \<Rightarrow> waiter \<Rightarrow> kernel \<Rightarrow> ((rt_err_t, waiter) outcome \<times> kernel) option" where
  "rt_mb_send_wait_resumed b value w k =
     (if th_error (threads k (w_thread w)) \<noteq> RT_EOK then Some (Done (th_error (threads k (w_thread w))), k)
      else mb_send_loop b value (Some (w_thread w)) (remaining w (rt_tick k)) k)"

definition rt_mb_send :: "nat \<Rightarrow> u32 \<Rightarrow> kernel \<Rightarrow> ((rt_err_t, waiter) outcome \<times> kernel) option" where
  "rt_mb_send b value k = rt_mb_send_wait b value 0 k"

definition mb_recv_loop ::
  "nat \<Rightarrow> tid option \<Rightarrow> u32 \<Rightarrow> kernel \<Rightarrow> ((rt_err_t \<times> u32 option, waiter) outcome \<times> kernel) option" where
  "mb_recv_loop b thread timeout k =
     (if mb_entry (mailboxes k b) = 0 then do {
        t \<leftarrow> thread;
        let k = set_error t RT_EOK k;
        if timeout = 0 then Some (Done (- RT_ETIMEOUT, None), set_error t (- RT_ETIMEOUT) k)
        else do {
          rt_debug_in_thread_context k;
          let w = \<lparr>w_thread = t, w_timeout = timeout, w_start = rt_tick k\<rparr>;
          k \<leftarrow> ipc_wait (LMb b) (obj_flag (objs k (OMb b))) t timeout k;
          Some (Blocked w, k)
        }
      }
      else do {
        (value, mb) \<leftarrow> mb_get (mailboxes k b);
        k \<leftarrow> resume_first (LMbSender b) (upd_mb b (\<lambda>_. mb) k);
        Some (Done (RT_EOK, Some value), k)
      })"

definition rt_mb_recv ::
  "nat \<Rightarrow> u32 \<Rightarrow> kernel \<Rightarrow> ((rt_err_t \<times> u32 option, waiter) outcome \<times> kernel) option" where
  "rt_mb_recv b timeout k = do {
     rt_assert (rt_object_get_type k (OMb b) = RT_Object_Class_MailBox);
     if mb_entry (mailboxes k b) = 0 \<and> timeout = 0 then Some (Done (- RT_ETIMEOUT, None), k)
     else mb_recv_loop b (rt_thread_self k) timeout k
   }"

definition rt_mb_recv_resumed ::
  "nat \<Rightarrow> waiter \<Rightarrow> kernel \<Rightarrow> ((rt_err_t \<times> u32 option, waiter) outcome \<times> kernel) option" where
  "rt_mb_recv_resumed b w k =
     (if th_error (threads k (w_thread w)) \<noteq> RT_EOK then Some (Done (th_error (threads k (w_thread w)), None), k)
      else mb_recv_loop b (Some (w_thread w)) (remaining w (rt_tick k)) k)"

definition rt_mb_control :: "nat \<Rightarrow> int \<Rightarrow> kernel \<Rightarrow> (rt_err_t \<times> kernel) option" where
  "rt_mb_control b cmd k = do {
     rt_assert (rt_object_get_type k (OMb b) = RT_Object_Class_MailBox);
     if cmd = RT_IPC_CMD_RESET then do {
       k \<leftarrow> rt_ipc_list_resume_all (LMb b) k;
       k \<leftarrow> rt_ipc_list_resume_all (LMbSender b) k;
       let k = upd_mb b (\<lambda>mb. mb\<lparr>mb_entry := 0, mb_in_offset := 0, mb_out_offset := 0\<rparr>) k;
       k \<leftarrow> rt_schedule k;
       Some (RT_EOK, k)
     }
     else Some (- RT_ERROR, k)
   }"

section \<open>The circular buffer is a queue\<close>

definition mb_ok :: "rt_mailbox \<Rightarrow> bool" where
  "mb_ok mb \<longleftrightarrow>
     length (mb_msg_pool mb) = unat (mb_size mb) \<and> 0 < mb_size mb \<and> mb_entry mb \<le> mb_size mb \<and>
     mb_out_offset mb < mb_size mb \<and>
     unat (mb_in_offset mb) = (unat (mb_out_offset mb) + unat (mb_entry mb)) mod unat (mb_size mb)"

definition mb_contents :: "rt_mailbox \<Rightarrow> u32 list" where
  "mb_contents mb = ring_view (mb_msg_pool mb) (unat (mb_out_offset mb)) (unat (mb_entry mb))"

abbreviation mb_cap :: "rt_mailbox \<Rightarrow> nat" where
  "mb_cap mb \<equiv> unat (mb_size mb)"

abbreviation mb_full :: "rt_mailbox \<Rightarrow> bool" where
  "mb_full mb \<equiv> mb_entry mb = mb_size mb"

abbreviation mb_vacant :: "rt_mailbox \<Rightarrow> bool" where
  "mb_vacant mb \<equiv> mb_entry mb = 0"

lemma mb_contents_length [simp]: "length (mb_contents mb) = unat (mb_entry mb)"
  by (simp add: mb_contents_def)

lemma unat_mb_next:
  assumes "i < mb_size mb"
  shows "unat (mb_next mb i) = Suc (unat i) mod unat (mb_size mb)"
proof -
  have "unat i < unat (mb_size mb)" using assms by (simp add: word_less_nat_alt)
  moreover from this have "unat (i + 1) = Suc (unat i)" by (rule unat_Suc_less)
  ultimately show ?thesis by (auto simp: mb_next_def word_le_nat_alt mod_Suc)
qed

lemma mb_next_bound: "0 < mb_size mb \<Longrightarrow> mb_next mb i < mb_size mb"
  by (auto simp: mb_next_def)

lemma mb_put_step:
  assumes ok: "mb_ok mb" and f: "\<not> mb_full mb"
  shows "\<exists>mb'. mb_put a mb = Some mb' \<and> mb_ok mb' \<and> mb_contents mb' = mb_contents mb @ [a] \<and> mb_size mb' = mb_size mb"
proof -
  let ?n = "unat (mb_entry mb)" and ?o = "unat (mb_out_offset mb)" and ?s = "unat (mb_size mb)"
  have n: "?n < ?s" using ok f unfolding mb_ok_def by (metis order_le_less word_less_nat_alt)
  have s: "length (mb_msg_pool mb) = ?s" "unat (mb_in_offset mb) = (?o + ?n) mod ?s" using ok by (auto simp: mb_ok_def)
  have i: "unat (mb_in_offset mb) < ?s" using s(2) n by simp
  have e: "unat (mb_entry mb + 1) = Suc ?n" using n by (rule unat_Suc_less)
  let ?mb = "mb\<lparr>mb_msg_pool := (mb_msg_pool mb)[unat (mb_in_offset mb) := a],
              mb_in_offset := mb_next mb (mb_in_offset mb), mb_entry := mb_entry mb + 1\<rparr>"
  have "mb_put a mb = Some ?mb" using s(1) i by (simp add: mb_put_def)
  moreover have "mb_contents ?mb = mb_contents mb @ [a]"
    using ring_put [of ?n "mb_msg_pool mb" ?o a] n s e by (simp add: mb_contents_def)
  moreover have "mb_ok ?mb"
    using ok n e i s(2) unat_mb_next [of "mb_in_offset mb" mb]
    by (simp add: mb_ok_def word_le_nat_alt word_less_nat_alt mod_Suc_eq)
  ultimately show ?thesis by auto
qed

lemma mb_get_step:
  assumes ok: "mb_ok mb" and f: "\<not> mb_vacant mb"
  shows "\<exists>a mb'. mb_get mb = Some (a, mb') \<and> mb_ok mb' \<and> mb_contents mb = a # mb_contents mb' \<and> mb_size mb' = mb_size mb"
proof -
  let ?n = "unat (mb_entry mb)" and ?o = "unat (mb_out_offset mb)" and ?s = "unat (mb_size mb)"
  have n: "0 < ?n" using f by (simp add: unat_gt_0)
  have s: "length (mb_msg_pool mb) = ?s" "unat (mb_in_offset mb) = (?o + ?n) mod ?s" "?o < ?s"
    using ok by (auto simp: mb_ok_def word_less_nat_alt)
  have e: "unat (mb_entry mb - 1) = ?n - 1" using f by (rule unat_minus_one)
  let ?mb = "mb\<lparr>mb_out_offset := mb_next mb (mb_out_offset mb), mb_entry := mb_entry mb - 1\<rparr>"
  have o: "unat (mb_next mb (mb_out_offset mb)) = Suc ?o mod ?s"
    using ok by (intro unat_mb_next) (simp add: mb_ok_def)
  have "mb_get mb = Some (mb_msg_pool mb ! ?o, ?mb)" using s by (simp add: mb_get_def)
  moreover have "mb_contents mb = mb_msg_pool mb ! ?o # mb_contents ?mb"
    using ring_get [of ?n ?o "mb_msg_pool mb"] n s o e by (simp add: mb_contents_def)
  moreover have "(Suc ?o mod ?s + (?n - 1)) mod ?s = (?o + ?n) mod ?s"
    using n by (rule ring_advance)
  then have "mb_ok ?mb"
    using ok s e o mb_next_bound [of mb "mb_out_offset mb"] by (auto simp: mb_ok_def word_le_nat_alt)
  ultimately show ?thesis by auto
qed

interpretation mbq: bounded_queue mb_ok mb_contents mb_cap "\<lambda>_ _. True" mb_put mb_get mb_full mb_vacant
proof
  show "mb_full mb \<longleftrightarrow> \<not> length (mb_contents mb) < mb_cap mb" if "mb_ok mb" for mb
    using that by (auto simp: mb_ok_def word_le_nat_alt) (metis le_antisym linorder_not_less word_unat_eq_iff)
  show "mb_vacant mb \<longleftrightarrow> mb_contents mb = []" if "mb_ok mb" for mb
    using mb_contents_length [of mb] by (metis length_0_conv unat_eq_zero)
qed (use mb_put_step mb_get_step in fastforce)+

section \<open>Waiting and waking\<close>

lemma upd_mb_frame [simp]:
  "threads (upd_mb b f k) = threads k" "tlists (upd_mb b f k) = tlists k" "objs (upd_mb b f k) = objs k"
  "sched_inv (upd_mb b f k) = sched_inv k" "rt_current_thread (upd_mb b f k) = rt_current_thread k"
  "timers_same k0 (upd_mb b f k) = timers_same k0 k"
  "mailboxes (upd_mb b f k) b' = (if b' = b then f (mailboxes k b) else mailboxes k b')"
  "runnable (upd_mb b f k) t = runnable k t"
  by (simp_all add: upd_mb_def timers_same_def runnable_def thread_stat_def)

lemma base_inv_upd_mb [simp]: "base_inv k \<Longrightarrow> base_inv (upd_mb b f k)"
  by (auto simp: base_inv_def intro: timer_inv_write [of k])

lemma sched_same_upd_mb [simp]: "sched_same k (upd_mb b f k)"
  by (simp add: sched_same_def upd_mb_def timers_same_def thread_stat_def prio_def)

section \<open>The mailbox is a channel\<close>

definition mb_abs :: "kernel \<Rightarrow> nat \<Rightarrow> u32 chan_state" where
  "mb_abs k b = (mb_contents (mailboxes k b), tlists k (LMb b), tlists k (LMbSender b))"

interpretation mbc: channel mb_ok mb_contents mb_cap "\<lambda>_ _. True" mb_put mb_get mb_full mb_vacant
  "\<lambda>k. mailboxes k b" "\<lambda>mb. upd_mb b (\<lambda>_. mb)" "LMb b" "LMbSender b" "\<lambda>k. obj_flag (objs k (OMb b))" for b
  by unfold_locales (auto dest: ipc_sameD(4))

lemma mb_loops:
  "mb_send_loop b = mbc.send_loop b" "mb_recv_loop b = mbc.recv_loop b id" "mbc.chan b k = mb_abs k b"
  by (simp_all add: fun_eq_iff mb_send_loop_def mb_recv_loop_def mbc.send_loop_def mbc.recv_loop_def mbc.chan_def
      mb_abs_def)

text \<open>What both operations keep: the lower layers, every other mailbox, and the shape of this one.\<close>

definition mb_frame :: "nat \<Rightarrow> kernel \<Rightarrow> kernel \<Rightarrow> bool" where
  "mb_frame b k k' \<longleftrightarrow>
     base_inv k' \<and> mb_ok (mailboxes k' b) \<and> mb_cap (mailboxes k' b) = mb_cap (mailboxes k b) \<and>
     (\<forall>b'. b' \<noteq> b \<longrightarrow> mb_abs k' b' = mb_abs k b')"

lemma mb_frame_stepped: "mbc.stepped b k k' \<Longrightarrow> mb_frame b k k'"
  by (auto simp: mb_frame_def mbc.stepped_def mb_abs_def dest!: ipc_sameD(4))

text \<open>The whole calls, by the running thread or, without a time limit, in an interrupt.\<close>

lemma mb_full_iff: "mb_ok mb \<Longrightarrow> mb_full mb \<longleftrightarrow> \<not> length (mb_contents mb) < mb_cap mb"
  by (rule mbq.full_iff)

lemma mb_send_loop_refines:
  assumes "base_inv k" "mb_ok (mailboxes k b)" "ipc_flag (obj_flag (objs k (OMb b)))" "time_ok timeout"
    and "timeout \<noteq> 0 \<longrightarrow> in_thread k t"
  shows "\<exists>r k'. mb_send_loop b v (Some t) timeout k = Some (r, k') \<and> mbc.stepped b k k' \<and>
    (r, mb_abs k' b) = chan_send (enqueue (obj_flag (objs k (OMb b))) (prio k) t) (mb_cap (mailboxes k b))
      \<lparr>w_thread = t, w_timeout = timeout, w_start = rt_tick k\<rparr> v (mb_abs k b) \<and>
    (\<forall>u us. r = Done RT_EOK \<longrightarrow> tlists k (LMb b) = u # us \<longrightarrow> runnable k' u)"
  using mbc.send_loop_refines [OF assms(1,2) TrueI assms(3-5), of v] unfolding mb_loops .

lemma rt_mb_send_wait_step:
  assumes "base_inv k" "mb_ok (mailboxes k b)" "rt_object_get_type k (OMb b) = RT_Object_Class_MailBox"
    and "ipc_flag (obj_flag (objs k (OMb b)))" "time_ok timeout"
    and "rt_current_thread k = Some t" "timeout \<noteq> 0 \<longrightarrow> in_thread k t"
  shows "\<exists>r k'. rt_mb_send_wait b v timeout k = Some (r, k') \<and> mbc.stepped b k k' \<and>
    (r, mb_abs k' b) = chan_send (enqueue (obj_flag (objs k (OMb b))) (prio k) t) (mb_cap (mailboxes k b))
      \<lparr>w_thread = t, w_timeout = timeout, w_start = rt_tick k\<rparr> v (mb_abs k b) \<and>
    (\<forall>u us. r = Done RT_EOK \<longrightarrow> tlists k (LMb b) = u # us \<longrightarrow> runnable k' u)"
proof (cases "mb_full (mailboxes k b) \<and> timeout = 0")
  case True
  then have "rt_mb_send_wait b v timeout k = Some (Done (- 3), k)" using assms(3) by (simp add: rt_mb_send_wait_def)
  with True mbc.stepped_refl [OF assms(1,2)] mb_full_iff [OF assms(2)] show ?thesis
    by (simp add: chan_send_def mb_abs_def)
next
  case False
  then have "rt_mb_send_wait b v timeout k = mb_send_loop b v (Some t) timeout k"
    using assms(3,6) by (auto simp: rt_mb_send_wait_def rt_thread_self_def)
  with mb_send_loop_refines [OF assms(1,2,4,5,7), of v] show ?thesis by simp
qed

lemma rt_mb_recv_step:
  assumes "base_inv k" "mb_ok (mailboxes k b)" "rt_object_get_type k (OMb b) = RT_Object_Class_MailBox"
    and "ipc_flag (obj_flag (objs k (OMb b)))" "time_ok timeout"
    and "rt_current_thread k = Some t" "timeout \<noteq> 0 \<longrightarrow> in_thread k t"
  shows "\<exists>r k'. rt_mb_recv b timeout k = Some (r, k') \<and> mbc.stepped b k k' \<and>
    (r, mb_abs k' b) = chan_recv (enqueue (obj_flag (objs k (OMb b))) (prio k) t)
      \<lparr>w_thread = t, w_timeout = timeout, w_start = rt_tick k\<rparr> id (mb_abs k b) \<and>
    (\<forall>u us x. r = Done (RT_EOK, x) \<longrightarrow> tlists k (LMbSender b) = u # us \<longrightarrow> runnable k' u)"
proof (cases "mb_vacant (mailboxes k b) \<and> timeout = 0")
  case True
  then have "rt_mb_recv b timeout k = Some (Done (- 2, None), k)" using assms(3) by (simp add: rt_mb_recv_def)
  with True mbc.stepped_refl [OF assms(1,2)] mbq.vacant_iff [OF assms(2)] show ?thesis
    by (simp add: chan_recv_def mb_abs_def)
next
  case False
  then have "rt_mb_recv b timeout k = mb_recv_loop b (Some t) timeout k"
    using assms(3,6) by (auto simp: rt_mb_recv_def rt_thread_self_def)
  then show ?thesis using mbc.recv_loop_refines [OF assms(1,2,4,5,7), of id] by (simp add: mb_loops)
qed

section \<open>Properties\<close>

text \<open>C10: \<^verbatim>\<open>rt_mb_send_wait\<close> refines the abstract channel. It returns from every state of the running system,
  in a thread or, without a time limit, in an interrupt: the mail is appended and the first waiting receiver
  is made runnable; a full mailbox makes it fail with \<^verbatim>\<open>-RT_EFULL\<close> or queues the caller among the senders.
  The invariants hold after it and other mailboxes are left alone.\<close>

theorem rt_mb_send_wait_refines:
  assumes "base_inv k" "mb_ok (mailboxes k b)" "rt_object_get_type k (OMb b) = RT_Object_Class_MailBox"
    and "ipc_flag (obj_flag (objs k (OMb b)))" "time_ok timeout"
    and "rt_current_thread k = Some t" "timeout \<noteq> 0 \<longrightarrow> in_thread k t"
  shows "\<exists>r k'. rt_mb_send_wait b v timeout k = Some (r, k') \<and> mb_frame b k k' \<and>
    (r, mb_abs k' b) = chan_send (enqueue (obj_flag (objs k (OMb b))) (prio k) t) (mb_cap (mailboxes k b))
      \<lparr>w_thread = t, w_timeout = timeout, w_start = rt_tick k\<rparr> v (mb_abs k b) \<and>
    (\<forall>u us. r = Done RT_EOK \<longrightarrow> tlists k (LMb b) = u # us \<longrightarrow> runnable k' u)"
  using rt_mb_send_wait_step [OF assms] mb_frame_stepped by blast

text \<open>C11: \<^verbatim>\<open>rt_mb_recv\<close> refines the abstract channel: it delivers the oldest mail and makes the first waiting
  sender runnable, and on an empty mailbox fails with \<^verbatim>\<open>-RT_ETIMEOUT\<close> or queues the caller.\<close>

theorem rt_mb_recv_refines:
  assumes "base_inv k" "mb_ok (mailboxes k b)" "rt_object_get_type k (OMb b) = RT_Object_Class_MailBox"
    and "ipc_flag (obj_flag (objs k (OMb b)))" "time_ok timeout"
    and "rt_current_thread k = Some t" "timeout \<noteq> 0 \<longrightarrow> in_thread k t"
  shows "\<exists>r k'. rt_mb_recv b timeout k = Some (r, k') \<and> mb_frame b k k' \<and>
    (r, mb_abs k' b) = chan_recv (enqueue (obj_flag (objs k (OMb b))) (prio k) t)
      \<lparr>w_thread = t, w_timeout = timeout, w_start = rt_tick k\<rparr> id (mb_abs k b) \<and>
    (\<forall>u us x. r = Done (RT_EOK, x) \<longrightarrow> tlists k (LMbSender b) = u # us \<longrightarrow> runnable k' u)"
  using rt_mb_recv_step [OF assms] mb_frame_stepped by blast

text \<open>The example: mailbox 0 of the example system holds two mails at most and is empty.\<close>

definition demo_mb :: kernel where
  "demo_mb = upd_mb 0 (\<lambda>_. \<lparr>mb_msg_pool = [0, 0], mb_size = 2, mb_entry = 0, mb_in_offset = 1, mb_out_offset = 1\<rparr>)
     (demo_wait (LMb 0))"

lemma demo_mb_inv:
  "base_inv demo_mb" "mb_ok (mailboxes demo_mb 0)" "rt_object_get_type demo_mb (OMb 0) = RT_Object_Class_MailBox"
  "obj_flag (objs demo_mb (OMb 0)) = 0" "in_thread demo_mb 1" "mb_abs demo_mb 0 = ([], [3], [])"
  "mb_size (mailboxes demo_mb 0) = 2" "rt_current_thread demo_mb = Some 1"
proof -
  show "base_inv demo_mb" unfolding demo_mb_def by (simp add: base_inv_def demo_wait_inv timer_inv_write [of "demo_wait (LMb 0)"])
  show "mb_ok (mailboxes demo_mb 0)" by (simp add: demo_mb_def mb_ok_def)
  show "rt_object_get_type demo_mb (OMb 0) = RT_Object_Class_MailBox"
    by (simp add: rt_object_get_type_def demo_mb_def demo_wait_def demo_kernel_def) (simp add: oref_class_def)
  show "in_thread demo_mb 1" "obj_flag (objs demo_mb (OMb 0)) = 0" "rt_current_thread demo_mb = Some 1"
    by (simp_all add: in_thread_def demo_mb_def demo_wait_def demo_simps thread_stat_def upd_mb_def)
  show "mb_abs demo_mb 0 = ([], [3], [])"
    by (simp add: mb_abs_def mb_contents_def ring_view_def demo_mb_def demo_wait_def demo_simps)
  show "mb_size (mailboxes demo_mb 0) = 2" by (simp add: demo_mb_def)
qed

theorem rt_mb_send_wait_refines_witness:
  "\<exists>k'. rt_mb_send_wait 0 7 0 demo_mb = Some (Done RT_EOK, k') \<and> mb_abs k' 0 = ([7], [], []) \<and> runnable k' 3"
proof -
  have "tlists demo_mb (LMb 0) = [3]" using demo_mb_inv(6) by (simp add: mb_abs_def)
  moreover have "time_ok 0" by (simp add: time_ok_def)
  ultimately show ?thesis
    using rt_mb_send_wait_refines [of demo_mb 0 0 1 7] demo_mb_inv by (auto simp: ipc_flag_def chan_send_def)
qed

theorem rt_mb_recv_refines_witness:
  "\<exists>r k'. rt_mb_recv 0 5 demo_mb = Some (r, k') \<and> mb_abs k' 0 = ([], [3, 1], [])"
proof -
  have "time_ok 5" by (simp add: time_ok_def RT_TICK_HALF_def)
  then show ?thesis
    using rt_mb_recv_refines [of demo_mb 0 5 1] demo_mb_inv by (auto simp: ipc_flag_def chan_recv_def enqueue_def)
qed

text \<open>The circular buffer of a mailbox behaves like a bounded list under every sequence of guarded
  insertions and removals: the mails come out unchanged, each once, in the order they went in.\<close>

theorem mb_queue_fifo:
  assumes "mb_ok mb"
  shows "\<exists>mb'. queue_run mb_put mb_get mb_full mb_vacant ops mb =
      Some (fst (list_run (mb_cap mb) ops (mb_contents mb)), mb') \<and> mb_ok mb' \<and>
    mb_contents mb' = snd (list_run (mb_cap mb) ops (mb_contents mb))"
  using mbq.run_refines [OF assms, of ops] by (auto simp: list_all_iff)

theorem mb_queue_fifo_witness:
  "\<exists>mb'. queue_run mb_put mb_get mb_full mb_vacant [Put 4, Put 5, Put 6, Get, Put 7, Get, Get] (mailboxes demo_mb 0) =
      Some ([4, 5, 7], mb') \<and> mb_contents mb' = []"
proof -
  have "list_run 2 [Put 4, Put 5, Put 6, Get, Put 7, Get, Get] [] = ([4, 5, 7 :: u32], [])" by simp
  moreover have "mb_contents (mailboxes demo_mb 0) = []" "mb_cap (mailboxes demo_mb 0) = 2"
    using demo_mb_inv(6,7) by (simp_all add: mb_abs_def)
  ultimately show ?thesis
    using mb_queue_fifo [OF demo_mb_inv(2), of "[Put 4, Put 5, Put 6, Get, Put 7, Get, Get]"]
    by (metis fst_conv snd_conv)
qed

text \<open>What happens when a blocked sender runs again. An error code is returned as it is; otherwise the
  sender tries again, with the part of its time limit that has not elapsed, and never more than it had.\<close>

theorem rt_mb_send_wait_resumes:
  assumes "base_inv k" "mb_ok (mailboxes k b)" "ipc_flag (obj_flag (objs k (OMb b)))"
    and "in_thread k (w_thread w)" "time_ok (w_timeout w)" "0 < sint (w_timeout w)"
    and "unat (rt_tick k - w_start w) < 2 ^ 31"
  shows "\<exists>r k'. rt_mb_send_wait_resumed b v w k = Some (r, k') \<and> base_inv k' \<and>
    (if th_error (threads k (w_thread w)) \<noteq> RT_EOK then r = Done (th_error (threads k (w_thread w))) \<and> k' = k
     else unat (remaining w (rt_tick k)) = unat (w_timeout w) - unat (rt_tick k - w_start w) \<and>
       (r, mb_abs k' b) = chan_send (enqueue (obj_flag (objs k (OMb b))) (prio k) (w_thread w))
         (mb_cap (mailboxes k b)) \<lparr>w_thread = w_thread w, w_timeout = remaining w (rt_tick k), w_start = rt_tick k\<rparr>
         v (mb_abs k b))"
proof (cases "th_error (threads k (w_thread w)) = RT_EOK")
  case False
  with assms(1) show ?thesis by (simp add: rt_mb_send_wait_resumed_def)
next
  case True
  have r: "unat (remaining w (rt_tick k)) = unat (w_timeout w) - unat (rt_tick k - w_start w)"
    using remaining_exact [OF assms(6,7)] .
  then have "remaining w (rt_tick k) \<le> w_timeout w" by (simp add: word_le_nat_alt)
  moreover have "w_timeout w < RT_TICK_HALF" using assms(5,6) by (simp add: time_ok_def)
  ultimately have "time_ok (remaining w (rt_tick k))" by (auto simp: time_ok_def intro: order_le_less_trans)
  from mb_send_loop_refines [OF assms(1-3) this, of "w_thread w" v] assms(4) r True show ?thesis
    by (auto simp: rt_mb_send_wait_resumed_def mbc.stepped_def)
qed

theorem rt_mb_send_wait_resumes_witness:
  "\<exists>r k'. rt_mb_send_wait_resumed 0 9 \<lparr>w_thread = 1, w_timeout = 5, w_start = - 2\<rparr> demo_mb = Some (r, k') \<and>
     unat (remaining \<lparr>w_thread = 1, w_timeout = 5, w_start = - 2\<rparr> (rt_tick demo_mb)) = 3"
proof -
  have t: "rt_tick demo_mb = 0" "th_error (threads demo_mb 1) = 0"
    by (simp_all add: demo_mb_def demo_wait_def demo_simps upd_mb_def)
  moreover have "time_ok 5" by (simp add: time_ok_def RT_TICK_HALF_def)
  ultimately show ?thesis
    using rt_mb_send_wait_resumes [of demo_mb 0 "\<lparr>w_thread = 1, w_timeout = 5, w_start = - 2\<rparr>" 9] demo_mb_inv
    by (auto simp: ipc_flag_def)
qed

end
