(* ===== verification/Message_Queue.thy ===== *)
theory Message_Queue
  imports Mailbox Chain
begin

text \<open>
  Message queues (\<^verbatim>\<open>rt_mq_*\<close> of \<^verbatim>\<open>src/ipc.c\<close>): messages of a fixed size in the nodes of a pool; free nodes and
  queued nodes form two singly linked lists. The operations that the code performs with interrupts disabled
  are definitions of their own (\<open>mq_take_free\<close>, \<open>mq_link_tail\<close>, \<open>mq_link_head\<close>, \<open>mq_unlink\<close>, \<open>mq_give_back\<close>),
  because the code copies the message with interrupts enabled in between.
\<close>

section \<open>Operations\<close>

definition upd_mq :: "nat \<Rightarrow> (rt_messagequeue \<Rightarrow> rt_messagequeue) \<Rightarrow> kernel \<Rightarrow> kernel" where
  "upd_mq q f k = k\<lparr>msgqueues := (msgqueues k)(q := f (msgqueues k q))\<rparr>"

abbreviation (input) RT_ALIGN_SIZE :: u32 where "RT_ALIGN_SIZE \<equiv> 4"

definition mq_give_back :: "nat \<Rightarrow> rt_messagequeue \<Rightarrow> rt_messagequeue" where
  "mq_give_back msg mq = mq\<lparr>mq_next := (mq_next mq)(msg := mq_free mq), mq_free := Some msg\<rparr>"

definition mq_free_list :: "rt_messagequeue \<Rightarrow> rt_messagequeue" where
  "mq_free_list mq =
     fold mq_give_back [0..<unat (mq_max_msgs mq)] (mq\<lparr>mq_head := None, mq_tail := None, mq_free := None\<rparr>)"

definition rt_mq_init ::
  "nat \<Rightarrow> string \<Rightarrow> (nat \<Rightarrow> u8 list) \<Rightarrow> u32 \<Rightarrow> u32 \<Rightarrow> u8 \<Rightarrow> kernel \<Rightarrow> (rt_err_t \<times> kernel) option" where
  "rt_mq_init q name msgpool msgsz pool_size flag k = do {
     k \<leftarrow> rt_object_init (OMq q) RT_Object_Class_MessageQueue name k;
     let k = upd_obj (OMq q) (\<lambda>ob. ob\<lparr>obj_flag := flag\<rparr>) k;
     let k = rt_ipc_object_init (LMq q) k;
     let sz = (ucast (RT_ALIGN msgsz RT_ALIGN_SIZE) :: u16);
     let k = upd_mq q (\<lambda>mq. mq\<lparr>mq_data := msgpool, mq_msg_size := sz,
                               mq_max_msgs := ucast (pool_size div (ucast sz + 4))\<rparr>) k;
     let k = upd_mq q mq_free_list k;
     let k = upd_mq q (\<lambda>mq. mq\<lparr>mq_entry := 0\<rparr>) k;
     Some (RT_EOK, rt_ipc_object_init (LMqSender q) k)
   }"

definition rt_mq_detach :: "nat \<Rightarrow> kernel \<Rightarrow> (rt_err_t \<times> kernel) option" where
  "rt_mq_detach q k = do {
     rt_assert (rt_object_get_type k (OMq q) = RT_Object_Class_MessageQueue);
     rt_assert (rt_object_is_systemobject k (OMq q));
     k \<leftarrow> rt_ipc_list_resume_all (LMq q) k;
     k \<leftarrow> rt_ipc_list_resume_all (LMqSender q) k;
     Some (RT_EOK, rt_object_detach (OMq q) k)
   }"

definition rt_mq_create ::
  "string \<Rightarrow> u32 \<Rightarrow> u32 \<Rightarrow> u8 \<Rightarrow> nat option \<Rightarrow> (nat \<Rightarrow> u8 list) option \<Rightarrow> kernel \<Rightarrow> (nat option \<times> kernel) option" where
  "rt_mq_create name msgsz max_msgs flag mem pool k = do {
     rt_debug_not_in_interrupt k;
     (_, k) \<leftarrow> rt_object_allocate RT_Object_Class_MessageQueue name (map_option OMq mem) k;
     (case mem of
        None \<Rightarrow> Some (None, k)
      | Some q \<Rightarrow> do {
          let k = upd_obj (OMq q) (\<lambda>ob. ob\<lparr>obj_flag := flag\<rparr>) k;
          let k = rt_ipc_object_init (LMq q) k;
          let k = upd_mq q (\<lambda>mq. mq\<lparr>mq_msg_size := ucast (RT_ALIGN msgsz RT_ALIGN_SIZE),
                                    mq_max_msgs := ucast max_msgs\<rparr>) k;
          (case pool of
             None \<Rightarrow> do {
               k \<leftarrow> rt_object_delete (OMq q) k;
               Some (None, k)
             }
           | Some msgpool \<Rightarrow>
               let k = upd_mq q (\<lambda>mq. mq_free_list (mq\<lparr>mq_data := msgpool\<rparr>)) k;
                   k = upd_mq q (\<lambda>mq. mq\<lparr>mq_entry := 0\<rparr>) k
               in Some (Some q, rt_ipc_object_init (LMqSender q) k))
        })
   }"

definition rt_mq_delete :: "nat \<Rightarrow> kernel \<Rightarrow> (rt_err_t \<times> kernel) option" where
  "rt_mq_delete q k = do {
     rt_debug_not_in_interrupt k;
     rt_assert (rt_object_get_type k (OMq q) = RT_Object_Class_MessageQueue);
     rt_assert (\<not> rt_object_is_systemobject k (OMq q));
     k \<leftarrow> rt_ipc_list_resume_all (LMq q) k;
     k \<leftarrow> rt_ipc_list_resume_all (LMqSender q) k;
     k \<leftarrow> rt_object_delete (OMq q) k;
     Some (RT_EOK, k)
   }"

definition mq_take_free :: "rt_messagequeue \<Rightarrow> (nat \<times> rt_messagequeue) option" where
  "mq_take_free mq = do {
     msg \<leftarrow> mq_free mq;
     Some (msg, mq\<lparr>mq_free := mq_next mq msg\<rparr>)
   }"

definition mq_copy :: "nat \<Rightarrow> u8 list \<Rightarrow> rt_messagequeue \<Rightarrow> rt_messagequeue" where
  "mq_copy msg buffer mq =
     mq\<lparr>mq_data := (mq_data mq)(msg := buffer @ drop (length buffer) (mq_data mq msg))\<rparr>"

definition mq_link_tail :: "nat \<Rightarrow> rt_messagequeue \<Rightarrow> rt_messagequeue" where
  "mq_link_tail msg mq =
     (let mq = (case mq_tail mq of None \<Rightarrow> mq | Some tail \<Rightarrow> mq\<lparr>mq_next := (mq_next mq)(tail := Some msg)\<rparr>);
          mq = mq\<lparr>mq_tail := Some msg\<rparr>;
          mq = (if mq_head mq = None then mq\<lparr>mq_head := Some msg\<rparr> else mq)
      in mq\<lparr>mq_entry := mq_entry mq + 1\<rparr>)"

definition mq_put :: "u8 list \<Rightarrow> rt_messagequeue \<Rightarrow> rt_messagequeue option" where
  "mq_put buffer mq = do {
     (msg, mq) \<leftarrow> mq_take_free mq;
     let mq = mq\<lparr>mq_next := (mq_next mq)(msg := None)\<rparr>;
     Some (mq_link_tail msg (mq_copy msg buffer mq))
   }"

definition mq_link_head :: "nat \<Rightarrow> rt_messagequeue \<Rightarrow> rt_messagequeue" where
  "mq_link_head msg mq =
     (let mq = mq\<lparr>mq_next := (mq_next mq)(msg := mq_head mq), mq_head := Some msg\<rparr>;
          mq = (if mq_tail mq = None then mq\<lparr>mq_tail := Some msg\<rparr> else mq)
      in mq\<lparr>mq_entry := mq_entry mq + 1\<rparr>)"

definition mq_put_urgent :: "u8 list \<Rightarrow> rt_messagequeue \<Rightarrow> rt_messagequeue option" where
  "mq_put_urgent buffer mq = do {
     (msg, mq) \<leftarrow> mq_take_free mq;
     Some (mq_link_head msg (mq_copy msg buffer mq))
   }"

definition mq_unlink :: "rt_messagequeue \<Rightarrow> (nat \<times> rt_messagequeue) option" where
  "mq_unlink mq = do {
     msg \<leftarrow> mq_head mq;
     let mq = mq\<lparr>mq_head := mq_next mq msg\<rparr>;
     let mq = (if mq_tail mq = Some msg then mq\<lparr>mq_tail := None\<rparr> else mq);
     Some (msg, mq\<lparr>mq_entry := mq_entry mq - 1\<rparr>)
   }"

definition mq_get :: "nat \<Rightarrow> rt_messagequeue \<Rightarrow> (u8 list \<times> rt_messagequeue) option" where
  "mq_get len mq = do {
     (msg, mq) \<leftarrow> mq_unlink mq;
     let buffer = take (if len > unat (mq_msg_size mq) then unat (mq_msg_size mq) else len) (mq_data mq msg);
     Some (buffer, mq_give_back msg mq)
   }"

definition mq_send_loop ::
  "nat \<Rightarrow> u8 list \<Rightarrow> tid option \<Rightarrow> u32 \<Rightarrow> kernel \<Rightarrow> ((rt_err_t, waiter) outcome \<times> kernel) option" where
  "mq_send_loop q buffer thread timeout k =
     (if mq_free (msgqueues k q) = None then do {
        t \<leftarrow> thread;
        let k = set_error t RT_EOK k;
        if timeout = 0 then Some (Done (- RT_EFULL), k)
        else do {
          rt_debug_in_thread_context k;
          let w = \<lparr>w_thread = t, w_timeout = timeout, w_start = rt_tick k\<rparr>;
          k \<leftarrow> ipc_wait (LMqSender q) (obj_flag (objs k (OMq q))) t timeout k;
          Some (Blocked w, k)
        }
      }
      else do {
        mq \<leftarrow> mq_put buffer (msgqueues k q);
        k \<leftarrow> resume_first (LMq q) (upd_mq q (\<lambda>_. mq) k);
        Some (Done RT_EOK, k)
      })"

definition rt_mq_send_wait ::
  "nat \<Rightarrow> u8 list \<Rightarrow> u32 \<Rightarrow> kernel \<Rightarrow> ((rt_err_t, waiter) outcome \<times> kernel) option" where
  "rt_mq_send_wait q buffer timeout k = do {
     rt_assert (rt_object_get_type k (OMq q) = RT_Object_Class_MessageQueue);
     rt_assert (buffer \<noteq> []);
     if length buffer > unat (mq_msg_size (msgqueues k q)) then Some (Done (- RT_ERROR), k)
     else if mq_free (msgqueues k q) = None \<and> timeout = 0 then Some (Done (- RT_EFULL), k)
     else mq_send_loop q buffer (rt_thread_self k) timeout k
   }"

definition rt_mq_send_wait_resumed ::
  "nat \<Rightarrow> u8 list \<Rightarrow> waiter \<Rightarrow> kernel \<Rightarrow> ((rt_err_t, waiter) outcome \<times> kernel) option" where
  "rt_mq_send_wait_resumed q buffer w k =
     (if th_error (threads k (w_thread w)) \<noteq> RT_EOK then Some (Done (th_error (threads k (w_thread w))), k)
      else mq_send_loop q buffer (Some (w_thread w)) (remaining w (rt_tick k)) k)"

definition rt_mq_send :: "nat \<Rightarrow> u8 list \<Rightarrow> kernel \<Rightarrow> ((rt_err_t, waiter) outcome \<times> kernel) option" where
  "rt_mq_send q buffer k = rt_mq_send_wait q buffer 0 k"

definition rt_mq_urgent :: "nat \<Rightarrow> u8 list \<Rightarrow> kernel \<Rightarrow> (rt_err_t \<times> kernel) option" where
  "rt_mq_urgent q buffer k = do {
     rt_assert (rt_object_get_type k (OMq q) = RT_Object_Class_MessageQueue);
     rt_assert (buffer \<noteq> []);
     if length buffer > unat (mq_msg_size (msgqueues k q)) then Some (- RT_ERROR, k)
     else if mq_free (msgqueues k q) = None then Some (- RT_EFULL, k)
     else do {
       mq \<leftarrow> mq_put_urgent buffer (msgqueues k q);
       k \<leftarrow> resume_first (LMq q) (upd_mq q (\<lambda>_. mq) k);
       Some (RT_EOK, k)
     }
   }"

definition mq_recv_loop ::
  "nat \<Rightarrow> nat \<Rightarrow> tid option \<Rightarrow> u32 \<Rightarrow> kernel \<Rightarrow> ((rt_err_t \<times> u8 list option, waiter) outcome \<times> kernel) option" where
  "mq_recv_loop q len thread timeout k =
     (if mq_entry (msgqueues k q) = 0 then do {
        rt_debug_in_thread_context k;
        t \<leftarrow> thread;
        let k = set_error t RT_EOK k;
        if timeout = 0 then Some (Done (- RT_ETIMEOUT, None), set_error t (- RT_ETIMEOUT) k)
        else do {
          let w = \<lparr>w_thread = t, w_timeout = timeout, w_start = rt_tick k\<rparr>;
          k \<leftarrow> ipc_wait (LMq q) (obj_flag (objs k (OMq q))) t timeout k;
          Some (Blocked w, k)
        }
      }
      else do {
        (buffer, mq) \<leftarrow> mq_get len (msgqueues k q);
        k \<leftarrow> resume_first (LMqSender q) (upd_mq q (\<lambda>_. mq) k);
        Some (Done (RT_EOK, Some buffer), k)
      })"

definition rt_mq_recv ::
  "nat \<Rightarrow> nat \<Rightarrow> u32 \<Rightarrow> kernel \<Rightarrow> ((rt_err_t \<times> u8 list option, waiter) outcome \<times> kernel) option" where
  "rt_mq_recv q len timeout k = do {
     rt_assert (rt_object_get_type k (OMq q) = RT_Object_Class_MessageQueue);
     rt_assert (len \<noteq> 0);
     if mq_entry (msgqueues k q) = 0 \<and> timeout = 0 then Some (Done (- RT_ETIMEOUT, None), k)
     else mq_recv_loop q len (rt_thread_self k) timeout k
   }"

definition rt_mq_recv_resumed ::
  "nat \<Rightarrow> nat \<Rightarrow> waiter \<Rightarrow> kernel \<Rightarrow> ((rt_err_t \<times> u8 list option, waiter) outcome \<times> kernel) option" where
  "rt_mq_recv_resumed q len w k =
     (if th_error (threads k (w_thread w)) \<noteq> RT_EOK then Some (Done (th_error (threads k (w_thread w)), None), k)
      else mq_recv_loop q len (Some (w_thread w)) (remaining w (rt_tick k)) k)"

text \<open>The loop of \<^verbatim>\<open>rt_mq_control\<close> that frees the queued messages.\<close>

partial_function (option) mq_release_all :: "rt_messagequeue \<Rightarrow> rt_messagequeue option" where
  "mq_release_all mq =
     (case mq_head mq of
        None \<Rightarrow> Some mq
      | Some msg \<Rightarrow>
          let mq = mq\<lparr>mq_head := mq_next mq msg\<rparr>;
              mq = (if mq_tail mq = Some msg then mq\<lparr>mq_tail := None\<rparr> else mq)
          in mq_release_all (mq_give_back msg mq))"

definition rt_mq_control :: "nat \<Rightarrow> int \<Rightarrow> kernel \<Rightarrow> (rt_err_t \<times> kernel) option" where
  "rt_mq_control q cmd k = do {
     rt_assert (rt_object_get_type k (OMq q) = RT_Object_Class_MessageQueue);
     if cmd = RT_IPC_CMD_RESET then do {
       k \<leftarrow> rt_ipc_list_resume_all (LMq q) k;
       k \<leftarrow> rt_ipc_list_resume_all (LMqSender q) k;
       mq \<leftarrow> mq_release_all (msgqueues k q);
       k \<leftarrow> rt_schedule (upd_mq q (\<lambda>_. mq\<lparr>mq_entry := 0\<rparr>) k);
       Some (RT_EOK, k)
     }
     else Some (- RT_ERROR, k)
   }"

section \<open>The two lists\<close>

text \<open>\<open>mq_rep F qs fs mq\<close>: the nodes \<open>qs\<close> are queued, \<open>fs\<close> are free and \<open>F\<close> are in the hands of the threads
  that copy messages; these are all the nodes of the pool.\<close>

definition mq_rep :: "nat set \<Rightarrow> nat list \<Rightarrow> nat list \<Rightarrow> rt_messagequeue \<Rightarrow> bool" where
  "mq_rep F qs fs mq \<longleftrightarrow>
     chain (mq_next mq) (mq_head mq) qs \<and> chain (mq_next mq) (mq_free mq) fs \<and>
     distinct (qs @ fs) \<and> F \<inter> set (qs @ fs) = {} \<and> F \<union> set (qs @ fs) = {..<unat (mq_max_msgs mq)} \<and>
     mq_tail mq = (if qs = [] then None else Some (last qs)) \<and> unat (mq_entry mq) = length qs \<and>
     (\<forall>i < unat (mq_max_msgs mq). length (mq_data mq i) = unat (mq_msg_size mq))"

definition mq_ok :: "rt_messagequeue \<Rightarrow> bool" where
  "mq_ok mq \<longleftrightarrow> (\<exists>qs fs. mq_rep {} qs fs mq)"

definition mq_contents :: "rt_messagequeue \<Rightarrow> u8 list list" where
  "mq_contents mq = map (mq_data mq) (walk (mq_next mq) (unat (mq_entry mq)) (mq_head mq))"

lemma mq_repD:
  assumes "mq_rep F qs fs mq"
  shows "chain (mq_next mq) (mq_head mq) qs" "chain (mq_next mq) (mq_free mq) fs" "distinct qs" "distinct fs"
    "set qs \<inter> set fs = {}" "F \<inter> set qs = {}" "F \<inter> set fs = {}" "F \<union> set qs \<union> set fs = {..<unat (mq_max_msgs mq)}"
    "mq_tail mq = (if qs = [] then None else Some (last qs))" "unat (mq_entry mq) = length qs"
    "i < unat (mq_max_msgs mq) \<Longrightarrow> length (mq_data mq i) = unat (mq_msg_size mq)"
  using assms by (auto simp: mq_rep_def)

lemma mq_rep_contents: "mq_rep F qs fs mq \<Longrightarrow> mq_contents mq = map (mq_data mq) qs"
  using walk_chain [of "mq_next mq" "mq_head mq" qs] by (simp add: mq_rep_def mq_contents_def)

lemma mq_rep_bound:
  assumes "mq_rep F qs fs mq"
  shows "length qs + length fs + card F = unat (mq_max_msgs mq)" "finite F"
proof -
  note d = mq_repD [OF assms]
  have "finite (F \<union> set qs \<union> set fs)" using d(8) by simp
  then show fin: "finite F" by simp
  have "card (F \<union> (set qs \<union> set fs)) = card F + card (set qs \<union> set fs)"
    using fin d(6,7) by (intro card_Un_disjoint) auto
  moreover have "card (set qs \<union> set fs) = length qs + length fs"
    using d(3-5) by (simp add: card_Un_disjoint distinct_card)
  ultimately show "length qs + length fs + card F = unat (mq_max_msgs mq)"
    using arg_cong [OF d(8), of card] by (simp add: Un_assoc)
qed

lemma mq_rep_take:
  assumes "mq_rep F qs (x # fs) mq"
  shows "mq_take_free mq = Some (x, mq\<lparr>mq_free := mq_next mq x\<rparr>)"
    "mq_rep (insert x F) qs fs (mq\<lparr>mq_free := mq_next mq x\<rparr>)"
  using assms by (auto simp: mq_rep_def mq_take_free_def)

lemma mq_rep_copy:
  assumes "mq_rep F qs fs mq" "x \<in> F" "length buffer \<le> unat (mq_msg_size mq)"
  shows "mq_rep F qs fs (mq_copy x buffer mq)"
  using assms by (auto simp: mq_rep_def mq_copy_def)

lemma mq_rep_clear:
  assumes "mq_rep F qs fs mq" "x \<in> F"
  shows "mq_rep F qs fs (mq\<lparr>mq_next := (mq_next mq)(x := p)\<rparr>)"
proof -
  have "x \<notin> set qs" "x \<notin> set fs" using assms by (auto simp: mq_rep_def)
  then show ?thesis using assms(1) by (simp add: mq_rep_def)
qed

lemma mq_entry_Suc:
  assumes "mq_rep F qs fs mq" "x \<in> F"
  shows "unat (mq_entry mq + 1) = Suc (length qs)"
proof -
  have "0 < card F" using assms mq_rep_bound(2) [OF assms(1)] by (auto simp: card_gt_0_iff)
  then have "unat (mq_entry mq) < unat (mq_max_msgs mq)"
    using mq_rep_bound(1) [OF assms(1)] mq_repD(10) [OF assms(1)] by linarith
  then show ?thesis using unat_Suc_less mq_repD(10) [OF assms(1)] by metis
qed

lemma mq_link_tail_simps [simp]:
  "mq_free (mq_link_tail x mq) = mq_free mq" "mq_data (mq_link_tail x mq) = mq_data mq"
  "mq_max_msgs (mq_link_tail x mq) = mq_max_msgs mq" "mq_msg_size (mq_link_tail x mq) = mq_msg_size mq"
  "mq_tail (mq_link_tail x mq) = Some x" "mq_entry (mq_link_tail x mq) = mq_entry mq + 1"
  "mq_head (mq_link_tail x mq) = (if mq_head mq = None then Some x else mq_head mq)"
  "mq_next (mq_link_tail x mq) = (case mq_tail mq of None \<Rightarrow> mq_next mq | Some t \<Rightarrow> (mq_next mq)(t := Some x))"
  by (simp_all add: mq_link_tail_def Let_def split: option.split)

lemma mq_rep_link_tail:
  assumes r: "mq_rep F qs fs mq" and x: "x \<in> F" and n: "mq_next mq x = None"
  shows "mq_rep (F - {x}) (qs @ [x]) fs (mq_link_tail x mq)"
proof -
  note d = mq_repD [OF r] and e = mq_entry_Suc [OF r x]
  have off: "x \<notin> set qs" "x \<notin> set fs" using x d(6,7) by auto
  have "chain (mq_next (mq_link_tail x mq)) (mq_head (mq_link_tail x mq)) (qs @ [x]) \<and>
      chain (mq_next (mq_link_tail x mq)) (mq_free mq) fs"
  proof (cases qs rule: rev_cases)
    case Nil
    then show ?thesis using d(1,2,9) n by simp
  next
    case (snoc ys y)
    have "chain ((mq_next mq)(x := None, y := Some x)) (mq_head mq) (ys @ [y, x])"
      using d(1,3) off(1) snoc by (intro chain_snoc) auto
    moreover have "(mq_next mq)(x := None) = mq_next mq" using n by auto
    moreover have "mq_head mq \<noteq> None" using d(1) snoc by (cases ys) auto
    moreover have "y \<notin> set fs" using d(5) snoc by auto
    ultimately show ?thesis using d(2,9) snoc by auto
  qed
  then show ?thesis using d off x e unfolding mq_rep_def by auto
qed

lemma mq_rep_link_head:
  assumes r: "mq_rep F qs fs mq" and x: "x \<in> F"
  shows "mq_rep (F - {x}) (x # qs) fs (mq_link_head x mq)"
proof -
  note d = mq_repD [OF r] and e = mq_entry_Suc [OF r x]
  have off: "x \<notin> set qs" "x \<notin> set fs" using x d(6,7) by auto
  show ?thesis using d off x e unfolding mq_rep_def mq_link_head_def by (auto simp: Let_def)
qed

lemma mq_rep_unlink:
  assumes r: "mq_rep F (x # qs) fs mq"
  shows "\<exists>mq'. mq_unlink mq = Some (x, mq') \<and> mq_rep (insert x F) qs fs mq' \<and> mq_data mq' = mq_data mq \<and>
    mq_msg_size mq' = mq_msg_size mq \<and> mq_max_msgs mq' = mq_max_msgs mq"
proof -
  note d = mq_repD [OF r]
  have "mq_entry mq \<noteq> 0" using d(10) by auto
  then have e: "unat (mq_entry mq - 1) = length qs" using d(10) unat_minus_one [of "mq_entry mq"] by simp
  have l: "last (x # qs) = x \<longleftrightarrow> qs = []" using d(3) by auto
  show ?thesis using d e l unfolding mq_rep_def mq_unlink_def by (auto simp: Let_def)
qed

lemma mq_rep_give_back:
  assumes r: "mq_rep F qs fs mq" and x: "x \<in> F"
  shows "mq_rep (F - {x}) qs (x # fs) (mq_give_back x mq)"
proof -
  note d = mq_repD [OF r]
  have off: "x \<notin> set qs" "x \<notin> set fs" using x d(6,7) by auto
  show ?thesis using d off x unfolding mq_rep_def mq_give_back_def by auto
qed

section \<open>The message queue is a channel\<close>

text \<open>A message shorter than a node leaves the old bytes of the node behind it. (With no free node the
  message is not stored and the filling does not matter.)\<close>

definition mq_pad :: "u8 list \<Rightarrow> rt_messagequeue \<Rightarrow> u8 list" where
  "mq_pad buffer mq =
     buffer @ (case mq_free mq of None \<Rightarrow> replicate (unat (mq_msg_size mq) - length buffer) 0
               | Some x \<Rightarrow> drop (length buffer) (mq_data mq x))"

abbreviation mq_cap :: "rt_messagequeue \<Rightarrow> nat" where
  "mq_cap mq \<equiv> unat (mq_max_msgs mq)"

abbreviation mq_item :: "rt_messagequeue \<Rightarrow> u8 list \<Rightarrow> bool" where
  "mq_item mq buffer \<equiv> length buffer = unat (mq_msg_size mq)"

abbreviation mq_full :: "rt_messagequeue \<Rightarrow> bool" where
  "mq_full mq \<equiv> mq_free mq = None"

abbreviation mq_vacant :: "rt_messagequeue \<Rightarrow> bool" where
  "mq_vacant mq \<equiv> mq_entry mq = 0"

definition mq_same_shape :: "rt_messagequeue \<Rightarrow> rt_messagequeue \<Rightarrow> bool" where
  "mq_same_shape mq mq' \<longleftrightarrow> mq_max_msgs mq' = mq_max_msgs mq \<and> mq_msg_size mq' = mq_msg_size mq"

lemma mq_link_head_simps [simp]:
  "mq_free (mq_link_head x mq) = mq_free mq" "mq_data (mq_link_head x mq) = mq_data mq"
  "mq_max_msgs (mq_link_head x mq) = mq_max_msgs mq" "mq_msg_size (mq_link_head x mq) = mq_msg_size mq"
  by (simp_all add: mq_link_head_def Let_def)

lemma mq_small_simps [simp]:
  "mq_max_msgs (mq_copy x b mq) = mq_max_msgs mq" "mq_msg_size (mq_copy x b mq) = mq_msg_size mq"
  "mq_next (mq_copy x b mq) = mq_next mq"
  "mq_max_msgs (mq_give_back x mq) = mq_max_msgs mq" "mq_msg_size (mq_give_back x mq) = mq_msg_size mq"
  "mq_data (mq_give_back x mq) = mq_data mq" "mq_head (mq_give_back x mq) = mq_head mq"
  "mq_tail (mq_give_back x mq) = mq_tail mq"
  by (simp_all add: mq_copy_def mq_give_back_def)

lemma mq_okE:
  assumes "mq_ok mq"
  obtains qs fs where "mq_rep {} qs fs mq"
  using assms by (auto simp: mq_ok_def)

lemma mq_full_chain: "mq_rep F qs fs mq \<Longrightarrow> mq_full mq \<longleftrightarrow> fs = []"
  by (cases fs) (auto simp: mq_rep_def)

lemma mq_full_iff:
  assumes "mq_ok mq"
  shows "mq_full mq \<longleftrightarrow> \<not> length (mq_contents mq) < mq_cap mq"
proof -
  obtain qs fs where r: "mq_rep {} qs fs mq" using assms by (rule mq_okE)
  have "length qs + length fs = mq_cap mq" using mq_rep_bound(1) [OF r] by simp
  then show ?thesis using mq_full_chain [OF r] mq_rep_contents [OF r] by (cases fs) auto
qed

lemma mq_taken:
  assumes ok: "mq_ok mq" and f: "\<not> mq_full mq" and l: "length a \<le> unat (mq_msg_size mq)"
  obtains x qs fs mq1 where "mq_take_free mq = Some (x, mq1)" "mq_rep {x} qs fs (mq_copy x a mq1)" "mq_rep {x} qs fs mq1"
    "mq_contents mq = map (mq_data (mq_copy x a mq1)) qs" "mq_data (mq_copy x a mq1) x = mq_pad a mq"
    "mq_same_shape mq mq1"
proof -
  obtain qs fs where r: "mq_rep {} qs fs mq" using ok by (rule mq_okE)
  then obtain x fs' where fs: "fs = x # fs'" using f mq_full_chain [OF r] by (cases fs) auto
  let ?mq1 = "mq\<lparr>mq_free := mq_next mq x\<rparr>"
  have t: "mq_take_free mq = Some (x, ?mq1)" "mq_rep {x} qs fs' ?mq1" using mq_rep_take r fs by simp_all
  have "mq_rep {x} qs fs' (mq_copy x a ?mq1)" using mq_rep_copy [OF t(2), of x a] l by simp
  moreover have "x \<notin> set qs" "mq_free mq = Some x" using r fs by (auto simp: mq_rep_def)
  ultimately show ?thesis
    using that [OF t(1) _ t(2)] mq_rep_contents [OF r] by (simp add: mq_copy_def mq_pad_def mq_same_shape_def)
qed

lemma mq_put_step:
  assumes "mq_ok mq" "\<not> mq_full mq" "length a \<le> unat (mq_msg_size mq)"
  shows "\<exists>mq'. mq_put a mq = Some mq' \<and> mq_ok mq' \<and> mq_contents mq' = mq_contents mq @ [mq_pad a mq] \<and>
    mq_same_shape mq mq'"
proof -
  obtain x qs fs mq1 where t: "mq_take_free mq = Some (x, mq1)" "mq_rep {x} qs fs (mq_copy x a mq1)" "mq_rep {x} qs fs mq1"
    "mq_contents mq = map (mq_data (mq_copy x a mq1)) qs" "mq_data (mq_copy x a mq1) x = mq_pad a mq"
    "mq_same_shape mq mq1" using assms by (rule mq_taken)
  let ?mq2 = "mq_copy x a (mq1\<lparr>mq_next := (mq_next mq1)(x := None)\<rparr>)"
  have "mq_rep {x} qs fs ?mq2"
    using mq_rep_copy [OF mq_rep_clear [OF t(3), of x None], of x a] assms(3) t(6) by (simp add: mq_same_shape_def)
  then have r: "mq_rep {} (qs @ [x]) fs (mq_link_tail x ?mq2)" using mq_rep_link_tail [of "{x}" qs fs ?mq2 x] by simp
  moreover have "mq_data ?mq2 = mq_data (mq_copy x a mq1)" by (simp add: mq_copy_def)
  ultimately show ?thesis
    using t(1,4-6) mq_rep_contents [OF r] by (auto simp: mq_put_def mq_ok_def mq_same_shape_def)
qed

lemma mq_put_urgent_step:
  assumes "mq_ok mq" "\<not> mq_full mq" "length a \<le> unat (mq_msg_size mq)"
  shows "\<exists>mq'. mq_put_urgent a mq = Some mq' \<and> mq_ok mq' \<and> mq_contents mq' = mq_pad a mq # mq_contents mq \<and>
    mq_same_shape mq mq'"
proof -
  obtain x qs fs mq1 where t: "mq_take_free mq = Some (x, mq1)" "mq_rep {x} qs fs (mq_copy x a mq1)" "mq_rep {x} qs fs mq1"
    "mq_contents mq = map (mq_data (mq_copy x a mq1)) qs" "mq_data (mq_copy x a mq1) x = mq_pad a mq"
    "mq_same_shape mq mq1" using assms by (rule mq_taken)
  have r: "mq_rep {} (x # qs) fs (mq_link_head x (mq_copy x a mq1))" using mq_rep_link_head [OF t(2), of x] by simp
  then show ?thesis
    using t(1,4-6) mq_rep_contents [OF r] by (auto simp: mq_put_urgent_def mq_ok_def mq_same_shape_def)
qed

lemma mq_get_step:
  assumes "mq_ok mq" "\<not> mq_vacant mq"
  shows "\<exists>a mq'. mq_get len mq = Some (take len a, mq') \<and> mq_ok mq' \<and> mq_contents mq = a # mq_contents mq' \<and>
    length a = unat (mq_msg_size mq) \<and> mq_same_shape mq mq'"
proof -
  obtain qs fs where r: "mq_rep {} qs fs mq" using assms(1) by (rule mq_okE)
  have "length qs \<noteq> 0" using mq_repD(10) [OF r] assms(2) by (metis unat_eq_zero)
  then obtain x qs' where qs: "qs = x # qs'" by (cases qs) auto
  then obtain mq1 where u: "mq_unlink mq = Some (x, mq1)" "mq_rep {x} qs' fs mq1" "mq_data mq1 = mq_data mq"
    "mq_msg_size mq1 = mq_msg_size mq" "mq_max_msgs mq1 = mq_max_msgs mq" using mq_rep_unlink [of "{}" x qs' fs mq] r by auto
  have g: "mq_rep {} qs' (x # fs) (mq_give_back x mq1)" using mq_rep_give_back [OF u(2), of x] by simp
  have "x < unat (mq_max_msgs mq)" using mq_repD(8) [OF r] qs by auto
  then have l: "length (mq_data mq x) = unat (mq_msg_size mq)" using mq_repD(11) [OF r] by simp
  have "mq_get len mq = Some (take len (mq_data mq x), mq_give_back x mq1)"
    using u l by (simp add: mq_get_def)
  moreover have "mq_contents mq = mq_data mq x # mq_contents (mq_give_back x mq1)"
    using mq_rep_contents [OF r] mq_rep_contents [OF g] qs u(3) by simp
  ultimately show ?thesis using g l u(4,5) by (auto simp: mq_ok_def mq_same_shape_def)
qed

lemma mq_free_bound: "mq_rep F qs fs mq \<Longrightarrow> mq_free mq = Some x \<Longrightarrow> x < mq_cap mq"
  by (cases fs) (auto simp: mq_rep_def)

lemma mq_pad_length:
  assumes "mq_ok mq" "length a \<le> unat (mq_msg_size mq)"
  shows "length (mq_pad a mq) = unat (mq_msg_size mq)"
proof -
  obtain qs fs where r: "mq_rep {} qs fs mq" using assms(1) by (rule mq_okE)
  then show ?thesis
    using mq_free_bound [OF r] mq_repD(11) [OF r] assms(2) by (auto simp: mq_pad_def split: option.split)
qed

lemma mq_pad_full: "mq_item mq a \<Longrightarrow> mq_ok mq \<Longrightarrow> mq_pad a mq = a"
  using mq_pad_length [of mq a] by (simp add: mq_pad_def)

lemma mq_put_pad:
  assumes "mq_ok mq" "length a \<le> unat (mq_msg_size mq)"
  shows "mq_put (mq_pad a mq) mq = mq_put a mq"
proof (cases "mq_free mq")
  case (Some x)
  obtain qs fs where r: "mq_rep {} qs fs mq" using assms(1) by (rule mq_okE)
  have "length (mq_data mq x) = unat (mq_msg_size mq)" using mq_free_bound [OF r Some] mq_repD(11) [OF r] by simp
  then show ?thesis using Some assms(2) by (simp add: mq_put_def mq_take_free_def mq_copy_def mq_pad_def)
qed (simp add: mq_put_def mq_take_free_def)

text \<open>The blocks of the queue are read whole.\<close>

definition mq_get_block :: "rt_messagequeue \<Rightarrow> (u8 list \<times> rt_messagequeue) option" where
  "mq_get_block mq = mq_get (unat (mq_msg_size mq)) mq"

interpretation mqq: bounded_queue mq_ok mq_contents mq_cap mq_item mq_put mq_get_block mq_full mq_vacant
proof
  show "\<exists>mq'. mq_put a mq = Some mq' \<and> mq_ok mq' \<and> mq_contents mq' = mq_contents mq @ [a] \<and> mq_cap mq' = mq_cap mq \<and>
      mq_item mq' = mq_item mq" if "mq_ok mq" "mq_item mq a" "\<not> mq_full mq" for mq a
    using mq_put_step [of mq a] mq_pad_full [of a mq] that by (auto simp: mq_same_shape_def)
  show "\<exists>a mq'. mq_get_block mq = Some (a, mq') \<and> mq_ok mq' \<and> mq_contents mq = a # mq_contents mq' \<and>
      mq_cap mq' = mq_cap mq \<and> mq_item mq' = mq_item mq" if "mq_ok mq" "\<not> mq_vacant mq" for mq
    using mq_get_step [OF that, of "unat (mq_msg_size mq)"] by (auto simp: mq_get_block_def mq_same_shape_def)
  show "mq_vacant mq \<longleftrightarrow> mq_contents mq = []" if "mq_ok mq" for mq
  proof -
    obtain qs fs where r: "mq_rep {} qs fs mq" using \<open>mq_ok mq\<close> by (rule mq_okE)
    then show ?thesis using mq_repD(10) [OF r] mq_rep_contents [OF r] by (metis length_0_conv map_is_Nil_conv unat_eq_zero)
  qed
qed (rule mq_full_iff)

lemma upd_mq_frame [simp]:
  "threads (upd_mq b f k) = threads k" "tlists (upd_mq b f k) = tlists k" "objs (upd_mq b f k) = objs k"
  "sched_inv (upd_mq b f k) = sched_inv k" "rt_current_thread (upd_mq b f k) = rt_current_thread k"
  "timers_same k0 (upd_mq b f k) = timers_same k0 k"
  "msgqueues (upd_mq b f k) b' = (if b' = b then f (msgqueues k b) else msgqueues k b')"
  "runnable (upd_mq b f k) t = runnable k t"
  by (simp_all add: upd_mq_def timers_same_def runnable_def thread_stat_def)

lemma base_inv_upd_mq [simp]: "base_inv k \<Longrightarrow> base_inv (upd_mq b f k)"
  by (auto simp: base_inv_def intro: timer_inv_write [of k])

lemma sched_same_upd_mq [simp]: "sched_same k (upd_mq b f k)"
  by (simp add: sched_same_def upd_mq_def timers_same_def thread_stat_def prio_def)

definition mq_abs :: "kernel \<Rightarrow> nat \<Rightarrow> u8 list chan_state" where
  "mq_abs k q = (mq_contents (msgqueues k q), tlists k (LMq q), tlists k (LMqSender q))"

interpretation mqc: channel mq_ok mq_contents mq_cap mq_item mq_put mq_get_block mq_full mq_vacant
  "\<lambda>k. msgqueues k q" "\<lambda>mq. upd_mq q (\<lambda>_. mq)" "LMq q" "LMqSender q" "\<lambda>k. obj_flag (objs k (OMq q))" for q
  by unfold_locales (auto dest: ipc_sameD(5))

lemma mq_get_view:
  assumes "mq_ok mq" "\<not> mq_vacant mq"
  shows "\<exists>a mq'. mq_get_block mq = Some (a, mq') \<and> mq_get len mq = Some (take len a, mq')"
proof -
  obtain a mq' where g: "mq_get len mq = Some (take len a, mq')" "length a = unat (mq_msg_size mq)"
    "mq_contents mq = a # mq_contents mq'" using mq_get_step [OF assms, of len] by blast
  obtain a' mq'' where h: "mq_get_block mq = Some (a', mq'')" "mq_contents mq = a' # mq_contents mq''"
    using mqq.get_step [OF assms] by blast
  have "a' = a" using g(3) h(2) by simp
  moreover have "mq'' = mq'" using g(1) h(1) by (auto simp: mq_get_block_def mq_get_def bind_Some_iff)
  ultimately show ?thesis using g h by blast
qed

lemma mq_loops:
  assumes "mq_ok (msgqueues k q)"
  shows "length a \<le> unat (mq_msg_size (msgqueues k q)) \<Longrightarrow>
      mq_send_loop q a th timeout k = mqc.send_loop q (mq_pad a (msgqueues k q)) th timeout k"
    and "in_thread k t \<or> mq_entry (msgqueues k q) \<noteq> 0 \<Longrightarrow>
      mq_recv_loop q len th timeout k = mqc.recv_loop q (take len) th timeout k"
    and "mqc.chan q k = mq_abs k q"
proof -
  show "length a \<le> unat (mq_msg_size (msgqueues k q)) \<Longrightarrow>
      mq_send_loop q a th timeout k = mqc.send_loop q (mq_pad a (msgqueues k q)) th timeout k"
    using mq_put_pad [OF assms] by (simp add: mq_send_loop_def mqc.send_loop_def)
  show "mqc.chan q k = mq_abs k q" by (simp add: mqc.chan_def mq_abs_def)
  assume "in_thread k t \<or> mq_entry (msgqueues k q) \<noteq> 0"
  then show "mq_recv_loop q len th timeout k = mqc.recv_loop q (take len) th timeout k"
  proof (cases "mq_entry (msgqueues k q) = 0")
    case True
    then show ?thesis
      using \<open>in_thread k t \<or> mq_entry (msgqueues k q) \<noteq> 0\<close>
      by (cases th) (auto simp: mq_recv_loop_def mqc.recv_loop_def Let_def in_thread_def rt_debug_in_thread_context_def)
  next
    case False
    from mq_get_view [OF assms False, of len] False show ?thesis
      by (auto simp: mq_recv_loop_def mqc.recv_loop_def)
  qed
qed

definition mq_frame :: "nat \<Rightarrow> kernel \<Rightarrow> kernel \<Rightarrow> bool" where
  "mq_frame q k k' \<longleftrightarrow>
     base_inv k' \<and> mq_ok (msgqueues k' q) \<and> mq_cap (msgqueues k' q) = mq_cap (msgqueues k q) \<and>
     mq_item (msgqueues k' q) = mq_item (msgqueues k q) \<and> objs k' (OMq q) = objs k (OMq q) \<and>
     (\<forall>q'. q' \<noteq> q \<longrightarrow> mq_abs k' q' = mq_abs k q')"

lemma mq_frame_stepped:
  assumes "mqc.stepped q k k'"
  shows "mq_frame q k k'"
proof -
  obtain k0 where k0: "k0 = k \<or> (\<exists>mq. k0 = upd_mq q (\<lambda>_. mq) k)" "ipc_same k0 k'"
    using assms by (auto simp: mqc.stepped_def)
  have "msgqueues k' q' = msgqueues k q'" if "q' \<noteq> q" for q'
    using ipc_sameD(5) [OF k0(2)] k0(1) that by auto
  moreover have "objs k' (OMq q) = objs k (OMq q)" using ipc_sameD(12) [OF k0(2), of "OMq q"] k0(1) by auto
  ultimately show ?thesis using assms by (simp add: mq_frame_def mqc.stepped_def mq_abs_def)
qed

lemma mq_send_loop_refines:
  assumes "base_inv k" "mq_ok (msgqueues k q)" "ipc_flag (obj_flag (objs k (OMq q)))" "time_ok timeout"
    and "timeout \<noteq> 0 \<longrightarrow> in_thread k t" "length a \<le> unat (mq_msg_size (msgqueues k q))"
  shows "\<exists>r k'. mq_send_loop q a (Some t) timeout k = Some (r, k') \<and> mqc.stepped q k k' \<and>
    (r, mq_abs k' q) = chan_send (enqueue (obj_flag (objs k (OMq q))) (prio k) t) (mq_cap (msgqueues k q))
      \<lparr>w_thread = t, w_timeout = timeout, w_start = rt_tick k\<rparr> (mq_pad a (msgqueues k q)) (mq_abs k q) \<and>
    (\<forall>u us. r = Done RT_EOK \<longrightarrow> tlists k (LMq q) = u # us \<longrightarrow> runnable k' u)"
proof -
  have "mqc.chan q k' = mq_abs k' q" for k' by (simp add: mqc.chan_def mq_abs_def)
  then show ?thesis
    using mqc.send_loop_refines [OF assms(1,2) mq_pad_length [OF assms(2,6)] assms(3-5)]
      mq_loops(1) [OF assms(2,6)] by metis
qed

lemma mq_recv_loop_refines:
  assumes "base_inv k" "mq_ok (msgqueues k q)" "ipc_flag (obj_flag (objs k (OMq q)))" "time_ok timeout"
    and "in_thread k t \<or> timeout = 0 \<and> mq_entry (msgqueues k q) \<noteq> 0"
  shows "\<exists>r k'. mq_recv_loop q len (Some t) timeout k = Some (r, k') \<and> mqc.stepped q k k' \<and>
    (r, mq_abs k' q) = chan_recv (enqueue (obj_flag (objs k (OMq q))) (prio k) t)
      \<lparr>w_thread = t, w_timeout = timeout, w_start = rt_tick k\<rparr> (take len) (mq_abs k q) \<and>
    (\<forall>u us x. r = Done (RT_EOK, x) \<longrightarrow> tlists k (LMqSender q) = u # us \<longrightarrow> runnable k' u)"
proof -
  have "mqc.chan q k' = mq_abs k' q" for k' by (simp add: mqc.chan_def mq_abs_def)
  moreover have "mq_recv_loop q len (Some t) timeout k = mqc.recv_loop q (take len) (Some t) timeout k"
    using mq_loops(2) [OF assms(2), of t] assms(5) by blast
  moreover have "timeout \<noteq> 0 \<longrightarrow> in_thread k t" using assms(5) by blast
  ultimately show ?thesis
    using mqc.recv_loop_refines [OF assms(1-4), of t "take len"] by metis
qed

lemma rt_mq_send_wait_step:
  assumes "base_inv k" "mq_ok (msgqueues k q)" "rt_object_get_type k (OMq q) = RT_Object_Class_MessageQueue"
    and "ipc_flag (obj_flag (objs k (OMq q)))" "time_ok timeout" "a \<noteq> []"
    and "rt_current_thread k = Some t" "timeout \<noteq> 0 \<longrightarrow> in_thread k t"
  shows "\<exists>r k'. rt_mq_send_wait q a timeout k = Some (r, k') \<and> mqc.stepped q k k' \<and>
    (r, mq_abs k' q) =
      (if unat (mq_msg_size (msgqueues k q)) < length a then (Done (- RT_ERROR), mq_abs k q)
       else chan_send (enqueue (obj_flag (objs k (OMq q))) (prio k) t) (mq_cap (msgqueues k q))
         \<lparr>w_thread = t, w_timeout = timeout, w_start = rt_tick k\<rparr> (mq_pad a (msgqueues k q)) (mq_abs k q)) \<and>
    (\<forall>u us. r = Done RT_EOK \<longrightarrow> tlists k (LMq q) = u # us \<longrightarrow> runnable k' u)"
proof -
  have fr: "mqc.stepped q k k" using mqc.stepped_refl assms(1,2) by blast
  consider (long) "unat (mq_msg_size (msgqueues k q)) < length a"
    | (poll) "\<not> unat (mq_msg_size (msgqueues k q)) < length a" "mq_full (msgqueues k q)" "timeout = 0"
    | (loop) "\<not> unat (mq_msg_size (msgqueues k q)) < length a" "\<not> (mq_full (msgqueues k q) \<and> timeout = 0)" by argo
  then show ?thesis
  proof cases
    case long
    with assms(3,6) fr show ?thesis by (simp add: rt_mq_send_wait_def)
  next
    case poll
    with assms(3,6) fr mq_full_iff [OF assms(2)] show ?thesis by (simp add: rt_mq_send_wait_def chan_send_def mq_abs_def)
  next
    case loop
    then have "rt_mq_send_wait q a timeout k = mq_send_loop q a (Some t) timeout k"
      using assms(3,6,7) by (auto simp: rt_mq_send_wait_def rt_thread_self_def)
    with loop mq_send_loop_refines [OF assms(1,2,4,5,8), of a] show ?thesis by simp
  qed
qed

lemma rt_mq_recv_step:
  assumes "base_inv k" "mq_ok (msgqueues k q)" "rt_object_get_type k (OMq q) = RT_Object_Class_MessageQueue"
    and "ipc_flag (obj_flag (objs k (OMq q)))" "time_ok timeout" "len \<noteq> 0"
    and "rt_current_thread k = Some t" "timeout \<noteq> 0 \<longrightarrow> in_thread k t"
  shows "\<exists>r k'. rt_mq_recv q len timeout k = Some (r, k') \<and> mqc.stepped q k k' \<and>
    (r, mq_abs k' q) = chan_recv (enqueue (obj_flag (objs k (OMq q))) (prio k) t)
      \<lparr>w_thread = t, w_timeout = timeout, w_start = rt_tick k\<rparr> (take len) (mq_abs k q) \<and>
    (\<forall>u us x. r = Done (RT_EOK, x) \<longrightarrow> tlists k (LMqSender q) = u # us \<longrightarrow> runnable k' u)"
proof (cases "mq_vacant (msgqueues k q) \<and> timeout = 0")
  case True
  have "mqc.stepped q k k" using mqc.stepped_refl assms(1,2) by blast
  with True assms(3,6) mqq.vacant_iff [OF assms(2)] show ?thesis
    by (simp add: rt_mq_recv_def chan_recv_def mq_abs_def)
next
  case False
  then have "rt_mq_recv q len timeout k = mq_recv_loop q len (Some t) timeout k"
    using assms(3,6,7) by (auto simp: rt_mq_recv_def rt_thread_self_def)
  moreover have "in_thread k t \<or> timeout = 0 \<and> mq_entry (msgqueues k q) \<noteq> 0" using False assms(8) by blast
  ultimately show ?thesis using mq_recv_loop_refines [OF assms(1,2,4,5), of t len] by simp
qed

section \<open>Properties\<close>

text \<open>C12: \<^verbatim>\<open>rt_mq_send_wait\<close> refines the abstract channel: a message that is too long is refused with
  \<^verbatim>\<open>-RT_ERROR\<close>, otherwise it is appended (followed by the old bytes of its node when it is shorter than a
  node) and the first waiting receiver is woken, or the queue is full and the call fails with
  \<^verbatim>\<open>-RT_EFULL\<close> or waits. Invariants are kept and other queues are left alone.\<close>

theorem rt_mq_send_wait_refines:
  assumes "base_inv k" "mq_ok (msgqueues k q)" "rt_object_get_type k (OMq q) = RT_Object_Class_MessageQueue"
    and "ipc_flag (obj_flag (objs k (OMq q)))" "time_ok timeout" "a \<noteq> []"
    and "rt_current_thread k = Some t" "timeout \<noteq> 0 \<longrightarrow> in_thread k t"
  shows "\<exists>r k'. rt_mq_send_wait q a timeout k = Some (r, k') \<and> mq_frame q k k' \<and>
    (r, mq_abs k' q) =
      (if unat (mq_msg_size (msgqueues k q)) < length a then (Done (- RT_ERROR), mq_abs k q)
       else chan_send (enqueue (obj_flag (objs k (OMq q))) (prio k) t) (mq_cap (msgqueues k q))
         \<lparr>w_thread = t, w_timeout = timeout, w_start = rt_tick k\<rparr> (mq_pad a (msgqueues k q)) (mq_abs k q)) \<and>
    (\<forall>u us. r = Done RT_EOK \<longrightarrow> tlists k (LMq q) = u # us \<longrightarrow> runnable k' u)"
  using rt_mq_send_wait_step [OF assms] mq_frame_stepped by blast

text \<open>C13: \<^verbatim>\<open>rt_mq_recv\<close> refines the abstract channel: it delivers the first bytes of the oldest message, as many
  as the caller asks for and a message has, frees its node and wakes the first waiting sender; on an empty
  queue it fails with \<^verbatim>\<open>-RT_ETIMEOUT\<close> or waits.\<close>

theorem rt_mq_recv_refines:
  assumes "base_inv k" "mq_ok (msgqueues k q)" "rt_object_get_type k (OMq q) = RT_Object_Class_MessageQueue"
    and "ipc_flag (obj_flag (objs k (OMq q)))" "time_ok timeout" "len \<noteq> 0"
    and "rt_current_thread k = Some t" "timeout \<noteq> 0 \<longrightarrow> in_thread k t"
  shows "\<exists>r k'. rt_mq_recv q len timeout k = Some (r, k') \<and> mq_frame q k k' \<and>
    (r, mq_abs k' q) = chan_recv (enqueue (obj_flag (objs k (OMq q))) (prio k) t)
      \<lparr>w_thread = t, w_timeout = timeout, w_start = rt_tick k\<rparr> (take len) (mq_abs k q) \<and>
    (\<forall>u us x. r = Done (RT_EOK, x) \<longrightarrow> tlists k (LMqSender q) = u # us \<longrightarrow> runnable k' u)"
  using rt_mq_recv_step [OF assms] mq_frame_stepped by blast

section \<open>Initialisation and reset\<close>

lemma mq_give_back_chain:
  "chain (mq_next mq) (mq_free mq) xs \<Longrightarrow> x \<notin> set xs \<Longrightarrow>
     chain (mq_next (mq_give_back x mq)) (mq_free (mq_give_back x mq)) (x # xs)"
  by (simp add: mq_give_back_def)

lemma mq_free_list_fold:
  fixes mq :: rt_messagequeue and n :: nat
  defines "mq' \<equiv> fold mq_give_back [0..<n] (mq\<lparr>mq_head := None, mq_tail := None, mq_free := None\<rparr>)"
  shows "chain (mq_next mq') (mq_free mq') (rev [0..<n]) \<and> mq_head mq' = None \<and> mq_tail mq' = None \<and>
    mq_max_msgs mq' = mq_max_msgs mq \<and> mq_msg_size mq' = mq_msg_size mq \<and> mq_data mq' = mq_data mq"
  unfolding mq'_def
proof (induction n)
  case (Suc n)
  then show ?case by (simp add: mq_give_back_chain [of _ "rev [0..<n]" n, simplified])
qed simp

lemma mq_free_list_rep:
  assumes "\<forall>i < unat (mq_max_msgs mq). length (mq_data mq i) = unat (mq_msg_size mq)"
  shows "mq_rep {} [] (rev [0..<unat (mq_max_msgs mq)]) ((mq_free_list mq)\<lparr>mq_entry := 0\<rparr>)"
  using mq_free_list_fold [of "unat (mq_max_msgs mq)" mq] assms
  unfolding mq_free_list_def [symmetric] by (auto simp: mq_rep_def)

lemma mq_give_back_entry: "mq_give_back x (mq\<lparr>mq_entry := e\<rparr>) = (mq_give_back x mq)\<lparr>mq_entry := e\<rparr>"
  by (cases mq) (simp add: mq_give_back_def)

lemma mq_release_all_step:
  assumes "mq_rep {} qs fs (mq\<lparr>mq_entry := e\<rparr>)"
  shows "\<exists>mq'. mq_release_all mq = Some mq' \<and> mq_rep {} [] (rev qs @ fs) (mq'\<lparr>mq_entry := 0\<rparr>) \<and> mq_same_shape mq mq'"
  using assms
proof (induction qs arbitrary: fs mq e)
  case Nil
  then have "mq_release_all mq = Some mq" by (subst mq_release_all.simps) (simp add: mq_rep_def)
  moreover have "e = 0" using mq_repD(10) [OF Nil] by (simp add: unat_eq_zero)
  ultimately show ?case using Nil by (simp add: mq_same_shape_def)
next
  case (Cons x qs)
  obtain mq1 where u: "mq_unlink (mq\<lparr>mq_entry := e\<rparr>) = Some (x, mq1)" "mq_rep {x} qs fs mq1"
    using mq_rep_unlink [OF Cons.prems] by auto
  have h: "mq_head mq = Some x" using mq_repD(1) [OF Cons.prems] by simp
  define mq2 where "mq2 = (let mq' = mq\<lparr>mq_head := mq_next mq x\<rparr>
     in if mq_tail mq' = Some x then mq'\<lparr>mq_tail := None\<rparr> else mq')"
  have run: "mq_release_all mq = mq_release_all (mq_give_back x mq2)"
    using h by (subst mq_release_all.simps) (simp add: mq2_def Let_def)
  have "mq1 = mq2\<lparr>mq_entry := e - 1\<rparr>" using u(1) h by (simp add: mq_unlink_def mq2_def Let_def split: if_splits)
  then have "mq_rep {} qs (x # fs) ((mq_give_back x mq2)\<lparr>mq_entry := e - 1\<rparr>)"
    using mq_rep_give_back [OF u(2), of x] by (simp add: mq_give_back_entry)
  then obtain mq' where m: "mq_release_all (mq_give_back x mq2) = Some mq'"
    "mq_rep {} [] (rev qs @ x # fs) (mq'\<lparr>mq_entry := 0\<rparr>)" "mq_same_shape (mq_give_back x mq2) mq'"
    using Cons.IH by blast
  then show ?case using run by (simp add: mq_same_shape_def mq2_def Let_def split: if_splits)
qed

text \<open>The example: queue 0 of the example system is initialised for messages of 4 bytes in 16 bytes of pool.\<close>

definition demo_mq :: kernel where
  "demo_mq = upd_mq 0 (\<lambda>_. (mq_free_list \<lparr>mq_msg_size = 4, mq_max_msgs = 2, mq_entry = 0, mq_next = (\<lambda>_. None),
      mq_data = (\<lambda>_. [9, 9, 9, 9]), mq_head = None, mq_tail = None, mq_free = None\<rparr>)\<lparr>mq_entry := 0\<rparr>)
     (demo_wait (LMq 0))"

lemma demo_mq_inv:
  "base_inv demo_mq" "mq_ok (msgqueues demo_mq 0)" "rt_object_get_type demo_mq (OMq 0) = RT_Object_Class_MessageQueue"
  "obj_flag (objs demo_mq (OMq 0)) = 0" "in_thread demo_mq 1" "mq_abs demo_mq 0 = ([], [3], [])"
  "mq_msg_size (msgqueues demo_mq 0) = 4" "mq_max_msgs (msgqueues demo_mq 0) = 2" "rt_current_thread demo_mq = Some 1"
  "mq_free (msgqueues demo_mq 0) = Some 1" "mq_data (msgqueues demo_mq 0) 1 = [9, 9, 9, 9]"
proof -
  let ?mq = "\<lparr>mq_msg_size = 4, mq_max_msgs = 2, mq_entry = 0, mq_next = (\<lambda>_. None),
      mq_data = (\<lambda>_. [9, 9, 9, 9]), mq_head = None, mq_tail = None, mq_free = None\<rparr> :: rt_messagequeue"
  have r: "mq_rep {} [] (rev [0..<2]) (msgqueues demo_mq 0)"
    using mq_free_list_rep [of ?mq] by (simp add: demo_mq_def)
  show "base_inv demo_mq" unfolding demo_mq_def by (simp add: base_inv_def demo_wait_inv timer_inv_write [of "demo_wait (LMq 0)"])
  show "mq_ok (msgqueues demo_mq 0)" using r by (auto simp: mq_ok_def)
  show "rt_object_get_type demo_mq (OMq 0) = RT_Object_Class_MessageQueue"
    by (simp add: rt_object_get_type_def demo_mq_def demo_wait_def demo_kernel_def) (simp add: oref_class_def)
  show "in_thread demo_mq 1" "obj_flag (objs demo_mq (OMq 0)) = 0" "rt_current_thread demo_mq = Some 1"
    by (simp_all add: in_thread_def demo_mq_def demo_wait_def demo_simps thread_stat_def upd_mq_def)
  show "mq_abs demo_mq 0 = ([], [3], [])"
    using mq_rep_contents [OF r] by (simp add: mq_abs_def demo_mq_def demo_wait_def demo_simps)
  show "mq_msg_size (msgqueues demo_mq 0) = 4" "mq_max_msgs (msgqueues demo_mq 0) = 2"
    "mq_data (msgqueues demo_mq 0) 1 = [9, 9, 9, 9]"
    using mq_free_list_fold [of 2 ?mq] by (simp_all add: demo_mq_def mq_free_list_def)
  show "mq_free (msgqueues demo_mq 0) = Some 1" using mq_repD(2) [OF r] by (simp add: numeral_2_eq_2)
qed

theorem rt_mq_send_wait_refines_witness:
  "\<exists>k'. rt_mq_send_wait 0 [1, 2] 0 demo_mq = Some (Done RT_EOK, k') \<and> mq_abs k' 0 = ([[1, 2, 9, 9]], [], []) \<and>
     runnable k' 3"
proof -
  have "tlists demo_mq (LMq 0) = [3]" using demo_mq_inv(6) by (simp add: mq_abs_def)
  moreover have "mq_pad [1, 2] (msgqueues demo_mq 0) = [1, 2, 9, 9]" using demo_mq_inv(10,11) by (simp add: mq_pad_def)
  ultimately show ?thesis
    using rt_mq_send_wait_refines [of demo_mq 0 0 "[1, 2]" 1] demo_mq_inv
    by (auto simp: ipc_flag_def chan_send_def time_ok_def)
qed

theorem rt_mq_recv_refines_witness:
  "\<exists>r k'. rt_mq_recv 0 4 5 demo_mq = Some (r, k') \<and> mq_abs k' 0 = ([], [3, 1], [])"
proof -
  have "time_ok 5" by (simp add: time_ok_def RT_TICK_HALF_def)
  then show ?thesis
    using rt_mq_recv_refines [of demo_mq 0 5 4 1] demo_mq_inv by (auto simp: ipc_flag_def chan_recv_def enqueue_def)
qed

text \<open>What is sent is received. A message sent to an empty queue of the running system and received with
  the same length arrives unchanged, whatever the node held before, and the queue is empty again.\<close>

theorem rt_mq_send_recv_roundtrip:
  assumes "base_inv k" "mq_ok (msgqueues k q)" "rt_object_get_type k (OMq q) = RT_Object_Class_MessageQueue"
    and "ipc_flag (obj_flag (objs k (OMq q)))" "mq_vacant (msgqueues k q)" "0 < mq_max_msgs (msgqueues k q)"
    and "a \<noteq> []" "length a \<le> unat (mq_msg_size (msgqueues k q))"
  shows "\<exists>k1 k2. rt_mq_send q a k = Some (Done RT_EOK, k1) \<and>
    rt_mq_recv q (length a) 0 k1 = Some (Done (RT_EOK, Some a), k2) \<and> mq_contents (msgqueues k2 q) = []"
proof -
  obtain t where t: "rt_current_thread k = Some t" using base_invD(3) [OF assms(1)] by auto
  have nil: "mq_contents (msgqueues k q) = []" using mqq.vacant_iff [OF assms(2)] assms(5) by simp
  have cap: "0 < mq_cap (msgqueues k q)" using assms(6) by (simp add: word_less_nat_alt)
  obtain r k1 where k1: "rt_mq_send_wait q a 0 k = Some (r, k1)" "mq_frame q k k1"
    "(r, mq_abs k1 q) = chan_send (enqueue (obj_flag (objs k (OMq q))) (prio k) t) (mq_cap (msgqueues k q))
         \<lparr>w_thread = t, w_timeout = 0, w_start = rt_tick k\<rparr> (mq_pad a (msgqueues k q)) (mq_abs k q)"
    using rt_mq_send_wait_refines [OF assms(1-4) _ assms(7) t, of 0] assms(8) by (auto simp: time_ok_def)
  have r: "r = Done RT_EOK" "mq_contents (msgqueues k1 q) = [mq_pad a (msgqueues k q)]"
    using k1(3) nil cap by (simp_all add: chan_send_def mq_abs_def)
  note f = k1(2) [unfolded mq_frame_def]
  obtain t1 where t1: "rt_current_thread k1 = Some t1" using f base_invD(3) by blast
  have ty: "rt_object_get_type k1 (OMq q) = RT_Object_Class_MessageQueue" "ipc_flag (obj_flag (objs k1 (OMq q)))"
    using f assms(3,4) by (simp_all add: rt_object_get_type_def)
  obtain r2 k2 where k2: "rt_mq_recv q (length a) 0 k1 = Some (r2, k2)"
    "(r2, mq_abs k2 q) = chan_recv (enqueue (obj_flag (objs k1 (OMq q))) (prio k1) t1)
      \<lparr>w_thread = t1, w_timeout = 0, w_start = rt_tick k1\<rparr> (take (length a)) (mq_abs k1 q)"
    using rt_mq_recv_refines [OF _ _ ty _ _ t1, of 0 "length a"] f assms(7) by (auto simp: time_ok_def)
  have "r2 = Done (RT_EOK, Some a)" "mq_contents (msgqueues k2 q) = []"
    using k2(2) r(2) by (simp_all add: chan_recv_def mq_abs_def mq_pad_def)
  with k1(1) r(1) k2(1) show ?thesis by (simp add: rt_mq_send_def)
qed

theorem rt_mq_send_recv_roundtrip_witness:
  "\<exists>k1 k2. rt_mq_send 0 [1, 2, 3] demo_mq = Some (Done RT_EOK, k1) \<and>
     rt_mq_recv 0 3 0 k1 = Some (Done (RT_EOK, Some [1, 2, 3]), k2) \<and> mq_contents (msgqueues k2 0) = []"
proof -
  have "mq_vacant (msgqueues demo_mq 0)"
    using mqq.vacant_iff [OF demo_mq_inv(2)] demo_mq_inv(6) by (simp add: mq_abs_def)
  then show ?thesis
    using rt_mq_send_recv_roundtrip [of demo_mq 0 "[1, 2, 3]"] demo_mq_inv by (auto simp: ipc_flag_def numeral_3_eq_3)
qed

text \<open>An urgent message is refused when it is too long or the queue is full, and otherwise put in front
  of every queued message; the first waiting receiver is woken.\<close>

theorem rt_mq_urgent_first:
  assumes "base_inv k" "mq_ok (msgqueues k q)" "rt_object_get_type k (OMq q) = RT_Object_Class_MessageQueue" "a \<noteq> []"
  shows "\<exists>r k'. rt_mq_urgent q a k = Some (r, k') \<and> base_inv k' \<and> mq_ok (msgqueues k' q) \<and>
    (r, mq_abs k' q) =
      (let (ms, rs, ss) = mq_abs k q
       in if unat (mq_msg_size (msgqueues k q)) < length a then (- RT_ERROR, (ms, rs, ss))
          else if length ms = mq_cap (msgqueues k q) then (- RT_EFULL, (ms, rs, ss))
          else (RT_EOK, (mq_pad a (msgqueues k q) # ms, tl rs, ss))) \<and>
    (\<forall>u us. r = RT_EOK \<longrightarrow> tlists k (LMq q) = u # us \<longrightarrow> runnable k' u)"
proof -
  let ?mq = "msgqueues k q"
  have len: "length (mq_contents ?mq) \<le> mq_cap ?mq"
    using mq_full_iff [OF assms(2)] assms(2) mq_rep_bound(1) mq_rep_contents by (metis le_add1 length_map add.assoc mq_okE)
  consider (long) "unat (mq_msg_size ?mq) < length a" | (full) "\<not> unat (mq_msg_size ?mq) < length a" "mq_full ?mq"
    | (put) "\<not> unat (mq_msg_size ?mq) < length a" "\<not> mq_full ?mq" by argo
  then show ?thesis
  proof cases
    case long
    with assms show ?thesis by (simp add: rt_mq_urgent_def mq_abs_def)
  next
    case full
    with assms mq_full_iff [OF assms(2)] len show ?thesis by (simp add: rt_mq_urgent_def mq_abs_def)
  next
    case put
    then obtain mq where mq: "mq_put_urgent a ?mq = Some mq" "mq_ok mq" "mq_contents mq = mq_pad a ?mq # mq_contents ?mq"
      using mq_put_urgent_step [OF assms(2), of a] by auto
    obtain k' where k': "resume_first (LMq q) (upd_mq q (\<lambda>_. mq) k) = Some k'" "served (LMq q) (upd_mq q (\<lambda>_. mq) k) k'"
      using resume_first_step [of "upd_mq q (\<lambda>_. mq) k" "LMq q"] assms(1) by auto
    note s = k'(2) [unfolded served_def]
    have "msgqueues k' = msgqueues (upd_mq q (\<lambda>_. mq) k)" using s ipc_sameD(5) by blast
    moreover have "rt_mq_urgent q a k = Some (RT_EOK, k')" using put assms(3,4) mq(1) k'(1) by (simp add: rt_mq_urgent_def)
    ultimately show ?thesis
      using s mq(2,3) put mq_full_iff [OF assms(2)]
      by (intro exI [of _ 0] exI [of _ k']) (simp add: mq_abs_def)
  qed
qed

theorem rt_mq_urgent_first_witness:
  "\<exists>k'. rt_mq_urgent 0 [1, 2, 3, 4] demo_mq = Some (RT_EOK, k') \<and> mq_abs k' 0 = ([[1, 2, 3, 4]], [], [])"
proof -
  have "mq_pad [1, 2, 3, 4] (msgqueues demo_mq 0) = [1, 2, 3, 4]" using demo_mq_inv(10,11) by (simp add: mq_pad_def)
  then show ?thesis using rt_mq_urgent_first [of demo_mq 0 "[1, 2, 3, 4]"] demo_mq_inv by (auto simp: Let_def)
qed

text \<open>Resetting a message queue returns: every waiting receiver and sender becomes runnable with the error
  \<^verbatim>\<open>-RT_ERROR\<close>, all messages are dropped and every node is free again.\<close>

theorem rt_mq_control_reset:
  assumes "base_inv k" "mq_ok (msgqueues k q)" "rt_object_get_type k (OMq q) = RT_Object_Class_MessageQueue"
  shows "\<exists>k'. rt_mq_control q RT_IPC_CMD_RESET k = Some (RT_EOK, k') \<and> base_inv k' \<and> mq_ok (msgqueues k' q) \<and>
    mq_abs k' q = ([], [], []) \<and> mq_cap (msgqueues k' q) = mq_cap (msgqueues k q) \<and>
    (\<forall>t \<in> set (tlists k (LMq q)) \<union> set (tlists k (LMqSender q)). runnable k' t \<and> th_error (threads k' t) = - RT_ERROR)"
proof -
  obtain k1 where k1: "rt_ipc_list_resume_all (LMq q) k = Some k1" "wakes_all (LMq q) k k1"
    using rt_ipc_list_resume_all_step [OF base_invD(1,2) [OF assms(1)], of "LMq q"] by auto
  note w1 = k1(2) [unfolded wakes_all_def]
  obtain k2 where k2: "rt_ipc_list_resume_all (LMqSender q) k1 = Some k2" "wakes_all (LMqSender q) k1 k2"
    using rt_ipc_list_resume_all_step [of k1 "LMqSender q"] w1 by auto
  note w2 = k2(2) [unfolded wakes_all_def]
  have sender: "tlists k1 (LMqSender q) = tlists k (LMqSender q)" using w1 by simp
  have mqs: "msgqueues k2 = msgqueues k" using w1 w2 ipc_sameD(5) by metis
  obtain qs fs where r: "mq_rep {} qs fs (msgqueues k q)" using assms(2) by (rule mq_okE)
  obtain mq where mq: "mq_release_all (msgqueues k q) = Some mq" "mq_rep {} [] (rev qs @ fs) (mq\<lparr>mq_entry := 0\<rparr>)"
    "mq_same_shape (msgqueues k q) mq"
    using mq_release_all_step [where mq = "msgqueues k q" and e = "mq_entry (msgqueues k q)", of qs fs] r by auto
  let ?k3 = "upd_mq q (\<lambda>_. mq\<lparr>mq_entry := 0\<rparr>) k2"
  have b2: "base_inv k2" using w1 w2 base_invD(3) [OF assms(1)] by (simp add: base_inv_def)
  then have b3: "base_inv ?k3" by simp
  obtain k' where k': "rt_schedule ?k3 = Some k'" "resched ?k3 k'" using rt_schedule_step [OF base_invD(1,3) [OF b3]] by blast
  note d = reschedD [OF k'(2)]
  have "rt_mq_control q RT_IPC_CMD_RESET k = Some (RT_EOK, k')"
    using assms(3) k1(1) k2(1) mqs mq(1) k'(1) by (simp add: rt_mq_control_def)
  moreover have sel: "msgqueues k' q = mq\<lparr>mq_entry := 0\<rparr>" using ipc_sameD(5) [OF d(2)] by simp
  moreover have "tlists k' (LMq q) = [] \<and> tlists k' (LMqSender q) = []"
    using resched_wait_list [OF k'(2)] w1 w2 by simp
  moreover have "runnable k' t \<and> th_error (threads k' t) = - 1"
    if "t \<in> set (tlists k (LMq q)) \<union> set (tlists k (LMqSender q))" for t
  proof -
    have "runnable k2 t \<and> th_error (threads k2 t) = - 1"
      using that w1 w2 sender by (cases "t \<in> set (tlists k (LMqSender q))") auto
    then show ?thesis using d(6) only_statD(4) [OF d(4), of t] by simp
  qed
  moreover have "base_inv k'" using d(1,8) b3 timer_inv_resched [OF k'(2)] by (simp add: base_inv_def)
  ultimately show ?thesis
    using mq(2,3) mq_rep_contents [OF mq(2)] by (auto simp: mq_abs_def mq_ok_def mq_same_shape_def)
qed

theorem rt_mq_control_reset_witness:
  "\<exists>k'. rt_mq_control 0 RT_IPC_CMD_RESET demo_mq = Some (RT_EOK, k') \<and> runnable k' 3 \<and> th_error (threads k' 3) = - RT_ERROR"
proof -
  have "3 \<in> set (tlists demo_mq (LMq 0))" using demo_mq_inv(6) by (simp add: mq_abs_def)
  then show ?thesis using rt_mq_control_reset [of demo_mq 0] demo_mq_inv by auto
qed

lemma pool_slots:
  fixes sz :: u16 and pool_size :: u32
  shows "unat (ucast (pool_size div (ucast sz + 4)) :: u16) * (unat sz + 4) \<le> unat pool_size"
proof -
  have "unat sz < 2 ^ 16" using unat_bound [of sz] by simp
  then have d: "unat (ucast sz + 4 :: u32) = unat sz + 4" by (simp add: unat_word_ariths unsigned_ucast_eq take_bit_nat_eq_self)
  have "unat (ucast (pool_size div (ucast sz + 4)) :: u16) \<le> unat pool_size div (unat sz + 4)"
    using d by (simp add: unat_div unsigned_ucast_eq take_bit_nat_less_eq_self)
  then have "unat (ucast (pool_size div (ucast sz + 4)) :: u16) * (unat sz + 4) \<le> unat pool_size div (unat sz + 4) * (unat sz + 4)"
    by (rule mult_le_mono1)
  also have "\<dots> \<le> unat pool_size" by (rule div_times_less_eq_dividend)
  finally show ?thesis .
qed

lemma sched_inv_ipc_init:
  assumes "sched_inv k" "wait_list l"
  shows "sched_inv (rt_ipc_object_init l k)"
proof -
  have "LReady p \<noteq> l" for p using assms(2) by auto
  then have "sched_core {} (rt_ipc_object_init l k)"
    using assms(1) unfolding sched_inv_def sched_core_def rt_ipc_object_init_def
    by (auto simp: list_state_def thread_stat_def prio_def mask_ok_def live_def split: if_splits)
  then show ?thesis using assms(1) by (simp add: sched_inv_def current_ok_def rt_ipc_object_init_def thread_stat_def)
qed

text \<open>\<^verbatim>\<open>rt_mq_init\<close> on an unregistered object returns a well-formed empty queue of the class and flag asked
  for, whose nodes all lie inside the pool, for every message size and pool size.\<close>

theorem rt_mq_init_ok:
  assumes "sched_inv k" "OMq q \<notin> set (object_list k RT_Object_Class_MessageQueue)"
    and "\<forall>i. length (msgpool i) = unat (ucast (RT_ALIGN msgsz RT_ALIGN_SIZE) :: u16)"
  shows "\<exists>k'. rt_mq_init q name msgpool msgsz pool_size flag k = Some (RT_EOK, k') \<and> sched_inv k' \<and>
    rt_object_get_type k' (OMq q) = RT_Object_Class_MessageQueue \<and> obj_flag (objs k' (OMq q)) = flag \<and>
    mq_ok (msgqueues k' q) \<and> mq_contents (msgqueues k' q) = [] \<and>
    mq_cap (msgqueues k' q) * (unat (mq_msg_size (msgqueues k' q)) + 4) \<le> unat pool_size"
proof -
  define sz where "sz = (ucast (RT_ALIGN msgsz RT_ALIGN_SIZE) :: u16)"
  obtain k1 where k1: "resched k k1" "rt_object_init (OMq q) 6 name k =
      Some (object_list_push 6 (OMq q) (upd_obj (OMq q) (\<lambda>ob. ob\<lparr>obj_type := 6 OR RT_Object_Class_Static,
        obj_name := rt_strncpy_name name\<rparr>) k1))" (is "_ = Some ?k2")
    using rt_object_init_step [OF assms(1), of 6 "OMq q" name] assms(2) by (auto simp: rt_object_container_def)
  let ?k3 = "rt_ipc_object_init (LMq q) (upd_obj (OMq q) (\<lambda>ob. ob\<lparr>obj_flag := flag\<rparr>) ?k2)"
  let ?f = "\<lambda>mq. mq\<lparr>mq_data := msgpool, mq_msg_size := sz, mq_max_msgs := ucast (pool_size div (ucast sz + 4))\<rparr>"
  let ?k' = "rt_ipc_object_init (LMqSender q)
     (upd_mq q (\<lambda>mq. mq\<lparr>mq_entry := 0\<rparr>) (upd_mq q mq_free_list (upd_mq q ?f ?k3)))"
  have "rt_mq_init q name msgpool msgsz pool_size flag k = Some (RT_EOK, ?k')"
    using k1(2) by (simp add: rt_mq_init_def Let_def sz_def)
  moreover have "sched_inv ?k3" using reschedD(1) [OF k1(1)] by (intro sched_inv_ipc_init) simp_all
  then have "sched_inv ?k'" by (intro sched_inv_ipc_init) simp_all
  moreover have mq: "msgqueues ?k' q = (mq_free_list (?f (msgqueues ?k3 q)))\<lparr>mq_entry := 0\<rparr>"
    by (simp add: rt_ipc_object_init_def)
  then have r: "mq_rep {} [] (rev [0..<mq_cap (?f (msgqueues ?k3 q))]) (msgqueues ?k' q)"
    using mq_free_list_rep [of "?f (msgqueues ?k3 q)"] assms(3) by (simp add: sz_def)
  moreover have "mq_cap (msgqueues ?k' q) * (unat (mq_msg_size (msgqueues ?k' q)) + 4) \<le> unat pool_size"
    using mq mq_free_list_fold [of "mq_cap (?f (msgqueues ?k3 q))" "?f (msgqueues ?k3 q)"] pool_slots [of pool_size sz]
    by (simp add: mq_free_list_def)
  moreover have "rt_object_get_type ?k' (OMq q) = 6" "obj_flag (objs ?k' (OMq q)) = flag"
    by (simp_all add: rt_object_get_type_def rt_ipc_object_init_def)
  ultimately show ?thesis using mq_rep_contents [OF r] by (auto simp: mq_ok_def)
qed

theorem rt_mq_init_ok_witness:
  "\<exists>k'. rt_mq_init 0 ''mq'' (\<lambda>_. replicate 8 0) 6 100 0 demo_kernel = Some (RT_EOK, k') \<and> mq_ok (msgqueues k' 0)"
proof -
  have "sched_inv demo_kernel" "OMq 0 \<notin> set (object_list demo_kernel 6)"
    using demo_kernel_inv by (simp_all add: demo_kernel_def zero_kernel_def)
  moreover have "unat (ucast (RT_ALIGN 6 4) :: u16) = 8" by (simp add: RT_ALIGN_def)
  ultimately show ?thesis using rt_mq_init_ok [of demo_kernel 0 "\<lambda>_. replicate 8 0" 6 "''mq''" 100 0] by auto
qed

section \<open>Interleaved senders and receivers\<close>

text \<open>The code disables interrupts only for the steps on the lists: between them, while it copies a message,
  other threads and interrupt handlers may run any operation on the same queue. A state is the queue, the
  nodes that some operation has taken and not yet put back, and those of them that a sender has prepared.
  One step is one of the pieces of code between two points where interrupts are enabled.\<close>

record mq_run =
  run_mq :: rt_messagequeue
  run_held :: "nat set"
  run_ready :: "nat set"

inductive mq_step :: "mq_run \<Rightarrow> mq_run \<Rightarrow> bool" where
  take: "mq_take_free (run_mq s) = Some (x, mq) \<Longrightarrow> mq_step s (s\<lparr>run_mq := mq, run_held := insert x (run_held s)\<rparr>)"
| prepare: "x \<in> run_held s - run_ready s \<Longrightarrow> length buffer \<le> unat (mq_msg_size (run_mq s)) \<Longrightarrow>
    mq_step s (s\<lparr>run_mq := mq_copy x buffer ((run_mq s)\<lparr>mq_next := (mq_next (run_mq s))(x := None)\<rparr>),
                 run_ready := insert x (run_ready s)\<rparr>)"
| copy: "x \<in> run_held s - run_ready s \<Longrightarrow> length buffer \<le> unat (mq_msg_size (run_mq s)) \<Longrightarrow>
    mq_step s (s\<lparr>run_mq := mq_copy x buffer (run_mq s)\<rparr>)"
| tail: "x \<in> run_ready s \<Longrightarrow>
    mq_step s (s\<lparr>run_mq := mq_link_tail x (run_mq s), run_held := run_held s - {x}, run_ready := run_ready s - {x}\<rparr>)"
| urgent: "x \<in> run_held s - run_ready s \<Longrightarrow>
    mq_step s (s\<lparr>run_mq := mq_link_head x (run_mq s), run_held := run_held s - {x}\<rparr>)"
| unlink: "mq_entry (run_mq s) \<noteq> 0 \<Longrightarrow> mq_unlink (run_mq s) = Some (x, mq) \<Longrightarrow>
    mq_step s (s\<lparr>run_mq := mq, run_held := insert x (run_held s)\<rparr>)"
| give_back: "x \<in> run_held s - run_ready s \<Longrightarrow>
    mq_step s (s\<lparr>run_mq := mq_give_back x (run_mq s), run_held := run_held s - {x}\<rparr>)"

inductive_cases mq_stepE: "mq_step s s'"

definition run_inv :: "mq_run \<Rightarrow> bool" where
  "run_inv s \<longleftrightarrow> (\<exists>qs fs. mq_rep (run_held s) qs fs (run_mq s)) \<and> run_ready s \<subseteq> run_held s \<and>
     (\<forall>x \<in> run_ready s. mq_next (run_mq s) x = None)"

lemma run_invI:
  "mq_rep (run_held s) qs fs (run_mq s) \<Longrightarrow> run_ready s \<subseteq> run_held s \<Longrightarrow>
     (\<And>x. x \<in> run_ready s \<Longrightarrow> mq_next (run_mq s) x = None) \<Longrightarrow> run_inv s"
  by (auto simp: run_inv_def)

lemma mq_unlink_next: "mq_unlink mq = Some (x, mq') \<Longrightarrow> mq_next mq' = mq_next mq"
  by (auto simp: mq_unlink_def Let_def bind_Some_iff split: if_splits)

lemma mq_take_next: "mq_take_free mq = Some (x, mq') \<Longrightarrow> mq_next mq' = mq_next mq"
  by (auto simp: mq_take_free_def bind_Some_iff)

lemma mq_step_inv:
  assumes "mq_step s s'" "run_inv s"
  shows "run_inv s'"
proof -
  obtain qs fs where r: "mq_rep (run_held s) qs fs (run_mq s)" and h: "run_ready s \<subseteq> run_held s"
    "\<And>x. x \<in> run_ready s \<Longrightarrow> mq_next (run_mq s) x = None" using assms(2) by (auto simp: run_inv_def)
  note d = mq_repD [OF r]
  show ?thesis using assms(1)
  proof cases
    case (take x mq)
    then obtain fs' where fs: "fs = x # fs'" using d(2) by (cases fs) (auto simp: mq_take_free_def)
    with r take mq_rep_take [of "run_held s" qs x fs' "run_mq s"] h mq_take_next [OF take(2)] show ?thesis
      by (intro run_invI [of s' qs fs']) auto
  next
    case (prepare x buffer)
    with mq_rep_copy [OF mq_rep_clear [OF r, of x None], of x buffer] h show ?thesis
      by (intro run_invI [of s' qs fs]) auto
  next
    case (copy x buffer)
    with mq_rep_copy [OF r, of x buffer] h show ?thesis by (intro run_invI [of s' qs fs]) auto
  next
    case (tail x)
    then have "x \<in> run_held s" "mq_next (run_mq s) x = None" using h by auto
    moreover have "last qs \<notin> run_ready s" if "qs \<noteq> []" using that d(6) h(1) by (auto dest: last_in_set)
    ultimately show ?thesis
      using tail mq_rep_link_tail [OF r, of x] h d(9) by (intro run_invI [of s' "qs @ [x]" fs]) auto
  next
    case (urgent x)
    with mq_rep_link_head [OF r, of x] h show ?thesis
      by (intro run_invI [of s' "x # qs" fs]) (auto simp: mq_link_head_def Let_def)
  next
    case (unlink x mq)
    then have "qs \<noteq> []" using d(10) by (auto simp: unat_eq_zero)
    then obtain y qs' where qs: "qs = y # qs'" by (cases qs) auto
    then have "mq_rep (insert x (run_held s)) qs' fs mq" using mq_rep_unlink [of "run_held s" y qs' fs "run_mq s"] r unlink by auto
    with unlink h mq_unlink_next [OF unlink(3)] show ?thesis by (intro run_invI [of s' qs' fs]) auto
  next
    case (give_back x)
    with mq_rep_give_back [OF r, of x] h show ?thesis
      by (intro run_invI [of s' qs "x # fs"]) (auto simp: mq_give_back_def)
  qed
qed

text \<open>What a step does to the messages.\<close>

definition run_effect :: "mq_run \<Rightarrow> mq_run \<Rightarrow> bool" where
  "run_effect s s' \<longleftrightarrow>
     (let c = mq_contents (run_mq s); c' = mq_contents (run_mq s')
      in c' = c \<or> (\<exists>x \<in> run_held s. c' = c @ [mq_data (run_mq s) x] \<or> c' = mq_data (run_mq s) x # c) \<or>
         (\<exists>x \<in> run_held s'. c = mq_data (run_mq s') x # c'))"

lemma mq_contents_held:
  assumes r: "mq_rep F qs fs mq" and x: "x \<in> F"
  shows "length b \<le> unat (mq_msg_size mq) \<Longrightarrow> mq_contents (mq_copy x b mq) = mq_contents mq"
    "mq_contents (mq\<lparr>mq_next := (mq_next mq)(x := p)\<rparr>) = mq_contents mq"
    "mq_contents (mq_give_back x mq) = mq_contents mq"
proof -
  have "x \<notin> set qs" using mq_repD(6) [OF r] x by auto
  then show "length b \<le> unat (mq_msg_size mq) \<Longrightarrow> mq_contents (mq_copy x b mq) = mq_contents mq"
    using mq_rep_contents [OF r] mq_rep_contents [OF mq_rep_copy [OF r x, of b]] by (simp add: mq_copy_def)
  show "mq_contents (mq\<lparr>mq_next := (mq_next mq)(x := p)\<rparr>) = mq_contents mq"
    using mq_rep_contents [OF r] mq_rep_contents [OF mq_rep_clear [OF r x, of p]] by simp
  show "mq_contents (mq_give_back x mq) = mq_contents mq"
    using mq_rep_contents [OF r] mq_rep_contents [OF mq_rep_give_back [OF r x]] by simp
qed

lemma mq_step_effect:
  assumes "mq_step s s'" "run_inv s"
  shows "run_effect s s'"
proof -
  obtain qs fs where r: "mq_rep (run_held s) qs fs (run_mq s)" and h: "run_ready s \<subseteq> run_held s"
    "\<And>x. x \<in> run_ready s \<Longrightarrow> mq_next (run_mq s) x = None" using assms(2) by (auto simp: run_inv_def)
  note d = mq_repD [OF r] and c = mq_rep_contents [OF r]
  show ?thesis using assms(1)
  proof cases
    case (take x mq)
    then show ?thesis by (auto simp: run_effect_def Let_def mq_take_free_def mq_contents_def bind_Some_iff)
  next
    case (prepare x buffer)
    with mq_contents_held(1) [OF mq_rep_clear [OF r, of x None], of x buffer] mq_contents_held(2) [OF r, of x None]
    show ?thesis by (simp add: run_effect_def)
  next
    case (copy x buffer)
    with mq_contents_held(1) [OF r, of x buffer] show ?thesis by (simp add: run_effect_def)
  next
    case (tail x)
    then have "x \<in> run_held s" "mq_next (run_mq s) x = None" using h by auto
    with tail mq_rep_contents [OF mq_rep_link_tail [OF r, of x]] c show ?thesis by (auto simp: run_effect_def Let_def)
  next
    case (urgent x)
    with mq_rep_contents [OF mq_rep_link_head [OF r, of x]] c show ?thesis by (auto simp: run_effect_def Let_def)
  next
    case (unlink x mq)
    then have "qs \<noteq> []" using d(10) by (auto simp: unat_eq_zero)
    then obtain y qs' where qs: "qs = y # qs'" by (cases qs) auto
    with mq_rep_unlink [of "run_held s" y qs' fs "run_mq s"] r unlink
    have "mq_rep (insert x (run_held s)) qs' fs mq" "mq_data mq = mq_data (run_mq s)" "y = x" by auto
    with mq_rep_contents [of "insert x (run_held s)" qs' fs mq] c qs unlink show ?thesis
      by (auto simp: run_effect_def Let_def)
  next
    case (give_back x)
    with mq_contents_held(3) [OF r, of x] show ?thesis by (simp add: run_effect_def)
  qed
qed

text \<open>C14: the window in which a message is copied is safe. From a well-formed queue on which no operation is under
  way, every interleaving of the steps of any number of senders and receivers keeps the queue
  well-formed (no node is lost, queued twice or both free and queued, and no link of a node in use is touched),
  and the next step appends or prepends the message of one held node, removes the first message into a held
  node, or leaves the messages as they are.\<close>

theorem mq_interleaving_safe:
  assumes "mq_ok mq" "mq_step\<^sup>*\<^sup>* \<lparr>run_mq = mq, run_held = {}, run_ready = {}\<rparr> s"
  shows "run_inv s \<and> (\<forall>s'. mq_step s s' \<longrightarrow> run_effect s s')"
proof -
  have "run_inv \<lparr>run_mq = mq, run_held = {}, run_ready = {}\<rparr>" using assms(1) by (auto simp: run_inv_def mq_ok_def)
  with assms(2) have "run_inv s" by (induction rule: rtranclp_induct) (auto intro: mq_step_inv)
  then show ?thesis using mq_step_effect by blast
qed

theorem mq_interleaving_safe_witness:
  "\<exists>mq s. mq_take_free (msgqueues demo_mq 0) = Some (1, mq) \<and>
     s = \<lparr>run_mq = mq, run_held = {1}, run_ready = {}\<rparr> \<and> run_inv s"
proof -
  obtain mq where t: "mq_take_free (msgqueues demo_mq 0) = Some (1, mq)"
    using demo_mq_inv(10) by (simp add: mq_take_free_def)
  have "mq_step \<lparr>run_mq = msgqueues demo_mq 0, run_held = {}, run_ready = {}\<rparr> \<lparr>run_mq = mq, run_held = {1}, run_ready = {}\<rparr>"
    using mq_step.take [of "\<lparr>run_mq = msgqueues demo_mq 0, run_held = {}, run_ready = {}\<rparr>" 1 mq] t by simp
  then show ?thesis using mq_interleaving_safe [OF demo_mq_inv(2)] t by blast
qed

end
