(* ===== verification/Delay.thy ===== *)
theory Delay
  imports Mailbox Clock
begin

text \<open>
  What a tick does to threads, and time as a thread sees it: a thread that goes to sleep for \<open>n\<close> ticks is suspended
  for \<open>n - 1\<close> ticks and ready at the \<open>n\<close>-th, whatever the other threads do in between, as long as none of them wakes
  it. Spans \<^verbatim>\<open>rt_thread_sleep\<close> (\<^verbatim>\<open>src/thread.c\<close>), \<^verbatim>\<open>rt_tick_increase\<close> (\<^verbatim>\<open>src/clock.c\<close>) and \<^verbatim>\<open>rt_timer_check\<close>
  (\<^verbatim>\<open>src/timer.c\<close>).
\<close>

section \<open>The effect of a tick on threads\<close>

text \<open>\<open>calm\<close>: threads can only become ready, and leave waiting lists for it; the kernel objects are as before, and
  the right thread is on the processor. \<open>gentle\<close>: user timeout functions that leave the kernel in peace in this way.\<close>

definition calm :: "kernel \<Rightarrow> kernel \<Rightarrow> bool" where
  "calm k k' \<longleftrightarrow>
     ipc_same k k' \<and> rt_scheduler_lock_nest k' = rt_scheduler_lock_nest k \<and>
     (rt_scheduler_lock_nest k = 0 \<longrightarrow> dispatched k \<longrightarrow> dispatched k') \<and>
     (\<forall>u. runnable k u \<longrightarrow> runnable k' u) \<and>
     (\<forall>l. wait_list l \<longrightarrow> set (tlists k' l) \<subseteq> set (tlists k l))"

definition gentle :: "(nat \<Rightarrow> nat \<Rightarrow> kernel \<Rightarrow> kernel option) \<Rightarrow> bool" where
  "gentle cb \<longleftrightarrow> quiet cb \<and> (\<forall>n p k k'. cb n p k = Some k' \<longrightarrow> calm k k')"

lemma calm_refl [simp]: "calm k k"
  by (simp add: calm_def)

lemma calm_trans [trans]: "calm k k1 \<Longrightarrow> calm k1 k' \<Longrightarrow> calm k k'"
  unfolding calm_def by (metis ipc_same_trans subset_trans)

lemma calm_same:
  assumes "sched_same k k'" "ipc_same k k'" "tlists k' = tlists k"
  shows "calm k k'"
  using assms sched_same_reads [OF assms(1)] by (simp add: calm_def)

lemma calm_timed_out:
  assumes "timed_out t k k'"
  shows "calm k k'"
proof -
  have "set (tlists k' l) \<subseteq> set (tlists k l)" if "wait_list l" for l
    using assms that by (auto simp: timed_out_def dest: wait_list_not_ready)
  moreover have "runnable k' u" if "runnable k u" for u
    using assms that by (cases "u = t") (simp_all add: timed_out_def)
  ultimately show ?thesis using assms by (simp add: calm_def timed_out_def)
qed

text \<open>Restarting a hard timer after its timeout function does not touch threads.\<close>

lemma timer_rearm_calm:
  assumes r: "timer_rearm m k = Some k'" and s: "tm_flag k m AND RT_TIMER_FLAG_SOFT_TIMER = 0"
  shows "calm k k'" "threads k' = threads k"
proof -
  let ?k = "set_flag m (\<lambda>f. f AND - 2) k"
  have "k' = ?k \<or> k' = requeued m ?k"
    using r s by (auto simp: timer_rearm_def Let_def rt_timer_start_def requeued_def timer_enqueue_def split: if_splits
        Option.bind_splits)
  moreover have "dispatched k' = dispatched k" if "k' = ?k \<or> k' = requeued m ?k"
    using that by (intro dispatched_cong) (auto simp: thread_stat_def prio_def)
  ultimately show "calm k k'" "threads k' = threads k"
    by (auto simp: calm_def runnable_def thread_stat_def)
qed

lemma timeout_calm:
  assumes g: "gentle cb" and i: "sched_inv k" "timer_inv k" "rt_current_thread k \<noteq> None"
    and m: "m \<in> set (rt_timer_list k)" and r: "call_timeout cb (timers k m) (rt_timer_remove m k) = Some k'"
  shows "calm k k'" "m = Thread_Timer t \<Longrightarrow> runnable k' t \<and> th_error (threads k' t) = - RT_ETIMEOUT"
proof -
  let ?k = "rt_timer_remove m k"
  have l: "listed k m" using m by (simp add: listed_def)
  have rm: "calm k ?k"
    unfolding calm_def by (auto simp: rt_timer_remove_def ipc_same_def runnable_def thread_stat_def dispatched_def prio_def)
  have "calm ?k k' \<and> (\<forall>t. m = Thread_Timer t \<longrightarrow> runnable k' t \<and> th_error (threads k' t) = - RT_ETIMEOUT)"
  proof (cases m)
    case (Timer n)
    then have "tm_timeout_func (timers k m) \<noteq> Rt_thread_timeout" using timer_invD(4) [OF i(2), of n] l by simp
    then obtain f where "tm_timeout_func (timers k m) = User_timeout f"
      by (cases "tm_timeout_func (timers k m)") auto
    with r g Timer show ?thesis by (auto simp: call_timeout_def gentle_def)
  next
    case (Thread_Timer t)
    then have st: "thread_stat k t = 2" using timer_invD(3) [OF i(2), of t] l by simp
    then have ok: "thread_timer_ok k t" using i(2) by (auto intro: live_timer_ok simp: live_def)
    have "rt_thread_timeout t ?k = Some k'" using r ok Thread_Timer by (simp add: call_timeout_def thread_timer_ok_def)
    moreover have "sched_inv ?k" "timer_inv ?k" "thread_stat ?k t = 2" "\<not> listed ?k (Thread_Timer t)"
      "rt_current_thread ?k \<noteq> None" using i st Thread_Timer by (simp_all add: timer_inv_remove)
    ultimately have "timed_out t ?k k'" using rt_thread_timeout_step by (metis option.inject)
    then have "calm ?k k'" "runnable k' t" "th_error (threads k' t) = - 2"
      by (simp_all add: calm_timed_out) (simp_all add: timed_out_def)
    then show ?thesis using Thread_Timer by simp
  qed
  then show "calm k k'" "m = Thread_Timer t \<Longrightarrow> runnable k' t \<and> th_error (threads k' t) = - RT_ETIMEOUT"
    using calm_trans [OF rm] by simp_all
qed

text \<open>The whole check.\<close>

lemma check_loop_effect:
  assumes g: "gentle cb" and "check_ready base k" "in_window base (rt_tick k)"
    and "rt_timer_check_loop cb fuel (rt_tick k) k = Some k'"
  shows "calm k k' \<and> (\<forall>x. x \<notin> due_timers k \<longrightarrow> timer_same k k' x) \<and>
    (\<forall>t. Thread_Timer t \<in> due_timers k \<longrightarrow> runnable k' t)"
  using assms(2-)
proof (induction fuel arbitrary: k)
  case (Suc fuel)
  have q: "quiet cb" using g by (simp add: gentle_def)
  have ready: "sched_inv k" "timer_inv k" "rt_current_thread k \<noteq> None" "periods_ok k"
    "by_timeout (timeout_tick k) base (rt_timer_list k)"
    using Suc.prems(1) by (auto simp: check_ready_def)
  show ?case
  proof (cases "\<exists>m ms. rt_timer_list k = m # ms \<and> due k m")
    case False
    then have "k' = k" using Suc.prems(3) by (auto simp: due_def split: list.splits)
    moreover have "\<not> due k x" if "x \<in> set (rt_timer_list k)" for x
      using that False head_not_due [OF _ Suc.prems(2)] ready(5) by (cases "rt_timer_list k") auto
    ultimately show ?thesis by (auto simp: timer_same_def due_timers_def)
  next
    case True
    then obtain m ms where m: "rt_timer_list k = m # ms" "due k m" by blast
    then have mem: "m \<in> set (rt_timer_list k)" "m \<in> due_timers k" by (simp_all add: due_timers_def)
    obtain k1 where k1: "call_timeout cb (timers k m) (rt_timer_remove m k) = Some k1" "sched_inv k1" "timer_inv k1"
      "rt_current_thread k1 \<noteq> None" "timers_same (rt_timer_remove m k) k1" "rt_tick k1 = rt_tick k"
      using timeout_runs [OF q ready(1-3) m(1)] by blast
    obtain k2 where k2: "timer_rearm m k1 = Some k2" "fired m k k2"
      using timer_rearm_fired [OF k1(2-6) ready(2,4) mem(1)] by blast
    note e = fired_effect [OF k2(2) mem(2) ready(4)]
    have "tm_flag k m AND 4 = 0" using ready(2) mem(1) by (auto simp: timer_inv_def timer_lists_ok_def)
    then have "tm_flag k1 m AND 4 = 0"
      using timers_sameD(2) [OF k1(5)] by (simp add: tm_flag_def rt_timer_remove_def)
    note c = timeout_calm [OF g ready(1-3) mem(1) k1(1)] timer_rearm_calm [OF k2(1) this]
    have "rt_timer_check_loop cb fuel (rt_tick k2) k2 = Some k'"
      using Suc.prems(3) m k1 k2(1) e(7) by (simp add: due_def)
    from Suc.IH [OF fired_ready [OF k2(2) mem(2) Suc.prems(1)] _ this] Suc.prems(2) e(7)
    have r: "calm k2 k'" "\<And>x. x \<notin> due_timers k2 \<Longrightarrow> timer_same k2 k' x"
      "\<And>t. Thread_Timer t \<in> due_timers k2 \<Longrightarrow> runnable k' t" by auto
    have "calm k k'" using calm_trans [OF c(1) calm_trans [OF c(3) r(1)]] .
    moreover have "timer_same k k' x" if "x \<notin> due_timers k" for x
      using e(1) e(4) [of x] r(2) [of x] that mem(2) by (auto simp: timer_same_def)
    moreover have "runnable k' t" if "Thread_Timer t \<in> due_timers k" for t
    proof (cases "m = Thread_Timer t")
      case True
      then have "runnable k2 t" using c(2) [of t] c(4) by (simp add: runnable_def thread_stat_def)
      then show ?thesis using r(1) by (simp add: calm_def)
    qed (use that e(1) r(3) in simp)
    ultimately show ?thesis by blast
  qed
qed simp

section \<open>One tick\<close>

lemma tick_time_slice_effect:
  assumes i: "sched_inv k" "rt_current_thread k \<noteq> None" and r: "tick_time_slice k = Some k'"
  shows "calm k k'"
proof -
  obtain t where t: "rt_current_thread k = Some t" using i(2) by auto
  let ?f = "\<lambda>th. th\<lparr>th_remaining_tick := th_remaining_tick th - 1\<rparr>"
  let ?g = "\<lambda>th. th\<lparr>th_remaining_tick := th_init_tick th, th_stat := th_stat th OR 8\<rparr>"
  let ?k1 = "upd_thread t ?f k"
  let ?k2 = "upd_thread t ?g ?k1"
  have same: "sched_same k ?k1" "sched_same k ?k2"
    by (simp_all add: sched_same_def upd_thread_def thread_stat_def prio_def timers_same_def)
  have c: "calm k ?k1" "calm k ?k2"
    using same by (auto intro!: calm_same)
  show ?thesis
  proof (cases "th_remaining_tick (threads ?k1 t) = 0")
    case True
    then have s: "rt_schedule ?k2 = Some k'"
      using r t by (auto simp: tick_time_slice_def rt_thread_self_def rt_thread_yield_def Let_def bind_eq_Some_conv)
    have s2: "sched_inv ?k2" by (intro sched_inv_slice i(1)) simp_all
    note d = reschedD [OF rt_schedule_resched [OF s s2]]
    have "orderly ?k2 k'" by (rule orderly_schedule [OF s s2]) simp_all
    moreover have "runnable ?k2 t" if "dispatched ?k2" using that t by (auto simp: dispatched_def runnable_def)
    ultimately have "calm ?k2 k'"
      using d resched_wait_list [OF rt_schedule_resched [OF s s2]] by (auto simp: calm_def orderly_def)
    then show ?thesis using calm_trans [OF c(2)] by blast
  next
    case False
    then have "k' = ?k1" using r t by (auto simp: tick_time_slice_def rt_thread_self_def Let_def)
    then show ?thesis using c(1) by simp
  qed
qed

text \<open>A tick in a running system with a steady timer list, with fuel for the timers that are on the list.\<close>

definition tick_step :: "(nat \<Rightarrow> nat \<Rightarrow> kernel \<Rightarrow> kernel option) \<Rightarrow> kernel \<Rightarrow> kernel option" where
  "tick_step cb k = rt_tick_increase cb (Suc (length (rt_timer_list k))) k"

lemma tick_step_ok:
  assumes g: "gentle cb" and b: "base_inv k" and s: "steady k"
  obtains k' where "tick_step cb k = Some k'" "base_inv k'" "steady k'" "rt_tick k' = rt_tick k + 1"
    "calm (k\<lparr>rt_tick := rt_tick k + 1\<rparr>) k'"
    "\<forall>t. Thread_Timer t \<in> set (rt_timer_list k) \<longrightarrow>
       (if due (k\<lparr>rt_tick := rt_tick k + 1\<rparr>) (Thread_Timer t) then runnable k' t
        else Thread_Timer t \<in> set (rt_timer_list k') \<and> timeout_tick k' (Thread_Timer t) = timeout_tick k (Thread_Timer t))"
proof -
  let ?k = "k\<lparr>rt_tick := rt_tick k + 1\<rparr>" and ?n = "Suc (length (rt_timer_list k))"
  have r: "check_ready (rt_tick ?k) ?k" using steady_ready [OF base_invD [OF b] s] by simp
  have w: "in_window (rt_tick ?k) (rt_tick ?k)" by (simp add: in_window_def tick_dist_def RT_TICK_HALF_def)
  obtain k1 where k1: "tick_time_slice ?k = Some k1" "check_ready (rt_tick ?k) k1" "timers_same ?k k1" "rt_tick k1 = rt_tick ?k"
    using tick_time_slice_step [OF r] by blast
  have c1: "calm ?k k1" using r by (intro tick_time_slice_effect [OF _ _ k1(1)]) (simp_all add: check_ready_def)
  note d = timers_sameD [OF k1(3)]
  have w1: "in_window (rt_tick ?k) (rt_tick k1)" using w k1(4) by simp
  have "card (due_timers k1) \<le> card (set (rt_timer_list k1))" by (rule card_mono) (auto simp: due_timers_def)
  then have "card (due_timers k1) < ?n" using card_length [of "rt_timer_list k"] d(3) by simp
  then obtain k' where k': "rt_timer_check_loop cb ?n (rt_tick k1) k1 = Some k'" "check_ready (rt_tick ?k) k'"
    "rt_tick k' = rt_tick k1" "due_timers k' = {}"
    "set (rt_timer_list k') = {x \<in> set (rt_timer_list k1). \<not> due k1 x \<or> periodic k1 x}"
    using rt_timer_check_loop_done [OF conjunct1 [OF g [unfolded gentle_def]] k1(2) w1, of ?n] by blast
  note e = check_loop_effect [OF g k1(2) w1 k'(1)]
  have same: "due k1 x = due ?k x" "timeout_tick k1 x = timeout_tick k x" for x
    using d(1) k1(4) by (simp_all add: due_def timeout_tick_def)
  have "if due ?k (Thread_Timer t) then runnable k' t
      else Thread_Timer t \<in> set (rt_timer_list k') \<and> timeout_tick k' (Thread_Timer t) = timeout_tick k (Thread_Timer t)"
    if "Thread_Timer t \<in> set (rt_timer_list k)" for t
  proof (cases "due ?k (Thread_Timer t)")
    case True
    then show ?thesis using that e d(3) same(1) by (simp add: due_timers_def)
  next
    case False
    then have "timer_same k1 k' (Thread_Timer t)" using e same(1) by (simp add: due_timers_def)
    then show ?thesis using False that k'(5) d(3) same by (simp add: timer_same_def timeout_tick_def)
  qed
  moreover have "tick_step cb k = Some k'"
    using k1(1) k'(1) by (simp add: tick_step_def rt_tick_increase_def rt_timer_check_def del: rt_timer_check_loop.simps)
  moreover have "calm ?k k'" using calm_trans [OF c1] e by blast
  moreover have "steady k'" using checked_steady k'(2-4) k1(4) by simp
  ultimately show ?thesis
    using k'(2,3) k1(4) by (intro that [of k']) (simp_all add: check_ready_def base_inv_def)
qed

section \<open>Sleeping\<close>

text \<open>A run of the system: in front of the \<open>i\<close>-th tick the threads and interrupts do \<open>env i\<close>. They leave the sleep of
  thread \<open>t\<close> undisturbed if the timer of \<open>t\<close> stays started as it is.\<close>

fun tick_run ::
  "(nat \<Rightarrow> nat \<Rightarrow> kernel \<Rightarrow> kernel option) \<Rightarrow> (nat \<Rightarrow> kernel \<Rightarrow> kernel option) \<Rightarrow> nat \<Rightarrow> kernel \<Rightarrow> kernel option" where
  "tick_run cb env 0 k = Some k"
| "tick_run cb env (Suc n) k = do { k \<leftarrow> tick_run cb env n k; k \<leftarrow> env n k; tick_step cb k }"

definition sleeping :: "tid \<Rightarrow> rt_tick_t \<Rightarrow> kernel \<Rightarrow> bool" where
  "sleeping t wake k \<longleftrightarrow>
     base_inv k \<and> steady k \<and> Thread_Timer t \<in> set (rt_timer_list k) \<and> timeout_tick k (Thread_Timer t) = wake"

definition undisturbed :: "tid \<Rightarrow> (nat \<Rightarrow> kernel \<Rightarrow> kernel option) \<Rightarrow> bool" where
  "undisturbed t env \<longleftrightarrow> (\<forall>i wake k. sleeping t wake k \<longrightarrow>
     (\<exists>k'. env i k = Some k' \<and> sleeping t wake k' \<and> rt_tick k' = rt_tick k))"

lemma sleeping_suspended: "sleeping t wake k \<Longrightarrow> thread_stat k t = RT_THREAD_SUSPEND"
  using timer_invD(3) [of k t] by (auto simp: sleeping_def base_inv_def listed_def)

lemma tick_Suc:
  fixes tick :: rt_tick_t
  assumes "Suc n = unat tick"
  shows "of_nat n + 1 = tick"
proof -
  have "of_nat (Suc n) = tick" unfolding assms by simp
  then show ?thesis by (simp add: add.commute)
qed

lemma due_after:
  assumes "n < unat tick" "tick < RT_TICK_HALF"
  shows "(now + of_nat n + 1) - (now + tick) < RT_TICK_HALF \<longleftrightarrow> Suc n = unat tick"
proof (cases "Suc n = unat tick")
  case True
  then have "of_nat n + 1 = tick" by (rule tick_Suc)
  then show ?thesis using True by (simp add: add.assoc RT_TICK_HALF_def)
next
  case False
  let ?d = "tick - (of_nat n + 1)"
  have "Suc n < 2 ^ LENGTH(32)" using assms(1) unat_bound [of tick] by simp
  then have sn: "unat (of_nat (Suc n) :: rt_tick_t) = Suc n" by (simp add: unat_of_nat del: of_nat_Suc)
  then have le: "of_nat (Suc n) \<le> tick" using assms(1) by (simp only: word_le_nat_alt)
  have d: "unat ?d = unat tick - Suc n" using unat_sub [OF le] sn by (simp add: add.commute)
  have "?d \<noteq> 0" using d False assms(1) by (metis Suc_leI diff_is_0_eq le_antisym unat_0)
  moreover have "?d < RT_TICK_HALF" using d assms(2) by (simp add: word_less_nat_alt)
  ultimately have "\<not> now - (now + ?d) < RT_TICK_HALF" using restarted_not_due [of ?d "zero_kernel\<lparr>rt_tick := now\<rparr>"] by simp
  moreover have "now - (now + ?d) = (now + of_nat n + 1) - (now + tick)" by (simp add: algebra_simps)
  ultimately show ?thesis using False by simp
qed

lemma tick_run_sleeping:
  assumes g: "gentle cb" and u: "undisturbed t env" and s: "sleeping t (now + tick) k" "rt_tick k = now"
    and n: "tick < RT_TICK_HALF"
  shows "n < unat tick \<Longrightarrow> \<exists>k'. tick_run cb env n k = Some k' \<and> sleeping t (now + tick) k' \<and> rt_tick k' = now + of_nat n"
proof (induction n)
  case 0
  then show ?case using s by simp
next
  case (Suc n)
  then obtain k1 where k1: "tick_run cb env n k = Some k1" "sleeping t (now + tick) k1" "rt_tick k1 = now + of_nat n" by auto
  from u k1(2) obtain k2 where k2: "env n k1 = Some k2" "sleeping t (now + tick) k2" "rt_tick k2 = now + of_nat n"
    unfolding undisturbed_def k1(3) [symmetric] by metis
  then have "base_inv k2" "steady k2" by (simp_all add: sleeping_def)
  then obtain k' where k': "tick_step cb k2 = Some k'" "base_inv k'" "steady k'" "rt_tick k' = rt_tick k2 + 1"
    "\<forall>t. Thread_Timer t \<in> set (rt_timer_list k2) \<longrightarrow>
       (if due (k2\<lparr>rt_tick := rt_tick k2 + 1\<rparr>) (Thread_Timer t) then runnable k' t
        else Thread_Timer t \<in> set (rt_timer_list k') \<and> timeout_tick k' (Thread_Timer t) = timeout_tick k2 (Thread_Timer t))"
    using tick_step_ok [OF g] by metis
  have "\<not> due (k2\<lparr>rt_tick := rt_tick k2 + 1\<rparr>) (Thread_Timer t)"
    using due_after [of n tick now] Suc.prems n k2(2,3) by (simp add: due_def sleeping_def timeout_tick_def)
  then have "sleeping t (now + tick) k'" using k' k2(2) by (simp add: sleeping_def)
  then show ?case using k1(1) k2 k' by (simp add: add.assoc add.commute)
qed

text \<open>C2: sleeping takes exactly the time it should. A thread that calls \<^verbatim>\<open>rt_thread_sleep\<close> for \<open>tick\<close> ticks is suspended after
  the call and after each of the first \<open>tick - 1\<close> ticks, and it is ready or running after the \<open>tick\<close>-th, whatever other
  threads and interrupts do in between, unless they wake it or touch its timer. Every tick in between returns.\<close>

theorem rt_thread_sleep_wakes:
  assumes "gentle cb" "undisturbed t env" "base_inv k" "steady k" "in_thread k t" "tick \<noteq> 0" "tick < RT_TICK_HALF"
  shows "\<exists>k0. rt_thread_sleep tick k = Some (t, k0) \<and>
    (\<forall>n < unat tick. \<exists>k'. tick_run cb env n k0 = Some k' \<and> thread_stat k' t = RT_THREAD_SUSPEND) \<and>
    (\<exists>k'. tick_run cb env (unat tick) k0 = Some k' \<and> runnable k' t \<and> base_inv k' \<and> rt_tick k' = rt_tick k + tick)"
proof -
  have c: "rt_current_thread k = Some t" "thread_stat k t = 3" using assms(5) by (simp_all add: in_thread_def)
  have ty: "rt_object_get_type k (OThread t) = 1"
    using live_timer_ok [OF base_invD(2) [OF assms(3)], of t] c(2) by (simp add: live_def thread_timer_ok_def)
  obtain k0 where k0: "sleep_for t tick k = Some k0" "sched_inv k0" "timer_inv k0" "ipc_same k k0"
    "Thread_Timer t \<in> set (rt_timer_list k0)" "timeout_tick k0 (Thread_Timer t) = rt_tick k + tick"
    "rt_current_thread k0 \<noteq> None" "tick \<noteq> 0 \<longrightarrow> orderly k k0"
    by (rule sleep_for_step [OF base_invD(1,2) [OF assms(3)] c assms(7)])
  have sl: "sleeping t (rt_tick k + tick) k0"
    using k0 assms(4,6) by (simp add: sleeping_def base_inv_def orderly_def)
  have tk: "rt_tick k0 = rt_tick k" using ipc_sameD(9) [OF k0(4)] .
  note run = tick_run_sleeping [OF assms(1,2) sl tk assms(7)]
  obtain n where n: "unat tick = Suc n" using assms(6) by (metis not0_implies_Suc unat_eq_zero)
  obtain k1 where k1: "tick_run cb env n k0 = Some k1" "sleeping t (rt_tick k + tick) k1" "rt_tick k1 = rt_tick k + of_nat n"
    using run [of n] n by auto
  obtain k2 where k2: "env n k1 = Some k2" "sleeping t (rt_tick k + tick) k2" "rt_tick k2 = rt_tick k1"
    using assms(2) k1(2) unfolding undisturbed_def by metis
  then have "base_inv k2" "steady k2" by (simp_all add: sleeping_def)
  then obtain k' where k': "tick_step cb k2 = Some k'" "base_inv k'" "rt_tick k' = rt_tick k2 + 1"
    "\<forall>t. Thread_Timer t \<in> set (rt_timer_list k2) \<longrightarrow>
       (if due (k2\<lparr>rt_tick := rt_tick k2 + 1\<rparr>) (Thread_Timer t) then runnable k' t
        else Thread_Timer t \<in> set (rt_timer_list k') \<and> timeout_tick k' (Thread_Timer t) = timeout_tick k2 (Thread_Timer t))"
    using tick_step_ok [OF assms(1)] by metis
  have "due (k2\<lparr>rt_tick := rt_tick k2 + 1\<rparr>) (Thread_Timer t)"
    using due_after [of n tick "rt_tick k"] n assms(7) k2(2,3) k1(3) by (simp add: due_def sleeping_def timeout_tick_def)
  then have "runnable k' t" using k'(4) k2(2) by (simp add: sleeping_def)
  moreover have "of_nat n + 1 = tick" using n by (intro tick_Suc) simp
  then have "rt_tick k' = rt_tick k + tick" using k'(3) k2(3) k1(3) by (simp add: add.assoc)
  moreover have "tick_run cb env (unat tick) k0 = Some k'" using n k1(1) k2(1) k'(1) by simp
  moreover have "rt_thread_sleep tick k = Some (t, k0)" using k0(1) c ty by (simp add: rt_thread_sleep_def rt_thread_self_def)
  ultimately show ?thesis using run k'(2) sleeping_suspended by blast
qed

lemma demo_steady: "steady demo_kernel"
  by (simp add: steady_def periods_ok_def by_timeout_def due_timers_def demo_kernel_def zero_kernel_def)

lemma gentle_id: "gentle (\<lambda>_ _. Some)"
  by (simp add: gentle_def quiet_def)

theorem rt_thread_sleep_wakes_witness:
  "\<exists>k0 k'. rt_thread_sleep 5 demo_kernel = Some (1, k0) \<and> tick_run (\<lambda>_ _. Some) (\<lambda>_. Some) 5 k0 = Some k' \<and> runnable k' 1"
proof -
  have "undisturbed 1 (\<lambda>_. Some)" by (simp add: undisturbed_def)
  moreover have "base_inv demo_kernel" "in_thread demo_kernel 1"
    using demo_kernel_inv demo_timer_inv by (simp_all add: base_inv_def in_thread_def) (simp_all add: demo_simps)
  moreover have "(5 :: rt_tick_t) < RT_TICK_HALF" by (simp add: RT_TICK_HALF_def)
  ultimately show ?thesis
    using rt_thread_sleep_wakes [OF gentle_id _ _ demo_steady, of 1 "\<lambda>_. Some" 5] by fastforce
qed

end
