(* ===== verification/Kernel_Run.thy ===== *)
theory Kernel_Run
  imports Message_Queue Delay Wait_Queue
begin

text \<open>
  Runs of the whole system: threads call kernel operations in any order, blocking ones included, and ticks interrupt
  them. The system invariant, which every call keeps, says that the kernel state is consistent, that the timers are in
  order and that the processor is where it should be: the thread that runs is at least as urgent as every ready one. No
  call gets stuck on the way.
\<close>

section \<open>Calls\<close>

text \<open>The interrupt of the system timer (\<^verbatim>\<open>SysTick_Handler\<close> of \<^verbatim>\<open>src/drivers/drv_common.c\<close>); the tick of the hardware abstraction
  layer is not part of the kernel state.\<close>

definition SysTick_Handler :: "(nat \<Rightarrow> nat \<Rightarrow> kernel \<Rightarrow> kernel option) \<Rightarrow> kernel \<Rightarrow> kernel option" where
  "SysTick_Handler cb k = do {
     let k = rt_interrupt_enter k;
     k \<leftarrow> tick_step cb k;
     Some (rt_interrupt_leave k)
   }"

text \<open>What a thread can do next, or an interrupt. A \<open>Retry\<close> is the rest of a mailbox or message queue call whose thread runs again
  after it had to wait.\<close>

datatype call =
    Sem_init nat string u32 u8 | Mb_init nat string "u32 list" u32 u8
  | Sem_take nat u32 | Sem_release nat
  | Mb_send nat u32 u32 | Mb_send_retry nat u32 waiter | Mb_recv nat u32
  | Mq_send nat "u8 list" u32 | Mq_recv nat nat u32
  | Sleep rt_tick_t | Timer_wait | Yield | Enter_critical | Exit_critical
  | Tick

fun exec :: "(nat \<Rightarrow> nat \<Rightarrow> kernel \<Rightarrow> kernel option) \<Rightarrow> call \<Rightarrow> kernel \<Rightarrow> kernel option" where
  "exec cb (Sem_init s name v flag) k = map_option snd (rt_sem_init s name v flag k)"
| "exec cb (Mb_init b name pool len flag) k = map_option snd (rt_mb_init b name pool len flag k)"
| "exec cb (Sem_take s time) k = map_option snd (rt_sem_take s time k)"
| "exec cb (Sem_release s) k = map_option snd (rt_sem_release s k)"
| "exec cb (Mb_send b v time) k = map_option snd (rt_mb_send_wait b v time k)"
| "exec cb (Mb_send_retry b v w) k = map_option snd (rt_mb_send_wait_resumed b v w k)"
| "exec cb (Mb_recv b time) k = map_option snd (rt_mb_recv b time k)"
| "exec cb (Mq_send q a time) k = map_option snd (rt_mq_send_wait q a time k)"
| "exec cb (Mq_recv q len time) k = map_option snd (rt_mq_recv q len time k)"
| "exec cb (Sleep n) k = map_option snd (rt_thread_sleep n k)"
| "exec cb Timer_wait k = rt_thread_timer_entry_wait k"
| "exec cb Yield k = map_option snd (rt_thread_yield k)"
| "exec cb Enter_critical k = Some (rt_enter_critical k)"
| "exec cb Exit_critical k = rt_exit_critical k"
| "exec cb Tick k = SysTick_Handler cb k"

text \<open>When a call may be made: the initialisation of an object that is not registered and on which nobody waits, with a
  waiting order that exists and a pool of the size given; any other call on an object that exists, with a time limit in range, and one that can wait only by a
  thread other than the idle thread \<open>i\<close> and with the scheduler unlocked. The lock counter must not wrap. \<open>Timer_wait\<close> is the
  timer thread when no soft timer is started.\<close>

definition may_wait :: "tid \<Rightarrow> u32 \<Rightarrow> kernel \<Rightarrow> bool" where
  "may_wait i time k \<longleftrightarrow>
     time_ok time \<and> (time \<noteq> 0 \<longrightarrow> rt_current_thread k \<noteq> Some i \<and> rt_scheduler_lock_nest k = 0)"

fun allowed :: "tid \<Rightarrow> call \<Rightarrow> kernel \<Rightarrow> bool" where
  "allowed i (Sem_init s name v flag) k \<longleftrightarrow>
     OSem s \<notin> set (object_list k RT_Object_Class_Semaphore) \<and> tlists k (LSem s) = [] \<and> v < 0x10000 \<and> ipc_flag flag \<and>
     rt_scheduler_lock_nest k \<noteq> - 1"
| "allowed i (Mb_init b name pool len flag) k \<longleftrightarrow>
     OMb b \<notin> set (object_list k RT_Object_Class_MailBox) \<and> tlists k (LMb b) = [] \<and> tlists k (LMbSender b) = [] \<and>
     0 < len \<and> len < 0x10000 \<and> length pool = unat len \<and> ipc_flag flag \<and> rt_scheduler_lock_nest k \<noteq> - 1"
| "allowed i (Sem_take s time) k \<longleftrightarrow>
     rt_object_get_type k (OSem s) = RT_Object_Class_Semaphore \<and> may_wait i time k"
| "allowed i (Sem_release s) k \<longleftrightarrow> rt_object_get_type k (OSem s) = RT_Object_Class_Semaphore"
| "allowed i (Mb_send b v time) k \<longleftrightarrow>
     rt_object_get_type k (OMb b) = RT_Object_Class_MailBox \<and> may_wait i time k"
| "allowed i (Mb_send_retry b v w) k \<longleftrightarrow>
     rt_object_get_type k (OMb b) = RT_Object_Class_MailBox \<and> rt_current_thread k = Some (w_thread w) \<and>
     may_wait i (remaining w (rt_tick k)) k"
| "allowed i (Mb_recv b time) k \<longleftrightarrow>
     rt_object_get_type k (OMb b) = RT_Object_Class_MailBox \<and> may_wait i time k"
| "allowed i (Mq_send q a time) k \<longleftrightarrow>
     rt_object_get_type k (OMq q) = RT_Object_Class_MessageQueue \<and> a \<noteq> [] \<and> may_wait i time k"
| "allowed i (Mq_recv q len time) k \<longleftrightarrow>
     rt_object_get_type k (OMq q) = RT_Object_Class_MessageQueue \<and> len \<noteq> 0 \<and> may_wait i time k"
| "allowed i (Sleep n) k \<longleftrightarrow>
     n \<noteq> 0 \<and> n < RT_TICK_HALF \<and> rt_current_thread k \<noteq> Some i \<and> rt_scheduler_lock_nest k = 0"
| "allowed i Timer_wait k \<longleftrightarrow>
     rt_soft_timer_list k = [] \<and> rt_current_thread k \<noteq> Some i \<and> rt_scheduler_lock_nest k = 0"
| "allowed i Enter_critical k \<longleftrightarrow> rt_scheduler_lock_nest k \<noteq> - 1"
| "allowed i c k \<longleftrightarrow> True"

text \<open>A run: the calls one after the other, leaving out those that may not be made.\<close>

fun run :: "(nat \<Rightarrow> nat \<Rightarrow> kernel \<Rightarrow> kernel option) \<Rightarrow> tid \<Rightarrow> call list \<Rightarrow> kernel \<Rightarrow> kernel option" where
  "run cb i [] k = Some k"
| "run cb i (c # cs) k = (if allowed i c k then exec cb c k \<bind> run cb i cs else run cb i cs k)"

section \<open>The system invariant\<close>

definition running :: "tid \<Rightarrow> kernel \<Rightarrow> bool" where
  "running i k \<longleftrightarrow>
     base_inv k \<and> steady k \<and> (rt_scheduler_lock_nest k = 0 \<longrightarrow> dispatched k) \<and> rt_interrupt_nest k = 0 \<and> runnable k i"

definition objects_ok :: "kernel \<Rightarrow> bool" where
  "objects_ok k \<longleftrightarrow> sem_inv k \<and>
     (\<forall>s. rt_object_get_type k (OSem s) = RT_Object_Class_Semaphore \<longrightarrow> ipc_flag (obj_flag (objs k (OSem s)))) \<and>
     (\<forall>b. rt_object_get_type k (OMb b) = RT_Object_Class_MailBox \<longrightarrow>
        ipc_flag (obj_flag (objs k (OMb b))) \<and> mb_ok (mailboxes k b)) \<and>
     (\<forall>q. rt_object_get_type k (OMq q) = RT_Object_Class_MessageQueue \<longrightarrow>
        ipc_flag (obj_flag (objs k (OMq q))) \<and> mq_ok (msgqueues k q))"

definition sys_inv :: "tid \<Rightarrow> kernel \<Rightarrow> bool" where
  "sys_inv i k \<longleftrightarrow> running i k \<and> objects_ok k"

lemma runningD:
  assumes "running i k"
  shows "base_inv k" "steady k" "rt_scheduler_lock_nest k = 0 \<Longrightarrow> dispatched k" "rt_interrupt_nest k = 0" "runnable k i"
  using assms by (simp_all add: running_def)

lemma running_in_thread:
  assumes "running i k" "rt_scheduler_lock_nest k = 0"
  obtains t where "in_thread k t"
  using runningD(3,4) [OF assms(1)] assms(2) by (auto simp: dispatched_def in_thread_def)

lemma running_orderly:
  assumes "running i k" "base_inv k'" "orderly k k'" "rt_interrupt_nest k' = rt_interrupt_nest k" "runnable k' i"
  shows "running i k'"
  using assms by (auto simp: running_def orderly_def)

text \<open>Which object invariants an operation has to look at.\<close>

definition objs_same :: "kernel \<Rightarrow> kernel \<Rightarrow> bool" where
  "objs_same k k' \<longleftrightarrow> (\<forall>r. (\<forall>m. r \<noteq> OTimer m) \<longrightarrow> objs k' r = objs k r)"

lemma ipc_objs_same: "ipc_same k k' \<Longrightarrow> objs_same k k'"
  by (simp add: objs_same_def ipc_same_def)

lemma objects_okI:
  assumes "objects_ok k" "objs_same k k'" "sem_inv k'"
    "\<And>b. mb_ok (mailboxes k b) \<Longrightarrow> mb_ok (mailboxes k' b)" "\<And>q. mq_ok (msgqueues k q) \<Longrightarrow> mq_ok (msgqueues k' q)"
  shows "objects_ok k'"
  using assms by (simp add: objects_ok_def objs_same_def rt_object_get_type_def)

text \<open>Operations that leave the objects alone and take nobody onto the list of a semaphore.\<close>

lemma objects_ok_ipc:
  assumes "objects_ok k" "ipc_same k k'" "\<And>s. tlists k (LSem s) = [] \<Longrightarrow> tlists k' (LSem s) = []"
  shows "objects_ok k'"
proof (rule objects_okI [OF assms(1) ipc_objs_same [OF assms(2)]])
  show "sem_inv k'" using assms(1,3) ipc_sameD(1) [OF assms(2)] by (simp add: objects_ok_def sem_inv_def)
qed (use ipc_sameD(4,5) [OF assms(2)] in simp_all)

section \<open>Every call keeps the invariant\<close>

lemma may_wait_in_thread:
  assumes "running i k" "may_wait i time k"
  obtains t where "rt_current_thread k = Some t" "time \<noteq> 0 \<longrightarrow> in_thread k t \<and> t \<noteq> i" "time_ok time"
proof -
  obtain t where t: "rt_current_thread k = Some t" using base_invD(3) [OF runningD(1) [OF assms(1)]] by auto
  have "in_thread k t \<and> t \<noteq> i" if "time \<noteq> 0"
    using that assms t running_in_thread [OF assms(1)] by (auto simp: may_wait_def in_thread_def)
  with t assms(2) show ?thesis by (intro that [of t]) (simp_all add: may_wait_def)
qed

lemma sched_same_sem_value [simp]: "sched_same k (set_sem_value s f k)"
  by (simp add: sched_same_def set_sem_value_def timers_same_def thread_stat_def prio_def)

lemma sem_value_step:
  assumes i: "sys_inv i k" and s: "sem_inv (set_sem_value s f k)"
  shows "sys_inv i (set_sem_value s f k)"
proof -
  let ?k = "set_sem_value s f k"
  have r: "running i k" using i by (simp add: sys_inv_def)
  have "rt_interrupt_nest ?k = rt_interrupt_nest k" by (simp add: set_sem_value_def)
  then have "running i ?k"
    using runningD(1,5) [OF r] by (intro running_orderly [OF r] orderly_same) simp_all
  moreover have "objects_ok ?k"
    by (rule objects_okI [of k]) (use i s in \<open>simp_all add: sys_inv_def objs_same_def\<close>, simp_all add: set_sem_value_def)
  ultimately show ?thesis by (simp add: sys_inv_def)
qed

lemma sem_take_sys:
  assumes i: "sys_inv i k" and a: "allowed i (Sem_take s time) k"
  shows "\<exists>k'. exec cb (Sem_take s time) k = Some k' \<and> sys_inv i k'"
proof -
  have r: "running i k" and o: "objects_ok k" using i by (simp_all add: sys_inv_def)
  have ty: "rt_object_get_type k (OSem s) = 2" and w: "may_wait i time k" using a by simp_all
  have f: "ipc_flag (obj_flag (objs k (OSem s)))" and si: "sem_inv k" using o ty by (simp_all add: objects_ok_def)
  obtain t where t: "rt_current_thread k = Some t" "time \<noteq> 0 \<longrightarrow> in_thread k t \<and> t \<noteq> i" "time_ok time"
    using may_wait_in_thread [OF r w] .
  consider (take) "0 < sem_value (sems k s)" | (poll) "sem_value (sems k s) = 0" "time = 0"
    | (block) "sem_value (sems k s) = 0" "time \<noteq> 0" by (metis word_gt_0)
  then show ?thesis
  proof cases
    case take
    have "sem_inv (set_sem_value s (\<lambda>v. v - 1) k)" using si take by (auto simp: sem_inv_def)
    from sem_value_step [OF i this] take ty show ?thesis by (simp add: rt_sem_take_def)
  next
    case poll
    with i ty show ?thesis by (simp add: rt_sem_take_def)
  next
    case block
    let ?k = "set_error t RT_EOK k"
    have it: "in_thread k t" "t \<noteq> i" using block t(2) by simp_all
    obtain k' where k': "rt_sem_take s time k = Some (Blocked t, k')" "waits (LSem s) (obj_flag (objs k (OSem s))) t ?k k'"
      using rt_sem_take_blocks [OF runningD(1) [OF r] it(1) ty block t(3) f] by blast
    note q = k'(2) [unfolded waits_def]
    have ipc: "ipc_same k k'" using q ipc_same_trans [of k ?k k'] by simp
    have "orderly k k'" using q orderly_before [OF sched_same_set_error] by blast
    then have "running i k'"
      using q it(2) runningD(5) [OF r] ipc_sameD(10) [OF ipc] base_inv_waits [OF k'(2)] by (intro running_orderly [OF r]) simp_all
    moreover have "sem_inv k'" using sem_inv_waits [OF _ k'(2)] si block(1) by (simp add: sem_inv_def)
    then have "objects_ok k'"
      by (rule objects_okI [OF o ipc_objs_same [OF ipc]]) (simp_all add: ipc_sameD(4,5) [OF ipc])
    ultimately show ?thesis using k'(1) by (simp add: sys_inv_def)
  qed
qed

lemma sem_release_sys:
  assumes i: "sys_inv i k" and a: "allowed i (Sem_release s) k"
  shows "\<exists>k'. exec cb (Sem_release s) k = Some k' \<and> sys_inv i k'"
proof -
  have r: "running i k" and o: "objects_ok k" and si: "sem_inv k" using i by (simp_all add: sys_inv_def objects_ok_def)
  have ty: "rt_object_get_type k (OSem s) = 2" using a by simp
  show ?thesis
  proof (cases "tlists k (LSem s)")
    case Nil
    have "sem_inv (set_sem_value s (\<lambda>v. v + 1) k)" using si Nil by (auto simp: sem_inv_def)
    from sem_value_step [OF i this] Nil ty show ?thesis by (simp add: rt_sem_release_def)
  next
    case (Cons t ts)
    obtain k' where k': "rt_sem_release s k = Some (RT_EOK, k')" "wakes t k k'" "orderly k k'"
      using rt_sem_release_wakes [OF runningD(1) [OF r] ty Cons] by blast
    note w = k'(2) [unfolded wakes_def]
    have ipc: "ipc_same k k'" using w by blast
    have "runnable k' i" using w runningD(5) [OF r] by (cases "i = t") simp_all
    then have "running i k'"
      using k'(3) ipc_sameD(10) [OF ipc] base_inv_wakes [OF runningD(1) [OF r] k'(2)] by (intro running_orderly [OF r]) simp_all
    moreover have "objects_ok k'" by (rule objects_ok_ipc [OF o ipc]) (use w in simp)
    ultimately show ?thesis using k'(1) by (simp add: sys_inv_def)
  qed
qed

text \<open>Mailboxes and message queues.\<close>

lemma mb_stepped_sys:
  assumes i: "sys_inv i k" and s: "mbc.stepped b k k'"
    and c: "rt_current_thread k = Some i \<longrightarrow> i \<notin> set (tlists k' (LMb b)) \<and> i \<notin> set (tlists k' (LMbSender b))"
  shows "sys_inv i k'"
proof -
  have r: "running i k" and o: "objects_ok k" using i by (simp_all add: sys_inv_def)
  note q = s [unfolded mbc.stepped_def]
  obtain k0 where k0: "k0 = k \<or> (\<exists>mb. k0 = upd_mb b (\<lambda>_. mb) k)" "ipc_same k0 k'" using q by blast
  have z: "objs k0 = objs k" "sems k0 = sems k" "msgqueues k0 = msgqueues k" "rt_interrupt_nest k0 = rt_interrupt_nest k"
    "b' \<noteq> b \<Longrightarrow> mailboxes k0 b' = mailboxes k b'" for b' using k0(1) by (auto simp: upd_mb_def)
  have "runnable k' i" using q c runningD(5) [OF r] by blast
  then have "running i k'"
    using q z(4) ipc_sameD(10) [OF k0(2)] by (intro running_orderly [OF r]) simp_all
  moreover have "objects_ok k'"
  proof (rule objects_okI [OF o])
    show "objs_same k k'" using ipc_objs_same [OF k0(2)] z(1) by (simp add: objs_same_def)
    show "sem_inv k'" using o q z(2) ipc_sameD(1) [OF k0(2)] by (simp add: objects_ok_def sem_inv_def)
    show "mb_ok (mailboxes k' b')" if "mb_ok (mailboxes k b')" for b'
      using that q z(5) [of b'] ipc_sameD(4) [OF k0(2)] by (cases "b' = b") simp_all
    show "mq_ok (msgqueues k' x)" if "mq_ok (msgqueues k x)" for x using that z(3) ipc_sameD(5) [OF k0(2)] by simp
  qed
  ultimately show ?thesis by (simp add: sys_inv_def)
qed

lemma mq_stepped_sys:
  assumes i: "sys_inv i k" and s: "mqc.stepped q k k'"
    and c: "rt_current_thread k = Some i \<longrightarrow> i \<notin> set (tlists k' (LMq q)) \<and> i \<notin> set (tlists k' (LMqSender q))"
  shows "sys_inv i k'"
proof -
  have r: "running i k" and o: "objects_ok k" using i by (simp_all add: sys_inv_def)
  note a = s [unfolded mqc.stepped_def]
  obtain k0 where k0: "k0 = k \<or> (\<exists>mq. k0 = upd_mq q (\<lambda>_. mq) k)" "ipc_same k0 k'" using a by blast
  have z: "objs k0 = objs k" "sems k0 = sems k" "mailboxes k0 = mailboxes k" "rt_interrupt_nest k0 = rt_interrupt_nest k"
    "x \<noteq> q \<Longrightarrow> msgqueues k0 x = msgqueues k x" for x using k0(1) by (auto simp: upd_mq_def)
  have "runnable k' i" using a c runningD(5) [OF r] by blast
  then have "running i k'"
    using a z(4) ipc_sameD(10) [OF k0(2)] by (intro running_orderly [OF r]) simp_all
  moreover have "objects_ok k'"
  proof (rule objects_okI [OF o])
    show "objs_same k k'" using ipc_objs_same [OF k0(2)] z(1) by (simp add: objs_same_def)
    show "sem_inv k'" using o a z(2) ipc_sameD(1) [OF k0(2)] by (simp add: objects_ok_def sem_inv_def)
    show "mq_ok (msgqueues k' x)" if "mq_ok (msgqueues k x)" for x
      using that a z(5) [of x] ipc_sameD(5) [OF k0(2)] by (cases "x = q") simp_all
    show "mb_ok (mailboxes k' b)" if "mb_ok (mailboxes k b)" for b using that z(3) ipc_sameD(4) [OF k0(2)] by simp
  qed
  ultimately show ?thesis by (simp add: sys_inv_def)
qed

text \<open>A call that does not wait adds nobody to the waiting lists of a channel.\<close>

lemma chan_send_poll:
  assumes "(r, q', rs', ss') = chan_send enq cap w v (q, rs, ss)" "w_timeout w = 0"
  shows "set rs' \<subseteq> set rs" "set ss' \<subseteq> set ss"
  using assms list.set_sel(2) [of rs] by (cases rs; auto simp: chan_send_def split: if_splits)+

lemma chan_recv_poll:
  assumes "(r, q', rs', ss') = chan_recv enq w view (q, rs, ss)" "w_timeout w = 0"
  shows "set rs' \<subseteq> set rs" "set ss' \<subseteq> set ss"
  using assms by (cases ss; auto simp: chan_recv_def split: if_splits list.splits)+

lemma idle_off_lists:
  assumes "running i k" "wait_list l"
  shows "i \<notin> set (tlists k l)"
  using runnable_off_wait_lists [OF base_invD(1) [OF runningD(1) [OF assms(1)]] runningD(5) [OF assms(1)] assms(2)] .

lemma mb_send_loop_sys:
  assumes i: "sys_inv i k" and ty: "rt_object_get_type k (OMb b) = RT_Object_Class_MailBox" and w: "may_wait i time k"
    and c: "rt_current_thread k = Some t"
  shows "\<exists>r k'. mb_send_loop b v (Some t) time k = Some (r, k') \<and> sys_inv i k'"
proof -
  have r: "running i k" and o: "objects_ok k" using i by (simp_all add: sys_inv_def)
  have ok: "mb_ok (mailboxes k b)" "ipc_flag (obj_flag (objs k (OMb b)))" using o ty by (simp_all add: objects_ok_def)
  have t: "time \<noteq> 0 \<longrightarrow> in_thread k t" "time_ok time" using may_wait_in_thread [OF r w] c by auto
  obtain x k' where k': "mb_send_loop b v (Some t) time k = Some (x, k')" "mbc.stepped b k k'"
    "(x, mb_abs k' b) = chan_send (enqueue (obj_flag (objs k (OMb b))) (prio k) t) (mb_cap (mailboxes k b))
      \<lparr>w_thread = t, w_timeout = time, w_start = rt_tick k\<rparr> v (mb_abs k b)"
    using mb_send_loop_refines [OF runningD(1) [OF r] ok t(2,1), of v] by blast
  have "i \<notin> set (tlists k' (LMb b)) \<and> i \<notin> set (tlists k' (LMbSender b))" if "rt_current_thread k = Some i"
    using chan_send_poll [OF k'(3) [unfolded mb_abs_def]] w that idle_off_lists [OF r, of "LMb b"]
      idle_off_lists [OF r, of "LMbSender b"] by (auto simp: may_wait_def)
  with mb_stepped_sys [OF i k'(2)] k'(1) show ?thesis by blast
qed

lemma mb_send_sys:
  assumes i: "sys_inv i k" and a: "allowed i (Mb_send b v time) k"
  shows "\<exists>k'. exec cb (Mb_send b v time) k = Some k' \<and> sys_inv i k'"
proof (cases "mb_full (mailboxes k b) \<and> time = 0")
  case True
  then show ?thesis using a i by (simp add: rt_mb_send_wait_def)
next
  case False
  obtain t where t: "rt_current_thread k = Some t" using i by (auto simp: sys_inv_def running_def base_inv_def)
  then have "rt_mb_send_wait b v time k = mb_send_loop b v (Some t) time k"
    using False a by (auto simp: rt_mb_send_wait_def rt_thread_self_def)
  with mb_send_loop_sys [OF i _ _ t, of b time v] a show ?thesis by auto
qed

lemma mb_send_retry_sys:
  assumes i: "sys_inv i k" and a: "allowed i (Mb_send_retry b v w) k"
  shows "\<exists>k'. exec cb (Mb_send_retry b v w) k = Some k' \<and> sys_inv i k'"
  using mb_send_loop_sys [OF i, of b "remaining w (rt_tick k)" "w_thread w" v] a i
  by (cases "th_error (threads k (w_thread w)) = RT_EOK") (auto simp: rt_mb_send_wait_resumed_def)

lemma mb_recv_sys:
  assumes i: "sys_inv i k" and a: "allowed i (Mb_recv b time) k"
  shows "\<exists>k'. exec cb (Mb_recv b time) k = Some k' \<and> sys_inv i k'"
proof -
  have r: "running i k" and o: "objects_ok k" using i by (simp_all add: sys_inv_def)
  have ty: "rt_object_get_type k (OMb b) = 5" and w: "may_wait i time k" using a by simp_all
  have ok: "mb_ok (mailboxes k b)" "ipc_flag (obj_flag (objs k (OMb b)))" using o ty by (simp_all add: objects_ok_def)
  obtain t where t: "rt_current_thread k = Some t" "time \<noteq> 0 \<longrightarrow> in_thread k t" "time_ok time"
    using may_wait_in_thread [OF r w] by auto
  obtain x k' where k': "rt_mb_recv b time k = Some (x, k')" "mbc.stepped b k k'"
    "(x, mb_abs k' b) = chan_recv (enqueue (obj_flag (objs k (OMb b))) (prio k) t)
      \<lparr>w_thread = t, w_timeout = time, w_start = rt_tick k\<rparr> id (mb_abs k b)"
    using rt_mb_recv_step [OF runningD(1) [OF r] ok(1) ty ok(2) t(3,1,2)] by blast
  have "i \<notin> set (tlists k' (LMb b)) \<and> i \<notin> set (tlists k' (LMbSender b))" if "rt_current_thread k = Some i"
    using chan_recv_poll [OF k'(3) [unfolded mb_abs_def]] w that idle_off_lists [OF r, of "LMb b"]
      idle_off_lists [OF r, of "LMbSender b"] by (auto simp: may_wait_def)
  with mb_stepped_sys [OF i k'(2)] k'(1) show ?thesis by simp
qed

lemma mq_send_sys:
  assumes i: "sys_inv i k" and a: "allowed i (Mq_send q msg time) k"
  shows "\<exists>k'. exec cb (Mq_send q msg time) k = Some k' \<and> sys_inv i k'"
proof -
  have r: "running i k" and o: "objects_ok k" using i by (simp_all add: sys_inv_def)
  have ty: "rt_object_get_type k (OMq q) = 6" and ne: "msg \<noteq> []" and w: "may_wait i time k" using a by simp_all
  have ok: "mq_ok (msgqueues k q)" "ipc_flag (obj_flag (objs k (OMq q)))" using o ty by (simp_all add: objects_ok_def)
  obtain t where t: "rt_current_thread k = Some t" "time \<noteq> 0 \<longrightarrow> in_thread k t" "time_ok time"
    using may_wait_in_thread [OF r w] by auto
  obtain x k' where k': "rt_mq_send_wait q msg time k = Some (x, k')" "mqc.stepped q k k'"
    "(x, mq_abs k' q) =
      (if unat (mq_msg_size (msgqueues k q)) < length msg then (Done (- RT_ERROR), mq_abs k q)
       else chan_send (enqueue (obj_flag (objs k (OMq q))) (prio k) t) (mq_cap (msgqueues k q))
         \<lparr>w_thread = t, w_timeout = time, w_start = rt_tick k\<rparr> (mq_pad msg (msgqueues k q)) (mq_abs k q))"
    using rt_mq_send_wait_step [OF runningD(1) [OF r] ok(1) ty ok(2) t(3) ne t(1,2)] by blast
  have "i \<notin> set (tlists k' (LMq q)) \<and> i \<notin> set (tlists k' (LMqSender q))" if c: "rt_current_thread k = Some i"
  proof (cases "unat (mq_msg_size (msgqueues k q)) < length msg")
    case True
    then show ?thesis using k'(3) idle_off_lists [OF r] by (simp add: mq_abs_def)
  next
    case False
    then show ?thesis
      using chan_send_poll [OF k'(3) [unfolded mq_abs_def if_not_P [OF False]]] w c idle_off_lists [OF r, of "LMq q"]
        idle_off_lists [OF r, of "LMqSender q"] by (auto simp: may_wait_def)
  qed
  with mq_stepped_sys [OF i k'(2)] k'(1) show ?thesis by simp
qed

lemma mq_recv_sys:
  assumes i: "sys_inv i k" and a: "allowed i (Mq_recv q len time) k"
  shows "\<exists>k'. exec cb (Mq_recv q len time) k = Some k' \<and> sys_inv i k'"
proof -
  have r: "running i k" and o: "objects_ok k" using i by (simp_all add: sys_inv_def)
  have ty: "rt_object_get_type k (OMq q) = 6" and ne: "len \<noteq> 0" and w: "may_wait i time k" using a by simp_all
  have ok: "mq_ok (msgqueues k q)" "ipc_flag (obj_flag (objs k (OMq q)))" using o ty by (simp_all add: objects_ok_def)
  obtain t where t: "rt_current_thread k = Some t" "time \<noteq> 0 \<longrightarrow> in_thread k t" "time_ok time"
    using may_wait_in_thread [OF r w] by auto
  obtain x k' where k': "rt_mq_recv q len time k = Some (x, k')" "mqc.stepped q k k'"
    "(x, mq_abs k' q) = chan_recv (enqueue (obj_flag (objs k (OMq q))) (prio k) t)
      \<lparr>w_thread = t, w_timeout = time, w_start = rt_tick k\<rparr> (take len) (mq_abs k q)"
    using rt_mq_recv_step [OF runningD(1) [OF r] ok(1) ty ok(2) t(3) ne t(1,2)] by blast
  have "i \<notin> set (tlists k' (LMq q)) \<and> i \<notin> set (tlists k' (LMqSender q))" if "rt_current_thread k = Some i"
    using chan_recv_poll [OF k'(3) [unfolded mq_abs_def]] w that idle_off_lists [OF r, of "LMq q"]
      idle_off_lists [OF r, of "LMqSender q"] by (auto simp: may_wait_def)
  with mq_stepped_sys [OF i k'(2)] k'(1) show ?thesis by simp
qed

text \<open>Sleeping, yielding and the scheduler lock.\<close>

lemma sleep_sys:
  assumes i: "sys_inv i k" and a: "allowed i (Sleep n) k"
  shows "\<exists>k'. exec cb (Sleep n) k = Some k' \<and> sys_inv i k'"
proof -
  have r: "running i k" and o: "objects_ok k" using i by (simp_all add: sys_inv_def)
  have n: "n \<noteq> 0" "n < RT_TICK_HALF" "rt_current_thread k \<noteq> Some i" "rt_scheduler_lock_nest k = 0" using a by simp_all
  obtain t where t: "in_thread k t" using running_in_thread [OF r n(4)] .
  note b = base_invD [OF runningD(1) [OF r]]
  have ty: "rt_object_get_type k (OThread t) = 1"
    using live_timer_ok [OF b(2), of t] in_threadD(2) [OF t] by (simp add: live_def thread_timer_ok_def)
  obtain k' where k': "sleep_for t n k = Some k'" "sched_inv k'" "timer_inv k'" "ipc_same k k'" "rt_current_thread k' \<noteq> None"
    "n \<noteq> 0 \<longrightarrow> orderly k k'" "\<forall>u. u \<noteq> t \<longrightarrow> runnable k' u = runnable k u"
    "\<forall>l. (\<forall>p. l \<noteq> LReady p) \<longrightarrow> tlists k' l = removeAll t (tlists k l)"
    by (rule sleep_for_step [OF b(1,2) in_threadD(1,2) [OF t] n(2)])
  have "t \<noteq> i" using n(3) in_threadD(1) [OF t] by auto
  then have "running i k'"
    using k' n(1) runningD(5) [OF r] ipc_sameD(10) [OF k'(4)] by (intro running_orderly [OF r]) (simp_all add: base_inv_def)
  moreover have "objects_ok k'" by (rule objects_ok_ipc [OF o k'(4)]) (simp add: k'(8))
  ultimately show ?thesis
    using k'(1) in_threadD(1) [OF t] ty by (simp add: rt_thread_sleep_def rt_thread_self_def sys_inv_def)
qed

lemma timer_wait_sys:
  assumes i: "sys_inv i k" and a: "allowed i Timer_wait k"
  shows "\<exists>k'. exec cb Timer_wait k = Some k' \<and> sys_inv i k'"
proof -
  have r: "running i k" and o: "objects_ok k" using i by (simp_all add: sys_inv_def)
  have n: "rt_soft_timer_list k = []" "rt_current_thread k \<noteq> Some i" "rt_scheduler_lock_nest k = 0" using a by simp_all
  obtain t where t: "in_thread k t" using running_in_thread [OF r n(3)] .
  note b = base_invD [OF runningD(1) [OF r]]
  have "runnable k t" using in_threadD(2) [OF t] by (simp add: runnable_def)
  then obtain k1 where k1: "rt_thread_suspend t k = Some (RT_EOK, k1)" "parked t k k1"
    by (rule rt_thread_suspend_step [OF b(1,2)])
  note p = parkedD [OF k1(2)]
  have "rt_current_thread k1 \<noteq> None" using p(8) b(3) by simp
  with p(1) obtain k' where k': "rt_schedule k1 = Some k'" "resched k1 k'" by (rule rt_schedule_step)
  note d = reschedD [OF k'(2)]
  have ti: "t \<noteq> i" using n(2) in_threadD(1) [OF t] by auto
  have "orderly k k'"
    using p(11) steady_but [OF p(10) ipc_sameD(9) [OF p(3)]] by (intro orderly_schedule [OF k'(1) p(1)]) auto
  moreover have ipc: "ipc_same k k'" using ipc_same_trans [OF p(3) d(2)] .
  moreover have "runnable k' i"
    using d(6) [of i] p(6) [of i] ti runningD(5) [OF r] by (simp add: runnable_def thread_stat_def)
  moreover have "base_inv k'"
    using d(1,8) timer_inv_resched [OF k'(2) p(2)] \<open>rt_current_thread k1 \<noteq> None\<close> by (simp add: base_inv_def)
  ultimately have "running i k'" using ipc_sameD(10) [OF ipc] by (intro running_orderly [OF r]) simp_all
  moreover have "objects_ok k'"
    by (rule objects_ok_ipc [OF o ipc]) (simp add: resched_wait_list [OF k'(2)] p(7))
  ultimately show ?thesis
    using k1(1) k'(1) in_threadD(1) [OF t] n(1)
    by (simp add: rt_thread_timer_entry_wait_def rt_timer_list_next_timeout_def rt_thread_self_def sys_inv_def Let_def)
qed

lemma schedule_sys:
  assumes b: "base_inv k" "steady k" "rt_interrupt_nest k = 0" "runnable k i" and o: "objects_ok k"
  shows "\<exists>k'. rt_schedule k = Some k' \<and> sys_inv i k'"
proof -
  obtain k' where k': "rt_schedule k = Some k'" "resched k k'" using rt_schedule_step [OF base_invD(1,3) [OF b(1)]] .
  note d = reschedD [OF k'(2)]
  have "orderly k k'" by (rule orderly_schedule [OF k'(1) base_invD(1) [OF b(1)]]) simp_all
  moreover have "dispatched k'" if "rt_scheduler_lock_nest k' = 0"
    using rt_schedule_dispatched [OF k'(1) base_invD(1) [OF b(1)] _ b(4)] rt_schedule_frames(4) [OF k'(1) base_invD(1) [OF b(1)]]
      that by simp
  ultimately have "running i k'"
    using b d(1,6,8) timer_inv_resched [OF k'(2) base_invD(2) [OF b(1)]] ipc_sameD(10) [OF d(2)]
    by (simp add: running_def base_inv_def orderly_def)
  moreover have "objects_ok k'" by (rule objects_ok_ipc [OF o d(2)]) (simp add: resched_wait_list [OF k'(2)])
  ultimately show ?thesis using k'(1) by (simp add: sys_inv_def)
qed

lemma yield_sys: "sys_inv i k \<Longrightarrow> \<exists>k'. exec cb Yield k = Some k' \<and> sys_inv i k'"
  using schedule_sys [of k i] by (auto simp: sys_inv_def running_def rt_thread_yield_def)

lemma lock_reads [simp]:
  "base_inv (k\<lparr>rt_scheduler_lock_nest := n\<rparr>) = base_inv k" "steady (k\<lparr>rt_scheduler_lock_nest := n\<rparr>) = steady k"
  "runnable (k\<lparr>rt_scheduler_lock_nest := n\<rparr>) t = runnable k t" "objects_ok (k\<lparr>rt_scheduler_lock_nest := n\<rparr>) = objects_ok k"
proof -
  let ?k = "k\<lparr>rt_scheduler_lock_nest := n\<rparr>"
  have t: "timers_same k ?k" "timers_same ?k k" by (simp_all add: timers_same_def)
  show "steady ?k = steady k" by (rule steady_cong [OF t(1)]) simp
  show "base_inv ?k = base_inv k" using base_inv_cong [of ?k k, OF _ _ _ _ t(1)] base_inv_cong [of k ?k, OF _ _ _ _ t(2)] by auto
  show "runnable ?k t = runnable k t" by (simp add: runnable_def thread_stat_def)
  show "objects_ok ?k = objects_ok k" by (simp add: objects_ok_def sem_inv_def rt_object_get_type_def)
qed

lemma enter_critical_sys:
  assumes "sys_inv i k" "allowed i Enter_critical k"
  shows "\<exists>k'. exec cb Enter_critical k = Some k' \<and> sys_inv i k'"
proof -
  have "rt_scheduler_lock_nest k + 1 \<noteq> 0" using assms(2) by (metis allowed.simps(12) add_eq_0_iff2)
  then show ?thesis using assms(1) by (simp add: sys_inv_def running_def rt_enter_critical_def)
qed

lemma exit_critical_sys:
  assumes "sys_inv i k"
  shows "\<exists>k'. exec cb Exit_critical k = Some k' \<and> sys_inv i k'"
proof -
  let ?n = "rt_scheduler_lock_nest k - 1"
  have i: "base_inv k" "steady k" "rt_interrupt_nest k = 0" "runnable k i" "objects_ok k" "rt_current_thread k \<noteq> None"
    using assms by (auto simp: sys_inv_def running_def base_inv_def)
  show ?thesis
  proof (cases "sint ?n \<le> 0")
    case True
    with schedule_sys [of "k\<lparr>rt_scheduler_lock_nest := 0\<rparr>" i] i show ?thesis by (simp add: rt_exit_critical_def Let_def)
  next
    case False
    then have "?n \<noteq> 0" by auto
    then have "sys_inv i (k\<lparr>rt_scheduler_lock_nest := ?n\<rparr>)" using i by (simp add: sys_inv_def running_def)
    then show ?thesis using False by (simp add: rt_exit_critical_def Let_def)
  qed
qed

text \<open>Initialising an object: a point where other threads may get the processor, then the registration.\<close>

lemma critical_section_sys:
  assumes "sys_inv i k" "rt_scheduler_lock_nest k \<noteq> - 1"
  obtains k' where "rt_exit_critical (rt_enter_critical k) = Some k'" "sys_inv i k'" "resched k k'"
proof -
  have s: "sched_inv k" using assms(1) by (auto simp: sys_inv_def running_def base_inv_def)
  have "sys_inv i (rt_enter_critical k)" using enter_critical_sys [OF assms(1)] assms(2) by simp
  from exit_critical_sys [OF this] obtain k' where "rt_exit_critical (rt_enter_critical k) = Some k'" "sys_inv i k'" by auto
  moreover from critical_section_step [OF s] this(1) have "resched k k'" by (metis option.inject)
  ultimately show ?thesis by (rule that)
qed

lemma object_init_sys:
  assumes "sys_inv i k" "rt_scheduler_lock_nest k \<noteq> - 1" "ty \<in> set rt_object_container" "r \<notin> set (object_list k ty)"
  obtains k' where "sys_inv i k'" "resched k k'" "rt_object_init r ty name k =
    Some (object_list_push ty r (upd_obj r (\<lambda>ob. ob\<lparr>obj_type := ty OR RT_Object_Class_Static,
      obj_name := rt_strncpy_name name\<rparr>) k'))"
proof -
  obtain k' where k': "rt_exit_critical (rt_enter_critical k) = Some k'" "sys_inv i k'" "resched k k'"
    using critical_section_sys [OF assms(1,2)] .
  have "object_list (rt_enter_critical k) = object_list k" by (simp add: rt_enter_critical_def)
  with assms(3,4) k' show ?thesis by (intro that [of k']) (auto simp: rt_object_init_def get_information_eq)
qed

text \<open>What the registration of an object other than a thread or a timer does not touch.\<close>

definition sched_view :: "kernel \<Rightarrow> _" where
  "sched_view k = (threads k, tlists k, rt_thread_ready_priority_group k, rt_current_thread k, timers k, rt_timer_list k,
     rt_soft_timer_list k, rt_tick k, rt_scheduler_lock_nest k, rt_interrupt_nest k,
     (\<lambda>t. objs k (OThread t)), (\<lambda>m. objs k (OTimer m)))"

lemma running_view:
  assumes "running i k" "sched_view k' = sched_view k"
  shows "running i k'"
proof -
  note v = assms(2) [unfolded sched_view_def, simplified]
  have o: "objs k' (OThread t) = objs k (OThread t)" "objs k' (OTimer m) = objs k (OTimer m)" for t m
    using v by (simp_all add: fun_eq_iff)
  have r: "thread_stat k' t = thread_stat k t" "runnable k' t = runnable k t" "live k' t = live k t" "prio k' t = prio k t" for t
    using v by (simp_all add: thread_stat_def runnable_def live_def prio_def)
  have f: "tm_flag k' m = tm_flag k m" "listed k' m = listed k m" "timeout_tick k' = timeout_tick k" for m
    using v o by (simp_all add: tm_flag_def listed_def timeout_tick_def fun_eq_iff)
  have "sched_inv k' = sched_inv k" using v by (intro sched_inv_cong) simp_all
  moreover have "timer_inv k' = timer_inv k"
    using v r f o by (simp add: timer_inv_def timer_lists_ok_def thread_timer_ok_def rt_object_get_type_def)
  moreover have "steady k' = steady k" using v f by (simp add: steady_def periods_ok_def due_timers_def due_def)
  moreover have "dispatched k' = dispatched k" using v r by (intro dispatched_cong) simp_all
  ultimately show ?thesis using assms(1) v r by (simp add: running_def base_inv_def)
qed

lemma sem_init_sys:
  assumes i: "sys_inv i k" and a: "allowed i (Sem_init s name v flag) k"
  shows "\<exists>k'. exec cb (Sem_init s name v flag) k = Some k' \<and> sys_inv i k'"
proof -
  have g: "OSem s \<notin> set (object_list k 2)" "tlists k (LSem s) = []" "v < 0x10000" "ipc_flag flag" "rt_scheduler_lock_nest k \<noteq> - 1"
    using a by simp_all
  have "2 \<in> set rt_object_container" by (simp add: rt_object_container_def)
  then obtain k1 where k1: "sys_inv i k1" "resched k k1" "rt_object_init (OSem s) 2 name k =
      Some (object_list_push 2 (OSem s) (upd_obj (OSem s) (\<lambda>ob. ob\<lparr>obj_type := 2 OR RT_Object_Class_Static,
        obj_name := rt_strncpy_name name\<rparr>) k1))" (is "_ = Some ?k2")
    using object_init_sys [OF i g(5) _ g(1)] by blast
  let ?k' = "upd_obj (OSem s) (\<lambda>ob. ob\<lparr>obj_flag := flag\<rparr>) (set_sem_value s (\<lambda>_. ucast v) (rt_ipc_object_init (LSem s) ?k2))"
  have tl: "tlists k1 (LSem s) = []" using resched_wait_list [OF k1(2)] g(2) by simp
  then have same: "(tlists k1)(LSem s := []) = tlists k1" by auto
  have "running i ?k'"
    by (rule running_view [of i k1]) (use k1(1) same in \<open>simp_all add: sys_inv_def sched_view_def upd_obj_def set_sem_value_def
        rt_ipc_object_init_def object_list_push_def\<close>)
  moreover have "objects_ok ?k'"
    using k1(1) g(4) tl by (auto simp: sys_inv_def objects_ok_def sem_inv_def rt_object_get_type_def upd_obj_def set_sem_value_def
        rt_ipc_object_init_def object_list_push_def)
  ultimately show ?thesis using k1(3) g(3) by (simp add: rt_sem_init_def sys_inv_def Let_def)
qed

lemma mb_init_sys:
  assumes i: "sys_inv i k" and a: "allowed i (Mb_init b name pool len flag) k"
  shows "\<exists>k'. exec cb (Mb_init b name pool len flag) k = Some k' \<and> sys_inv i k'"
proof -
  have g: "OMb b \<notin> set (object_list k 5)" "tlists k (LMb b) = []" "tlists k (LMbSender b) = []" "ipc_flag flag"
    "rt_scheduler_lock_nest k \<noteq> - 1" "0 < len" "len < 0x10000" "length pool = unat len"
    using a by simp_all
  have "5 \<in> set rt_object_container" by (simp add: rt_object_container_def)
  then obtain k1 where k1: "sys_inv i k1" "resched k k1" "rt_object_init (OMb b) 5 name k =
      Some (object_list_push 5 (OMb b) (upd_obj (OMb b) (\<lambda>ob. ob\<lparr>obj_type := 5 OR RT_Object_Class_Static,
        obj_name := rt_strncpy_name name\<rparr>) k1))" (is "_ = Some ?k2")
    using object_init_sys [OF i g(5) _ g(1)] by blast
  let ?mb = "\<lparr>mb_msg_pool = pool, mb_size = ucast len, mb_entry = 0, mb_in_offset = 0, mb_out_offset = 0\<rparr>"
  let ?k' = "rt_ipc_object_init (LMbSender b) (upd_mb b (\<lambda>_. ?mb)
      (rt_ipc_object_init (LMb b) (upd_obj (OMb b) (\<lambda>ob. ob\<lparr>obj_flag := flag\<rparr>) ?k2)))"
  have tl: "tlists k1 (LMb b) = []" "tlists k1 (LMbSender b) = []" using resched_wait_list [OF k1(2)] g(2,3) by simp_all
  then have same: "(tlists k1)(LMb b := [], LMbSender b := []) = tlists k1" by auto
  have "running i ?k'"
    by (rule running_view [of i k1]) (use k1(1) same in \<open>simp_all add: sys_inv_def sched_view_def upd_obj_def upd_mb_def
        rt_ipc_object_init_def object_list_push_def\<close>)
  moreover have "unat (ucast len :: u16) = unat len" using g(7) by (simp add: unsigned_ucast_eq word_less_nat_alt unsigned_take_bit_eq take_bit_nat_eq_self)
  then have "mb_ok ?mb" using g(6,8) by (simp add: mb_ok_def word_less_nat_alt)
  then have "objects_ok ?k'"
    using k1(1) g(4) by (auto simp: sys_inv_def objects_ok_def sem_inv_def rt_object_get_type_def upd_obj_def upd_mb_def
        rt_ipc_object_init_def object_list_push_def)
  ultimately show ?thesis using k1(3) by (simp add: rt_mb_init_def sys_inv_def Let_def)
qed

text \<open>The tick.\<close>

lemma nest_reads [simp]:
  "base_inv (k\<lparr>rt_interrupt_nest := n\<rparr>) = base_inv k" "steady (k\<lparr>rt_interrupt_nest := n\<rparr>) = steady k"
  "dispatched (k\<lparr>rt_interrupt_nest := n\<rparr>) = dispatched k" "runnable (k\<lparr>rt_interrupt_nest := n\<rparr>) t = runnable k t"
  "objects_ok (k\<lparr>rt_interrupt_nest := n\<rparr>) = objects_ok k"
proof -
  let ?k = "k\<lparr>rt_interrupt_nest := n\<rparr>"
  have t: "timers_same k ?k" "timers_same ?k k" by (simp_all add: timers_same_def)
  show "steady ?k = steady k" by (rule steady_cong [OF t(1)]) simp
  show "base_inv ?k = base_inv k" using base_inv_cong [of ?k k, OF _ _ _ _ t(1)] base_inv_cong [of k ?k, OF _ _ _ _ t(2)] by auto
  show "dispatched ?k = dispatched k" by (rule dispatched_cong) (simp_all add: thread_stat_def prio_def)
  show "runnable ?k t = runnable k t" by (simp add: runnable_def thread_stat_def)
  show "objects_ok ?k = objects_ok k" by (simp add: objects_ok_def sem_inv_def rt_object_get_type_def)
qed

lemma tick_sys:
  assumes g: "gentle cb" and i: "sys_inv i k"
  shows "\<exists>k'. exec cb Tick k = Some k' \<and> sys_inv i k'"
proof -
  let ?k = "rt_interrupt_enter k"
  let ?k1 = "?k\<lparr>rt_tick := rt_tick ?k + 1\<rparr>"
  have r: "running i k" and o: "objects_ok k" using i by (simp_all add: sys_inv_def)
  have "base_inv ?k" "steady ?k" using runningD(1,2) [OF r] by (simp_all add: rt_interrupt_enter_def)
  then obtain k' where k': "tick_step cb ?k = Some k'" "base_inv k'" "steady k'" "calm ?k1 k'"
    by (rule tick_step_ok [OF g]) blast
  note c = k'(4) [unfolded calm_def]
  have z: "rt_scheduler_lock_nest ?k1 = rt_scheduler_lock_nest k" "rt_interrupt_nest ?k1 = rt_interrupt_nest k + 1"
    "runnable ?k1 i = runnable k i" "objs_same k ?k1" "tlists ?k1 = tlists k" "sems ?k1 = sems k"
    "mailboxes ?k1 = mailboxes k" "msgqueues ?k1 = msgqueues k"
    by (simp_all add: rt_interrupt_enter_def runnable_def thread_stat_def objs_same_def)
  have "dispatched ?k1 = dispatched k"
    by (rule dispatched_cong) (simp_all add: rt_interrupt_enter_def thread_stat_def prio_def)
  then have "running i (rt_interrupt_leave k')"
    using r k'(2,3) c z ipc_sameD(10) [of ?k1 k'] by (simp add: running_def rt_interrupt_leave_def)
  moreover have "objects_ok k'"
  proof (rule objects_okI [OF o])
    show "objs_same k k'" using z(4) ipc_objs_same [of ?k1 k'] c by (simp add: objs_same_def)
    have "set (tlists k' (LSem s)) \<subseteq> set (tlists k (LSem s))" for s using c unfolding z(5) by simp
    then have "tlists k' (LSem s) = []" if "tlists k (LSem s) = []" for s using that by (metis set_empty subset_empty)
    then show "sem_inv k'" using o ipc_sameD(1) [of ?k1 k'] c z(6) by (simp add: objects_ok_def sem_inv_def)
  qed (use ipc_sameD(4,5) [of ?k1 k'] c z(7,8) in simp_all)
  ultimately show ?thesis using k'(1) by (simp add: SysTick_Handler_def sys_inv_def) (simp add: rt_interrupt_leave_def)
qed

section \<open>Runs\<close>

lemma exec_sys:
  assumes "gentle cb" "sys_inv i k" "allowed i c k"
  shows "\<exists>k'. exec cb c k = Some k' \<and> sys_inv i k'"
proof (cases c)
  case (Sem_init s name v flag)
  then show ?thesis using sem_init_sys [OF assms(2)] assms(3) by (simp only:)
next
  case (Mb_init b name pool len flag)
  then show ?thesis using mb_init_sys [OF assms(2)] assms(3) by (simp only:)
next
  case (Sem_take s time)
  then show ?thesis using sem_take_sys [OF assms(2)] assms(3) by (simp only:)
next
  case (Sem_release s)
  then show ?thesis using sem_release_sys [OF assms(2)] assms(3) by (simp only:)
next
  case (Mb_send b v time)
  then show ?thesis using mb_send_sys [OF assms(2)] assms(3) by (simp only:)
next
  case (Mb_send_retry b v w)
  then show ?thesis using mb_send_retry_sys [OF assms(2)] assms(3) by (simp only:)
next
  case (Mb_recv b time)
  then show ?thesis using mb_recv_sys [OF assms(2)] assms(3) by (simp only:)
next
  case (Mq_send q a time)
  then show ?thesis using mq_send_sys [OF assms(2)] assms(3) by (simp only:)
next
  case (Mq_recv q len time)
  then show ?thesis using mq_recv_sys [OF assms(2)] assms(3) by (simp only:)
next
  case (Sleep n)
  then show ?thesis using sleep_sys [OF assms(2)] assms(3) by (simp only:)
next
  case Timer_wait
  then show ?thesis using timer_wait_sys [OF assms(2)] assms(3) by (simp only:)
next
  case Enter_critical
  then show ?thesis using enter_critical_sys [OF assms(2)] assms(3) by (simp only:)
qed (use yield_sys [OF assms(2)] exit_critical_sys [OF assms(2)] tick_sys [OF assms(1,2)] in \<open>simp_all only:\<close>)

lemma run_sys:
  assumes "gentle cb"
  shows "sys_inv i k \<Longrightarrow> \<exists>k'. run cb i cs k = Some k' \<and> sys_inv i k'"
proof (induction cs arbitrary: k)
  case (Cons c cs)
  show ?case
  proof (cases "allowed i c k")
    case True
    with exec_sys [OF assms Cons.prems] obtain k1 where "exec cb c k = Some k1" "sys_inv i k1" by blast
    with Cons.IH True show ?thesis by simp
  qed (use Cons in simp)
qed simp

end
