(* ===== verification/Spec2Isabelle.thy ===== *)
theory Spec2Isabelle
  imports Rt_List Ring_Buffer Ringblk Startup Completion Data_Queue Work_Queue Device Console Malloc_Align Kernel_Run
begin

text \<open>
  A verification development for the RT-Thread kernel of this repository (\<^verbatim>\<open>src/rt-thread/src\<close>), with the parts of
  the driver framework (\<^verbatim>\<open>src/rt-thread/components/drivers/src\<close>) that schedule threads and pass data. All paths below are
  under \<^verbatim>\<open>src/rt-thread/\<close>. The configuration is the one of \<^verbatim>\<open>src/rtconfig.h\<close>: one processor, 32 priorities, 1000 ticks per
  second, a timer list with one row, assertions enabled, no signals, no modules, the small memory allocator.

  \<^bold>\<open>The program and its parts.\<close>
  Threads run on one processor. The scheduler keeps one ready list for each priority and a bitmap of the priorities that
  have a ready thread; a thread that waits is suspended, off the ready lists, usually on the waiting list of an object,
  and usually with its own timer running. The tick interrupt advances the clock, ends time slices and runs the timers that
  are due; the timeout of a thread timer makes the thread ready again. Semaphores, mutexes, event sets, mailboxes, message
  queues and memory pools block and wake threads through these operations; completions, data queues, wait queues, work
  queues and the device layer do so for drivers. The idle thread frees deleted threads. The heap serves all of them and is
  itself protected by a semaphore. The kernel brings its own memory, string and formatting functions, which the console uses to
  write to a device.

  \<^bold>\<open>Theories and sources.\<close>
  \<^item> \<^verbatim>\<open>Prelude\<close>, \<^verbatim>\<open>Kernel_State\<close>: integer types, error codes, structures and globals (\<^verbatim>\<open>include/rtdef.h\<close>). The record \<open>kernel\<close>
    holds every structure and file-level variable; a pointer to a structure is its index in a map of the record.
  \<^item> \<^verbatim>\<open>Rt_List\<close>: the intrusive lists (\<^verbatim>\<open>include/rtservice.h\<close>) on a store of nodes. The locale \<open>list_contract\<close>, interpreted on the
    pointer code, justifies the HOL lists of the other theories.
  \<^item> \<^verbatim>\<open>Scheduler\<close> (\<^verbatim>\<open>scheduler.c\<close>): bitmap, ready lists, \<^verbatim>\<open>rt_schedule\<close>, scheduler lock; invariant \<open>sched_inv\<close>.
  \<^item> \<^verbatim>\<open>Kobject\<close> (\<^verbatim>\<open>object.c\<close>): object lists by class, lookup by name; invariant \<open>obj_inv\<close>, locale \<open>registry\<close>.
  \<^item> \<^verbatim>\<open>Timer_Base\<close>, \<^verbatim>\<open>Timer\<close> (\<^verbatim>\<open>timer.c\<close>): creation, start, stop and control of timers, the check loops; invariant \<open>timer_inv\<close>.
  \<^item> \<^verbatim>\<open>Thread_Core\<close>, \<^verbatim>\<open>Thread\<close>, \<^verbatim>\<open>Idle\<close> (\<^verbatim>\<open>thread.c\<close>, \<^verbatim>\<open>idle.c\<close>): life of a thread from creation to the release of its stack.
  \<^item> \<^verbatim>\<open>Clock\<close> (\<^verbatim>\<open>clock.c\<close>, \<^verbatim>\<open>irq.c\<close>): the tick, time slices, interrupt nesting.
  \<^item> \<^verbatim>\<open>Ipc_Core\<close>, \<^verbatim>\<open>Semaphore\<close>, \<^verbatim>\<open>Mutex\<close>, \<^verbatim>\<open>Event\<close>, \<^verbatim>\<open>Mailbox\<close>, \<^verbatim>\<open>Message_Queue\<close> (\<^verbatim>\<open>ipc.c\<close>): the waiting lists and the five objects.
    The locale \<open>wait_discipline\<close> covers the two orders of waiting. \<^verbatim>\<open>Queue_Spec\<close> states the contract of a bounded queue
    (locale \<open>bounded_queue\<close>) and \<^verbatim>\<open>Channel\<close> that of a queue with waiters on both sides (locale \<open>channel\<close>); mailboxes and message
    queues interpret both, the ring buffer interprets the first. \<^verbatim>\<open>Chain\<close> has the singly linked lists.
  \<^item> \<^verbatim>\<open>Mempool\<close> (\<^verbatim>\<open>mempool.c\<close>): pools of blocks of one size.
  \<^item> \<^verbatim>\<open>Small_Mem\<close>, \<^verbatim>\<open>Heap_Service\<close> (\<^verbatim>\<open>mem.c\<close>): the headers of the blocks and the first-fit search; the allocator with its
    semaphore as its callers see it (locale \<open>allocator\<close>).
  \<^item> \<^verbatim>\<open>Startup\<close> (\<^verbatim>\<open>components.c\<close>): from the board to the first thread.
  \<^item> \<^verbatim>\<open>Ring_Buffer\<close>, \<^verbatim>\<open>Completion\<close>, \<^verbatim>\<open>Data_Queue\<close>, \<^verbatim>\<open>Wait_Queue\<close>, \<^verbatim>\<open>Work_Queue\<close> (\<^verbatim>\<open>ringbuffer.c\<close>, \<^verbatim>\<open>completion.c\<close>, \<^verbatim>\<open>dataqueue.c\<close>,
    \<^verbatim>\<open>waitqueue.c\<close>, \<^verbatim>\<open>workqueue.c\<close>) and \<^verbatim>\<open>Device\<close> (\<^verbatim>\<open>device.c\<close>): what drivers are written with.
  \<^item> \<^verbatim>\<open>Slist\<close>, \<^verbatim>\<open>Ringblk\<close> (\<^verbatim>\<open>include/rtservice.h\<close>, \<^verbatim>\<open>ringblk_buf.c\<close>): the intrusive singly linked lists on a store of nodes (locale
    \<open>slist_contract\<close>, interpreted on the pointer code) and the ring buffer of blocks that is built with them.
  \<^item> \<^verbatim>\<open>Mem_Ops\<close>, \<^verbatim>\<open>C_String\<close>, \<^verbatim>\<open>Printf\<close>, \<^verbatim>\<open>Console\<close>, \<^verbatim>\<open>Malloc_Align\<close> (\<^verbatim>\<open>kservice.c\<close>): memory functions on a byte-addressed store with
    their word-wise fast paths, functions on strings, formatted output, the console on top of the device layer, aligned allocation
    on top of the heap.
  \<^item> \<^verbatim>\<open>Delay\<close>, \<^verbatim>\<open>Kernel_Run\<close>: what one tick does to a sleeping thread, and runs of the whole system. A value of \<open>call\<close> is a
    call of a thread or an interrupt (\<^verbatim>\<open>SysTick_Handler\<close> of \<^verbatim>\<open>src/drivers/drv_common.c\<close>), \<open>exec\<close> executes it with the operations of
    the component theories, \<open>allowed\<close> says when the running thread can make it, \<open>run\<close> executes the allowed ones of a sequence. In the runs a
    call on a message queue is not interrupted, and mutexes do not occur: \<open>rt_mutex_release_no_preemption\<close> of \<^verbatim>\<open>Mutex\<close> shows that
    releasing one can leave a more urgent thread waiting, which the dispatch property of the runs excludes.

  \<^bold>\<open>How code becomes definitions.\<close>
  A function of the source is a function of the same name from its arguments and the kernel state to its result and the new
  state. \<open>None\<close> is the result of a call that does not return: a failed \<^verbatim>\<open>RT_ASSERT\<close>, a null pointer that is followed, an access
  outside of an array. Integers keep their C width as words, so that priorities, counters, ticks and lengths wrap as they do
  on the machine.

  A call that can give up the processor in the middle is cut at the \<^verbatim>\<open>rt_schedule\<close> at which it does: \<open>rt_xxx\<close> returns
  \<open>Done r\<close>, or \<open>Blocked x\<close> with the local variables \<open>x\<close> that the rest needs, and \<open>rt_xxx_resumed x\<close> is the rest, executed
  when the thread runs again. Other threads and interrupts act between the two, on any state that satisfies the invariants.
  Where a function calls \<^verbatim>\<open>rt_schedule\<close> while its thread remains ready, the rest of the function is composed as if the thread
  got the processor back at once. Sections with interrupts disabled are definitions of their own where the code
  enables interrupts in between and the claim depends on it (message queues).

  Parameters stand for what the kernel calls and does not contain: timeout functions, cleanup functions, idle hooks,
  notification and wake functions, functions of work items and drivers, the initialisation table of the linker. The
  result of an allocation inside the kernel is a parameter too, so that its failure is a case of every statement. Hooks of
  the kernel (\<^verbatim>\<open>rt_xxx_sethook\<close>) are unset, as nothing in the kernel sets them. The contents of stacks and the
  context switch itself are not modelled; a switch assigns \<open>rt_current_thread\<close>.

  \<^bold>\<open>Loops.\<close>
  Loops over lists are structural recursion. The check of the timers takes fuel, since a timeout function can start timers
  again; one more than the number of listed timers is enough for timeout functions that do not touch timers
  (\<open>rt_timer_check_returns\<close>), and \<open>rt_timer_check_zero_period\<close> shows a timer for which no fuel is enough. The search for a
  free block, the movement of the lowest free block, the waking of all waiters, the reaping of dead threads and the
  completion loop are \<^verbatim>\<open>partial_function\<close>s into options, with theorems that they return.

  \<^bold>\<open>What is shown.\<close>
  \<open>base_inv\<close> joins the invariants of scheduler, objects, timers and threads; every operation keeps it. On top of that:
  \<^item> the thread that the scheduler puts on the processor is the first of the most urgent ready list; the tick does what it
    should to time slices and timers; the list of timers stays in order across the wrap-around of the tick counter;
  \<^item> each kernel object refines an abstract one (a counter, a lock with an owner and a queue, a bounded queue with waiters on both sides),
    on every branch, time-outs and errors included; a wake-up is not lost; waiters are served in their order;
  \<^item> memory that the allocators hand out is disjoint from what is in use, lies inside the heap and has the requested size; allocation
    fails only when no block fits; freeing and allocating again succeeds;
  \<^item> a deleted thread is freed by the idle thread exactly once, with its stack; the start of the system leaves a consistent
    kernel with the most urgent thread running;
  \<^item> work items are executed once and in the order of their submission; devices count their users;
  \<^item> from the start of the system on, any sequence of calls and ticks keeps these invariants, no call gets stuck, and the thread on
    the processor is a most urgent one whenever the scheduler is not locked (\<open>system_runs\<close>); a sleeping
    thread wakes up at the tick it asked for;
  \<^item> the word-wise loops of the memory functions have the effect of the byte-wise definition for every alignment, and touch no
    byte outside; formatted output never exceeds its buffer and is terminated; printed decimal numbers read back as they were;
  \<^item> blocks of the block ring buffer lie in the buffer and are disjoint from the blocks in use; aligned allocations are aligned, lie
    in an allocated block and are freed as that block.
  Some properties pin down where the code departs from its purpose: a priority raised by a mutex that is not lowered, a mutex whose
  release does not reschedule, a data queue whose counters wrap while it is full, a work item cancelled while its worker sleeps, a
  device that stays unusable after its driver fails to close it, a queue of ring blocks whose memory is handed out again
  while the queue is still to be read.

  \<^bold>\<open>Not modelled.\<close>
  \<^verbatim>\<open>memheap.c\<close>, \<^verbatim>\<open>slab.c\<close>, \<^verbatim>\<open>signal.c\<close> and \<^verbatim>\<open>cpu.c\<close> are not part of this configuration. Of \<^verbatim>\<open>kservice.c\<close> the version banner, the
  error number of interrupts and the assertion hook are left out; its \<^verbatim>\<open>__rt_ffs\<close> is in \<^verbatim>\<open>Scheduler\<close>. \<^verbatim>\<open>pipe.c\<close> of the driver framework is a
  file of the POSIX layer, whose descriptors and poll tables it needs, and is left out with it. The drivers themselves, the register
  level of the processor and of its peripherals (\<^verbatim>\<open>libcpu\<close>, \<^verbatim>\<open>src/libraries\<close>, \<^verbatim>\<open>src/drivers\<close> apart from the tick handler), where the behaviour is
  that of the hardware, are not modelled, nor are the shell, the file systems, the network and the application, which are
  clients of the kernel or third-party code.
\<close>

section \<open>From the start of the system to any later moment\<close>

lemma startup_dispatched:
  assumes "in_thread k w" "\<forall>t. thread_stat k t = RT_THREAD_READY \<longleftrightarrow> t = m \<or> t = i" "prio k w = 4" "prio k m = 10" "prio k i = 31"
  shows "dispatched k"
  using assms by (auto simp: dispatched_def in_thread_def)

lemma startup_sys_inv:
  assumes "board k0 = Some k" "board_ok k" "objects_ok k" "main_mem cf = Some m" "main_stack cf = Some s"
    and "distinct [m, timer_thread k, idle_thread cf]" "\<forall>t \<in> {m, timer_thread k, idle_thread cf}. unborn k t"
    and "timer_stack cf \<noteq> 0" "idle_stack cf \<noteq> 0"
  shows "\<exists>k1. rtthread_startup board cf k0 = Some k1 \<and> sys_inv (idle_thread cf) k1"
proof -
  let ?i = "idle_thread cf" and ?w = "timer_thread k"
  obtain k1 where k1: "rtthread_startup board cf k0 = Some k1" "base_inv k1" "in_thread k1 ?w"
    "\<forall>t. thread_stat k1 t = RT_THREAD_READY \<longleftrightarrow> t = m \<or> t = ?i"
    "\<forall>t. t \<notin> {m, ?w, ?i} \<longrightarrow> thread_stat k1 t = RT_THREAD_INIT"
    "prio k1 ?w = 4" "prio k1 m = 10" "prio k1 ?i = 31" "rt_timer_list k1 = []" "ipc_kept k k1"
    using rtthread_startup_step [of board k0 k cf m s] assms by blast
  have "dispatched k1" using startup_dispatched [OF k1(3,4,6-8)] .
  moreover have "steady k1" using k1(9) by (simp add: steady_def periods_ok_def by_timeout_def due_timers_def)
  ultimately have "running ?i k1" using k1(2-4) by (simp add: running_def in_thread_def runnable_def)
  moreover have "thread_stat k1 t \<noteq> RT_THREAD_SUSPEND" for t
  proof (cases "t = m \<or> t = ?i")
    case True
    then have "thread_stat k1 t = RT_THREAD_READY" using k1(4) by blast
    then show ?thesis by simp
  next
    case False
    then show ?thesis using k1(3,5) by (cases "t = ?w") (auto simp: in_thread_def)
  qed
  then have "tlists k1 (LSem x) = []" for x
    using waiter_suspended [OF base_invD(1) [OF k1(2)], of "LSem x"] by (cases "tlists k1 (LSem x)") auto
  then have "objects_ok k1"
    using assms(3) k1(10) by (simp add: objects_ok_def ipc_kept_def sem_inv_def rt_object_get_type_def)
  ultimately show ?thesis using k1(1) by (auto simp: sys_inv_def)
qed



end
